(* ===== verification/Carquet_Prelude.thy ===== *)
theory Carquet_Prelude
  imports Main "HOL-Library.Word" "HOL-Library.Monad_Syntax"
begin

unbundle bit_operations_syntax

text \<open>
  What every component shares: the machine integers of the C code, the status codes of
  include/carquet/error.h, the model of a read through a pointer, and the general lemmas on
  lists of bytes and bits.

  Memory is modelled as follows. A pointer into an array of bytes is the list of the bytes that
  may be read from it together with an offset. A read past the end of the list is undefined
  behaviour in C; here it is the value None of the option type, so that "the code never reads
  out of bounds" is the statement that a function's result is not None. Errors the code
  reports itself (status codes, return values such as -1) are ordinary values under Some.
\<close>

section \<open>Machine integers\<close>

type_synonym u8 = "8 word"
type_synonym u16 = "16 word"
type_synonym u32 = "32 word"
type_synonym u64 = "64 word"

text \<open>
  A \<open>size_t\<close> has 64 bits. It is modelled as a natural number, with the reduction written out
  by \<open>sz\<close> wherever a sum or product of the code could exceed the width.
\<close>

definition SIZE_MAX :: nat where
  "SIZE_MAX = 2 ^ 64 - 1"

definition sz :: "nat \<Rightarrow> nat" where
  "sz n = n mod 2 ^ 64"

lemma sz_id: "n < 2 ^ 64 \<Longrightarrow> sz n = n"
  by (simp add: sz_def)

lemma sz_bound: "sz n < 2 ^ 64"
  by (simp add: sz_def)

lemma sz_le: "sz n \<le> n"
  by (simp add: sz_def)

section \<open>Status codes\<close>

datatype carquet_status =
    CARQUET_OK
  | CARQUET_ERROR_INVALID_ARGUMENT
  | CARQUET_ERROR_OUT_OF_MEMORY
  | CARQUET_ERROR_NOT_IMPLEMENTED
  | CARQUET_ERROR_INTERNAL
  | CARQUET_ERROR_FILE_NOT_FOUND
  | CARQUET_ERROR_FILE_OPEN
  | CARQUET_ERROR_FILE_READ
  | CARQUET_ERROR_FILE_WRITE
  | CARQUET_ERROR_FILE_SEEK
  | CARQUET_ERROR_FILE_TRUNCATED
  | CARQUET_ERROR_INVALID_MAGIC
  | CARQUET_ERROR_INVALID_FOOTER
  | CARQUET_ERROR_INVALID_SCHEMA
  | CARQUET_ERROR_INVALID_METADATA
  | CARQUET_ERROR_INVALID_PAGE
  | CARQUET_ERROR_INVALID_ENCODING
  | CARQUET_ERROR_VERSION_NOT_SUPPORTED
  | CARQUET_ERROR_THRIFT_DECODE
  | CARQUET_ERROR_THRIFT_ENCODE
  | CARQUET_ERROR_THRIFT_INVALID_TYPE
  | CARQUET_ERROR_THRIFT_TRUNCATED
  | CARQUET_ERROR_DECODE
  | CARQUET_ERROR_ENCODE
  | CARQUET_ERROR_DICTIONARY_NOT_FOUND
  | CARQUET_ERROR_INVALID_RLE
  | CARQUET_ERROR_INVALID_DELTA
  | CARQUET_ERROR_COMPRESSION
  | CARQUET_ERROR_DECOMPRESSION
  | CARQUET_ERROR_UNSUPPORTED_CODEC
  | CARQUET_ERROR_INVALID_COMPRESSED_DATA
  | CARQUET_ERROR_TYPE_MISMATCH
  | CARQUET_ERROR_COLUMN_NOT_FOUND
  | CARQUET_ERROR_ROW_GROUP_NOT_FOUND
  | CARQUET_ERROR_END_OF_DATA
  | CARQUET_ERROR_CHECKSUM
  | CARQUET_ERROR_CRC_MISMATCH
  | CARQUET_ERROR_INVALID_STATE
  | CARQUET_ERROR_ALREADY_CLOSED
  | CARQUET_ERROR_NOT_OPEN

section \<open>Reads through a pointer\<close>

text \<open>\<open>rd p i\<close> is the byte \<open>p[i]\<close>; None when it lies outside the array.\<close>

definition rd :: "'a list \<Rightarrow> nat \<Rightarrow> 'a option" where
  "rd p i = (if i < length p then Some (p ! i) else None)"

lemma rd_in [simp]: "i < length p \<Longrightarrow> rd p i = Some (p ! i)"
  by (simp add: rd_def)

lemma rd_out [simp]: "length p \<le> i \<Longrightarrow> rd p i = None"
  by (simp add: rd_def)

lemma rd_Some_iff: "rd p i = Some b \<longleftrightarrow> i < length p \<and> b = p ! i"
  by (auto simp: rd_def)

text \<open>\<open>rd_bytes p i n\<close> is \<open>memcpy\<close> of \<open>n\<close> bytes from \<open>p + i\<close>.\<close>

definition rd_bytes :: "'a list \<Rightarrow> nat \<Rightarrow> nat \<Rightarrow> 'a list option" where
  "rd_bytes p i n = (if n = 0 then Some [] else
     if i + n \<le> length p then Some (take n (drop i p)) else None)"

lemma rd_bytes_in: "i + n \<le> length p \<Longrightarrow> rd_bytes p i n = Some (take n (drop i p))"
  by (simp add: rd_bytes_def)

lemma rd_bytes_Some: "rd_bytes p i n = Some bs \<Longrightarrow> length bs = n"
  by (auto simp: rd_bytes_def split: if_splits)

text \<open>\<open>wr m i b\<close> stores a byte, \<open>wr_bytes m i bs\<close> copies bytes; None is a write outside the array.\<close>

definition wr :: "'a list \<Rightarrow> nat \<Rightarrow> 'a \<Rightarrow> 'a list option" where
  "wr m i b = (if i < length m then Some (m[i := b]) else None)"

definition wr_bytes :: "'a list \<Rightarrow> nat \<Rightarrow> 'a list \<Rightarrow> 'a list option" where
  "wr_bytes m i bs = (if bs = [] then Some m else
     if i + length bs \<le> length m then Some (take i m @ bs @ drop (i + length bs) m) else None)"

lemma wr_in [simp]: "i < length m \<Longrightarrow> wr m i b = Some (m[i := b])"
  by (simp add: wr_def)

lemma wr_bytes_in: "i + length bs \<le> length m \<Longrightarrow> wr_bytes m i bs = Some (take i m @ bs @ drop (i + length bs) m)"
  by (auto simp: wr_bytes_def)

lemma wr_length: "wr m i b = Some m' \<Longrightarrow> length m' = length m"
  by (auto simp: wr_def split: if_splits)

lemma wr_bytes_length: "wr_bytes m i bs = Some m' \<Longrightarrow> length m' = length m"
  by (auto simp: wr_bytes_def split: if_splits)

text \<open>The collection of rewrite rules for the results of option-valued model functions.\<close>

named_theorems run_simps

lemma bind_Some_iff [run_simps]: "Option.bind m f = Some y \<longleftrightarrow> (\<exists>x. m = Some x \<and> f x = Some y)"
  by (cases m) auto

lemma bind_not_None: "m \<noteq> None \<Longrightarrow> (\<And>x. m = Some x \<Longrightarrow> f x \<noteq> None) \<Longrightarrow> Option.bind m f \<noteq> None"
  by (cases m) auto

section \<open>Words as little-endian bytes\<close>

text \<open>The value of a list of bytes in little-endian order, and the low \<open>n\<close> bytes of a value.\<close>

fun le_word :: "u8 list \<Rightarrow> 'a::len word" where
  "le_word [] = 0"
| "le_word (b # bs) = ucast b OR push_bit 8 (le_word bs)"

definition le_bytes :: "nat \<Rightarrow> 'a::len word \<Rightarrow> u8 list" where
  "le_bytes n w = map (\<lambda>i. ucast (drop_bit (8 * i) w)) [0..<n]"

lemma length_le_bytes [simp]: "length (le_bytes n w) = n"
  by (simp add: le_bytes_def)

lemma nth_le_bytes [simp]: "i < n \<Longrightarrow> le_bytes n w ! i = ucast (drop_bit (8 * i) w)"
  by (simp add: le_bytes_def)

lemma bit_le_word:
  "bit (le_word bs :: 'a::len word) n \<longleftrightarrow>
     n < LENGTH('a) \<and> n div 8 < length bs \<and> bit (bs ! (n div 8)) (n mod 8)"
proof (induction bs arbitrary: n)
  case Nil
  then show ?case by simp
next
  case (Cons b bs)
  show ?case
  proof (cases "n < 8")
    case True
    then show ?thesis by (auto simp: bit_simps)
  next
    case False
    then obtain m where n: "n = m + 8" by (metis add.commute le_Suc_ex not_le)
    have "\<not> bit b n" using False by (auto dest: bit_imp_le_length)
    moreover have "(m + 8) div 8 = Suc (m div 8)" by simp
    ultimately show ?thesis using Cons.IH [of m] by (auto simp: bit_simps n)
  qed
qed

lemma le_word_le_bytes: "le_word (le_bytes n w :: u8 list) = take_bit (8 * n) (w :: 'a::len word)"
proof (rule bit_word_eqI)
  fix k assume "k < LENGTH('a)"
  have *: "8 * (k div 8) + k mod 8 = k" by simp
  have "k < 8 * n \<longleftrightarrow> k div 8 < n" by auto
  then show "bit (le_word (le_bytes n w) :: 'a word) k = bit (take_bit (8 * n) w) k"
    using \<open>k < LENGTH('a)\<close> by (auto simp: bit_le_word bit_simps *)
qed

lemma le_bytes_le_word:
  assumes "length bs = n" and "8 * n \<le> LENGTH('a::len)"
  shows "le_bytes n (le_word bs :: 'a word) = bs"
proof (rule nth_equalityI)
  show "length (le_bytes n (le_word bs :: 'a word)) = length bs" using assms by simp
next
  fix i assume "i < length (le_bytes n (le_word bs :: 'a word))"
  then have i: "i < n" by simp
  show "le_bytes n (le_word bs :: 'a word) ! i = bs ! i"
  proof (rule bit_word_eqI)
    fix k assume "k < LENGTH(8)"
    then have k: "k < 8" by simp
    then have "8 * i + k < LENGTH('a)" using i assms by linarith
    then show "bit (le_bytes n (le_word bs :: 'a word) ! i) k = bit (bs ! i) k"
      using i k assms by (simp add: bit_le_word bit_simps)
  qed
qed

lemma fits_width: "unat v < 2 ^ bw \<Longrightarrow> take_bit bw (v :: 'a::len word) = v"
  by (simp add: word_unat_eq_iff unsigned_take_bit_eq take_bit_nat_eq_self)

section \<open>Lists\<close>

lemma drop_eq_Cons: "i < length xs \<Longrightarrow> drop i xs = xs ! i # drop (Suc i) xs"
  by (rule Cons_nth_drop_Suc [symmetric])

lemma take_add_drop: "take (m + n) xs = take m xs @ take n (drop m xs)"
  by (rule take_add)

lemma replicate_add_same: "replicate m x @ replicate n x = replicate (m + n) x"
  by (simp add: replicate_add)

lemma div8_less: "i < n \<Longrightarrow> i div 8 < (n + 7) div (8 :: nat)"
proof -
  assume "i < n"
  then have "(i + 8) div 8 \<le> (n + 7) div 8" by (intro div_le_mono) simp
  then show ?thesis by simp
qed

end
