(* ===== verification/Endian.thy ===== *)
theory Endian
  imports Carquet_Prelude
begin

text \<open>
  Component src/core/endian.h: the fixed-width little-endian readers and writers, the byte swaps,
  the base-128 varints of the Thrift and RLE formats and the zigzag transform.

  The readers have two bodies, chosen by the preprocessor: a \<open>memcpy\<close> on little-endian
  machines and the byte-by-byte one. They compute the same value; the model is the second,
  which does not depend on the machine. A pointer \<open>p\<close> plus an offset is the list \<open>p\<close> and the
  number \<open>o\<close>. Writers return the bytes they store. A float or double is its bit pattern, as the
  code itself copies it into an unsigned integer.
\<close>

section \<open>Byte swaps\<close>

definition carquet_bswap16 :: "u16 \<Rightarrow> u16" where
  "carquet_bswap16 x = drop_bit 8 x OR push_bit 8 x"

definition carquet_bswap32 :: "u32 \<Rightarrow> u32" where
  "carquet_bswap32 x =
     (drop_bit 24 x AND 0x000000FF) OR
     (drop_bit 8 x AND 0x0000FF00) OR
     (push_bit 8 x AND 0x00FF0000) OR
     (push_bit 24 x AND 0xFF000000)"

definition carquet_bswap64 :: "u64 \<Rightarrow> u64" where
  "carquet_bswap64 x =
     (drop_bit 56 x AND 0x00000000000000FF) OR
     (drop_bit 40 x AND 0x000000000000FF00) OR
     (drop_bit 24 x AND 0x0000000000FF0000) OR
     (drop_bit 8 x AND 0x00000000FF000000) OR
     (push_bit 8 x AND 0x000000FF00000000) OR
     (push_bit 24 x AND 0x0000FF0000000000) OR
     (push_bit 40 x AND 0x00FF000000000000) OR
     (push_bit 56 x AND 0xFF00000000000000)"

section \<open>Fixed-width readers and writers\<close>

definition carquet_read_u16_le :: "u8 list \<Rightarrow> nat \<Rightarrow> u16 option" where
  "carquet_read_u16_le p i = do {
     b0 \<leftarrow> rd p i;
     b1 \<leftarrow> rd p (i + 1);
     Some (ucast b0 OR push_bit 8 (ucast b1))
   }"

definition carquet_read_u32_le :: "u8 list \<Rightarrow> nat \<Rightarrow> u32 option" where
  "carquet_read_u32_le p i = do {
     b0 \<leftarrow> rd p i;
     b1 \<leftarrow> rd p (i + 1);
     b2 \<leftarrow> rd p (i + 2);
     b3 \<leftarrow> rd p (i + 3);
     Some (ucast b0 OR push_bit 8 (ucast b1) OR push_bit 16 (ucast b2) OR push_bit 24 (ucast b3))
   }"

definition carquet_read_u64_le :: "u8 list \<Rightarrow> nat \<Rightarrow> u64 option" where
  "carquet_read_u64_le p i = do {
     b0 \<leftarrow> rd p i;
     b1 \<leftarrow> rd p (i + 1);
     b2 \<leftarrow> rd p (i + 2);
     b3 \<leftarrow> rd p (i + 3);
     b4 \<leftarrow> rd p (i + 4);
     b5 \<leftarrow> rd p (i + 5);
     b6 \<leftarrow> rd p (i + 6);
     b7 \<leftarrow> rd p (i + 7);
     Some (ucast b0 OR push_bit 8 (ucast b1) OR push_bit 16 (ucast b2) OR push_bit 24 (ucast b3)
        OR push_bit 32 (ucast b4) OR push_bit 40 (ucast b5) OR push_bit 48 (ucast b6)
        OR push_bit 56 (ucast b7))
   }"

definition carquet_write_u16_le :: "u16 \<Rightarrow> u8 list" where
  "carquet_write_u16_le v = [ucast v, ucast (drop_bit 8 v)]"

definition carquet_write_u32_le :: "u32 \<Rightarrow> u8 list" where
  "carquet_write_u32_le v =
     [ucast v, ucast (drop_bit 8 v), ucast (drop_bit 16 v), ucast (drop_bit 24 v)]"

definition carquet_write_u64_le :: "u64 \<Rightarrow> u8 list" where
  "carquet_write_u64_le v =
     [ucast v, ucast (drop_bit 8 v), ucast (drop_bit 16 v), ucast (drop_bit 24 v),
      ucast (drop_bit 32 v), ucast (drop_bit 40 v), ucast (drop_bit 48 v), ucast (drop_bit 56 v)]"

text \<open>The readers are \<open>le_word\<close> of the bytes at the offset, the writers are \<open>le_bytes\<close>.\<close>

lemma upt_expand: "[0..<2] = [0, 1::nat]" "[0..<4] = [0, 1, 2, 3::nat]"
  "[0..<8] = [0, 1, 2, 3, 4, 5, 6, 7::nat]"
  by (simp_all add: upt_rec)

lemma write_le_bytes:
  "carquet_write_u16_le v = le_bytes 2 v"
  "carquet_write_u32_le w = le_bytes 4 w"
  "carquet_write_u64_le x = le_bytes 8 x"
  by (simp_all add: carquet_write_u16_le_def carquet_write_u32_le_def carquet_write_u64_le_def
      le_bytes_def upt_expand)

lemma length_write [simp]:
  "length (carquet_write_u16_le v) = 2"
  "length (carquet_write_u32_le w) = 4"
  "length (carquet_write_u64_le x) = 8"
  by (simp_all add: write_le_bytes)

lemma take_drop_nths:
  "i + 2 \<le> length p \<Longrightarrow> take 2 (drop i p) = [p ! i, p ! (i + 1)]"
  "i + 4 \<le> length p \<Longrightarrow> take 4 (drop i p) = [p ! i, p ! (i + 1), p ! (i + 2), p ! (i + 3)]"
  "i + 8 \<le> length p \<Longrightarrow> take 8 (drop i p) = [p ! i, p ! (i + 1), p ! (i + 2), p ! (i + 3),
     p ! (i + 4), p ! (i + 5), p ! (i + 6), p ! (i + 7)]"
  by (rule nth_equalityI; auto simp: less_Suc_eq numeral_eq_Suc)+

lemma read_u16_le_word:
  "carquet_read_u16_le p i = (if i + 2 \<le> length p then Some (le_word (take 2 (drop i p))) else None)"
  by (auto simp: carquet_read_u16_le_def rd_def take_drop_nths)

lemma read_u32_le_word:
  "carquet_read_u32_le p i = (if i + 4 \<le> length p then Some (le_word (take 4 (drop i p))) else None)"
  by (auto simp: carquet_read_u32_le_def rd_def take_drop_nths or.assoc)

lemma read_u64_le_word:
  "carquet_read_u64_le p i = (if i + 8 \<le> length p then Some (le_word (take 8 (drop i p))) else None)"
  by (auto simp: carquet_read_u64_le_def rd_def take_drop_nths or.assoc)

lemma take_bit_full_word: "take_bit n (w :: 'a::len word) = w" if "LENGTH('a) \<le> n"
  using that by (simp add: take_bit_word_eq_self)

lemma read_write_u16: "carquet_read_u16_le (pre @ carquet_write_u16_le v @ post) (length pre) = Some v"
  by (simp add: read_u16_le_word write_le_bytes le_word_le_bytes take_bit_full_word)

lemma read_write_u32: "carquet_read_u32_le (pre @ carquet_write_u32_le v @ post) (length pre) = Some v"
  by (simp add: read_u32_le_word write_le_bytes le_word_le_bytes take_bit_full_word)

lemma read_write_u64: "carquet_read_u64_le (pre @ carquet_write_u64_le v @ post) (length pre) = Some v"
  by (simp add: read_u64_le_word write_le_bytes le_word_le_bytes take_bit_full_word)


text \<open>Comparing two bytes bit by bit: closed goals the simplifier decides.\<close>

lemma byte_eqI:
  assumes "bit (a::u8) 0 = bit b 0" "bit a 1 = bit b 1" "bit a 2 = bit b 2" "bit a 3 = bit b 3"
    "bit a 4 = bit b 4" "bit a 5 = bit b 5" "bit a 6 = bit b 6" "bit a 7 = bit b 7"
  shows "a = b"
proof (rule bit_word_eqI)
  fix n assume "n < LENGTH(8)"
  then have "n = 0 \<or> n = 1 \<or> n = 2 \<or> n = 3 \<or> n = 4 \<or> n = 5 \<or> n = 6 \<or> n = 7" by auto
  then show "bit a n = bit b n" using assms by (elim disjE) simp_all
qed

lemma bswap16_le_bytes: "le_bytes 2 (carquet_bswap16 x) = rev (le_bytes 2 x)"
  by (simp add: le_bytes_def upt_expand carquet_bswap16_def, intro conjI byte_eqI)
    (simp_all add: bit_simps)

lemma bswap32_le_bytes: "le_bytes 4 (carquet_bswap32 x) = rev (le_bytes 4 x)"
  by (simp add: le_bytes_def upt_expand carquet_bswap32_def, intro conjI byte_eqI)
    (simp_all add: bit_simps)

lemma bswap64_le_bytes: "le_bytes 8 (carquet_bswap64 x) = rev (le_bytes 8 x)"
  by (simp add: le_bytes_def upt_expand carquet_bswap64_def, intro conjI byte_eqI)
    (simp_all add: bit_simps)

lemma le_bytes_inj:
  fixes x y :: "'a::len word"
  assumes "le_bytes n x = le_bytes n y" and "LENGTH('a) \<le> 8 * n"
  shows "x = y"
  using arg_cong [OF assms(1), of "le_word :: _ \<Rightarrow> 'a word"] assms(2)
  by (simp add: le_word_le_bytes take_bit_full_word)

lemma bswap_involution:
  "carquet_bswap16 (carquet_bswap16 v) = v"
  "carquet_bswap32 (carquet_bswap32 w) = w"
  "carquet_bswap64 (carquet_bswap64 x) = x"
  by (rule le_bytes_inj [of 2], simp_all add: bswap16_le_bytes,
      rule le_bytes_inj [of 4], simp_all add: bswap32_le_bytes,
      rule le_bytes_inj [of 8], simp_all add: bswap64_le_bytes)

section \<open>Varints\<close>

text \<open>
  \<open>carquet_encode_varint32\<close> and \<open>carquet_encode_varint64\<close> write seven bits a byte, low bits
  first, with the top bit set on every byte but the last. The model returns the bytes written;
  their number is what the C function returns.
\<close>

lemma drop_bit_7_less32: "\<not> (v :: u32) < 0x80 \<Longrightarrow> unat (drop_bit 7 v) < unat v"
  by (simp add: word_less_nat_alt unat_div drop_bit_eq_div)

lemma drop_bit_7_less64: "\<not> (v :: u64) < 0x80 \<Longrightarrow> unat (drop_bit 7 v) < unat v"
  by (simp add: word_less_nat_alt unat_div drop_bit_eq_div)

function carquet_encode_varint32 :: "u32 \<Rightarrow> u8 list" where
  "carquet_encode_varint32 v =
     (if v < 0x80 then [ucast v]
      else ucast ((v AND 0x7F) OR 0x80) # carquet_encode_varint32 (drop_bit 7 v))"
  by pat_completeness auto
termination
  by (relation "measure unat") (auto intro: drop_bit_7_less32)

function carquet_encode_varint64 :: "u64 \<Rightarrow> u8 list" where
  "carquet_encode_varint64 v =
     (if v < 0x80 then [ucast v]
      else ucast ((v AND 0x7F) OR 0x80) # carquet_encode_varint64 (drop_bit 7 v))"
  by pat_completeness auto
termination
  by (relation "measure unat") (auto intro: drop_bit_7_less64)

declare carquet_encode_varint32.simps [simp del] carquet_encode_varint64.simps [simp del]

text \<open>
  The decoding loop: \<open>k\<close> rounds are left (five for 32 bits, ten for 64), the byte at \<open>i\<close> is
  read while \<open>i\<close> is below \<open>len\<close>. \<open>Some None\<close> is the return value -1; \<open>Some (Some (v, j))\<close> is
  the value \<open>v\<close> with \<open>j\<close> the offset after it.
\<close>

fun decode_varint_loop ::
  "nat \<Rightarrow> u8 list \<Rightarrow> nat \<Rightarrow> nat \<Rightarrow> nat \<Rightarrow> 'a::len word \<Rightarrow> ('a word \<times> nat) option option" where
  "decode_varint_loop 0 p len i shift result = Some None"
| "decode_varint_loop (Suc k) p len i shift result =
     (if i < len then do {
        byte \<leftarrow> rd p i;
        let result' = result OR push_bit shift (ucast (byte AND 0x7F));
        if byte AND 0x80 = 0 then Some (Some (result', i + 1))
        else decode_varint_loop k p len (i + 1) (shift + 7) result'
      } else Some None)"

definition carquet_decode_varint32 :: "u8 list \<Rightarrow> nat \<Rightarrow> (u32 \<times> nat) option option" where
  "carquet_decode_varint32 p len = decode_varint_loop 5 p len 0 0 0"

definition carquet_decode_varint64 :: "u8 list \<Rightarrow> nat \<Rightarrow> (u64 \<times> nat) option option" where
  "carquet_decode_varint64 p len = decode_varint_loop 10 p len 0 0 0"

text \<open>The reference encoding of a natural number, which both encoders compute.\<close>

fun varint_nat :: "nat \<Rightarrow> u8 list" where
  "varint_nat n = (if n < 128 then [of_nat n] else (of_nat n OR 0x80) # varint_nat (n div 128))"

declare varint_nat.simps [simp del]

text \<open>The bits of the masks 0x7F and 0x80, whatever the type they are read at.\<close>

named_theorems mask_bits

lemma bit_127_int [mask_bits]: "bit (127 :: int) n \<longleftrightarrow> n < 7"
proof -
  have eq: "(127 :: int) = mask 7" by (simp add: mask_eq_exp_minus_1)
  show ?thesis unfolding eq bit_mask_iff by simp
qed

lemma bit_128_int [mask_bits]: "bit (128 :: int) n \<longleftrightarrow> n = 7"
proof -
  have eq: "(128 :: int) = 2 ^ 7" by simp
  show ?thesis unfolding eq bit_exp_iff by auto
qed

lemma varint_byte:
  "ucast ((v AND 0x7F) OR 0x80 :: u32) = (of_nat (unat v) OR 0x80 :: u8)"
  "ucast ((w AND 0x7F) OR 0x80 :: u64) = (of_nat (unat w) OR 0x80 :: u8)"
  by (rule byte_eqI, simp_all add: bit_simps)+

lemma encode_varint32_nat: "carquet_encode_varint32 v = varint_nat (unat v)"
  by (induction v rule: carquet_encode_varint32.induct,
      subst carquet_encode_varint32.simps, subst varint_nat.simps)
    (simp add: varint_byte word_less_nat_alt unat_div drop_bit_eq_div flip: ucast_eq)

lemma encode_varint64_nat: "carquet_encode_varint64 v = varint_nat (unat v)"
  by (induction v rule: carquet_encode_varint64.induct,
      subst carquet_encode_varint64.simps, subst varint_nat.simps)
    (simp add: varint_byte word_less_nat_alt unat_div drop_bit_eq_div flip: ucast_eq)

lemma varint_nat_nonempty [simp]: "varint_nat n \<noteq> []"
  by (subst varint_nat.simps) simp

lemma length_varint_nat: "n < 128 ^ k \<Longrightarrow> 0 < k \<Longrightarrow> length (varint_nat n) \<le> k"
proof (induction k arbitrary: n)
  case 0
  then show ?case by simp
next
  case (Suc k)
  show ?case
  proof (cases "n < 128")
    case True
    then show ?thesis by (subst varint_nat.simps) simp
  next
    case False
    then have "0 < k" using Suc.prems by (cases k) auto
    moreover have "n div 128 < 128 ^ k" using Suc.prems by (simp add: less_mult_imp_div_less mult.commute)
    ultimately have "length (varint_nat (n div 128)) \<le> k" using Suc.IH by simp
    with False show ?thesis by (subst varint_nat.simps) simp
  qed
qed

lemma and_0x80: "(b :: u8) AND 0x80 = 0 \<longleftrightarrow> \<not> bit b 7"
proof
  assume "b AND 0x80 = 0"
  then have "bit (b AND 0x80) 7 = bit (0 :: u8) 7" by simp
  then show "\<not> bit b 7" by (simp add: bit_and_iff)
next
  assume "\<not> bit b 7"
  then show "b AND 0x80 = 0" by (intro byte_eqI) (simp_all add: bit_and_iff)
qed

text \<open>
  The decoding loop run on an encoding: \<open>shift\<close> bits of the target \<open>V\<close> have been assembled and
  the rest of it is what the encoding at \<open>i\<close> holds.
\<close>
lemma decode_varint_loop_varint_nat:
  assumes "rest = unat (drop_bit shift V)" and "shift < LENGTH('a)" and "LENGTH('a) \<le> shift + 7 * k"
    and "i + length (varint_nat rest) \<le> len" and "len \<le> length p"
    and "take (length (varint_nat rest)) (drop i p) = varint_nat rest"
  shows "decode_varint_loop k p len i shift (take_bit shift V :: 'a::len word) =
           Some (Some (V, i + length (varint_nat rest)))"
  using assms
proof (induction k arbitrary: rest i shift)
  case 0
  then show ?case by simp
next
  case (Suc k)
  obtain b bs where vn: "varint_nat rest = b # bs" by (cases "varint_nat rest") auto
  have i: "i < len" "i < length p" using Suc.prems vn by auto
  have b: "p ! i = b" using Suc.prems(6) i by (simp add: vn drop_eq_Cons)
  have bb: "b = (if rest < 128 then of_nat rest else of_nat rest OR 0x80)"
    using vn by (subst (asm) varint_nat.simps) (auto split: if_splits)
  have low: "bit b j \<longleftrightarrow> bit V (shift + j)" if "j < 7" for j
  proof -
    have "bit b j \<longleftrightarrow> bit (of_nat rest :: u8) j"
      using that by (simp add: bb bit_or_iff mask_bits)
    also have "\<dots> \<longleftrightarrow> bit V (shift + j)"
      using that by (simp add: Suc.prems(1) bit_simps)
    finally show ?thesis .
  qed
  have hi: "bit (of_nat rest :: u8) 7 \<longleftrightarrow> bit rest 7"
    by (simp add: bit_simps)
  have top: "b AND 0x80 = 0 \<longleftrightarrow> rest < 128"
  proof -
    have "rest < 128 \<Longrightarrow> \<not> bit rest 7" by (simp add: bit_iff_odd)
    then have "bit b 7 \<longleftrightarrow> \<not> rest < 128"
      by (simp add: bb bit_or_iff mask_bits hi)
    then show ?thesis by (simp add: and_0x80)
  qed
  have step: "take_bit shift V OR push_bit shift (ucast (b AND 0x7F)) = take_bit (shift + 7) V"
  proof (rule bit_word_eqI)
    fix n assume "n < LENGTH('a)"
    then show "bit (take_bit shift V OR push_bit shift (ucast (b AND 0x7F))) n = bit (take_bit (shift + 7) V) n"
      using low [of "n - shift"] by (auto simp: bit_simps mask_bits)
  qed
  have r: "rest div 128 = unat (drop_bit (shift + 7) V)"
    unfolding Suc.prems(1) unat_drop_bit_eq by (simp add: drop_bit_eq_div power_add div_mult2_eq)
  show ?case
  proof (cases "rest < 128")
    case True
    then have "drop_bit (shift + 7) V = 0" using r by (simp add: unat_eq_zero)
    then have "take_bit (shift + 7) V = V"
      by (simp add: take_bit_eq_self_iff_drop_bit_eq_0)
    moreover have "varint_nat rest = [b]" using True vn by (subst varint_nat.simps) (simp add: bb)
    ultimately show ?thesis using i True by (simp add: b top step)
  next
    case False
    have eq: "varint_nat rest = b # varint_nat (rest div 128)"
      using False by (subst varint_nat.simps) (simp add: bb)
    have "rest div 128 \<noteq> 0" using False by simp
    then have "\<not> LENGTH('a) \<le> shift + 7" unfolding r 
      by (metis drop_bit_word_beyond unat_0)
    then have sh: "shift + 7 < LENGTH('a)" by simp
    have "decode_varint_loop k p len (i + 1) (shift + 7) (take_bit (shift + 7) V) =
        Some (Some (V, i + 1 + length (varint_nat (rest div 128))))"
      using Suc.prems(3-6) i by (intro Suc.IH [OF r sh]) (simp_all add: eq drop_eq_Cons)
    then show ?thesis using i False by (simp add: b top step eq)
  qed
qed
text \<open>The loop never reads past \<open>len\<close>, and what it consumes is bounded by the rounds.\<close>

lemma decode_varint_loop_safe: "len \<le> length p \<Longrightarrow> decode_varint_loop k p len i shift r \<noteq> None"
  by (induction k arbitrary: i shift r) (auto simp: Let_def)

lemma decode_varint_loop_bounds:
  "decode_varint_loop k p len i shift r = Some (Some (v, j)) \<Longrightarrow> i < j \<and> j \<le> len \<and> j \<le> i + k"
  by (induction k arbitrary: i shift r)
    (fastforce simp: Let_def run_simps split: if_splits)+

section \<open>Zigzag\<close>

text \<open>
  A signed 32- or 64-bit integer is its two's complement word. \<open>(int32_t)v >> 31\<close> is the
  arithmetic shift.
\<close>

definition carquet_zigzag_encode32 :: "u32 \<Rightarrow> u32" where
  "carquet_zigzag_encode32 v = push_bit 1 v XOR signed_drop_bit 31 v"

definition carquet_zigzag_encode64 :: "u64 \<Rightarrow> u64" where
  "carquet_zigzag_encode64 v = push_bit 1 v XOR signed_drop_bit 63 v"

definition carquet_zigzag_decode32 :: "u32 \<Rightarrow> u32" where
  "carquet_zigzag_decode32 v = drop_bit 1 v XOR (- (v AND 1))"

definition carquet_zigzag_decode64 :: "u64 \<Rightarrow> u64" where
  "carquet_zigzag_decode64 v = drop_bit 1 v XOR (- (v AND 1))"

lemma bit_minus_and_1: "bit (- (v AND 1) :: 'a::len word) n \<longleftrightarrow> n < LENGTH('a) \<and> bit v 0"
proof (cases "bit v 0")
  case True
  then have "v AND 1 = 1" by (simp add: and_one_eq bit_0 mod2_eq_if)
  then show ?thesis using True by (simp add: bit_minus_1_iff)
next
  case False
  then have "v AND 1 = 0" by (simp add: and_one_eq bit_0 mod2_eq_if)
  then show ?thesis using False by simp
qed

text \<open>Encoding puts the sign at bit 0 and flips the others when it is set.\<close>

lemma bit_zigzag_encode32:
  "bit (carquet_zigzag_encode32 v) n \<longleftrightarrow> n < 32 \<and> ((0 < n \<and> bit v (n - 1)) \<noteq> bit v 31)"
  unfolding carquet_zigzag_encode32_def bit_xor_iff bit_push_bit_iff bit_signed_drop_bit_iff
  by (cases n; auto dest: bit_imp_le_length)

lemma bit_zigzag_encode64:
  "bit (carquet_zigzag_encode64 v) n \<longleftrightarrow> n < 64 \<and> ((0 < n \<and> bit v (n - 1)) \<noteq> bit v 63)"
  unfolding carquet_zigzag_encode64_def bit_xor_iff bit_push_bit_iff bit_signed_drop_bit_iff
  by (cases n; auto dest: bit_imp_le_length)

lemma bit_zigzag_decode32:
  "bit (carquet_zigzag_decode32 v) n \<longleftrightarrow> n < 32 \<and> (bit v (Suc n) \<noteq> bit v 0)"
  unfolding carquet_zigzag_decode32_def bit_xor_iff bit_drop_bit_eq bit_minus_and_1
  by (auto dest: bit_imp_le_length)

lemma bit_zigzag_decode64:
  "bit (carquet_zigzag_decode64 v) n \<longleftrightarrow> n < 64 \<and> (bit v (Suc n) \<noteq> bit v 0)"
  unfolding carquet_zigzag_decode64_def bit_xor_iff bit_drop_bit_eq bit_minus_and_1
  by (auto dest: bit_imp_le_length)

lemma zigzag_decode_encode32 [simp]: "carquet_zigzag_decode32 (carquet_zigzag_encode32 v) = v"
proof (rule bit_word_eqI)
  fix n assume "n < LENGTH(32)"
  then show "bit (carquet_zigzag_decode32 (carquet_zigzag_encode32 v)) n = bit v n"
    by (cases "n = 31") (auto simp: bit_zigzag_decode32 bit_zigzag_encode32)
qed

lemma zigzag_decode_encode64 [simp]: "carquet_zigzag_decode64 (carquet_zigzag_encode64 v) = v"
proof (rule bit_word_eqI)
  fix n assume "n < LENGTH(64)"
  then show "bit (carquet_zigzag_decode64 (carquet_zigzag_encode64 v)) n = bit v n"
    by (cases "n = 63") (auto simp: bit_zigzag_decode64 bit_zigzag_encode64)
qed

lemma zigzag_encode_decode32 [simp]: "carquet_zigzag_encode32 (carquet_zigzag_decode32 v) = v"
proof (rule bit_word_eqI)
  fix n assume "n < LENGTH(32)"
  moreover have "\<not> bit v 32" by (auto dest: bit_imp_le_length)
  ultimately show "bit (carquet_zigzag_encode32 (carquet_zigzag_decode32 v)) n = bit v n"
    by (cases n) (auto simp: bit_zigzag_decode32 bit_zigzag_encode32)
qed

lemma zigzag_encode_decode64 [simp]: "carquet_zigzag_encode64 (carquet_zigzag_decode64 v) = v"
proof (rule bit_word_eqI)
  fix n assume "n < LENGTH(64)"
  moreover have "\<not> bit v 64" by (auto dest: bit_imp_le_length)
  ultimately show "bit (carquet_zigzag_encode64 (carquet_zigzag_decode64 v)) n = bit v n"
    by (cases n) (auto simp: bit_zigzag_decode64 bit_zigzag_encode64)
qed

lemma sint_cases: "sint (v :: 'a::len word) = (if sint v < 0 then uint v - 2 ^ LENGTH('a) else uint v)"
  by (simp add: sint_uint signed_take_bit_eq_take_bit_minus bit_last_iff [symmetric] bit_uint_iff
      take_bit_int_eq_self)

lemma zigzag_value:
  fixes v :: "'a::len word"
  assumes k: "k = LENGTH('a) - 1"
  shows "uint (push_bit 1 v XOR signed_drop_bit k v) = (if 0 \<le> sint v then 2 * sint v else - 2 * sint v - 1)"
proof -
  let ?N = "(2 :: int) ^ LENGTH('a)"
  have N: "?N = 2 * 2 ^ (LENGTH('a) - 1)" by (simp add: power_eq_if)
  have range: "- (2 ^ (LENGTH('a) - 1)) \<le> sint v" "sint v < 2 ^ (LENGTH('a) - 1)"
    by (rule sint_ge, rule sint_lt)
  have shift: "uint (push_bit 1 v) = 2 * uint v mod ?N"
  proof -
    have "push_bit 1 v = v + v" by (simp add: push_bit_eq_mult)
    then show ?thesis unfolding mult_2 by (simp only: uint_word_ariths(1))
  qed
  show ?thesis
  proof (cases "sint v < 0")
    case True
    then have b: "bit v (LENGTH('a) - 1)" by (simp add: bit_last_iff)
    have "signed_drop_bit (LENGTH('a) - 1) v = - 1"
    proof (rule bit_word_eqI)
      fix n assume "n < LENGTH('a)"
      then show "bit (signed_drop_bit (LENGTH('a) - 1) v) n = bit (- 1 :: 'a word) n"
        using b by (cases "n = 0") (auto simp: bit_signed_drop_bit_iff)
    qed
    then have "push_bit 1 v XOR signed_drop_bit (LENGTH('a) - 1) v = NOT (push_bit 1 v)" by simp
    moreover have "uint (NOT x) = ?N - 1 - uint x" for x :: "'a word"
    proof -
      have "NOT x = - 1 - x" by (simp add: not_eq_complement)
      then have "uint (NOT x) = (uint (- 1 :: 'a word) - uint x) mod ?N" by (simp only: uint_word_ariths(2))
      also have "uint (- 1 :: 'a word) = ?N - 1" by (simp add: unsigned_minus_1_eq_mask mask_eq_exp_minus_1)
      finally have "uint (NOT x) = (?N - 1 - uint x) mod ?N" .
      also have "\<dots> = ?N - 1 - uint x"
        using uint_lt2p [of x] uint_ge_0 [of x] by (intro mod_pos_pos_trivial) linarith+
      finally show ?thesis .
    qed
    moreover have "2 * uint v mod ?N = 2 * uint v - ?N"
    proof -
      have "2 * uint v - ?N = (2 * uint v - ?N) mod ?N"
        using sint_cases [of v] True range N by (intro mod_pos_pos_trivial [symmetric]) simp_all
      then show ?thesis by simp
    qed
    ultimately show ?thesis using True sint_cases [of v] shift k by (simp add: not_le)
  next
    case False
    then have b: "\<not> bit v (LENGTH('a) - 1)" by (simp add: bit_last_iff)
    have "signed_drop_bit (LENGTH('a) - 1) v = 0"
    proof (rule bit_word_eqI)
      fix n assume "n < LENGTH('a)"
      then show "bit (signed_drop_bit (LENGTH('a) - 1) v) n = bit (0 :: 'a word) n"
        using b by (cases "n = 0") (auto simp: bit_signed_drop_bit_iff)
    qed
    moreover have "2 * uint v mod ?N = 2 * uint v"
      using sint_cases [of v] False range N by (intro mod_pos_pos_trivial) simp_all
    ultimately show ?thesis using False sint_cases [of v] shift k by (simp add: not_le)
  qed
qed

  
lemma zigzag_encode_value:
  "uint (carquet_zigzag_encode64 v) = (if 0 \<le> sint v then 2 * sint v else - 2 * sint v - 1)"
  "uint (carquet_zigzag_encode32 w) = (if 0 \<le> sint w then 2 * sint w else - 2 * sint w - 1)"
  unfolding carquet_zigzag_encode64_def carquet_zigzag_encode32_def
  by (rule zigzag_value; simp)+

section \<open>Properties\<close>

text \<open>The varint coding round-trips at both widths, whatever follows the encoding: the decoder
  returns the value and the length of the encoding, which is at most 10 and 5 bytes.\<close>

theorem varint_roundtrip:
  "carquet_decode_varint64 (carquet_encode_varint64 w @ rest) (length (carquet_encode_varint64 w @ rest)) =
     Some (Some (w, length (carquet_encode_varint64 w))) \<and>
   carquet_decode_varint32 (carquet_encode_varint32 v @ rest) (length (carquet_encode_varint32 v @ rest)) =
     Some (Some (v, length (carquet_encode_varint32 v))) \<and>
   length (carquet_encode_varint64 w) \<le> 10 \<and> length (carquet_encode_varint32 v) \<le> 5"
proof -
  have "unat w < 128 ^ 10" using unsigned_less [of w, where ?'a = nat] by simp
  moreover have "unat v < 128 ^ 5" using unsigned_less [of v, where ?'a = nat] by simp
  ultimately show ?thesis
    using decode_varint_loop_varint_nat [of "unat w" 0 w 10 0 "length (varint_nat (unat w) @ rest)" "varint_nat (unat w) @ rest"]
      decode_varint_loop_varint_nat [of "unat v" 0 v 5 0 "length (varint_nat (unat v) @ rest)" "varint_nat (unat v) @ rest"]
      length_varint_nat [of "unat w" 10] length_varint_nat [of "unat v" 5]
    by (simp add: carquet_decode_varint64_def carquet_decode_varint32_def encode_varint64_nat encode_varint32_nat)
qed

text \<open>On any input of the length it is told, the varint decoder reads no byte outside it, and what
  it consumes is at least one byte and no more than there is.\<close>

theorem varint_decode_safe:
  assumes "len \<le> length p"
  shows "carquet_decode_varint64 p len \<noteq> None \<and> carquet_decode_varint32 p len \<noteq> None \<and>
    (\<forall>v n. carquet_decode_varint64 p len = Some (Some (v, n)) \<longrightarrow> 0 < n \<and> n \<le> len \<and> n \<le> 10) \<and>
    (\<forall>v n. carquet_decode_varint32 p len = Some (Some (v, n)) \<longrightarrow> 0 < n \<and> n \<le> len \<and> n \<le> 5)"
proof (intro conjI allI impI)
  fix v :: u64 and n assume "carquet_decode_varint64 p len = Some (Some (v, n))"
  from decode_varint_loop_bounds [OF this [unfolded carquet_decode_varint64_def]]
  show "0 < n" "n \<le> len" "n \<le> 10" by simp_all
next
  fix v :: u32 and n assume "carquet_decode_varint32 p len = Some (Some (v, n))"
  from decode_varint_loop_bounds [OF this [unfolded carquet_decode_varint32_def]]
  show "0 < n" "n \<le> len" "n \<le> 5" by simp_all
qed (use decode_varint_loop_safe [OF assms] in
  \<open>simp_all add: carquet_decode_varint64_def carquet_decode_varint32_def del: decode_varint_loop.simps\<close>)

lemma varint_decode_safe_witness: "carquet_decode_varint64 [0x80] 1 \<noteq> None"
  using varint_decode_safe [of 1 "[0x80]"] by simp

text \<open>Zigzag maps a signed number of either sign to a small unsigned one, 2n for n and 2n - 1 for
  -n, and decoding inverts it, in both directions and at both widths.\<close>

theorem zigzag_bijection:
  "uint (carquet_zigzag_encode64 v) = (if 0 \<le> sint v then 2 * sint v else - 2 * sint v - 1) \<and>
   uint (carquet_zigzag_encode32 w) = (if 0 \<le> sint w then 2 * sint w else - 2 * sint w - 1) \<and>
   carquet_zigzag_decode64 (carquet_zigzag_encode64 v) = v \<and> carquet_zigzag_encode64 (carquet_zigzag_decode64 v) = v \<and>
   carquet_zigzag_decode32 (carquet_zigzag_encode32 w) = w \<and> carquet_zigzag_encode32 (carquet_zigzag_decode32 w) = w"
  by (simp add: zigzag_encode_value)

text \<open>A value written in little-endian order anywhere in a block of bytes is read back from its
  offset, at 16, 32 and 64 bits, and byte swapping twice is the identity.\<close>

theorem endian_roundtrip:
  "carquet_read_u16_le (pre @ carquet_write_u16_le a @ post) (length pre) = Some a \<and>
   carquet_read_u32_le (pre @ carquet_write_u32_le b @ post) (length pre) = Some b \<and>
   carquet_read_u64_le (pre @ carquet_write_u64_le c @ post) (length pre) = Some c \<and>
   carquet_bswap16 (carquet_bswap16 a) = a \<and> carquet_bswap32 (carquet_bswap32 b) = b \<and>
   carquet_bswap64 (carquet_bswap64 c) = c"
  by (simp add: read_write_u16 read_write_u32 read_write_u64 bswap_involution)

end
