(* ===== verification/Bitpack.thy ===== *)
theory Bitpack
  imports Endian
begin

text \<open>
  Component src/core/bitpack.c and bitpack.h: packing and unpacking of groups of eight values at
  a bit width, the bit stream reader and writer, and the legacy most-significant-bit-first level
  decoder.

  Input and output arrays are lists with an offset, values arrays are lists. A bit width is a
  natural number: every caller passes 0 to 32. The SIMD kernel that the dispatch table may hold
  for a width (src/simd/dispatch.c) is a parameter of \<open>carquet_bitunpack8_32\<close>; in the portable
  build the table is empty.
\<close>

section \<open>Partial little-endian reads\<close>

definition read_le16 :: "u8 list \<Rightarrow> nat \<Rightarrow> u16 option" where
  "read_le16 p i = do {
     b0 \<leftarrow> rd p i; b1 \<leftarrow> rd p (i + 1);
     Some (ucast b0 OR push_bit 8 (ucast b1))
   }"

definition read_le24 :: "u8 list \<Rightarrow> nat \<Rightarrow> u32 option" where
  "read_le24 p i = do {
     b0 \<leftarrow> rd p i; b1 \<leftarrow> rd p (i + 1); b2 \<leftarrow> rd p (i + 2);
     Some (ucast b0 OR push_bit 8 (ucast b1) OR push_bit 16 (ucast b2))
   }"

definition read_le32 :: "u8 list \<Rightarrow> nat \<Rightarrow> u32 option" where
  "read_le32 p i = do {
     b0 \<leftarrow> rd p i; b1 \<leftarrow> rd p (i + 1); b2 \<leftarrow> rd p (i + 2); b3 \<leftarrow> rd p (i + 3);
     Some (ucast b0 OR push_bit 8 (ucast b1) OR push_bit 16 (ucast b2) OR push_bit 24 (ucast b3))
   }"

definition read_le40 :: "u8 list \<Rightarrow> nat \<Rightarrow> u64 option" where
  "read_le40 p i = do {
     b0 \<leftarrow> rd p i; b1 \<leftarrow> rd p (i + 1); b2 \<leftarrow> rd p (i + 2); b3 \<leftarrow> rd p (i + 3);
     b4 \<leftarrow> rd p (i + 4);
     Some (ucast b0 OR push_bit 8 (ucast b1) OR push_bit 16 (ucast b2) OR push_bit 24 (ucast b3)
        OR push_bit 32 (ucast b4))
   }"

definition read_le48 :: "u8 list \<Rightarrow> nat \<Rightarrow> u64 option" where
  "read_le48 p i = do {
     b0 \<leftarrow> rd p i; b1 \<leftarrow> rd p (i + 1); b2 \<leftarrow> rd p (i + 2); b3 \<leftarrow> rd p (i + 3);
     b4 \<leftarrow> rd p (i + 4); b5 \<leftarrow> rd p (i + 5);
     Some (ucast b0 OR push_bit 8 (ucast b1) OR push_bit 16 (ucast b2) OR push_bit 24 (ucast b3)
        OR push_bit 32 (ucast b4) OR push_bit 40 (ucast b5))
   }"

definition read_le56 :: "u8 list \<Rightarrow> nat \<Rightarrow> u64 option" where
  "read_le56 p i = do {
     b0 \<leftarrow> rd p i; b1 \<leftarrow> rd p (i + 1); b2 \<leftarrow> rd p (i + 2); b3 \<leftarrow> rd p (i + 3);
     b4 \<leftarrow> rd p (i + 4); b5 \<leftarrow> rd p (i + 5); b6 \<leftarrow> rd p (i + 6);
     Some (ucast b0 OR push_bit 8 (ucast b1) OR push_bit 16 (ucast b2) OR push_bit 24 (ucast b3)
        OR push_bit 32 (ucast b4) OR push_bit 40 (ucast b5) OR push_bit 48 (ucast b6))
   }"

section \<open>Specialised unpackers\<close>

definition carquet_bitunpack8_1bit :: "u8 list \<Rightarrow> nat \<Rightarrow> u32 list option" where
  "carquet_bitunpack8_1bit input i = do {
     v \<leftarrow> rd input i;
     Some [ucast (drop_bit 0 v AND 1), ucast (drop_bit 1 v AND 1), ucast (drop_bit 2 v AND 1),
       ucast (drop_bit 3 v AND 1), ucast (drop_bit 4 v AND 1), ucast (drop_bit 5 v AND 1),
       ucast (drop_bit 6 v AND 1), ucast (drop_bit 7 v AND 1)]
   }"

definition carquet_bitunpack8_2bit :: "u8 list \<Rightarrow> nat \<Rightarrow> u32 list option" where
  "carquet_bitunpack8_2bit input i = do {
     v \<leftarrow> read_le16 input i;
     Some [ucast (drop_bit 0 v AND 0x3), ucast (drop_bit 2 v AND 0x3), ucast (drop_bit 4 v AND 0x3),
       ucast (drop_bit 6 v AND 0x3), ucast (drop_bit 8 v AND 0x3), ucast (drop_bit 10 v AND 0x3),
       ucast (drop_bit 12 v AND 0x3), ucast (drop_bit 14 v AND 0x3)]
   }"

definition carquet_bitunpack8_3bit :: "u8 list \<Rightarrow> nat \<Rightarrow> u32 list option" where
  "carquet_bitunpack8_3bit input i = do {
     v \<leftarrow> read_le24 input i;
     Some [drop_bit 0 v AND 0x7, drop_bit 3 v AND 0x7, drop_bit 6 v AND 0x7,
       drop_bit 9 v AND 0x7, drop_bit 12 v AND 0x7, drop_bit 15 v AND 0x7,
       drop_bit 18 v AND 0x7, drop_bit 21 v AND 0x7]
   }"

definition carquet_bitunpack8_4bit :: "u8 list \<Rightarrow> nat \<Rightarrow> u32 list option" where
  "carquet_bitunpack8_4bit input i = do {
     v \<leftarrow> read_le32 input i;
     Some [drop_bit 0 v AND 0xF, drop_bit 4 v AND 0xF, drop_bit 8 v AND 0xF,
       drop_bit 12 v AND 0xF, drop_bit 16 v AND 0xF, drop_bit 20 v AND 0xF,
       drop_bit 24 v AND 0xF, drop_bit 28 v AND 0xF]
   }"

definition carquet_bitunpack8_5bit :: "u8 list \<Rightarrow> nat \<Rightarrow> u32 list option" where
  "carquet_bitunpack8_5bit input i = do {
     v \<leftarrow> read_le40 input i;
     Some [ucast (drop_bit 0 v AND 0x1F), ucast (drop_bit 5 v AND 0x1F), ucast (drop_bit 10 v AND 0x1F),
       ucast (drop_bit 15 v AND 0x1F), ucast (drop_bit 20 v AND 0x1F), ucast (drop_bit 25 v AND 0x1F),
       ucast (drop_bit 30 v AND 0x1F), ucast (drop_bit 35 v AND 0x1F)]
   }"

definition carquet_bitunpack8_6bit :: "u8 list \<Rightarrow> nat \<Rightarrow> u32 list option" where
  "carquet_bitunpack8_6bit input i = do {
     v \<leftarrow> read_le48 input i;
     Some [ucast (drop_bit 0 v AND 0x3F), ucast (drop_bit 6 v AND 0x3F), ucast (drop_bit 12 v AND 0x3F),
       ucast (drop_bit 18 v AND 0x3F), ucast (drop_bit 24 v AND 0x3F), ucast (drop_bit 30 v AND 0x3F),
       ucast (drop_bit 36 v AND 0x3F), ucast (drop_bit 42 v AND 0x3F)]
   }"

definition carquet_bitunpack8_7bit :: "u8 list \<Rightarrow> nat \<Rightarrow> u32 list option" where
  "carquet_bitunpack8_7bit input i = do {
     v \<leftarrow> read_le56 input i;
     Some [ucast (drop_bit 0 v AND 0x7F), ucast (drop_bit 7 v AND 0x7F), ucast (drop_bit 14 v AND 0x7F),
       ucast (drop_bit 21 v AND 0x7F), ucast (drop_bit 28 v AND 0x7F), ucast (drop_bit 35 v AND 0x7F),
       ucast (drop_bit 42 v AND 0x7F), ucast (drop_bit 49 v AND 0x7F)]
   }"

definition carquet_bitunpack8_8bit :: "u8 list \<Rightarrow> nat \<Rightarrow> u32 list option" where
  "carquet_bitunpack8_8bit input i = do {
     b0 \<leftarrow> rd input i; b1 \<leftarrow> rd input (i + 1); b2 \<leftarrow> rd input (i + 2); b3 \<leftarrow> rd input (i + 3);
     b4 \<leftarrow> rd input (i + 4); b5 \<leftarrow> rd input (i + 5); b6 \<leftarrow> rd input (i + 6); b7 \<leftarrow> rd input (i + 7);
     Some [ucast b0, ucast b1, ucast b2, ucast b3, ucast b4, ucast b5, ucast b6, ucast b7]
   }"

text \<open>The table \<open>unpack_functions\<close>: the specialised unpacker of a width, NULL for the others.\<close>

type_synonym bitunpack8_fn = "u8 list \<Rightarrow> nat \<Rightarrow> u32 list option"

definition unpack_functions :: "nat \<Rightarrow> bitunpack8_fn option" where
  "unpack_functions bw =
     (if bw = 1 then Some carquet_bitunpack8_1bit
      else if bw = 2 then Some carquet_bitunpack8_2bit
      else if bw = 3 then Some carquet_bitunpack8_3bit
      else if bw = 4 then Some carquet_bitunpack8_4bit
      else if bw = 5 then Some carquet_bitunpack8_5bit
      else if bw = 6 then Some carquet_bitunpack8_6bit
      else if bw = 7 then Some carquet_bitunpack8_7bit
      else if bw = 8 then Some carquet_bitunpack8_8bit
      else None)"

section \<open>General unpacking\<close>

text \<open>
  The inner loop gathers one value: \<open>bits\<close> so far (\<open>bits_in_buffer\<close> of them), the position in
  the stream and the bits still needed. It returns the bits and the new positions.
\<close>

function unpack_value_loop ::
  "u8 list \<Rightarrow> nat \<Rightarrow> nat \<Rightarrow> nat \<Rightarrow> u64 \<Rightarrow> nat \<Rightarrow> nat \<Rightarrow> (u64 \<times> nat \<times> nat) option" where
  "unpack_value_loop input base bit_pos byte_pos bits bits_in_buffer bits_needed =
     (if bits_needed > 0 then do {
        let bits_from_byte = (if 8 - bit_pos mod 8 > bits_needed then bits_needed else 8 - bit_pos mod 8);
        byte_val \<leftarrow> rd input (base + byte_pos);
        let shift_down = bit_pos mod 8;
        let extracted = ucast (drop_bit shift_down byte_val) AND (push_bit bits_from_byte 1 - 1);
        let bits' = bits OR push_bit bits_in_buffer extracted;
        let bit_pos' = bit_pos + bits_from_byte;
        let byte_pos' = (if bit_pos' mod 8 = 0 then byte_pos + 1 else byte_pos);
        unpack_value_loop input base bit_pos' byte_pos' bits' (bits_in_buffer + bits_from_byte)
          (bits_needed - bits_from_byte)
      } else Some (bits, bit_pos, byte_pos))"
  by pat_completeness auto
termination
  by (relation "measure (\<lambda>(input, base, bit_pos, byte_pos, bits, bits_in_buffer, bits_needed). bits_needed)") auto

declare unpack_value_loop.simps [simp del]

text \<open>The outer loop over the values that are left.\<close>

fun unpack_values_loop :: "nat \<Rightarrow> u8 list \<Rightarrow> nat \<Rightarrow> nat \<Rightarrow> nat \<Rightarrow> nat \<Rightarrow> u32 list option" where
  "unpack_values_loop 0 input base bit_width bit_pos byte_pos = Some []"
| "unpack_values_loop (Suc n) input base bit_width bit_pos byte_pos = do {
     (bits, bit_pos', byte_pos') \<leftarrow> unpack_value_loop input base bit_pos byte_pos 0 0 bit_width;
     let mask = (ucast (push_bit bit_width (1::u64) - 1) :: u32);
     vs \<leftarrow> unpack_values_loop n input base bit_width bit_pos' byte_pos';
     Some (ucast (bits AND ucast mask) # vs)
   }"

definition carquet_bitunpack8_32 ::
  "(nat \<Rightarrow> bitunpack8_fn option) \<Rightarrow> u8 list \<Rightarrow> nat \<Rightarrow> nat \<Rightarrow> u32 list option" where
  "carquet_bitunpack8_32 simd input base bit_width =
     (if bit_width = 0 then Some (replicate 8 0)
      else case simd bit_width of
        Some simd_fn \<Rightarrow> simd_fn input base
      | None \<Rightarrow>
         (case unpack_functions bit_width of
            Some f \<Rightarrow> f input base
          | None \<Rightarrow> unpack_values_loop 8 input base bit_width 0 0))"

definition carquet_packed_size :: "nat \<Rightarrow> nat \<Rightarrow> nat" where
  "carquet_packed_size count bit_width = sz (count * bit_width + 7) div 8"

text \<open>The portable build: no kernel for any width, so no wide kernel either.\<close>

definition scalar_dispatch :: "nat \<Rightarrow> bitunpack8_fn option" where
  "scalar_dispatch bw = None"

fun bitunpack_groups ::
  "nat \<Rightarrow> (nat \<Rightarrow> bitunpack8_fn option) \<Rightarrow> u8 list \<Rightarrow> nat \<Rightarrow> nat \<Rightarrow> u32 list option" where
  "bitunpack_groups 0 simd input base bit_width = Some []"
| "bitunpack_groups (Suc n) simd input base bit_width = do {
     vs \<leftarrow> carquet_bitunpack8_32 simd input base bit_width;
     ws \<leftarrow> bitunpack_groups n simd input (base + bit_width) bit_width;
     Some (vs @ ws)
   }"

text \<open>
  The values and the number of bytes consumed. The wide path of the code is taken only when the
  table has a wide kernel, which the portable build has not.
\<close>

definition carquet_bitunpack_32 ::
  "(nat \<Rightarrow> bitunpack8_fn option) \<Rightarrow> u8 list \<Rightarrow> nat \<Rightarrow> nat \<Rightarrow> nat \<Rightarrow> (u32 list \<times> nat) option" where
  "carquet_bitunpack_32 simd input base count bit_width =
     (if bit_width = 0 then Some (replicate count 0, 0)
      else do {
        vs \<leftarrow> bitunpack_groups (count div 8) simd input base bit_width;
        let bytes_consumed = (count div 8) * bit_width;
        let left = count - 8 * (count div 8);
        if left > 0 then do {
          let tail_bytes = carquet_packed_size left bit_width;
          tail \<leftarrow> rd_bytes input (base + bytes_consumed) tail_bytes;
          padded \<leftarrow> wr_bytes (replicate 32 0) 0 tail;
          temp \<leftarrow> carquet_bitunpack8_32 simd padded 0 bit_width;
          Some (vs @ take left temp, bytes_consumed + tail_bytes)
        } else Some (vs, bytes_consumed)
      })"

section \<open>Packing\<close>

definition or_byte :: "u8 list \<Rightarrow> nat \<Rightarrow> u8 \<Rightarrow> u8 list option" where
  "or_byte m i b = do { old \<leftarrow> rd m i; wr m i (old OR b) }"

text \<open>The loop that spreads the rest of a value over the following bytes.\<close>

function pack_rest_loop :: "u8 list \<Rightarrow> nat \<Rightarrow> u32 \<Rightarrow> nat \<Rightarrow> nat \<Rightarrow> u8 list option" where
  "pack_rest_loop output byte_pos val bits_written bit_width =
     (if bits_written < bit_width then do {
        output' \<leftarrow> or_byte output byte_pos (ucast val);
        pack_rest_loop output' (byte_pos + 1) (drop_bit 8 val) (bits_written + 8) bit_width
      } else Some output)"
  by pat_completeness auto
termination
  by (relation "measure (\<lambda>(output, byte_pos, val, bits_written, bit_width). bit_width - bits_written)") auto

declare pack_rest_loop.simps [simp del]

fun pack_values_loop :: "nat \<Rightarrow> u32 list \<Rightarrow> nat \<Rightarrow> nat \<Rightarrow> u8 list \<Rightarrow> nat \<Rightarrow> nat \<Rightarrow> u8 list option" where
  "pack_values_loop 0 values i bit_width output base bit_pos = Some output"
| "pack_values_loop (Suc n) values i bit_width output base bit_pos = do {
     v \<leftarrow> rd values i;
     let val = v AND ucast (push_bit bit_width (1::u64) - 1);
     let byte_pos = bit_pos div 8;
     let bit_offset = bit_pos mod 8;
     output1 \<leftarrow> or_byte output (base + byte_pos) (ucast (push_bit bit_offset val));
     let bits_written = 8 - bit_offset;
     output2 \<leftarrow> (if bits_written < bit_width
       then pack_rest_loop output1 (base + (byte_pos + 1)) (drop_bit bits_written val) bits_written bit_width
       else Some output1);
     pack_values_loop n values (i + 1) bit_width output2 base (bit_pos + bit_width)
   }"

text \<open>Values from \<open>values + i\<close>, output at \<open>output + base\<close>; the result is the output memory.\<close>

definition carquet_bitpack8_32 :: "u32 list \<Rightarrow> nat \<Rightarrow> nat \<Rightarrow> u8 list \<Rightarrow> nat \<Rightarrow> u8 list option" where
  "carquet_bitpack8_32 values i bit_width output base =
     (if bit_width = 0 then Some output
      else if bit_width = 8 then do {
        vs \<leftarrow> rd_bytes values i 8;
        wr_bytes output base (map ucast vs)
      } else do {
        output1 \<leftarrow> wr_bytes output base (replicate bit_width 0);
        pack_values_loop 8 values i bit_width output1 base 0
      })"

fun bitpack_groups :: "nat \<Rightarrow> u32 list \<Rightarrow> nat \<Rightarrow> nat \<Rightarrow> u8 list \<Rightarrow> nat \<Rightarrow> u8 list option" where
  "bitpack_groups 0 values i bit_width output base = Some output"
| "bitpack_groups (Suc n) values i bit_width output base = do {
     output' \<leftarrow> carquet_bitpack8_32 values i bit_width output base;
     bitpack_groups n values (i + 8) bit_width output' (base + bit_width)
   }"

definition carquet_bitpack_32 :: "u32 list \<Rightarrow> nat \<Rightarrow> nat \<Rightarrow> u8 list \<Rightarrow> nat \<Rightarrow> (nat \<times> u8 list) option" where
  "carquet_bitpack_32 values count bit_width output base =
     (if bit_width = 0 \<or> count = 0 then Some (0, output)
      else do {
        output1 \<leftarrow> bitpack_groups (count div 8) values 0 bit_width output base;
        let bytes_written = (count div 8) * bit_width;
        let done = 8 * (count div 8);
        if done < count then do {
          rest \<leftarrow> rd_bytes values done (count - done);
          temp \<leftarrow> wr_bytes (replicate 8 0) 0 rest;
          let remaining_bytes = carquet_packed_size (count - done) bit_width;
          output2 \<leftarrow> carquet_bitpack8_32 temp 0 bit_width output1 (base + bytes_written);
          Some (bytes_written + remaining_bytes, output2)
        } else Some (bytes_written, output1)
      })"

section \<open>The packed layout\<close>

text \<open>
  Reference: the packed bytes, read as one little-endian number, hold the values as its digits in
  base \<open>2 ^ bit_width\<close>, the first value lowest.
\<close>

fun le_nat :: "u8 list \<Rightarrow> nat" where
  "le_nat [] = 0"
| "le_nat (b # bs) = unat b + 256 * le_nat bs"

definition digit :: "nat \<Rightarrow> nat \<Rightarrow> nat \<Rightarrow> u32" where
  "digit bw N i = of_nat (take_bit bw (drop_bit (i * bw) N))"

definition unpack_digits :: "nat \<Rightarrow> nat \<Rightarrow> nat \<Rightarrow> u32 list" where
  "unpack_digits bw N n = map (digit bw N) [0..<n]"

lemma le_nat_lt: "le_nat bs < 2 ^ (8 * length bs)"
proof (induction bs)
  case (Cons b bs)
  have "unat b < 256" using unsigned_less [of b, where ?'a = nat] by simp
  then show ?case using Cons by (simp add: power_add)
qed simp

lemma bit_le_nat: "bit (le_nat bs) n \<longleftrightarrow> n div 8 < length bs \<and> bit (bs ! (n div 8)) (n mod 8)"
proof (induction bs arbitrary: n)
  case Nil
  then show ?case by simp
next
  case (Cons b bs)
  have eq: "le_nat (b # bs) = unat b OR push_bit 8 (le_nat bs)"
  proof -
    have "unat b AND push_bit 8 (le_nat bs) = 0"
      by (rule bit_eqI) (auto simp: bit_simps dest: bit_imp_le_length)
    then have "unat b OR push_bit 8 (le_nat bs) = unat b + push_bit 8 (le_nat bs)"
      by (simp only: disjunctive_add_eq_or)
    then show ?thesis by (simp add: push_bit_eq_mult)
  qed
  show ?case
  proof (cases "n < 8")
    case True
    then show ?thesis unfolding eq by (auto simp: bit_simps)
  next
    case False
    then obtain m where n: "n = m + 8" by (metis add.commute le_Suc_ex not_le)
    have "\<not> bit b n" using False by (auto dest: bit_imp_le_length)
    moreover have "(m + 8) div 8 = Suc (m div 8)" by simp
    ultimately show ?thesis unfolding eq using Cons.IH [of m] by (auto simp: bit_simps n)
  qed
qed

lemma le_word_of_nat: "le_word bs = (of_nat (le_nat bs) :: 'a::len word)"
  by (rule bit_word_eqI) (simp add: bit_le_word bit_le_nat bit_simps)

lemma bit_digit: "bit (digit bw N i) j \<longleftrightarrow> j < 32 \<and> j < bw \<and> bit N (i * bw + j)"
  by (auto simp: digit_def bit_simps)

lemma length_unpack_digits [simp]: "length (unpack_digits bw N n) = n"
  by (simp add: unpack_digits_def)

lemma nth_unpack_digits [simp]: "i < n \<Longrightarrow> unpack_digits bw N n ! i = digit bw N i"
  by (simp add: unpack_digits_def)

lemma le_nat_take_bits: "k < 8 * m \<Longrightarrow> bit (le_nat (take m bs)) k = bit (le_nat bs) k"
  by (auto simp: bit_le_nat)

lemma digit_take: "Suc i * bw \<le> 8 * m \<Longrightarrow> digit bw (le_nat (take m bs)) i = digit bw (le_nat bs) i"
  by (rule bit_word_eqI) (auto simp: bit_digit le_nat_take_bits)

lemma unpack_digits_take: "n * bw \<le> 8 * m \<Longrightarrow> unpack_digits bw (le_nat (take m bs)) n = unpack_digits bw (le_nat bs) n"
  unfolding unpack_digits_def
  by (rule map_cong) (auto intro!: digit_take elim!: order_trans [rotated] simp: Suc_leI simp del: mult_Suc)

section \<open>The specialised unpackers\<close>

lemma ucast_digit:
  "i * bw + bw \<le> LENGTH('a::len) \<Longrightarrow> ucast (take_bit bw (drop_bit (i * bw) (of_nat N :: 'a word))) = digit bw N i"
  by (rule bit_word_eqI) (auto simp: bit_digit bit_simps)

lemma and_masks:
  fixes v :: "'a::len word"
  shows "v AND 1 = take_bit 1 v" "v AND 3 = take_bit 2 v" "v AND 7 = take_bit 3 v" "v AND 15 = take_bit 4 v"
    "v AND 31 = take_bit 5 v" "v AND 63 = take_bit 6 v" "v AND 127 = take_bit 7 v"
  by (simp_all add: take_bit_eq_mask mask_eq_exp_minus_1)
lemma take_drop_nths_le:
  "i + 1 \<le> length p \<Longrightarrow> take 1 (drop i p) = [p ! i]"
  "i + 3 \<le> length p \<Longrightarrow> take 3 (drop i p) = [p ! i, p ! (i + 1), p ! (i + 2)]"
  "i + 5 \<le> length p \<Longrightarrow> take 5 (drop i p) = [p ! i, p ! (i + 1), p ! (i + 2), p ! (i + 3), p ! (i + 4)]"
  "i + 6 \<le> length p \<Longrightarrow> take 6 (drop i p) = [p ! i, p ! (i + 1), p ! (i + 2), p ! (i + 3), p ! (i + 4),
     p ! (i + 5)]"
  "i + 7 \<le> length p \<Longrightarrow> take 7 (drop i p) = [p ! i, p ! (i + 1), p ! (i + 2), p ! (i + 3), p ! (i + 4),
     p ! (i + 5), p ! (i + 6)]"
  by (rule nth_equalityI; auto simp: less_Suc_eq numeral_eq_Suc)+

lemma read_le_words:
  "i + 2 \<le> length p \<Longrightarrow> read_le16 p i = Some (le_word (take 2 (drop i p)))"
  "i + 3 \<le> length p \<Longrightarrow> read_le24 p i = Some (le_word (take 3 (drop i p)))"
  "i + 4 \<le> length p \<Longrightarrow> read_le32 p i = Some (le_word (take 4 (drop i p)))"
  "i + 5 \<le> length p \<Longrightarrow> read_le40 p i = Some (le_word (take 5 (drop i p)))"
  "i + 6 \<le> length p \<Longrightarrow> read_le48 p i = Some (le_word (take 6 (drop i p)))"
  "i + 7 \<le> length p \<Longrightarrow> read_le56 p i = Some (le_word (take 7 (drop i p)))"
  by (simp_all add: read_le16_def read_le24_def read_le32_def read_le40_def read_le48_def read_le56_def
      rd_def take_drop_nths take_drop_nths_le or.assoc)

lemma unpack_digits_8: "unpack_digits bw N 8 =
  [digit bw N 0, digit bw N 1, digit bw N 2, digit bw N 3, digit bw N 4, digit bw N 5, digit bw N 6, digit bw N 7]"
  by (simp add: unpack_digits_def upt_expand)

text \<open>A digit read from a word of \<open>s\<close> bits: the form in which the unpackers compute it.\<close>

lemma masked_digit:
  "s = i * bw \<Longrightarrow> s + bw \<le> LENGTH('a::len) \<Longrightarrow>
     ucast (take_bit bw (drop_bit s (of_nat N :: 'a word))) = digit bw N i"
  using ucast_digit [of i bw] by simp

lemma masked_digit32:
  "s = i * bw \<Longrightarrow> s + bw \<le> 32 \<Longrightarrow> take_bit bw (drop_bit s (of_nat N :: u32)) = digit bw N i"
  using masked_digit [of s i bw N, where 'a = 32] by simp

lemmas unpack8_simps = le_word_of_nat and_masks bind.bind_lunit unpack_digits_8 option.inject list.inject

lemma unpack8_2bit:
  assumes "i + 2 \<le> length p"
  shows "carquet_bitunpack8_2bit p i = Some (unpack_digits 2 (le_nat (take 2 (drop i p))) 8)"
  unfolding carquet_bitunpack8_2bit_def read_le_words(1) [OF assms] unpack8_simps
  by (intro conjI masked_digit refl) simp_all

lemma unpack8_3bit:
  assumes "i + 3 \<le> length p"
  shows "carquet_bitunpack8_3bit p i = Some (unpack_digits 3 (le_nat (take 3 (drop i p))) 8)"
  unfolding carquet_bitunpack8_3bit_def read_le_words(2) [OF assms] unpack8_simps
  by (intro conjI masked_digit32 refl) simp_all

lemma unpack8_4bit:
  assumes "i + 4 \<le> length p"
  shows "carquet_bitunpack8_4bit p i = Some (unpack_digits 4 (le_nat (take 4 (drop i p))) 8)"
  unfolding carquet_bitunpack8_4bit_def read_le_words(3) [OF assms] unpack8_simps
  by (intro conjI masked_digit32 refl) simp_all

lemma unpack8_5bit:
  assumes "i + 5 \<le> length p"
  shows "carquet_bitunpack8_5bit p i = Some (unpack_digits 5 (le_nat (take 5 (drop i p))) 8)"
  unfolding carquet_bitunpack8_5bit_def read_le_words(4) [OF assms] unpack8_simps
  by (intro conjI masked_digit refl) simp_all

lemma unpack8_6bit:
  assumes "i + 6 \<le> length p"
  shows "carquet_bitunpack8_6bit p i = Some (unpack_digits 6 (le_nat (take 6 (drop i p))) 8)"
  unfolding carquet_bitunpack8_6bit_def read_le_words(5) [OF assms] unpack8_simps
  by (intro conjI masked_digit refl) simp_all

lemma unpack8_7bit:
  assumes "i + 7 \<le> length p"
  shows "carquet_bitunpack8_7bit p i = Some (unpack_digits 7 (le_nat (take 7 (drop i p))) 8)"
  unfolding carquet_bitunpack8_7bit_def read_le_words(6) [OF assms] unpack8_simps
  by (intro conjI masked_digit refl) simp_all

lemma unpack8_1bit:
  assumes "i + 1 \<le> length p"
  shows "carquet_bitunpack8_1bit p i = Some (unpack_digits 1 (le_nat (take 1 (drop i p))) 8)"
proof -
  have "rd p i = Some (le_word (take 1 (drop i p)) :: u8)"
    using assms take_drop_nths_le(1) [OF assms] by (simp del: One_nat_def)
  then show ?thesis
    unfolding carquet_bitunpack8_1bit_def unpack8_simps
    by (simp only: bind.bind_lunit unpack8_simps) (intro conjI masked_digit refl; simp)
qed

lemma digit_8: "k < length bs \<Longrightarrow> digit 8 (le_nat bs) k = ucast (bs ! k)"
proof (rule bit_word_eqI)
  fix n assume "k < length bs" "n < LENGTH(32)"
  moreover have "bit (bs ! k) n \<Longrightarrow> n < 8" using bit_imp_le_length by fastforce
  ultimately show "bit (digit 8 (le_nat bs) k) n = bit (ucast (bs ! k) :: u32) n"
    by (auto simp: bit_digit bit_le_nat bit_simps)
qed

lemma unpack8_8bit:
  assumes "i + 8 \<le> length p"
  shows "carquet_bitunpack8_8bit p i = Some (unpack_digits 8 (le_nat (take 8 (drop i p))) 8)"
  using assms by (simp add: carquet_bitunpack8_8bit_def unpack_digits_8 digit_8)

text \<open>
  The contract of an unpacking kernel, which the specialised functions of the table meet and a
  SIMD kernel must meet: on \<open>bw\<close> readable bytes it returns their eight digits.
\<close>

locale bitunpack_kernels =
  fixes fn :: "nat \<Rightarrow> bitunpack8_fn option"
  assumes kernel: "fn bw = Some f \<Longrightarrow> i + bw \<le> length p \<Longrightarrow>
    f p i = Some (unpack_digits bw (le_nat (take bw (drop i p))) 8)"

interpretation specialised: bitunpack_kernels unpack_functions
  by unfold_locales
    (auto simp: unpack_functions_def unpack8_1bit unpack8_2bit unpack8_3bit unpack8_4bit unpack8_5bit
      unpack8_6bit unpack8_7bit unpack8_8bit simp del: One_nat_def split: if_splits)

interpretation portable: bitunpack_kernels scalar_dispatch
  by unfold_locales (simp add: scalar_dispatch_def)
section \<open>The general unpacking loop\<close>

text \<open>Moving on inside a byte, or to the start of the next one.\<close>

lemma byte_offset:
  assumes "j < 8 - x mod 8"
  shows "(x + j) div 8 = x div 8" and "(x + j) mod 8 = x mod 8 + (j::nat)"
proof -
  have eq: "8 * (x div 8) + (x mod 8 + j) = x + j" by simp
  have "(8 * q + m) div 8 = q \<and> (8 * q + m) mod 8 = m" if "m < 8" for q m :: nat
    using that by simp
  from this [of "x mod 8 + j" "x div 8"] show "(x + j) div 8 = x div 8" and "(x + j) mod 8 = x mod 8 + j"
    using assms unfolding eq by simp_all
qed

lemma byte_advance:
  assumes "0 < n" and "n \<le> 8 - x mod 8"
  shows "(if (x + n) mod 8 = 0 then x div 8 + 1 else x div 8) = (x + (n::nat)) div 8"
proof (cases "n = 8 - x mod 8")
  case True
  then have "x mod 8 + n = 8" by simp
  moreover have "x + n = 8 * (x div 8) + (x mod 8 + n)" by simp
  ultimately have "x + n = 8 * (x div 8 + 1)" by (simp only: distrib_left mult_1_right)
  then show ?thesis by simp
next
  case False
  then have n: "n < 8 - x mod 8" using assms by simp
  show ?thesis using byte_offset [OF n] assms by simp
qed

lemma low_mask: "(push_bit n 1 - 1 :: 'a::len word) = mask n" "(2 ^ n - 1 :: 'a word) = mask n"
  by (simp_all add: mask_eq_exp_minus_1)

text \<open>One round moves \<open>n\<close> bits of the stream from the byte at hand into the value.\<close>

lemma unpack_step_bits:
  assumes N: "N = le_nat (drop base input)" and room: "(start + b) div 8 < length (drop base input)"
    and n: "n \<le> 8 - (start + b) mod 8" and "b + n \<le> 64"
  shows "of_nat (take_bit b (drop_bit start N)) OR
      push_bit b (ucast (drop_bit ((start + b) mod 8) (input ! (base + (start + b) div 8))) AND (push_bit n 1 - 1)) =
    (of_nat (take_bit (b + n) (drop_bit start N)) :: u64)" (is "?l = ?r")
proof (rule bit_word_eqI)
  fix k assume k: "k < LENGTH(64)"
  define j where "j = k - b"
  have byte: "bit (input ! (base + (start + b) div 8)) ((start + b) mod 8 + j) \<longleftrightarrow> bit N (start + b + j)" if "j < n"
  proof -
    have "(start + b + j) div 8 = (start + b) div 8" "(start + b + j) mod 8 = (start + b) mod 8 + j"
      using byte_offset [of j "start + b"] that n by simp_all
    then show ?thesis using room by (simp add: N bit_le_nat)
  qed
  show "bit ?l k = bit ?r k"
  proof (cases "k < b")
    case True
    then show ?thesis using k by (auto simp: low_mask bit_simps)
  next
    case False
    then have "k = b + j" by (simp add: j_def)
    then show ?thesis using byte k assms(4)
      by (auto simp: low_mask bit_simps add.assoc add.commute add.left_commute dest: bit_imp_le_length)
  qed
qed

lemma unpack_value_loop_correct:
  assumes "N = le_nat (drop base input)" and "b + needed \<le> 64" and "start + b + needed \<le> 8 * (length input - base)"
  shows "unpack_value_loop input base (start + b) ((start + b) div 8) (of_nat (take_bit b (drop_bit start N))) b needed =
    Some (of_nat (take_bit (b + needed) (drop_bit start N)), start + b + needed, (start + b + needed) div 8)"
  using assms(2,3)
proof (induction needed arbitrary: b rule: less_induct)
  case (less needed)
  show ?case
  proof (cases "needed = 0")
    case True
    then show ?thesis by (subst unpack_value_loop.simps) simp
  next
    case False
    define n where "n = (if 8 - (start + b) mod 8 > needed then needed else 8 - (start + b) mod 8)"
    have n: "0 < n" "n \<le> needed" "n \<le> 8 - (start + b) mod 8" using False by (auto simp: n_def)
    have room: "(start + b) div 8 < length (drop base input)" using less.prems False by auto
    have nth: "base + (start + b) div 8 < length input" using room by simp
    have byte_pos: "(if (start + b + n) mod 8 = 0 then (start + b) div 8 + 1 else (start + b) div 8) = (start + (b + n)) div 8"
      using byte_advance [OF n(1,3)] by (simp add: add.assoc)
    have IH: "unpack_value_loop input base (start + (b + n)) ((start + (b + n)) div 8)
        (of_nat (take_bit (b + n) (drop_bit start N))) (b + n) (needed - n) =
      Some (of_nat (take_bit (b + n + (needed - n)) (drop_bit start N)), start + (b + n) + (needed - n),
        (start + (b + n) + (needed - n)) div 8)"
      using less.prems n by (intro less.IH) auto
    show ?thesis
      using False nth IH n unpack_step_bits [OF assms(1) room n(3)] less.prems byte_pos
      by (subst unpack_value_loop.simps) (simp add: n_def [symmetric] Let_def add.assoc)
  qed
qed

lemma unpack_values_loop_correct:
  assumes "N = le_nat (drop base input)" and "0 < bw" "bw \<le> 32" and "(i + n) * bw \<le> 8 * (length input - base)"
  shows "unpack_values_loop n input base bw (i * bw) (i * bw div 8) = Some (map (digit bw N) [i..<i + n])"
  using assms(4)
proof (induction n arbitrary: i)
  case (Suc n)
  have one: "unpack_value_loop input base (i * bw) (i * bw div 8) 0 0 bw =
      Some (of_nat (take_bit bw (drop_bit (i * bw) N)), Suc i * bw, Suc i * bw div 8)"
    using unpack_value_loop_correct [OF assms(1), of 0 bw "i * bw"] assms(3) Suc.prems
    by (simp add: add.commute le_diff_conv add_mult_distrib)
  have IH: "unpack_values_loop n input base bw (Suc i * bw) (Suc i * bw div 8) = Some (map (digit bw N) [Suc i..<Suc i + n])"
    using Suc.prems by (intro Suc.IH) simp
  have val: "ucast ((of_nat (take_bit bw (drop_bit (i * bw) N)) :: u64) AND ucast (ucast (push_bit bw (1::u64) - 1) :: u32)) = digit bw N i"
    by (rule bit_word_eqI) (auto simp: bit_digit low_mask bit_simps)
  have "[i..<i + Suc n] = i # [Suc i..<Suc i + n]" by (simp add: upt_rec)
  then show ?case by (simp add: one IH val [unfolded push_bit_of_1] Let_def del: mult_Suc upt_Suc)
qed simp

lemma replicate_8: "replicate 8 x = [x, x, x, x, x, x, x, x]"
  by (simp add: numeral_eq_Suc)

context bitunpack_kernels
begin

lemma bitunpack8_digits:
  assumes "bw \<le> 32" and "i + bw \<le> length p"
  shows "carquet_bitunpack8_32 fn p i bw = Some (unpack_digits bw (le_nat (take bw (drop i p))) 8)"
proof (cases "bw = 0")
  case True
  then show ?thesis by (simp add: carquet_bitunpack8_32_def unpack_digits_8 digit_def replicate_8)
next
  case False
  have "unpack_values_loop 8 p i bw 0 0 = Some (unpack_digits bw (le_nat (drop i p)) 8)"
    using unpack_values_loop_correct [OF refl, of bw 0 8 p i] assms False by (simp add: unpack_digits_def)
  then show ?thesis
    using False assms kernel specialised.kernel
    by (auto simp: carquet_bitunpack8_32_def unpack_digits_take split: option.splits)
qed

end
section \<open>Packing writes the digits\<close>

text \<open>The number whose digits in base \<open>2 ^ bw\<close> are the low \<open>bw\<close> bits of the values.\<close>

fun packed_nat :: "nat \<Rightarrow> u32 list \<Rightarrow> nat" where
  "packed_nat bw [] = 0"
| "packed_nat bw (v # vs) = take_bit bw (unat v) OR push_bit bw (packed_nat bw vs)"

lemma bit_packed_nat:
  "0 < bw \<Longrightarrow> bit (packed_nat bw vs) n \<longleftrightarrow> n div bw < length vs \<and> bit (vs ! (n div bw)) (n mod bw)"
proof (induction vs arbitrary: n)
  case (Cons v vs)
  show ?case
  proof (cases "n < bw")
    case True
    then show ?thesis by (auto simp: bit_simps)
  next
    case False
    then obtain m where n: "n = m + bw" by (metis add.commute le_Suc_ex not_le)
    then have "n div bw = Suc (m div bw)" "n mod bw = m mod bw" using Cons.prems by (simp_all add: div_add_self2)
    then show ?thesis using Cons.IH [of m] Cons.prems n by (auto simp: bit_simps)
  qed
qed simp

lemma unpack_packed: "0 < bw \<Longrightarrow> unpack_digits bw (packed_nat bw vs) (length vs) = map (take_bit bw) vs"
proof (rule nth_equalityI)
  fix i assume bw: "0 < bw" and "i < length (unpack_digits bw (packed_nat bw vs) (length vs))"
  then have i: "i < length vs" by simp
  have "bit (digit bw (packed_nat bw vs) i) j = bit (take_bit bw (vs ! i)) j" if "j < 32" for j
    using bw i that by (auto simp: bit_digit bit_packed_nat bit_simps)
  then show "unpack_digits bw (packed_nat bw vs) (length vs) ! i = map (take_bit bw) vs ! i"
    using i by (auto intro: bit_word_eqI)
qed simp

lemma le_nat_or_byte: "q < length blk \<Longrightarrow> le_nat (blk[q := blk ! q OR b]) = le_nat blk OR push_bit (8 * q) (unat b)"
proof (rule bit_eqI)
  fix n assume q: "q < length blk"
  have b8: "bit b k \<Longrightarrow> k < 8" for k using bit_imp_le_length [of b k] by simp
  show "bit (le_nat (blk[q := blk ! q OR b])) n = bit (le_nat blk OR push_bit (8 * q) (unat b)) n"
  proof (cases "n div 8 = q")
    case True
    then have "n = 8 * q + n mod 8" by auto
    then have "n - 8 * q = n mod 8" "8 * q \<le> n" by linarith+
    then show ?thesis using True q by (auto simp: bit_le_nat bit_simps)
  next
    case False
    then have "8 * q \<le> n \<Longrightarrow> \<not> bit b (n - 8 * q)" using b8 [of "n - 8 * q"] by auto
    then show ?thesis using False q by (auto simp: bit_le_nat bit_simps)
  qed
qed

lemma or_byte_at:
  "q < length blk \<Longrightarrow> or_byte (pre @ blk @ post) (length pre + q) b = Some (pre @ blk[q := blk ! q OR b] @ post)"
  by (simp add: or_byte_def nth_append list_update_append)

lemma byte_split: "unat (val :: u32) = unat (ucast val :: u8) OR push_bit 8 (unat (drop_bit 8 val))"
proof (rule bit_eqI)
  fix n
  show "bit (unat val) n = bit (unat (ucast val :: u8) OR push_bit 8 (unat (drop_bit 8 val))) n"
    by (cases "n < 8") (auto simp: bit_simps)
qed

lemma pack_rest_loop_correct:
  assumes "8 * q = s + w" and "s + bw \<le> 8 * length blk" and "unat val < 2 ^ (bw - w)"
  shows "\<exists>blk'. pack_rest_loop (pre @ blk @ post) (length pre + q) val w bw = Some (pre @ blk' @ post) \<and>
    length blk' = length blk \<and> le_nat blk' = le_nat blk OR push_bit (8 * q) (unat val)"
  using assms
proof (induction "bw - w" arbitrary: q w val blk rule: less_induct)
  case less
  show ?case
  proof (cases "w < bw")
    case False
    then show ?thesis using less.prems by (subst pack_rest_loop.simps) simp
  next
    case True
    have q: "q < length blk" using True less.prems by simp
    define blk1 where "blk1 = blk[q := blk ! q OR ucast val]"
    have c4: "unat (drop_bit 8 val) < 2 ^ (bw - (w + 8))"
    proof (cases "bw - w \<le> 8")
      case True
      then have "(2::nat) ^ (bw - w) \<le> 2 ^ 8" by (intro power_increasing) simp_all
      then show ?thesis using less.prems(3) True unfolding unat_drop_bit_eq by (simp add: drop_bit_eq_div)
    next
      case False
      define e where "e = bw - (w + 8)"
      have "bw - w = e + 8" using False by (simp add: e_def)
      then have "unat val < 2 ^ e * 256" using less.prems(3) by (simp add: power_add)
      then show ?thesis unfolding unat_drop_bit_eq e_def [symmetric]
        by (simp add: drop_bit_eq_div less_mult_imp_div_less)
    qed
    have c1: "bw - (w + 8) < bw - w" and c2: "8 * Suc q = s + (w + 8)" and c3: "s + bw \<le> 8 * length blk1"
      using True less.prems(1,2) by (simp_all add: blk1_def)
    obtain blk' where "pack_rest_loop (pre @ blk1 @ post) (length pre + Suc q) (drop_bit 8 val) (w + 8) bw = Some (pre @ blk' @ post)"
      "length blk' = length blk1" "le_nat blk' = le_nat blk1 OR push_bit (8 * Suc q) (unat (drop_bit 8 val))"
      using less.hyps [OF c1 c2 c3 c4] by blast
    moreover have "le_nat blk1 OR push_bit (8 * Suc q) (unat (drop_bit 8 val)) = le_nat blk OR push_bit (8 * q) (unat val)"
    proof -
      have "push_bit (8 * q) (unat val) = push_bit (8 * q) (unat (ucast val :: u8)) OR
          push_bit (8 * Suc q) (unat (drop_bit 8 val))"
        by (subst byte_split) (simp add: push_bit_or add.commute)
      then show ?thesis using le_nat_or_byte [OF q, of "ucast val"] by (simp add: blk1_def or.assoc)
    qed
    ultimately show ?thesis using True or_byte_at [OF q, of pre post "ucast val"]
      by (subst pack_rest_loop.simps) (simp add: blk1_def)
  qed
qed

lemma low_bits_val: "bw \<le> 32 \<Longrightarrow> v AND ucast (push_bit bw (1::u64) - 1) = (take_bit bw v :: u32)"
  by (rule bit_word_eqI) (auto simp: low_mask bit_simps)

lemma unat_take_bit: "unat (take_bit n v :: 'a::len word) = take_bit n (unat v)"
  by (rule bit_eqI) (auto simp: bit_simps)

text \<open>A value of \<open>bw\<close> bits at bit \<open>s\<close>: the byte where it starts, then the following bytes.\<close>

lemma value_split:
  assumes "off = s mod 8"
  shows "push_bit s (unat (x :: u32)) =
    push_bit (8 * (s div 8)) (unat (ucast (push_bit off x) :: u8)) OR
    push_bit (8 * (s div 8 + 1)) (unat (drop_bit (8 - off) x))" (is "?l = ?r")
proof (rule bit_eqI)
  fix n
  have s: "s = 8 * (s div 8) + off" "off < 8" using assms by simp_all
  define q where "q = s div 8"
  have sq: "s = 8 * q + off" using s by (simp add: q_def)
  consider (a) "n < 8 * q" | (b) m where "n = 8 * q + m" "m < off" | (c) m where "n = 8 * q + off + m" "off + m < 8"
    | (d) m where "n = 8 * q + 8 + m"
    by (metis add.assoc le_Suc_ex not_le)
  then show "bit ?l n = bit ?r n" unfolding q_def [symmetric]
    by cases (use s(2) in \<open>auto simp: sq bit_simps\<close>)
qed

lemma pack_values_loop_correct:
  assumes "0 < bw" "bw \<le> 32" and "(m + n) * bw \<le> 8 * length blk" and "j + n \<le> length vs"
  shows "\<exists>blk'. pack_values_loop n vs j bw (pre @ blk @ post) (length pre) (m * bw) = Some (pre @ blk' @ post) \<and>
    length blk' = length blk \<and> le_nat blk' = le_nat blk OR push_bit (m * bw) (packed_nat bw (take n (drop j vs)))"
  using assms(3,4)
proof (induction n arbitrary: m j blk)
  case (Suc n)
  define x where "x = (take_bit bw (vs ! j) :: u32)"
  define q off where "q = m * bw div 8" and "off = m * bw mod 8"
  define blk1 where "blk1 = blk[q := blk ! q OR ucast (push_bit off x)]"
  have q: "q < length blk" 
  proof -
    have "m * bw < 8 * length blk" using Suc.prems(1) assms(1) by (simp add: add_mult_distrib)
    then show ?thesis by (simp add: q_def less_mult_imp_div_less mult.commute)
  qed
  have off: "off < 8" "8 * q + off = m * bw" by (simp_all add: q_def off_def)
  have x: "unat x < 2 ^ bw" by (simp add: x_def unat_take_bit)
  have "\<exists>blk2. (if 8 - off < bw then pack_rest_loop (pre @ blk1 @ post) (length pre + (q + 1)) (drop_bit (8 - off) x) (8 - off) bw
      else Some (pre @ blk1 @ post)) = Some (pre @ blk2 @ post) \<and> length blk2 = length blk \<and>
      le_nat blk2 = le_nat blk1 OR push_bit (8 * (q + 1)) (unat (drop_bit (8 - off) x))"
  proof (cases "8 - off < bw")
    case True
    have "unat (drop_bit (8 - off) x) < 2 ^ (bw - (8 - off))"
      using x True unfolding unat_drop_bit_eq
      by (simp add: drop_bit_eq_div less_mult_imp_div_less flip: power_add)
    moreover have "8 * (q + 1) = m * bw + (8 - off)" using off(1) by (simp add: off(2) [symmetric])
    moreover have "m * bw + bw \<le> 8 * length blk1" using Suc.prems(1) by (simp add: blk1_def add_mult_distrib)
    ultimately obtain blk2 where
      "pack_rest_loop (pre @ blk1 @ post) (length pre + (q + 1)) (drop_bit (8 - off) x) (8 - off) bw = Some (pre @ blk2 @ post)"
      "length blk2 = length blk1" "le_nat blk2 = le_nat blk1 OR push_bit (8 * (q + 1)) (unat (drop_bit (8 - off) x))"
      using pack_rest_loop_correct by blast
    then show ?thesis using True by (auto simp: blk1_def)
  next
    case False
    then have "(2::nat) ^ bw \<le> 2 ^ (8 - off)" by (intro power_increasing) simp_all
    then have "unat x < 2 ^ (8 - off)" using x by (rule order_less_le_trans [rotated])
    then have "unat (drop_bit (8 - off) x) = 0"
      by (subst unat_drop_bit_eq, subst drop_bit_eq_div, rule div_less)
    then show ?thesis using False by (simp add: blk1_def)
  qed
  then obtain blk2 where r: "(if 8 - off < bw then pack_rest_loop (pre @ blk1 @ post) (length pre + (q + 1)) (drop_bit (8 - off) x) (8 - off) bw
      else Some (pre @ blk1 @ post)) = Some (pre @ blk2 @ post)" and l2: "length blk2 = length blk"
    and n2: "le_nat blk2 = le_nat blk1 OR push_bit (8 * (q + 1)) (unat (drop_bit (8 - off) x))" by blast
  have n2': "le_nat blk2 = le_nat blk OR push_bit (m * bw) (unat x)"
    using n2 le_nat_or_byte [OF q] value_split [of off "m * bw" x]
    by (simp add: blk1_def off_def q_def or.assoc)
  obtain blk' where b': "pack_values_loop n vs (Suc j) bw (pre @ blk2 @ post) (length pre) (Suc m * bw) = Some (pre @ blk' @ post)"
      "length blk' = length blk" "le_nat blk' = le_nat blk2 OR push_bit (Suc m * bw) (packed_nat bw (take n (drop (Suc j) vs)))"
    using Suc.IH [of "Suc m" blk2 "Suc j"] Suc.prems l2 by auto
  have P: "push_bit (m * bw) (packed_nat bw (take (Suc n) (drop j vs))) =
      push_bit (m * bw) (unat x) OR push_bit (Suc m * bw) (packed_nat bw (take n (drop (Suc j) vs)))"
    using Suc.prems(2) by (simp add: drop_eq_Cons push_bit_or x_def unat_take_bit add.commute)
  show ?case
    using Suc.prems(2) r b' or_byte_at [OF q, of pre post "ucast (push_bit off x)"] n2' P
    by (auto simp: Let_def low_bits_val [OF assms(2)] x_def [symmetric] q_def [symmetric] off_def [symmetric]
      blk1_def [symmetric] or.assoc add.commute [of bw] add.assoc simp del: push_bit_of_1)
qed simp

lemma le_nat_replicate_0 [simp]: "le_nat (replicate n 0) = 0"
  by (induction n) simp_all

lemma packed_nat_8: "le_nat (map ucast vs) = packed_nat 8 vs"
proof (rule bit_eqI)
  fix n :: nat
  have "n mod 8 < 8" by simp
  then show "bit (le_nat (map ucast vs)) n = bit (packed_nat 8 vs) n"
    by (auto simp: bit_le_nat bit_packed_nat bit_simps)
qed

text \<open>
  Packing eight values fills exactly \<open>bw\<close> bytes of the output, whatever was there before, with
  the number whose digits are the values.
\<close>

lemma bitpack8_correct:
  assumes "bw \<le> 32" and "i + 8 \<le> length vs" and "length old = bw"
  shows "\<exists>blk. carquet_bitpack8_32 vs i bw (pre @ old @ post) (length pre) = Some (pre @ blk @ post) \<and>
    length blk = bw \<and> le_nat blk = packed_nat bw (take 8 (drop i vs))"
proof -
  consider "bw = 0" | "bw = 8" | "bw \<noteq> 0" "bw \<noteq> 8" by blast
  then show ?thesis
  proof cases
    case 1
    then have "packed_nat bw us = 0" for us by (induction us) auto
    then show ?thesis using 1 assms by (simp add: carquet_bitpack8_32_def)
  next
    case 2
    then show ?thesis using assms
      by (simp add: carquet_bitpack8_32_def rd_bytes_in wr_bytes_in packed_nat_8)
  next
    case 3
    have "wr_bytes (pre @ old @ post) (length pre) (replicate bw 0) = Some (pre @ replicate bw 0 @ post)"
      using assms by (simp add: wr_bytes_in)
    then show ?thesis
      using 3 pack_values_loop_correct [of bw 0 8 "replicate bw 0" i vs pre post] assms
      by (simp add: carquet_bitpack8_32_def)
  qed
qed

section \<open>Many values\<close>

lemma le_nat_append: "le_nat (as @ bs) = le_nat as OR push_bit (8 * length as) (le_nat bs)"
proof (rule bit_eqI)
  fix n :: nat
  show "bit (le_nat (as @ bs)) n = bit (le_nat as OR push_bit (8 * length as) (le_nat bs)) n"
  proof (cases "n div 8 < length as")
    case True
    then have "\<not> 8 * length as \<le> n" by linarith
    then show ?thesis using True by (simp add: bit_le_nat bit_or_iff bit_push_bit_iff nth_append)
  next
    case False
    then have "8 * length as \<le> n" by linarith
    then obtain m where n: "n = 8 * length as + m" using le_Suc_ex by blast
    then have "n div 8 = length as + m div 8" "n mod 8 = m mod 8" by simp_all
    then show ?thesis using n by (simp add: bit_le_nat bit_or_iff bit_push_bit_iff nth_append)
  qed
qed

lemma bit_le_nat_drop: "bit (le_nat (drop k bs)) n = bit (le_nat bs) (8 * k + n)"
  by (auto simp: bit_le_nat)

lemma digit_drop: "digit bw (le_nat (drop (k + g * bw) p)) i = digit bw (le_nat (drop k p)) (8 * g + i)"
proof -
  have "8 * (k + g * bw) + (i * bw + j) = 8 * k + ((8 * g + i) * bw + j)" for j
    by (simp add: add_mult_distrib add_mult_distrib2)
  then show ?thesis by (intro bit_word_eqI) (simp only: bit_digit bit_le_nat_drop)
qed

text \<open>The digits of the last, partial group, read from its bytes padded with zeros.\<close>

lemma digit_padded:
  assumes "i < left" "left \<le> 8" "left * bw \<le> 8 * length tail"
  shows "digit bw (le_nat (take bw (tail @ zs))) i = digit bw (le_nat tail) i"
proof (rule bit_word_eqI)
  fix j
  have "i * bw + bw \<le> left * bw" using mult_le_mono1 [of "Suc i" left bw] assms(1) by simp
  moreover have "left * bw \<le> 8 * bw" using assms(2) by (rule mult_le_mono1)
  ultimately have "j < bw \<Longrightarrow> i * bw + j < 8 * bw \<and> i * bw + j < 8 * length tail" using assms(3) by linarith
  then show "bit (digit bw (le_nat (take bw (tail @ zs))) i) j = bit (digit bw (le_nat tail) i) j"
    by (auto simp: bit_digit le_nat_take_bits le_nat_append bit_simps)
qed

lemma unpack_digits_add: "unpack_digits bw N (m + n) = unpack_digits bw N m @ map (digit bw N) [m..<m + n]"
  by (simp only: unpack_digits_def upt_add_eq_append [of 0 m n] map_append)

lemma packed_nat_append: "packed_nat bw (us @ vs) = packed_nat bw us OR push_bit (bw * length us) (packed_nat bw vs)"
  by (induction us) (simp_all add: push_bit_or or.assoc)

lemma packed_size_exact: "count * bw + 7 < 2 ^ 64 \<Longrightarrow> carquet_packed_size count bw = (count * bw + 7) div 8"
  by (simp add: carquet_packed_size_def sz_id)

context bitunpack_kernels
begin

lemma bitunpack_groups_digits:
  "bw \<le> 32 \<Longrightarrow> base + n * bw \<le> length p \<Longrightarrow>
     bitunpack_groups n fn p base bw = Some (unpack_digits bw (le_nat (drop base p)) (8 * n))"
proof (induction n arbitrary: base)
  case (Suc n)
  have one: "carquet_bitunpack8_32 fn p base bw = Some (unpack_digits bw (le_nat (drop base p)) 8)"
    using bitunpack8_digits [of bw base p] Suc.prems by (simp add: unpack_digits_take)
  have "unpack_digits bw (le_nat (drop (base + bw) p)) (8 * n) = map (digit bw (le_nat (drop base p))) [8..<8 + 8 * n]"
    by (rule nth_equalityI) (simp_all add: digit_drop [of bw base 1, simplified])
  then show ?case using Suc.IH [of "base + bw"] Suc.prems one
    by (simp add: unpack_digits_add add.assoc)
qed (simp add: unpack_digits_def)

lemma bitunpack_digits:
  assumes "bw \<le> 32" and "count * bw + 7 < 2 ^ 64" and "base + (count * bw + 7) div 8 \<le> length p"
  shows "carquet_bitunpack_32 fn p base count bw =
    Some (unpack_digits bw (le_nat (drop base p)) count, (count * bw + 7) div 8)"
proof (cases "bw = 0")
  case True
  then show ?thesis
    by (auto simp: carquet_bitunpack_32_def unpack_digits_def digit_def intro: nth_equalityI)
next
  case False
  define g left where "g = count div 8" and "left = count - 8 * g"
  have count: "count = 8 * g + left" "left < 8" by (simp_all add: g_def left_def minus_mult_div_eq_mod)
  have total: "(count * bw + 7) div 8 = g * bw + (left * bw + 7) div 8"
  proof -
    have "count * bw + 7 = (left * bw + 7) + 8 * (g * bw)" by (simp add: count(1) add_mult_distrib)
    then show ?thesis by (simp only: div_mult_self2)
  qed
  have groups: "bitunpack_groups g fn p base bw = Some (unpack_digits bw (le_nat (drop base p)) (8 * g))"
    using assms total by (intro bitunpack_groups_digits) auto
  show ?thesis
  proof (cases "left = 0")
    case True
    then show ?thesis using False groups total count
      by (simp add: carquet_bitunpack_32_def g_def [symmetric] left_def [symmetric])
  next
    case left: False
    define tb where "tb = (left * bw + 7) div 8"
    define tail where "tail = take tb (drop (base + g * bw) p)"
    have lb: "left * bw \<le> 7 * 32" using count(2) assms(1) by (intro mult_le_mono) auto
    have "x \<le> 8 * ((x + 7) div 8)" for x :: nat by presburger
    then have tb: "tb \<le> 32" "left * bw \<le> 8 * tb" using lb by (auto simp: tb_def)
    have size: "carquet_packed_size left bw = tb"
      using lb unfolding tb_def by (intro packed_size_exact) simp
    have tail: "length tail = tb" "rd_bytes p (base + g * bw) tb = Some tail"
      using assms(3) total by (simp_all add: tail_def tb_def rd_bytes_in)
    have padded: "wr_bytes (replicate 32 0) 0 tail = Some (tail @ replicate (32 - tb) 0)"
      using tail tb by (simp add: wr_bytes_in)
    have temp: "carquet_bitunpack8_32 fn (tail @ replicate (32 - tb) 0) 0 bw =
        Some (unpack_digits bw (le_nat (take bw (tail @ replicate (32 - tb) 0))) 8)"
      using bitunpack8_digits [of bw 0 "tail @ replicate (32 - tb) 0"] assms(1) tail tb by simp
    have "take left (unpack_digits bw (le_nat (take bw (tail @ replicate (32 - tb) 0))) 8) =
        map (digit bw (le_nat (drop base p))) [8 * g..<8 * g + left]"
    proof (rule nth_equalityI)
      fix i assume "i < length (take left (unpack_digits bw (le_nat (take bw (tail @ replicate (32 - tb) 0))) 8))"
      then have i: "i < left" by simp
      have "digit bw (le_nat tail) i = digit bw (le_nat (drop (base + g * bw) p)) i"
        using i tb(2) unfolding tail_def
        by (intro digit_take) (metis Suc_leI mult_le_mono1 order_trans)
      then have "digit bw (le_nat (take bw (tail @ replicate (32 - tb) 0))) i = digit bw (le_nat (drop base p)) (8 * g + i)"
        using digit_padded [OF i, of bw tail "replicate (32 - tb) 0"] count(2) tb(2) tail(1)
        by (simp add: digit_drop del: take_append take_replicate)
      then show "take left (unpack_digits bw (le_nat (take bw (tail @ replicate (32 - tb) 0))) 8) ! i =
          map (digit bw (le_nat (drop base p))) [8 * g..<8 * g + left] ! i"
        using i count(2) by simp
    qed (use count(2) in simp)
    then show ?thesis
      using False left groups size tail padded temp total count
      by (simp add: carquet_bitunpack_32_def g_def [symmetric] left_def [symmetric] Let_def
          unpack_digits_add [of bw _ "8 * g" left] tb_def [symmetric])
  qed
qed
end
lemma packed_nat_zeros [simp]: "packed_nat bw (replicate n 0) = 0"
  by (induction n) simp_all

lemma packed_nat_width_0 [simp]: "packed_nat 0 vs = 0"
  by (induction vs) simp_all

lemma bitpack_groups_correct:
  assumes "bw \<le> 32"
  shows "i + 8 * n \<le> length vs \<Longrightarrow> length old = n * bw \<Longrightarrow>
    \<exists>blk. bitpack_groups n vs i bw (pre @ old @ post) (length pre) = Some (pre @ blk @ post) \<and>
      length blk = n * bw \<and> le_nat blk = packed_nat bw (take (8 * n) (drop i vs))"
proof (induction n arbitrary: i pre old)
  case (Suc n)
  define old1 old2 where "old1 = take bw old" and "old2 = drop bw old"
  have old: "old = old1 @ old2" "length old1 = bw" "length old2 = n * bw"
    using Suc.prems by (simp_all add: old1_def old2_def)
  obtain blk1 where b1: "carquet_bitpack8_32 vs i bw (pre @ old1 @ (old2 @ post)) (length pre) = Some (pre @ blk1 @ (old2 @ post))"
      "length blk1 = bw" "le_nat blk1 = packed_nat bw (take 8 (drop i vs))"
    using bitpack8_correct [OF assms, of i vs old1 pre "old2 @ post"] Suc.prems old by auto
  obtain blk2 where b2: "bitpack_groups n vs (i + 8) bw ((pre @ blk1) @ old2 @ post) (length (pre @ blk1)) =
      Some ((pre @ blk1) @ blk2 @ post)" "length blk2 = n * bw" "le_nat blk2 = packed_nat bw (take (8 * n) (drop (i + 8) vs))"
    using Suc.IH [of "i + 8" old2 "pre @ blk1"] Suc.prems old by auto
  have "take (8 * Suc n) (drop i vs) = take 8 (drop i vs) @ take (8 * n) (drop (i + 8) vs)"
    by (simp add: take_add add.commute)
  then have "le_nat (blk1 @ blk2) = packed_nat bw (take (8 * Suc n) (drop i vs))"
    using b1 b2 Suc.prems by (simp add: le_nat_append packed_nat_append min_def mult.commute)
  then show ?case using b1 b2 old by (intro exI [of _ "blk1 @ blk2"]) simp
qed simp

lemma bitpack_correct:
  assumes "bw \<le> 32" and "count \<le> length vs" and "count * bw + 7 < 2 ^ 64"
    and "length old = (count + 7) div 8 * bw"
  shows "\<exists>blk. carquet_bitpack_32 vs count bw (pre @ old @ post) (length pre) =
      Some ((count * bw + 7) div 8, pre @ blk @ post) \<and>
    length blk = length old \<and> le_nat blk = packed_nat bw (take count vs)"
proof (cases "bw = 0 \<or> count = 0")
  case True
  then show ?thesis using assms(4) by (auto simp: carquet_bitpack_32_def)
next
  case False
  define g left where "g = count div 8" and "left = count - 8 * g"
  have count: "count = 8 * g + left" "left < 8" by (simp_all add: g_def left_def minus_mult_div_eq_mod)
  have total: "(count * bw + 7) div 8 = g * bw + (left * bw + 7) div 8"
  proof -
    have "count * bw + 7 = (left * bw + 7) + 8 * (g * bw)" by (simp add: count(1) add_mult_distrib)
    then show ?thesis by (simp only: div_mult_self2)
  qed
  define old1 old2 where "old1 = take (g * bw) old" and "old2 = drop (g * bw) old"
  have gl: "g * bw \<le> length old" unfolding assms(4) g_def by (intro mult_le_mono1 div_le_mono) simp
  have old: "old = old1 @ old2" "length old1 = g * bw" using gl by (simp_all add: old1_def old2_def)
  obtain blk1 where b1: "bitpack_groups g vs 0 bw (pre @ old1 @ (old2 @ post)) (length pre) = Some (pre @ blk1 @ (old2 @ post))"
      "length blk1 = g * bw" "le_nat blk1 = packed_nat bw (take (8 * g) vs)"
    using bitpack_groups_correct [OF assms(1), of 0 g vs old1 pre "old2 @ post"] assms(2) count old by auto
  show ?thesis
  proof (cases "left = 0")
    case True
    then have c: "count = 8 * g" using count(1) by simp
    then have "length old = g * bw" using assms(4) by simp
    then have "old2 = []" by (simp add: old2_def)
    then show ?thesis using False True b1 total old
      by (auto simp: carquet_bitpack_32_def c)
  next
    case left: False
    have "(count + 7) div 8 = Suc g" using count left by linarith
    then have l2: "length old2 = bw" using assms(4) old by simp
    define tmp where "tmp = take left (drop (8 * g) vs) @ replicate (8 - left) 0"
    have room: "8 * g + left \<le> length vs" using assms(2) count(1) by simp
    then have len: "length (take left (drop (8 * g) vs)) = left" by simp
    have tmp: "rd_bytes vs (8 * g) left = Some (take left (drop (8 * g) vs))"
      using room by (rule rd_bytes_in)
    have tmp2: "wr_bytes (replicate 8 0) 0 (take left (drop (8 * g) vs)) = Some tmp"
      using len count(2) by (subst wr_bytes_in) (simp_all add: tmp_def)
    have tmp3: "length tmp = 8" using len count(2) by (simp add: tmp_def)
    have lb: "left * bw \<le> 7 * 32" using count(2) assms(1) by (intro mult_le_mono) auto
    obtain blk2 where b2: "carquet_bitpack8_32 tmp 0 bw ((pre @ blk1) @ old2 @ post) (length (pre @ blk1)) =
        Some ((pre @ blk1) @ blk2 @ post)" "length blk2 = bw" "le_nat blk2 = packed_nat bw tmp"
      using bitpack8_correct [OF assms(1), of 0 tmp old2 "pre @ blk1" post] l2 tmp3 by auto
    have "take count vs = take (8 * g) vs @ take left (drop (8 * g) vs)" by (simp add: count(1) take_add)
    moreover have "8 * length blk1 = bw * length (take (8 * g) vs)" using b1(2) room by simp
    moreover have "packed_nat bw tmp = packed_nat bw (take left (drop (8 * g) vs))"
      by (simp add: tmp_def packed_nat_append)
    ultimately have "le_nat (blk1 @ blk2) = packed_nat bw (take count vs)"
      by (simp only: le_nat_append packed_nat_append b1(3) b2(3))
    moreover have "count - 8 * g = left" "carquet_packed_size left bw = (left * bw + 7) div 8"
      using lb count by (simp_all add: packed_size_exact)
    ultimately show ?thesis using False left b1 b2 tmp tmp2 total count old l2
      by (intro exI [of _ "blk1 @ blk2"])
        (simp add: carquet_bitpack_32_def g_def [symmetric] Let_def)
  qed
qed

section \<open>Properties\<close>

text \<open>C3: Packing any number of values of any width up to 32 and unpacking the bytes gives the
  values back, cut to the width, with the specialised unpackers as with the general loop; both
  sides count the same bytes, and the memory around the output block is untouched.\<close>

theorem bitpack_roundtrip:
  assumes "bw \<le> 32" and "count \<le> length vs" and "count * bw + 7 < 2 ^ 64"
    and "length old = (count + 7) div 8 * bw"
  shows "\<exists>blk. carquet_bitpack_32 vs count bw (pre @ old @ post) (length pre) =
      Some (carquet_packed_size count bw, pre @ blk @ post) \<and> length blk = length old \<and>
    carquet_bitunpack_32 unpack_functions (pre @ blk @ post) (length pre) count bw =
      Some (map (take_bit bw) (take count vs), carquet_packed_size count bw) \<and>
    carquet_bitunpack_32 scalar_dispatch (pre @ blk @ post) (length pre) count bw =
      Some (map (take_bit bw) (take count vs), carquet_packed_size count bw)"
proof -
  obtain blk where blk: "carquet_bitpack_32 vs count bw (pre @ old @ post) (length pre) =
      Some ((count * bw + 7) div 8, pre @ blk @ post)" "length blk = length old"
    "le_nat blk = packed_nat bw (take count vs)"
    using bitpack_correct [OF assms] by blast
  have "count * bw \<le> (count + 7) div 8 * 8 * bw" by (intro mult_le_mono1) presburger
  then have bits: "count * bw \<le> 8 * length blk" using blk(2) assms(4) by (simp add: mult.commute mult.left_commute)
  then have fits: "length pre + (count * bw + 7) div 8 \<le> length (pre @ blk @ post)" by simp
  have "unpack_digits bw (le_nat (blk @ post)) count = unpack_digits bw (le_nat blk) count"
    using unpack_digits_take [OF bits, of "blk @ post"] by simp
  also have "\<dots> = map (take_bit bw) (take count vs)"
  proof (cases "bw = 0")
    case True
    then show ?thesis using assms(2) by (auto simp: unpack_digits_def digit_def intro!: nth_equalityI)
  next
    case False
    then show ?thesis using unpack_packed [of bw "take count vs"] blk(3) assms(2) by simp
  qed
  finally show ?thesis
    using blk specialised.bitunpack_digits [OF assms(1,3) fits] portable.bitunpack_digits [OF assms(1,3) fits]
    by (intro exI [of _ blk]) (simp add: packed_size_exact [OF assms(3)])
qed

lemma bitpack_roundtrip_witness:
  "\<exists>blk. carquet_bitpack_32 [1, 2, 3] 3 3 (replicate 3 0) 0 = Some (2, blk) \<and>
    carquet_bitunpack_32 unpack_functions blk 0 3 3 = Some ([1, 2, 3], 2)"
  using bitpack_roundtrip [of 3 3 "[1, 2, 3]" "replicate 3 0" "[]" "[]"]
  by (auto simp: carquet_packed_size_def sz_def take_bit_eq_mod)

text \<open>The specialised unpackers of the widths 1 to 8 agree with the general loop on every input,
  and neither reads past the bytes the count and the width call for.\<close>

theorem unpackers_agree:
  assumes "bw \<le> 32" and "count * bw + 7 < 2 ^ 64" and "base + carquet_packed_size count bw \<le> length p"
  shows "carquet_bitunpack_32 unpack_functions p base count bw = carquet_bitunpack_32 scalar_dispatch p base count bw \<and>
    (\<exists>vs. carquet_bitunpack_32 unpack_functions p base count bw = Some (vs, carquet_packed_size count bw) \<and>
      length vs = count \<and> (\<forall>v \<in> set vs. unat v < 2 ^ bw))"
proof -
  have fits: "base + (count * bw + 7) div 8 \<le> length p" using assms by (simp add: packed_size_exact)
  have "unat (digit bw N i) < 2 ^ bw" for N i
  proof -
    have "unat (digit bw N i) \<le> take_bit bw (drop_bit (i * bw) N)"
      unfolding digit_def unat_of_nat by (rule mod_less_eq_dividend)
    then show ?thesis using take_bit_nat_less_exp [of bw] le_less_trans by blast
  qed
  then show ?thesis
    using specialised.bitunpack_digits [OF assms(1,2) fits] portable.bitunpack_digits [OF assms(1,2) fits]
    by (auto simp: packed_size_exact [OF assms(2)] unpack_digits_def)
qed

lemma unpackers_agree_witness:
  "carquet_bitunpack_32 unpack_functions [0x11, 0x22] 0 5 3 = carquet_bitunpack_32 scalar_dispatch [0x11, 0x22] 0 5 3"
  using unpackers_agree [of 3 5 0 "[0x11, 0x22]"] by (simp add: carquet_packed_size_def sz_def)

end
