(* ===== verification/Rle_Decoder.thy ===== *)
theory Rle_Decoder
  imports Bitpack
begin

text \<open>
  Component src/encoding/rle.c, decoding: the RLE / bit-packing hybrid decoder with its state
  machine (new run, value, batch, skip) and its relation to a reference decoder.

  The decoder state is the C struct. Operations return None when the C code would read outside
  the data or the group buffer. \<open>carquet_bitunpack8_32\<close> is the one of the portable build.
\<close>

section \<open>The decoder\<close>

record carquet_rle_decoder =
  dec_data :: "u8 list"
  dec_size :: nat
  dec_pos :: nat
  dec_bit_width :: nat
  dec_value_mask :: u32
  dec_in_rle_run :: bool
  dec_run_remaining :: nat
  dec_rle_value :: u32
  dec_bitpack_buffer :: "u32 list"
  dec_bitpack_pos :: nat
  dec_bitpack_count :: nat
  dec_status :: carquet_status

text \<open>
  \<open>read_varint\<close> reads while \<open>shift < 32\<close>, which the shifts 0, 7, 14, 21 and 28 satisfy: five
  rounds. \<open>Some None\<close> is its return value -1, which leaves the position as it was.
\<close>

definition read_varint :: "u8 list \<Rightarrow> nat \<Rightarrow> nat \<Rightarrow> (u32 \<times> nat) option option" where
  "read_varint d n pos = decode_varint_loop 5 d n pos 0 0"

text \<open>The repeated value of an RLE run: \<open>k\<close> bytes are left to read, the next one is byte \<open>i\<close>.\<close>

fun read_value_loop :: "nat \<Rightarrow> nat \<Rightarrow> u8 list \<Rightarrow> nat \<Rightarrow> u32 \<Rightarrow> (u32 \<times> nat) option" where
  "read_value_loop 0 i d pos v = Some (v, pos)"
| "read_value_loop (Suc k) i d pos v = do {
     b \<leftarrow> rd d pos;
     read_value_loop k (i + 1) d (pos + 1) (v OR push_bit (i * 8) (ucast b))
   }"

function start_new_run :: "carquet_rle_decoder \<Rightarrow> (bool \<times> carquet_rle_decoder) option" where
  "start_new_run dec =
     (if dec_pos dec \<ge> dec_size dec then Some (False, dec)
      else case read_varint (dec_data dec) (dec_size dec) (dec_pos dec) of
        None \<Rightarrow> None
      | Some None \<Rightarrow> Some (False, dec\<lparr>dec_status := CARQUET_ERROR_INVALID_RLE\<rparr>)
      | Some (Some (header, p)) \<Rightarrow>
          if header AND 1 = 0 then
            let dec1 = dec\<lparr>dec_pos := p, dec_in_rle_run := True,
                           dec_run_remaining := unat (drop_bit 1 header)\<rparr>;
                value_bytes = (dec_bit_width dec + 7) div 8
            in if dec_run_remaining dec1 = 0 then start_new_run dec1
               else if p + value_bytes > dec_size dec then
                 Some (False, dec1\<lparr>dec_status := CARQUET_ERROR_INVALID_RLE\<rparr>)
               else do {
                 (v, p') \<leftarrow> read_value_loop value_bytes 0 (dec_data dec) p 0;
                 Some (True, dec1\<lparr>dec_pos := p', dec_rle_value := v AND dec_value_mask dec\<rparr>)
               }
          else
            let num_groups = unat (drop_bit 1 header);
                dec1 = dec\<lparr>dec_pos := p, dec_in_rle_run := False, dec_run_remaining := num_groups * 8\<rparr>
            in if dec_run_remaining dec1 = 0 then start_new_run dec1
               else Some (True, dec1\<lparr>dec_bitpack_pos := 0, dec_bitpack_count := 0\<rparr>))"
  by pat_completeness auto
termination
  by (relation "measure (\<lambda>dec. dec_size dec - dec_pos dec)")
    (auto simp: read_varint_def dest!: decode_varint_loop_bounds)

declare start_new_run.simps [simp del]

definition fill_bitpack_buffer :: "carquet_rle_decoder \<Rightarrow> (bool \<times> carquet_rle_decoder) option" where
  "fill_bitpack_buffer dec =
     (if dec_run_remaining dec = 0 then Some (False, dec)
      else let bytes_needed = dec_bit_width dec in
        if dec_pos dec + bytes_needed > dec_size dec then
          Some (False, dec\<lparr>dec_status := CARQUET_ERROR_INVALID_RLE\<rparr>)
        else do {
          vs \<leftarrow> carquet_bitunpack8_32 scalar_dispatch (dec_data dec) (dec_pos dec) (dec_bit_width dec);
          Some (True, dec\<lparr>dec_bitpack_buffer := vs, dec_pos := dec_pos dec + bytes_needed,
                          dec_bitpack_pos := 0, dec_bitpack_count := 8\<rparr>)
        })"

definition carquet_rle_decoder_init :: "u8 list \<Rightarrow> nat \<Rightarrow> int \<Rightarrow> carquet_rle_decoder" where
  "carquet_rle_decoder_init d n bit_width =
     (let dec = \<lparr>dec_data = d, dec_size = n, dec_pos = 0, dec_bit_width = 0, dec_value_mask = 0,
                 dec_in_rle_run = False, dec_run_remaining = 0, dec_rle_value = 0,
                 dec_bitpack_buffer = replicate 8 0, dec_bitpack_pos = 0, dec_bitpack_count = 0,
                 dec_status = CARQUET_OK\<rparr>
      in if bit_width < 0 \<or> bit_width > 32 then dec\<lparr>dec_status := CARQUET_ERROR_INVALID_RLE\<rparr>
         else dec\<lparr>dec_bit_width := nat bit_width,
                  dec_value_mask := (if bit_width \<ge> 32 then - 1 else push_bit (nat bit_width) 1 - 1)\<rparr>)"

definition carquet_rle_decoder_has_next :: "carquet_rle_decoder \<Rightarrow> bool" where
  "carquet_rle_decoder_has_next dec =
     (if dec_status dec \<noteq> CARQUET_OK then False
      else if dec_run_remaining dec > 0 then True
      else dec_pos dec < dec_size dec)"

definition get_from_run :: "carquet_rle_decoder \<Rightarrow> (u32 \<times> carquet_rle_decoder) option" where
  "get_from_run dec =
     (if dec_in_rle_run dec then
        Some (dec_rle_value dec, dec\<lparr>dec_run_remaining := dec_run_remaining dec - 1\<rparr>)
      else do {
        (ok, dec1) \<leftarrow> (if dec_bitpack_pos dec \<ge> dec_bitpack_count dec then fill_bitpack_buffer dec
                      else Some (True, dec));
        if \<not> ok then Some (0, dec1)
        else do {
          v \<leftarrow> rd (dec_bitpack_buffer dec1) (dec_bitpack_pos dec1);
          Some (v, dec1\<lparr>dec_run_remaining := dec_run_remaining dec1 - 1,
                        dec_bitpack_pos := dec_bitpack_pos dec1 + 1\<rparr>)
        }
      })"

definition carquet_rle_decoder_get :: "carquet_rle_decoder \<Rightarrow> (u32 \<times> carquet_rle_decoder) option" where
  "carquet_rle_decoder_get dec =
     (if dec_status dec \<noteq> CARQUET_OK then Some (0, dec)
      else do {
        (ok, dec1) \<leftarrow> (if dec_run_remaining dec = 0 then start_new_run dec else Some (True, dec));
        if \<not> ok then Some (0, dec1) else get_from_run dec1
      })"

text \<open>Batches. The output is the list of the values stored so far; \<open>read\<close> is its length.\<close>

function copy_loop ::
  "nat \<Rightarrow> carquet_rle_decoder \<Rightarrow> u32 list \<Rightarrow> (carquet_rle_decoder \<times> u32 list) option" where
  "copy_loop count dec out =
     (if length out < count \<and> dec_bitpack_pos dec < dec_bitpack_count dec \<and> dec_run_remaining dec > 0
      then do {
        v \<leftarrow> rd (dec_bitpack_buffer dec) (dec_bitpack_pos dec);
        copy_loop count (dec\<lparr>dec_bitpack_pos := dec_bitpack_pos dec + 1,
                             dec_run_remaining := dec_run_remaining dec - 1\<rparr>) (out @ [v])
      } else Some (dec, out))"
  by pat_completeness auto
termination
  by (relation "measure (\<lambda>(count, dec, out). dec_run_remaining dec)") auto

declare copy_loop.simps [simp del]

lemma copy_loop_remaining: "copy_loop count dec out = Some (dec', out') \<Longrightarrow> dec_run_remaining dec' \<le> dec_run_remaining dec"
proof (induction count dec out rule: copy_loop.induct)
  case (1 count dec out)
  show ?case
  proof (cases "length out < count \<and> dec_bitpack_pos dec < dec_bitpack_count dec \<and> dec_run_remaining dec > 0")
    case True
    obtain v where "rd (dec_bitpack_buffer dec) (dec_bitpack_pos dec) = Some v"
      "copy_loop count (dec\<lparr>dec_bitpack_pos := dec_bitpack_pos dec + 1,
        dec_run_remaining := dec_run_remaining dec - 1\<rparr>) (out @ [v]) = Some (dec', out')"
      using "1.prems" True by (subst (asm) copy_loop.simps) (auto simp: run_simps)
    from "1.IH" [OF True this(1,2)] show ?thesis by simp
  next
    case False
    then show ?thesis using "1.prems" by (subst (asm) copy_loop.simps) auto
  qed
qed

lemma copy_loop_decreases:
  assumes "copy_loop count dec out = Some (dec', out')" and "length out < count"
    and "dec_bitpack_pos dec < dec_bitpack_count dec" and "dec_run_remaining dec > 0"
  shows "dec_run_remaining dec' < dec_run_remaining dec"
  using assms by (subst (asm) copy_loop.simps) (auto simp: run_simps dest!: copy_loop_remaining)

lemma fill_frame:
  "fill_bitpack_buffer dec = Some (ok, dec') \<Longrightarrow>
     dec_run_remaining dec' = dec_run_remaining dec \<and>
     (ok \<longrightarrow> dec_bitpack_pos dec' = 0 \<and> dec_bitpack_count dec' = 8 \<and> dec_status dec' = dec_status dec) \<and>
     (\<not> ok \<longrightarrow> dec_run_remaining dec = 0 \<or> dec_status dec' = CARQUET_ERROR_INVALID_RLE)"
  by (auto simp: fill_bitpack_buffer_def Let_def run_simps split: if_splits)

function batch_bitpack_loop ::
  "nat \<Rightarrow> carquet_rle_decoder \<Rightarrow> u32 list \<Rightarrow> (carquet_rle_decoder \<times> u32 list) option" where
  "batch_bitpack_loop count dec out =
     (if length out < count \<and> dec_run_remaining dec > 0 then
        (case (if dec_bitpack_pos dec \<ge> dec_bitpack_count dec then fill_bitpack_buffer dec
               else Some (True, dec)) of
           None \<Rightarrow> None
         | Some (ok, dec1) \<Rightarrow>
             if \<not> ok then Some (dec1, out)
             else (case copy_loop count dec1 out of
                     None \<Rightarrow> None
                   | Some (dec2, out2) \<Rightarrow> batch_bitpack_loop count dec2 out2))
      else Some (dec, out))"
  by pat_completeness auto
termination
  by (relation "measure (\<lambda>(count, dec, out). dec_run_remaining dec)")
    (auto split: if_splits dest!: fill_frame copy_loop_decreases)

declare batch_bitpack_loop.simps [simp del]

section \<open>The reference decoder\<close>

text \<open>
  The values a hybrid stream holds from a position on, up to its end or its first error: runs of
  a repeated value, and groups of eight values of which the unfinished ones are lost.
  \<open>rle_stream\<close> is at the header of a run, \<open>bp_stream g\<close> has \<open>g\<close> groups of a run to go.
\<close>

definition read_value :: "nat \<Rightarrow> u8 list \<Rightarrow> nat \<Rightarrow> u32" where
  "read_value bw d p = take_bit bw (le_word (take ((bw + 7) div 8) (drop p d)))"

function (sequential) rle_stream :: "nat \<Rightarrow> u8 list \<Rightarrow> nat \<Rightarrow> nat \<Rightarrow> u32 list"
  and bp_stream :: "nat \<Rightarrow> u8 list \<Rightarrow> nat \<Rightarrow> nat \<Rightarrow> nat \<Rightarrow> u32 list" where
  "rle_stream bw d n pos =
     (if pos \<ge> n then []
      else case read_varint d n pos of
        Some (Some (header, p)) \<Rightarrow>
          if header AND 1 = 0 then
            (if drop_bit 1 header = 0 then rle_stream bw d n p
             else if p + (bw + 7) div 8 > n then []
             else replicate (unat (drop_bit 1 header)) (read_value bw d p) @
                  rle_stream bw d n (p + (bw + 7) div 8))
          else bp_stream bw d n (unat (drop_bit 1 header)) p
      | _ \<Rightarrow> [])"
| "bp_stream bw d n 0 pos = rle_stream bw d n pos"
| "bp_stream bw d n (Suc g) pos =
     (if pos + bw > n then []
      else unpack_digits bw (le_nat (take bw (drop pos d))) 8 @ bp_stream bw d n g (pos + bw))"
  by pat_completeness auto
termination
  by (relation "measures [case_sum (\<lambda>(bw, d, n, pos). n - pos) (\<lambda>(bw, d, n, g, pos). n - pos),
        case_sum (\<lambda>_. 0) (\<lambda>(bw, d, n, g, pos). Suc g)]")
    (auto simp: read_varint_def dest!: decode_varint_loop_bounds)

declare rle_stream.simps [simp del]

text \<open>What a decoder in any state has left to deliver.\<close>

definition dec_stream :: "carquet_rle_decoder \<Rightarrow> u32 list" where
  "dec_stream dec =
     (if dec_status dec \<noteq> CARQUET_OK then []
      else let rest = rle_stream (dec_bit_width dec) (dec_data dec) (dec_size dec) (dec_pos dec) in
        if dec_run_remaining dec = 0 then rest
        else if dec_in_rle_run dec then replicate (dec_run_remaining dec) (dec_rle_value dec) @ rest
        else drop (dec_bitpack_pos dec) (take (dec_bitpack_count dec) (dec_bitpack_buffer dec)) @
          bp_stream (dec_bit_width dec) (dec_data dec) (dec_size dec)
            ((dec_run_remaining dec - (dec_bitpack_count dec - dec_bitpack_pos dec)) div 8) (dec_pos dec))"

text \<open>
  The decoder's invariant: the data is really there, the mask is the width's, and in a
  bit-packed run the values not yet delivered are the rest of the buffer and whole groups.
\<close>

definition dec_wf :: "carquet_rle_decoder \<Rightarrow> bool" where
  "dec_wf dec \<longleftrightarrow> dec_bit_width dec \<le> 32 \<and> dec_size dec \<le> length (dec_data dec) \<and>
     dec_value_mask dec = mask (dec_bit_width dec) \<and>
     length (dec_bitpack_buffer dec) = 8 \<and>
     (dec_run_remaining dec > 0 \<and> \<not> dec_in_rle_run dec \<longrightarrow>
        dec_bitpack_pos dec \<le> dec_bitpack_count dec \<and> dec_bitpack_count dec \<le> 8 \<and>
        (\<exists>g. dec_run_remaining dec = (dec_bitpack_count dec - dec_bitpack_pos dec) + 8 * g))"

lemma read_value_loop_eq:
  "pos + k \<le> length d \<Longrightarrow>
     read_value_loop k i d pos v = Some (v OR push_bit (8 * i) (le_word (take k (drop pos d))), pos + k)"
proof (induction k arbitrary: i pos v)
  case (Suc k)
  then have "take (Suc k) (drop pos d) = d ! pos # take k (drop (pos + 1) d)" by (simp add: drop_eq_Cons)
  then show ?case using Suc by (simp add: push_bit_or or.assoc mult.commute add.commute)
qed simp

lemma read_varint_wf: "n \<le> length d \<Longrightarrow> read_varint d n pos \<noteq> None"
  by (simp add: read_varint_def decode_varint_loop_safe)

lemma read_varint_bounds: "read_varint d n pos = Some (Some (h, p)) \<Longrightarrow> pos < p \<and> p \<le> n"
  by (auto simp: read_varint_def dest!: decode_varint_loop_bounds)

definition same_input :: "carquet_rle_decoder \<Rightarrow> carquet_rle_decoder \<Rightarrow> bool" where
  "same_input dec dec' \<longleftrightarrow> dec_bit_width dec' = dec_bit_width dec \<and> dec_data dec' = dec_data dec \<and>
     dec_size dec' = dec_size dec"

lemma same_input_refl [simp]: "same_input dec dec" by (simp add: same_input_def)

lemma same_input_trans: "same_input a b \<Longrightarrow> same_input b c \<Longrightarrow> same_input a c" by (simp add: same_input_def)

lemma unat_drop_bit_0 [simp]: "unat (drop_bit n (h :: u32)) = 0 \<longleftrightarrow> drop_bit n h = 0"
  by (simp add: unat_eq_zero)

lemma start_new_run_correct:
  assumes "dec_wf dec" and "dec_status dec = CARQUET_OK" and "dec_run_remaining dec = 0"
  shows "\<exists>ok dec'. start_new_run dec = Some (ok, dec') \<and> dec_wf dec' \<and> dec_stream dec' = dec_stream dec \<and>
    same_input dec dec' \<and>
    (if ok then dec_status dec' = CARQUET_OK \<and> dec_run_remaining dec' > 0
     else \<not> carquet_rle_decoder_has_next dec' \<and> dec_stream dec = [])"
  using assms
proof (induction dec rule: start_new_run.induct)
  case (1 dec)
  let ?d = "dec_data dec" and ?n = "dec_size dec" and ?pos = "dec_pos dec"
  have st: "dec_stream dec = rle_stream (dec_bit_width dec) ?d ?n ?pos"
    using "1.prems" by (simp add: dec_stream_def)
  have n: "?n \<le> length ?d" using "1.prems" by (simp add: dec_wf_def)
  show ?case
  proof (cases "?pos \<ge> ?n")
    case True
    then show ?thesis using "1.prems" st
      by (subst start_new_run.simps) (auto simp: rle_stream.simps carquet_rle_decoder_has_next_def)
  next
    case inb: False
    show ?thesis
    proof (cases "read_varint ?d ?n ?pos")
      case None
      then show ?thesis using read_varint_wf [OF n] by simp
    next
      case (Some r)
      show ?thesis
      proof (cases r)
        case None
        then show ?thesis using Some inb st "1.prems"
          by (subst start_new_run.simps)
            (auto simp: rle_stream.simps carquet_rle_decoder_has_next_def dec_stream_def dec_wf_def same_input_def)
      next
        case (Some hp)
        obtain h p where hp: "hp = (h, p)" by fastforce
        note rv = \<open>read_varint ?d ?n ?pos = Some r\<close> [unfolded Some hp]
        define d1 where "d1 = dec\<lparr>dec_pos := p, dec_in_rle_run := True, dec_run_remaining := unat (drop_bit 1 h)\<rparr>"
        define d2 where "d2 = dec\<lparr>dec_pos := p, dec_in_rle_run := False, dec_run_remaining := unat (drop_bit 1 h) * 8\<rparr>"
        define vb where "vb = (dec_bit_width dec + 7) div 8"
        have p: "?pos < p" "p \<le> ?n" using read_varint_bounds rv by blast+
        consider (empty1) "h AND 1 = 0" "drop_bit 1 h = 0" | (rle) "h AND 1 = 0" "drop_bit 1 h \<noteq> 0"
          | (empty2) "h AND 1 \<noteq> 0" "drop_bit 1 h = 0" | (bp) "h AND 1 \<noteq> 0" "drop_bit 1 h \<noteq> 0" by blast
        then show ?thesis
        proof cases
          case empty1
          have IH: "\<exists>ok dec'. start_new_run d1 = Some (ok, dec') \<and> dec_wf dec' \<and> dec_stream dec' = dec_stream d1 \<and>
              same_input d1 dec' \<and>
              (if ok then dec_status dec' = CARQUET_OK \<and> dec_run_remaining dec' > 0
               else \<not> carquet_rle_decoder_has_next dec' \<and> dec_stream d1 = [])"
            by (rule "1.IH"(1) [OF inb rv refl refl empty1(1) d1_def refl])
              (use empty1 "1.prems" in \<open>auto simp: d1_def dec_wf_def\<close>)
          have "start_new_run dec = start_new_run d1"
            using inb rv empty1 by (subst start_new_run.simps) (simp add: d1_def)
          moreover have "dec_stream d1 = dec_stream dec"
            using inb rv empty1 "1.prems" st
            by (simp add: rle_stream.simps [of _ _ _ ?pos] dec_stream_def d1_def)
          moreover have "same_input dec d1" by (simp add: d1_def same_input_def)
          ultimately show ?thesis using IH by (metis same_input_trans)
        next
          case rle
          show ?thesis
          proof (cases "p + vb > ?n")
            case True
            have "start_new_run dec = Some (False, d1\<lparr>dec_status := CARQUET_ERROR_INVALID_RLE\<rparr>)"
              using True inb rv rle by (subst start_new_run.simps) (simp add: vb_def d1_def Let_def)
            moreover have "dec_stream dec = []"
              using True inb rv rle st by (simp add: rle_stream.simps [of _ _ _ ?pos] vb_def)
            ultimately show ?thesis using "1.prems"
              by (auto simp: d1_def dec_stream_def dec_wf_def same_input_def carquet_rle_decoder_has_next_def)
          next
            case False
            let ?v = "read_value (dec_bit_width dec) ?d p"
            have "le_word (take vb (drop p ?d)) AND dec_value_mask dec = ?v"
              using "1.prems" by (simp add: read_value_def vb_def dec_wf_def take_bit_eq_mask)
            then have "start_new_run dec = Some (True, d1\<lparr>dec_pos := p + vb, dec_rle_value := ?v\<rparr>)"
              using False inb rv rle n read_value_loop_eq [of p vb ?d 0 0]
              by (subst start_new_run.simps) (simp add: vb_def d1_def Let_def)
            moreover have "dec_stream dec = replicate (unat (drop_bit 1 h)) ?v @
                rle_stream (dec_bit_width dec) ?d ?n (p + vb)"
              using False inb rv rle st by (simp add: rle_stream.simps [of _ _ _ ?pos] vb_def)
            ultimately show ?thesis using "1.prems" rle
              by (auto simp: d1_def dec_stream_def dec_wf_def same_input_def unat_gt_0)
          qed
        next
          case empty2
          have IH: "\<exists>ok dec'. start_new_run d2 = Some (ok, dec') \<and> dec_wf dec' \<and> dec_stream dec' = dec_stream d2 \<and>
              same_input d2 dec' \<and>
              (if ok then dec_status dec' = CARQUET_OK \<and> dec_run_remaining dec' > 0
               else \<not> carquet_rle_decoder_has_next dec' \<and> dec_stream d2 = [])"
            by (rule "1.IH"(2) [OF inb rv refl refl empty2(1) refl d2_def])
              (use empty2 "1.prems" in \<open>auto simp: d2_def dec_wf_def\<close>)
          have "start_new_run dec = start_new_run d2"
            using inb rv empty2 by (subst start_new_run.simps) (simp add: d2_def Let_def)
          moreover have "dec_stream d2 = dec_stream dec"
            using inb rv empty2 "1.prems" st
            by (simp add: rle_stream.simps [of _ _ _ ?pos] dec_stream_def d2_def)
          moreover have "same_input dec d2" by (simp add: d2_def same_input_def)
          ultimately show ?thesis using IH by (metis same_input_trans)
        next
          case bp
          let ?d2 = "d2\<lparr>dec_bitpack_pos := 0, dec_bitpack_count := 0\<rparr>"
          have "start_new_run dec = Some (True, ?d2)"
            using inb rv bp by (subst start_new_run.simps) (simp add: d2_def Let_def)
          moreover have "dec_stream dec = bp_stream (dec_bit_width dec) ?d ?n (unat (drop_bit 1 h)) p"
            using inb rv bp st by (simp add: rle_stream.simps [of _ _ _ ?pos])
          ultimately show ?thesis using "1.prems" bp
            by (auto simp: d2_def dec_stream_def dec_wf_def same_input_def unat_gt_0)
        qed
      qed
    qed
  qed
qed

text \<open>A step that delivers \<open>xs\<close> and leaves the rest.\<close>

definition delivers :: "carquet_rle_decoder \<Rightarrow> u32 list \<Rightarrow> carquet_rle_decoder \<Rightarrow> bool" where
  "delivers dec xs dec' \<longleftrightarrow> dec_wf dec' \<and> same_input dec dec' \<and> dec_stream dec = xs @ dec_stream dec'"

lemma delivers_nothing: "dec_wf dec \<Longrightarrow> delivers dec [] dec"
  by (simp add: delivers_def)

lemma delivers_trans: "delivers a xs b \<Longrightarrow> delivers b ys c \<Longrightarrow> delivers a (xs @ ys) c"
  by (auto simp: delivers_def intro: same_input_trans)

lemma delivers_wf: "delivers a xs b \<Longrightarrow> dec_wf b"
  by (simp add: delivers_def)

lemma fill_correct:
  assumes "dec_wf dec" and "dec_status dec = CARQUET_OK" and "dec_run_remaining dec > 0"
    and "\<not> dec_in_rle_run dec" and "dec_bitpack_pos dec \<ge> dec_bitpack_count dec"
  shows "\<exists>ok dec'. fill_bitpack_buffer dec = Some (ok, dec') \<and> delivers dec [] dec' \<and>
    (if ok then dec_status dec' = CARQUET_OK \<and> dec_run_remaining dec' = dec_run_remaining dec \<and>
       \<not> dec_in_rle_run dec' \<and> dec_bitpack_pos dec' = 0 \<and> dec_bitpack_count dec' = 8
     else dec_status dec' \<noteq> CARQUET_OK)"
proof -
  let ?bw = "dec_bit_width dec"
  obtain k where pc: "dec_bitpack_pos dec = dec_bitpack_count dec" "dec_bitpack_count dec \<le> 8"
    and k: "dec_run_remaining dec = 8 * k"
    using assms unfolding dec_wf_def by auto
  then obtain g where g: "dec_run_remaining dec = 8 * Suc g" using assms(3) by (cases k) auto
  have s: "dec_stream dec = bp_stream ?bw (dec_data dec) (dec_size dec) (Suc g) (dec_pos dec)"
    using assms pc g by (simp add: dec_stream_def)
  show ?thesis
  proof (cases "dec_pos dec + ?bw > dec_size dec")
    case True
    then show ?thesis using assms s
      by (auto simp: fill_bitpack_buffer_def delivers_def dec_wf_def same_input_def dec_stream_def)
  next
    case False
    let ?vs = "unpack_digits ?bw (le_nat (take ?bw (drop (dec_pos dec) (dec_data dec)))) 8"
    have "carquet_bitunpack8_32 scalar_dispatch (dec_data dec) (dec_pos dec) ?bw = Some ?vs"
      using False assms by (intro portable.bitunpack8_digits) (auto simp: dec_wf_def)
    then have "fill_bitpack_buffer dec = Some (True, dec\<lparr>dec_bitpack_buffer := ?vs,
        dec_pos := dec_pos dec + ?bw, dec_bitpack_pos := 0, dec_bitpack_count := 8\<rparr>)"
      using False assms by (simp add: fill_bitpack_buffer_def Let_def)
    then show ?thesis using False assms s g
      by (auto simp add: delivers_def dec_wf_def same_input_def dec_stream_def)
  qed
qed

lemma buffered_step:
  assumes "dec_wf dec" and "dec_status dec = CARQUET_OK" and "dec_run_remaining dec > 0"
    and "\<not> dec_in_rle_run dec" and "dec_bitpack_pos dec < dec_bitpack_count dec"
  shows "rd (dec_bitpack_buffer dec) (dec_bitpack_pos dec) = Some (dec_bitpack_buffer dec ! dec_bitpack_pos dec)"
    and "delivers dec [dec_bitpack_buffer dec ! dec_bitpack_pos dec]
      (dec\<lparr>dec_bitpack_pos := dec_bitpack_pos dec + 1, dec_run_remaining := dec_run_remaining dec - 1\<rparr>)"
proof -
  obtain g where b: "dec_bitpack_count dec \<le> 8" "length (dec_bitpack_buffer dec) = 8"
    and g: "dec_run_remaining dec = (dec_bitpack_count dec - dec_bitpack_pos dec) + 8 * g"
    using assms unfolding dec_wf_def by auto
  let ?p = "dec_bitpack_pos dec" and ?c = "dec_bitpack_count dec" and ?buf = "dec_bitpack_buffer dec"
  show "rd ?buf ?p = Some (?buf ! ?p)" using assms b by simp
  have d: "drop ?p (take ?c ?buf) = ?buf ! ?p # drop (?p + 1) (take ?c ?buf)"
    using assms b by (simp add: drop_eq_Cons)
  have wf: "dec_wf (dec\<lparr>dec_bitpack_pos := ?p + 1, dec_run_remaining := dec_run_remaining dec - 1\<rparr>)"
    using assms g unfolding dec_wf_def by auto
  show "delivers dec [?buf ! ?p]
      (dec\<lparr>dec_bitpack_pos := ?p + 1, dec_run_remaining := dec_run_remaining dec - 1\<rparr>)"
  proof (cases "dec_run_remaining dec = 1")
    case True
    then have "?c = ?p + 1" "g = 0" using g assms by auto
    then show ?thesis using wf assms d True by (simp add: delivers_def same_input_def dec_stream_def)
  next
    case False
    then have "(dec_run_remaining dec - 1 - (?c - (?p + 1))) div 8 = g" "(dec_run_remaining dec - (?c - ?p)) div 8 = g"
      using g assms by auto
    then show ?thesis using wf assms d False by (simp add: delivers_def same_input_def dec_stream_def)
  qed
qed

lemma copy_loop_correct:
  assumes "dec_wf dec" and "dec_status dec = CARQUET_OK" and "\<not> dec_in_rle_run dec" and "length out \<le> count"
  shows "\<exists>dec' xs. copy_loop count dec out = Some (dec', out @ xs) \<and> delivers dec xs dec' \<and>
    dec_status dec' = CARQUET_OK \<and> \<not> dec_in_rle_run dec' \<and> length (out @ xs) \<le> count"
  using assms
proof (induction count dec out rule: copy_loop.induct)
  case (1 count dec out)
  show ?case
  proof (cases "length out < count \<and> dec_bitpack_pos dec < dec_bitpack_count dec \<and> dec_run_remaining dec > 0")
    case True
    let ?v = "dec_bitpack_buffer dec ! dec_bitpack_pos dec"
    let ?dec = "dec\<lparr>dec_bitpack_pos := dec_bitpack_pos dec + 1, dec_run_remaining := dec_run_remaining dec - 1\<rparr>"
    have rd: "rd (dec_bitpack_buffer dec) (dec_bitpack_pos dec) = Some ?v"
      and dl: "delivers dec [?v] ?dec" using buffered_step [of dec] True "1.prems" by auto
    obtain dec' xs where "copy_loop count ?dec (out @ [?v]) = Some (dec', (out @ [?v]) @ xs)"
      and "delivers ?dec xs dec'" and rest: "dec_status dec' = CARQUET_OK" "\<not> dec_in_rle_run dec'"
        "length ((out @ [?v]) @ xs) \<le> count"
      using "1.IH" [OF True rd] "1.prems" True delivers_wf [OF dl] by fastforce
    moreover from this dl have "delivers dec (?v # xs) dec'" using delivers_trans by fastforce
    moreover have "copy_loop count dec out = copy_loop count ?dec (out @ [?v])"
      using True rd by (subst copy_loop.simps) simp
    ultimately show ?thesis by (intro exI [of _ dec'] exI [of _ "?v # xs"]) simp
  next
    case False
    then have "copy_loop count dec out = Some (dec, out @ [])" by (subst copy_loop.simps) auto
    then show ?thesis using "1.prems" delivers_nothing [of dec] by auto
  qed
qed

lemma copy_loop_grows:
  "copy_loop count dec out = Some (dec', out') \<Longrightarrow> length out \<le> length out' \<and>
    (length out < count \<and> dec_bitpack_pos dec < dec_bitpack_count dec \<and> dec_run_remaining dec > 0 \<longrightarrow>
      length out < length out')"
proof (induction count dec out rule: copy_loop.induct)
  case (1 count dec out)
  show ?case
  proof (cases "length out < count \<and> dec_bitpack_pos dec < dec_bitpack_count dec \<and> dec_run_remaining dec > 0")
    case True
    obtain v where "rd (dec_bitpack_buffer dec) (dec_bitpack_pos dec) = Some v"
      "copy_loop count (dec\<lparr>dec_bitpack_pos := dec_bitpack_pos dec + 1,
        dec_run_remaining := dec_run_remaining dec - 1\<rparr>) (out @ [v]) = Some (dec', out')"
      using "1.prems" True by (subst (asm) copy_loop.simps) (auto simp: run_simps)
    from "1.IH" [OF True this(1,2)] show ?thesis by simp
  next
    case False
    then show ?thesis using "1.prems" by (subst (asm) copy_loop.simps) auto
  qed
qed

section \<open>Delivering batches\<close>

lemma batch_bitpack_correct:
  assumes "dec_wf dec" and "dec_status dec = CARQUET_OK" and "\<not> dec_in_rle_run dec" and "length out \<le> count"
  shows "\<exists>dec' xs. batch_bitpack_loop count dec out = Some (dec', out @ xs) \<and> delivers dec xs dec' \<and>
    length (out @ xs) \<le> count \<and>
    (dec_status dec' = CARQUET_OK \<longrightarrow> length (out @ xs) = count \<or> dec_run_remaining dec' = 0)"
  using assms
proof (induction count dec out rule: batch_bitpack_loop.induct)
  case (1 count dec out)
  show ?case
  proof (cases "length out < count \<and> dec_run_remaining dec > 0")
    case False
    then have "batch_bitpack_loop count dec out = Some (dec, out @ [])"
      by (subst batch_bitpack_loop.simps) auto
    then show ?thesis using False "1.prems" delivers_nothing [of dec]
      by (intro exI [of _ dec] exI [of _ "[]"]) auto
  next
    case True
    let ?fill = "if dec_bitpack_pos dec \<ge> dec_bitpack_count dec then fill_bitpack_buffer dec
       else Some (True, dec)"
    obtain ok dec1 where f: "?fill = Some (ok, dec1)" and d1: "delivers dec [] dec1"
      and ok: "if ok then dec_status dec1 = CARQUET_OK \<and> \<not> dec_in_rle_run dec1 else dec_status dec1 \<noteq> CARQUET_OK"
      using fill_correct [of dec] "1.prems" True delivers_nothing [of dec]
      by (cases "dec_bitpack_pos dec \<ge> dec_bitpack_count dec") (auto split: if_splits)
    show ?thesis
    proof (cases ok)
      case False
      then have "batch_bitpack_loop count dec out = Some (dec1, out @ [])"
        using f True by (subst batch_bitpack_loop.simps) (simp del: if_split)
      then show ?thesis using d1 ok False "1.prems" by (intro exI [of _ dec1] exI [of _ "[]"]) auto
    next
      case okt: True
      obtain dec2 xs where c: "copy_loop count dec1 out = Some (dec2, out @ xs)" and d2: "delivers dec1 xs dec2"
        and p2: "dec_status dec2 = CARQUET_OK" "\<not> dec_in_rle_run dec2" "length (out @ xs) \<le> count"
        using copy_loop_correct [of dec1 out count] ok okt "1.prems" delivers_wf [OF d1] by auto
      obtain dec3 ys where b: "batch_bitpack_loop count dec2 (out @ xs) = Some (dec3, (out @ xs) @ ys)"
        and d3: "delivers dec2 ys dec3" "length ((out @ xs) @ ys) \<le> count"
          "dec_status dec3 = CARQUET_OK \<longrightarrow> length ((out @ xs) @ ys) = count \<or> dec_run_remaining dec3 = 0"
        using "1.IH" [OF True f [THEN sym, THEN sym] refl _ c refl] okt p2 delivers_wf [OF d2] by auto
      have "batch_bitpack_loop count dec out = Some (dec3, out @ (xs @ ys))"
        using f True okt c b by (subst batch_bitpack_loop.simps) (simp del: if_split)
      moreover have "delivers dec (xs @ ys) dec3"
        using delivers_trans [OF delivers_trans [OF d1 d2] d3(1)] by simp
      ultimately show ?thesis using d3 by (intro exI [of _ dec3] exI [of _ "xs @ ys"]) simp
    qed
  qed
qed

lemma batch_bitpack_grows:
  "batch_bitpack_loop count dec out = Some (dec', out') \<Longrightarrow> length out \<le> length out' \<and>
    (length out < count \<and> dec_run_remaining dec > 0 \<longrightarrow>
      length out < length out' \<or> dec_status dec' \<noteq> CARQUET_OK)"
proof (induction count dec out rule: batch_bitpack_loop.induct)
  case (1 count dec out)
  show ?case
  proof (cases "length out < count \<and> dec_run_remaining dec > 0")
    case False
    then show ?thesis using "1.prems" by (subst (asm) batch_bitpack_loop.simps) auto
  next
    case True
    let ?fill = "if dec_bitpack_pos dec \<ge> dec_bitpack_count dec then fill_bitpack_buffer dec
       else Some (True, dec)"
    obtain ok dec1 where f: "?fill = Some (ok, dec1)"
      using "1.prems" True by (subst (asm) batch_bitpack_loop.simps) (auto split: option.splits if_splits)
    show ?thesis
    proof (cases ok)
      case False
      then have "dec' = dec1" "out' = out"
        using "1.prems" f True by (subst (asm) batch_bitpack_loop.simps, simp del: if_split)+
      then show ?thesis using f False True by (auto split: if_splits dest!: fill_frame)
    next
      case okt: True
      then obtain dec2 out2 where c: "copy_loop count dec1 out = Some (dec2, out2)"
        and b: "batch_bitpack_loop count dec2 out2 = Some (dec', out')"
        using "1.prems" f True
        by (subst (asm) batch_bitpack_loop.simps) (auto simp del: if_split split: option.splits)
      have "dec_bitpack_pos dec1 < dec_bitpack_count dec1" "dec_run_remaining dec1 > 0"
        using f okt True by (auto split: if_splits dest!: fill_frame)
      then have "length out < length out2" using copy_loop_grows [OF c] True by auto
      then show ?thesis using "1.IH" [OF True f refl _ c refl b] okt by auto
    qed
  qed
qed

lemma start_new_run_remaining: "start_new_run dec = Some (True, dec') \<Longrightarrow> dec_run_remaining dec' > 0"
proof (induction dec rule: start_new_run.induct)
  case (1 dec)
  then show ?case
    by (subst (asm) start_new_run.simps)
      (auto simp: Let_def run_simps unat_gt_0 split: if_splits option.splits)
qed

text \<open>
  \<open>carquet_rle_decoder_get_batch\<close>: the outer loop. It ends since every round delivers a value
  or fails. A negative \<open>count\<close> reads nothing.
\<close>

function get_batch_loop ::
  "nat \<Rightarrow> carquet_rle_decoder \<Rightarrow> u32 list \<Rightarrow> (carquet_rle_decoder \<times> u32 list) option" where
  "get_batch_loop count dec out =
     (if length out < count \<and> carquet_rle_decoder_has_next dec then
        (case (if dec_run_remaining dec = 0 then start_new_run dec else Some (True, dec)) of
           None \<Rightarrow> None
         | Some (ok, dec1) \<Rightarrow>
             if \<not> ok then Some (dec1, out)
             else if dec_in_rle_run dec1 then
               let to_fill = min (count - length out) (dec_run_remaining dec1)
               in get_batch_loop count (dec1\<lparr>dec_run_remaining := dec_run_remaining dec1 - to_fill\<rparr>)
                    (out @ replicate to_fill (dec_rle_value dec1))
             else (case batch_bitpack_loop count dec1 out of
                     None \<Rightarrow> None
                   | Some (dec2, out2) \<Rightarrow> get_batch_loop count dec2 out2))
      else Some (dec, out))"
  by pat_completeness auto
termination
proof (relation "measure (\<lambda>(count, dec, out). (count - length out) + (if dec_status dec = CARQUET_OK then 1 else 0))",
    goal_cases)
  case (2 count dec out x2 ok dec1 to_fill)
  then have "dec_run_remaining dec1 > 0" by (auto split: if_splits dest: start_new_run_remaining)
  then show ?case using 2 by (auto simp: carquet_rle_decoder_has_next_def split: if_splits)
next
  case (3 count dec out x2 ok dec1 x2a dec2 out2)
  then have "dec_run_remaining dec1 > 0" by (auto split: if_splits dest: start_new_run_remaining)
  then show ?case using 3
    by (auto simp: carquet_rle_decoder_has_next_def split: if_splits dest!: batch_bitpack_grows)
qed auto

declare get_batch_loop.simps [simp del]

definition carquet_rle_decoder_get_batch ::
  "carquet_rle_decoder \<Rightarrow> int \<Rightarrow> (u32 list \<times> carquet_rle_decoder) option" where
  "carquet_rle_decoder_get_batch dec count = do {
     (dec', out) \<leftarrow> get_batch_loop (nat count) dec [];
     Some (out, dec')
   }"

text \<open>\<open>carquet_rle_decoder_skip\<close>: the state is the decoder and the number of values skipped.\<close>

function skip_bitpack_loop ::
  "nat \<Rightarrow> carquet_rle_decoder \<Rightarrow> nat \<Rightarrow> (carquet_rle_decoder \<times> nat) option" where
  "skip_bitpack_loop to_skip dec skipped =
     (if to_skip > 0 \<and> dec_run_remaining dec > 0 then
        (case (if dec_bitpack_pos dec \<ge> dec_bitpack_count dec then fill_bitpack_buffer dec
               else Some (True, dec)) of
           None \<Rightarrow> None
         | Some (ok, dec1) \<Rightarrow>
             if \<not> ok then Some (dec1, skipped)
             else let can_skip = min (min (dec_bitpack_count dec1 - dec_bitpack_pos dec1) to_skip)
                                     (dec_run_remaining dec1)
               in skip_bitpack_loop (to_skip - can_skip)
                    (dec1\<lparr>dec_bitpack_pos := dec_bitpack_pos dec1 + can_skip,
                          dec_run_remaining := dec_run_remaining dec1 - can_skip\<rparr>) (skipped + can_skip))
      else Some (dec, skipped))"
  by pat_completeness auto
termination
  by (relation "measure (\<lambda>(to_skip, dec, skipped). to_skip)") (auto split: if_splits dest!: fill_frame)

declare skip_bitpack_loop.simps [simp del]

lemma skip_bitpack_grows:
  "skip_bitpack_loop to_skip dec skipped = Some (dec', skipped') \<Longrightarrow> skipped \<le> skipped' \<and>
    (to_skip > 0 \<and> dec_run_remaining dec > 0 \<longrightarrow> skipped < skipped' \<or> dec_status dec' \<noteq> CARQUET_OK)"
proof (induction to_skip dec skipped rule: skip_bitpack_loop.induct)
  case (1 to_skip dec skipped)
  show ?case
  proof (cases "to_skip > 0 \<and> dec_run_remaining dec > 0")
    case False
    then show ?thesis using "1.prems" by (subst (asm) skip_bitpack_loop.simps) auto
  next
    case True
    let ?fill = "if dec_bitpack_pos dec \<ge> dec_bitpack_count dec then fill_bitpack_buffer dec
       else Some (True, dec)"
    obtain ok dec1 where f: "?fill = Some (ok, dec1)"
      using "1.prems" True by (subst (asm) skip_bitpack_loop.simps) (auto split: option.splits if_splits)
    show ?thesis
    proof (cases ok)
      case False
      then have "dec' = dec1" "skipped' = skipped"
        using "1.prems" f True by (subst (asm) skip_bitpack_loop.simps, simp del: if_split)+
      then show ?thesis using f False True by (auto split: if_splits dest!: fill_frame)
    next
      case okt: True
      let ?can = "min (min (dec_bitpack_count dec1 - dec_bitpack_pos dec1) to_skip) (dec_run_remaining dec1)"
      have "dec_bitpack_pos dec1 < dec_bitpack_count dec1" "dec_run_remaining dec1 > 0"
        using f okt True by (auto split: if_splits dest!: fill_frame)
      moreover have "skip_bitpack_loop (to_skip - ?can)
          (dec1\<lparr>dec_bitpack_pos := dec_bitpack_pos dec1 + ?can,
                dec_run_remaining := dec_run_remaining dec1 - ?can\<rparr>) (skipped + ?can) = Some (dec', skipped')"
        using "1.prems" f okt True by (subst (asm) skip_bitpack_loop.simps) (simp add: Let_def del: if_split)
      ultimately show ?thesis using "1.IH" [OF True f refl _ refl] okt True by fastforce
    qed
  qed
qed

function skip_loop :: "nat \<Rightarrow> carquet_rle_decoder \<Rightarrow> nat \<Rightarrow> (carquet_rle_decoder \<times> nat) option" where
  "skip_loop count dec skipped =
     (if skipped < count \<and> carquet_rle_decoder_has_next dec then
        (case (if dec_run_remaining dec = 0 then start_new_run dec else Some (True, dec)) of
           None \<Rightarrow> None
         | Some (ok, dec1) \<Rightarrow>
             if \<not> ok then Some (dec1, skipped)
             else let to_skip = min (count - skipped) (dec_run_remaining dec1) in
               if dec_in_rle_run dec1 then
                 skip_loop count (dec1\<lparr>dec_run_remaining := dec_run_remaining dec1 - to_skip\<rparr>) (skipped + to_skip)
               else (case skip_bitpack_loop to_skip dec1 skipped of
                       None \<Rightarrow> None
                     | Some (dec2, skipped2) \<Rightarrow> skip_loop count dec2 skipped2))
      else Some (dec, skipped))"
  by pat_completeness auto
termination
proof (relation "measure (\<lambda>(count, dec, skipped). (count - skipped) + (if dec_status dec = CARQUET_OK then 1 else 0))",
    goal_cases)
  case (2 count dec skipped x2 ok dec1 to_skip)
  then have "dec_run_remaining dec1 > 0" by (auto split: if_splits dest: start_new_run_remaining)
  then show ?case using 2 by (auto simp: carquet_rle_decoder_has_next_def split: if_splits)
next
  case (3 count dec skipped x2 ok dec1 to_skip x2a dec2 skipped2)
  then have "dec_run_remaining dec1 > 0" by (auto split: if_splits dest: start_new_run_remaining)
  then show ?case using 3
    by (auto simp: carquet_rle_decoder_has_next_def split: if_splits dest!: skip_bitpack_grows)
qed auto

declare skip_loop.simps [simp del]

definition carquet_rle_decoder_skip ::
  "carquet_rle_decoder \<Rightarrow> int \<Rightarrow> (nat \<times> carquet_rle_decoder) option" where
  "carquet_rle_decoder_skip dec count = do {
     (dec', skipped) \<leftarrow> skip_loop (nat count) dec 0;
     Some (skipped, dec')
   }"

section \<open>The operations deliver the stream\<close>

lemma repeated_step:
  "dec_wf dec \<Longrightarrow> dec_status dec = CARQUET_OK \<Longrightarrow> dec_in_rle_run dec \<Longrightarrow> k \<le> dec_run_remaining dec \<Longrightarrow>
     dec_run_remaining dec > 0 \<Longrightarrow>
     delivers dec (replicate k (dec_rle_value dec)) (dec\<lparr>dec_run_remaining := dec_run_remaining dec - k\<rparr>)"
  by (auto simp: delivers_def dec_wf_def same_input_def dec_stream_def Let_def
      simp flip: replicate_add append_assoc)

lemma no_next_no_stream: "\<not> carquet_rle_decoder_has_next dec \<Longrightarrow> dec_stream dec = []"
  by (auto simp: carquet_rle_decoder_has_next_def dec_stream_def rle_stream.simps split: if_splits)

text \<open>The common beginning of the operations: a run with values in it, or the end.\<close>

lemma next_run:
  assumes "dec_wf dec" and "dec_status dec = CARQUET_OK"
  shows "\<exists>ok dec1. (if dec_run_remaining dec = 0 then start_new_run dec else Some (True, dec)) = Some (ok, dec1) \<and>
    delivers dec [] dec1 \<and>
    (if ok then dec_status dec1 = CARQUET_OK \<and> dec_run_remaining dec1 > 0 else dec_stream dec = [])"
proof (cases "dec_run_remaining dec = 0")
  case True
  then obtain ok dec1 where r: "start_new_run dec = Some (ok, dec1)" "dec_wf dec1"
      "dec_stream dec1 = dec_stream dec" "same_input dec dec1"
      "if ok then dec_status dec1 = CARQUET_OK \<and> dec_run_remaining dec1 > 0
       else \<not> carquet_rle_decoder_has_next dec1 \<and> dec_stream dec = []"
    using start_new_run_correct [OF assms] by blast
  then have "delivers dec [] dec1" by (simp add: delivers_def)
  then show ?thesis using True r by (intro exI [of _ ok] exI [of _ dec1]) simp
next
  case False
  then show ?thesis using delivers_nothing [OF assms(1)] assms by auto
qed

lemma get_from_run_correct:
  assumes "dec_wf dec" and "dec_status dec = CARQUET_OK" and "dec_run_remaining dec > 0"
  shows "\<exists>v dec'. get_from_run dec = Some (v, dec') \<and>
    (delivers dec [v] dec' \<or> v = 0 \<and> delivers dec [] dec' \<and> dec_stream dec = [])"
proof (cases "dec_in_rle_run dec")
  case True
  then show ?thesis using repeated_step [OF assms(1,2) True, of 1] assms
    by (simp add: get_from_run_def)
next
  case False
  let ?fill = "if dec_bitpack_pos dec \<ge> dec_bitpack_count dec then fill_bitpack_buffer dec else Some (True, dec)"
  obtain ok dec1 where f: "?fill = Some (ok, dec1)" and d1: "delivers dec [] dec1"
    and ok: "if ok then dec_status dec1 = CARQUET_OK \<and> dec_run_remaining dec1 > 0 \<and> \<not> dec_in_rle_run dec1 \<and>
      dec_bitpack_pos dec1 < dec_bitpack_count dec1 else dec_status dec1 \<noteq> CARQUET_OK"
    using fill_correct [of dec] assms False delivers_nothing [of dec]
    by (cases "dec_bitpack_pos dec \<ge> dec_bitpack_count dec") (auto split: if_splits)
  show ?thesis
  proof (cases ok)
    case True
    let ?v = "dec_bitpack_buffer dec1 ! dec_bitpack_pos dec1"
    let ?dec2 = "dec1\<lparr>dec_bitpack_pos := dec_bitpack_pos dec1 + 1, dec_run_remaining := dec_run_remaining dec1 - 1\<rparr>"
    have b: "rd (dec_bitpack_buffer dec1) (dec_bitpack_pos dec1) = Some ?v" "delivers dec1 [?v] ?dec2"
      using True ok buffered_step [of dec1] delivers_wf [OF d1] by auto
    have "?dec2 = dec1\<lparr>dec_run_remaining := dec_run_remaining dec1 - 1, dec_bitpack_pos := dec_bitpack_pos dec1 + 1\<rparr>"
      by simp
    then have "get_from_run dec = Some (?v, ?dec2)"
      using f False True b(1) by (simp add: get_from_run_def del: if_split)
    then show ?thesis using delivers_trans [OF d1 b(2)] by auto
  next
    case no: False
    then have "dec_stream dec1 = []" using ok by (simp add: dec_stream_def)
    then show ?thesis using f False no d1 by (auto simp: get_from_run_def delivers_def simp del: if_split)
  qed
qed

lemma get_correct:
  assumes "dec_wf dec"
  shows "\<exists>v dec'. carquet_rle_decoder_get dec = Some (v, dec') \<and>
    (delivers dec [v] dec' \<or> v = 0 \<and> delivers dec [] dec' \<and> dec_stream dec = [])"
proof (cases "dec_status dec = CARQUET_OK")
  case False
  then show ?thesis using delivers_nothing [OF assms]
    by (simp add: carquet_rle_decoder_get_def dec_stream_def)
next
  case True
  obtain ok dec1 where n: "(if dec_run_remaining dec = 0 then start_new_run dec else Some (True, dec)) = Some (ok, dec1)"
    and d1: "delivers dec [] dec1"
    and ok: "if ok then dec_status dec1 = CARQUET_OK \<and> dec_run_remaining dec1 > 0 else dec_stream dec = []"
    using next_run [OF assms True] by blast
  show ?thesis
  proof (cases ok)
    case okt: True
    obtain v dec' where "get_from_run dec1 = Some (v, dec')"
      "delivers dec1 [v] dec' \<or> v = 0 \<and> delivers dec1 [] dec' \<and> dec_stream dec1 = []"
      using get_from_run_correct delivers_wf [OF d1] ok okt by (metis (full_types))
    moreover from this have "delivers dec [v] dec' \<or> v = 0 \<and> delivers dec [] dec' \<and> dec_stream dec = []"
      using delivers_trans [OF d1] d1 by (force simp: delivers_def)
    moreover have "carquet_rle_decoder_get dec = get_from_run dec1"
      using n True okt by (simp add: carquet_rle_decoder_get_def del: if_split)
    ultimately show ?thesis by auto
  next
    case False
    then show ?thesis using n True d1 ok by (simp add: carquet_rle_decoder_get_def del: if_split) 
  qed
qed

lemma get_batch_loop_correct:
  assumes "dec_wf dec" and "length out \<le> count"
  shows "\<exists>dec' xs. get_batch_loop count dec out = Some (dec', out @ xs) \<and> delivers dec xs dec' \<and>
    length (out @ xs) \<le> count \<and> (length (out @ xs) = count \<or> dec_stream dec' = [])"
  using assms
proof (induction count dec out rule: get_batch_loop.induct)
  case (1 count dec out)
  show ?case
  proof (cases "length out < count \<and> carquet_rle_decoder_has_next dec")
    case False
    then have "get_batch_loop count dec out = Some (dec, out @ [])"
      by (subst get_batch_loop.simps) auto
    then show ?thesis using False "1.prems" delivers_nothing [of dec] no_next_no_stream [of dec]
      by (intro exI [of _ dec] exI [of _ "[]"]) auto
  next
    case True
    then have st: "dec_status dec = CARQUET_OK" by (auto simp: carquet_rle_decoder_has_next_def split: if_splits)
    obtain ok dec1 where n: "(if dec_run_remaining dec = 0 then start_new_run dec else Some (True, dec)) = Some (ok, dec1)"
      and d1: "delivers dec [] dec1"
      and ok: "if ok then dec_status dec1 = CARQUET_OK \<and> dec_run_remaining dec1 > 0 else dec_stream dec = []"
      using next_run [OF "1.prems"(1) st] by blast
    consider (stop) "\<not> ok" | (rle) ok "dec_in_rle_run dec1" | (bp) ok "\<not> dec_in_rle_run dec1" by blast
    then show ?thesis
    proof cases
      case stop
      then have "get_batch_loop count dec out = Some (dec1, out @ [])"
        using n True by (subst get_batch_loop.simps) (simp del: if_split)
      then show ?thesis using d1 ok stop "1.prems"
        by (intro exI [of _ dec1] exI [of _ "[]"]) (auto simp: delivers_def)
    next
      case rle
      let ?k = "min (count - length out) (dec_run_remaining dec1)"
      let ?dec2 = "dec1\<lparr>dec_run_remaining := dec_run_remaining dec1 - ?k\<rparr>"
      let ?xs = "replicate ?k (dec_rle_value dec1)"
      have d2: "delivers dec1 ?xs ?dec2" using repeated_step [of dec1 ?k] rle ok delivers_wf [OF d1] by simp
      have "length (out @ ?xs) \<le> count" using True by auto
      then obtain dec3 ys where b: "get_batch_loop count ?dec2 (out @ ?xs) = Some (dec3, (out @ ?xs) @ ys)"
        and d3: "delivers ?dec2 ys dec3" "length ((out @ ?xs) @ ys) \<le> count"
          "length ((out @ ?xs) @ ys) = count \<or> dec_stream dec3 = []"
        using "1.IH"(1) [OF True n [symmetric, symmetric] refl _ rle(2) refl] rle delivers_wf [OF d2] by blast
      have "get_batch_loop count dec out = Some (dec3, out @ (?xs @ ys))"
        using n True rle b by (subst get_batch_loop.simps) (simp add: Let_def del: if_split)
      moreover have "delivers dec (?xs @ ys) dec3"
        using delivers_trans [OF delivers_trans [OF d1 d2] d3(1)] by simp
      ultimately show ?thesis using d3 by (intro exI [of _ dec3] exI [of _ "?xs @ ys"]) simp
    next
      case bp
      obtain dec2 xs where c: "batch_bitpack_loop count dec1 out = Some (dec2, out @ xs)"
        and d2: "delivers dec1 xs dec2" and p2: "length (out @ xs) \<le> count"
        using batch_bitpack_correct [of dec1 out count] bp ok "1.prems" delivers_wf [OF d1] by auto
      obtain dec3 ys where b: "get_batch_loop count dec2 (out @ xs) = Some (dec3, (out @ xs) @ ys)"
        and d3: "delivers dec2 ys dec3" "length ((out @ xs) @ ys) \<le> count"
          "length ((out @ xs) @ ys) = count \<or> dec_stream dec3 = []"
        using "1.IH"(2) [OF True n [symmetric, symmetric] refl _ bp(2) c refl] bp p2 delivers_wf [OF d2] by blast
      have "get_batch_loop count dec out = Some (dec3, out @ (xs @ ys))"
        using n True bp c b by (subst get_batch_loop.simps) (simp del: if_split)
      moreover have "delivers dec (xs @ ys) dec3"
        using delivers_trans [OF delivers_trans [OF d1 d2] d3(1)] by simp
      ultimately show ?thesis using d3 by (intro exI [of _ dec3] exI [of _ "xs @ ys"]) simp
    qed
  qed
qed

text \<open>A batch is the front of the stream, whatever the runs it comes from.\<close>

lemma get_batch_correct:
  assumes "dec_wf dec"
  shows "\<exists>dec'. carquet_rle_decoder_get_batch dec count = Some (take (nat count) (dec_stream dec), dec') \<and>
    delivers dec (take (nat count) (dec_stream dec)) dec' \<and>
    dec_stream dec' = drop (nat count) (dec_stream dec)"
proof -
  obtain dec' xs where l: "get_batch_loop (nat count) dec [] = Some (dec', xs)" "delivers dec xs dec'"
    "length xs \<le> nat count" "length xs = nat count \<or> dec_stream dec' = []"
    using get_batch_loop_correct [OF assms, of "[]" "nat count"] by auto
  then have "take (nat count) (dec_stream dec) = xs" "dec_stream dec' = drop (nat count) (dec_stream dec)"
    by (auto simp: delivers_def)
  then show ?thesis using l by (auto simp: carquet_rle_decoder_get_batch_def)
qed

lemma next_group:
  assumes "dec_wf dec" and "dec_status dec = CARQUET_OK" and "dec_run_remaining dec > 0"
    and "\<not> dec_in_rle_run dec"
  shows "\<exists>ok dec1. (if dec_bitpack_pos dec \<ge> dec_bitpack_count dec then fill_bitpack_buffer dec
      else Some (True, dec)) = Some (ok, dec1) \<and> delivers dec [] dec1 \<and>
    (if ok then dec_status dec1 = CARQUET_OK \<and> dec_run_remaining dec1 > 0 \<and> \<not> dec_in_rle_run dec1 \<and>
       dec_bitpack_pos dec1 < dec_bitpack_count dec1 else dec_status dec1 \<noteq> CARQUET_OK)"
proof (cases "dec_bitpack_pos dec \<ge> dec_bitpack_count dec")
  case True
  then obtain ok dec1 where "fill_bitpack_buffer dec = Some (ok, dec1)" "delivers dec [] dec1"
    "if ok then dec_status dec1 = CARQUET_OK \<and> dec_run_remaining dec1 = dec_run_remaining dec \<and>
       \<not> dec_in_rle_run dec1 \<and> dec_bitpack_pos dec1 = 0 \<and> dec_bitpack_count dec1 = 8
     else dec_status dec1 \<noteq> CARQUET_OK"
    using fill_correct [OF assms True] by blast
  then show ?thesis using True assms by (intro exI [of _ ok] exI [of _ dec1]) (simp split: if_splits)
next
  case False
  then show ?thesis using assms delivers_nothing [of dec] by (intro exI [of _ True] exI [of _ dec]) simp
qed

lemma buffered_room:
  "dec_wf dec \<Longrightarrow> dec_run_remaining dec > 0 \<Longrightarrow> \<not> dec_in_rle_run dec \<Longrightarrow>
     dec_bitpack_pos dec \<le> dec_bitpack_count dec \<and> dec_bitpack_count dec \<le> length (dec_bitpack_buffer dec)"
  by (simp add: dec_wf_def)

lemma buffered_skip:
  assumes "dec_wf dec" and "dec_status dec = CARQUET_OK" and "dec_run_remaining dec > 0"
    and "\<not> dec_in_rle_run dec" and "dec_bitpack_pos dec < dec_bitpack_count dec"
    and "k \<le> dec_bitpack_count dec - dec_bitpack_pos dec" and "k \<le> dec_run_remaining dec"
  shows "delivers dec (take k (drop (dec_bitpack_pos dec) (dec_bitpack_buffer dec)))
      (dec\<lparr>dec_bitpack_pos := dec_bitpack_pos dec + k, dec_run_remaining := dec_run_remaining dec - k\<rparr>)"
  using assms
proof (induction k arbitrary: dec)
  case 0
  then show ?case using delivers_nothing [of dec] by simp
next
  case (Suc k)
  let ?dec = "dec\<lparr>dec_bitpack_pos := dec_bitpack_pos dec + 1, dec_run_remaining := dec_run_remaining dec - 1\<rparr>"
  have s: "delivers dec [dec_bitpack_buffer dec ! dec_bitpack_pos dec] ?dec"
    using buffered_step [of dec] Suc.prems by simp
  have len: "dec_bitpack_pos dec < length (dec_bitpack_buffer dec)"
    using Suc.prems buffered_room [of dec] by linarith
  show ?case
  proof (cases k)
    case 0
    then show ?thesis using s len by (simp add: drop_eq_Cons)
  next
    case (Suc k')
    have "delivers ?dec (take k (drop (dec_bitpack_pos ?dec) (dec_bitpack_buffer ?dec)))
        (?dec\<lparr>dec_bitpack_pos := dec_bitpack_pos ?dec + k, dec_run_remaining := dec_run_remaining ?dec - k\<rparr>)"
      using Suc.prems Suc delivers_wf [OF s] by (intro Suc.IH) auto
    from delivers_trans [OF s this] show ?thesis using len by (simp add: drop_eq_Cons)
  qed
qed

lemma skip_bitpack_correct:
  assumes "dec_wf dec" and "dec_status dec = CARQUET_OK" and "\<not> dec_in_rle_run dec"
  shows "\<exists>dec' xs. skip_bitpack_loop to_skip dec skipped = Some (dec', skipped + length xs) \<and>
    delivers dec xs dec' \<and> length xs \<le> to_skip"
  using assms
proof (induction to_skip dec skipped rule: skip_bitpack_loop.induct)
  case (1 to_skip dec skipped)
  show ?case
  proof (cases "to_skip > 0 \<and> dec_run_remaining dec > 0")
    case False
    then have "skip_bitpack_loop to_skip dec skipped = Some (dec, skipped + length [])"
      by (subst skip_bitpack_loop.simps) auto
    then show ?thesis using "1.prems" delivers_nothing [of dec]
      by (intro exI [of _ dec] exI [of _ "[]"]) auto
  next
    case True
    let ?fill = "if dec_bitpack_pos dec \<ge> dec_bitpack_count dec then fill_bitpack_buffer dec
       else Some (True, dec)"
    obtain ok dec1 where f: "?fill = Some (ok, dec1)" and d1: "delivers dec [] dec1"
      and ok: "if ok then dec_status dec1 = CARQUET_OK \<and> dec_run_remaining dec1 > 0 \<and> \<not> dec_in_rle_run dec1 \<and>
        dec_bitpack_pos dec1 < dec_bitpack_count dec1 else dec_status dec1 \<noteq> CARQUET_OK"
      using next_group "1.prems" True by blast
    show ?thesis
    proof (cases ok)
      case False
      then have "skip_bitpack_loop to_skip dec skipped = Some (dec1, skipped + length [])"
        using f True by (subst skip_bitpack_loop.simps) (simp del: if_split)
      then show ?thesis using d1 by (intro exI [of _ dec1] exI [of _ "[]"]) auto
    next
      case okt: True
      obtain k where k: "k = min (min (dec_bitpack_count dec1 - dec_bitpack_pos dec1) to_skip) (dec_run_remaining dec1)"
        by blast
      then have kle: "k \<le> dec_bitpack_count dec1 - dec_bitpack_pos dec1" "k \<le> dec_run_remaining dec1" "k \<le> to_skip"
        by simp_all
      let ?xs = "take k (drop (dec_bitpack_pos dec1) (dec_bitpack_buffer dec1))"
      let ?dec2 = "dec1\<lparr>dec_bitpack_pos := dec_bitpack_pos dec1 + k,
        dec_run_remaining := dec_run_remaining dec1 - k\<rparr>"
      have d2: "delivers dec1 ?xs ?dec2" using buffered_skip [of dec1 k] ok okt kle delivers_wf [OF d1] by simp
      have len: "length ?xs = k" using ok okt kle buffered_room [of dec1] delivers_wf [OF d1] by simp
      obtain dec3 ys where b: "skip_bitpack_loop (to_skip - k) ?dec2 (skipped + k) = Some (dec3, skipped + k + length ys)"
        and d3: "delivers ?dec2 ys dec3" "length ys \<le> to_skip - k"
        using "1.IH" [OF True f [symmetric, symmetric] refl _ k] ok okt delivers_wf [OF d2] by fastforce
      have "skip_bitpack_loop to_skip dec skipped = skip_bitpack_loop (to_skip - k) ?dec2 (skipped + k)"
        using f True okt by (subst skip_bitpack_loop.simps) (simp add: Let_def k [symmetric] del: if_split)
      moreover have "delivers dec (?xs @ ys) dec3"
        using delivers_trans [OF delivers_trans [OF d1 d2] d3(1)] by simp
      moreover have "length (?xs @ ys) = k + length ys" by (simp only: length_append len)
      ultimately show ?thesis using b d3(2) kle(3)
        by (intro exI [of _ dec3] exI [of _ "?xs @ ys"]) (simp add: add.assoc del: length_append length_take)
    qed
  qed
qed

lemma skip_loop_correct:
  assumes "dec_wf dec" and "skipped \<le> count"
  shows "\<exists>dec' xs. skip_loop count dec skipped = Some (dec', skipped + length xs) \<and> delivers dec xs dec' \<and>
    skipped + length xs \<le> count \<and> (skipped + length xs = count \<or> dec_stream dec' = [])"
  using assms
proof (induction count dec skipped rule: skip_loop.induct)
  case (1 count dec skipped)
  show ?case
  proof (cases "skipped < count \<and> carquet_rle_decoder_has_next dec")
    case False
    then have "skip_loop count dec skipped = Some (dec, skipped + length [])"
      by (subst skip_loop.simps) auto
    then show ?thesis using False "1.prems" delivers_nothing [of dec] no_next_no_stream [of dec]
      by (intro exI [of _ dec] exI [of _ "[]"]) auto
  next
    case True
    then have st: "dec_status dec = CARQUET_OK" by (auto simp: carquet_rle_decoder_has_next_def split: if_splits)
    obtain ok dec1 where n: "(if dec_run_remaining dec = 0 then start_new_run dec else Some (True, dec)) = Some (ok, dec1)"
      and d1: "delivers dec [] dec1"
      and ok: "if ok then dec_status dec1 = CARQUET_OK \<and> dec_run_remaining dec1 > 0 else dec_stream dec = []"
      using next_run [OF "1.prems"(1) st] by blast
    let ?k = "min (count - skipped) (dec_run_remaining dec1)"
    consider (stop) "\<not> ok" | (rle) ok "dec_in_rle_run dec1" | (bp) ok "\<not> dec_in_rle_run dec1" by blast
    then show ?thesis
    proof cases
      case stop
      then have "skip_loop count dec skipped = Some (dec1, skipped + length [])"
        using n True by (subst skip_loop.simps) (simp del: if_split)
      then show ?thesis using d1 ok stop "1.prems"
        by (intro exI [of _ dec1] exI [of _ "[]"]) (auto simp: delivers_def)
    next
      case rle
      let ?dec2 = "dec1\<lparr>dec_run_remaining := dec_run_remaining dec1 - ?k\<rparr>"
      let ?xs = "replicate ?k (dec_rle_value dec1)"
      have d2: "delivers dec1 ?xs ?dec2" using repeated_step [of dec1 ?k] rle ok delivers_wf [OF d1] by simp
      have "skipped + ?k \<le> count" using True by auto
      then obtain dec3 ys where b: "skip_loop count ?dec2 (skipped + ?k) = Some (dec3, skipped + ?k + length ys)"
        and d3: "delivers ?dec2 ys dec3" "skipped + ?k + length ys \<le> count"
          "skipped + ?k + length ys = count \<or> dec_stream dec3 = []"
        using "1.IH"(1) [OF True n [symmetric, symmetric] refl _ refl rle(2)] rle delivers_wf [OF d2] by blast
      have "skip_loop count dec skipped = Some (dec3, skipped + length (?xs @ ys))"
        using n True rle b by (subst skip_loop.simps) (simp add: Let_def add.assoc del: if_split)
      moreover have "delivers dec (?xs @ ys) dec3"
        using delivers_trans [OF delivers_trans [OF d1 d2] d3(1)] by simp
      moreover have "length (?xs @ ys) = ?k + length ys" by simp
      ultimately show ?thesis using d3 by (intro exI [of _ dec3] exI [of _ "?xs @ ys"]) (simp add: add.assoc del: length_append)
    next
      case bp
      obtain dec2 xs where c: "skip_bitpack_loop ?k dec1 skipped = Some (dec2, skipped + length xs)"
        and d2: "delivers dec1 xs dec2" and p2: "length xs \<le> ?k"
        using skip_bitpack_correct [of dec1 ?k skipped] bp ok "1.prems" delivers_wf [OF d1] by auto
      have "skipped + length xs \<le> count" using p2 True by auto
      then obtain dec3 ys where b: "skip_loop count dec2 (skipped + length xs) = Some (dec3, skipped + length xs + length ys)"
        and d3: "delivers dec2 ys dec3" "skipped + length xs + length ys \<le> count"
          "skipped + length xs + length ys = count \<or> dec_stream dec3 = []"
        using "1.IH"(2) [OF True n [symmetric, symmetric] refl _ refl bp(2) c refl] bp delivers_wf [OF d2] by blast
      have "skip_loop count dec skipped = Some (dec3, skipped + length (xs @ ys))"
        using n True bp c b by (subst skip_loop.simps) (simp add: Let_def add.assoc del: if_split)
      moreover have "delivers dec (xs @ ys) dec3"
        using delivers_trans [OF delivers_trans [OF d1 d2] d3(1)] by simp
      ultimately show ?thesis using d3 by (intro exI [of _ dec3] exI [of _ "xs @ ys"]) (simp add: add.assoc)
    qed
  qed
qed

text \<open>Skipping is reading without keeping.\<close>

lemma skip_correct:
  assumes "dec_wf dec"
  shows "\<exists>dec'. carquet_rle_decoder_skip dec count = Some (min (nat count) (length (dec_stream dec)), dec') \<and>
    delivers dec (take (nat count) (dec_stream dec)) dec' \<and>
    dec_stream dec' = drop (nat count) (dec_stream dec)"
proof -
  obtain dec' xs where l: "skip_loop (nat count) dec 0 = Some (dec', length xs)" "delivers dec xs dec'"
    "length xs \<le> nat count" "length xs = nat count \<or> dec_stream dec' = []"
    using skip_loop_correct [OF assms, of 0 "nat count"] by auto
  then have "take (nat count) (dec_stream dec) = xs" "dec_stream dec' = drop (nat count) (dec_stream dec)"
    "length xs = min (nat count) (length (dec_stream dec))"
    by (auto simp: delivers_def)
  then show ?thesis using l by (auto simp: carquet_rle_decoder_skip_def)
qed

lemma decoder_init_wf:
  "n \<le> length d \<Longrightarrow> dec_wf (carquet_rle_decoder_init d n bw)"
  by (auto simp: dec_wf_def carquet_rle_decoder_init_def Let_def mask_eq_exp_minus_1 nat_le_iff
      push_bit_eq_mult)

lemma decoder_init_stream:
  "0 \<le> bw \<Longrightarrow> bw \<le> 32 \<Longrightarrow>
     dec_stream (carquet_rle_decoder_init d n bw) = rle_stream (nat bw) d n 0"
  by (simp add: dec_stream_def carquet_rle_decoder_init_def Let_def)

lemma decoder_init_bad_width:
  "bw < 0 \<or> bw > 32 \<Longrightarrow> dec_stream (carquet_rle_decoder_init d n bw) = []"
  by (auto simp: dec_stream_def carquet_rle_decoder_init_def Let_def)

section \<open>Properties\<close>

text \<open>C1: Reading a batch from a decoder over any bytes never reads outside them and returns the first
  \<open>count\<close> values of the stream, fewer only when the stream ends; what follows is the rest.\<close>

theorem get_batch_spec:
  assumes "n \<le> length d" and "0 \<le> bw" and "bw \<le> 32"
  shows "\<exists>dec'. carquet_rle_decoder_get_batch (carquet_rle_decoder_init d n bw) count =
      Some (take (nat count) (rle_stream (nat bw) d n 0), dec') \<and>
    dec_wf dec' \<and> dec_stream dec' = drop (nat count) (rle_stream (nat bw) d n 0)"
  using get_batch_correct [OF decoder_init_wf [OF assms(1), of bw], of count] decoder_init_stream [OF assms(2,3)]
  by (auto simp: delivers_def)

lemma get_batch_spec_witness:
  "\<exists>dec'. carquet_rle_decoder_get_batch (carquet_rle_decoder_init [6, 5] 2 3) 2 =
     Some (take 2 (rle_stream 3 [6, 5] 2 0), dec')"
  using get_batch_spec [of 2 "[6, 5]" 3 2] by auto

text \<open>Reading value by value, reading in batches and skipping see the same stream: a single read
  is its head, and skipping k values and reading m is reading k + m and dropping k.\<close>

theorem get_batch_skip_agree:
  assumes "dec_wf dec" and "dec_stream dec = v # vs"
  shows "(\<exists>dec'. carquet_rle_decoder_get dec = Some (v, dec') \<and> dec_wf dec' \<and> dec_stream dec' = vs) \<and>
    (\<exists>dec1 dec2. carquet_rle_decoder_skip dec (int k) = Some (min k (length (v # vs)), dec1) \<and>
      carquet_rle_decoder_get_batch dec1 (int m) = Some (drop k (take (k + m) (v # vs)), dec2) \<and>
      dec_wf dec2 \<and> dec_stream dec2 = drop (k + m) (v # vs))"
proof (intro conjI)
  show "\<exists>dec'. carquet_rle_decoder_get dec = Some (v, dec') \<and> dec_wf dec' \<and> dec_stream dec' = vs"
    using get_correct [OF assms(1)] assms(2) by (auto simp: delivers_def)
next
  obtain dec1 where s: "carquet_rle_decoder_skip dec (int k) = Some (min k (length (v # vs)), dec1)"
    "dec_wf dec1" "dec_stream dec1 = drop k (v # vs)"
    using skip_correct [OF assms(1), of "int k"] assms(2) by (auto simp: delivers_def)
  obtain dec2 where b: "carquet_rle_decoder_get_batch dec1 (int m) = Some (take m (drop k (v # vs)), dec2)"
    "dec_wf dec2" "dec_stream dec2 = drop m (drop k (v # vs))"
    using get_batch_correct [OF s(2), of "int m"] s(3) by (auto simp: delivers_def)
  show "\<exists>dec1 dec2. carquet_rle_decoder_skip dec (int k) = Some (min k (length (v # vs)), dec1) \<and>
      carquet_rle_decoder_get_batch dec1 (int m) = Some (drop k (take (k + m) (v # vs)), dec2) \<and>
      dec_wf dec2 \<and> dec_stream dec2 = drop (k + m) (v # vs)"
    using s b by (intro exI [of _ dec1] exI [of _ dec2]) (simp add: take_drop add.commute)
qed

lemma stream_example: "rle_stream 3 [6, 5] 2 0 = [5, 5, 5]"
  by code_simp

lemma get_batch_skip_agree_witness:
  "\<exists>dec'. carquet_rle_decoder_get (carquet_rle_decoder_init [6, 5] 2 3) = Some (5, dec') \<and> dec_stream dec' = [5, 5]"
  using get_batch_skip_agree [OF decoder_init_wf [of 2 "[6, 5]" 3], of 5 "[5, 5]" 1 1] stream_example
  by (auto simp: decoder_init_stream)

lemma failed_decoder:
  assumes "dec_status dec \<noteq> CARQUET_OK"
  shows "\<not> carquet_rle_decoder_has_next dec" and "carquet_rle_decoder_get dec = Some (0, dec)"
    and "carquet_rle_decoder_get_batch dec count = Some ([], dec)"
    and "carquet_rle_decoder_skip dec count = Some (0, dec)"
proof -
  show n: "\<not> carquet_rle_decoder_has_next dec" using assms by (simp add: carquet_rle_decoder_has_next_def)
  show "carquet_rle_decoder_get dec = Some (0, dec)" using assms by (simp add: carquet_rle_decoder_get_def)
  show "carquet_rle_decoder_get_batch dec count = Some ([], dec)"
    using n by (simp add: carquet_rle_decoder_get_batch_def get_batch_loop.simps)
  show "carquet_rle_decoder_skip dec count = Some (0, dec)"
    using n by (simp add: carquet_rle_decoder_skip_def skip_loop.simps)
qed

text \<open>C29: Every operation of the decoder, in every well-formed state, reads inside the data and the
  group buffer and keeps the state well-formed; after a failed run the decoder reports no more
  values, and each operation returns what a finished stream returns (0, no values, nothing skipped)
  and leaves the decoder as it is.\<close>

theorem decoder_invariant:
  assumes "dec_wf dec"
  shows "(\<exists>v dec'. carquet_rle_decoder_get dec = Some (v, dec') \<and> dec_wf dec') \<and>
    (\<exists>vs dec'. carquet_rle_decoder_get_batch dec count = Some (vs, dec') \<and> dec_wf dec' \<and> length vs \<le> nat count) \<and>
    (\<exists>k dec'. carquet_rle_decoder_skip dec count = Some (k, dec') \<and> dec_wf dec' \<and> k \<le> nat count) \<and>
    (dec_status dec \<noteq> CARQUET_OK \<longrightarrow> \<not> carquet_rle_decoder_has_next dec \<and>
      carquet_rle_decoder_get dec = Some (0, dec) \<and> carquet_rle_decoder_get_batch dec count = Some ([], dec) \<and>
      carquet_rle_decoder_skip dec count = Some (0, dec))"
  using get_correct [OF assms] get_batch_correct [OF assms, of count] skip_correct [OF assms, of count]
    failed_decoder [of dec]
  by (auto simp: delivers_def)

lemma decoder_invariant_witness:
  "\<exists>v dec'. carquet_rle_decoder_get (carquet_rle_decoder_init [3] 1 8) = Some (v, dec') \<and> dec_wf dec'"
  using decoder_invariant [OF decoder_init_wf [of 1 "[3]" 8], of 0] by simp

end
