(* ===== verification/Rle_Levels.thy ===== *)
theory Rle_Levels
  imports Rle_Decoder
begin

text \<open>
  Component src/encoding/rle.c, convenience decoders: \<open>carquet_rle_decode_all\<close>, the inlined
  decoders of definition and repetition levels and of validity bitmaps, and how far they agree
  with the streaming decoder of \<open>Rle_Decoder\<close>.

  The output array is the list of the values stored, the returned count is its length.
\<close>

section \<open>The inlined loops\<close>

definition carquet_rle_decode_all :: "u8 list \<Rightarrow> nat \<Rightarrow> int \<Rightarrow> int \<Rightarrow> u32 list option" where
  "carquet_rle_decode_all input input_size bit_width max_values = do {
     (out, dec) \<leftarrow> carquet_rle_decoder_get_batch (carquet_rle_decoder_init input input_size bit_width) max_values;
     Some out
   }"

text \<open>
  The header loop runs while \<open>shift < 32\<close>, five rounds. Unlike \<open>read_varint\<close> it leaves
  with what it has when the bytes or the rounds run out.
\<close>

fun header_loop :: "nat \<Rightarrow> u8 list \<Rightarrow> nat \<Rightarrow> nat \<Rightarrow> nat \<Rightarrow> u32 \<Rightarrow> (u32 \<times> nat) option" where
  "header_loop 0 d n pos shift header = Some (header, pos)"
| "header_loop (Suc k) d n pos shift header =
     (if pos < n then do {
        byte \<leftarrow> rd d pos;
        let header' = header OR push_bit shift (ucast (byte AND 0x7F));
        if byte AND 0x80 = 0 then Some (header', pos + 1)
        else header_loop k d n (pos + 1) (shift + 7) header'
      } else Some (header, pos))"

definition scalar_fill_def_levels :: "16 word list \<Rightarrow> nat \<Rightarrow> 16 word \<Rightarrow> 16 word list" where
  "scalar_fill_def_levels levels count value = levels @ replicate count value"

text \<open>The bulk path: chunks of 256 values, unpacked by \<open>carquet_bitunpack_32\<close>.\<close>

function bulk_loop :: "nat \<Rightarrow> nat \<Rightarrow> u8 list \<Rightarrow> nat \<Rightarrow> nat \<Rightarrow> 16 word list \<Rightarrow> (nat \<times> 16 word list) option" where
  "bulk_loop run_length decoded d pos bw out =
     (if decoded < run_length then
        let chunk = (if run_length - decoded > 256 then 256 else run_length - decoded) in
        case carquet_bitunpack_32 scalar_dispatch d pos chunk bw of
          None \<Rightarrow> None
        | Some (tmp, used) \<Rightarrow> bulk_loop run_length (decoded + chunk) d (pos + used) bw (out @ map ucast tmp)
      else Some (pos, out))"
  by pat_completeness auto
termination
  by (relation "measure (\<lambda>(run_length, decoded, _). run_length - decoded)") (auto split: if_splits)

declare bulk_loop.simps [simp del]

text \<open>The loop over the groups, which ends early when the output is full or the input too short.\<close>

fun groups_loop :: "nat \<Rightarrow> u8 list \<Rightarrow> nat \<Rightarrow> nat \<Rightarrow> nat \<Rightarrow> nat \<Rightarrow> 16 word list \<Rightarrow> (nat \<times> 16 word list) option" where
  "groups_loop 0 d n pos bw max_values out = Some (pos, out)"
| "groups_loop (Suc g) d n pos bw max_values out =
     (if length out < max_values then
        if pos + bw > n then Some (pos, out)
        else do {
          temp \<leftarrow> carquet_bitunpack8_32 scalar_dispatch d pos bw;
          let to_store = (if length out + 8 > max_values then max_values - length out else 8);
          groups_loop g d n (pos + bw) bw max_values (out @ map ucast (take to_store temp))
        }
      else Some (pos, out))"

lemma read_value_loop_pos: "read_value_loop k i d pos v = Some (v', p') \<Longrightarrow> p' = pos + k"
  by (induction k arbitrary: i pos v) (fastforce simp: run_simps)+

lemma header_loop_bounds:
  "header_loop k d n pos shift header = Some (h, p) \<Longrightarrow> pos \<le> p \<and> (k > 0 \<and> pos < n \<longrightarrow> pos < p) \<and> (pos \<le> n \<longrightarrow> p \<le> n)"
proof (induction k arbitrary: pos shift header)
  case (Suc k)
  then show ?case by (force simp: run_simps Let_def split: if_splits)
qed simp

lemma bulk_loop_pos: "bulk_loop run_length k d pos bw out = Some (p, out') \<Longrightarrow> pos \<le> p"
proof (induction run_length k d pos bw out rule: bulk_loop.induct)
  case (1 run_length k d pos bw out)
  show ?case
  proof (cases "k < run_length")
    case True
    let ?chunk = "if run_length - k > 256 then 256 else run_length - k"
    obtain tmp used where u: "carquet_bitunpack_32 scalar_dispatch d pos ?chunk bw = Some (tmp, used)"
      and b: "bulk_loop run_length (k + ?chunk) d (pos + used) bw (out @ map ucast tmp) = Some (p, out')"
      using "1.prems" True
      by (subst (asm) bulk_loop.simps) (auto simp: Let_def simp del: if_split split: option.splits)
    show ?thesis using "1.IH" [OF True refl u refl b] by simp
  qed (use "1.prems" in \<open>subst (asm) bulk_loop.simps, simp\<close>)
qed

lemma groups_loop_pos: "groups_loop g d n pos bw max_values out = Some (p, out') \<Longrightarrow> pos \<le> p"
  by (induction g arbitrary: pos out) (fastforce simp: run_simps Let_def split: if_splits)+

function levels_loop :: "nat \<Rightarrow> u8 list \<Rightarrow> nat \<Rightarrow> nat \<Rightarrow> nat \<Rightarrow> 16 word list \<Rightarrow> 16 word list option" where
  "levels_loop bit_width d n max_values pos out =
     (if length out < max_values \<and> pos < n then
        (case header_loop 5 d n pos 0 0 of
           None \<Rightarrow> None
         | Some (header, p) \<Rightarrow>
             if header AND 1 = 0 then
               let run_length = unat (drop_bit 1 header);
                   value_bytes = (bit_width + 7) div 8
               in if run_length = 0 then levels_loop bit_width d n max_values p out
                  else if p + value_bytes > n then Some out
                  else (case read_value_loop value_bytes 0 d p 0 of
                          None \<Rightarrow> None
                        | Some (v, p') \<Rightarrow>
                            let value_mask = (if bit_width \<ge> 32 then - 1 else push_bit bit_width 1 - 1);
                                val16 = ucast (v AND value_mask);
                                to_fill = (if length out + run_length > max_values
                                           then max_values - length out else run_length)
                            in levels_loop bit_width d n max_values p' (scalar_fill_def_levels out to_fill val16))
             else
               let num_groups = unat (drop_bit 1 header);
                   run_length = num_groups * 8
               in if run_length = 0 then levels_loop bit_width d n max_values p out
                  else (case (if bit_width \<ge> 1 \<and> num_groups \<le> (n - p) div bit_width \<and>
                                 length out + run_length \<le> max_values
                              then bulk_loop run_length 0 d p bit_width out
                              else groups_loop num_groups d n p bit_width max_values out) of
                          None \<Rightarrow> None
                        | Some (p', out') \<Rightarrow> levels_loop bit_width d n max_values p' out'))
      else Some out)"
  by pat_completeness auto
termination
proof (relation "measure (\<lambda>(bit_width, d, n, max_values, pos, out). n - pos)", goal_cases)
  case (3 bw d n m pos out x h p rl vb x' v p')
  then show ?case by (auto dest!: header_loop_bounds read_value_loop_pos)
next
  case (5 bw d n m pos out x h p ng rl x' p' out')
  then show ?case by (fastforce dest!: header_loop_bounds bulk_loop_pos groups_loop_pos split: if_splits)
qed (auto dest!: header_loop_bounds)

declare levels_loop.simps [simp del]

definition carquet_rle_decode_levels :: "u8 list \<Rightarrow> nat \<Rightarrow> int \<Rightarrow> int \<Rightarrow> 16 word list option" where
  "carquet_rle_decode_levels input input_size bit_width max_values =
     (if max_values \<le> 0 \<or> input_size = 0 \<or> bit_width < 0 \<or> bit_width > 32 then Some []
      else levels_loop (nat bit_width) input input_size (nat max_values) 0 [])"

section \<open>The inlined loops decode the same runs\<close>

lemma groups_loop_full:
  assumes "n \<le> length d" and "bw \<le> 32"
  shows "pos + g * bw \<le> n \<Longrightarrow> length out + 8 * g \<le> m \<Longrightarrow>
    groups_loop g d n pos bw m out =
      Some (pos + g * bw, out @ map ucast (unpack_digits bw (le_nat (drop pos d)) (8 * g)))"
proof (induction g arbitrary: pos out)
  case (Suc g)
  have one: "carquet_bitunpack8_32 scalar_dispatch d pos bw = Some (unpack_digits bw (le_nat (drop pos d)) 8)"
    using portable.bitunpack8_digits [of bw pos d] Suc.prems assms by (simp add: unpack_digits_take)
  have "unpack_digits bw (le_nat (drop (pos + bw) d)) (8 * g) = map (digit bw (le_nat (drop pos d))) [8..<8 + 8 * g]"
    by (rule nth_equalityI) (simp_all add: digit_drop [of bw pos 1, simplified])
  then show ?case using Suc one by (simp add: unpack_digits_add add.assoc Let_def)
qed (simp add: unpack_digits_def)

lemma bulk_loop_full:
  assumes "8 * k + 8 * g = r" and "bw \<le> 32" and "pos + g * bw \<le> length d"
  shows "bulk_loop r (8 * k) d pos bw out =
    Some (pos + g * bw, out @ map ucast (unpack_digits bw (le_nat (drop pos d)) (8 * g)))"
  using assms
proof (induction g arbitrary: k pos out rule: less_induct)
  case (less g)
  show ?case
  proof (cases "g = 0")
    case True
    then show ?thesis using less.prems by (subst bulk_loop.simps) (simp add: unpack_digits_def)
  next
    case False
    define c where "c = (if g > 32 then 32 else g)"
    have c: "0 < c" "c \<le> g" "c \<le> 32" using False by (auto simp: c_def)
    have chunk: "(if r - 8 * k > 256 then 256 else r - 8 * k) = 8 * c" using less.prems by (auto simp: c_def)
    have bits: "8 * c * bw + 7 < 2 ^ 64" "(8 * c * bw + 7) div 8 = c * bw"
    proof -
      have "c * bw \<le> 32 * 32" using c less.prems by (intro mult_le_mono) auto
      then show "8 * c * bw + 7 < 2 ^ 64" by simp
    qed auto
    have u: "carquet_bitunpack_32 scalar_dispatch d pos (8 * c) bw =
        Some (unpack_digits bw (le_nat (drop pos d)) (8 * c), c * bw)"
    proof -
      have "c * bw \<le> g * bw" using c by simp
      then have "pos + c * bw \<le> length d" using less.prems by linarith
      then show ?thesis using portable.bitunpack_digits [of bw "8 * c" pos d] less.prems bits by simp
    qed
    have split: "g * bw = c * bw + (g - c) * bw" using c by (simp flip: add_mult_distrib)
    have IH: "bulk_loop r (8 * (k + c)) d (pos + c * bw) bw (out @ map ucast (unpack_digits bw (le_nat (drop pos d)) (8 * c))) =
        Some (pos + c * bw + (g - c) * bw, (out @ map ucast (unpack_digits bw (le_nat (drop pos d)) (8 * c))) @
          map ucast (unpack_digits bw (le_nat (drop (pos + c * bw) d)) (8 * (g - c))))"
      using less.prems c split by (intro less.IH) auto
    have "unpack_digits bw (le_nat (drop (pos + c * bw) d)) (8 * (g - c)) =
        map (digit bw (le_nat (drop pos d))) [8 * c..<8 * c + 8 * (g - c)]"
      by (rule nth_equalityI) (simp_all add: digit_drop [of bw pos c, simplified])
    then have "unpack_digits bw (le_nat (drop pos d)) (8 * c) @ unpack_digits bw (le_nat (drop (pos + c * bw) d)) (8 * (g - c)) =
        unpack_digits bw (le_nat (drop pos d)) (8 * c + 8 * (g - c))"
      by (simp only: unpack_digits_add)
    also have "8 * c + 8 * (g - c) = 8 * g" using c by simp
    finally have app: "map ucast (unpack_digits bw (le_nat (drop pos d)) (8 * c)) @
        map ucast (unpack_digits bw (le_nat (drop (pos + c * bw) d)) (8 * (g - c))) =
        (map ucast (unpack_digits bw (le_nat (drop pos d)) (8 * g)) :: 16 word list)"
      by (metis map_append)
    have "8 * k < r" using less.prems False by simp
    then show ?thesis using u chunk IH app split
      by (subst bulk_loop.simps) (simp add: Let_def add.assoc add_mult_distrib2 del: if_split)
  qed
qed

lemma read_header:
  "decode_varint_loop k d n pos shift h = Some (Some r) \<Longrightarrow> header_loop k d n pos shift h = Some r"
proof (induction k arbitrary: pos shift h)
  case (Suc k)
  then show ?case by (auto simp: Let_def run_simps split: if_splits)
qed simp

lemma header_loop_safe: "n \<le> length d \<Longrightarrow> header_loop k d n pos shift h \<noteq> None"
  by (induction k arbitrary: pos shift h) (auto simp: Let_def bind_not_None split: if_splits)

text \<open>The loop over the groups in every case: it stores the front of the run.\<close>

lemma groups_loop_prefix:
  assumes "n \<le> length d" and "bw \<le> 32" and "length out \<le> m"
  shows "\<exists>p (xs :: u32 list). groups_loop g d n pos bw m out = Some (p, out @ map ucast xs) \<and> length out + length xs \<le> m"
  using assms(3)
proof (induction g arbitrary: pos out)
  case (Suc g)
  show ?case
  proof (cases "length out < m \<and> pos + bw \<le> n")
    case True
    let ?t = "if length out + 8 > m then m - length out else 8"
    let ?vs = "take ?t (unpack_digits bw (le_nat (take bw (drop pos d))) 8)"
    have one: "carquet_bitunpack8_32 scalar_dispatch d pos bw = Some (unpack_digits bw (le_nat (take bw (drop pos d))) 8)"
      using portable.bitunpack8_digits [of bw pos d] True assms by simp
    have "length (out @ map ucast ?vs) \<le> m" using True by auto
    from Suc.IH [OF this, of "pos + bw"] obtain p and xs :: "u32 list" where
      "groups_loop g d n (pos + bw) bw m (out @ map ucast ?vs) = Some (p, (out @ map ucast ?vs) @ map ucast xs)"
      "length (out @ map ucast ?vs) + length xs \<le> m" by blast
    then show ?thesis using True one
      by (intro exI [of _ p] exI [of _ "?vs @ xs"]) (simp add: Let_def del: if_split)
  next
    case False
    then have "groups_loop (Suc g) d n pos bw m out = Some (pos, out @ map ucast [])" by auto
    then show ?thesis using Suc.prems by (intro exI [of _ pos] exI [of _ "[]"]) simp
  qed
qed auto

text \<open>With the bulk path equal to the group loop, a bit-packed run is the group loop.\<close>

lemma bulk_is_groups:
  assumes "n \<le> length d" and "bw \<le> 32" and "p \<le> n"
    and "1 \<le> bw" and "g \<le> (n - p) div bw" and "length out + g * 8 \<le> m"
  shows "bulk_loop (g * 8) 0 d p bw out = groups_loop g d n p bw m out"
proof -
  have "g * bw \<le> n - p" using assms by (metis div_times_less_eq_dividend le_trans mult_le_mono1)
  then have "p + g * bw \<le> n" using assms by simp
  then show ?thesis
    using bulk_loop_full [of 0 g "g * 8" bw p d out] groups_loop_full [of n d bw p g out m] assms
    by (simp add: mult.commute)
qed

text \<open>One round of the loop, with these simplifications.\<close>

definition levels_round :: "nat \<Rightarrow> u8 list \<Rightarrow> nat \<Rightarrow> nat \<Rightarrow> u32 \<Rightarrow> nat \<Rightarrow> 16 word list \<Rightarrow> 16 word list option" where
  "levels_round bw d n m h p out =
     (if drop_bit 1 h = 0 then levels_loop bw d n m p out
      else if h AND 1 = 0 then
        if p + (bw + 7) div 8 > n then Some out
        else levels_loop bw d n m (p + (bw + 7) div 8)
          (out @ replicate (min (m - length out) (unat (drop_bit 1 h))) (ucast (read_value bw d p)))
      else (case groups_loop (unat (drop_bit 1 h)) d n p bw m out of
              None \<Rightarrow> None
            | Some (p', out') \<Rightarrow> levels_loop bw d n m p' out'))"

lemma levels_loop_round:
  assumes "n \<le> length d" and "bw \<le> 32" and "length out < m" and "pos < n"
    and h: "header_loop 5 d n pos 0 0 = Some (h, p)"
  shows "levels_loop bw d n m pos out = levels_round bw d n m h p out"
proof -
  have p: "p \<le> n" using header_loop_bounds [OF h] assms by simp
  have mask: "(if bw \<ge> 32 then - 1 else push_bit bw 1 - 1 :: u32) = mask bw"
    using assms(2) by (auto simp: mask_eq_exp_minus_1 push_bit_eq_mult)
  have val: "p + (bw + 7) div 8 \<le> n \<Longrightarrow>
      read_value_loop ((bw + 7) div 8) 0 d p 0 = Some (le_word (take ((bw + 7) div 8) (drop p d)), p + (bw + 7) div 8)"
    using read_value_loop_eq [of p "(bw + 7) div 8" d 0 0] assms(1) by simp
  have fill: "(if length out + r > m then m - length out else r) = min (m - length out) r" for r
    using assms(3) by auto
  note bp = bulk_is_groups [OF assms(1,2) p, of "unat (drop_bit 1 h)" out m]
  show ?thesis
    by (subst levels_loop.simps)
      (use assms(3,4) val in \<open>simp add: h levels_round_def bp [simplified] mask [simplified] fill Let_def scalar_fill_def_levels_def
         read_value_def take_bit_eq_mask del: if_split split: if_split\<close>)
qed

lemma levels_loop_done: "\<not> (length out < m \<and> pos < n) \<Longrightarrow> levels_loop bw d n m pos out = Some out"
  by (subst levels_loop.simps) auto

lemma levels_loop_safe:
  assumes "n \<le> length d" and "bw \<le> 32" and "length out \<le> m"
  shows "\<exists>ext. levels_loop bw d n m pos out = Some (out @ ext) \<and> length out + length ext \<le> m"
  using assms(3)
proof (induction "n - pos" arbitrary: pos out rule: less_induct)
  case less
  show ?case
  proof (cases "length out < m \<and> pos < n")
    case False
    then show ?thesis using levels_loop_done less.prems by (metis add.right_neutral append_Nil2 list.size(3))
  next
    case True
    obtain h p where h: "header_loop 5 d n pos 0 0 = Some (h, p)"
      using header_loop_safe [OF assms(1), of 5 pos 0 0] by auto
    then have p: "pos < p" "p \<le> n" using header_loop_bounds [OF h] True by auto
    have IH: "\<exists>ext. levels_loop bw d n m q (out @ xs) = Some (out @ ext) \<and> length out + length ext \<le> m"
      if "p \<le> q" "length out + length xs \<le> m" for q xs
    proof -
      have "n - q < n - pos" "length (out @ xs) \<le> m" using that p by simp_all
      from less.hyps [OF this] obtain ext where "levels_loop bw d n m q (out @ xs) = Some ((out @ xs) @ ext)"
        "length (out @ xs) + length ext \<le> m" by blast
      then show ?thesis by (intro exI [of _ "xs @ ext"]) simp
    qed
    obtain q and xs :: "u32 list" where g: "groups_loop (unat (drop_bit 1 h)) d n p bw m out = Some (q, out @ map ucast xs)"
      "length out + length xs \<le> m" using groups_loop_prefix [OF assms(1,2) less.prems] by blast
    have q: "p \<le> q" using groups_loop_pos [OF g(1)] .
    have stay: "length out + length [] \<le> m" using less.prems by simp
    have rep: "length out + length (replicate (min (m - length out) k) v) \<le> m" for k and v :: "16 word"
      using less.prems by simp
    show ?thesis
      using IH [OF le_refl stay] IH [of q "map ucast xs"] q g
        IH [of "p + (bw + 7) div 8", OF le_add1 rep] less.prems
      by (auto simp: levels_loop_round [OF assms(1,2) _ _ h] True levels_round_def)
  qed
qed

text \<open>Streams on which the reference decoder meets no error.\<close>

function (sequential) rle_complete :: "nat \<Rightarrow> u8 list \<Rightarrow> nat \<Rightarrow> nat \<Rightarrow> bool"
  and bp_complete :: "nat \<Rightarrow> u8 list \<Rightarrow> nat \<Rightarrow> nat \<Rightarrow> nat \<Rightarrow> bool" where
  "rle_complete bw d n pos =
     (if pos \<ge> n then True
      else case read_varint d n pos of
        Some (Some (header, p)) \<Rightarrow>
          if header AND 1 = 0 then
            (if drop_bit 1 header = 0 then rle_complete bw d n p
             else p + (bw + 7) div 8 \<le> n \<and> rle_complete bw d n (p + (bw + 7) div 8))
          else bp_complete bw d n (unat (drop_bit 1 header)) p
      | _ \<Rightarrow> False)"
| "bp_complete bw d n 0 pos = rle_complete bw d n pos"
| "bp_complete bw d n (Suc g) pos = (pos + bw \<le> n \<and> bp_complete bw d n g (pos + bw))"
  by pat_completeness auto
termination
  by (relation "measures [case_sum (\<lambda>(bw, d, n, pos). n - pos) (\<lambda>(bw, d, n, g, pos). n - pos),
        case_sum (\<lambda>_. 0) (\<lambda>(bw, d, n, g, pos). Suc g)]")
    (auto simp: read_varint_def dest!: decode_varint_loop_bounds)

declare rle_complete.simps [simp del]

lemma groups_loop_stream:
  assumes "n \<le> length d" and "bw \<le> 32" and "length out \<le> m"
  shows "\<exists>p (xs :: u32 list). groups_loop g d n pos bw m out = Some (p, out @ map ucast xs) \<and> length out + length xs \<le> m \<and>
    (length out + length xs = m \<and> xs = take (m - length out) (bp_stream bw d n g pos) \<or>
     bp_stream bw d n g pos = xs @ rle_stream bw d n p \<and> bp_complete bw d n g pos = rle_complete bw d n p \<or>
     bp_stream bw d n g pos = xs \<and> \<not> bp_complete bw d n g pos)"
  using assms(3)
proof (induction g arbitrary: pos out)
  case 0
  then show ?case by (intro exI [of _ pos] exI [of _ "[]"]) simp
next
  case (Suc g)
  let ?us = "unpack_digits bw (le_nat (take bw (drop pos d))) 8"
  consider (full) "length out = m" | (short) "length out < m" "pos + bw > n" | (step) "length out < m" "pos + bw \<le> n"
    using Suc.prems by fastforce
  then show ?case
  proof cases
    case full
    then show ?thesis by (intro exI [of _ pos] exI [of _ "[]"]) simp
  next
    case short
    then show ?thesis by (intro exI [of _ pos] exI [of _ "[]"]) simp
  next
    case step
    let ?t = "if length out + 8 > m then m - length out else 8"
    have one: "carquet_bitunpack8_32 scalar_dispatch d pos bw = Some ?us"
      using portable.bitunpack8_digits [of bw pos d] step assms by simp
    have s: "bp_stream bw d n (Suc g) pos = ?us @ bp_stream bw d n g (pos + bw)"
      "bp_complete bw d n (Suc g) pos = bp_complete bw d n g (pos + bw)" using step by simp_all
    have r: "groups_loop (Suc g) d n pos bw m out = groups_loop g d n (pos + bw) bw m (out @ map ucast (take ?t ?us))"
      using step one by (simp add: Let_def del: if_split)
    have "length (out @ map ucast (take ?t ?us)) \<le> m" using step by auto
    from Suc.IH [OF this, of "pos + bw"] obtain p and xs :: "u32 list" where
      g: "groups_loop g d n (pos + bw) bw m (out @ map ucast (take ?t ?us)) = Some (p, (out @ map ucast (take ?t ?us)) @ map ucast xs)"
      and len: "length out + length (take ?t ?us) + length xs \<le> m"
      and c: "length out + length (take ?t ?us) + length xs = m \<and>
          xs = take (m - length out - length (take ?t ?us)) (bp_stream bw d n g (pos + bw)) \<or>
        bp_stream bw d n g (pos + bw) = xs @ rle_stream bw d n p \<and> bp_complete bw d n g (pos + bw) = rle_complete bw d n p \<or>
        bp_stream bw d n g (pos + bw) = xs \<and> \<not> bp_complete bw d n g (pos + bw)"
      by (auto simp del: if_split)
    show ?thesis
    proof (cases "length out + 8 > m")
      case True
      then have "xs = []" using len step(1) by simp
      then show ?thesis using True r g s step
        by (intro exI [of _ p] exI [of _ "take ?t ?us"]) (simp del: bp_stream.simps bp_complete.simps groups_loop.simps)
    next
      case False
      then show ?thesis using r g s len c
        by (intro exI [of _ p] exI [of _ "?us @ xs"])
          (auto simp del: bp_stream.simps bp_complete.simps groups_loop.simps)
    qed
  qed
qed

lemma rle_stream_header:
  assumes "pos < n" and "read_varint d n pos = Some (Some (h, p))"
  shows "drop_bit 1 h = 0 \<Longrightarrow> rle_stream bw d n pos = rle_stream bw d n p \<and>
      rle_complete bw d n pos = rle_complete bw d n p"
    and "drop_bit 1 h \<noteq> 0 \<Longrightarrow> h AND 1 = 0 \<Longrightarrow> p + (bw + 7) div 8 > n \<Longrightarrow>
      rle_stream bw d n pos = [] \<and> \<not> rle_complete bw d n pos"
    and "drop_bit 1 h \<noteq> 0 \<Longrightarrow> h AND 1 = 0 \<Longrightarrow> p + (bw + 7) div 8 \<le> n \<Longrightarrow>
      rle_stream bw d n pos = replicate (unat (drop_bit 1 h)) (read_value bw d p) @ rle_stream bw d n (p + (bw + 7) div 8) \<and>
      rle_complete bw d n pos = rle_complete bw d n (p + (bw + 7) div 8)"
    and "h AND 1 \<noteq> 0 \<Longrightarrow> rle_stream bw d n pos = bp_stream bw d n (unat (drop_bit 1 h)) p \<and>
      rle_complete bw d n pos = bp_complete bw d n (unat (drop_bit 1 h)) p"
  using assms by (simp_all add: rle_stream.simps [of bw d n pos] rle_complete.simps [of bw d n pos])

lemma rle_stream_no_header:
  "pos < n \<Longrightarrow> read_varint d n pos = Some None \<Longrightarrow> rle_stream bw d n pos = [] \<and> \<not> rle_complete bw d n pos"
  by (simp add: rle_stream.simps [of bw d n pos] rle_complete.simps [of bw d n pos])

text \<open>
  The levels begin with the front of the stream; what follows, if anything, comes from bytes
  behind an error of the stream.
\<close>

lemma levels_loop_stream:
  assumes "n \<le> length d" and "bw \<le> 32" and "length out \<le> m"
  shows "\<exists>ext. levels_loop bw d n m pos out =
      Some (out @ map ucast (take (m - length out) (rle_stream bw d n pos)) @ ext) \<and>
    (m - length out \<le> length (rle_stream bw d n pos) \<or> rle_complete bw d n pos \<longrightarrow> ext = [])"
  using assms(3)
proof (induction "n - pos" arbitrary: pos out rule: less_induct)
  case less
  let ?P = "\<lambda>out s c r. \<exists>ext. r = Some (out @ map ucast (take (m - length out) s) @ ext) \<and>
    (m - length out \<le> length s \<or> c \<longrightarrow> ext = [])"
  have error: "?P out [] False r" if "\<exists>ext. r = Some (out @ ext) \<and> length out + length ext \<le> m" for r out
    using that by (auto simp flip: length_0_conv)
  show ?case
  proof (cases "length out < m \<and> pos < n")
    case False
    then show ?thesis using levels_loop_done [of out m pos n bw d] less.prems
      by (auto simp: rle_stream.simps [of bw d n pos])
  next
    case True
    obtain h p where h: "header_loop 5 d n pos 0 0 = Some (h, p)"
      using header_loop_safe [OF assms(1), of 5 pos 0 0] by auto
    then have p: "pos < p" "p \<le> n" using header_loop_bounds [OF h] True by auto
    note round = levels_loop_round [OF assms(1,2) conjunct1 [OF True] conjunct2 [OF True] h]
    have IH: "?P out (rle_stream bw d n q) (rle_complete bw d n q) (levels_loop bw d n m q out)"
      if "p \<le> q" "length out \<le> m" for q out using less.hyps [of q out] that p by simp
    obtain r where r: "read_varint d n pos = Some r" using read_varint_wf [OF assms(1)] by auto
    show ?thesis
    proof (cases r)
      case None
      then show ?thesis
        using rle_stream_no_header [of pos n d bw] r True error [OF levels_loop_safe [OF assms(1,2) less.prems]] by simp
    next
      case (Some hp)
      then have rv: "read_varint d n pos = Some (Some (h, p))"
        using r read_header [of 5 d n pos 0 0] h by (simp add: read_varint_def)
      note hd = rle_stream_header [OF conjunct2 [OF True] rv, of bw]
      consider (empty) "drop_bit 1 h = 0" | (rle_bad) "drop_bit 1 h \<noteq> 0" "h AND 1 = 0" "p + (bw + 7) div 8 > n"
        | (rle) "drop_bit 1 h \<noteq> 0" "h AND 1 = 0" "p + (bw + 7) div 8 \<le> n" | (bp) "drop_bit 1 h \<noteq> 0" "h AND 1 \<noteq> 0"
        by fastforce
      then show ?thesis
      proof cases
        case empty
        then show ?thesis using hd(1) IH [OF le_refl less.prems] by (simp add: round levels_round_def)
      next
        case rle_bad
        then show ?thesis using hd(2) True by (simp add: round levels_round_def)
      next
        case rle
        let ?k = "unat (drop_bit 1 h)" and ?v = "read_value bw d p" and ?q = "p + (bw + 7) div 8"
        let ?out = "out @ replicate (min (m - length out) ?k) (ucast ?v)"
        have "?P ?out (rle_stream bw d n ?q) (rle_complete bw d n ?q) (levels_loop bw d n m ?q ?out)"
          by (rule IH) (use less.prems in auto)
        then show ?thesis using hd(3) [OF rle] rle
          by (auto simp: round levels_round_def min_def split: if_splits)
      next
        case bp
        obtain q and xs :: "u32 list" where
          g: "groups_loop (unat (drop_bit 1 h)) d n p bw m out = Some (q, out @ map ucast xs)"
            "length out + length xs \<le> m" and
          c: "length out + length xs = m \<and> xs = take (m - length out) (rle_stream bw d n pos) \<or>
            rle_stream bw d n pos = xs @ rle_stream bw d n q \<and> rle_complete bw d n pos = rle_complete bw d n q \<or>
            rle_stream bw d n pos = xs \<and> \<not> rle_complete bw d n pos"
          using groups_loop_stream [OF assms(1,2) less.prems, of "unat (drop_bit 1 h)" p] hd(4) [OF bp(2)] by auto
        have s: "levels_loop bw d n m pos out = levels_loop bw d n m q (out @ map ucast xs)"
          using bp g by (simp add: round levels_round_def)
        have "?P (out @ map ucast xs) (rle_stream bw d n q) (rle_complete bw d n q) (levels_loop bw d n m q (out @ map ucast xs))"
          by (rule IH) (use g groups_loop_pos [OF g(1)] in auto)
        moreover have "levels_loop bw d n m q (out @ map ucast xs) = Some (out @ map ucast xs)" if "length out + length xs = m"
          using levels_loop_done that by auto
        moreover obtain ext where "levels_loop bw d n m q (out @ map ucast xs) = Some ((out @ map ucast xs) @ ext)"
          "length (out @ map ucast xs) + length ext \<le> m"
          using levels_loop_safe [OF assms(1,2), of "out @ map ucast xs" m q] g by auto
        ultimately show ?thesis using c g s by (cases "length out + length xs = m") auto
      qed
    qed
  qed
qed

text \<open>The results of the level decoder: always defined, the front of the stream at least.\<close>

lemma decode_levels_stream:
  assumes "n \<le> length d"
  shows "\<exists>ext. carquet_rle_decode_levels d n bw m =
      Some (map ucast (take (nat m) (dec_stream (carquet_rle_decoder_init d n bw))) @ ext) \<and>
    (nat m \<le> length (rle_stream (nat bw) d n 0) \<or> rle_complete (nat bw) d n 0 \<longrightarrow> ext = [])"
proof (cases "m \<le> 0 \<or> n = 0 \<or> bw < 0 \<or> bw > 32")
  case True
  then show ?thesis
    by (auto simp: carquet_rle_decode_levels_def decoder_init_bad_width dec_stream_def carquet_rle_decoder_init_def
        rle_stream.simps Let_def)
next
  case False
  then have "nat bw \<le> 32" by auto
  then show ?thesis using False levels_loop_stream [of n d "nat bw" "[]" "nat m" 0] assms
    by (simp add: carquet_rle_decode_levels_def decoder_init_stream)
qed

section \<open>Levels with a length prefix\<close>

text \<open>
  The result is the decoder's or \<open>Inl ()\<close> for the return value -1, and the bytes consumed.
  \<open>4 + rle_length\<close> is an addition of 32 bits.
\<close>

definition carquet_rle_decode_levels_prefixed ::
  "u8 list \<Rightarrow> nat \<Rightarrow> int \<Rightarrow> int \<Rightarrow> ((unit + 16 word list) \<times> nat) option" where
  "carquet_rle_decode_levels_prefixed input input_size bit_width max_values =
     (if input_size < 4 then Some (Inl (), 0)
      else do {
        rle_length \<leftarrow> carquet_read_u32_le input 0;
        if unat (4 + rle_length) > input_size then Some (Inl (), 0)
        else do {
          out \<leftarrow> carquet_rle_decode_levels (drop 4 input) (unat rle_length) bit_width max_values;
          Some (Inr out, unat (4 + rle_length))
        }
      })"

section \<open>Levels to a validity bitmap\<close>

definition set_present :: "u8 list \<Rightarrow> nat \<Rightarrow> u8 list option" where
  "set_present bitmap idx = or_byte bitmap (idx div 8) (push_bit (idx mod 8) 1)"

fun set_run :: "nat \<Rightarrow> nat \<Rightarrow> u8 list \<Rightarrow> u8 list option" where
  "set_run 0 idx bitmap = Some bitmap"
| "set_run (Suc k) idx bitmap = do { bitmap' \<leftarrow> set_present bitmap idx; set_run k (idx + 1) bitmap' }"

text \<open>The bits \<open>i\<close>, \<open>i + 1\<close>, ... of a packed byte; \<open>k\<close> of them are to be stored.\<close>

fun store_bits :: "nat \<Rightarrow> nat \<Rightarrow> u8 \<Rightarrow> nat \<Rightarrow> u8 list \<Rightarrow> nat \<Rightarrow> (u8 list \<times> nat) option" where
  "store_bits 0 i packed_byte count bitmap nn = Some (bitmap, nn)"
| "store_bits (Suc k) i packed_byte count bitmap nn =
     (if drop_bit i packed_byte AND 1 = 1 then do {
        bitmap' \<leftarrow> set_present bitmap (count + i);
        store_bits k (i + 1) packed_byte count bitmap' (nn + 1)
      } else store_bits k (i + 1) packed_byte count bitmap nn)"

fun bitmap_groups ::
  "nat \<Rightarrow> u8 list \<Rightarrow> nat \<Rightarrow> nat \<Rightarrow> nat \<Rightarrow> nat \<Rightarrow> u8 list \<Rightarrow> nat \<Rightarrow> (nat \<times> nat \<times> u8 list \<times> nat) option" where
  "bitmap_groups 0 d n max_values pos count bitmap nn = Some (pos, count, bitmap, nn)"
| "bitmap_groups (Suc g) d n max_values pos count bitmap nn =
     (if count < max_values then
        if pos \<ge> n then Some (pos, count, bitmap, nn)
        else do {
          packed_byte \<leftarrow> rd d pos;
          let to_store = (if count + 8 > max_values then max_values - count else 8);
          (bitmap', nn') \<leftarrow> store_bits to_store 0 packed_byte count bitmap nn;
          bitmap_groups g d n max_values (pos + 1) (count + to_store) bitmap' nn'
        }
      else Some (pos, count, bitmap, nn))"

lemma bitmap_groups_pos: "bitmap_groups g d n m pos count bitmap nn = Some (p, r) \<Longrightarrow> pos \<le> p"
  by (induction g arbitrary: pos count bitmap nn) (fastforce simp: run_simps Let_def split: if_splits)+

function bitmap_loop :: "u8 list \<Rightarrow> nat \<Rightarrow> nat \<Rightarrow> nat \<Rightarrow> nat \<Rightarrow> u8 list \<Rightarrow> nat \<Rightarrow> (u8 list \<times> nat \<times> nat) option" where
  "bitmap_loop d n max_values pos count bitmap nn =
     (if count < max_values \<and> pos < n then
        (case header_loop 5 d n pos 0 0 of
           None \<Rightarrow> None
         | Some (header, p) \<Rightarrow>
             if header AND 1 = 0 then
               let run_length = unat (drop_bit 1 header) in
               if run_length = 0 then bitmap_loop d n max_values p count bitmap nn
               else if p + 1 > n then Some (bitmap, count, nn)
               else (case rd d p of
                       None \<Rightarrow> None
                     | Some b \<Rightarrow>
                         let rle_value = b AND 1;
                             to_fill = (if count + run_length > max_values then max_values - count else run_length)
                         in if rle_value = 1 then
                              (case set_run to_fill count bitmap of
                                 None \<Rightarrow> None
                               | Some bitmap' \<Rightarrow>
                                   bitmap_loop d n max_values (p + 1) (count + to_fill) bitmap' (nn + to_fill))
                            else bitmap_loop d n max_values (p + 1) (count + to_fill) bitmap nn)
             else
               let num_groups = unat (drop_bit 1 header) in
               if num_groups = 0 then bitmap_loop d n max_values p count bitmap nn
               else (case bitmap_groups num_groups d n max_values p count bitmap nn of
                       None \<Rightarrow> None
                     | Some (p', count', bitmap', nn') \<Rightarrow> bitmap_loop d n max_values p' count' bitmap' nn'))
      else Some (bitmap, count, nn))"
  by pat_completeness auto
termination
  by (relation "measure (\<lambda>(d, n, max_values, pos, _). n - pos)")
    (fastforce dest!: header_loop_bounds bitmap_groups_pos)+

declare bitmap_loop.simps [simp del]

text \<open>The bitmap, the number of values decoded and of those present.\<close>

definition carquet_rle_decode_to_bitmap ::
  "u8 list \<Rightarrow> nat \<Rightarrow> u8 list \<Rightarrow> int \<Rightarrow> (u8 list \<times> nat \<times> nat) option" where
  "carquet_rle_decode_to_bitmap input input_size bitmap max_values =
     (if max_values \<le> 0 \<or> input_size = 0 then Some (bitmap, 0, 0)
      else do {
        let bitmap_bytes = (nat max_values + 7) div 8;
        bitmap' \<leftarrow> wr_bytes bitmap 0 (replicate bitmap_bytes 0);
        bitmap_loop input input_size (nat max_values) 0 0 bitmap' 0
      })"

text \<open>The bitmap of a list of levels, of room for \<open>m\<close> of them.\<close>

definition bitmap_of :: "nat \<Rightarrow> 16 word list \<Rightarrow> u8 list \<Rightarrow> bool" where
  "bitmap_of m vs bm \<longleftrightarrow> (m + 7) div 8 \<le> length bm \<and> length vs \<le> m \<and>
     (\<forall>j < 8 * ((m + 7) div 8). bit (bm ! (j div 8)) (j mod 8) \<longleftrightarrow> j < length vs \<and> vs ! j = 1)"

lemma bitmap_of_0: "length vs + k \<le> m \<Longrightarrow> bitmap_of m vs bm \<Longrightarrow> bitmap_of m (vs @ replicate k 0) bm"
  by (auto simp: bitmap_of_def nth_append)

lemma set_present_correct:
  assumes "bitmap_of m vs bm" and "length vs < m"
  shows "\<exists>bm'. set_present bm (length vs) = Some bm' \<and> bitmap_of m (vs @ [1]) bm'"
proof -
  let ?q = "length vs div 8"
  have q: "?q < (m + 7) div 8" using assms(2) div_le_mono [of "length vs + 8" "m + 7" 8] by simp
  have "(m + 7) div 8 \<le> length bm" using assms(1) unfolding bitmap_of_def by blast
  then have "?q < length bm" using q by (rule less_le_trans [rotated])
  then have "set_present bm (length vs) = Some (bm[?q := bm ! ?q OR push_bit (length vs mod 8) 1])"
    unfolding set_present_def or_byte_def by simp
  moreover have "bit (bm[?q := bm ! ?q OR push_bit (length vs mod 8) 1] ! (j div 8)) (j mod 8) \<longleftrightarrow>
      j < length (vs @ [1]) \<and> (vs @ [1]) ! j = 1" if j: "j < 8 * ((m + 7) div 8)" for j
  proof -
    have old: "bit (bm ! (j div 8)) (j mod 8) \<longleftrightarrow> j < length vs \<and> vs ! j = 1"
      using assms(1) j by (simp add: bitmap_of_def)
    have "j div 8 < length bm" using j assms(1) by (auto simp: bitmap_of_def)
    then have "bit (bm[?q := bm ! ?q OR push_bit (length vs mod 8) 1] ! (j div 8)) (j mod 8) \<longleftrightarrow>
        bit (bm ! (j div 8)) (j mod 8) \<or> j div 8 = ?q \<and> j mod 8 = length vs mod 8"
    proof (cases "j div 8 = ?q")
      case True
      with \<open>j div 8 < length bm\<close> have "bm[?q := bm ! ?q OR push_bit (length vs mod 8) 1] ! (j div 8) =
          bm ! (j div 8) OR push_bit (length vs mod 8) 1" by simp
      moreover have "bit (push_bit (length vs mod 8) 1 :: u8) (j mod 8) \<longleftrightarrow> j mod 8 = length vs mod 8"
        by (auto simp: bit_exp_iff possible_bit_word)
      ultimately show ?thesis using True by (simp only: bit_or_iff) simp
    qed simp
    moreover have "j div 8 = ?q \<and> j mod 8 = length vs mod 8 \<longleftrightarrow> j = length vs" by (metis div_mult_mod_eq)
    ultimately show ?thesis using old by (auto simp: nth_append)
  qed
  ultimately show ?thesis using assms by (auto simp: bitmap_of_def)
qed

lemma set_run_correct:
  "bitmap_of m vs bm \<Longrightarrow> length vs + k \<le> m \<Longrightarrow>
     \<exists>bm'. set_run k (length vs) bm = Some bm' \<and> bitmap_of m (vs @ replicate k 1) bm'"
proof (induction k arbitrary: vs bm)
  case (Suc k)
  obtain bm1 where one: "set_present bm (length vs) = Some bm1" "bitmap_of m (vs @ [1]) bm1"
    using set_present_correct [OF Suc.prems(1)] Suc.prems(2) by auto
  have "length (vs @ [1]) + k \<le> m" using Suc.prems by simp
  from Suc.IH [OF one(2) this] one(1) show ?case by simp
qed simp

text \<open>The levels in a packed byte.\<close>

definition byte_levels :: "u8 \<Rightarrow> nat \<Rightarrow> nat \<Rightarrow> 16 word list" where
  "byte_levels b i k = map (\<lambda>j. if bit b j then 1 else 0) [i..<i + k]"

lemma byte_levels_Suc: "byte_levels b i (Suc k) = (if bit b i then 1 else 0) # byte_levels b (i + 1) k"
  by (simp add: byte_levels_def upt_rec)

lemma store_bits_correct:
  "bitmap_of m (vs @ us) bm \<Longrightarrow> length us = i \<Longrightarrow> length vs + i + k \<le> m \<Longrightarrow>
     \<exists>bm'. store_bits k i b (length vs) bm nn = Some (bm', nn + count_list (byte_levels b i k) 1) \<and>
       bitmap_of m (vs @ us @ byte_levels b i k) bm'"
proof (induction k arbitrary: i us bm nn)
  case (Suc k)
  have bit: "drop_bit i b AND 1 = 1 \<longleftrightarrow> bit b i" by (simp add: and_one_eq bit_iff_odd_drop_bit odd_iff_mod_2_eq_one)
  show ?case
  proof (cases "bit b i")
    case True
    obtain bm1 where "set_present bm (length (vs @ us)) = Some bm1" "bitmap_of m ((vs @ us) @ [1]) bm1"
      using set_present_correct [OF Suc.prems(1)] Suc.prems by auto
    then show ?thesis using Suc.IH [of "us @ [1]" bm1 "i + 1" "nn + 1"] Suc.prems True bit by (simp add: byte_levels_Suc)
  next
    case False
    have "bitmap_of m (vs @ us @ [0]) bm" using bitmap_of_0 [of "vs @ us" 1 m bm] Suc.prems by simp
    then show ?thesis using Suc.IH [of "us @ [0]" bm "i + 1" nn] Suc.prems False bit by (simp add: byte_levels_Suc)
  qed
qed (simp add: byte_levels_def)

lemma unpack_byte: "pos < length d \<Longrightarrow>
    map ucast (unpack_digits 1 (le_nat (take 1 (drop pos d))) 8) = byte_levels (d ! pos) 0 8"
proof (rule nth_equalityI)
  fix i assume pos: "pos < length d" and "i < length (map ucast (unpack_digits 1 (le_nat (take 1 (drop pos d))) 8) :: 16 word list)"
  then have i: "i < 8" by simp
  have "(ucast (digit 1 (le_nat [d ! pos]) i) :: 16 word) = (if bit (d ! pos) i then 1 else 0)"
    by (rule bit_word_eqI) (use i in \<open>auto simp: bit_digit bit_le_nat bit_simps bit_1_iff\<close>)
  then show "map ucast (unpack_digits 1 (le_nat (take 1 (drop pos d))) 8) ! i = byte_levels (d ! pos) 0 8 ! i"
    using pos i by (simp add: byte_levels_def drop_eq_Cons)
qed (simp add: byte_levels_def)

lemma bitmap_groups_correct:
  assumes "n \<le> length d" and "bitmap_of m vs bm"
  shows "\<exists>p xs bm'. groups_loop g d n pos 1 m vs = Some (p, vs @ xs) \<and> pos \<le> p \<and>
    bitmap_groups g d n m pos (length vs) bm nn = Some (p, length (vs @ xs), bm', nn + count_list xs 1) \<and>
    bitmap_of m (vs @ xs) bm'"
  using assms(2)
proof (induction g arbitrary: pos vs bm nn)
  case 0
  then show ?case by (intro exI [of _ pos] exI [of _ "[]"] exI [of _ bm]) simp
next
  case (Suc g)
  show ?case
  proof (cases "length vs < m \<and> pos < n")
    case False
    then show ?thesis using Suc.prems by (intro exI [of _ pos] exI [of _ "[]"] exI [of _ bm]) auto
  next
    case True
    define t where "t = (if length vs + 8 > m then m - length vs else 8)"
    let ?xs = "byte_levels (d ! pos) 0 t"
    have t: "t \<le> 8" "length vs + t \<le> m" using True by (auto simp: t_def)
    have len: "length ?xs = t" by (simp add: byte_levels_def)
    have take: "take t (byte_levels (d ! pos) 0 8) = ?xs"
      using t by (simp add: byte_levels_def take_map)
    have one: "carquet_bitunpack8_32 scalar_dispatch d pos 1 = Some (unpack_digits 1 (le_nat (take 1 (drop pos d))) 8)"
      using portable.bitunpack8_digits [of 1 pos d] True assms by simp
    have u: "map ucast (take t (unpack_digits 1 (le_nat (take 1 (drop pos d))) 8)) = ?xs"
      using unpack_byte [of pos d] True assms take by (simp flip: take_map)
    have gl: "groups_loop (Suc g) d n pos 1 m vs = groups_loop g d n (pos + 1) 1 m (vs @ ?xs)"
      using True one u by (simp add: t_def [symmetric] del: if_split One_nat_def)
    obtain bm1 where st: "store_bits t 0 (d ! pos) (length vs) bm nn = Some (bm1, nn + count_list ?xs 1)"
      and bm1: "bitmap_of m (vs @ ?xs) bm1"
      using store_bits_correct [of m vs "[]" bm 0 t "d ! pos" nn] Suc.prems t by auto
    have bg: "bitmap_groups (Suc g) d n m pos (length vs) bm nn =
        bitmap_groups g d n m (pos + 1) (length (vs @ ?xs)) bm1 (nn + count_list ?xs 1)"
      using True assms st len by (simp add: t_def [symmetric] del: if_split)
    obtain p xs bm' where IH: "groups_loop g d n (pos + 1) 1 m (vs @ ?xs) = Some (p, (vs @ ?xs) @ xs)" "pos + 1 \<le> p"
      "bitmap_groups g d n m (pos + 1) (length (vs @ ?xs)) bm1 (nn + count_list ?xs 1) =
        Some (p, length ((vs @ ?xs) @ xs), bm', nn + count_list ?xs 1 + count_list xs 1)"
      "bitmap_of m ((vs @ ?xs) @ xs) bm'"
      using Suc.IH [OF bm1] by blast
    then show ?thesis unfolding gl bg
      by (intro exI [of _ p] exI [of _ "?xs @ xs"] exI [of _ bm']) (simp add: add.assoc)
  qed
qed

lemma count_list_replicate: "count_list (replicate k x) y = (if x = y then k else 0)"
  by (induction k) auto

text \<open>The bitmap decoder is the level decoder at width 1, also behind errors.\<close>

lemma bitmap_loop_correct:
  assumes "n \<le> length d" and "bitmap_of m vs bm"
  shows "\<exists>out bm'. levels_loop 1 d n m pos vs = Some out \<and>
    bitmap_loop d n m pos (length vs) bm (count_list vs 1) = Some (bm', length out, count_list out 1) \<and>
    bitmap_of m out bm'"
  using assms(2)
proof (induction "n - pos" arbitrary: pos vs bm rule: less_induct)
  case less
  show ?case
  proof (cases "length vs < m \<and> pos < n")
    case False
    then have "bitmap_loop d n m pos (length vs) bm (count_list vs 1) = Some (bm, length vs, count_list vs 1)"
      by (subst bitmap_loop.simps) auto
    then show ?thesis using levels_loop_done [OF False, of 1 d] less.prems by auto
  next
    case True
    obtain h p where h: "header_loop 5 d n pos 0 0 = Some (h, p)"
      using header_loop_safe [OF assms(1), of 5 pos 0 0] by auto
    then have p: "pos < p" "p \<le> n" using header_loop_bounds [OF h] True by auto
    have round: "levels_loop 1 d n m pos vs = levels_round 1 d n m h p vs"
      using levels_loop_round [OF assms(1) _ _ _ h, of 1 vs m] True by simp
    have IH: "\<exists>out bm'. levels_loop 1 d n m q us = Some out \<and>
        bitmap_loop d n m q (length us) bm1 (count_list us 1) = Some (bm', length out, count_list out 1) \<and>
        bitmap_of m out bm'" if "p \<le> q" "bitmap_of m us bm1" for q us bm1
      using less.hyps [of q us bm1] that p by simp
    consider (empty) "drop_bit 1 h = 0" | (rle_bad) "drop_bit 1 h \<noteq> 0" "h AND 1 = 0" "p = n"
      | (rle) "drop_bit 1 h \<noteq> 0" "h AND 1 = 0" "p < n" | (bp) "drop_bit 1 h \<noteq> 0" "h AND 1 \<noteq> 0"
      using p by fastforce
    then show ?thesis
    proof cases
      case empty
      then have "bitmap_loop d n m pos (length vs) bm (count_list vs 1) = bitmap_loop d n m p (length vs) bm (count_list vs 1)"
        using True h by (subst bitmap_loop.simps) simp
      then show ?thesis using empty IH [OF le_refl less.prems] by (simp add: round levels_round_def del: One_nat_def)
    next
      case rle_bad
      then have "bitmap_loop d n m pos (length vs) bm (count_list vs 1) = Some (bm, length vs, count_list vs 1)"
        using True h by (subst bitmap_loop.simps) simp
      then show ?thesis using rle_bad less.prems by (simp add: round levels_round_def del: One_nat_def)
    next
      case rle
      define k where "k = min (m - length vs) (unat (drop_bit 1 h))"
      have k: "(if length vs + unat (drop_bit 1 h) > m then m - length vs else unat (drop_bit 1 h)) = k"
        "length vs + k \<le> m" using True by (auto simp: k_def)
      have v: "(ucast (read_value 1 d p) :: 16 word) = (if d ! p AND 1 = 1 then 1 else 0)"
      proof -
        have "take 1 (drop p d) = [d ! p]" using rle assms by (simp add: drop_eq_Cons)
        then have "read_value 1 d p = take_bit 1 (ucast (d ! p))" by (simp add: read_value_def)
        moreover have "d ! p AND 1 = 1 \<longleftrightarrow> bit (d ! p) 0" by (simp add: and_one_eq bit_0 odd_iff_mod_2_eq_one)
        moreover have "bit (ucast (take_bit 1 (ucast b :: u32)) :: 16 word) k \<longleftrightarrow> k = 0 \<and> bit b 0" for b :: u8 and k
          by (simp only: bit_ucast_iff bit_take_bit_iff) (auto simp only: less_one possible_bit_word len_num1)
        ultimately show ?thesis by (intro bit_word_eqI) (auto simp: bit_1_iff simp del: One_nat_def)
      qed
      have rd: "rd d p = Some (d ! p)" using rle assms by simp
      have lr: "levels_loop 1 d n m pos vs =
          levels_loop 1 d n m (p + 1) (vs @ replicate k (if d ! p AND 1 = 1 then 1 else 0))"
        using rle by (simp add: round levels_round_def k_def v del: if_split One_nat_def)
      show ?thesis
      proof (cases "d ! p AND 1 = 1")
        case one: True
        obtain bm1 where s: "set_run k (length vs) bm = Some bm1" "bitmap_of m (vs @ replicate k 1) bm1"
          using set_run_correct [OF less.prems k(2)] by blast
        have "bitmap_loop d n m pos (length vs) bm (count_list vs 1) =
            bitmap_loop d n m (p + 1) (length (vs @ replicate k (1 :: 16 word))) bm1 (count_list (vs @ replicate k 1) 1)"
          using True h rle rd one s
          by (subst bitmap_loop.simps) (simp add: Let_def k count_list_replicate del: if_split One_nat_def)
        then show ?thesis using IH [OF _ s(2), of "p + 1"] lr one by simp
      next
        case zero: False
        have s: "bitmap_of m (vs @ replicate k 0) bm" using bitmap_of_0 less.prems k(2) by blast
        have "bitmap_loop d n m pos (length vs) bm (count_list vs 1) =
            bitmap_loop d n m (p + 1) (length (vs @ replicate k (0 :: 16 word))) bm (count_list (vs @ replicate k 0) 1)"
          using True h rle rd zero
          by (subst bitmap_loop.simps) (simp add: Let_def k count_list_replicate del: if_split One_nat_def)
        then show ?thesis using IH [OF _ s, of "p + 1"] lr zero by simp
      qed
    next
      case bp
      obtain q xs bm1 where g: "groups_loop (unat (drop_bit 1 h)) d n p 1 m vs = Some (q, vs @ xs)" "p \<le> q"
        "bitmap_groups (unat (drop_bit 1 h)) d n m p (length vs) bm (count_list vs 1) =
          Some (q, length (vs @ xs), bm1, count_list vs 1 + count_list xs 1)" "bitmap_of m (vs @ xs) bm1"
        using bitmap_groups_correct [OF assms(1) less.prems] by blast
      have "bitmap_loop d n m pos (length vs) bm (count_list vs 1) =
          bitmap_loop d n m q (length (vs @ xs)) bm1 (count_list (vs @ xs) 1)"
        using True h bp g by (subst bitmap_loop.simps) simp
      moreover have "levels_loop 1 d n m pos vs = levels_loop 1 d n m q (vs @ xs)"
        using bp g by (simp add: round levels_round_def del: One_nat_def)
      ultimately show ?thesis using IH [OF g(2,4)] by simp
    qed
  qed
qed

lemma decode_to_bitmap_correct:
  assumes "n \<le> length d" and "(nat m + 7) div 8 \<le> length bm" and "0 < n" and "0 < m"
  shows "\<exists>out bm'. carquet_rle_decode_levels d n 1 m = Some out \<and>
    carquet_rle_decode_to_bitmap d n bm m = Some (bm', length out, count_list out 1) \<and> bitmap_of (nat m) out bm'"
proof -
  let ?k = "(nat m + 7) div 8"
  have w: "wr_bytes bm 0 (replicate ?k 0) = Some (replicate ?k 0 @ drop ?k bm)"
    using assms by (simp add: wr_bytes_in)
  have "bitmap_of (nat m) [] (replicate ?k 0 @ drop ?k bm)"
    using assms by (auto simp: bitmap_of_def nth_append)
  from bitmap_loop_correct [OF assms(1) this, of 0] w assms show ?thesis
    by (simp add: carquet_rle_decode_to_bitmap_def carquet_rle_decode_levels_def)
qed

lemma decode_levels_length:
  assumes "n \<le> length d" and "carquet_rle_decode_levels d n bw m = Some out"
  shows "length out \<le> nat m"
proof (cases "m \<le> 0 \<or> n = 0 \<or> bw < 0 \<or> bw > 32")
  case True
  then show ?thesis using assms(2) by (auto simp: carquet_rle_decode_levels_def)
next
  case False
  then have "nat bw \<le> 32" by auto
  then show ?thesis using levels_loop_safe [OF assms(1), of "nat bw" "[]" "nat m" 0] False assms(2)
    by (auto simp: carquet_rle_decode_levels_def)
qed

section \<open>Properties\<close>

text \<open>C28: The inlined level decoder agrees with the streaming decoder, cut to 16 bits, on every stream
  that is long enough for the number of levels asked for or free of errors.\<close>

theorem decode_levels_agrees:
  assumes "n \<le> length d"
    and "nat m \<le> length (rle_stream (nat bw) d n 0) \<or> rle_complete (nat bw) d n 0"
  shows "map_option (map ucast) (carquet_rle_decode_all d n bw m) = carquet_rle_decode_levels d n bw m"
proof -
  have "carquet_rle_decode_all d n bw m = Some (take (nat m) (dec_stream (carquet_rle_decoder_init d n bw)))"
    using get_batch_correct [OF decoder_init_wf [OF assms(1), of bw], of m]
    by (auto simp: carquet_rle_decode_all_def)
  then show ?thesis using decode_levels_stream [OF assms(1), of bw m] assms(2) by auto
qed

lemma decode_levels_agrees_witness:
  "map_option (map ucast) (carquet_rle_decode_all [6, 5] 2 3 3) = carquet_rle_decode_levels [6, 5] 2 3 3"
  by (rule decode_levels_agrees [of 2 "[6, 5]" 3 3]) code_simp+

text \<open>On any bytes at all the level decoder stays inside its input and its output, and its first
  levels are those of the streaming decoder; on a truncated bit-packed run it goes on where the
  streaming decoder reports an error, and takes the left-over bytes for the header of a run.\<close>

theorem decode_levels_extends:
  assumes "n \<le> length d"
  shows "(\<exists>vs ext. carquet_rle_decode_all d n bw m = Some vs \<and>
      carquet_rle_decode_levels d n bw m = Some (map ucast vs @ ext) \<and> length vs + length ext \<le> nat m) \<and>
    carquet_rle_decode_all [3, 2, 5] 3 8 4 = Some [] \<and> carquet_rle_decode_levels [3, 2, 5] 3 8 4 = Some [5]"
proof (intro conjI)
  have a: "carquet_rle_decode_all d n bw m = Some (take (nat m) (dec_stream (carquet_rle_decoder_init d n bw)))"
    using get_batch_correct [OF decoder_init_wf [OF assms(1), of bw], of m]
    by (auto simp: carquet_rle_decode_all_def)
  obtain ext where l: "carquet_rle_decode_levels d n bw m =
      Some (map ucast (take (nat m) (dec_stream (carquet_rle_decoder_init d n bw))) @ ext)"
    using decode_levels_stream [OF assms(1), of bw m] by blast
  show "\<exists>vs ext. carquet_rle_decode_all d n bw m = Some vs \<and>
      carquet_rle_decode_levels d n bw m = Some (map ucast vs @ ext) \<and> length vs + length ext \<le> nat m"
    using a l decode_levels_length [OF assms l] by auto
  show "carquet_rle_decode_all [3, 2, 5] 3 8 4 = Some []" by code_simp
  show "carquet_rle_decode_levels [3, 2, 5] 3 8 4 = Some [5]" by code_simp
qed

lemma decode_levels_extends_witness: "\<exists>vs. carquet_rle_decode_all [0x80] 1 1 7 = Some vs"
  using decode_levels_extends [of 1 "[0x80]" 1 7] by auto

text \<open>Decoding levels of width 1 straight to a validity bitmap is decoding the levels and setting
  bit j for every level j that is 1: the same number of levels, as many set bits as the count of
  present values says, every other bit clear, on well-formed and broken input alike.\<close>

theorem decode_to_bitmap_equiv:
  assumes "n \<le> length d" and "0 < n" and "0 < m" and "(nat m + 7) div 8 \<le> length bm"
  shows "\<exists>levels bm'. carquet_rle_decode_levels d n 1 m = Some levels \<and>
    carquet_rle_decode_to_bitmap d n bm m = Some (bm', length levels, count_list levels 1) \<and>
    (\<forall>j < 8 * ((nat m + 7) div 8). bit (bm' ! (j div 8)) (j mod 8) \<longleftrightarrow> j < length levels \<and> levels ! j = 1)"
  using decode_to_bitmap_correct [OF assms(1,4,2,3)] unfolding bitmap_of_def by blast

lemma decode_to_bitmap_equiv_witness:
  "\<exists>levels bm'. carquet_rle_decode_levels [3, 0x0D] 2 1 8 = Some levels \<and>
    carquet_rle_decode_to_bitmap [3, 0x0D] 2 [0xFF] 8 = Some (bm', length levels, count_list levels 1)"
  using decode_to_bitmap_equiv [of 2 "[3, 0x0D]" 8 "[0xFF]"] by auto

text \<open>The decoder of length-prefixed levels checks the prefix in 32 bits: below 2^32 - 4 it never
  reads outside its input and decodes exactly the bytes the prefix says, or returns -1 when they are
  not there; a prefix of 0xFFFFFFFC passes the check and the decoder reads past the input.\<close>

theorem decode_prefixed_spec:
  assumes "n \<le> length d" and "4 \<le> n" and "carquet_read_u32_le d 0 = Some len" and "unat len < 2 ^ 32 - 4"
  shows "carquet_rle_decode_levels_prefixed d n bw m =
      (if 4 + unat len \<le> n
       then map_option (\<lambda>levels. (Inr levels, 4 + unat len)) (carquet_rle_decode_levels (drop 4 d) (unat len) bw m)
       else Some (Inl (), 0)) \<and>
    carquet_rle_decode_levels_prefixed d n bw m \<noteq> None \<and>
    carquet_rle_decode_levels_prefixed [0xFC, 0xFF, 0xFF, 0xFF] 4 1 1 = None"
proof -
  have w: "unat (4 + len) = 4 + unat len" using assms(4) by (subst unat_plus_if') simp
  have "4 + unat len \<le> n \<Longrightarrow> carquet_rle_decode_levels (drop 4 d) (unat len) bw m \<noteq> None"
  proof -
    assume "4 + unat len \<le> n"
    then have "unat len \<le> length (drop 4 d)" using assms(1) by simp
    from decode_levels_stream [OF this, of bw m] show ?thesis by fastforce
  qed
  moreover have "carquet_rle_decode_levels_prefixed [0xFC, 0xFF, 0xFF, 0xFF] 4 1 1 = None"
  proof -
    have "header_loop 5 [] k 0 0 0 = None" if "0 < k" for k
      using that header_loop.simps(2) [of 4 "[]" k 0 0 0] by (simp add: rd_def)
    then have "carquet_rle_decode_levels [] 4294967292 1 1 = None"
      by (simp add: carquet_rle_decode_levels_def levels_loop.simps)
    moreover have "carquet_read_u32_le [0xFC, 0xFF, 0xFF, 0xFF] 0 = Some 0xFFFFFFFC" by code_simp
    ultimately show ?thesis by (simp add: carquet_rle_decode_levels_prefixed_def)
  qed
  moreover have "carquet_rle_decode_levels_prefixed d n bw m =
      (if 4 + unat len \<le> n
       then map_option (\<lambda>levels. (Inr levels, 4 + unat len)) (carquet_rle_decode_levels (drop 4 d) (unat len) bw m)
       else Some (Inl (), 0))"
    using assms(2,3) w
    by (cases "carquet_rle_decode_levels (drop 4 d) (unat len) bw m") (simp_all add: carquet_rle_decode_levels_prefixed_def)
  ultimately show ?thesis by simp
qed

lemma decode_prefixed_spec_witness:
  "carquet_rle_decode_levels_prefixed [2, 0, 0, 0, 4, 1] 6 1 9 =
     map_option (\<lambda>levels. (Inr levels, 6)) (carquet_rle_decode_levels [4, 1] 2 1 9)"
  using decode_prefixed_spec [of 6 "[2, 0, 0, 0, 4, 1]" 2 1 9]
  by (simp add: carquet_read_u32_le_def rd_def)

end
