(* ===== verification/Buffer.thy ===== *)
theory Buffer
  imports Endian
begin

text \<open>
  Component src/core/buffer.c and buffer.h: the growable byte buffer every encoder writes to and
  the bounds-checked reader the Thrift decoder reads from.

  A buffer is the C struct: the block it points to (None is the NULL pointer), the bytes in use,
  the capacity and the ownership flag. The allocator is a parameter: whether a request for a
  number of bytes succeeds, and what the indeterminate bytes of a new block are.
\<close>

section \<open>The allocator\<close>

record allocator =
  alloc_ok :: "nat \<Rightarrow> bool"
  fresh :: "nat \<Rightarrow> u8"

text \<open>
  \<open>carquet_mem_realloc\<close> keeps the old bytes, up to the new size, and leaves the rest
  indeterminate; on failure it returns NULL and the old block stays. A request is a \<open>size_t\<close>.
\<close>

definition block_bytes :: "u8 list option \<Rightarrow> u8 list" where
  "block_bytes d = (case d of None \<Rightarrow> [] | Some xs \<Rightarrow> xs)"

definition carquet_mem_realloc :: "allocator \<Rightarrow> u8 list option \<Rightarrow> nat \<Rightarrow> u8 list option" where
  "carquet_mem_realloc A d n =
     (if alloc_ok A n \<and> n \<le> SIZE_MAX then Some (take n (block_bytes d) @ map (fresh A) [length (block_bytes d)..<n])
      else None)"

text \<open>
  \<open>carquet_mem_malloc\<close> returns a block of indeterminate bytes; \<open>carquet_mem_calloc\<close> checks the
  product for overflow and zeroes the block.
\<close>

definition carquet_mem_malloc :: "allocator \<Rightarrow> nat \<Rightarrow> u8 list option" where
  "carquet_mem_malloc A n =
     (if alloc_ok A n \<and> n \<le> SIZE_MAX then Some (map (fresh A) [0..<n]) else None)"

definition carquet_mem_calloc :: "allocator \<Rightarrow> nat \<Rightarrow> nat \<Rightarrow> u8 list option" where
  "carquet_mem_calloc A nmemb n =
     (if nmemb \<noteq> 0 \<and> n > SIZE_MAX div nmemb then None
      else let all = nmemb * n in
        map_option (\<lambda>p. replicate all 0 @ drop all p) (carquet_mem_malloc A all))"

section \<open>The buffer and its operations\<close>

record carquet_buffer =
  buf_data :: "u8 list option"
  buf_size :: nat
  buf_capacity :: nat
  buf_owns :: bool

definition CARQUET_BUFFER_DEFAULT_CAPACITY :: nat where
  "CARQUET_BUFFER_DEFAULT_CAPACITY = 4096"

definition next_power_of_two :: "nat \<Rightarrow> nat" where
  "next_power_of_two n =
     (if n = 0 then 1
      else let
        n0 = (of_nat (n - 1) :: u64);
        n1 = n0 OR drop_bit 1 n0;
        n2 = n1 OR drop_bit 2 n1;
        n4 = n2 OR drop_bit 4 n2;
        n8 = n4 OR drop_bit 8 n4;
        n16 = n8 OR drop_bit 16 n8;
        n32 = n16 OR drop_bit 32 n16
      in unat (n32 + 1))"

definition add_overflows_size :: "nat \<Rightarrow> nat \<Rightarrow> nat option" where
  "add_overflows_size a b = (if a > SIZE_MAX - b then None else Some (a + b))"

definition ensure_capacity :: "allocator \<Rightarrow> carquet_buffer \<Rightarrow> nat \<Rightarrow> carquet_status \<times> carquet_buffer" where
  "ensure_capacity A buf needed =
     (if needed \<le> buf_capacity buf then (CARQUET_OK, buf)
      else if \<not> buf_owns buf \<and> buf_data buf \<noteq> None then (CARQUET_ERROR_OUT_OF_MEMORY, buf)
      else let
        cap0 = next_power_of_two needed;
        cap1 = (if cap0 < needed then needed else cap0);
        cap2 = (if cap1 < CARQUET_BUFFER_DEFAULT_CAPACITY then CARQUET_BUFFER_DEFAULT_CAPACITY else cap1)
      in case carquet_mem_realloc A (buf_data buf) cap2 of
           None \<Rightarrow> (CARQUET_ERROR_OUT_OF_MEMORY, buf)
         | Some d \<Rightarrow> (CARQUET_OK, buf\<lparr>buf_data := Some d, buf_capacity := cap2, buf_owns := True\<rparr>))"

definition carquet_buffer_init :: carquet_buffer where
  "carquet_buffer_init = \<lparr>buf_data = None, buf_size = 0, buf_capacity = 0, buf_owns = True\<rparr>"

definition carquet_buffer_reserve :: "allocator \<Rightarrow> carquet_buffer \<Rightarrow> nat \<Rightarrow> carquet_status \<times> carquet_buffer" where
  "carquet_buffer_reserve A buf cap = ensure_capacity A buf cap"

definition carquet_buffer_init_capacity :: "allocator \<Rightarrow> nat \<Rightarrow> carquet_status \<times> carquet_buffer" where
  "carquet_buffer_init_capacity A cap =
     (if cap > 0 then carquet_buffer_reserve A carquet_buffer_init cap
      else (CARQUET_OK, carquet_buffer_init))"

definition carquet_buffer_init_wrap :: "u8 list \<Rightarrow> carquet_buffer" where
  "carquet_buffer_init_wrap d =
     \<lparr>buf_data = Some d, buf_size = length d, buf_capacity = length d, buf_owns = False\<rparr>"

text \<open>\<open>memcpy\<close> or \<open>memset\<close> into the block at an offset.\<close>

definition block_write :: "u8 list option \<Rightarrow> nat \<Rightarrow> u8 list \<Rightarrow> u8 list option" where
  "block_write d off bs = map_option (\<lambda>xs. take off xs @ bs @ drop (off + length bs) xs) d"

definition carquet_buffer_init_copy :: "allocator \<Rightarrow> u8 list option \<Rightarrow> nat \<Rightarrow> carquet_status \<times> carquet_buffer" where
  "carquet_buffer_init_copy A d n =
     (case carquet_buffer_init_capacity A n of (status, buf) \<Rightarrow>
        if status \<noteq> CARQUET_OK then (status, buf)
        else if d \<noteq> None \<and> n > 0 then
          (CARQUET_OK, buf\<lparr>buf_data := block_write (buf_data buf) 0 (take n (block_bytes d)), buf_size := n\<rparr>)
        else (CARQUET_OK, buf))"

definition carquet_buffer_destroy :: "carquet_buffer \<Rightarrow> carquet_buffer" where
  "carquet_buffer_destroy buf =
     buf\<lparr>buf_data := None, buf_size := 0, buf_capacity := 0, buf_owns := True\<rparr>"

definition carquet_buffer_clear :: "carquet_buffer \<Rightarrow> carquet_buffer" where
  "carquet_buffer_clear buf = buf\<lparr>buf_size := 0\<rparr>"

definition carquet_buffer_resize :: "allocator \<Rightarrow> carquet_buffer \<Rightarrow> nat \<Rightarrow> carquet_status \<times> carquet_buffer" where
  "carquet_buffer_resize A buf n =
     (case ensure_capacity A buf n of (status, buf') \<Rightarrow>
        if status \<noteq> CARQUET_OK then (status, buf')
        else let buf'' = (if n > buf_size buf'
               then buf'\<lparr>buf_data := block_write (buf_data buf') (buf_size buf') (replicate (n - buf_size buf') 0)\<rparr>
               else buf')
             in (CARQUET_OK, buf''\<lparr>buf_size := n\<rparr>))"

text \<open>None is the failed assertion \<open>buf->owns_data\<close>: a wrapped block is not the buffer's to free.\<close>

definition carquet_buffer_shrink_to_fit ::
  "allocator \<Rightarrow> carquet_buffer \<Rightarrow> (carquet_status \<times> carquet_buffer) option" where
  "carquet_buffer_shrink_to_fit A buf =
     (if \<not> buf_owns buf then None
      else if buf_size buf = 0 then Some (CARQUET_OK, buf\<lparr>buf_data := None, buf_capacity := 0\<rparr>)
      else if buf_size buf < buf_capacity buf then
        (case carquet_mem_realloc A (buf_data buf) (buf_size buf) of
           None \<Rightarrow> Some (CARQUET_OK, buf)
         | Some d \<Rightarrow> Some (CARQUET_OK, buf\<lparr>buf_data := Some d, buf_capacity := buf_size buf\<rparr>))
      else Some (CARQUET_OK, buf))"

definition carquet_buffer_append :: "allocator \<Rightarrow> carquet_buffer \<Rightarrow> u8 list \<Rightarrow> carquet_status \<times> carquet_buffer" where
  "carquet_buffer_append A buf bs =
     (if length bs = 0 then (CARQUET_OK, buf)
      else case add_overflows_size (buf_size buf) (length bs) of
        None \<Rightarrow> (CARQUET_ERROR_OUT_OF_MEMORY, buf)
      | Some needed \<Rightarrow>
         (case ensure_capacity A buf needed of (status, buf') \<Rightarrow>
            if status \<noteq> CARQUET_OK then (status, buf')
            else (CARQUET_OK, buf'\<lparr>buf_data := block_write (buf_data buf') (buf_size buf') bs,
                                   buf_size := buf_size buf' + length bs\<rparr>)))"

definition carquet_buffer_append_byte :: "allocator \<Rightarrow> carquet_buffer \<Rightarrow> u8 \<Rightarrow> carquet_status \<times> carquet_buffer" where
  "carquet_buffer_append_byte A buf b = carquet_buffer_append A buf [b]"

definition carquet_buffer_append_fill ::
  "allocator \<Rightarrow> carquet_buffer \<Rightarrow> u8 \<Rightarrow> nat \<Rightarrow> carquet_status \<times> carquet_buffer" where
  "carquet_buffer_append_fill A buf v count =
     (if count = 0 then (CARQUET_OK, buf)
      else case add_overflows_size (buf_size buf) count of
        None \<Rightarrow> (CARQUET_ERROR_OUT_OF_MEMORY, buf)
      | Some needed \<Rightarrow>
         (case ensure_capacity A buf needed of (status, buf') \<Rightarrow>
            if status \<noteq> CARQUET_OK then (status, buf')
            else (CARQUET_OK, buf'\<lparr>buf_data := block_write (buf_data buf') (buf_size buf') (replicate count v),
                                   buf_size := buf_size buf' + count\<rparr>)))"

definition carquet_buffer_append_u16_le :: "allocator \<Rightarrow> carquet_buffer \<Rightarrow> u16 \<Rightarrow> carquet_status \<times> carquet_buffer" where
  "carquet_buffer_append_u16_le A buf v = carquet_buffer_append A buf (carquet_write_u16_le v)"

definition carquet_buffer_append_u32_le :: "allocator \<Rightarrow> carquet_buffer \<Rightarrow> u32 \<Rightarrow> carquet_status \<times> carquet_buffer" where
  "carquet_buffer_append_u32_le A buf v = carquet_buffer_append A buf (carquet_write_u32_le v)"

definition carquet_buffer_append_u64_le :: "allocator \<Rightarrow> carquet_buffer \<Rightarrow> u64 \<Rightarrow> carquet_status \<times> carquet_buffer" where
  "carquet_buffer_append_u64_le A buf v = carquet_buffer_append A buf (carquet_write_u64_le v)"

text \<open>A float or double is appended as its bit pattern.\<close>

definition carquet_buffer_append_f32_le :: "allocator \<Rightarrow> carquet_buffer \<Rightarrow> u32 \<Rightarrow> carquet_status \<times> carquet_buffer" where
  "carquet_buffer_append_f32_le A buf bits = carquet_buffer_append A buf (carquet_write_u32_le bits)"

definition carquet_buffer_append_f64_le :: "allocator \<Rightarrow> carquet_buffer \<Rightarrow> u64 \<Rightarrow> carquet_status \<times> carquet_buffer" where
  "carquet_buffer_append_f64_le A buf bits = carquet_buffer_append A buf (carquet_write_u64_le bits)"

text \<open>\<open>carquet_buffer_advance\<close> returns a pointer to the reserved bytes: here its offset, None for NULL.\<close>

definition carquet_buffer_advance :: "allocator \<Rightarrow> carquet_buffer \<Rightarrow> nat \<Rightarrow> nat option \<times> carquet_buffer" where
  "carquet_buffer_advance A buf n =
     (if n = 0 then (None, buf)
      else case add_overflows_size (buf_size buf) n of
        None \<Rightarrow> (None, buf)
      | Some needed \<Rightarrow>
         (case ensure_capacity A buf needed of (status, buf') \<Rightarrow>
            if status \<noteq> CARQUET_OK then (None, buf')
            else (Some (buf_size buf'), buf'\<lparr>buf_size := buf_size buf' + n\<rparr>)))"

definition carquet_buffer_detach :: "carquet_buffer \<Rightarrow> u8 list option \<times> nat \<times> carquet_buffer" where
  "carquet_buffer_detach buf =
     (buf_data buf, buf_size buf, buf\<lparr>buf_data := None, buf_size := 0, buf_capacity := 0, buf_owns := True\<rparr>)"

definition carquet_buffer_swap :: "carquet_buffer \<times> carquet_buffer \<Rightarrow> carquet_buffer \<times> carquet_buffer" where
  "carquet_buffer_swap ab = (snd ab, fst ab)"

section \<open>The reader\<close>

record carquet_buffer_reader =
  rdr_data :: "u8 list"
  rdr_size :: nat
  rdr_pos :: nat

definition carquet_buffer_reader_init_data :: "u8 list \<Rightarrow> nat \<Rightarrow> carquet_buffer_reader" where
  "carquet_buffer_reader_init_data d n = \<lparr>rdr_data = d, rdr_size = n, rdr_pos = 0\<rparr>"

definition carquet_buffer_reader_init :: "carquet_buffer option \<Rightarrow> carquet_buffer_reader" where
  "carquet_buffer_reader_init b =
     \<lparr>rdr_data = (case b of None \<Rightarrow> [] | Some buf \<Rightarrow> block_bytes (buf_data buf)),
      rdr_size = (case b of None \<Rightarrow> 0 | Some buf \<Rightarrow> buf_size buf),
      rdr_pos = 0\<rparr>"

definition carquet_buffer_reader_remaining :: "carquet_buffer_reader \<Rightarrow> nat" where
  "carquet_buffer_reader_remaining r = sz (rdr_size r + 2 ^ 64 - rdr_pos r)"

text \<open>The sum is a \<open>size_t\<close> sum, which wraps.\<close>

definition carquet_buffer_reader_has :: "carquet_buffer_reader \<Rightarrow> nat \<Rightarrow> bool" where
  "carquet_buffer_reader_has r n \<longleftrightarrow> sz (rdr_pos r + n) \<le> rdr_size r"

text \<open>
  A read returns the status on the left when it fails, leaving the reader as it was, and the
  value with the advanced reader on the right; None is a read outside the data.
\<close>

definition carquet_buffer_reader_read ::
  "carquet_buffer_reader \<Rightarrow> nat \<Rightarrow> (carquet_status + u8 list \<times> carquet_buffer_reader) option" where
  "carquet_buffer_reader_read r n =
     (if \<not> carquet_buffer_reader_has r n then Some (Inl CARQUET_ERROR_FILE_TRUNCATED)
      else do {
        bs \<leftarrow> rd_bytes (rdr_data r) (rdr_pos r) n;
        Some (Inr (bs, r\<lparr>rdr_pos := rdr_pos r + n\<rparr>))
      })"

definition carquet_buffer_reader_skip ::
  "carquet_buffer_reader \<Rightarrow> nat \<Rightarrow> carquet_status \<times> carquet_buffer_reader" where
  "carquet_buffer_reader_skip r n =
     (if \<not> carquet_buffer_reader_has r n then (CARQUET_ERROR_FILE_TRUNCATED, r)
      else (CARQUET_OK, r\<lparr>rdr_pos := sz (rdr_pos r + n)\<rparr>))"

definition carquet_buffer_reader_read_byte ::
  "carquet_buffer_reader \<Rightarrow> (carquet_status + u8 \<times> carquet_buffer_reader) option" where
  "carquet_buffer_reader_read_byte r =
     (if \<not> carquet_buffer_reader_has r 1 then Some (Inl CARQUET_ERROR_FILE_TRUNCATED)
      else do {
        b \<leftarrow> rd (rdr_data r) (rdr_pos r);
        Some (Inr (b, r\<lparr>rdr_pos := rdr_pos r + 1\<rparr>))
      })"

definition carquet_buffer_reader_read_u16_le ::
  "carquet_buffer_reader \<Rightarrow> (carquet_status + u16 \<times> carquet_buffer_reader) option" where
  "carquet_buffer_reader_read_u16_le r =
     (if \<not> carquet_buffer_reader_has r 2 then Some (Inl CARQUET_ERROR_FILE_TRUNCATED)
      else do {
        v \<leftarrow> carquet_read_u16_le (rdr_data r) (rdr_pos r);
        Some (Inr (v, r\<lparr>rdr_pos := rdr_pos r + 2\<rparr>))
      })"

definition carquet_buffer_reader_read_u32_le ::
  "carquet_buffer_reader \<Rightarrow> (carquet_status + u32 \<times> carquet_buffer_reader) option" where
  "carquet_buffer_reader_read_u32_le r =
     (if \<not> carquet_buffer_reader_has r 4 then Some (Inl CARQUET_ERROR_FILE_TRUNCATED)
      else do {
        v \<leftarrow> carquet_read_u32_le (rdr_data r) (rdr_pos r);
        Some (Inr (v, r\<lparr>rdr_pos := rdr_pos r + 4\<rparr>))
      })"

definition carquet_buffer_reader_read_u64_le ::
  "carquet_buffer_reader \<Rightarrow> (carquet_status + u64 \<times> carquet_buffer_reader) option" where
  "carquet_buffer_reader_read_u64_le r =
     (if \<not> carquet_buffer_reader_has r 8 then Some (Inl CARQUET_ERROR_FILE_TRUNCATED)
      else do {
        v \<leftarrow> carquet_read_u64_le (rdr_data r) (rdr_pos r);
        Some (Inr (v, r\<lparr>rdr_pos := rdr_pos r + 8\<rparr>))
      })"

section \<open>Contents and well-formedness\<close>

definition contents :: "carquet_buffer \<Rightarrow> u8 list" where
  "contents buf = take (buf_size buf) (block_bytes (buf_data buf))"

text \<open>
  The invariant: the size is within the capacity, and the block is exactly as long as the
  capacity says. Writes are spliced into the block, so a write past its end would break the
  invariant: that every operation keeps it says that no operation writes out of bounds.
\<close>

definition buf_wf :: "carquet_buffer \<Rightarrow> bool" where
  "buf_wf buf \<longleftrightarrow> buf_size buf \<le> buf_capacity buf \<and> buf_capacity buf \<le> SIZE_MAX \<and>
     length (block_bytes (buf_data buf)) = buf_capacity buf"

lemma buf_wfD:
  "buf_wf buf \<Longrightarrow> buf_size buf \<le> buf_capacity buf"
  "buf_wf buf \<Longrightarrow> buf_capacity buf \<le> SIZE_MAX"
  "buf_wf buf \<Longrightarrow> length (block_bytes (buf_data buf)) = buf_capacity buf"
  by (simp_all add: buf_wf_def)

lemma block_bytes_simps [simp]: "block_bytes None = []" "block_bytes (Some xs) = xs"
  by (simp_all add: block_bytes_def)

lemma block_bytes_write:
  "length bs > 0 \<Longrightarrow> off + length bs \<le> length (block_bytes d) \<Longrightarrow>
     block_bytes (block_write d off bs) =
       take off (block_bytes d) @ bs @ drop (off + length bs) (block_bytes d)"
  by (cases d) (auto simp: block_write_def)

lemma length_contents: "buf_wf buf \<Longrightarrow> length (contents buf) = buf_size buf"
  by (simp add: contents_def buf_wf_def)

lemma realloc_Some:
  "carquet_mem_realloc A d n = Some d' \<Longrightarrow>
     length d' = n \<and> take (min n (length (block_bytes d))) d' = take n (block_bytes d) \<and> n \<le> SIZE_MAX"
  by (auto simp: carquet_mem_realloc_def min_def split: if_splits)

section \<open>The growth of the capacity\<close>

text \<open>One smearing step: bit \<open>k\<close> of the result is set when one of the next \<open>m\<close> bits of \<open>x\<close> is.\<close>

definition smears :: "u64 \<Rightarrow> nat \<Rightarrow> u64 \<Rightarrow> bool" where
  "smears x m y \<longleftrightarrow> (\<forall>k. bit y k \<longleftrightarrow> (\<exists>j<m. bit x (k + j)))"

lemma smears_step: "smears x m y \<Longrightarrow> n = m + m \<Longrightarrow> smears x n (y OR drop_bit m y)"
proof -
  assume y: "smears x m y" and n: "n = m + m"
  have "(\<exists>j<m. bit x (k + j)) \<or> (\<exists>j<m. bit x (k + m + j)) \<longleftrightarrow> (\<exists>j<n. bit x (k + j))" for k
  proof
    assume "\<exists>j<n. bit x (k + j)"
    then obtain j where j: "j < m + m" "bit x (k + j)" using n by auto
    show "(\<exists>j<m. bit x (k + j)) \<or> (\<exists>j<m. bit x (k + m + j))"
    proof (cases "j < m")
      case False
      then have "bit x (k + m + (j - m)) \<and> j - m < m" using j by simp
      then show ?thesis by blast
    qed (use j in blast)
  next
    assume "(\<exists>j<m. bit x (k + j)) \<or> (\<exists>j<m. bit x (k + m + j))"
    then show "\<exists>j<n. bit x (k + j)" using n
      by (metis add.assoc add_strict_left_mono trans_less_add1)
  qed
  then show ?thesis using y by (auto simp: smears_def bit_or_iff bit_drop_bit_eq add.commute add.left_commute)
qed

lemma smears_mask:
  assumes "smears x 64 y" and "2 ^ h \<le> unat x" and "unat x < 2 ^ Suc h" and "h < 64"
  shows "y = mask (Suc h)"
proof (rule bit_word_eqI)
  fix k assume "k < LENGTH(64)"
  have bit_x: "bit x i \<longleftrightarrow> odd (unat x div 2 ^ i)" for i
  proof -
    have "bit (unat x) i = bit x i" by (simp add: bit_unsigned_iff)
    then show ?thesis by (simp add: bit_iff_odd)
  qed
  have "unat x div 2 ^ h = 1" using assms(2,3) by (simp add: div_nat_eqI)
  then have top: "bit x h" by (simp add: bit_x)
  have high: "\<not> bit x i" if "h < i" for i
  proof -
    have "(2::nat) ^ Suc h \<le> 2 ^ i" using that by (intro power_increasing) auto
    then show ?thesis using assms(3) by (simp add: bit_x)
  qed
  show "bit y k = bit (mask (Suc h) :: u64) k"
  proof (cases "k \<le> h")
    case True
    then have "bit x (k + (h - k)) \<and> h - k < 64" using top assms(4) by simp
    then show ?thesis using True assms(1) \<open>k < LENGTH(64)\<close> by (auto simp: smears_def bit_mask_iff)
  next
    case False
    then show ?thesis using high assms(1) by (auto simp: smears_def bit_mask_iff)
  qed
qed

lemma next_power_of_two_smears:
  assumes "0 < n" and "n \<le> SIZE_MAX"
  obtains y where "smears (of_nat (n - 1)) 64 y" and "next_power_of_two n = unat (y + 1)"
proof -
  define x where "x = (of_nat (n - 1) :: u64)"
  have "smears x 1 x" by (simp add: smears_def)
  note smears_step [OF smears_step [OF smears_step [OF smears_step [OF smears_step [OF smears_step [OF this]]]]], of 2 4 8 16 32 64, simplified]
  then show ?thesis using assms by (intro that) (simp_all add: x_def next_power_of_two_def Let_def)
qed

lemma next_power_of_two_correct:
  assumes "1 < n" and "n \<le> 2 ^ 63"
  shows "\<exists>e. next_power_of_two n = 2 ^ e \<and> n \<le> 2 ^ e \<and> 2 ^ e < 2 * n"
proof -
  define x where "x = (of_nat (n - 1) :: u64)"
  have ux: "unat x = n - 1" unfolding x_def unat_of_nat using assms by (intro mod_less) simp
  have "1 \<le> n - 1" using assms(1) by simp
  then obtain h where h: "2 ^ h \<le> n - 1" "n - 1 < 2 ^ Suc h"
    using ex_power_ivl1 [of 2 "n - 1"] by auto
  have "(2::nat) ^ h < 2 ^ 63" using h assms by linarith
  then have h63: "h < 63" by (simp only: power_strict_increasing_iff)
  obtain y where y: "smears x 64 y" "next_power_of_two n = unat (y + 1)"
    using next_power_of_two_smears [of n] assms by (auto simp: x_def SIZE_MAX_def)
  have "y + 1 = 2 ^ Suc h"
    using smears_mask [OF y(1), of h] h h63 ux by (simp add: mask_eq_exp_minus_1)
  moreover have "unat (2 ^ Suc h :: u64) = 2 ^ Suc h"
  proof -
    have "(2 ^ Suc h :: u64) = of_nat (2 ^ Suc h)" by (simp only: of_nat_power of_nat_numeral)
    moreover have "(2::nat) ^ Suc h < 2 ^ 64" using h63 by (intro power_strict_increasing) auto
    ultimately show ?thesis unfolding unat_of_nat by (simp only: unat_of_nat) simp
  qed
  ultimately have "next_power_of_two n = 2 ^ Suc h" using y by simp
  then show ?thesis using h assms by (intro exI [of _ "Suc h"]) auto
qed
lemma next_power_of_two_le_max: "next_power_of_two n \<le> SIZE_MAX"
proof (cases "n = 0")
  case False
  have "unat (w :: u64) \<le> SIZE_MAX" for w
    using unsigned_less [of w, where ?'a = nat] by (simp add: SIZE_MAX_def)
  then show ?thesis using False by (simp add: next_power_of_two_def Let_def)
qed (simp add: next_power_of_two_def SIZE_MAX_def)

lemma ensure_capacity_cases:
  assumes "buf_wf buf" and "ensure_capacity A buf needed = (status, buf')"
  shows "buf_wf buf' \<and> contents buf' = contents buf \<and> buf_size buf' = buf_size buf \<and>
     (status = CARQUET_OK \<longrightarrow> needed \<le> buf_capacity buf') \<and>
     (status \<noteq> CARQUET_OK \<longrightarrow> buf' = buf \<and> status = CARQUET_ERROR_OUT_OF_MEMORY)"
proof -
  define cap where "cap = (let c0 = next_power_of_two needed;
      c1 = (if c0 < needed then needed else c0)
    in if c1 < CARQUET_BUFFER_DEFAULT_CAPACITY then CARQUET_BUFFER_DEFAULT_CAPACITY else c1)"
  have cap: "needed \<le> cap" by (auto simp: cap_def Let_def)
  consider (room) "needed \<le> buf_capacity buf" "status = CARQUET_OK" "buf' = buf"
    | (fail) "status = CARQUET_ERROR_OUT_OF_MEMORY" "buf' = buf"
    | (grow) d where "buf_capacity buf < needed" "carquet_mem_realloc A (buf_data buf) cap = Some d"
        "status = CARQUET_OK" "buf' = buf\<lparr>buf_data := Some d, buf_capacity := cap, buf_owns := True\<rparr>"
    using assms(2) unfolding ensure_capacity_def Let_def cap_def
    by (auto split: if_splits option.splits)
  then show ?thesis
  proof cases
    case grow
    define old where "old = block_bytes (buf_data buf)"
    have old: "length old = buf_capacity buf" "buf_size buf \<le> length old"
      using buf_wfD [OF assms(1)] by (simp_all add: old_def)
    have d: "length d = cap" "take (min cap (length old)) d = take cap old" "cap \<le> SIZE_MAX"
      using realloc_Some [OF grow(2)] by (simp_all add: old_def)
    have "take (length old) d = old" using d(2) old grow(1) cap by (simp add: min_def)
    then have "take (buf_size buf) d = take (buf_size buf) old"
      using old(2) by (metis min.absorb1 take_take)
    then show ?thesis
      using grow cap d old by (simp add: buf_wf_def contents_def old_def)
  qed (use assms(1) in auto)
qed

text \<open>What a client of the buffer relies on.\<close>

lemma append_OK:
  assumes "buf_wf buf" and "carquet_buffer_append A buf bs = (CARQUET_OK, buf')"
  shows "buf_wf buf' \<and> contents buf' = contents buf @ bs"
proof (cases "bs = []")
  case True
  then show ?thesis using assms by (simp add: carquet_buffer_append_def)
next
  case False
  then obtain b1 where e: "ensure_capacity A buf (buf_size buf + length bs) = (CARQUET_OK, b1)"
    and b': "buf' = b1\<lparr>buf_data := block_write (buf_data b1) (buf_size b1) bs, buf_size := buf_size b1 + length bs\<rparr>"
    using assms(2)
    by (auto simp: carquet_buffer_append_def add_overflows_size_def split: prod.splits if_splits)
  note b1 = ensure_capacity_cases [OF assms(1) e]
  have "buf_size b1 + length bs \<le> length (block_bytes (buf_data b1))"
    using b1 by (simp add: buf_wf_def)
  then show ?thesis
    using b1 False by (auto simp: b' buf_wf_def contents_def block_bytes_write)
qed

lemma append_error:
  assumes "buf_wf buf" and "carquet_buffer_append A buf bs = (status, buf')" and "status \<noteq> CARQUET_OK"
  shows "buf' = buf \<and> status = CARQUET_ERROR_OUT_OF_MEMORY"
proof (cases "add_overflows_size (buf_size buf) (length bs)")
  case None
  then show ?thesis using assms by (auto simp: carquet_buffer_append_def split: if_splits)
next
  case (Some needed)
  obtain st b1 where e: "ensure_capacity A buf needed = (st, b1)" by fastforce
  then show ?thesis
    using ensure_capacity_cases [OF assms(1) e] assms(2,3) Some
    by (auto simp: carquet_buffer_append_def split: if_splits)
qed

text \<open>A buffer that can always grow: its own, with an allocator that does not fail.\<close>

definition buf_growable :: "allocator \<Rightarrow> carquet_buffer \<Rightarrow> bool" where
  "buf_growable A buf \<longleftrightarrow> buf_wf buf \<and> (\<forall>n. alloc_ok A n) \<and> (buf_owns buf \<or> buf_data buf = None)"

lemma append_grows:
  assumes "buf_growable A buf" and "length (contents buf) + length bs \<le> SIZE_MAX"
  obtains buf' where "carquet_buffer_append A buf bs = (CARQUET_OK, buf')"
    and "buf_growable A buf'" and "contents buf' = contents buf @ bs"
proof -
  obtain status buf' where r: "carquet_buffer_append A buf bs = (status, buf')" by fastforce
  have wf: "buf_wf buf" using assms(1) by (simp add: buf_growable_def)
  have room: "\<not> SIZE_MAX - length bs < buf_size buf" "buf_size buf + length bs \<le> SIZE_MAX"
    using assms(2) by (auto simp: length_contents [OF wf])
  have "buf_capacity buf = 0 \<or> buf_data buf \<noteq> None" using wf by (auto simp: buf_wf_def)
  moreover have "next_power_of_two k \<le> 18446744073709551615" for k
    using next_power_of_two_le_max [of k] by (simp add: SIZE_MAX_def)
  ultimately have "status = CARQUET_OK \<and> (buf_owns buf' \<or> buf_data buf' = None)"
    using r room assms(1)
    by (auto simp: carquet_buffer_append_def add_overflows_size_def ensure_capacity_def Let_def
        buf_growable_def carquet_mem_realloc_def CARQUET_BUFFER_DEFAULT_CAPACITY_def SIZE_MAX_def
        split: if_splits)
  then show ?thesis
    using that append_OK [OF wf] r assms(1) by (auto simp: buf_growable_def)
qed


section \<open>The byte sink\<close>

text \<open>
  What the encoders need of the buffer: an append either succeeds and adds exactly its bytes, or
  fails and changes nothing; and while there is room it succeeds. \<open>room s n\<close> says that \<open>n\<close>
  more bytes fit.
\<close>

locale byte_sink =
  fixes put :: "'s \<Rightarrow> u8 list \<Rightarrow> carquet_status \<times> 's"
    and out :: "'s \<Rightarrow> u8 list"
    and wf :: "'s \<Rightarrow> bool"
    and room :: "'s \<Rightarrow> nat \<Rightarrow> bool"
  assumes put_OK: "wf s \<Longrightarrow> put s bs = (CARQUET_OK, s') \<Longrightarrow> wf s' \<and> out s' = out s @ bs"
    and put_error: "wf s \<Longrightarrow> put s bs = (st, s') \<Longrightarrow> st \<noteq> CARQUET_OK \<Longrightarrow> s' = s"
    and put_room: "wf s \<Longrightarrow> room s (length bs + n) \<Longrightarrow>
      \<exists>s'. put s bs = (CARQUET_OK, s') \<and> room s' n"
    and room_mono: "room s n \<Longrightarrow> m \<le> n \<Longrightarrow> room s m"
begin

text \<open>The sink after a sequence of appends whose status is ignored.\<close>

fun puts :: "'s \<Rightarrow> u8 list list \<Rightarrow> 's" where
  "puts s [] = s"
| "puts s (bs # bss) = puts (snd (put s bs)) bss"

lemma put_wf: "wf s \<Longrightarrow> wf (snd (put s bs))"
  using put_OK put_error by (metis prod.collapse)

lemma put_room_OK:
  assumes "wf s" and "room s (length bs + n)"
  shows "fst (put s bs) = CARQUET_OK" and "wf (snd (put s bs))" and "out (snd (put s bs)) = out s @ bs"
    and "room (snd (put s bs)) n"
  using put_room [OF assms] put_OK [OF assms(1)] by auto

lemma puts_room:
  "wf s \<Longrightarrow> room s (length (concat bss) + n) \<Longrightarrow>
     wf (puts s bss) \<and> out (puts s bss) = out s @ concat bss \<and> room (puts s bss) n"
proof (induction bss arbitrary: s)
  case (Cons bs bss)
  then have "room s (length bs + (length (concat bss) + n))" by (simp add: add.assoc)
  then show ?case using Cons.IH Cons.prems(1) put_room_OK by force
qed simp

text \<open>Whatever happens, what was written before is still there.\<close>

lemma puts_prefix: "wf s \<Longrightarrow> wf (puts s bss) \<and> (\<exists>rest. out (puts s bss) = out s @ rest)"
proof (induction bss arbitrary: s)
  case (Cons bs bss)
  have "\<exists>rest. out (snd (put s bs)) = out s @ rest"
    using put_OK [OF Cons.prems] put_error [OF Cons.prems] by (metis append_Nil2 prod.collapse)
  then show ?case using Cons.IH [of "snd (put s bs)"] put_wf [OF Cons.prems] by auto
qed auto

end

definition buf_room :: "allocator \<Rightarrow> carquet_buffer \<Rightarrow> nat \<Rightarrow> bool" where
  "buf_room A buf n \<longleftrightarrow> buf_growable A buf \<and> length (contents buf) + n \<le> SIZE_MAX"

interpretation bsink: byte_sink "carquet_buffer_append A" contents buf_wf "buf_room A" for A
proof
  fix s and bs :: "u8 list" and n assume "buf_wf s" and room: "buf_room A s (length bs + n)"
  then have g: "buf_growable A s" and l: "length (contents s) + length bs \<le> SIZE_MAX"
    by (auto simp: buf_room_def)
  obtain s' where "carquet_buffer_append A s bs = (CARQUET_OK, s')" "buf_growable A s'" "contents s' = contents s @ bs"
    by (rule append_grows [OF g l])
  then show "\<exists>s'. carquet_buffer_append A s bs = (CARQUET_OK, s') \<and> buf_room A s' n"
    using room by (auto simp: buf_room_def)
qed (auto simp: buf_room_def dest: append_OK append_error)


section \<open>The reader's view of the data\<close>

text \<open>
  A C object has at most \<open>PTRDIFF_MAX\<close> bytes, so a reader over a real array has a size below
  \<open>2 ^ 63\<close>. \<open>unread\<close> is what the reader has left.
\<close>

definition reader_wf :: "carquet_buffer_reader \<Rightarrow> bool" where
  "reader_wf r \<longleftrightarrow> rdr_pos r \<le> rdr_size r \<and> rdr_size r \<le> length (rdr_data r) \<and> rdr_size r < 2 ^ 63"

definition unread :: "carquet_buffer_reader \<Rightarrow> u8 list" where
  "unread r = drop (rdr_pos r) (take (rdr_size r) (rdr_data r))"

lemma length_unread: "reader_wf r \<Longrightarrow> length (unread r) = rdr_size r - rdr_pos r"
  by (simp add: reader_wf_def unread_def)

lemma reader_has_iff: "reader_wf r \<Longrightarrow> n < 2 ^ 63 \<Longrightarrow> carquet_buffer_reader_has r n \<longleftrightarrow> n \<le> length (unread r)"
  unfolding reader_wf_def carquet_buffer_reader_has_def unread_def by (subst sz_id) auto

lemma reader_remaining_unread: "reader_wf r \<Longrightarrow> carquet_buffer_reader_remaining r = length (unread r)"
proof -
  assume wf: "reader_wf r"
  then have "rdr_size r + 2 ^ 64 - rdr_pos r = (rdr_size r - rdr_pos r) + 2 ^ 64"
    unfolding reader_wf_def by linarith
  then have "carquet_buffer_reader_remaining r = sz (rdr_size r - rdr_pos r)"
    unfolding carquet_buffer_reader_remaining_def sz_def by (simp only: mod_add_self2)
  also have "\<dots> = rdr_size r - rdr_pos r" using wf by (intro sz_id) (auto simp: reader_wf_def)
  finally show ?thesis using length_unread [OF wf] by simp
qed

lemma reader_advance:
  assumes "reader_wf r" and "n \<le> length (unread r)"
  shows "reader_wf (r\<lparr>rdr_pos := rdr_pos r + n\<rparr>)"
    and "unread (r\<lparr>rdr_pos := rdr_pos r + n\<rparr>) = drop n (unread r)"
  using assms by (auto simp: reader_wf_def unread_def add.commute)

lemma reader_read_byte_eq:
  "reader_wf r \<Longrightarrow> carquet_buffer_reader_read_byte r =
     (case unread r of [] \<Rightarrow> Some (Inl CARQUET_ERROR_FILE_TRUNCATED)
      | b # _ \<Rightarrow> Some (Inr (b, r\<lparr>rdr_pos := rdr_pos r + 1\<rparr>)))"
  using length_unread [of r]
  by (auto simp: carquet_buffer_reader_read_byte_def reader_has_iff split: list.splits)
    (auto simp: unread_def reader_wf_def drop_eq_Cons)

lemma reader_skip_eq:
  "reader_wf r \<Longrightarrow> n < 2 ^ 63 \<Longrightarrow> carquet_buffer_reader_skip r n =
     (if n \<le> length (unread r) then (CARQUET_OK, r\<lparr>rdr_pos := rdr_pos r + n\<rparr>)
      else (CARQUET_ERROR_FILE_TRUNCATED, r))"
  by (auto simp: carquet_buffer_reader_skip_def reader_has_iff sz_id reader_wf_def unread_def)

lemma reader_read_eq:
  assumes "reader_wf r" and "n < 2 ^ 63"
  shows "carquet_buffer_reader_read r n =
     (if n \<le> length (unread r) then Some (Inr (take n (unread r), r\<lparr>rdr_pos := rdr_pos r + n\<rparr>))
      else Some (Inl CARQUET_ERROR_FILE_TRUNCATED))"
proof (cases "n \<le> length (unread r)")
  case True
  then have "rdr_pos r + n \<le> rdr_size r" "rdr_size r \<le> length (rdr_data r)"
    using assms(1) by (auto simp: reader_wf_def unread_def)
  then have "take n (drop (rdr_pos r) (rdr_data r)) = take n (unread r)"
    by (simp add: unread_def drop_take)
  then show ?thesis
    using True assms \<open>rdr_pos r + n \<le> rdr_size r\<close> \<open>rdr_size r \<le> length (rdr_data r)\<close>
    by (simp add: carquet_buffer_reader_read_def reader_has_iff rd_bytes_in)
qed (use assms in \<open>simp add: carquet_buffer_reader_read_def reader_has_iff\<close>)

section \<open>The invariant under every operation\<close>

lemma init_wf: "buf_wf carquet_buffer_init"
  by (simp add: buf_wf_def carquet_buffer_init_def)

lemma wrap_wf: "length d \<le> SIZE_MAX \<Longrightarrow> buf_wf (carquet_buffer_init_wrap d)"
  by (simp add: buf_wf_def carquet_buffer_init_wrap_def)

lemma ensure_wf: "buf_wf buf \<Longrightarrow> buf_wf (snd (ensure_capacity A buf n))"
  using ensure_capacity_cases [of buf A n] by (cases "ensure_capacity A buf n") auto

lemma init_capacity_wf: "buf_wf (snd (carquet_buffer_init_capacity A n))"
  by (simp add: carquet_buffer_init_capacity_def carquet_buffer_reserve_def init_wf ensure_wf)

lemma length_block_write:
  "off + length bs \<le> length (block_bytes d) \<Longrightarrow> length (block_bytes (block_write d off bs)) = length (block_bytes d)"
  by (cases d) (auto simp: block_write_def)

lemma block_write_wf:
  "buf_wf buf \<Longrightarrow> off + length bs \<le> buf_capacity buf \<Longrightarrow> n \<le> buf_capacity buf \<Longrightarrow>
     buf_wf (buf\<lparr>buf_data := block_write (buf_data buf) off bs, buf_size := n\<rparr>)"
  by (simp add: buf_wf_def length_block_write)

lemma size_wf: "buf_wf buf \<Longrightarrow> n \<le> buf_capacity buf \<Longrightarrow> buf_wf (buf\<lparr>buf_size := n\<rparr>)"
  by (simp add: buf_wf_def)

lemma append_wf: "buf_wf buf \<Longrightarrow> buf_wf (snd (carquet_buffer_append A buf bs))"
  by (rule bsink.put_wf)

lemma ensure_capacityE:
  assumes "buf_wf buf"
  obtains status buf' where "ensure_capacity A buf n = (status, buf')" and "buf_wf buf'"
    and "buf_size buf' = buf_size buf" and "status = CARQUET_OK \<Longrightarrow> n \<le> buf_capacity buf'"
  using ensure_capacity_cases [OF assms] by (metis surj_pair)

lemma fill_wf:
  assumes "buf_wf buf"
  shows "buf_wf (snd (carquet_buffer_append_fill A buf v n))"
  by (rule ensure_capacityE [OF assms, of A "buf_size buf + n"])
    (simp add: carquet_buffer_append_fill_def add_overflows_size_def block_write_wf assms)

lemma advance_wf:
  assumes "buf_wf buf"
  shows "buf_wf (snd (carquet_buffer_advance A buf n))"
  by (rule ensure_capacityE [OF assms, of A "buf_size buf + n"])
    (simp add: carquet_buffer_advance_def add_overflows_size_def size_wf assms)

lemma resize_wf:
  assumes "buf_wf buf"
  shows "buf_wf (snd (carquet_buffer_resize A buf n))"
  by (rule ensure_capacityE [OF assms, of A n])
    (simp add: carquet_buffer_resize_def block_write_wf size_wf)

lemma copy_wf:
  assumes "n \<le> length d"
  shows "buf_wf (snd (carquet_buffer_init_copy A (Some d) n))"
  by (rule ensure_capacityE [OF init_wf, of A n])
    (use assms in \<open>simp add: carquet_buffer_init_copy_def carquet_buffer_init_capacity_def carquet_buffer_reserve_def
      block_write_wf init_wf\<close>)

lemma shrink_wf:
  assumes "buf_wf buf"
  shows "if buf_owns buf
    then \<exists>buf'. carquet_buffer_shrink_to_fit A buf = Some (CARQUET_OK, buf') \<and> buf_wf buf' \<and> contents buf' = contents buf
    else carquet_buffer_shrink_to_fit A buf = None"
  using assms
  by (auto simp: carquet_buffer_shrink_to_fit_def buf_wf_def contents_def dest: realloc_Some split: option.splits)

section \<open>Properties\<close>

text \<open>C36: An append to a well-formed buffer either succeeds and adds exactly its bytes behind the
  contents, or reports OUT_OF_MEMORY and leaves the buffer as it was; in both cases the buffer is
  well-formed, for every allocator, also one that fails.\<close>

theorem append_spec:
  assumes "buf_wf buf"
  shows "case carquet_buffer_append A buf bs of (status, buf') \<Rightarrow>
    buf_wf buf' \<and> (if status = CARQUET_OK then contents buf' = contents buf @ bs
      else status = CARQUET_ERROR_OUT_OF_MEMORY \<and> buf' = buf)"
  using append_OK [OF assms] append_error [OF assms] assms by (fastforce split: prod.splits)

definition failing_allocator :: allocator where
  "failing_allocator = \<lparr>alloc_ok = (\<lambda>_. False), fresh = (\<lambda>_. 0)\<rparr>"

definition good_allocator :: allocator where
  "good_allocator = \<lparr>alloc_ok = (\<lambda>_. True), fresh = (\<lambda>_. 0)\<rparr>"

lemma append_spec_witness:
  "carquet_buffer_append failing_allocator carquet_buffer_init [1] = (CARQUET_ERROR_OUT_OF_MEMORY, carquet_buffer_init)"
  using append_spec [OF init_wf, of "[1]" failing_allocator]
  by (auto simp: carquet_buffer_append_def ensure_capacity_def add_overflows_size_def carquet_buffer_init_def
      failing_allocator_def carquet_mem_realloc_def SIZE_MAX_def Let_def split: prod.splits)

text \<open>C37: Every operation keeps the buffer well-formed: its size within the capacity and the capacity
  the length of the block, so that no operation writes outside the block. Shrinking, which is only
  for a buffer that owns its block, always succeeds there and keeps the contents; on a wrapped
  block its assertion fails.\<close>

theorem operations_keep_wf:
  assumes "buf_wf buf" and "buf_wf other" and "length d \<le> SIZE_MAX"
  shows "buf_wf carquet_buffer_init \<and> buf_wf (carquet_buffer_init_wrap d) \<and>
    buf_wf (snd (carquet_buffer_init_capacity A n)) \<and>
    (n \<le> length d \<longrightarrow> buf_wf (snd (carquet_buffer_init_copy A (Some d) n))) \<and>
    buf_wf (carquet_buffer_destroy buf) \<and> buf_wf (carquet_buffer_clear buf) \<and>
    buf_wf (snd (carquet_buffer_reserve A buf n)) \<and> buf_wf (snd (carquet_buffer_resize A buf n)) \<and>
    (if buf_owns buf
     then \<exists>buf'. carquet_buffer_shrink_to_fit A buf = Some (CARQUET_OK, buf') \<and> buf_wf buf' \<and> contents buf' = contents buf
     else carquet_buffer_shrink_to_fit A buf = None) \<and>
    buf_wf (snd (carquet_buffer_append A buf d)) \<and>
    buf_wf (snd (carquet_buffer_append_fill A buf b n)) \<and> buf_wf (snd (carquet_buffer_advance A buf n)) \<and>
    buf_wf (snd (snd (carquet_buffer_detach buf))) \<and>
    (case carquet_buffer_swap (buf, other) of (x, y) \<Rightarrow> buf_wf x \<and> buf_wf y)"
  using assms
  by (auto simp: init_wf wrap_wf ensure_wf shrink_wf append_wf fill_wf advance_wf resize_wf copy_wf init_capacity_wf
      carquet_buffer_reserve_def carquet_buffer_destroy_def carquet_buffer_clear_def carquet_buffer_detach_def
      carquet_buffer_swap_def buf_wf_def [of "_\<lparr>buf_size := 0\<rparr>"] buf_wf_def [of "_\<lparr>buf_data := None, buf_size := 0, buf_capacity := 0, buf_owns := True\<rparr>"]
      dest: buf_wfD)

lemma operations_keep_wf_witness: "buf_wf (snd (carquet_buffer_append_fill good_allocator carquet_buffer_init 7 3))"
  using operations_keep_wf [OF init_wf init_wf, of "[]" good_allocator 3 7] by simp

text \<open>The capacity grows to a power of two at most twice what was asked for, or to the default of
  4096 bytes, so that appending is amortised linear; a request above 2^63 gets exactly what it asks.\<close>

theorem growth_bound:
  assumes "ensure_capacity A buf needed = (CARQUET_OK, buf')" and "needed > buf_capacity buf" and "needed \<le> 2 ^ 63"
  shows "needed \<le> buf_capacity buf' \<and>
    (buf_capacity buf' < 2 * needed \<or> buf_capacity buf' = CARQUET_BUFFER_DEFAULT_CAPACITY) \<and>
    (\<exists>e. buf_capacity buf' = 2 ^ e)"
proof -
  let ?c = "next_power_of_two needed"
  have "\<exists>e. ?c = 2 ^ e \<and> needed \<le> ?c \<and> ?c < 2 * needed"
  proof (cases "needed = 1")
    case True
    then show ?thesis by (intro exI [of _ 0]) (simp add: next_power_of_two_def)
  next
    case False
    then show ?thesis using next_power_of_two_correct [of needed] assms by auto
  qed
  then obtain e where e: "?c = 2 ^ e" "needed \<le> ?c" "?c < 2 * needed" by blast
  have "buf_capacity buf' = (if ?c < CARQUET_BUFFER_DEFAULT_CAPACITY then CARQUET_BUFFER_DEFAULT_CAPACITY else ?c)"
    using assms(1,2) e(2)
    by (auto simp: ensure_capacity_def Let_def split: if_splits option.splits)
  moreover have "CARQUET_BUFFER_DEFAULT_CAPACITY = 2 ^ 12" by (simp add: CARQUET_BUFFER_DEFAULT_CAPACITY_def)
  ultimately have "\<exists>k. buf_capacity buf' = 2 ^ k" "needed \<le> buf_capacity buf'"
    "buf_capacity buf' < 2 * needed \<or> buf_capacity buf' = CARQUET_BUFFER_DEFAULT_CAPACITY"
    using e by (metis, simp, simp)
  then show ?thesis by blast
qed

lemma growth_bound_witness:
  "buf_capacity (snd (ensure_capacity good_allocator carquet_buffer_init 5000)) < 2 * 5000 \<or>
   buf_capacity (snd (ensure_capacity good_allocator carquet_buffer_init 5000)) = CARQUET_BUFFER_DEFAULT_CAPACITY"
proof -
  have "fst (ensure_capacity good_allocator carquet_buffer_init 5000) = CARQUET_OK"
    using next_power_of_two_le_max [of 5000]
    by (simp add: ensure_capacity_def carquet_buffer_init_def good_allocator_def carquet_mem_realloc_def Let_def
        CARQUET_BUFFER_DEFAULT_CAPACITY_def SIZE_MAX_def)
  then show ?thesis
    using growth_bound [of good_allocator carquet_buffer_init 5000 "snd (ensure_capacity good_allocator carquet_buffer_init 5000)"]
    by (simp add: prod_eq_iff carquet_buffer_init_def)
qed

text \<open>A reader over real data never reads outside it: a read returns the next bytes and advances,
  or reports FILE_TRUNCATED when fewer are left, and the reader stays as it was.\<close>

theorem reader_read_spec:
  assumes "reader_wf r" and "n < 2 ^ 63"
  shows "carquet_buffer_reader_read r n =
      (if n \<le> carquet_buffer_reader_remaining r
       then Some (Inr (take n (unread r), r\<lparr>rdr_pos := rdr_pos r + n\<rparr>)) else Some (Inl CARQUET_ERROR_FILE_TRUNCATED)) \<and>
    carquet_buffer_reader_read_byte r =
      (if 1 \<le> carquet_buffer_reader_remaining r
       then Some (Inr (hd (unread r), r\<lparr>rdr_pos := rdr_pos r + 1\<rparr>)) else Some (Inl CARQUET_ERROR_FILE_TRUNCATED)) \<and>
    carquet_buffer_reader_skip r n =
      (if n \<le> carquet_buffer_reader_remaining r then (CARQUET_OK, r\<lparr>rdr_pos := rdr_pos r + n\<rparr>)
       else (CARQUET_ERROR_FILE_TRUNCATED, r))"
  using assms by (cases "unread r") (auto simp: reader_read_eq reader_remaining_unread reader_read_byte_eq reader_skip_eq)

lemma reader_read_spec_witness:
  "carquet_buffer_reader_read (carquet_buffer_reader_init_data [1, 2, 3] 3) 2 =
     Some (Inr ([1, 2], \<lparr>rdr_data = [1, 2, 3], rdr_size = 3, rdr_pos = 2\<rparr>))"
  using reader_read_spec [of "carquet_buffer_reader_init_data [1, 2, 3] 3" 2]
  by (simp add: reader_wf_def carquet_buffer_reader_init_data_def unread_def carquet_buffer_reader_remaining_def sz_def)

text \<open>The bound check of the reader adds in \<open>size_t\<close>, which wraps: a reader past its first byte
  asked for 2^64 - 1 bytes says it has them, and the read goes outside the data.\<close>

theorem reader_has_wraps:
  "let r = \<lparr>rdr_data = [1, 2], rdr_size = 2, rdr_pos = 1\<rparr> in
     carquet_buffer_reader_has r (2 ^ 64 - 1) \<and> carquet_buffer_reader_read r (2 ^ 64 - 1) = None"
  by (simp add: carquet_buffer_reader_has_def carquet_buffer_reader_read_def sz_def rd_bytes_def)

end
