(* ===== verification/Rle_Encoder.thy ===== *)
theory Rle_Encoder
  imports Rle_Levels Buffer
begin

text \<open>
  Component src/encoding/rle.c, encoding: the run-detecting encoder over the real output buffer,
  and the round trip through the decoders of \<open>Rle_Decoder\<close> and \<open>Rle_Levels\<close>.

  The encoder state is the C struct; the output buffer it points to is a field. The statuses of
  the appends are ignored, as in the code. None is an access outside an array, a byte of the
  scratch array that was never written (a value wider than 4 bytes) included.
\<close>

section \<open>The encoder\<close>

record carquet_rle_encoder =
  enc_buffer :: carquet_buffer
  enc_bit_width :: nat
  enc_prev_value :: u32
  enc_repeat_count :: nat
  enc_has_prev :: bool
  enc_bitpack_buffer :: "u32 list"
  enc_bitpack_count :: nat
  enc_bitpack_total :: nat
  enc_status :: carquet_status

text \<open>The loop of \<open>write_varint\<close> is the one of \<open>carquet_encode_varint32\<close>.\<close>

definition write_varint :: "allocator \<Rightarrow> carquet_buffer \<Rightarrow> u32 \<Rightarrow> carquet_buffer" where
  "write_varint A buf value = snd (carquet_buffer_append A buf (carquet_encode_varint32 value))"

definition rle_value_bytes :: "nat \<Rightarrow> nat" where
  "rle_value_bytes bit_width = (bit_width + 7) div 8"

definition write_value_bytes :: "u32 \<Rightarrow> nat \<Rightarrow> u8 list option" where
  "write_value_bytes value value_bytes =
     rd_bytes [ucast value, ucast (drop_bit 8 value), ucast (drop_bit 16 value), ucast (drop_bit 24 value)]
       0 value_bytes"

definition flush_rle :: "allocator \<Rightarrow> carquet_rle_encoder \<Rightarrow> carquet_rle_encoder option" where
  "flush_rle A enc =
     (if enc_repeat_count enc = 0 then Some enc
      else do {
        let vb = rle_value_bytes (enc_bit_width enc);
        let header = of_nat (enc_repeat_count enc * 2);
        val \<leftarrow> write_value_bytes (enc_prev_value enc) vb;
        let buf = carquet_encode_varint32 header @ val;
        Some (enc\<lparr>enc_buffer := snd (carquet_buffer_append A (enc_buffer enc) buf), enc_repeat_count := 0\<rparr>)
      })"

text \<open>The inner loop of \<open>flush_bitpack_as_rle\<close>: how far the run at \<open>i\<close> goes.\<close>

function count_run :: "u32 list \<Rightarrow> nat \<Rightarrow> nat \<Rightarrow> u32 \<Rightarrow> nat \<Rightarrow> nat option" where
  "count_run buf count i val run =
     (if i + run < count then
        (case rd buf (i + run) of
           None \<Rightarrow> None
         | Some x \<Rightarrow> if x = val then count_run buf count i val (run + 1) else Some run)
      else Some run)"
  by pat_completeness auto
termination
  by (relation "measure (\<lambda>(buf, count, i, val, run). count - (i + run))") auto

declare count_run.simps [simp del]

lemma count_run_ge: "count_run buf count i val run = Some r \<Longrightarrow> run \<le> r"
proof (induction buf count i val run rule: count_run.induct)
  case (1 buf count i val run)
  then show ?case
    by (subst (asm) count_run.simps) (fastforce split: if_splits option.splits)
qed

function as_rle_loop :: "allocator \<Rightarrow> carquet_rle_encoder \<Rightarrow> nat \<Rightarrow> carquet_rle_encoder option" where
  "as_rle_loop A enc i =
     (if i < enc_bitpack_count enc then
        (case rd (enc_bitpack_buffer enc) i of
           None \<Rightarrow> None
         | Some val \<Rightarrow>
             (case count_run (enc_bitpack_buffer enc) (enc_bitpack_count enc) i val 1 of
                None \<Rightarrow> None
              | Some run \<Rightarrow>
                  (case write_value_bytes val (rle_value_bytes (enc_bit_width enc)) of
                     None \<Rightarrow> None
                   | Some vbs \<Rightarrow>
                       let buf = carquet_encode_varint32 (of_nat (run * 2)) @ vbs
                       in as_rle_loop A
                            (enc\<lparr>enc_buffer := snd (carquet_buffer_append A (enc_buffer enc) buf)\<rparr>) (i + run))))
      else Some enc)"
  by pat_completeness auto
termination
  by (relation "measure (\<lambda>(A, enc, i). enc_bitpack_count enc - i)") (auto dest: count_run_ge)

declare as_rle_loop.simps [simp del]

definition flush_bitpack_as_rle :: "allocator \<Rightarrow> carquet_rle_encoder \<Rightarrow> carquet_rle_encoder option" where
  "flush_bitpack_as_rle A enc = do {
     enc' \<leftarrow> as_rle_loop A enc 0;
     Some (enc'\<lparr>enc_bitpack_count := 0, enc_bitpack_total := 0\<rparr>)
   }"

fun packed_groups :: "nat \<Rightarrow> allocator \<Rightarrow> carquet_rle_encoder \<Rightarrow> carquet_rle_encoder option" where
  "packed_groups 0 A enc = Some enc"
| "packed_groups (Suc g) A enc = do {
     packed \<leftarrow> carquet_bitpack8_32 (enc_bitpack_buffer enc) 0 (enc_bit_width enc) (replicate 32 0) 0;
     bytes \<leftarrow> rd_bytes packed 0 (enc_bit_width enc);
     packed_groups g A (enc\<lparr>enc_buffer := snd (carquet_buffer_append A (enc_buffer enc) bytes)\<rparr>)
   }"

definition flush_bitpack :: "allocator \<Rightarrow> carquet_rle_encoder \<Rightarrow> carquet_rle_encoder option" where
  "flush_bitpack A enc =
     (if enc_bitpack_count enc = 0 then Some enc
      else if enc_bitpack_count enc < 8 then flush_bitpack_as_rle A enc
      else do {
        let num_groups = (enc_bitpack_total enc + 7) div 8;
        let buf = write_varint A (enc_buffer enc) (of_nat (num_groups * 2 + 1));
        enc' \<leftarrow> packed_groups num_groups A (enc\<lparr>enc_buffer := buf\<rparr>);
        Some (enc'\<lparr>enc_bitpack_count := 0, enc_bitpack_total := 0\<rparr>)
      })"

definition carquet_rle_encoder_init :: "carquet_buffer \<Rightarrow> nat \<Rightarrow> carquet_rle_encoder" where
  "carquet_rle_encoder_init buffer bit_width =
     \<lparr>enc_buffer = buffer, enc_bit_width = bit_width, enc_prev_value = 0, enc_repeat_count = 0,
      enc_has_prev = False, enc_bitpack_buffer = replicate 8 0, enc_bitpack_count = 0,
      enc_bitpack_total = 0, enc_status = CARQUET_OK\<rparr>"

text \<open>Moving \<open>k\<close> copies of the previous value to the bit-pack buffer.\<close>

fun buffer_repeats :: "nat \<Rightarrow> allocator \<Rightarrow> carquet_rle_encoder \<Rightarrow> carquet_rle_encoder option" where
  "buffer_repeats 0 A enc = Some enc"
| "buffer_repeats (Suc k) A enc = do {
     b \<leftarrow> wr (enc_bitpack_buffer enc) (enc_bitpack_count enc) (enc_prev_value enc);
     let enc1 = enc\<lparr>enc_bitpack_buffer := b, enc_bitpack_count := enc_bitpack_count enc + 1,
                    enc_bitpack_total := enc_bitpack_total enc + 1\<rparr>;
     enc2 \<leftarrow> (if enc_bitpack_count enc1 = 8 then flush_bitpack A enc1 else Some enc1);
     buffer_repeats k A enc2
   }"

definition carquet_rle_encoder_put ::
  "allocator \<Rightarrow> carquet_rle_encoder \<Rightarrow> u32 \<Rightarrow> (carquet_status \<times> carquet_rle_encoder) option" where
  "carquet_rle_encoder_put A enc value =
     (if enc_status enc \<noteq> CARQUET_OK then Some (enc_status enc, enc)
      else if \<not> enc_has_prev enc then
        Some (CARQUET_OK, enc\<lparr>enc_prev_value := value, enc_repeat_count := 1, enc_has_prev := True\<rparr>)
      else if value = enc_prev_value enc then
        Some (CARQUET_OK, enc\<lparr>enc_repeat_count := enc_repeat_count enc + 1\<rparr>)
      else do {
        enc1 \<leftarrow> (if enc_repeat_count enc \<ge> 8 then do { e \<leftarrow> flush_bitpack A enc; flush_rle A e }
                else do {
                  e \<leftarrow> buffer_repeats (enc_repeat_count enc) A enc;
                  Some (e\<lparr>enc_repeat_count := 0\<rparr>)
                });
        Some (CARQUET_OK, enc1\<lparr>enc_prev_value := value, enc_repeat_count := 1\<rparr>)
      })"

definition carquet_rle_encoder_put_repeat ::
  "allocator \<Rightarrow> carquet_rle_encoder \<Rightarrow> u32 \<Rightarrow> int \<Rightarrow> (carquet_status \<times> carquet_rle_encoder) option" where
  "carquet_rle_encoder_put_repeat A enc value count =
     (if count \<le> 0 \<or> enc_status enc \<noteq> CARQUET_OK then Some (enc_status enc, enc)
      else if enc_has_prev enc \<and> value = enc_prev_value enc then
        Some (CARQUET_OK, enc\<lparr>enc_repeat_count := enc_repeat_count enc + nat count\<rparr>)
      else if enc_has_prev enc then do {
        (status, enc1) \<leftarrow> carquet_rle_encoder_put A enc value;
        if status \<noteq> CARQUET_OK then Some (status, enc1)
        else Some (CARQUET_OK, enc1\<lparr>enc_repeat_count := enc_repeat_count enc1 + (nat count - 1)\<rparr>)
      }
      else Some (CARQUET_OK, enc\<lparr>enc_prev_value := value, enc_repeat_count := nat count, enc_has_prev := True\<rparr>))"

definition carquet_rle_encoder_flush ::
  "allocator \<Rightarrow> carquet_rle_encoder \<Rightarrow> (carquet_status \<times> carquet_rle_encoder) option" where
  "carquet_rle_encoder_flush A enc =
     (if enc_status enc \<noteq> CARQUET_OK then Some (enc_status enc, enc)
      else if enc_repeat_count enc \<ge> 8 then do {
        e \<leftarrow> flush_bitpack A enc;
        enc' \<leftarrow> flush_rle A e;
        Some (CARQUET_OK, enc')
      }
      else if enc_repeat_count enc > 0 then do {
        e \<leftarrow> buffer_repeats (enc_repeat_count enc) A enc;
        let e1 = e\<lparr>enc_repeat_count := 0\<rparr>;
        enc' \<leftarrow> (if enc_bitpack_count e1 > 0 then flush_bitpack A e1 else Some e1);
        Some (CARQUET_OK, enc')
      }
      else Some (CARQUET_OK, enc))"

fun put_all :: "allocator \<Rightarrow> carquet_rle_encoder \<Rightarrow> u32 list \<Rightarrow> (carquet_status \<times> carquet_rle_encoder) option" where
  "put_all A enc [] = Some (CARQUET_OK, enc)"
| "put_all A enc (v # vs) = do {
     (status, enc') \<leftarrow> carquet_rle_encoder_put A enc v;
     if status \<noteq> CARQUET_OK then Some (status, enc') else put_all A enc' vs
   }"

text \<open>The status and the buffer as the call leaves it.\<close>

definition carquet_rle_encode_all ::
  "allocator \<Rightarrow> u32 list \<Rightarrow> nat \<Rightarrow> carquet_buffer \<Rightarrow> (carquet_status \<times> carquet_buffer) option" where
  "carquet_rle_encode_all A input bit_width output = do {
     (status, enc) \<leftarrow> put_all A (carquet_rle_encoder_init output bit_width) input;
     if status \<noteq> CARQUET_OK then Some (status, enc_buffer enc)
     else do {
       (status', enc') \<leftarrow> carquet_rle_encoder_flush A enc;
       Some (status', enc_buffer enc')
     }
   }"

text \<open>Levels are widened by \<open>(uint32_t)input[i]\<close>, which extends the sign.\<close>

definition carquet_rle_encode_levels ::
  "allocator \<Rightarrow> 16 word list \<Rightarrow> nat \<Rightarrow> carquet_buffer \<Rightarrow> (carquet_status \<times> carquet_buffer) option" where
  "carquet_rle_encode_levels A input bit_width output =
     carquet_rle_encode_all A (map scast input) bit_width output"

section \<open>Codings of value lists\<close>

text \<open>
  \<open>coded bw bs vs\<close>: the bytes are runs that decode to the values wherever they stand, and are
  at most nine per value.
\<close>

definition coded :: "nat \<Rightarrow> u8 list \<Rightarrow> u32 list \<Rightarrow> bool" where
  "coded bw bs vs \<longleftrightarrow> length bs \<le> 9 * length vs \<and>
     (\<forall>pre rest n. length pre + length bs \<le> n \<longrightarrow> n \<le> length (pre @ bs @ rest) \<longrightarrow>
        rle_stream bw (pre @ bs @ rest) n (length pre) =
          vs @ rle_stream bw (pre @ bs @ rest) n (length pre + length bs) \<and>
        rle_complete bw (pre @ bs @ rest) n (length pre) =
          rle_complete bw (pre @ bs @ rest) n (length pre + length bs))"

lemma coded_Nil [simp]: "coded bw [] []"
  by (simp add: coded_def)

lemma codedD:
  assumes "coded bw bs vs" and "d = pre @ bs @ rest" and "p = length pre" and "q = p + length bs"
    and "q \<le> n" and "n \<le> length d"
  shows "rle_stream bw d n p = vs @ rle_stream bw d n q \<and> rle_complete bw d n p = rle_complete bw d n q"
  using assms unfolding coded_def by blast

lemma coded_append:
  assumes "coded bw bs vs" and "coded bw cs ws"
  shows "coded bw (bs @ cs) (vs @ ws)"
  unfolding coded_def
proof (intro conjI allI impI)
  show "length (bs @ cs) \<le> 9 * length (vs @ ws)" using assms by (simp add: coded_def)
next
  fix pre rest n
  let ?d = "pre @ (bs @ cs) @ rest" and ?p = "length pre" and ?q = "length pre + length bs"
  assume n: "?p + length (bs @ cs) \<le> n" "n \<le> length ?d"
  have 1: "rle_stream bw ?d n ?p = vs @ rle_stream bw ?d n ?q \<and> rle_complete bw ?d n ?p = rle_complete bw ?d n ?q"
    by (rule codedD [OF assms(1), of _ pre "cs @ rest"]) (use n in auto)
  have 2: "rle_stream bw ?d n ?q = ws @ rle_stream bw ?d n (?q + length cs) \<and>
      rle_complete bw ?d n ?q = rle_complete bw ?d n (?q + length cs)"
    by (rule codedD [OF assms(2), of _ "pre @ bs" rest]) (use n in auto)
  show "rle_stream bw ?d n ?p = (vs @ ws) @ rle_stream bw ?d n (?p + length (bs @ cs))"
    "rle_complete bw ?d n ?p = rle_complete bw ?d n (?p + length (bs @ cs))"
    using 1 2 by (simp_all add: add.assoc)
qed

lemma coded_all:
  assumes "coded bw bs vs"
  shows "rle_stream bw (pre @ bs) (length pre + length bs) (length pre) = vs \<and>
    rle_complete bw (pre @ bs) (length pre + length bs) (length pre)"
  using codedD [OF assms, of "pre @ bs" pre "[]" "length pre" "length pre + length bs" "length pre + length bs"]
  by (simp add: rle_stream.simps [of _ _ "length pre + length bs" "length pre + length bs"]
      rle_complete.simps [of _ _ "length pre + length bs" "length pre + length bs"])

text \<open>The header in front of a run.\<close>

lemma read_varint_encoded:
  assumes "length pre + length (carquet_encode_varint32 h) \<le> n" and "n \<le> length (pre @ carquet_encode_varint32 h @ rest)"
  shows "read_varint (pre @ carquet_encode_varint32 h @ rest) n (length pre) =
    Some (Some (h, length pre + length (carquet_encode_varint32 h)))"
  using decode_varint_loop_varint_nat [of "unat h" 0 h 5 "length pre" n "pre @ carquet_encode_varint32 h @ rest"] assms
  by (simp add: read_varint_def encode_varint32_nat)

lemma header_even:
  "0 < k \<Longrightarrow> k < 2 ^ 31 \<Longrightarrow> (of_nat (k * 2) :: u32) AND 1 = 0 \<and> unat (drop_bit 1 (of_nat (k * 2) :: u32)) = k"
proof -
  assume k: "0 < k" "k < 2 ^ 31"
  then have "unat (of_nat (k * 2) :: u32) = k * 2" by (simp add: unat_of_nat del: of_nat_mult)
  then show ?thesis by (simp add: and_one_eq mod2_eq_if drop_bit_eq_div unat_div)
qed

lemma coded_repeated:
  assumes "bw \<le> 32" and "0 < k" "k < 2 ^ 31" and "take_bit bw v = v"
  shows "coded bw (carquet_encode_varint32 (of_nat (k * 2)) @ le_bytes ((bw + 7) div 8) v) (replicate k v)"
  unfolding coded_def
proof (intro conjI allI impI)
  let ?h = "of_nat (k * 2) :: u32" and ?vb = "(bw + 7) div 8"
  let ?hs = "carquet_encode_varint32 ?h" and ?bs = "carquet_encode_varint32 ?h @ le_bytes ?vb v"
  have h: "?h AND 1 = 0" "unat (drop_bit 1 ?h) = k" "drop_bit 1 ?h \<noteq> 0"
    using header_even [OF assms(2,3)] assms(2) by auto
  have lh: "0 < length ?hs" "length ?hs \<le> 5"
    using length_varint_nat [of "unat ?h" 5] unsigned_less [of ?h, where ?'a = nat] by (simp_all add: encode_varint32_nat)
  show "length ?bs \<le> 9 * length (replicate k v)" using lh assms(1,2) by simp
  fix pre rest n
  assume n: "length pre + length ?bs \<le> n" "n \<le> length (pre @ ?bs @ rest)"
  have rv: "read_varint (pre @ ?bs @ rest) n (length pre) = Some (Some (?h, length pre + length ?hs))"
    using read_varint_encoded [of pre ?h n "le_bytes ?vb v @ rest"] n by simp
  have val: "read_value bw (pre @ ?bs @ rest) (length pre + length ?hs) = v"
  proof -
    have "bw \<le> 8 * ?vb" by linarith
    then have "take_bit bw (take_bit (8 * ?vb) v) = v"
      using assms(4) by (simp add: take_bit_take_bit min_absorb1)
    then show ?thesis by (simp add: read_value_def le_word_le_bytes)
  qed
  have fits: "length pre + length ?hs + ?vb \<le> n" using n by simp
  then have pos: "length pre < n" using lh(1) by linarith
  note run = rle_stream_header(3) [OF pos rv h(3) h(1) fits]
  show "rle_stream bw (pre @ ?bs @ rest) n (length pre) =
      replicate k v @ rle_stream bw (pre @ ?bs @ rest) n (length pre + length ?bs)"
    "rle_complete bw (pre @ ?bs @ rest) n (length pre) = rle_complete bw (pre @ ?bs @ rest) n (length pre + length ?bs)"
    using run h(2) val by (simp_all add: add.assoc)
qed

lemma coded_packed:
  assumes "bw \<le> 32" and "length vs = 8" and "\<And>v. v \<in> set vs \<Longrightarrow> take_bit bw v = v"
    and "length blk = bw" and "le_nat blk = packed_nat bw vs"
  shows "coded bw (carquet_encode_varint32 3 @ blk) vs"
  unfolding coded_def
proof (intro conjI allI impI)
  let ?hs = "carquet_encode_varint32 3" and ?bs = "carquet_encode_varint32 3 @ blk"
  have lh: "length ?hs = 1" by (simp add: encode_varint32_nat varint_nat.simps)
  show "length ?bs \<le> 9 * length vs" using lh assms by simp
  fix pre rest n
  assume n: "length pre + length ?bs \<le> n" "n \<le> length (pre @ ?bs @ rest)"
  have rv: "read_varint (pre @ ?bs @ rest) n (length pre) = Some (Some (3, length pre + 1))"
    using read_varint_encoded [of pre 3 n "blk @ rest"] n lh by simp
  have h: "(3 :: u32) AND 1 \<noteq> 0" "unat (drop_bit 1 (3 :: u32)) = Suc 0"
    by (simp_all add: and_one_eq drop_bit_eq_div unat_div)
  have pos: "length pre < n" using n lh by simp
  note run = rle_stream_header(4) [OF pos rv h(1)]
  have "unpack_digits bw (packed_nat bw vs) 8 = vs"
  proof (cases "bw = 0")
    case True
    then show ?thesis using assms(2,3) by (auto simp: unpack_digits_def digit_def intro!: nth_equalityI)
  next
    case False
    then show ?thesis using unpack_packed [of bw vs] assms(2,3) by (simp add: map_idI)
  qed
  then have us: "unpack_digits bw (le_nat (take bw (drop (length pre + 1) (pre @ ?bs @ rest)))) 8 = vs"
    using lh assms(4,5) by simp
  have fits: "\<not> length pre + 1 + bw > n" using n lh assms(4) by simp
  have e: "length pre + 1 + bw = length pre + length ?bs" using lh assms(4) by simp
  have "bp_stream bw (pre @ ?bs @ rest) n (Suc 0) (length pre + 1) =
      vs @ rle_stream bw (pre @ ?bs @ rest) n (length pre + 1 + bw)"
    using fits unfolding bp_stream.simps us by simp
  moreover have "bp_complete bw (pre @ ?bs @ rest) n (Suc 0) (length pre + 1) =
      rle_complete bw (pre @ ?bs @ rest) n (length pre + 1 + bw)"
    using fits by simp
  ultimately show "rle_stream bw (pre @ ?bs @ rest) n (length pre) =
      vs @ rle_stream bw (pre @ ?bs @ rest) n (length pre + length ?bs)"
    "rle_complete bw (pre @ ?bs @ rest) n (length pre) = rle_complete bw (pre @ ?bs @ rest) n (length pre + length ?bs)"
    using run unfolding h(2) e by simp_all
qed

section \<open>The encoder writes codings\<close>

text \<open>
  \<open>holds A bw bs0 buf ws r\<close>: behind what it held at the start the buffer holds a coding of
  \<open>ws\<close>, and it has room for the coding of \<open>r\<close> more values.
\<close>

definition holds :: "allocator \<Rightarrow> nat \<Rightarrow> u8 list \<Rightarrow> carquet_buffer \<Rightarrow> u32 list \<Rightarrow> nat \<Rightarrow> bool" where
  "holds A bw bs0 buf ws r \<longleftrightarrow> (\<exists>bs. contents buf = bs0 @ bs \<and> coded bw bs ws) \<and> buf_room A buf (9 * r)"

lemma room_wf: "buf_room A buf n \<Longrightarrow> buf_wf buf"
  by (simp add: buf_room_def buf_growable_def)

lemma holds_append:
  assumes "holds A bw bs0 buf ws (length vs + r)" and "coded bw cs vs"
  shows "holds A bw bs0 (snd (carquet_buffer_append A buf cs)) (ws @ vs) r"
proof -
  obtain bs where bs: "contents buf = bs0 @ bs" "coded bw bs ws" using assms(1) by (auto simp: holds_def)
  have room: "buf_room A buf (9 * (length vs + r))" using assms(1) by (simp add: holds_def)
  have "length cs + 9 * r \<le> 9 * (length vs + r)" using assms(2) by (simp add: coded_def)
  then have "buf_room A buf (length cs + 9 * r)" by (rule bsink.room_mono [OF room])
  note w = bsink.put_room_OK [OF room_wf [OF room] this]
  show ?thesis unfolding holds_def using w(3,4) bs coded_append [OF bs(2) assms(2)] by auto
qed

lemma holds_less: "holds A bw bs0 buf ws r \<Longrightarrow> r' \<le> r \<Longrightarrow> holds A bw bs0 buf ws r'"
  by (auto simp: holds_def elim: bsink.room_mono)

lemma write_value_bytes_eq: "bw \<le> 32 \<Longrightarrow> write_value_bytes v (rle_value_bytes bw) = Some (le_bytes ((bw + 7) div 8) v)"
proof -
  assume "bw \<le> 32"
  then have "(bw + 7) div 8 \<le> 4" by simp
  then consider "(bw + 7) div 8 = 0" | "(bw + 7) div 8 = 1" | "(bw + 7) div 8 = 2" | "(bw + 7) div 8 = 3" | "(bw + 7) div 8 = 4"
    by linarith
  then show ?thesis
    by cases (simp_all add: write_value_bytes_def rle_value_bytes_def rd_bytes_def le_bytes_def upt_rec)
qed

lemma count_run_correct:
  "count \<le> length buf \<Longrightarrow> i + run \<le> count \<Longrightarrow> take run (drop i buf) = replicate run val \<Longrightarrow>
     \<exists>r. count_run buf count i val run = Some r \<and> run \<le> r \<and> i + r \<le> count \<and> take r (drop i buf) = replicate r val"
proof (induction buf count i val run rule: count_run.induct)
  case (1 buf count i val run)
  show ?case
  proof (cases "i + run < count \<and> buf ! (i + run) = val")
    case True
    then have "take (run + 1) (drop i buf) = replicate (run + 1) val"
    proof -
      have "take (run + 1) (drop i buf) = take run (drop i buf) @ [buf ! (i + run)]"
      proof -
        have "run < length buf - i" using True "1.prems"(1) by linarith
        then show ?thesis using True take_Suc_conv_app_nth [of run "drop i buf"] by simp
      qed
      then show ?thesis using "1.prems"(3) True by (simp add: replicate_append_same)
    qed
    then show ?thesis using "1.IH" [of val] "1.prems" True by (subst count_run.simps) auto
  next
    case False
    then show ?thesis using "1.prems" by (subst count_run.simps) auto
  qed
qed

lemma as_rle_loop_correct:
  assumes "bw \<le> 32" and "enc_bit_width enc = bw" and "enc_bitpack_count enc \<le> 8" "length (enc_bitpack_buffer enc) = 8"
    and "\<And>x. x \<in> set (take (enc_bitpack_count enc) (enc_bitpack_buffer enc)) \<Longrightarrow> take_bit bw x = x"
    and "i \<le> enc_bitpack_count enc" and "holds A bw bs0 (enc_buffer enc) ws (enc_bitpack_count enc - i + r)"
  shows "\<exists>buf'. as_rle_loop A enc i = Some (enc\<lparr>enc_buffer := buf'\<rparr>) \<and>
    holds A bw bs0 buf' (ws @ drop i (take (enc_bitpack_count enc) (enc_bitpack_buffer enc))) r"
  using assms
proof (induction A enc i arbitrary: ws rule: as_rle_loop.induct)
  case (1 A enc i)
  let ?c = "enc_bitpack_count enc" and ?b = "enc_bitpack_buffer enc"
  show ?case
  proof (cases "i < ?c")
    case False
    then have "as_rle_loop A enc i = Some (enc\<lparr>enc_buffer := enc_buffer enc\<rparr>)" by (subst as_rle_loop.simps) simp
    then show ?thesis using False "1.prems" by (intro exI [of _ "enc_buffer enc"]) simp
  next
    case True
    then have i: "i < length ?b" using "1.prems" by simp
    have "take 1 (drop i ?b) = replicate 1 (?b ! i)" using i by (simp add: drop_eq_Cons)
    then obtain k where k: "count_run ?b ?c i (?b ! i) 1 = Some k" "1 \<le> k" "i + k \<le> ?c"
      "take k (drop i ?b) = replicate k (?b ! i)"
      using count_run_correct [of ?c ?b i 1 "?b ! i"] True "1.prems" by auto
    have "?b ! i \<in> set (take ?c ?b)" using True i by (auto simp: in_set_conv_nth intro!: exI [of _ i])
    then have val: "take_bit bw (?b ! i) = ?b ! i" by (rule "1.prems"(5))
    let ?cs = "carquet_encode_varint32 (of_nat (k * 2)) @ le_bytes ((bw + 7) div 8) (?b ! i)"
    let ?enc = "enc\<lparr>enc_buffer := snd (carquet_buffer_append A (enc_buffer enc) ?cs)\<rparr>"
    have c: "coded bw ?cs (replicate k (?b ! i))"
      using k(2,3) "1.prems"(3) val by (intro coded_repeated [OF "1.prems"(1)]) simp_all
    have "?c - i + r = length (replicate k (?b ! i)) + (?c - (i + k) + r)" using k by simp
    then have "holds A bw bs0 (enc_buffer enc) ws (length (replicate k (?b ! i)) + (?c - (i + k) + r))"
      using "1.prems"(7) by (simp only:)
    from holds_append [OF this c]
    have h: "holds A bw bs0 (enc_buffer ?enc) (ws @ replicate k (?b ! i)) (?c - (i + k) + r)" by simp
    have rd: "rd ?b i = Some (?b ! i)" using i by simp
    have w: "write_value_bytes (?b ! i) (rle_value_bytes (enc_bit_width enc)) = Some (le_bytes ((bw + 7) div 8) (?b ! i))"
      using write_value_bytes_eq "1.prems"(1,2) by simp
    obtain buf' where IH: "as_rle_loop A ?enc (i + k) = Some (?enc\<lparr>enc_buffer := buf'\<rparr>)"
      "holds A bw bs0 buf' ((ws @ replicate k (?b ! i)) @ drop (i + k) (take ?c ?b)) r"
      using "1.IH" [OF True rd k(1) w refl, of "ws @ replicate k (?b ! i)"] "1.prems" k(3) h by auto
    have "as_rle_loop A enc i = Some (enc\<lparr>enc_buffer := buf'\<rparr>)"
      using True rd k(1) w IH(1) by (subst as_rle_loop.simps) simp
    moreover have "drop i (take ?c ?b) = replicate k (?b ! i) @ drop (i + k) (take ?c ?b)"
    proof -
      have "drop i (take ?c ?b) = take k (drop i (take ?c ?b)) @ drop k (drop i (take ?c ?b))"
        by (rule append_take_drop_id [symmetric])
      also have "take k (drop i (take ?c ?b)) = take k (drop i ?b)"
        using k(3) by (simp add: drop_take min_def)
      finally show ?thesis using k(4) by (simp add: add.commute)
    qed
    ultimately show ?thesis using IH(2) by auto
  qed
qed

text \<open>
  The state between the steps: \<open>xs\<close> is what is in the buffer or waits in the bit-pack buffer,
  \<open>r\<close> the number of further values there is room for.
\<close>

definition enc_ok :: "allocator \<Rightarrow> nat \<Rightarrow> u8 list \<Rightarrow> carquet_rle_encoder \<Rightarrow> u32 list \<Rightarrow> nat \<Rightarrow> bool" where
  "enc_ok A bw bs0 enc xs r \<longleftrightarrow> bw \<le> 32 \<and> enc_bit_width enc = bw \<and> enc_status enc = CARQUET_OK \<and>
     length (enc_bitpack_buffer enc) = 8 \<and> enc_bitpack_count enc \<le> 8 \<and>
     enc_bitpack_total enc = enc_bitpack_count enc \<and>
     (\<forall>x \<in> set (take (enc_bitpack_count enc) (enc_bitpack_buffer enc)). take_bit bw x = x) \<and>
     (\<exists>ws. holds A bw bs0 (enc_buffer enc) ws (enc_bitpack_count enc + r) \<and>
        xs = ws @ take (enc_bitpack_count enc) (enc_bitpack_buffer enc))"

lemma flush_bitpack_correct:
  assumes "enc_ok A bw bs0 enc xs r"
  shows "\<exists>buf'. flush_bitpack A enc = Some (enc\<lparr>enc_buffer := buf', enc_bitpack_count := 0, enc_bitpack_total := 0\<rparr>) \<and>
    enc_ok A bw bs0 (enc\<lparr>enc_buffer := buf', enc_bitpack_count := 0, enc_bitpack_total := 0\<rparr>) xs r"
proof -
  let ?c = "enc_bitpack_count enc" and ?b = "enc_bitpack_buffer enc"
  obtain ws where ws: "holds A bw bs0 (enc_buffer enc) ws (?c + r)" "xs = ws @ take ?c ?b"
    using assms by (auto simp: enc_ok_def)
  have bw: "bw \<le> 32" "enc_bit_width enc = bw" "length ?b = 8" "?c \<le> 8" "enc_bitpack_total enc = ?c"
    "\<And>x. x \<in> set (take ?c ?b) \<Longrightarrow> take_bit bw x = x" using assms by (auto simp: enc_ok_def)
  consider "?c = 0" | "0 < ?c" "?c < 8" | "?c = 8" using bw(4) by linarith
  then show ?thesis
  proof cases
    case 1
    then have "flush_bitpack A enc = Some (enc\<lparr>enc_buffer := enc_buffer enc, enc_bitpack_count := 0, enc_bitpack_total := 0\<rparr>)"
      using bw(5) by (simp add: flush_bitpack_def)
    then show ?thesis using assms 1 by (intro exI [of _ "enc_buffer enc"]) (simp add: enc_ok_def)
  next
    case 2
    obtain buf' where b: "as_rle_loop A enc 0 = Some (enc\<lparr>enc_buffer := buf'\<rparr>)"
      "holds A bw bs0 buf' (ws @ drop 0 (take ?c ?b)) r"
      using as_rle_loop_correct [OF bw(1,2,4,3,6), of 0 A bs0 ws r] ws(1) by auto
    then show ?thesis using 2 assms ws(2)
      by (intro exI [of _ buf']) (simp add: flush_bitpack_def flush_bitpack_as_rle_def enc_ok_def)
  next
    case 3
    obtain bs where bs: "contents (enc_buffer enc) = bs0 @ bs" "coded bw bs ws" and room: "buf_room A (enc_buffer enc) (9 * (8 + r))"
      using ws(1) 3 by (auto simp: holds_def)
    obtain blk where blk: "carquet_bitpack8_32 ?b 0 bw (replicate 32 0) 0 = Some (blk @ replicate (32 - bw) 0)"
      "length blk = bw" "le_nat blk = packed_nat bw (take 8 (drop 0 ?b))"
      using bitpack8_correct [OF bw(1), of 0 ?b "replicate bw 0" "[]" "replicate (32 - bw) 0"] bw(1,3)
      by (auto simp flip: replicate_add)
    have packed: "rd_bytes (blk @ replicate (32 - bw) 0) 0 bw = Some blk" using blk(2) by (cases "bw = 0") (simp_all add: rd_bytes_def)
    have c: "coded bw (carquet_encode_varint32 3 @ blk) ?b"
      using bw(3,6) 3 blk(2,3) by (intro coded_packed bw(1)) simp_all
    let ?h = "carquet_encode_varint32 3"
    have hl: "length ?h = 1" by (simp add: encode_varint32_nat varint_nat.simps)
    let ?buf1 = "snd (carquet_buffer_append A (enc_buffer enc) ?h)"
    let ?buf2 = "snd (carquet_buffer_append A ?buf1 blk)"
    have "length ?h + (length blk + 9 * r) \<le> 9 * (8 + r)" using blk(2) bw(1) hl by simp
    then have r1: "buf_room A (enc_buffer enc) (length ?h + (length blk + 9 * r))" by (rule bsink.room_mono [OF room])
    note s1 = bsink.put_room_OK [OF room_wf [OF room] r1]
    note s2 = bsink.put_room_OK [OF s1(2,4)]
    have h: "holds A bw bs0 ?buf2 (ws @ ?b) r"
      unfolding holds_def using s1(3) s2(3,4) bs coded_append [OF bs(2) c] by auto
    have "flush_bitpack A enc = Some (enc\<lparr>enc_buffer := ?buf2, enc_bitpack_count := 0, enc_bitpack_total := 0\<rparr>)"
      using 3 bw(2,5) blk(1) packed by (simp add: flush_bitpack_def write_varint_def numeral_eq_Suc [of "Num.One"])
    then show ?thesis using h assms ws(2) 3 bw(3) by (intro exI [of _ ?buf2]) (simp add: enc_ok_def)
  qed
qed

lemma flush_rle_correct:
  assumes "enc_ok A bw bs0 enc xs (enc_repeat_count enc + r)" and "enc_bitpack_count enc = 0"
    and "enc_repeat_count enc < 2 ^ 31" and "enc_repeat_count enc > 0 \<Longrightarrow> take_bit bw (enc_prev_value enc) = enc_prev_value enc"
  shows "\<exists>buf'. flush_rle A enc = Some (enc\<lparr>enc_buffer := buf', enc_repeat_count := 0\<rparr>) \<and>
    enc_ok A bw bs0 (enc\<lparr>enc_buffer := buf', enc_repeat_count := 0\<rparr>)
      (xs @ replicate (enc_repeat_count enc) (enc_prev_value enc)) r"
proof (cases "enc_repeat_count enc = 0")
  case True
  then have "flush_rle A enc = Some (enc\<lparr>enc_buffer := enc_buffer enc, enc_repeat_count := 0\<rparr>)"
    by (simp add: flush_rle_def)
  then show ?thesis using assms(1) True by (intro exI [of _ "enc_buffer enc"]) (simp add: enc_ok_def)
next
  case False
  let ?k = "enc_repeat_count enc" and ?v = "enc_prev_value enc"
  let ?cs = "carquet_encode_varint32 (of_nat (?k * 2)) @ le_bytes ((bw + 7) div 8) ?v"
  have bw: "bw \<le> 32" "enc_bit_width enc = bw" using assms(1) by (auto simp: enc_ok_def)
  have h: "holds A bw bs0 (enc_buffer enc) xs (length (replicate ?k ?v) + r)"
    using assms(1,2) by (auto simp: enc_ok_def)
  have c: "coded bw ?cs (replicate ?k ?v)" using coded_repeated [OF bw(1)] assms(3,4) False by simp
  have "flush_rle A enc = Some (enc\<lparr>enc_buffer := snd (carquet_buffer_append A (enc_buffer enc) ?cs), enc_repeat_count := 0\<rparr>)"
    using False bw write_value_bytes_eq [OF bw(1)] by (simp add: flush_rle_def Let_def)
  then show ?thesis using holds_append [OF h c] assms(1,2)
    by (intro exI [of _ "snd (carquet_buffer_append A (enc_buffer enc) ?cs)"]) (simp add: enc_ok_def)
qed

text \<open>The fields that pushing values to the bit-pack buffer leaves alone.\<close>

definition same_run :: "carquet_rle_encoder \<Rightarrow> carquet_rle_encoder \<Rightarrow> bool" where
  "same_run enc enc' \<longleftrightarrow> enc_prev_value enc' = enc_prev_value enc \<and> enc_repeat_count enc' = enc_repeat_count enc \<and>
     enc_has_prev enc' = enc_has_prev enc"

lemma enc_ok_push:
  assumes "enc_ok A bw bs0 enc xs (Suc r)" and "enc_bitpack_count enc < 8" and "take_bit bw v = v"
  shows "wr (enc_bitpack_buffer enc) (enc_bitpack_count enc) v = Some ((enc_bitpack_buffer enc)[enc_bitpack_count enc := v])"
    and "enc_ok A bw bs0 (enc\<lparr>enc_bitpack_buffer := (enc_bitpack_buffer enc)[enc_bitpack_count enc := v],
      enc_bitpack_count := enc_bitpack_count enc + 1, enc_bitpack_total := enc_bitpack_total enc + 1\<rparr>) (xs @ [v]) r"
proof -
  let ?c = "enc_bitpack_count enc" and ?b = "enc_bitpack_buffer enc"
  have l: "length ?b = 8" using assms(1) by (simp add: enc_ok_def)
  show "wr ?b ?c v = Some (?b[?c := v])" using l assms(2) by (simp add: wr_def)
  have t: "take (Suc ?c) (?b[?c := v]) = take ?c ?b @ [v]"
    using l assms(2) by (simp add: take_Suc_conv_app_nth)
  show "enc_ok A bw bs0 (enc\<lparr>enc_bitpack_buffer := ?b[?c := v],
      enc_bitpack_count := ?c + 1, enc_bitpack_total := enc_bitpack_total enc + 1\<rparr>) (xs @ [v]) r"
    using assms l by (auto simp: enc_ok_def t)
qed

lemma buffer_repeats_correct:
  assumes "enc_ok A bw bs0 enc xs (k + r)" and "enc_bitpack_count enc < 8"
    and "k > 0 \<Longrightarrow> take_bit bw (enc_prev_value enc) = enc_prev_value enc"
  shows "\<exists>enc'. buffer_repeats k A enc = Some enc' \<and> enc_ok A bw bs0 enc' (xs @ replicate k (enc_prev_value enc)) r \<and>
    enc_bitpack_count enc' < 8 \<and> same_run enc enc'"
  using assms
proof (induction k arbitrary: enc xs)
  case 0
  then show ?case by (simp add: same_run_def)
next
  case (Suc k)
  let ?v = "enc_prev_value enc"
  let ?e1 = "enc\<lparr>enc_bitpack_buffer := (enc_bitpack_buffer enc)[enc_bitpack_count enc := ?v],
      enc_bitpack_count := enc_bitpack_count enc + 1, enc_bitpack_total := enc_bitpack_total enc + 1\<rparr>"
  have v: "take_bit bw ?v = ?v" using Suc.prems by simp
  have "enc_ok A bw bs0 enc xs (Suc (k + r))" using Suc.prems by simp
  note push = enc_ok_push [OF this Suc.prems(2) v]
  obtain e2 where e2: "(if enc_bitpack_count ?e1 = 8 then flush_bitpack A ?e1 else Some ?e1) = Some e2"
    "enc_ok A bw bs0 e2 (xs @ [?v]) (k + r)" "enc_bitpack_count e2 < 8" "same_run enc e2"
  proof (cases "enc_bitpack_count ?e1 = 8")
    case True
    from flush_bitpack_correct [OF push(2)] obtain buf' where
      "flush_bitpack A ?e1 = Some (?e1\<lparr>enc_buffer := buf', enc_bitpack_count := 0, enc_bitpack_total := 0\<rparr>)"
      "enc_ok A bw bs0 (?e1\<lparr>enc_buffer := buf', enc_bitpack_count := 0, enc_bitpack_total := 0\<rparr>) (xs @ [?v]) (k + r)"
      by blast
    then show ?thesis using True
      by (intro that [of "?e1\<lparr>enc_buffer := buf', enc_bitpack_count := 0, enc_bitpack_total := 0\<rparr>"])
        (simp_all add: same_run_def)
  next
    case False
    then show ?thesis using push(2) Suc.prems(2) by (intro that [of ?e1]) (simp_all add: same_run_def)
  qed
  have pv: "enc_prev_value e2 = ?v" using e2(4) by (simp add: same_run_def)
  obtain enc' where "buffer_repeats k A e2 = Some enc'" "enc_ok A bw bs0 enc' ((xs @ [?v]) @ replicate k ?v) r"
    "enc_bitpack_count enc' < 8" "same_run e2 enc'"
    using Suc.IH [OF e2(2,3)] v pv by auto
  moreover have "buffer_repeats (Suc k) A enc = buffer_repeats k A e2"
    by (simp only: buffer_repeats.simps push(1) Let_def bind.bind_lunit e2(1))
  ultimately show ?case using e2(4) by (auto simp: same_run_def)
qed

text \<open>
  The invariant of the encoder: \<open>vs\<close> are the values put so far, and \<open>N\<close> more may come.
\<close>

definition enc_inv :: "allocator \<Rightarrow> nat \<Rightarrow> u8 list \<Rightarrow> carquet_rle_encoder \<Rightarrow> u32 list \<Rightarrow> nat \<Rightarrow> bool" where
  "enc_inv A bw bs0 enc vs N \<longleftrightarrow> enc_bitpack_count enc < 8 \<and> enc_repeat_count enc + N < 2 ^ 31 \<and>
     (enc_has_prev enc \<longrightarrow> take_bit bw (enc_prev_value enc) = enc_prev_value enc) \<and>
     (\<not> enc_has_prev enc \<longrightarrow> enc_repeat_count enc = 0) \<and>
     (enc_repeat_count enc = 0 \<longrightarrow> enc_bitpack_count enc = 0) \<and>
     (\<exists>xs. enc_ok A bw bs0 enc xs (enc_repeat_count enc + N) \<and>
        vs = xs @ replicate (enc_repeat_count enc) (enc_prev_value enc))"

lemma encoder_init_inv:
  assumes "bw \<le> 32" and "buf_room A buf (9 * N)" and "N < 2 ^ 31"
  shows "enc_inv A bw (contents buf) (carquet_rle_encoder_init buf bw) [] N"
  using assms by (auto simp: enc_inv_def enc_ok_def carquet_rle_encoder_init_def holds_def)

lemma finish_run:
  assumes "enc_inv A bw bs0 enc vs N"
  shows "\<exists>e1. (if enc_repeat_count enc \<ge> 8 then do { e \<leftarrow> flush_bitpack A enc; flush_rle A e }
      else do { e \<leftarrow> buffer_repeats (enc_repeat_count enc) A enc; Some (e\<lparr>enc_repeat_count := 0\<rparr>) }) = Some e1 \<and>
    enc_ok A bw bs0 e1 vs N \<and> enc_bitpack_count e1 < 8 \<and> enc_repeat_count e1 = 0 \<and>
    enc_has_prev e1 = enc_has_prev enc \<and> enc_prev_value e1 = enc_prev_value enc \<and>
    (enc_repeat_count enc \<ge> 8 \<longrightarrow> enc_bitpack_count e1 = 0)"
proof -
  let ?k = "enc_repeat_count enc" and ?v = "enc_prev_value enc"
  obtain xs where xs: "enc_ok A bw bs0 enc xs (?k + N)" "vs = xs @ replicate ?k ?v"
    and inv: "enc_bitpack_count enc < 8" "?k + N < 2 ^ 31" "?k > 0 \<Longrightarrow> take_bit bw ?v = ?v"
    using assms by (auto simp: enc_inv_def)
  show ?thesis
  proof (cases "?k \<ge> 8")
    case True
    obtain buf1 where f: "flush_bitpack A enc = Some (enc\<lparr>enc_buffer := buf1, enc_bitpack_count := 0, enc_bitpack_total := 0\<rparr>)"
      "enc_ok A bw bs0 (enc\<lparr>enc_buffer := buf1, enc_bitpack_count := 0, enc_bitpack_total := 0\<rparr>) xs (?k + N)"
      using flush_bitpack_correct [OF xs(1)] by blast
    let ?e = "enc\<lparr>enc_buffer := buf1, enc_bitpack_count := 0, enc_bitpack_total := 0\<rparr>"
    obtain buf2 where "flush_rle A ?e = Some (?e\<lparr>enc_buffer := buf2, enc_repeat_count := 0\<rparr>)"
      "enc_ok A bw bs0 (?e\<lparr>enc_buffer := buf2, enc_repeat_count := 0\<rparr>) vs N"
      using flush_rle_correct [of A bw bs0 ?e xs N] f(2) inv xs(2) by auto
    then show ?thesis using f(1) True by simp
  next
    case False
    obtain e where "buffer_repeats ?k A enc = Some e" "enc_ok A bw bs0 e vs N" "enc_bitpack_count e < 8" "same_run enc e"
      using buffer_repeats_correct [OF xs(1) inv(1,3)] xs(2) by auto
    then show ?thesis using False by (auto simp: enc_ok_def same_run_def)
  qed
qed

lemma put_correct:
  assumes "enc_inv A bw bs0 enc vs (Suc N)" and "take_bit bw v = v"
  shows "\<exists>enc'. carquet_rle_encoder_put A enc v = Some (CARQUET_OK, enc') \<and> enc_inv A bw bs0 enc' (vs @ [v]) N \<and>
    enc_has_prev enc' \<and> enc_prev_value enc' = v"
proof -
  obtain xs where ok: "enc_ok A bw bs0 enc xs (enc_repeat_count enc + Suc N)"
    and vs: "vs = xs @ replicate (enc_repeat_count enc) (enc_prev_value enc)" using assms(1) by (auto simp: enc_inv_def)
  have st: "enc_status enc = CARQUET_OK" using ok by (simp add: enc_ok_def)
  consider (first) "\<not> enc_has_prev enc" | (same) "enc_has_prev enc" "v = enc_prev_value enc"
    | (new) "enc_has_prev enc" "v \<noteq> enc_prev_value enc" by blast
  then show ?thesis
  proof cases
    case first
    then show ?thesis using assms ok vs st
      by (simp add: carquet_rle_encoder_put_def enc_inv_def enc_ok_def)
  next
    case same
    then show ?thesis using assms ok vs st
      by (simp add: carquet_rle_encoder_put_def enc_inv_def enc_ok_def replicate_append_same)
  next
    case new
    obtain e1 where e1: "(if enc_repeat_count enc \<ge> 8 then do { e \<leftarrow> flush_bitpack A enc; flush_rle A e }
        else do { e \<leftarrow> buffer_repeats (enc_repeat_count enc) A enc; Some (e\<lparr>enc_repeat_count := 0\<rparr>) }) = Some e1"
      "enc_ok A bw bs0 e1 vs (Suc N)" "enc_bitpack_count e1 < 8" "enc_repeat_count e1 = 0" "enc_has_prev e1 = enc_has_prev enc"
      using finish_run [OF assms(1)] by blast
    have "carquet_rle_encoder_put A enc v = Some (CARQUET_OK, e1\<lparr>enc_prev_value := v, enc_repeat_count := 1\<rparr>)"
      using new st e1(1) by (simp add: carquet_rle_encoder_put_def del: if_split)
    then show ?thesis using e1 assms new by (auto simp: enc_inv_def enc_ok_def)
  qed
qed

lemma put_repeat_correct:
  assumes "enc_inv A bw bs0 enc vs (k + N)" and "take_bit bw v = v" and "0 < k"
  shows "\<exists>enc'. carquet_rle_encoder_put_repeat A enc v (int k) = Some (CARQUET_OK, enc') \<and>
    enc_inv A bw bs0 enc' (vs @ replicate k v) N"
proof -
  obtain xs where ok: "enc_ok A bw bs0 enc xs (enc_repeat_count enc + (k + N))"
    and vs: "vs = xs @ replicate (enc_repeat_count enc) (enc_prev_value enc)" using assms(1) by (auto simp: enc_inv_def)
  have st: "enc_status enc = CARQUET_OK" using ok by (simp add: enc_ok_def)
  consider (first) "\<not> enc_has_prev enc" | (same) "enc_has_prev enc" "v = enc_prev_value enc"
    | (new) "enc_has_prev enc" "v \<noteq> enc_prev_value enc" by blast
  then show ?thesis
  proof cases
    case first
    then show ?thesis using assms ok vs st
      by (simp add: carquet_rle_encoder_put_repeat_def enc_inv_def enc_ok_def)
  next
    case same
    then show ?thesis using assms ok vs st
      by (simp add: carquet_rle_encoder_put_repeat_def enc_inv_def enc_ok_def replicate_add add.assoc)
  next
    case new
    obtain k' where k': "k = Suc k'" using assms(3) by (cases k) auto
    then have "enc_inv A bw bs0 enc vs (Suc (k' + N))" using assms(1) by simp
    from put_correct [OF this assms(2)] obtain e where e: "carquet_rle_encoder_put A enc v = Some (CARQUET_OK, e)"
      "enc_inv A bw bs0 e (vs @ [v]) (k' + N)" "enc_has_prev e" "enc_prev_value e = v" by blast
    have "enc_inv A bw bs0 (e\<lparr>enc_repeat_count := enc_repeat_count e + k'\<rparr>) (vs @ replicate k v) N"
      using e k' by (auto simp: enc_inv_def enc_ok_def replicate_add add.assoc)
    moreover have "nat (int k) - 1 = k'" using k' by simp
    ultimately show ?thesis using new e(1) st assms(3) by (simp add: carquet_rle_encoder_put_repeat_def)
  qed
qed

lemma flush_correct:
  assumes "enc_inv A bw bs0 enc vs N"
  shows "\<exists>enc'. carquet_rle_encoder_flush A enc = Some (CARQUET_OK, enc') \<and>
    enc_inv A bw bs0 enc' vs N \<and> enc_repeat_count enc' = 0 \<and> holds A bw bs0 (enc_buffer enc') vs N"
proof (cases "enc_repeat_count enc = 0")
  case True
  then show ?thesis using assms by (auto simp: carquet_rle_encoder_flush_def enc_inv_def enc_ok_def)
next
  case False
  obtain e1 where e1: "(if enc_repeat_count enc \<ge> 8 then do { e \<leftarrow> flush_bitpack A enc; flush_rle A e }
      else do { e \<leftarrow> buffer_repeats (enc_repeat_count enc) A enc; Some (e\<lparr>enc_repeat_count := 0\<rparr>) }) = Some e1"
    "enc_ok A bw bs0 e1 vs N" "enc_bitpack_count e1 < 8" "enc_repeat_count e1 = 0"
    "enc_has_prev e1 = enc_has_prev enc" "enc_prev_value e1 = enc_prev_value enc"
    "enc_repeat_count enc \<ge> 8 \<longrightarrow> enc_bitpack_count e1 = 0"
    using finish_run [OF assms] by blast
  obtain e2 where e2: "(if enc_repeat_count enc < 8 \<and> enc_bitpack_count e1 > 0 then flush_bitpack A e1 else Some e1) = Some e2"
    "enc_ok A bw bs0 e2 vs N" "enc_bitpack_count e2 = 0" "same_run e1 e2"
  proof (cases "enc_bitpack_count e1 = 0")
    case True
    then show ?thesis using e1(2) by (intro that [of e1]) (simp_all add: same_run_def)
  next
    case False
    obtain buf' where "flush_bitpack A e1 = Some (e1\<lparr>enc_buffer := buf', enc_bitpack_count := 0, enc_bitpack_total := 0\<rparr>)"
      "enc_ok A bw bs0 (e1\<lparr>enc_buffer := buf', enc_bitpack_count := 0, enc_bitpack_total := 0\<rparr>) vs N"
      using flush_bitpack_correct [OF e1(2)] by blast
    then show ?thesis using False e1(7)
      by (intro that [of "e1\<lparr>enc_buffer := buf', enc_bitpack_count := 0, enc_bitpack_total := 0\<rparr>"])
        (auto simp: same_run_def)
  qed
  have "enc_status enc = CARQUET_OK" using assms by (auto simp: enc_inv_def enc_ok_def)
  then have "carquet_rle_encoder_flush A enc = Some (CARQUET_OK, e2)"
    using False e1(1,7) e2(1) by (cases "enc_repeat_count enc \<ge> 8") (auto simp: carquet_rle_encoder_flush_def bind_eq_Some_conv split: if_splits)
  moreover have "enc_inv A bw bs0 e2 vs N"
    using assms e1(4,5,6) e2(2,3,4) by (auto simp: enc_inv_def same_run_def)
  ultimately show ?thesis using e1(4) e2 by (auto simp: enc_ok_def same_run_def)
qed

lemma put_all_correct:
  assumes "enc_inv A bw bs0 enc us (length vs + N)" and "\<forall>v \<in> set vs. take_bit bw v = v"
  shows "\<exists>enc'. put_all A enc vs = Some (CARQUET_OK, enc') \<and> enc_inv A bw bs0 enc' (us @ vs) N"
  using assms
proof (induction vs arbitrary: enc us)
  case (Cons v vs)
  have "enc_inv A bw bs0 enc us (Suc (length vs + N))" using Cons.prems by simp
  from put_correct [OF this, of v] obtain e where e: "carquet_rle_encoder_put A enc v = Some (CARQUET_OK, e)"
    "enc_inv A bw bs0 e (us @ [v]) (length vs + N)" using Cons.prems by auto
  from Cons.IH [OF e(2)] show ?case using e(1) Cons.prems by auto
qed simp

lemma encode_all_correct:
  assumes "bw \<le> 32" and "buf_room A buf (9 * length vs)" and "length vs < 2 ^ 31"
    and "\<forall>v \<in> set vs. take_bit bw v = v"
  shows "\<exists>buf' bs. carquet_rle_encode_all A vs bw buf = Some (CARQUET_OK, buf') \<and>
    contents buf' = contents buf @ bs \<and> coded bw bs vs \<and> buf_room A buf' 0"
proof -
  obtain e where e: "put_all A (carquet_rle_encoder_init buf bw) vs = Some (CARQUET_OK, e)"
    "enc_inv A bw (contents buf) e vs 0"
    using put_all_correct [of A bw "contents buf" _ "[]" vs 0] encoder_init_inv [OF assms(1,2,3)] assms(4) by auto
  from flush_correct [OF e(2)] e(1) show ?thesis
    by (auto simp: carquet_rle_encode_all_def holds_def)
qed

text \<open>Encoding run by run.\<close>

fun put_runs :: "allocator \<Rightarrow> carquet_rle_encoder \<Rightarrow> (u32 \<times> nat) list \<Rightarrow> carquet_rle_encoder option" where
  "put_runs A enc [] = Some enc"
| "put_runs A enc ((v, k) # runs) = do {
     (status, enc') \<leftarrow> carquet_rle_encoder_put_repeat A enc v (int k);
     put_runs A enc' runs
   }"

definition expand :: "(u32 \<times> nat) list \<Rightarrow> u32 list" where
  "expand runs = concat (map (\<lambda>(v, k). replicate k v) runs)"

lemma put_runs_correct:
  assumes "enc_inv A bw bs0 enc us (length (expand runs) + N)" and "\<forall>(v, k) \<in> set runs. take_bit bw v = v"
  shows "\<exists>enc'. put_runs A enc runs = Some enc' \<and> enc_inv A bw bs0 enc' (us @ expand runs) N"
  using assms
proof (induction runs arbitrary: enc us)
  case (Cons run runs)
  obtain v k where run: "run = (v, k)" by fastforce
  show ?case
  proof (cases "k = 0")
    case True
    have "carquet_rle_encoder_put_repeat A enc v (int k) = Some (enc_status enc, enc)"
      using True by (simp add: carquet_rle_encoder_put_repeat_def)
    then show ?thesis using Cons run True by (auto simp: expand_def)
  next
    case False
    have "enc_inv A bw bs0 enc us (k + (length (expand runs) + N))"
      using Cons.prems(1) run by (simp add: expand_def add.assoc)
    from put_repeat_correct [OF this, of v] obtain e where
      "carquet_rle_encoder_put_repeat A enc v (int k) = Some (CARQUET_OK, e)"
      "enc_inv A bw bs0 e (us @ replicate k v) (length (expand runs) + N)"
      using Cons.prems(2) run False by auto
    then show ?thesis using Cons.IH [of e "us @ replicate k v"] Cons.prems(2) run by (auto simp: expand_def)
  qed
qed (simp add: expand_def)

section \<open>Properties\<close>

lemma level_width:
  assumes "unat (l :: 16 word) < 2 ^ bw" and "bw \<le> 15"
  shows "(scast l :: u32) = ucast l" and "take_bit bw (scast l :: u32) = scast l"
proof -
  have t: "take_bit bw l = l" using assms(1) by (rule fits_width)
  have b: "bit l n \<Longrightarrow> n < bw" for n using t by (metis bit_take_bit_iff)
  show s: "(scast l :: u32) = ucast l"
  proof (rule bit_word_eqI)
    fix n assume "n < LENGTH(32)"
    show "bit (scast l :: u32) n = bit (ucast l :: u32) n"
      using b [of 15] b [of n] assms(2) by (auto simp: bit_signed_iff bit_unsigned_iff min_def)
  qed
  show "take_bit bw (scast l :: u32) = scast l"
    unfolding s by (rule bit_word_eqI) (auto simp: bit_take_bit_iff bit_unsigned_iff dest: b)
qed

lemma coded_decodes:
  assumes "coded bw bs vs" and "bw \<le> 32"
  shows "carquet_rle_decode_all bs (length bs) (int bw) (int (length vs)) = Some vs"
    and "carquet_rle_decode_levels bs (length bs) (int bw) (int (length vs)) = Some (map ucast vs)"
proof -
  have s: "rle_stream bw bs (length bs) 0 = vs" "rle_complete bw bs (length bs) 0"
    using coded_all [OF assms(1), of "[]"] by simp_all
  have st: "dec_stream (carquet_rle_decoder_init bs (length bs) (int bw)) = vs"
    using decoder_init_stream [of "int bw" bs "length bs"] assms(2) s by simp
  show "carquet_rle_decode_all bs (length bs) (int bw) (int (length vs)) = Some vs"
    using get_batch_correct [OF decoder_init_wf [of "length bs" bs "int bw"], of "int (length vs)"] st
    by (auto simp: carquet_rle_decode_all_def)
  show "carquet_rle_decode_levels bs (length bs) (int bw) (int (length vs)) = Some (map ucast vs)"
    using decode_levels_stream [of "length bs" bs "int bw" "int (length vs)"] st s by auto
qed

text \<open>C2: What the RLE encoder appends to a buffer with room decodes to exactly the values put in, for
  every width up to 32, every mix of runs and changing values below 2 to the width, and up to 2^31 - 1 of
  them, and nothing that was in the buffer before changes.\<close>

theorem rle_roundtrip:
  assumes "bw \<le> 32" and "buf_room A buf (9 * length vs)" and "length vs < 2 ^ 31"
    and "\<forall>v \<in> set vs. unat v < 2 ^ bw"
  shows "\<exists>buf' bs. carquet_rle_encode_all A vs bw buf = Some (CARQUET_OK, buf') \<and>
    contents buf' = contents buf @ bs \<and> length bs \<le> 9 * length vs \<and>
    carquet_rle_decode_all bs (length bs) (int bw) (int (length vs)) = Some vs"
proof -
  have "\<forall>v \<in> set vs. take_bit bw v = v"
    using assms(4) by (simp add: fits_width)
  from encode_all_correct [OF assms(1-3) this] show ?thesis
    using coded_decodes(1) assms(1) by (auto simp: coded_def)
qed

lemma good_room: "n \<le> SIZE_MAX \<Longrightarrow> buf_room good_allocator carquet_buffer_init n"
  using init_wf by (simp add: buf_room_def buf_growable_def good_allocator_def carquet_buffer_init_def contents_def)

lemma rle_roundtrip_witness:
  "\<exists>buf' bs. carquet_rle_encode_all good_allocator [1, 1, 2] 2 carquet_buffer_init = Some (CARQUET_OK, buf') \<and>
    contents buf' = bs \<and> carquet_rle_decode_all bs (length bs) 2 3 = Some [1, 1, 2]"
  using rle_roundtrip [of 2 good_allocator carquet_buffer_init "[1, 1, 2]"] good_room [of 27]
  by (auto simp: SIZE_MAX_def contents_def carquet_buffer_init_def)

text \<open>Definition and repetition levels survive the round trip: what \<open>carquet_rle_encode_levels\<close>
  writes, \<open>carquet_rle_decode_levels\<close> reads back, for every level that fits its width.\<close>

theorem levels_roundtrip:
  assumes "bw \<le> 15" and "buf_room A buf (9 * length ls)" and "length ls < 2 ^ 31"
    and "\<forall>l \<in> set ls. unat l < 2 ^ bw"
  shows "\<exists>buf' bs. carquet_rle_encode_levels A ls bw buf = Some (CARQUET_OK, buf') \<and>
    contents buf' = contents buf @ bs \<and>
    carquet_rle_decode_levels bs (length bs) (int bw) (int (length ls)) = Some ls"
proof -
  have "\<forall>v \<in> set (map scast ls :: u32 list). take_bit bw v = v" using assms(1,4) level_width(2) by auto
  then obtain buf' bs where b: "carquet_rle_encode_all A (map scast ls) bw buf = Some (CARQUET_OK, buf')"
    "contents buf' = contents buf @ bs" "coded bw bs (map scast ls)"
    using encode_all_correct [of bw A buf "map scast ls"] assms(1-3) by auto
  have "map ucast (map scast ls :: u32 list) = ls"
    unfolding map_map
    by (rule map_idI) (use assms(1,4) level_width(1) [of _ bw] ucast_up_ucast_id [where 'a = 16 and 'b = 32] in \<open>auto simp: is_up\<close>)
  then have "carquet_rle_decode_levels bs (length bs) (int bw) (int (length ls)) = Some ls"
    using coded_decodes(2) [OF b(3)] assms(1) by simp
  then show ?thesis using b(1,2) by (auto simp: carquet_rle_encode_levels_def)
qed

lemma levels_roundtrip_witness:
  "\<exists>buf' bs. carquet_rle_encode_levels good_allocator [1, 0] 1 carquet_buffer_init = Some (CARQUET_OK, buf') \<and>
    contents buf' = bs \<and> carquet_rle_decode_levels bs (length bs) 1 2 = Some [1, 0]"
  using levels_roundtrip [of 1 good_allocator carquet_buffer_init "[1, 0]"] good_room [of 18]
  by (auto simp: SIZE_MAX_def contents_def carquet_buffer_init_def)

text \<open>Putting runs with \<open>carquet_rle_encoder_put_repeat\<close> and flushing is the same to a reader as
  putting every value on its own: the bytes decode to the expanded runs. A second flush writes
  nothing more.\<close>

theorem put_repeat_roundtrip:
  assumes "bw \<le> 32" and "buf_room A buf (9 * length (expand runs))" and "length (expand runs) < 2 ^ 31"
    and "\<forall>(v, k) \<in> set runs. take_bit bw v = v"
  shows "\<exists>enc enc' bs. put_runs A (carquet_rle_encoder_init buf bw) runs = Some enc \<and>
    carquet_rle_encoder_flush A enc = Some (CARQUET_OK, enc') \<and>
    contents (enc_buffer enc') = contents buf @ bs \<and>
    carquet_rle_decode_all bs (length bs) (int bw) (int (length (expand runs))) = Some (expand runs) \<and>
    carquet_rle_encoder_flush A enc' = Some (CARQUET_OK, enc')"
proof -
  obtain e where e: "put_runs A (carquet_rle_encoder_init buf bw) runs = Some e"
    "enc_inv A bw (contents buf) e (expand runs) 0"
    using put_runs_correct [of A bw "contents buf" _ "[]" runs 0] encoder_init_inv [OF assms(1-3)] assms(4) by auto
  obtain e' where e': "carquet_rle_encoder_flush A e = Some (CARQUET_OK, e')"
    "enc_inv A bw (contents buf) e' (expand runs) 0" "enc_repeat_count e' = 0"
    "holds A bw (contents buf) (enc_buffer e') (expand runs) 0"
    using flush_correct [OF e(2)] by blast
  have "carquet_rle_encoder_flush A e' = Some (CARQUET_OK, e')"
    using e'(2,3) by (auto simp: carquet_rle_encoder_flush_def enc_inv_def enc_ok_def)
  then show ?thesis using e(1) e'(1,4) coded_decodes(1) [OF _ assms(1)] by (auto simp: holds_def)
qed

lemma put_repeat_roundtrip_witness:
  "\<exists>enc. put_runs good_allocator (carquet_rle_encoder_init carquet_buffer_init 3) [(5, 20), (2, 1)] = Some enc"
  using put_repeat_roundtrip [of 3 good_allocator carquet_buffer_init "[(5, 20), (2, 1)]"] good_room [of 189]
  by (auto simp: SIZE_MAX_def expand_def take_bit_eq_mod)

lemma lost_append: "snd (carquet_buffer_append failing_allocator carquet_buffer_init bs) = carquet_buffer_init"
proof -
  have "carquet_buffer_append failing_allocator carquet_buffer_init bs \<in> {(CARQUET_OK, carquet_buffer_init)} \<union>
      {(CARQUET_ERROR_OUT_OF_MEMORY, carquet_buffer_init)}"
    by (auto simp: carquet_buffer_append_def add_overflows_size_def ensure_capacity_def carquet_buffer_init_def
        failing_allocator_def carquet_mem_realloc_def Let_def)
  then show ?thesis by auto
qed

text \<open>The encoder does not look at the status of its appends: when the allocation of the output
  fails, \<open>carquet_rle_encode_all\<close> reports success and the values are lost.\<close>

theorem encode_ignores_failure:
  "carquet_rle_encode_all failing_allocator [5] 8 carquet_buffer_init = Some (CARQUET_OK, carquet_buffer_init)"
  by (simp add: carquet_rle_encode_all_def carquet_rle_encoder_put_def carquet_rle_encoder_init_def
      carquet_rle_encoder_flush_def flush_bitpack_def flush_bitpack_as_rle_def as_rle_loop.simps count_run.simps
      write_value_bytes_def rle_value_bytes_def rd_bytes_def wr_def replicate_8 Let_def lost_append)

text \<open>The header of a repeated run holds the length shifted left in 32 bits: a run of 2^31 values is
  written as the empty run, and decodes to none of them.\<close>

theorem long_run_lost:
  "\<exists>enc. flush_rle good_allocator (carquet_rle_encoder_init carquet_buffer_init 8
        \<lparr>enc_prev_value := 4, enc_has_prev := True, enc_repeat_count := 2 ^ 31\<rparr>) = Some enc \<and>
    contents (enc_buffer enc) = [0, 4] \<and> carquet_rle_decode_all [0, 4] 2 8 (2 ^ 31) = Some []"
proof -
  let ?enc = "carquet_rle_encoder_init carquet_buffer_init 8
    \<lparr>enc_prev_value := 4, enc_has_prev := True, enc_repeat_count := 2 ^ 31\<rparr>"
  have h: "carquet_encode_varint32 (of_nat (2 ^ 31 * 2)) = [0]" by (simp add: encode_varint32_nat varint_nat.simps)
  have w: "write_value_bytes 4 (rle_value_bytes 8) = Some [4]"
    by (simp add: write_value_bytes_def rle_value_bytes_def rd_bytes_def)
  have f: "flush_rle good_allocator ?enc = Some (?enc\<lparr>enc_buffer :=
      snd (carquet_buffer_append good_allocator carquet_buffer_init [0, 4]), enc_repeat_count := 0\<rparr>)"
    using h w by (simp add: flush_rle_def carquet_rle_encoder_init_def Let_def)
  have r: "buf_room good_allocator carquet_buffer_init (length [0, 4 :: u8] + 0)" by (rule good_room) (simp add: SIZE_MAX_def)
  have c: "contents (snd (carquet_buffer_append good_allocator carquet_buffer_init [0, 4])) = [0, 4]"
    using bsink.put_room_OK(3) [OF init_wf r] by (simp add: contents_def carquet_buffer_init_def)
  have "rle_stream 8 [0, 4] 2 0 = []" by code_simp
  then have d: "dec_stream (carquet_rle_decoder_init [0, 4] 2 8) = []" by (simp add: decoder_init_stream)
  have "carquet_rle_decode_all [0, 4] 2 8 (2 ^ 31) = Some []"
    using get_batch_correct [OF decoder_init_wf [of 2 "[0, 4]" 8], of "2 ^ 31"] d
    by (auto simp: carquet_rle_decode_all_def)
  then show ?thesis using f c by simp
qed

end
