(* ===== verification/Thrift_Decode.thy ===== *)
theory Thrift_Decode
  imports Buffer
begin

text \<open>
  Component src/thrift/thrift_decode.c: the reader of the Thrift compact protocol, in which all
  the metadata of a Parquet file is written.

  The decoder is the C struct over the bounds-checked reader of \<open>Buffer\<close>. Operations return
  None on an access outside an array. Signed integers are words read with \<open>sint\<close>, a double is
  its bit pattern. A NULL pointer is None in the first component of a result.
\<close>

section \<open>Types and state\<close>

text \<open>The enumeration; a nibble that is none of its constants is kept as a number.\<close>

datatype thrift_type =
    THRIFT_TYPE_STOP
  | THRIFT_TYPE_TRUE
  | THRIFT_TYPE_FALSE
  | THRIFT_TYPE_BYTE
  | THRIFT_TYPE_I16
  | THRIFT_TYPE_I32
  | THRIFT_TYPE_I64
  | THRIFT_TYPE_DOUBLE
  | THRIFT_TYPE_BINARY
  | THRIFT_TYPE_LIST
  | THRIFT_TYPE_SET
  | THRIFT_TYPE_MAP
  | THRIFT_TYPE_STRUCT
  | THRIFT_TYPE_UUID
  | THRIFT_TYPE_OTHER u8

definition type_of_nibble :: "u8 \<Rightarrow> thrift_type" where
  "type_of_nibble b =
     (if b = 0 then THRIFT_TYPE_STOP else if b = 1 then THRIFT_TYPE_TRUE
      else if b = 2 then THRIFT_TYPE_FALSE else if b = 3 then THRIFT_TYPE_BYTE
      else if b = 4 then THRIFT_TYPE_I16 else if b = 5 then THRIFT_TYPE_I32
      else if b = 6 then THRIFT_TYPE_I64 else if b = 7 then THRIFT_TYPE_DOUBLE
      else if b = 8 then THRIFT_TYPE_BINARY else if b = 9 then THRIFT_TYPE_LIST
      else if b = 10 then THRIFT_TYPE_SET else if b = 11 then THRIFT_TYPE_MAP
      else if b = 12 then THRIFT_TYPE_STRUCT else if b = 13 then THRIFT_TYPE_UUID
      else THRIFT_TYPE_OTHER b)"

definition THRIFT_MAX_NESTING :: nat where
  "THRIFT_MAX_NESTING = 32"

record thrift_decoder =
  td_reader :: carquet_buffer_reader
  td_last_field_id :: "u16 list"
  td_nesting_level :: nat
  td_bool_pending :: bool
  td_bool_value :: bool
  td_status :: carquet_status
  td_error_message :: string

text \<open>The first error stays. Every message is shorter than the 128 bytes of the field.\<close>

definition td_set_error :: "thrift_decoder \<Rightarrow> carquet_status \<Rightarrow> string \<Rightarrow> thrift_decoder" where
  "td_set_error dec status msg =
     (if td_status dec = CARQUET_OK then dec\<lparr>td_status := status, td_error_message := msg\<rparr> else dec)"

definition has_bytes :: "thrift_decoder \<Rightarrow> nat \<Rightarrow> bool" where
  "has_bytes dec n = carquet_buffer_reader_has (td_reader dec) n"

definition read_byte_raw :: "thrift_decoder \<Rightarrow> (u8 \<times> thrift_decoder) option" where
  "read_byte_raw dec =
     (if \<not> has_bytes dec 1 then
        Some (0, td_set_error dec CARQUET_ERROR_THRIFT_TRUNCATED ''Unexpected end of data'')
      else do {
        r \<leftarrow> carquet_buffer_reader_read_byte (td_reader dec);
        (case r of
           Inl _ \<Rightarrow> None
         | Inr (b, rdr) \<Rightarrow> Some (b, dec\<lparr>td_reader := rdr\<rparr>))
      })"

definition thrift_decoder_init :: "u8 list \<Rightarrow> nat \<Rightarrow> thrift_decoder" where
  "thrift_decoder_init d n =
     \<lparr>td_reader = carquet_buffer_reader_init_data d n, td_last_field_id = replicate THRIFT_MAX_NESTING 0,
      td_nesting_level = 0, td_bool_pending = False, td_bool_value = False, td_status = CARQUET_OK,
      td_error_message = []\<rparr>"

definition thrift_decoder_init_reader :: "carquet_buffer_reader \<Rightarrow> thrift_decoder" where
  "thrift_decoder_init_reader r =
     \<lparr>td_reader = r, td_last_field_id = replicate THRIFT_MAX_NESTING 0,
      td_nesting_level = 0, td_bool_pending = False, td_bool_value = False, td_status = CARQUET_OK,
      td_error_message = []\<rparr>"

section \<open>Numbers\<close>

text \<open>The loop runs while \<open>shift < 64\<close>: the shifts 0, 7, ..., 63, ten rounds.\<close>

fun varint_loop :: "nat \<Rightarrow> nat \<Rightarrow> u64 \<Rightarrow> thrift_decoder \<Rightarrow> (u64 \<times> thrift_decoder) option" where
  "varint_loop 0 shift result dec = Some (0, td_set_error dec CARQUET_ERROR_THRIFT_DECODE ''Varint overflow'')"
| "varint_loop (Suc k) shift result dec =
     (if \<not> has_bytes dec 1 then
        Some (0, td_set_error dec CARQUET_ERROR_THRIFT_TRUNCATED ''Truncated varint'')
      else do {
        (byte, dec1) \<leftarrow> read_byte_raw dec;
        let result' = result OR push_bit shift (ucast (byte AND 0x7F));
        if byte AND 0x80 = 0 then Some (result', dec1)
        else varint_loop k (shift + 7) result' dec1
      })"

definition thrift_read_varint :: "thrift_decoder \<Rightarrow> (u64 \<times> thrift_decoder) option" where
  "thrift_read_varint dec = varint_loop 10 0 0 dec"

definition thrift_read_zigzag :: "thrift_decoder \<Rightarrow> (u64 \<times> thrift_decoder) option" where
  "thrift_read_zigzag dec = do {
     (n, dec1) \<leftarrow> thrift_read_varint dec;
     Some (carquet_zigzag_decode64 n, dec1)
   }"

definition thrift_read_byte :: "thrift_decoder \<Rightarrow> (u8 \<times> thrift_decoder) option" where
  "thrift_read_byte dec = read_byte_raw dec"

definition thrift_read_i16 :: "thrift_decoder \<Rightarrow> (u16 \<times> thrift_decoder) option" where
  "thrift_read_i16 dec = do { (n, dec1) \<leftarrow> thrift_read_zigzag dec; Some (ucast n, dec1) }"

definition thrift_read_i32 :: "thrift_decoder \<Rightarrow> (u32 \<times> thrift_decoder) option" where
  "thrift_read_i32 dec = do { (n, dec1) \<leftarrow> thrift_read_zigzag dec; Some (ucast n, dec1) }"

definition thrift_read_i64 :: "thrift_decoder \<Rightarrow> (u64 \<times> thrift_decoder) option" where
  "thrift_read_i64 dec = thrift_read_zigzag dec"

text \<open>\<open>carquet_buffer_reader_skip\<close> as its callers use it: its status is ignored.\<close>

definition td_skip :: "thrift_decoder \<Rightarrow> nat \<Rightarrow> thrift_decoder" where
  "td_skip dec n = dec\<lparr>td_reader := snd (carquet_buffer_reader_skip (td_reader dec) n)\<rparr>"

definition thrift_read_double :: "thrift_decoder \<Rightarrow> (u64 \<times> thrift_decoder) option" where
  "thrift_read_double dec =
     (if \<not> has_bytes dec 8 then
        Some (0, td_set_error dec CARQUET_ERROR_THRIFT_TRUNCATED ''Truncated double'')
      else do {
        v \<leftarrow> carquet_read_u64_le (rdr_data (td_reader dec)) (rdr_pos (td_reader dec));
        Some (v, td_skip dec 8)
      })"

definition thrift_read_bool :: "thrift_decoder \<Rightarrow> (bool \<times> thrift_decoder) option" where
  "thrift_read_bool dec =
     (if td_bool_pending dec then Some (td_bool_value dec, dec\<lparr>td_bool_pending := False\<rparr>)
      else do { (b, dec1) \<leftarrow> read_byte_raw dec; Some (b = 1, dec1) })"

section \<open>Binary data\<close>

text \<open>\<open>(int32_t)varint\<close>: the low 32 bits, negative when the top one of them is set.\<close>

definition thrift_read_binary :: "thrift_decoder \<Rightarrow> (u8 list option \<times> thrift_decoder) option" where
  "thrift_read_binary dec = do {
     (n, dec1) \<leftarrow> thrift_read_varint dec;
     let len = (ucast n :: u32);
     if sint len < 0 then
       Some (None, td_set_error dec1 CARQUET_ERROR_THRIFT_DECODE ''Negative binary length'')
     else if \<not> has_bytes dec1 (unat len) then
       Some (None, td_set_error dec1 CARQUET_ERROR_THRIFT_TRUNCATED ''Truncated binary data'')
     else do {
       bs \<leftarrow> rd_bytes (rdr_data (td_reader dec1)) (rdr_pos (td_reader dec1)) (unat len);
       Some (Some bs, td_skip dec1 (unat len))
     }
   }"

text \<open>The string without its terminating NUL byte.\<close>

definition thrift_read_string_alloc ::
  "allocator \<Rightarrow> thrift_decoder \<Rightarrow> (u8 list option \<times> thrift_decoder) option" where
  "thrift_read_string_alloc A dec = do {
     (bs, dec1) \<leftarrow> thrift_read_binary dec;
     (case bs of
        None \<Rightarrow> if td_status dec1 = CARQUET_OK then Some (if alloc_ok A 1 then Some [] else None, dec1)
                else Some (None, dec1)
      | Some xs \<Rightarrow>
          if alloc_ok A (length xs + 1) then Some (Some xs, dec1)
          else Some (None, td_set_error dec1 CARQUET_ERROR_OUT_OF_MEMORY ''Failed to allocate string''))
   }"

definition thrift_read_uuid :: "thrift_decoder \<Rightarrow> (u8 list \<times> thrift_decoder) option" where
  "thrift_read_uuid dec =
     (if \<not> has_bytes dec 16 then
        Some (replicate 16 0, td_set_error dec CARQUET_ERROR_THRIFT_TRUNCATED ''Truncated UUID'')
      else do {
        r \<leftarrow> carquet_buffer_reader_read (td_reader dec) 16;
        (case r of
           Inl _ \<Rightarrow> None
         | Inr (bs, rdr) \<Rightarrow> Some (bs, dec\<lparr>td_reader := rdr\<rparr>))
      })"

section \<open>Structs\<close>

definition thrift_read_struct_begin :: "thrift_decoder \<Rightarrow> thrift_decoder option" where
  "thrift_read_struct_begin dec =
     (if td_nesting_level dec \<ge> THRIFT_MAX_NESTING then
        Some (td_set_error dec CARQUET_ERROR_THRIFT_DECODE ''Struct nesting too deep'')
      else do {
        ids \<leftarrow> wr (td_last_field_id dec) (td_nesting_level dec) 0;
        Some (dec\<lparr>td_last_field_id := ids, td_nesting_level := td_nesting_level dec + 1\<rparr>)
      })"

definition thrift_read_struct_end :: "thrift_decoder \<Rightarrow> thrift_decoder" where
  "thrift_read_struct_end dec =
     (if td_nesting_level dec > 0 then dec\<lparr>td_nesting_level := td_nesting_level dec - 1\<rparr> else dec)"

text \<open>The type and id of the next field; None in their place when the function returns false.\<close>

definition thrift_read_field_begin ::
  "thrift_decoder \<Rightarrow> ((thrift_type \<times> u16) option \<times> thrift_decoder) option" where
  "thrift_read_field_begin dec =
     (if td_status dec \<noteq> CARQUET_OK then Some (None, dec)
      else do {
        (header, dec1) \<leftarrow> read_byte_raw dec;
        if header = 0 then Some (None, dec1)
        else do {
          let type = type_of_nibble (header AND 0x0F);
          let delta = (ucast (drop_bit 4 header AND 0x0F) :: u16);
          prev_field_id \<leftarrow> (if td_nesting_level dec1 > 0
                           then rd (td_last_field_id dec1) (td_nesting_level dec1 - 1) else Some 0);
          (field_id, dec2) \<leftarrow> (if delta = 0 then thrift_read_i16 dec1
                              else Some (prev_field_id + delta, dec1));
          ids \<leftarrow> (if td_nesting_level dec2 > 0
                 then wr (td_last_field_id dec2) (td_nesting_level dec2 - 1) field_id
                 else Some (td_last_field_id dec2));
          let dec3 = dec2\<lparr>td_last_field_id := ids\<rparr>;
          let dec4 = (if type = THRIFT_TYPE_TRUE then dec3\<lparr>td_bool_pending := True, td_bool_value := True\<rparr>
                      else if type = THRIFT_TYPE_FALSE then dec3\<lparr>td_bool_pending := True, td_bool_value := False\<rparr>
                      else dec3);
          Some (Some (type, field_id), dec4)
        }
      })"

section \<open>Containers\<close>

definition thrift_read_list_begin ::
  "thrift_decoder \<Rightarrow> (thrift_type \<times> nat \<times> thrift_decoder) option" where
  "thrift_read_list_begin dec = do {
     (header, dec1) \<leftarrow> read_byte_raw dec;
     let elem_type = type_of_nibble (header AND 0x0F);
     let size_and_type = (ucast (drop_bit 4 header AND 0x0F) :: u32);
     (count, dec2) \<leftarrow> (if size_and_type = 0x0F then do { (n, d) \<leftarrow> thrift_read_varint dec1; Some (ucast n, d) }
                      else Some (size_and_type, dec1));
     if sint count < 0 then
       Some (elem_type, 0, td_set_error dec2 CARQUET_ERROR_THRIFT_DECODE ''Negative list size'')
     else if unat count > carquet_buffer_reader_remaining (td_reader dec2) then
       Some (elem_type, 0, td_set_error dec2 CARQUET_ERROR_THRIFT_DECODE ''List count exceeds remaining data'')
     else Some (elem_type, unat count, dec2)
   }"

definition thrift_read_set_begin ::
  "thrift_decoder \<Rightarrow> (thrift_type \<times> nat \<times> thrift_decoder) option" where
  "thrift_read_set_begin dec = thrift_read_list_begin dec"

definition thrift_read_map_begin ::
  "thrift_decoder \<Rightarrow> (thrift_type \<times> thrift_type \<times> nat \<times> thrift_decoder) option" where
  "thrift_read_map_begin dec = do {
     (n, dec1) \<leftarrow> thrift_read_varint dec;
     let count = (ucast n :: u32);
     if sint count < 0 then
       Some (THRIFT_TYPE_STOP, THRIFT_TYPE_STOP, 0,
         td_set_error dec1 CARQUET_ERROR_THRIFT_DECODE ''Negative map size'')
     else if count = 0 then Some (THRIFT_TYPE_STOP, THRIFT_TYPE_STOP, 0, dec1)
     else if unat count > carquet_buffer_reader_remaining (td_reader dec1) then
       Some (THRIFT_TYPE_STOP, THRIFT_TYPE_STOP, 0,
         td_set_error dec1 CARQUET_ERROR_THRIFT_DECODE ''Map count exceeds remaining data'')
     else do {
       (types, dec2) \<leftarrow> read_byte_raw dec1;
       Some (type_of_nibble (drop_bit 4 types AND 0x0F), type_of_nibble (types AND 0x0F), unat count, dec2)
     }
   }"

section \<open>Skipping\<close>

text \<open>
  The recursion of \<open>thrift_skip\<close> goes down with the nesting of the data; \<open>d\<close> bounds its depth
  (None when it is reached) and \<open>n\<close> counts the rounds of a loop. A list is given by its
  count; the loop over fields gets one round more than there are bytes, and every round of it reads
  a header byte.
\<close>

function thrift_skip :: "nat \<Rightarrow> thrift_decoder \<Rightarrow> thrift_type \<Rightarrow> thrift_decoder option"
  and skip_elems :: "nat \<Rightarrow> nat \<Rightarrow> thrift_decoder \<Rightarrow> thrift_type \<Rightarrow> thrift_decoder option"
  and skip_entries :: "nat \<Rightarrow> nat \<Rightarrow> thrift_decoder \<Rightarrow> thrift_type \<Rightarrow> thrift_type \<Rightarrow> thrift_decoder option"
  and skip_fields :: "nat \<Rightarrow> nat \<Rightarrow> thrift_decoder \<Rightarrow> thrift_decoder option"
where
  "thrift_skip 0 dec type = None"
| "thrift_skip (Suc d) dec type =
     (if td_status dec \<noteq> CARQUET_OK then Some dec
      else (case type of
        THRIFT_TYPE_STOP \<Rightarrow> Some (td_set_error dec CARQUET_ERROR_THRIFT_DECODE ''Cannot skip STOP type'')
      | THRIFT_TYPE_TRUE \<Rightarrow> Some (dec\<lparr>td_bool_pending := False\<rparr>)
      | THRIFT_TYPE_FALSE \<Rightarrow> Some (dec\<lparr>td_bool_pending := False\<rparr>)
      | THRIFT_TYPE_BYTE \<Rightarrow> Some (td_skip dec 1)
      | THRIFT_TYPE_I16 \<Rightarrow> map_option snd (thrift_read_varint dec)
      | THRIFT_TYPE_I32 \<Rightarrow> map_option snd (thrift_read_varint dec)
      | THRIFT_TYPE_I64 \<Rightarrow> map_option snd (thrift_read_varint dec)
      | THRIFT_TYPE_DOUBLE \<Rightarrow> Some (td_skip dec 8)
      | THRIFT_TYPE_BINARY \<Rightarrow> map_option snd (thrift_read_binary dec)
      | THRIFT_TYPE_LIST \<Rightarrow>
          (case thrift_read_list_begin dec of None \<Rightarrow> None
           | Some (elem_type, count, dec1) \<Rightarrow> skip_elems d count dec1 elem_type)
      | THRIFT_TYPE_SET \<Rightarrow>
          (case thrift_read_list_begin dec of None \<Rightarrow> None
           | Some (elem_type, count, dec1) \<Rightarrow> skip_elems d count dec1 elem_type)
      | THRIFT_TYPE_MAP \<Rightarrow>
          (case thrift_read_map_begin dec of None \<Rightarrow> None
           | Some (key_type, value_type, count, dec1) \<Rightarrow> skip_entries d count dec1 key_type value_type)
      | THRIFT_TYPE_STRUCT \<Rightarrow>
          (case thrift_read_struct_begin dec of None \<Rightarrow> None
           | Some dec1 \<Rightarrow>
               map_option thrift_read_struct_end
                 (skip_fields d (Suc (carquet_buffer_reader_remaining (td_reader dec1))) dec1))
      | THRIFT_TYPE_UUID \<Rightarrow> Some (td_skip dec 16)
      | THRIFT_TYPE_OTHER _ \<Rightarrow> Some (td_set_error dec CARQUET_ERROR_THRIFT_INVALID_TYPE ''Unknown type to skip'')))"
| "skip_elems d 0 dec elem_type = Some dec"
| "skip_elems d (Suc n) dec elem_type =
     (if td_status dec \<noteq> CARQUET_OK then Some dec
      else (case thrift_skip d dec elem_type of None \<Rightarrow> None
            | Some dec1 \<Rightarrow> skip_elems d n dec1 elem_type))"
| "skip_entries d 0 dec key_type value_type = Some dec"
| "skip_entries d (Suc n) dec key_type value_type =
     (if td_status dec \<noteq> CARQUET_OK then Some dec
      else (case thrift_skip d dec key_type of None \<Rightarrow> None
            | Some dec1 \<Rightarrow>
                (case thrift_skip d dec1 value_type of None \<Rightarrow> None
                 | Some dec2 \<Rightarrow> skip_entries d n dec2 key_type value_type)))"
| "skip_fields d 0 dec = None"
| "skip_fields d (Suc n) dec =
     (case thrift_read_field_begin dec of None \<Rightarrow> None
      | Some (None, dec1) \<Rightarrow> Some dec1
      | Some (Some (field_type, field_id), dec1) \<Rightarrow>
          (case thrift_skip d dec1 field_type of None \<Rightarrow> None
           | Some dec2 \<Rightarrow> skip_fields d n dec2))"
  by pat_completeness auto
termination
  by (relation "inv_image (less_than <*lex*> less_than) (\<lambda>x. case x of
      Inl (Inl (d, _, _)) \<Rightarrow> (d, 0) | Inl (Inr (d, n, _, _)) \<Rightarrow> (d, Suc n)
    | Inr (Inl (d, n, _, _, _)) \<Rightarrow> (d, Suc n) | Inr (Inr (d, n, _)) \<Rightarrow> (d, Suc n))") auto

text \<open>The depth the recursion can need: a nested value starts at a later byte.\<close>

definition thrift_skip_field :: "thrift_decoder \<Rightarrow> thrift_type \<Rightarrow> thrift_decoder option" where
  "thrift_skip_field dec type = thrift_skip (Suc (carquet_buffer_reader_remaining (td_reader dec))) dec type"

fun thrift_type_name :: "thrift_type \<Rightarrow> string" where
  "thrift_type_name THRIFT_TYPE_STOP = ''STOP''"
| "thrift_type_name THRIFT_TYPE_TRUE = ''TRUE''"
| "thrift_type_name THRIFT_TYPE_FALSE = ''FALSE''"
| "thrift_type_name THRIFT_TYPE_BYTE = ''BYTE''"
| "thrift_type_name THRIFT_TYPE_I16 = ''I16''"
| "thrift_type_name THRIFT_TYPE_I32 = ''I32''"
| "thrift_type_name THRIFT_TYPE_I64 = ''I64''"
| "thrift_type_name THRIFT_TYPE_DOUBLE = ''DOUBLE''"
| "thrift_type_name THRIFT_TYPE_BINARY = ''BINARY''"
| "thrift_type_name THRIFT_TYPE_LIST = ''LIST''"
| "thrift_type_name THRIFT_TYPE_SET = ''SET''"
| "thrift_type_name THRIFT_TYPE_MAP = ''MAP''"
| "thrift_type_name THRIFT_TYPE_STRUCT = ''STRUCT''"
| "thrift_type_name THRIFT_TYPE_UUID = ''UUID''"
| "thrift_type_name (THRIFT_TYPE_OTHER _) = ''UNKNOWN''"

section \<open>The invariant, and how reading advances\<close>

definition td_wf :: "thrift_decoder \<Rightarrow> bool" where
  "td_wf dec \<longleftrightarrow> reader_wf (td_reader dec) \<and> length (td_last_field_id dec) = THRIFT_MAX_NESTING \<and>
     td_nesting_level dec \<le> THRIFT_MAX_NESTING"

abbreviation td_left :: "thrift_decoder \<Rightarrow> u8 list" where
  "td_left dec \<equiv> unread (td_reader dec)"

text \<open>\<open>advances dec dec'\<close>: bytes may have been consumed from the front, the first error stays.\<close>

definition advances :: "thrift_decoder \<Rightarrow> thrift_decoder \<Rightarrow> bool" where
  "advances dec dec' \<longleftrightarrow> td_wf dec' \<and>
     (\<exists>n \<le> length (td_left dec). td_left dec' = drop n (td_left dec)) \<and>
     (td_status dec \<noteq> CARQUET_OK \<longrightarrow>
        td_status dec' = td_status dec \<and> td_error_message dec' = td_error_message dec)"

lemma advances_refl: "td_wf dec \<Longrightarrow> advances dec dec"
  by (auto simp: advances_def intro: exI [of _ 0])

lemma advances_trans [trans]:
  assumes "advances a b" and "advances b c"
  shows "advances a c"
proof -
  obtain m where "td_left b = drop m (td_left a)" "m \<le> length (td_left a)"
    using assms(1) by (auto simp: advances_def)
  moreover obtain n where "td_left c = drop n (td_left b)" "n \<le> length (td_left b)"
    using assms(2) by (auto simp: advances_def)
  ultimately have "td_left c = drop (m + n) (td_left a)" "m + n \<le> length (td_left a)"
    by (auto simp: add.commute)
  then show ?thesis using assms by (auto simp: advances_def)
qed

lemma advances_wf: "advances a b \<Longrightarrow> td_wf b"
  by (simp add: advances_def)

lemma advances_left: "advances a b \<Longrightarrow> length (td_left b) \<le> length (td_left a)"
  by (auto simp: advances_def)

lemma advances_error:
  "advances a b \<Longrightarrow> td_status a \<noteq> CARQUET_OK \<Longrightarrow> td_status b = td_status a"
  by (simp add: advances_def)

lemma set_error_advances: "td_wf dec \<Longrightarrow> advances dec (td_set_error dec st msg)"
  by (auto simp: advances_def td_set_error_def td_wf_def intro: exI [of _ 0])

lemma set_error_status [simp]: "st \<noteq> CARQUET_OK \<Longrightarrow> td_status (td_set_error dec st msg) \<noteq> CARQUET_OK"
  by (simp add: td_set_error_def)

lemma set_error_reader [simp]: "td_reader (td_set_error dec st msg) = td_reader dec"
  by (simp add: td_set_error_def)

text \<open>The decoder \<open>n\<close> bytes further.\<close>

definition td_adv :: "thrift_decoder \<Rightarrow> nat \<Rightarrow> thrift_decoder" where
  "td_adv dec n = dec\<lparr>td_reader := (td_reader dec)\<lparr>rdr_pos := rdr_pos (td_reader dec) + n\<rparr>\<rparr>"

lemma td_adv_simps [simp]:
  "td_status (td_adv dec n) = td_status dec" "td_error_message (td_adv dec n) = td_error_message dec"
  "td_last_field_id (td_adv dec n) = td_last_field_id dec" "td_nesting_level (td_adv dec n) = td_nesting_level dec"
  "td_bool_pending (td_adv dec n) = td_bool_pending dec" "td_bool_value (td_adv dec n) = td_bool_value dec"
  "td_adv (td_adv dec m) n = td_adv dec (m + n)" "td_adv dec 0 = dec"
  by (simp_all add: td_adv_def add.assoc)

lemma td_adv_left:
  assumes "td_wf dec" and "n \<le> length (td_left dec)"
  shows "td_wf (td_adv dec n)" and "td_left (td_adv dec n) = drop n (td_left dec)"
  using assms reader_advance [of "td_reader dec" n] by (auto simp: td_wf_def td_adv_def)

lemma td_adv_advances: "td_wf dec \<Longrightarrow> n \<le> length (td_left dec) \<Longrightarrow> advances dec (td_adv dec n)"
  using td_adv_left [of dec n] by (auto simp: advances_def)

lemma has_bytes_iff: "td_wf dec \<Longrightarrow> n < 2 ^ 63 \<Longrightarrow> has_bytes dec n \<longleftrightarrow> n \<le> length (td_left dec)"
  by (simp add: has_bytes_def td_wf_def reader_has_iff)

lemma read_byte_eq:
  assumes "td_wf dec"
  shows "read_byte_raw dec = (case td_left dec of
      [] \<Rightarrow> Some (0, td_set_error dec CARQUET_ERROR_THRIFT_TRUNCATED ''Unexpected end of data'')
    | b # _ \<Rightarrow> Some (b, td_adv dec 1))"
  using assms has_bytes_iff [OF assms, of 1]
  by (auto simp: read_byte_raw_def td_wf_def reader_read_byte_eq td_adv_def split: list.splits)

lemma td_skip_eq:
  assumes "td_wf dec" and "n < 2 ^ 63"
  shows "td_skip dec n = (if n \<le> length (td_left dec) then td_adv dec n else dec)"
  using assms by (simp add: td_skip_def td_wf_def reader_skip_eq td_adv_def)

section \<open>Every reader is memory safe and advances\<close>

text \<open>\<open>runs dec m\<close>: the read \<open>m\<close>, started at \<open>dec\<close>, does not go out of bounds and advances.\<close>

definition runs :: "thrift_decoder \<Rightarrow> ('a \<times> thrift_decoder) option \<Rightarrow> bool" where
  "runs dec m \<longleftrightarrow> (\<exists>v dec'. m = Some (v, dec') \<and> advances dec dec')"

lemma runs_SomeI: "advances dec dec' \<Longrightarrow> runs dec (Some (v, dec'))"
  by (simp add: runs_def)

lemma runs_bind:
  assumes "runs dec m" and "\<And>v d. m = Some (v, d) \<Longrightarrow> advances dec d \<Longrightarrow> runs d (f v d)"
  shows "runs dec (Option.bind m (\<lambda>(v, d). f v d))"
  using assms by (fastforce simp: runs_def intro: advances_trans)

lemma runs_weaken: "advances a b \<Longrightarrow> runs b m \<Longrightarrow> runs a m"
  by (auto simp: runs_def intro: advances_trans)

lemma runs_If: "(b \<Longrightarrow> runs dec m) \<Longrightarrow> (\<not> b \<Longrightarrow> runs dec m') \<Longrightarrow> runs dec (if b then m else m')"
  by simp

named_theorems runs_intros

declare runs_bind [runs_intros] runs_SomeI [runs_intros] runs_If [runs_intros]
  set_error_advances [runs_intros] advances_refl [runs_intros] advances_wf [runs_intros]

lemma read_byte_runs [runs_intros]: "td_wf dec \<Longrightarrow> runs dec (read_byte_raw dec)"
  by (auto simp: read_byte_eq intro!: runs_intros td_adv_advances split: list.splits)

lemma varint_loop_runs [runs_intros]: "td_wf dec \<Longrightarrow> runs dec (varint_loop k shift result dec)"
proof (induction k arbitrary: shift result dec)
  case 0
  then show ?case by (auto intro: runs_intros)
next
  case (Suc k)
  then show ?case by (auto simp: Let_def intro!: runs_intros dest: advances_wf)
qed

lemma varint_runs [runs_intros]: "td_wf dec \<Longrightarrow> runs dec (thrift_read_varint dec)"
  by (auto simp: thrift_read_varint_def intro: runs_intros)

lemma zigzag_runs [runs_intros]: "td_wf dec \<Longrightarrow> runs dec (thrift_read_zigzag dec)"
  by (auto simp: thrift_read_zigzag_def intro!: runs_intros dest: advances_wf)

lemma ints_run [runs_intros]:
  assumes "td_wf dec"
  shows "runs dec (thrift_read_byte dec)" and "runs dec (thrift_read_i16 dec)"
    and "runs dec (thrift_read_i32 dec)" and "runs dec (thrift_read_i64 dec)"
  using assms by (auto simp: thrift_read_byte_def thrift_read_i16_def thrift_read_i32_def thrift_read_i64_def
      intro!: runs_intros dest: advances_wf)

lemma td_skip_advances: "td_wf dec \<Longrightarrow> n < 2 ^ 63 \<Longrightarrow> advances dec (td_skip dec n)"
  by (simp add: td_skip_eq advances_refl td_adv_advances)

lemma wf_bytes:
  assumes "td_wf dec" and "n \<le> length (td_left dec)"
  shows "rd_bytes (rdr_data (td_reader dec)) (rdr_pos (td_reader dec)) n = Some (take n (td_left dec))"
    and "rdr_pos (td_reader dec) + n \<le> length (rdr_data (td_reader dec))"
    and "take n (drop (rdr_pos (td_reader dec)) (rdr_data (td_reader dec))) = take n (td_left dec)"
proof -
  have le: "rdr_pos (td_reader dec) + n \<le> rdr_size (td_reader dec)"
    "rdr_size (td_reader dec) \<le> length (rdr_data (td_reader dec))"
    using assms by (auto simp: td_wf_def reader_wf_def unread_def)
  then show eq: "take n (drop (rdr_pos (td_reader dec)) (rdr_data (td_reader dec))) = take n (td_left dec)"
    by (simp add: unread_def drop_take min_def)
  show "rdr_pos (td_reader dec) + n \<le> length (rdr_data (td_reader dec))" using le by simp
  then show "rd_bytes (rdr_data (td_reader dec)) (rdr_pos (td_reader dec)) n = Some (take n (td_left dec))"
    by (simp add: rd_bytes_in eq)
qed

lemma double_eq:
  assumes "td_wf dec"
  shows "thrift_read_double dec =
    (if 8 \<le> length (td_left dec) then Some (le_word (take 8 (td_left dec)), td_adv dec 8)
     else Some (0, td_set_error dec CARQUET_ERROR_THRIFT_TRUNCATED ''Truncated double''))"
  using assms wf_bytes [OF assms, of 8]
  by (simp add: thrift_read_double_def has_bytes_iff td_skip_eq read_u64_le_word)

lemma double_runs [runs_intros]: "td_wf dec \<Longrightarrow> runs dec (thrift_read_double dec)"
  by (auto simp: double_eq intro!: runs_intros td_adv_advances)

lemma pending_advances: "td_wf dec \<Longrightarrow> advances dec (dec\<lparr>td_bool_pending := b\<rparr>)"
  by (auto simp: advances_def td_wf_def intro: exI [of _ 0])

lemma bool_runs [runs_intros]: "td_wf dec \<Longrightarrow> runs dec (thrift_read_bool dec)"
  by (auto simp: thrift_read_bool_def pending_advances intro!: runs_intros)

lemma sint_nonneg: "\<not> sint (w :: u32) < 0 \<Longrightarrow> sint w = int (unat w) \<and> unat w < 2 ^ 31"
proof -
  assume "\<not> sint w < 0"
  then have "sint w = uint w" using sint_cases [of w] by argo
  then have "sint w = int (unat w)" by (simp only: uint_nat)
  moreover have "sint w < 2 ^ 31" using sint_lt [of w] by simp
  ultimately have "unat w < 2 ^ 31" by (metis of_nat_less_iff of_nat_numeral of_nat_power)
  with \<open>sint w = int (unat w)\<close> show ?thesis by simp
qed

lemma binary_eq:
  assumes "td_wf dec"
  shows "thrift_read_binary dec = do {
     (n, dec1) \<leftarrow> thrift_read_varint dec;
     let len = (ucast n :: u32);
     if sint len < 0 then
       Some (None, td_set_error dec1 CARQUET_ERROR_THRIFT_DECODE ''Negative binary length'')
     else if unat len \<le> length (td_left dec1) then
       Some (Some (take (unat len) (td_left dec1)), td_adv dec1 (unat len))
     else Some (None, td_set_error dec1 CARQUET_ERROR_THRIFT_TRUNCATED ''Truncated binary data'')
   }"
proof -
  have "sint len < 0 \<or> (has_bytes d (unat len) \<longleftrightarrow> unat len \<le> length (td_left d)) \<and>
      (unat len \<le> length (td_left d) \<longrightarrow> td_skip d (unat len) = td_adv d (unat len) \<and>
        rd_bytes (rdr_data (td_reader d)) (rdr_pos (td_reader d)) (unat len) = Some (take (unat len) (td_left d)))"
    if "td_wf d" for d and len :: u32
    using that sint_nonneg [of len] wf_bytes(1) [OF that] by (auto simp: has_bytes_iff td_skip_eq)
  moreover have "td_wf d" if "thrift_read_varint dec = Some (n, d)" for n d
    using varint_runs [OF assms] that by (auto simp: runs_def dest: advances_wf)
  ultimately show ?thesis
    by (cases "thrift_read_varint dec") (force simp: thrift_read_binary_def Let_def)+
qed

lemma binary_runs [runs_intros]: "td_wf dec \<Longrightarrow> runs dec (thrift_read_binary dec)"
  by (auto simp: binary_eq Let_def intro!: runs_intros td_adv_advances dest: advances_wf)

lemma string_runs [runs_intros]: "td_wf dec \<Longrightarrow> runs dec (thrift_read_string_alloc A dec)"
  by (auto simp: thrift_read_string_alloc_def intro!: runs_intros dest: advances_wf split: option.splits)

lemma uuid_eq:
  assumes "td_wf dec"
  shows "thrift_read_uuid dec =
    (if 16 \<le> length (td_left dec) then Some (take 16 (td_left dec), td_adv dec 16)
     else Some (replicate 16 0, td_set_error dec CARQUET_ERROR_THRIFT_TRUNCATED ''Truncated UUID''))"
  using assms reader_read_eq [of "td_reader dec" 16]
  by (simp add: thrift_read_uuid_def has_bytes_iff td_adv_def td_wf_def)

lemma uuid_runs [runs_intros]: "td_wf dec \<Longrightarrow> runs dec (thrift_read_uuid dec)"
  by (auto simp: uuid_eq intro!: runs_intros td_adv_advances)

lemma struct_begin_advances:
  "td_wf dec \<Longrightarrow> \<exists>d. thrift_read_struct_begin dec = Some d \<and> advances dec d"
  by (auto simp: thrift_read_struct_begin_def td_wf_def wr_def THRIFT_MAX_NESTING_def advances_def td_set_error_def
      intro: exI [of _ 0])

lemma struct_end_advances: "td_wf dec \<Longrightarrow> advances dec (thrift_read_struct_end dec)"
  by (auto simp: thrift_read_struct_end_def td_wf_def advances_def intro: exI [of _ 0])

text \<open>A field whose header was read took a byte.\<close>

lemma read_byte_nonzero:
  assumes "td_wf dec" and "read_byte_raw dec = Some (b, d)" and "b \<noteq> 0"
  shows "length (td_left d) < length (td_left dec)"
  using assms td_adv_left [of dec 1] by (auto simp: read_byte_eq split: list.splits)

lemma ids_advances:
  "td_wf dec \<Longrightarrow> length ids = THRIFT_MAX_NESTING \<Longrightarrow>
     advances dec (dec\<lparr>td_last_field_id := ids, td_bool_pending := p, td_bool_value := v\<rparr>)"
  by (auto simp: advances_def td_wf_def intro: exI [of _ 0])

lemma runs_obtain:
  assumes "runs dec m"
  obtains v d where "m = Some (v, d)" "advances dec d" "td_wf d" "length (td_left d) \<le> length (td_left dec)"
  using assms by (auto simp: runs_def dest: advances_wf advances_left)

lemma ids_only_advances:
  "td_wf dec \<Longrightarrow> length ids = THRIFT_MAX_NESTING \<Longrightarrow> advances dec (dec\<lparr>td_last_field_id := ids\<rparr>)"
  by (auto simp: advances_def td_wf_def intro: exI [of _ 0])

lemma field_begin_run:
  assumes wf: "td_wf dec"
  obtains r d where "thrift_read_field_begin dec = Some (r, d)" "advances dec d"
    "r = None \<or> length (td_left d) < length (td_left dec)"
proof (cases "td_status dec = CARQUET_OK")
  case True
  obtain header d1 where h: "read_byte_raw dec = Some (header, d1)" "advances dec d1" "td_wf d1"
    by (rule runs_obtain [OF read_byte_runs [OF wf]])
  show thesis
  proof (cases "header = 0")
    case True
    then show thesis using that [of None d1] h \<open>td_status dec = CARQUET_OK\<close> by (simp add: thrift_read_field_begin_def)
  next
    case False
    have len: "td_nesting_level d1 \<le> length (td_last_field_id d1)"
      using h(3) by (simp add: td_wf_def)
    let ?delta = "ucast (drop_bit 4 header AND 0x0F) :: u16"
    obtain prev where prev: "(if td_nesting_level d1 > 0
        then rd (td_last_field_id d1) (td_nesting_level d1 - 1) else Some 0) = Some prev"
      using len by (cases "td_nesting_level d1 > 0") auto
    obtain id d2 where f: "(if ?delta = 0 then thrift_read_i16 d1 else Some (prev + ?delta, d1)) = Some (id, d2)"
      "advances d1 d2" "td_wf d2"
      by (rule runs_obtain [of d1 "if ?delta = 0 then thrift_read_i16 d1 else Some (prev + ?delta, d1)"])
        (auto intro!: runs_intros h(3))
    obtain ids where ids: "(if td_nesting_level d2 > 0
        then wr (td_last_field_id d2) (td_nesting_level d2 - 1) id else Some (td_last_field_id d2)) = Some ids"
      "length ids = THRIFT_MAX_NESTING"
    proof (cases "td_nesting_level d2 > 0")
      case True
      then have "td_nesting_level d2 - 1 < length (td_last_field_id d2)" using f(3) unfolding td_wf_def by linarith
      with True show ?thesis using f(3) by (intro that) (auto simp: wr_def td_wf_def)
    qed (use f(3) that in \<open>auto simp: td_wf_def\<close>)
    define d3 where "d3 = d2\<lparr>td_last_field_id := ids\<rparr>"
    define ty where "ty = type_of_nibble (header AND 0x0F)"
    define d4 where "d4 = (if ty = THRIFT_TYPE_TRUE then d3\<lparr>td_bool_pending := True, td_bool_value := True\<rparr>
        else if ty = THRIFT_TYPE_FALSE then d3\<lparr>td_bool_pending := True, td_bool_value := False\<rparr> else d3)"
    have eq: "thrift_read_field_begin dec = Some (Some (ty, id), d4)"
      using True False h(1) prev f(1) ids(1)
      by (simp add: thrift_read_field_begin_def Let_def d4_def d3_def ty_def del: if_split)
    have "advances d2 d4"
      using ids_advances [OF f(3) ids(2)] ids_only_advances [OF f(3) ids(2)] by (simp add: d4_def d3_def)
    with h(2) f(2) have "advances d1 d4" "advances dec d4" by (blast intro: advances_trans)+
    then show thesis
      using that [OF eq] read_byte_nonzero [OF wf h(1) False] advances_left [of d1 d4] by simp
  qed
next
  case False
  then show thesis using that [of None dec] advances_refl [OF wf] by (simp add: thrift_read_field_begin_def)
qed

lemma list_begin_run:
  assumes wf: "td_wf dec"
  obtains ty n d where "thrift_read_list_begin dec = Some (ty, n, d)" "advances dec d"
    "n = 0 \<or> length (td_left d) < length (td_left dec)" "n \<le> length (td_left dec)"
proof -
  obtain header d1 where h: "read_byte_raw dec = Some (header, d1)" "advances dec d1" "td_wf d1"
    by (rule runs_obtain [OF read_byte_runs [OF wf]])
  define s where "s = (ucast (drop_bit 4 header AND 0x0F) :: u32)"
  define m where "m = (if s = 0x0F then do { (n, d) \<leftarrow> thrift_read_varint d1; Some (ucast n, d) } else Some (s, d1))"
  obtain count d2 where f: "m = Some (count, d2)" "advances d1 d2" "td_wf d2" "length (td_left d2) \<le> length (td_left d1)"
    by (rule runs_obtain [of d1 m]) (auto simp: m_def intro!: runs_intros h(3) dest: advances_wf)
  have eq: "thrift_read_list_begin dec = (let ty = type_of_nibble (header AND 0x0F) in
      if sint count < 0 then Some (ty, 0, td_set_error d2 CARQUET_ERROR_THRIFT_DECODE ''Negative list size'')
      else if unat count > length (td_left d2) then
        Some (ty, 0, td_set_error d2 CARQUET_ERROR_THRIFT_DECODE ''List count exceeds remaining data'')
      else Some (ty, unat count, d2))"
  proof -
    have rem: "carquet_buffer_reader_remaining (td_reader d2) = length (td_left d2)"
      using f(3) by (simp add: reader_remaining_unread td_wf_def)
    show ?thesis
      by (simp only: thrift_read_list_begin_def h(1) Let_def Option.bind.simps prod.case f(1)[unfolded m_def s_def] rem)
  qed
  have a: "advances dec d2" using h(2) f(2) by (rule advances_trans)
  have e: "advances dec (td_set_error d2 st msg)" for st msg
    using a set_error_advances [OF f(3)] by (rule advances_trans)
  have z: "count = 0" if "td_left dec = []"
  proof -
    have "header = 0" using that h(1) by (simp add: read_byte_eq [OF wf])
    then have "s = 0" by (simp add: s_def)
    then show ?thesis using f(1) by (simp add: m_def)
  qed
  have lt: "length (td_left d2) < length (td_left dec)" if "td_left dec \<noteq> []"
  proof -
    have "td_left d1 = drop 1 (td_left dec)"
      using that h(1) td_adv_left(2) [OF wf, of 1] by (auto simp: read_byte_eq [OF wf] split: list.splits)
    then show ?thesis using that f(4) by (cases "td_left dec") auto
  qed
  have le: "length (td_left d2) \<le> length (td_left dec)" using advances_left [OF a] .
  consider "sint count < 0" | "\<not> sint count < 0" "unat count > length (td_left d2)"
    | "\<not> sint count < 0" "\<not> unat count > length (td_left d2)" by blast
  then show thesis
  proof cases
    case 1
    then show thesis by (intro that [where n = 0, OF _ e]) (simp_all add: eq Let_def)
  next
    case 2
    then show thesis by (intro that [where n = 0, OF _ e]) (simp_all add: eq Let_def)
  next
    case 3
    have "count = 0 \<or> td_left dec \<noteq> []" using z by blast
    then have "unat count = 0 \<or> length (td_left d2) < length (td_left dec)" using lt by (auto simp: unat_eq_0)
    moreover have "unat count \<le> length (td_left dec)" using 3(2) le by linarith
    ultimately show thesis using 3 by (intro that [OF _ a]) (auto simp: eq Let_def)
  qed
qed

lemma map_begin_run:
  assumes wf: "td_wf dec"
  obtains kt vt n d where "thrift_read_map_begin dec = Some (kt, vt, n, d)" "advances dec d"
    "n = 0 \<or> length (td_left d) < length (td_left dec)" "n \<le> length (td_left dec)"
proof -
  obtain w d1 where v: "thrift_read_varint dec = Some (w, d1)" "advances dec d1" "td_wf d1"
    "length (td_left d1) \<le> length (td_left dec)"
    by (rule runs_obtain [OF varint_runs [OF wf]])
  define count where "count = (ucast w :: u32)"
  have rem: "carquet_buffer_reader_remaining (td_reader d1) = length (td_left d1)"
    using v(3) by (simp add: reader_remaining_unread td_wf_def)
  obtain types d2 where b: "read_byte_raw d1 = Some (types, d2)" "advances d1 d2"
    by (rule runs_obtain [OF read_byte_runs [OF v(3)]])
  have eq: "thrift_read_map_begin dec =
      (if sint count < 0 then Some (THRIFT_TYPE_STOP, THRIFT_TYPE_STOP, 0,
         td_set_error d1 CARQUET_ERROR_THRIFT_DECODE ''Negative map size'')
       else if count = 0 then Some (THRIFT_TYPE_STOP, THRIFT_TYPE_STOP, 0, d1)
       else if unat count > length (td_left d1) then Some (THRIFT_TYPE_STOP, THRIFT_TYPE_STOP, 0,
         td_set_error d1 CARQUET_ERROR_THRIFT_DECODE ''Map count exceeds remaining data'')
       else Some (type_of_nibble (drop_bit 4 types AND 0x0F), type_of_nibble (types AND 0x0F), unat count, d2))"
    by (simp only: thrift_read_map_begin_def v(1) b(1) Let_def Option.bind.simps prod.case rem count_def)
  have e: "advances dec (td_set_error d1 st msg)" for st msg
    using v(2) set_error_advances [OF v(3)] by (rule advances_trans)
  have a: "advances dec d2" using v(2) b(2) by (rule advances_trans)
  consider "sint count < 0" | "\<not> sint count < 0" "count = 0" | "\<not> sint count < 0" "count \<noteq> 0" "unat count > length (td_left d1)"
    | "\<not> sint count < 0" "count \<noteq> 0" "\<not> unat count > length (td_left d1)" by blast
  then show thesis
  proof cases
    case 4
    then have "td_left d1 \<noteq> []" by (auto simp: unat_eq_0)
    then have "length (td_left d2) < length (td_left d1)"
      using b(1) td_adv_left(2) [OF v(3), of 1] by (auto simp: read_byte_eq [OF v(3)] split: list.splits)
    then show thesis using 4 v(4) by (intro that [where n = "unat count", OF _ a]) (simp_all add: eq)
  qed (intro that [where n = 0, OF _ e] that [where n = 0, OF _ v(2)]; simp add: eq)+
qed

text \<open>
  Skipping a value is memory safe and never runs out of depth: \<open>d\<close> greater than the number of
  bytes left is enough, since a nested value starts after the header of the one around it.
\<close>

lemma skip_run:
  "td_wf dec \<Longrightarrow> length (td_left dec) < d \<Longrightarrow> \<exists>dec'. thrift_skip d dec type = Some dec' \<and> advances dec dec'"
  "td_wf dec \<Longrightarrow> n = 0 \<or> length (td_left dec) < d \<Longrightarrow> \<exists>dec'. skip_elems d n dec type = Some dec' \<and> advances dec dec'"
  "td_wf dec \<Longrightarrow> n = 0 \<or> length (td_left dec) < d \<Longrightarrow> \<exists>dec'. skip_entries d n dec type type' = Some dec' \<and> advances dec dec'"
  "td_wf dec \<Longrightarrow> length (td_left dec) < n \<Longrightarrow> length (td_left dec) \<le> d \<Longrightarrow>
     \<exists>dec'. skip_fields d n dec = Some dec' \<and> advances dec dec'"
proof (induction d dec type and d n dec type and d n dec type type' and d n dec
    rule: thrift_skip_skip_elems_skip_entries_skip_fields.induct)
  case (2 d dec type)
  show ?case
  proof (cases "td_status dec = CARQUET_OK")
    case True
    then have ok: "\<not> td_status dec \<noteq> CARQUET_OK" by simp
    have lists: "\<exists>dec'. thrift_skip (Suc d) dec type = Some dec' \<and> advances dec dec'"
      if t: "type = THRIFT_TYPE_LIST \<or> type = THRIFT_TYPE_SET"
    proof -
      obtain ty n d1 where l: "thrift_read_list_begin dec = Some (ty, n, d1)" "advances dec d1"
        "n = 0 \<or> length (td_left d1) < length (td_left dec)" by (rule list_begin_run [OF 2(5)])
      have n: "n = 0 \<or> length (td_left d1) < d" using l(3) 2(6) by auto
      obtain d2 where "skip_elems d n d1 ty = Some d2" "advances d1 d2"
        using t 2(1) [OF ok _ l(1) refl refl advances_wf [OF l(2)] n]
          2(2) [OF ok _ l(1) refl refl advances_wf [OF l(2)] n] by auto
      then show ?thesis using True l t by (auto intro: advances_trans)
    qed
    show ?thesis
    proof (cases type)
      case THRIFT_TYPE_MAP
      obtain kt vt n d1 where l: "thrift_read_map_begin dec = Some (kt, vt, n, d1)" "advances dec d1"
        "n = 0 \<or> length (td_left d1) < length (td_left dec)" by (rule map_begin_run [OF 2(5)])
      have n: "n = 0 \<or> length (td_left d1) < d" using l(3) 2(6) by auto
      obtain d2 where "skip_entries d n d1 kt vt = Some d2" "advances d1 d2"
        using 2(3) [OF ok THRIFT_TYPE_MAP l(1) refl refl refl advances_wf [OF l(2)] n] by auto
      then show ?thesis using True l THRIFT_TYPE_MAP by (auto intro: advances_trans)
    next
      case THRIFT_TYPE_STRUCT
      obtain d1 where l: "thrift_read_struct_begin dec = Some d1" "advances dec d1"
        using struct_begin_advances [OF 2(5)] by auto
      have wf1: "td_wf d1" and le: "length (td_left d1) \<le> d"
        using advances_wf [OF l(2)] advances_left [OF l(2)] 2(6) by auto
      then have "length (td_left d1) < Suc (carquet_buffer_reader_remaining (td_reader d1))"
        by (simp add: td_wf_def reader_remaining_unread)
      then obtain d2 where d2: "skip_fields d (Suc (carquet_buffer_reader_remaining (td_reader d1))) d1 = Some d2" "advances d1 d2"
        using 2(4) [OF ok THRIFT_TYPE_STRUCT l(1) wf1 _ le] by auto
      have "advances dec (thrift_read_struct_end d2)"
        using l(2) d2(2) struct_end_advances [OF advances_wf [OF d2(2)]] by (blast intro: advances_trans)
      then show ?thesis using True l d2 THRIFT_TYPE_STRUCT by simp
    qed (use True 2(5) lists varint_runs [OF 2(5)] binary_runs [OF 2(5)] in
        \<open>auto intro: set_error_advances pending_advances td_skip_advances simp: runs_def\<close>)
  qed (simp add: advances_refl 2)
next
  case (4 d n dec elem_type)
  show ?case
  proof (cases "td_status dec = CARQUET_OK")
    case True
    obtain d1 where 1: "thrift_skip d dec elem_type = Some d1" "advances dec d1"
      using 4(1) 4(3,4) True by auto
    then have "\<exists>dec'. skip_elems d n d1 elem_type = Some dec' \<and> advances d1 dec'"
      using 4(2) [OF _ 1(1)] 4(4) True advances_wf advances_left [OF 1(2)] by fastforce
    then show ?thesis using 1 True by (auto intro: advances_trans)
  qed (simp add: advances_refl 4)
next
  case (6 d n dec key_type value_type)
  show ?case
  proof (cases "td_status dec = CARQUET_OK")
    case True
    obtain d1 where 1: "thrift_skip d dec key_type = Some d1" "advances dec d1"
      using 6(1) 6(4,5) True by auto
    obtain d2 where 2: "thrift_skip d d1 value_type = Some d2" "advances d1 d2"
      using 6(2) [OF _ 1(1)] 6(5) True advances_wf [OF 1(2)] advances_left [OF 1(2)] by fastforce
    then have "\<exists>dec'. skip_entries d n d2 key_type value_type = Some dec' \<and> advances d2 dec'"
      using 6(3) [OF _ 1(1) 2(1)] 6(5) True advances_wf advances_left [OF 1(2)] advances_left [OF 2(2)] by fastforce
    then show ?thesis using 1 2 True by (auto intro: advances_trans)
  qed (simp add: advances_refl 6)
next
  case (8 d n dec)
  obtain r d1 where f: "thrift_read_field_begin dec = Some (r, d1)" "advances dec d1"
    "r = None \<or> length (td_left d1) < length (td_left dec)"
    by (rule field_begin_run [OF 8(3)])
  show ?case
  proof (cases r)
    case None
    then show ?thesis using f by simp
  next
    case (Some x)
    obtain ty id where x: "x = (ty, id)" by (cases x)
    have lt: "length (td_left d1) < length (td_left dec)" using f(3) Some by simp
    obtain d2 where 2: "thrift_skip d d1 ty = Some d2" "advances d1 d2"
      using 8(1) [OF f(1) refl Some x[symmetric]] advances_wf [OF f(2)] lt 8(5) by auto
    then obtain d3 where "skip_fields d n d2 = Some d3" "advances d2 d3"
      using 8(2) [OF f(1) refl Some x[symmetric] 2(1)] advances_wf [OF 2(2)] advances_left [OF 2(2)] lt 8(4,5) by auto
    then show ?thesis using f 2 Some x by (auto intro: advances_trans)
  qed
qed (simp_all add: advances_refl)

text \<open>More depth or more rounds do not change a result.\<close>

lemma skip_mono:
  "thrift_skip d dec type = Some r \<Longrightarrow> d \<le> e \<Longrightarrow> thrift_skip e dec type = Some r"
  "skip_elems d n dec type = Some r \<Longrightarrow> d \<le> e \<Longrightarrow> skip_elems e n dec type = Some r"
  "skip_entries d n dec type type' = Some r \<Longrightarrow> d \<le> e \<Longrightarrow> skip_entries e n dec type type' = Some r"
  "skip_fields d n dec = Some r \<Longrightarrow> d \<le> e \<Longrightarrow> skip_fields e n dec = Some r"
proof (induction d dec type and d n dec type and d n dec type type' and d n dec
    arbitrary: e r and e r and e r and e r
    rule: thrift_skip_skip_elems_skip_entries_skip_fields.induct)
  case (2 d dec type)
  obtain e' where e: "e = Suc e'" "d \<le> e'" using 2(6) by (cases e) auto
  show ?case
  proof (cases type)
    case THRIFT_TYPE_LIST
    show ?thesis
    proof (cases "td_status dec = CARQUET_OK")
      case True
      then obtain ty n d1 where l: "thrift_read_list_begin dec = Some (ty, n, d1)" "skip_elems d n d1 ty = Some r"
        using 2(5) THRIFT_TYPE_LIST by (auto split: option.splits)
      then show ?thesis using 2(1) [OF _ THRIFT_TYPE_LIST l(1) refl refl l(2) e(2)] True THRIFT_TYPE_LIST e(1) by simp
    qed (use 2(5) e in auto)
  next
    case THRIFT_TYPE_SET
    show ?thesis
    proof (cases "td_status dec = CARQUET_OK")
      case True
      then obtain ty n d1 where l: "thrift_read_list_begin dec = Some (ty, n, d1)" "skip_elems d n d1 ty = Some r"
        using 2(5) THRIFT_TYPE_SET by (auto split: option.splits)
      then show ?thesis using 2(2) [OF _ THRIFT_TYPE_SET l(1) refl refl l(2) e(2)] True THRIFT_TYPE_SET e(1) by simp
    qed (use 2(5) e in auto)
  next
    case THRIFT_TYPE_MAP
    show ?thesis
    proof (cases "td_status dec = CARQUET_OK")
      case True
      then obtain kt vt n d1 where l: "thrift_read_map_begin dec = Some (kt, vt, n, d1)" "skip_entries d n d1 kt vt = Some r"
        using 2(5) THRIFT_TYPE_MAP by (auto split: option.splits)
      then show ?thesis using 2(3) [OF _ THRIFT_TYPE_MAP l(1) refl refl refl l(2) e(2)] True THRIFT_TYPE_MAP e(1) by simp
    qed (use 2(5) e in auto)
  next
    case THRIFT_TYPE_STRUCT
    then show ?thesis using 2(4) [OF _ THRIFT_TYPE_STRUCT _ _ e(2)] 2(5) e
      by (cases "thrift_read_struct_begin dec") (auto simp del: skip_fields.simps split: if_splits)
  qed (use 2(5) e in auto)
next
  case (4 d n dec elem_type)
  show ?case
  proof (cases "td_status dec = CARQUET_OK")
    case True
    then obtain d1 where d1: "thrift_skip d dec elem_type = Some d1" "skip_elems d n d1 elem_type = Some r"
      using 4(3) by (auto split: option.splits)
    then show ?thesis using 4(1) [OF _ d1(1) 4(4)] 4(2) [OF _ d1 4(4)] True by simp
  qed (use 4(3) in auto)
next
  case (6 d n dec key_type value_type)
  show ?case
  proof (cases "td_status dec = CARQUET_OK")
    case True
    then obtain d1 d2 where d1: "thrift_skip d dec key_type = Some d1" and d2: "thrift_skip d d1 value_type = Some d2"
        "skip_entries d n d2 key_type value_type = Some r"
      using 6(4) by (auto split: option.splits)
    then show ?thesis
      using 6(1) [OF _ d1(1) 6(5)] 6(2) [OF _ d1 d2(1) 6(5)] 6(3) [OF _ d1 d2 6(5)] True by simp
  qed (use 6(4) in auto)
next
  case (8 d n dec)
  obtain v d1 where f: "thrift_read_field_begin dec = Some (v, d1)" using 8(3) by (auto split: option.splits)
  show ?case
  proof (cases v)
    case None
    then show ?thesis using f 8(3) by simp
  next
    case (Some x)
    obtain ty id where x: "x = (ty, id)" by (cases x)
    obtain d2 where d2: "thrift_skip d d1 ty = Some d2" "skip_fields d n d2 = Some r"
      using 8(3) f Some x by (auto split: option.splits)
    then show ?thesis
      using 8(1) [OF f refl Some x[symmetric] d2(1) 8(4)] 8(2) [OF f refl Some x[symmetric] d2 8(4)] f Some x by simp
  qed
qed simp_all

lemma thrift_init_wf: "length bs < 2 ^ 63 \<Longrightarrow> td_wf (thrift_decoder_init bs (length bs))"
  by (simp add: td_wf_def reader_wf_def thrift_decoder_init_def carquet_buffer_reader_init_data_def)

lemma thrift_init_left: "td_left (thrift_decoder_init bs (length bs)) = bs"
  by (simp add: unread_def thrift_decoder_init_def carquet_buffer_reader_init_data_def)

lemma thrift_init_at:
  assumes "n = length bs" and "n < 2 ^ 63"
  shows "td_wf (thrift_decoder_init bs n)" and "td_left (thrift_decoder_init bs n) = bs"
    and "td_status (thrift_decoder_init bs n) = CARQUET_OK" and "td_bool_pending (thrift_decoder_init bs n) = False"
    and "carquet_buffer_reader_remaining (td_reader (thrift_decoder_init bs n)) = n"
  using assms thrift_init_wf [of bs] thrift_init_left [of bs]
  by (simp_all add: reader_remaining_unread td_wf_def) (simp_all add: thrift_decoder_init_def)

lemma nested_lists:
  "td_wf dec \<Longrightarrow> td_status dec = CARQUET_OK \<Longrightarrow> td_left dec = replicate (Suc d) 0x19 \<Longrightarrow>
     thrift_skip d dec THRIFT_TYPE_LIST = None"
proof (induction d arbitrary: dec)
  case (Suc d)
  have left: "td_left (td_adv dec 1) = replicate (Suc d) 0x19" and wf: "td_wf (td_adv dec 1)"
    using td_adv_left [OF Suc.prems(1), of 1] Suc.prems(3) by simp_all
  have b: "read_byte_raw dec = Some (0x19, td_adv dec 1)" using Suc.prems(3) by (simp add: read_byte_eq [OF Suc.prems(1)])
  have n: "(ucast (drop_bit 4 (0x19 :: u8) AND 0x0F) :: u32) = 1" "(0x19 :: u8) AND 0x0F = 9" by (code_simp, code_simp)
  have "thrift_read_list_begin dec = Some (THRIFT_TYPE_LIST, 1, td_adv dec 1)"
    using wf left by (simp add: thrift_read_list_begin_def b n type_of_nibble_def reader_remaining_unread td_wf_def)
  then show ?case using Suc.IH [OF wf _ left] Suc.prems(2) by simp
qed simp

section \<open>Properties\<close>

text \<open>C33: On any bytes every reader of the Thrift decoder stays inside its data, keeps the decoder well
  formed, consumes bytes only from the front and leaves the first error in place.\<close>

theorem readers_safe:
  assumes "td_wf dec"
  shows "runs dec (thrift_read_varint dec) \<and> runs dec (thrift_read_zigzag dec) \<and> runs dec (thrift_read_byte dec) \<and>
    runs dec (thrift_read_i16 dec) \<and> runs dec (thrift_read_i32 dec) \<and> runs dec (thrift_read_i64 dec) \<and>
    runs dec (thrift_read_double dec) \<and> runs dec (thrift_read_bool dec) \<and> runs dec (thrift_read_binary dec) \<and>
    runs dec (thrift_read_string_alloc A dec) \<and> runs dec (thrift_read_uuid dec) \<and>
    runs dec (thrift_read_field_begin dec) \<and>
    (\<exists>ty n d. thrift_read_list_begin dec = Some (ty, n, d) \<and> advances dec d \<and> n \<le> length (td_left dec)) \<and>
    (\<exists>kt vt n d. thrift_read_map_begin dec = Some (kt, vt, n, d) \<and> advances dec d \<and> n \<le> length (td_left dec)) \<and>
    (\<exists>d. thrift_read_struct_begin dec = Some d \<and> advances dec d) \<and> advances dec (thrift_read_struct_end dec)"
proof -
  have "runs dec (thrift_read_field_begin dec)"
    by (rule field_begin_run [OF assms]) (simp add: runs_SomeI)
  moreover have "\<exists>ty n d. thrift_read_list_begin dec = Some (ty, n, d) \<and> advances dec d \<and> n \<le> length (td_left dec)"
    by (rule list_begin_run [OF assms]) blast
  moreover have "\<exists>kt vt n d. thrift_read_map_begin dec = Some (kt, vt, n, d) \<and> advances dec d \<and> n \<le> length (td_left dec)"
    by (rule map_begin_run [OF assms]) blast
  ultimately show ?thesis
    using assms struct_begin_advances [OF assms] struct_end_advances [OF assms] varint_runs [OF assms]
      zigzag_runs [OF assms] ints_run [OF assms] double_runs [OF assms] bool_runs [OF assms] binary_runs [OF assms]
      string_runs [OF assms, of A] uuid_runs [OF assms]
    by - (intro conjI; assumption)
qed

lemma readers_safe_witness: "runs (thrift_decoder_init [0x80] 1) (thrift_read_varint (thrift_decoder_init [0x80] 1))"
proof -
  have "td_wf (thrift_decoder_init [0x80] 1)" by (rule thrift_init_at) simp_all
  from readers_safe [OF this] show ?thesis by simp
qed

text \<open>C30: Skipping a value of any type ends, whatever the bytes: it stays inside the data and recurses no
  deeper than there are bytes left, so that any greater bound gives the same result.\<close>

theorem skip_total:
  assumes "td_wf dec"
  shows "\<exists>dec'. thrift_skip_field dec type = Some dec' \<and> advances dec dec' \<and>
    (\<forall>d > length (td_left dec). thrift_skip d dec type = Some dec')"
proof -
  have rem: "carquet_buffer_reader_remaining (td_reader dec) = length (td_left dec)"
    using assms by (simp add: td_wf_def reader_remaining_unread)
  obtain dec' where r: "thrift_skip (Suc (length (td_left dec))) dec type = Some dec'" "advances dec dec'"
    using skip_run(1) [OF assms, of "Suc (length (td_left dec))" type] by auto
  have "thrift_skip d dec type = Some dec'" if "length (td_left dec) < d" for d
    using that by (intro skip_mono(1) [OF r(1)]) simp
  with r show ?thesis unfolding thrift_skip_field_def rem by blast
qed

lemma skip_total_witness:
  "\<exists>dec'. thrift_skip_field (thrift_decoder_init [0x19, 0x19, 0x29] 3) THRIFT_TYPE_LIST = Some dec'"
proof -
  have "td_wf (thrift_decoder_init [0x19, 0x19, 0x29] 3)" by (rule thrift_init_at) simp_all
  from skip_total [OF this] show ?thesis by blast
qed

text \<open>Lists nested in lists are not counted against \<open>THRIFT_MAX_NESTING\<close>: for every depth
  there are bytes, one more than the depth, on which skipping recurses deeper.\<close>

theorem skip_depth_unbounded:
  "length bs < 2 ^ 63 \<and> bs = replicate (Suc d) 0x19 \<longrightarrow>
     thrift_skip d (thrift_decoder_init bs (length bs)) THRIFT_TYPE_LIST = None"
  using nested_lists [OF thrift_init_wf, of bs d] by (auto simp: thrift_init_left) (simp add: thrift_decoder_init_def)

lemma skip_depth_unbounded_witness:
  "thrift_skip 40 (thrift_decoder_init (replicate 41 0x19) 41) THRIFT_TYPE_LIST = None"
  using skip_depth_unbounded [of "replicate 41 0x19" 40] by simp

text \<open>Reading the elements of a boolean list, one after the other.\<close>

fun read_bools :: "nat \<Rightarrow> thrift_decoder \<Rightarrow> (bool list \<times> thrift_decoder) option" where
  "read_bools 0 dec = Some ([], dec)"
| "read_bools (Suc n) dec = do {
     (b, dec1) \<leftarrow> thrift_read_bool dec;
     (bs, dec2) \<leftarrow> read_bools n dec1;
     Some (b # bs, dec2)
   }"

lemma td_adv_0 [simp]: "td_adv dec 0 = dec"
  by (simp add: td_adv_def)

lemma td_adv_add: "td_adv (td_adv dec m) n = td_adv dec (m + n)"
  by (simp add: td_adv_def add.assoc)

lemma read_bools_eq:
  "td_wf dec \<Longrightarrow> \<not> td_bool_pending dec \<Longrightarrow> n \<le> length (td_left dec) \<Longrightarrow>
     read_bools n dec = Some (map (\<lambda>b. b = 1) (take n (td_left dec)), td_adv dec n)"
proof (induction n arbitrary: dec)
  case (Suc n)
  then obtain b bs where l: "td_left dec = b # bs" by (cases "td_left dec") auto
  have a: "td_wf (td_adv dec 1)" "td_left (td_adv dec 1) = bs"
    using td_adv_left [OF Suc.prems(1), of 1] l by simp_all
  have "thrift_read_bool dec = Some (b = 1, td_adv dec 1)"
    using Suc.prems(2) l by (simp add: thrift_read_bool_def read_byte_eq [OF Suc.prems(1)])
  then show ?case
    using Suc.IH [OF a(1)] Suc.prems(2,3) a(2) l by (simp add: td_adv_add)
qed simp

lemma list_begin_count:
  assumes "td_wf dec" and "thrift_read_list_begin dec = Some (ty, n, dec1)"
  shows "td_wf dec1" and "n \<le> length (td_left dec1)" and "td_status dec1 = CARQUET_OK \<Longrightarrow> td_left dec \<noteq> []"
proof -
  obtain ty' n' d where d: "thrift_read_list_begin dec = Some (ty', n', d)" "advances dec d"
    by (rule list_begin_run [OF assms(1)])
  then show wf: "td_wf dec1" using assms(2) by (auto dest: advances_wf)
  have "n \<le> carquet_buffer_reader_remaining (td_reader dec1)"
    using assms(2) by (auto simp: thrift_read_list_begin_def Let_def split: bind_splits if_splits)
  then show "n \<le> length (td_left dec1)" using wf by (simp add: reader_remaining_unread td_wf_def)
  show "td_left dec \<noteq> []" if ok: "td_status dec1 = CARQUET_OK"
  proof
    assume "td_left dec = []"
    then have r: "read_byte_raw dec = Some (0, td_set_error dec CARQUET_ERROR_THRIFT_TRUNCATED ''Unexpected end of data'')"
      by (simp add: read_byte_eq [OF assms(1)])
    have "td_status dec1 \<noteq> CARQUET_OK"
      using assms(2) unfolding thrift_read_list_begin_def r by (auto simp: Let_def)
    with ok show False by simp
  qed
qed

lemma skip_bool_elems:
  assumes "ty = THRIFT_TYPE_TRUE \<or> ty = THRIFT_TYPE_FALSE" and "td_status dec = CARQUET_OK"
    and "\<not> td_bool_pending dec"
  shows "skip_elems (Suc d) n dec ty = Some dec"
proof -
  have s: "thrift_skip (Suc d) dec ty = Some dec" using assms by auto
  show ?thesis by (induction n) (use assms(2) s in simp_all)
qed

text \<open>C38: In a list or set of booleans each element is a byte, which \<open>thrift_read_bool\<close> reads but
  \<open>thrift_skip\<close> leaves: whenever the reader accepts the header of such a list, of any count,
  reading the elements consumes a byte for each, while skipping the list ends with no error right
  behind the header, before all the elements. A double cut off by the end of the data is skipped
  with no error either, and nothing is consumed, where reading it reports the truncation.\<close>

theorem skip_bool_list_desync:
  assumes "td_wf dec" and "td_status dec = CARQUET_OK"
    and "thrift_read_list_begin dec = Some (ty, n, dec1)" and "ty = THRIFT_TYPE_TRUE \<or> ty = THRIFT_TYPE_FALSE"
    and "td_status dec1 = CARQUET_OK" and "\<not> td_bool_pending dec1"
    and "td_wf short" and "td_status short = CARQUET_OK" and "length (td_left short) < 8"
  shows "thrift_skip_field dec THRIFT_TYPE_LIST = Some dec1 \<and> thrift_skip_field dec THRIFT_TYPE_SET = Some dec1 \<and>
    n \<le> length (td_left dec1) \<and>
    (\<exists>dec2. read_bools n dec1 = Some (map (\<lambda>b. b = 1) (take n (td_left dec1)), dec2) \<and>
       td_left dec2 = drop n (td_left dec1)) \<and>
    thrift_skip_field short THRIFT_TYPE_DOUBLE = Some short \<and>
    (\<exists>short'. thrift_read_double short = Some (0, short') \<and> td_status short' = CARQUET_ERROR_THRIFT_TRUNCATED)"
proof -
  note b = list_begin_count [OF assms(1,3)]
  obtain k where k: "carquet_buffer_reader_remaining (td_reader dec) = Suc k"
    using b(3) [OF assms(5)] assms(1) by (cases "td_left dec") (simp_all add: reader_remaining_unread td_wf_def)
  have e: "skip_elems (Suc k) n dec1 ty = Some dec1" by (rule skip_bool_elems [OF assms(4,5,6)])
  have "thrift_skip_field dec THRIFT_TYPE_LIST = Some dec1" "thrift_skip_field dec THRIFT_TYPE_SET = Some dec1"
    using assms(2,3) e by (simp_all add: thrift_skip_field_def k)
  moreover have "thrift_skip_field short THRIFT_TYPE_DOUBLE = Some short"
    using assms(7-9) by (simp add: thrift_skip_field_def td_skip_eq)
  moreover have "\<exists>short'. thrift_read_double short = Some (0, short') \<and> td_status short' = CARQUET_ERROR_THRIFT_TRUNCATED"
    using assms(7-9) by (simp add: thrift_read_double_def has_bytes_iff td_set_error_def)
  ultimately show ?thesis
    using b(2) read_bools_eq [OF b(1) assms(6) b(2)] td_adv_left(2) [OF b(1,2)] by simp
qed

lemma skip_bool_list_desync_witness:
  "map_option td_left (thrift_skip_field (thrift_decoder_init [0x21, 1, 0, 0x55] 4) THRIFT_TYPE_LIST) = Some [1, 0, 0x55] \<and>
   thrift_skip_field (thrift_decoder_init [1, 2, 3] 3) THRIFT_TYPE_DOUBLE = Some (thrift_decoder_init [1, 2, 3] 3)"
proof -
  let ?d = "thrift_decoder_init [0x21, 1, 0, 0x55] 4" and ?c = "thrift_decoder_init [1, 2, 3] 3"
  have d: "td_wf ?d" "td_left ?d = [0x21, 1, 0, 0x55]" "td_status ?d = CARQUET_OK" "td_bool_pending ?d = False"
    by (rule thrift_init_at; simp)+
  have c: "td_wf ?c" "td_left ?c = [1, 2, 3]" "td_status ?c = CARQUET_OK"
    by (rule thrift_init_at; simp)+
  have d1: "td_wf (td_adv ?d 1)" "td_left (td_adv ?d 1) = [1, 0, 0x55]"
    using td_adv_left [OF d(1), of 1] d(2) by simp_all
  have n: "(ucast (drop_bit 4 (0x21 :: u8) AND 0x0F) :: u32) = 2" "(0x21 :: u8) AND 0x0F = 1" by (code_simp, code_simp)
  have "thrift_read_list_begin ?d = Some (THRIFT_TYPE_TRUE, 2, td_adv ?d 1)"
    using d1 d(2) by (simp add: thrift_read_list_begin_def read_byte_eq [OF d(1)] n type_of_nibble_def
        reader_remaining_unread td_wf_def)
  from skip_bool_list_desync [OF d(1,3) this _ _ _ c(1,3)] d d1(2) c(2) show ?thesis by simp
qed

end
