(* ===== verification/Thrift_Encode.thy ===== *)
theory Thrift_Encode
  imports Thrift_Decode
begin

text \<open>
  Component src/thrift/thrift_encode.c: the writer of the Thrift compact protocol, and its round
  trips through \<open>Thrift_Decode\<close>.

  The encoder is the C struct; the output buffer it points to is a field. A failed append sets the
  status, the first error stays, and later writes go on. None is a read outside the caller's data.
\<close>

section \<open>The encoder\<close>

definition THRIFT_ENCODER_MAX_NESTING :: nat where
  "THRIFT_ENCODER_MAX_NESTING = 32"

record thrift_encoder =
  te_buffer :: carquet_buffer
  te_last_field_id :: "u16 list"
  te_nesting_level :: nat
  te_status :: carquet_status

definition te_set_error :: "thrift_encoder \<Rightarrow> carquet_status \<Rightarrow> thrift_encoder" where
  "te_set_error enc status = (if te_status enc = CARQUET_OK then enc\<lparr>te_status := status\<rparr> else enc)"

definition thrift_encoder_init :: "carquet_buffer \<Rightarrow> thrift_encoder" where
  "thrift_encoder_init buffer =
     \<lparr>te_buffer = buffer, te_last_field_id = replicate THRIFT_ENCODER_MAX_NESTING 0, te_nesting_level = 0,
      te_status = CARQUET_OK\<rparr>"

definition thrift_encoder_has_error :: "thrift_encoder \<Rightarrow> bool" where
  "thrift_encoder_has_error enc \<longleftrightarrow> te_status enc \<noteq> CARQUET_OK"

definition thrift_encoder_size :: "thrift_encoder \<Rightarrow> nat" where
  "thrift_encoder_size enc = buf_size (te_buffer enc)"

text \<open>The append and the check of its status that end every writer.\<close>

definition te_append :: "allocator \<Rightarrow> thrift_encoder \<Rightarrow> u8 list \<Rightarrow> thrift_encoder" where
  "te_append A enc bs =
     (let (status, buf) = carquet_buffer_append A (te_buffer enc) bs;
          enc' = enc\<lparr>te_buffer := buf\<rparr>
      in if status \<noteq> CARQUET_OK then te_set_error enc' CARQUET_ERROR_OUT_OF_MEMORY else enc')"

section \<open>Numbers and bytes\<close>

text \<open>The loop of \<open>thrift_write_varint\<close> is the one of \<open>carquet_encode_varint64\<close>.\<close>

definition thrift_write_varint :: "allocator \<Rightarrow> thrift_encoder \<Rightarrow> u64 \<Rightarrow> thrift_encoder" where
  "thrift_write_varint A enc value = te_append A enc (carquet_encode_varint64 value)"

definition thrift_write_zigzag :: "allocator \<Rightarrow> thrift_encoder \<Rightarrow> u64 \<Rightarrow> thrift_encoder" where
  "thrift_write_zigzag A enc value = thrift_write_varint A enc (carquet_zigzag_encode64 value)"

definition thrift_write_byte :: "allocator \<Rightarrow> thrift_encoder \<Rightarrow> u8 \<Rightarrow> thrift_encoder" where
  "thrift_write_byte A enc value = te_append A enc [value]"

definition thrift_write_i16 :: "allocator \<Rightarrow> thrift_encoder \<Rightarrow> u16 \<Rightarrow> thrift_encoder" where
  "thrift_write_i16 A enc value = thrift_write_zigzag A enc (scast value)"

definition thrift_write_i32 :: "allocator \<Rightarrow> thrift_encoder \<Rightarrow> u32 \<Rightarrow> thrift_encoder" where
  "thrift_write_i32 A enc value = thrift_write_zigzag A enc (scast value)"

definition thrift_write_i64 :: "allocator \<Rightarrow> thrift_encoder \<Rightarrow> u64 \<Rightarrow> thrift_encoder" where
  "thrift_write_i64 A enc value = thrift_write_zigzag A enc value"

definition thrift_write_double :: "allocator \<Rightarrow> thrift_encoder \<Rightarrow> u64 \<Rightarrow> thrift_encoder" where
  "thrift_write_double A enc value = te_append A enc (carquet_write_u64_le value)"

definition thrift_write_bool :: "allocator \<Rightarrow> thrift_encoder \<Rightarrow> bool \<Rightarrow> thrift_encoder" where
  "thrift_write_bool A enc value = thrift_write_byte A enc (if value then 1 else 0)"

text \<open>The length is an \<open>int32_t\<close>; the NULL pointer is None.\<close>

definition thrift_write_binary ::
  "allocator \<Rightarrow> thrift_encoder \<Rightarrow> u8 list option \<Rightarrow> u32 \<Rightarrow> thrift_encoder option" where
  "thrift_write_binary A enc data len =
     (let enc1 = thrift_write_varint A enc (scast len)
      in if sint len > 0 \<and> data \<noteq> None then do {
           bs \<leftarrow> rd_bytes (the data) 0 (unat len);
           Some (te_append A enc1 bs)
         }
         else Some enc1)"

text \<open>A string is its bytes before the terminating NUL.\<close>

definition thrift_write_string :: "allocator \<Rightarrow> thrift_encoder \<Rightarrow> u8 list option \<Rightarrow> thrift_encoder option" where
  "thrift_write_string A enc str =
     (case str of None \<Rightarrow> thrift_write_binary A enc None 0
      | Some s \<Rightarrow> thrift_write_binary A enc (Some s) (of_nat (length s)))"

definition thrift_write_uuid :: "allocator \<Rightarrow> thrift_encoder \<Rightarrow> u8 list \<Rightarrow> thrift_encoder option" where
  "thrift_write_uuid A enc uuid = do { bs \<leftarrow> rd_bytes uuid 0 16; Some (te_append A enc bs) }"

section \<open>Structs and containers\<close>

fun type_code :: "thrift_type \<Rightarrow> u8" where
  "type_code THRIFT_TYPE_STOP = 0"
| "type_code THRIFT_TYPE_TRUE = 1"
| "type_code THRIFT_TYPE_FALSE = 2"
| "type_code THRIFT_TYPE_BYTE = 3"
| "type_code THRIFT_TYPE_I16 = 4"
| "type_code THRIFT_TYPE_I32 = 5"
| "type_code THRIFT_TYPE_I64 = 6"
| "type_code THRIFT_TYPE_DOUBLE = 7"
| "type_code THRIFT_TYPE_BINARY = 8"
| "type_code THRIFT_TYPE_LIST = 9"
| "type_code THRIFT_TYPE_SET = 10"
| "type_code THRIFT_TYPE_MAP = 11"
| "type_code THRIFT_TYPE_STRUCT = 12"
| "type_code THRIFT_TYPE_UUID = 13"
| "type_code (THRIFT_TYPE_OTHER b) = b"

definition thrift_write_struct_begin :: "thrift_encoder \<Rightarrow> thrift_encoder option" where
  "thrift_write_struct_begin enc =
     (if te_nesting_level enc \<ge> THRIFT_ENCODER_MAX_NESTING then
        Some (te_set_error enc CARQUET_ERROR_THRIFT_ENCODE)
      else do {
        ids \<leftarrow> wr (te_last_field_id enc) (te_nesting_level enc) 0;
        Some (enc\<lparr>te_last_field_id := ids, te_nesting_level := te_nesting_level enc + 1\<rparr>)
      })"

definition thrift_write_field_stop :: "allocator \<Rightarrow> thrift_encoder \<Rightarrow> thrift_encoder" where
  "thrift_write_field_stop A enc = thrift_write_byte A enc 0"

definition thrift_write_struct_end :: "allocator \<Rightarrow> thrift_encoder \<Rightarrow> thrift_encoder" where
  "thrift_write_struct_end A enc =
     (let enc1 = thrift_write_field_stop A enc
      in if te_nesting_level enc1 > 0 then enc1\<lparr>te_nesting_level := te_nesting_level enc1 - 1\<rparr> else enc1)"

definition thrift_write_field_header ::
  "allocator \<Rightarrow> thrift_encoder \<Rightarrow> thrift_type \<Rightarrow> u16 \<Rightarrow> thrift_encoder option" where
  "thrift_write_field_header A enc type field_id = do {
     last_id \<leftarrow> (if te_nesting_level enc > 0 then rd (te_last_field_id enc) (te_nesting_level enc - 1) else Some 0);
     let delta = field_id - last_id;
     let enc1 = (if 0 < sint delta \<and> sint delta \<le> 15 then
                   thrift_write_byte A enc (push_bit 4 (ucast delta AND 0x0F) OR (type_code type AND 0x0F))
                 else thrift_write_i16 A (thrift_write_byte A enc (type_code type AND 0x0F)) field_id);
     ids \<leftarrow> (if te_nesting_level enc1 > 0 then wr (te_last_field_id enc1) (te_nesting_level enc1 - 1) field_id
            else Some (te_last_field_id enc1));
     Some (enc1\<lparr>te_last_field_id := ids\<rparr>)
   }"

definition thrift_write_list_begin :: "allocator \<Rightarrow> thrift_encoder \<Rightarrow> thrift_type \<Rightarrow> u32 \<Rightarrow> thrift_encoder" where
  "thrift_write_list_begin A enc elem_type count =
     (if sint count < 15 then
        thrift_write_byte A enc (push_bit 4 (ucast count AND 0x0F) OR (type_code elem_type AND 0x0F))
      else thrift_write_varint A (thrift_write_byte A enc (push_bit 4 0x0F OR (type_code elem_type AND 0x0F)))
             (scast count))"

definition thrift_write_set_begin :: "allocator \<Rightarrow> thrift_encoder \<Rightarrow> thrift_type \<Rightarrow> u32 \<Rightarrow> thrift_encoder" where
  "thrift_write_set_begin A enc elem_type count = thrift_write_list_begin A enc elem_type count"

definition thrift_write_map_begin ::
  "allocator \<Rightarrow> thrift_encoder \<Rightarrow> thrift_type \<Rightarrow> thrift_type \<Rightarrow> u32 \<Rightarrow> thrift_encoder" where
  "thrift_write_map_begin A enc key_type value_type count =
     (if count = 0 then thrift_write_byte A enc 0
      else thrift_write_byte A (thrift_write_varint A enc (scast count))
             (push_bit 4 (type_code key_type AND 0x0F) OR (type_code value_type AND 0x0F)))"

section \<open>Writing while there is room\<close>

text \<open>The encoder has no error and \<open>n\<close> more bytes fit.\<close>

definition te_ok :: "allocator \<Rightarrow> thrift_encoder \<Rightarrow> nat \<Rightarrow> bool" where
  "te_ok A enc n \<longleftrightarrow> buf_wf (te_buffer enc) \<and> buf_room A (te_buffer enc) n \<and> te_status enc = CARQUET_OK \<and>
     length (te_last_field_id enc) = THRIFT_ENCODER_MAX_NESTING \<and> te_nesting_level enc \<le> THRIFT_ENCODER_MAX_NESTING"

abbreviation te_out :: "thrift_encoder \<Rightarrow> u8 list" where
  "te_out enc \<equiv> contents (te_buffer enc)"

lemma te_append_ok:
  assumes "te_ok A enc (length bs + n)"
  shows "te_ok A (te_append A enc bs) n" and "te_out (te_append A enc bs) = te_out enc @ bs"
    and "te_last_field_id (te_append A enc bs) = te_last_field_id enc"
    and "te_nesting_level (te_append A enc bs) = te_nesting_level enc"
proof -
  have wf: "buf_wf (te_buffer enc)" and room: "buf_room A (te_buffer enc) (length bs + n)"
    using assms by (auto simp: te_ok_def)
  obtain buf where b: "carquet_buffer_append A (te_buffer enc) bs = (CARQUET_OK, buf)"
    using bsink.put_room_OK(1) [OF wf room] by (metis prod.collapse)
  then have "te_append A enc bs = enc\<lparr>te_buffer := buf\<rparr>" by (simp add: te_append_def)
  moreover have "buf_wf buf" "contents buf = te_out enc @ bs" "buf_room A buf n"
    using bsink.put_room_OK(2-4) [OF wf room] b by simp_all
  ultimately show "te_ok A (te_append A enc bs) n" "te_out (te_append A enc bs) = te_out enc @ bs"
    "te_last_field_id (te_append A enc bs) = te_last_field_id enc"
    "te_nesting_level (te_append A enc bs) = te_nesting_level enc"
    using assms by (simp_all add: te_ok_def)
qed

text \<open>\<open>writes A enc enc' bs n\<close>: the bytes were written, \<open>n\<close> more fit, and nothing else changed.\<close>

definition writes :: "allocator \<Rightarrow> thrift_encoder \<Rightarrow> thrift_encoder \<Rightarrow> u8 list \<Rightarrow> nat \<Rightarrow> bool" where
  "writes A enc enc' bs n \<longleftrightarrow> te_ok A enc' n \<and> te_out enc' = te_out enc @ bs \<and>
     te_last_field_id enc' = te_last_field_id enc \<and> te_nesting_level enc' = te_nesting_level enc"

lemma writes_append: "te_ok A enc (length bs + n) \<Longrightarrow> writes A enc (te_append A enc bs) bs n"
  by (simp add: writes_def te_append_ok)

lemma writes_trans:
  "writes A a b bs (length cs + n) \<Longrightarrow> writes A b c cs n \<Longrightarrow> writes A a c (bs @ cs) n"
  by (simp add: writes_def)

lemma te_ok_mono: "te_ok A enc n \<Longrightarrow> m \<le> n \<Longrightarrow> te_ok A enc m"
  by (auto simp: te_ok_def dest: bsink.room_mono)

section \<open>Round trips of the primitive values\<close>

text \<open>
  The decoder stands on these bytes: it is well formed, without an error or a
  pending boolean, and has \<open>bs\<close> in front.
\<close>

definition td_on :: "thrift_decoder \<Rightarrow> u8 list \<Rightarrow> bool" where
  "td_on dec bs \<longleftrightarrow> td_wf dec \<and> td_status dec = CARQUET_OK \<and> \<not> td_bool_pending dec \<and> (\<exists>rest. td_left dec = bs @ rest)"

lemma td_on_adv: "td_on dec (bs @ cs) \<Longrightarrow> td_on (td_adv dec (length bs)) cs"
  using td_adv_left [of dec "length bs"] by (auto simp: td_on_def)

lemma td_on_prefix: "td_on dec (bs @ cs) \<Longrightarrow> td_on dec bs"
  by (auto simp: td_on_def)

lemma td_on_byte: "td_on dec (b # bs) \<Longrightarrow> read_byte_raw dec = Some (b, td_adv dec 1)"
  by (auto simp: td_on_def read_byte_eq)

text \<open>What a pair of a writer and a reader of one kind of value promises.\<close>

locale wire_codec =
  fixes put :: "allocator \<Rightarrow> thrift_encoder \<Rightarrow> 'a \<Rightarrow> thrift_encoder option"
    and get :: "thrift_decoder \<Rightarrow> ('a \<times> thrift_decoder) option"
    and bytes :: "'a \<Rightarrow> u8 list"
    and valid :: "'a \<Rightarrow> bool"
  assumes put_bytes: "valid x \<Longrightarrow> te_ok A enc (length (bytes x) + n) \<Longrightarrow>
      \<exists>enc'. put A enc x = Some enc' \<and> writes A enc enc' (bytes x) n"
    and get_bytes: "valid x \<Longrightarrow> td_on dec (bytes x) \<Longrightarrow> get dec = Some (x, td_adv dec (length (bytes x)))"
begin

fun put_list :: "allocator \<Rightarrow> thrift_encoder \<Rightarrow> 'a list \<Rightarrow> thrift_encoder option" where
  "put_list A enc [] = Some enc"
| "put_list A enc (x # xs) = do { enc1 \<leftarrow> put A enc x; put_list A enc1 xs }"

fun get_list :: "nat \<Rightarrow> thrift_decoder \<Rightarrow> ('a list \<times> thrift_decoder) option" where
  "get_list 0 dec = Some ([], dec)"
| "get_list (Suc n) dec = do { (x, dec1) \<leftarrow> get dec; (xs, dec2) \<leftarrow> get_list n dec1; Some (x # xs, dec2) }"

lemma put_list_bytes:
  "\<forall>x \<in> set xs. valid x \<Longrightarrow> te_ok A enc (length (concat (map bytes xs)) + n) \<Longrightarrow>
     \<exists>enc'. put_list A enc xs = Some enc' \<and> writes A enc enc' (concat (map bytes xs)) n"
proof (induction xs arbitrary: enc)
  case Nil
  then show ?case by (simp add: writes_def)
next
  case (Cons x xs)
  let ?m = "length (concat (map bytes xs)) + n"
  have "valid x" "te_ok A enc (length (bytes x) + ?m)" using Cons.prems by (simp_all add: add.assoc)
  then obtain e1 where 1: "put A enc x = Some e1" "writes A enc e1 (bytes x) ?m"
    using put_bytes by blast
  moreover obtain e2 where "put_list A e1 xs = Some e2" "writes A e1 e2 (concat (map bytes xs)) n"
    using Cons.IH [of e1] Cons.prems 1 by (auto simp: writes_def)
  ultimately show ?case by (auto intro: writes_trans)
qed

lemma get_list_bytes:
  "\<forall>x \<in> set xs. valid x \<Longrightarrow> td_on dec (concat (map bytes xs)) \<Longrightarrow>
     get_list (length xs) dec = Some (xs, td_adv dec (length (concat (map bytes xs))))"
proof (induction xs arbitrary: dec)
  case (Cons x xs)
  have "td_on dec (bytes x @ concat (map bytes xs))" using Cons.prems by simp
  then have "get dec = Some (x, td_adv dec (length (bytes x)))" "td_on (td_adv dec (length (bytes x))) (concat (map bytes xs))"
    using get_bytes [of x dec] Cons.prems(1) by (auto intro: td_on_adv dest: td_on_prefix)
  then show ?case using Cons.IH Cons.prems by simp
qed simp

text \<open>What is written reads back, whatever bytes follow.\<close>

lemma list_roundtrip:
  assumes "\<forall>x \<in> set xs. valid x" and "te_ok A enc (length (concat (map bytes xs)) + n)"
  shows "\<exists>enc' bs. put_list A enc xs = Some enc' \<and> writes A enc enc' bs n \<and>
    (\<forall>dec. td_on dec bs \<longrightarrow> get_list (length xs) dec = Some (xs, td_adv dec (length bs)))"
  using put_list_bytes [OF assms] get_list_bytes [OF assms(1)] by blast

lemma value_roundtrip:
  assumes "valid x" and "te_ok A enc (length (bytes x) + n)"
  shows "\<exists>enc' bs. put A enc x = Some enc' \<and> writes A enc enc' bs n \<and> length bs = length (bytes x) \<and>
    (\<forall>dec. td_on dec bs \<longrightarrow> get dec = Some (x, td_adv dec (length bs)))"
  using put_bytes [OF assms] get_bytes [OF assms(1)] by blast

end

lemma varint_loop_decode:
  assumes "td_wf dec" and "decode_varint_loop k (td_left dec) (length (td_left dec)) i shift r = Some (Some (v, j))"
    and "i \<le> length (td_left dec)"
  shows "varint_loop k shift r (td_adv dec i) = Some (v, td_adv dec j)"
  using assms(2,3)
proof (induction k arbitrary: i shift r)
  case (Suc k)
  have i: "i < length (td_left dec)" using Suc.prems(1) by (auto split: if_splits)
  have wf: "td_wf (td_adv dec i)" and left: "td_left (td_adv dec i) = td_left dec ! i # drop (Suc i) (td_left dec)"
    using td_adv_left [OF assms(1), of i] i by (simp_all add: drop_eq_Cons)
  have b: "read_byte_raw (td_adv dec i) = Some (td_left dec ! i, td_adv dec (i + 1))" "has_bytes (td_adv dec i) 1"
    using read_byte_eq [OF wf] has_bytes_iff [OF wf, of 1] left by simp_all
  show ?case using Suc.prems Suc.IH [of "i + 1"] i by (auto simp: b b(2) [simplified] Let_def split: if_splits)
qed simp

lemma varint_on:
  assumes "td_on dec (carquet_encode_varint64 v)"
  shows "thrift_read_varint dec = Some (v, td_adv dec (length (carquet_encode_varint64 v)))"
proof -
  obtain rest where left: "td_left dec = varint_nat (unat v) @ rest" and wf: "td_wf dec"
    using assms by (auto simp: td_on_def encode_varint64_nat)
  have "decode_varint_loop 10 (td_left dec) (length (td_left dec)) 0 0 (take_bit 0 v) =
      Some (Some (v, 0 + length (varint_nat (unat v))))"
    by (rule decode_varint_loop_varint_nat) (simp_all add: left)
  then show ?thesis
    using varint_loop_decode [OF wf, of 10 0 0 0] by (simp add: thrift_read_varint_def encode_varint64_nat)
qed

lemma zigzag_on:
  "td_on dec (carquet_encode_varint64 (carquet_zigzag_encode64 v)) \<Longrightarrow>
     thrift_read_zigzag dec = Some (v, td_adv dec (length (carquet_encode_varint64 (carquet_zigzag_encode64 v))))"
  by (simp add: thrift_read_zigzag_def varint_on)

lemma ucast_scast_back:
  "ucast (scast (x :: u16) :: u64) = x" "ucast (scast (y :: u32) :: u64) = y"
  by (rule bit_word_eqI, simp add: bit_simps)+

interpretation w_byte: wire_codec "\<lambda>A enc x. Some (thrift_write_byte A enc x)" thrift_read_byte "\<lambda>x. [x]" "\<lambda>_. True"
  by unfold_locales (auto simp: thrift_write_byte_def thrift_read_byte_def writes_append dest: td_on_byte)

interpretation w_bool: wire_codec "\<lambda>A enc x. Some (thrift_write_bool A enc x)" thrift_read_bool
    "\<lambda>x. [if x then 1 else 0]" "\<lambda>_. True"
  by unfold_locales
    (auto simp: thrift_write_bool_def thrift_write_byte_def thrift_read_bool_def writes_append td_on_def read_byte_eq)

interpretation w_i16: wire_codec "\<lambda>A enc x. Some (thrift_write_i16 A enc x)" thrift_read_i16
    "\<lambda>x. carquet_encode_varint64 (carquet_zigzag_encode64 (scast x))" "\<lambda>_. True"
  by unfold_locales (auto simp: thrift_write_i16_def thrift_write_zigzag_def thrift_write_varint_def
      thrift_read_i16_def writes_append zigzag_on ucast_scast_back)

interpretation w_i32: wire_codec "\<lambda>A enc x. Some (thrift_write_i32 A enc x)" thrift_read_i32
    "\<lambda>x. carquet_encode_varint64 (carquet_zigzag_encode64 (scast x))" "\<lambda>_. True"
  by unfold_locales (auto simp: thrift_write_i32_def thrift_write_zigzag_def thrift_write_varint_def
      thrift_read_i32_def writes_append zigzag_on ucast_scast_back)

interpretation w_i64: wire_codec "\<lambda>A enc x. Some (thrift_write_i64 A enc x)" thrift_read_i64
    "\<lambda>x. carquet_encode_varint64 (carquet_zigzag_encode64 x)" "\<lambda>_. True"
  by unfold_locales (auto simp: thrift_write_i64_def thrift_write_zigzag_def thrift_write_varint_def
      thrift_read_i64_def writes_append zigzag_on)

interpretation w_double: wire_codec "\<lambda>A enc x. Some (thrift_write_double A enc x)" thrift_read_double
    carquet_write_u64_le "\<lambda>_. True"
  by unfold_locales (auto simp: thrift_write_double_def writes_append td_on_def double_eq write_le_bytes
      le_word_le_bytes take_bit_full_word)

text \<open>A binary value whose length an \<open>int32_t\<close> holds, and the reader when it returns data.\<close>

definition binary_bytes :: "u8 list \<Rightarrow> u8 list" where
  "binary_bytes bs = carquet_encode_varint64 (of_nat (length bs)) @ bs"

definition read_data :: "thrift_decoder \<Rightarrow> (u8 list \<times> thrift_decoder) option" where
  "read_data dec = do {
     (r, dec1) \<leftarrow> thrift_read_binary dec;
     (case r of None \<Rightarrow> None | Some bs \<Rightarrow> Some (bs, dec1))
   }"

lemma int32_len:
  assumes "n < 2 ^ 31"
  shows "sint (of_nat n :: u32) = int n" and "scast (of_nat n :: u32) = (of_nat n :: u64)" and "unat (of_nat n :: u32) = n"
    and "ucast (of_nat n :: u64) = (of_nat n :: u32)"
proof -
  have "unat (of_nat n :: u32) = n" using assms by (simp add: unat_of_nat)
  then show "unat (of_nat n :: u32) = n" .
  show s: "sint (of_nat n :: u32) = int n"
    using assms by (simp add: signed_of_nat signed_take_bit_int_eq_self)
  have "take_bit 64 n = n" using assms by (intro take_bit_nat_eq_self) simp
  then show "ucast (of_nat n :: u64) = (of_nat n :: u32)" by (simp add: unsigned_of_nat)
  show "scast (of_nat n :: u32) = (of_nat n :: u64)"
    by (metis s scast_eq of_int_of_nat_eq)
qed

lemma binary_written:
  assumes "length bs < 2 ^ 31" and "te_ok A enc (length (binary_bytes bs) + n)"
  shows "\<exists>enc'. thrift_write_binary A enc (Some bs) (of_nat (length bs)) = Some enc' \<and>
    writes A enc enc' (binary_bytes bs) n"
proof -
  let ?v = "carquet_encode_varint64 (of_nat (length bs))"
  have 1: "writes A enc (te_append A enc ?v) ?v (length bs + n)"
    using assms(2) by (intro writes_append) (simp add: binary_bytes_def add.assoc)
  then have 2: "writes A enc (te_append A (te_append A enc ?v) bs) (?v @ bs) n"
    by (intro writes_trans [OF 1] writes_append) (simp add: writes_def)
  show ?thesis
  proof (cases "bs = []")
    case True
    then show ?thesis using 1 by (simp add: thrift_write_binary_def binary_bytes_def thrift_write_varint_def int32_len)
  next
    case False
    then show ?thesis using 2 assms(1)
      by (simp add: thrift_write_binary_def binary_bytes_def thrift_write_varint_def int32_len rd_bytes_in)
  qed
qed

lemma binary_on:
  assumes "length bs < 2 ^ 31" and "td_on dec (binary_bytes bs)"
  shows "thrift_read_binary dec = Some (Some bs, td_adv dec (length (binary_bytes bs)))"
proof -
  let ?v = "carquet_encode_varint64 (of_nat (length bs))"
  have on: "td_on dec (?v @ bs)" using assms(2) by (simp add: binary_bytes_def)
  have v: "thrift_read_varint dec = Some (of_nat (length bs), td_adv dec (length ?v))"
    by (rule varint_on [OF td_on_prefix [OF on]])
  obtain rest where "td_left (td_adv dec (length ?v)) = bs @ rest"
    using td_on_adv [OF on] by (auto simp: td_on_def)
  then show ?thesis
    using v assms by (simp add: binary_eq td_on_def int32_len binary_bytes_def)
qed

interpretation w_binary: wire_codec "\<lambda>A enc bs. thrift_write_binary A enc (Some bs) (of_nat (length bs))" read_data
    binary_bytes "\<lambda>bs. length bs < 2 ^ 31"
  by unfold_locales (auto simp: binary_written binary_on read_data_def)

interpretation w_uuid: wire_codec thrift_write_uuid thrift_read_uuid "\<lambda>bs. bs" "\<lambda>bs. length bs = 16"
  by unfold_locales (auto simp: thrift_write_uuid_def rd_bytes_in writes_append uuid_eq td_on_def)

section \<open>Headers\<close>

lemma bit_15_int [mask_bits]: "bit (15 :: int) n \<longleftrightarrow> n < 4"
proof -
  have eq: "(15 :: int) = mask 4" by (simp add: mask_eq_exp_minus_1)
  show ?thesis unfolding eq bit_mask_iff by simp
qed

lemma bit_240_int [mask_bits]: "bit (240 :: int) n \<longleftrightarrow> 4 \<le> n \<and> n < 8"
proof -
  have eq: "(240 :: int) = push_bit 4 (mask 4)" by (simp add: mask_eq_exp_minus_1)
  show ?thesis unfolding eq bit_push_bit_iff bit_mask_iff by auto
qed

lemma nibbles:
  "(push_bit 4 (a AND 0x0F) OR (c AND 0x0F) :: u8) AND 0x0F = c AND 0x0F"
  "drop_bit 4 (push_bit 4 (a AND 0x0F) OR (c AND 0x0F) :: u8) AND 0x0F = a AND 0x0F"
  by (rule bit_word_eqI; auto simp: bit_simps mask_bits)+

lemma nibble_low: "drop_bit 4 (c AND 0x0F :: u8) AND 0x0F = 0" "(c AND 0x0F :: u8) AND 0x0F = c AND 0x0F"
  by (rule bit_word_eqI; auto simp: bit_simps mask_bits)+

lemma small_nibble:
  assumes "x < 16"
  shows "ucast (ucast (x :: 'a::len word) AND 0x0F :: u8) = x"
proof (rule bit_word_eqI)
  fix n assume n: "n < LENGTH('a)"
  have "unat x < 2 ^ 4"
  proof (cases "LENGTH('a) \<le> 4")
    case True
    then have "(2 :: nat) ^ LENGTH('a) \<le> 2 ^ 4" by (intro power_increasing) simp_all
    then show ?thesis using unsigned_less [where 'a = nat, of x] by linarith
  next
    case False
    then have "(2 :: nat) ^ 5 \<le> 2 ^ LENGTH('a)" by (intro power_increasing) simp_all
    then have "unat (16 :: 'a word) = 16" by (simp add: unat_numeral take_bit_nat_eq_self)
    then show ?thesis using assms by (simp add: word_less_nat_alt)
  qed
  then have "\<not> bit x n" if "4 \<le> n" for n
  proof -
    have "(2 :: nat) ^ 4 \<le> 2 ^ n" using that by (intro power_increasing) simp_all
    then have "unat x div 2 ^ n = 0" using \<open>unat x < 2 ^ 4\<close> by (intro div_less) linarith
    then have "\<not> bit (unat x) n" by (simp add: bit_iff_odd)
    then show ?thesis by (auto simp: bit_unsigned_iff dest: bit_imp_le_length)
  qed
  then show "bit (ucast (ucast x AND 0x0F :: u8) :: 'a word) n = bit x n"
    using n by (cases "n < 4") (auto simp: bit_simps mask_bits)
qed

definition header_bytes :: "u16 \<Rightarrow> u16 \<Rightarrow> thrift_type \<Rightarrow> u8 list" where
  "header_bytes prev field_id type =
     (let delta = field_id - prev in
      if 0 < sint delta \<and> sint delta \<le> 15 then [push_bit 4 (ucast delta AND 0x0F) OR (type_code type AND 0x0F)]
      else (type_code type AND 0x0F) # carquet_encode_varint64 (carquet_zigzag_encode64 (scast field_id)))"

text \<open>The types a nibble can name.\<close>

definition nibble_type :: "thrift_type \<Rightarrow> bool" where
  "nibble_type type \<longleftrightarrow> type_of_nibble (type_code type AND 0x0F) = type"

lemma nibble_types [simp]:
  "nibble_type THRIFT_TYPE_STOP" "nibble_type THRIFT_TYPE_TRUE" "nibble_type THRIFT_TYPE_FALSE" "nibble_type THRIFT_TYPE_BYTE"
  "nibble_type THRIFT_TYPE_I16" "nibble_type THRIFT_TYPE_I32" "nibble_type THRIFT_TYPE_I64" "nibble_type THRIFT_TYPE_DOUBLE"
  "nibble_type THRIFT_TYPE_BINARY" "nibble_type THRIFT_TYPE_LIST" "nibble_type THRIFT_TYPE_SET" "nibble_type THRIFT_TYPE_MAP"
  "nibble_type THRIFT_TYPE_STRUCT" "nibble_type THRIFT_TYPE_UUID"
  by (simp_all add: nibble_type_def type_of_nibble_def)

lemma header_written:
  assumes ok: "te_ok A enc (length (header_bytes (te_last_field_id enc ! (te_nesting_level enc - 1)) field_id type) + n)"
    and "0 < te_nesting_level enc"
  shows "\<exists>enc'. thrift_write_field_header A enc type field_id = Some enc' \<and> te_ok A enc' n \<and>
    te_out enc' = te_out enc @ header_bytes (te_last_field_id enc ! (te_nesting_level enc - 1)) field_id type \<and>
    te_last_field_id enc' = (te_last_field_id enc)[te_nesting_level enc - 1 := field_id] \<and>
    te_nesting_level enc' = te_nesting_level enc"
proof -
  let ?prev = "te_last_field_id enc ! (te_nesting_level enc - 1)"
  let ?d = "field_id - ?prev"
  have lv: "te_nesting_level enc - 1 < length (te_last_field_id enc)"
    using ok assms(2) unfolding te_ok_def by linarith
  define enc1 where "enc1 = (if 0 < sint ?d \<and> sint ?d \<le> 15 then
      thrift_write_byte A enc (push_bit 4 (ucast ?d AND 0x0F) OR (type_code type AND 0x0F))
    else thrift_write_i16 A (thrift_write_byte A enc (type_code type AND 0x0F)) field_id)"
  have w: "writes A enc enc1 (header_bytes ?prev field_id type) n"
  proof (cases "0 < sint ?d \<and> sint ?d \<le> 15")
    case True
    then show ?thesis using ok
      by (auto simp: enc1_def header_bytes_def Let_def thrift_write_byte_def intro!: writes_append)
  next
    case False
    let ?v = "carquet_encode_varint64 (carquet_zigzag_encode64 (scast field_id))"
    have h: "header_bytes ?prev field_id type = [type_code type AND 0x0F] @ ?v"
      using False by (auto simp: header_bytes_def Let_def)
    have 1: "writes A enc (te_append A enc [type_code type AND 0x0F]) [type_code type AND 0x0F] (length ?v + n)"
      using ok unfolding h by (intro writes_append) simp
    then show ?thesis using False
      unfolding h enc1_def thrift_write_byte_def thrift_write_i16_def thrift_write_zigzag_def thrift_write_varint_def
      by (simp only: if_False) (intro writes_trans [OF 1] writes_append, simp add: writes_def)
  qed
  have l: "(if te_nesting_level enc > 0 then rd (te_last_field_id enc) (te_nesting_level enc - 1) else Some 0) = Some ?prev"
    using lv assms(2) by simp
  have i: "(if te_nesting_level enc1 > 0 then wr (te_last_field_id enc1) (te_nesting_level enc1 - 1) field_id
      else Some (te_last_field_id enc1)) = Some ((te_last_field_id enc)[te_nesting_level enc - 1 := field_id])"
    using lv assms(2) w by (simp add: writes_def)
  have "thrift_write_field_header A enc type field_id =
      Some (enc1\<lparr>te_last_field_id := (te_last_field_id enc)[te_nesting_level enc - 1 := field_id]\<rparr>)"
    by (simp only: thrift_write_field_header_def l Option.bind.simps Let_def enc1_def [symmetric] i)
  then show ?thesis using w by (auto simp: writes_def te_ok_def)
qed

lemma header_on:
  assumes on: "td_on dec (header_bytes (td_last_field_id dec ! (td_nesting_level dec - 1)) field_id type)"
    and lv: "0 < td_nesting_level dec" and ty: "nibble_type type" "type \<noteq> THRIFT_TYPE_STOP"
  shows "\<exists>p v. thrift_read_field_begin dec = Some (Some (type, field_id),
      (td_adv dec (length (header_bytes (td_last_field_id dec ! (td_nesting_level dec - 1)) field_id type)))
        \<lparr>td_last_field_id := (td_last_field_id dec)[td_nesting_level dec - 1 := field_id],
         td_bool_pending := p, td_bool_value := v\<rparr>) \<and>
    p = (type = THRIFT_TYPE_TRUE \<or> type = THRIFT_TYPE_FALSE) \<and> (p \<longrightarrow> v = (type = THRIFT_TYPE_TRUE))"
proof -
  let ?prev = "td_last_field_id dec ! (td_nesting_level dec - 1)"
  let ?bs = "header_bytes ?prev field_id type"
  let ?delta = "field_id - ?prev"
  let ?c = "type_code type AND 0x0F"
  have lv': "td_nesting_level dec - 1 < length (td_last_field_id dec)" "td_status dec = CARQUET_OK"
    using on lv unfolding td_on_def td_wf_def by auto
  have c: "?c \<noteq> 0" using ty by (auto simp: nibble_type_def type_of_nibble_def)
  obtain h tl where bs: "?bs = h # tl" and hc: "h AND 0x0F = ?c" and
    field: "(if (ucast (drop_bit 4 h AND 0x0F) :: u16) = 0 then thrift_read_i16 (td_adv dec 1)
        else Some (?prev + ucast (drop_bit 4 h AND 0x0F), td_adv dec 1)) = Some (field_id, td_adv dec (length ?bs))"
  proof (cases "0 < sint ?delta \<and> sint ?delta \<le> 15")
    case True
    then have "\<not> sint ?delta < 0" by linarith
    then have "sint ?delta = uint ?delta" using sint_cases [of ?delta] by argo
    then have "0 < uint ?delta" "uint ?delta < 16" using True by linarith+
    then have nz: "?delta < 16" "?delta \<noteq> 0" by (auto simp: word_less_def)
    define h where "h = push_bit 4 (ucast ?delta AND 0x0F) OR ?c"
    have h: "h AND 0x0F = ?c" "drop_bit 4 h AND 0x0F = ucast ?delta AND 0x0F" unfolding h_def by (rule nibbles)+
    have "?bs = [h]" using True unfolding header_bytes_def Let_def h_def by simp
    then show thesis using that [of h "[]"] h nz small_nibble [OF nz(1)] by simp
  next
    case False
    let ?v = "carquet_encode_varint64 (carquet_zigzag_encode64 (scast field_id))"
    have h: "?bs = ?c # ?v" using False by (auto simp: header_bytes_def Let_def)
    have "td_on (td_adv dec 1) ?v" using on td_on_adv [of dec "[?c]" ?v] unfolding h by simp
    then have "thrift_read_i16 (td_adv dec 1) = Some (field_id, td_adv dec (1 + length ?v))"
      using w_i16.get_bytes [of "td_adv dec 1" field_id] by simp
    moreover have "length ?bs = 1 + length ?v" by (simp only: h list.size)
    ultimately show thesis using that [OF h] by (simp add: nibble_low)
  qed
  let ?d2 = "td_adv dec (length ?bs)"
  let ?ids = "(td_last_field_id dec)[td_nesting_level dec - 1 := field_id]"
  have rb: "read_byte_raw dec = Some (h, td_adv dec 1)" using on unfolding bs by (rule td_on_byte)
  have h0: "h \<noteq> 0" using hc c by auto
  have t: "type_of_nibble (h AND 0x0F) = type" using ty(1) by (simp add: hc nibble_type_def)
  have l: "(if td_nesting_level (td_adv dec 1) > 0
      then rd (td_last_field_id (td_adv dec 1)) (td_nesting_level (td_adv dec 1) - 1) else Some 0) = Some ?prev"
    using lv' lv by simp
  have i: "(if td_nesting_level ?d2 > 0 then wr (td_last_field_id ?d2) (td_nesting_level ?d2 - 1) field_id
      else Some (td_last_field_id ?d2)) = Some ?ids" using lv' lv by simp
  have nn: "\<not> td_status dec \<noteq> CARQUET_OK" using lv' by simp
  let ?d3 = "?d2\<lparr>td_last_field_id := ?ids\<rparr>"
  have eq: "thrift_read_field_begin dec = Some (Some (type, field_id),
      if type = THRIFT_TYPE_TRUE then ?d3\<lparr>td_bool_pending := True, td_bool_value := True\<rparr>
      else if type = THRIFT_TYPE_FALSE then ?d3\<lparr>td_bool_pending := True, td_bool_value := False\<rparr> else ?d3)"
    by (simp only: thrift_read_field_begin_def nn if_False rb Option.bind.simps prod.case h0 Let_def t l field i)
  have same: "?d3 = ?d3\<lparr>td_bool_pending := False, td_bool_value := td_bool_value dec\<rparr>"
    using on by (simp add: td_on_def)
  show ?thesis
    unfolding eq using same by (cases type) auto
qed

lemma td_on_cons: "td_on dec (b # bs) \<Longrightarrow> td_on (td_adv dec 1) bs"
  using td_on_adv [of dec "[b]" bs] by simp

lemma writes_two:
  assumes "te_ok A enc (length bs + length cs + n)"
  shows "writes A enc (te_append A (te_append A enc bs) cs) (bs @ cs) n"
proof -
  have "writes A enc (te_append A enc bs) bs (length cs + n)" using assms by (intro writes_append) (simp add: add.assoc)
  moreover from this have "writes A (te_append A enc bs) (te_append A (te_append A enc bs) cs) cs n"
    by (intro writes_append) (simp add: writes_def)
  ultimately show ?thesis by (rule writes_trans)
qed

definition list_bytes :: "thrift_type \<Rightarrow> nat \<Rightarrow> u8 list" where
  "list_bytes type n =
     (if n < 15 then [push_bit 4 (of_nat n AND 0x0F) OR (type_code type AND 0x0F)]
      else (push_bit 4 0x0F OR (type_code type AND 0x0F)) # carquet_encode_varint64 (of_nat n))"

definition map_bytes :: "thrift_type \<Rightarrow> thrift_type \<Rightarrow> nat \<Rightarrow> u8 list" where
  "map_bytes kt vt n =
     (if n = 0 then [0]
      else carquet_encode_varint64 (of_nat n) @ [push_bit 4 (type_code kt AND 0x0F) OR (type_code vt AND 0x0F)])"

lemma ucast_of_nat_u8: "ucast (of_nat n :: u32) = (of_nat n :: u8)"
  by (rule bit_word_eqI) (auto simp: bit_simps)

lemma list_written:
  assumes "count < 2 ^ 31" and "te_ok A enc (length (list_bytes type count) + n)"
  shows "writes A enc (thrift_write_list_begin A enc type (of_nat count)) (list_bytes type count) n"
proof (cases "count < 15")
  case True
  then show ?thesis using assms
    by (simp add: thrift_write_list_begin_def list_bytes_def int32_len thrift_write_byte_def writes_append ucast_of_nat_u8)
next
  case False
  then show ?thesis using assms writes_two [of A enc "[push_bit 4 0x0F OR (type_code type AND 0x0F)]" "carquet_encode_varint64 (of_nat count)" n]
    by (simp add: thrift_write_list_begin_def list_bytes_def int32_len thrift_write_byte_def thrift_write_varint_def)
qed

lemma map_written:
  assumes "count < 2 ^ 31" and "te_ok A enc (length (map_bytes kt vt count) + n)"
  shows "writes A enc (thrift_write_map_begin A enc kt vt (of_nat count)) (map_bytes kt vt count) n"
proof (cases "count = 0")
  case True
  then show ?thesis using assms by (simp add: thrift_write_map_begin_def map_bytes_def thrift_write_byte_def writes_append)
next
  case False
  have "(of_nat count :: u32) \<noteq> 0" using int32_len(3) [OF assms(1)] False by auto
  then show ?thesis
    using False assms writes_two [of A enc "carquet_encode_varint64 (of_nat count)" "[push_bit 4 (type_code kt AND 0x0F) OR (type_code vt AND 0x0F)]" n]
    by (simp add: thrift_write_map_begin_def map_bytes_def int32_len thrift_write_byte_def thrift_write_varint_def)
qed

text \<open>The readers accept a count only when that many bytes are left.\<close>

lemma list_header_on:
  assumes "count < 2 ^ 31" and on: "td_on dec (list_bytes type count)" and "nibble_type type"
  shows "thrift_read_list_begin dec =
    (if count \<le> length (td_left dec) - length (list_bytes type count)
     then Some (type, count, td_adv dec (length (list_bytes type count)))
     else Some (type, 0, td_set_error (td_adv dec (length (list_bytes type count))) CARQUET_ERROR_THRIFT_DECODE
            ''List count exceeds remaining data''))"
proof -
  obtain h tl where bs: "list_bytes type count = h # tl" and hc: "h AND 0x0F = type_code type AND 0x0F" and
    cnt: "(if (ucast (drop_bit 4 h AND 0x0F) :: u32) = 0x0F
      then do { (n, d) \<leftarrow> thrift_read_varint (td_adv dec 1); Some (ucast n, d) }
      else Some (ucast (drop_bit 4 h AND 0x0F) :: u32, td_adv dec 1)) = Some (of_nat count, td_adv dec (length (list_bytes type count)))"
  proof (cases "count < 15")
    case True
    define h where "h = push_bit 4 (of_nat count AND 0x0F) OR (type_code type AND 0x0F)"
    have h: "h AND 0x0F = type_code type AND 0x0F" "drop_bit 4 h AND 0x0F = of_nat count AND 0x0F"
      unfolding h_def by (rule nibbles)+
    have "(of_nat count :: u32) < 16" "(of_nat count :: u32) \<noteq> 15"
      using True int32_len(3) [of count] by (auto simp: word_less_nat_alt)
    moreover have "(of_nat count :: u8) = ucast (of_nat count :: u32)"
      by (simp add: ucast_of_nat_u8)
    ultimately have "(ucast (of_nat count AND 0x0F :: u8) :: u32) = of_nat count" by (simp add: small_nibble)
    moreover have "list_bytes type count = [h]" using True by (simp add: list_bytes_def h_def)
    ultimately show thesis using that [of h "[]"] h \<open>(of_nat count :: u32) \<noteq> 15\<close> by simp
  next
    case False
    define h where "h = push_bit 4 (0x0F AND 0x0F) OR (type_code type AND 0x0F)"
    have h: "h AND 0x0F = type_code type AND 0x0F" "drop_bit 4 h AND 0x0F = 0x0F AND 0x0F"
      unfolding h_def by (rule nibbles)+
    have bs: "list_bytes type count = h # carquet_encode_varint64 (of_nat count)"
      using False by (simp add: list_bytes_def h_def)
    then have "td_on (td_adv dec 1) (carquet_encode_varint64 (of_nat count))" using on by (metis td_on_cons)
    then show thesis using that [OF bs] h varint_on assms(1) by (simp add: bs int32_len)
  qed
  have wf: "td_wf dec" and len: "length (list_bytes type count) \<le> length (td_left dec)" using on by (auto simp: td_on_def)
  have rb: "read_byte_raw dec = Some (h, td_adv dec 1)" using on unfolding bs by (rule td_on_byte)
  have t: "type_of_nibble (h AND 0x0F) = type" using assms(3) by (simp add: hc nibble_type_def)
  have rem: "carquet_buffer_reader_remaining (td_reader (td_adv dec (length (list_bytes type count)))) =
      length (td_left dec) - length (list_bytes type count)"
    using td_adv_left [OF wf len] by (simp add: reader_remaining_unread td_wf_def)
  show ?thesis
    unfolding thrift_read_list_begin_def rb Option.bind.simps prod.case Let_def t cnt rem
    using assms(1) by (simp add: int32_len)
qed

lemma list_on:
  "count < 2 ^ 31 \<Longrightarrow> td_on dec (list_bytes type count) \<Longrightarrow> nibble_type type \<Longrightarrow>
     count \<le> length (td_left dec) - length (list_bytes type count) \<Longrightarrow>
     thrift_read_list_begin dec = Some (type, count, td_adv dec (length (list_bytes type count)))"
  by (simp add: list_header_on)

lemma map_header_on:
  assumes "count < 2 ^ 31" and on: "td_on dec (map_bytes kt vt count)" and "nibble_type kt" "nibble_type vt"
    and pos: "0 < count"
  shows "thrift_read_map_begin dec =
    (if count \<le> length (td_left dec) - length (map_bytes kt vt count) + 1
     then Some (kt, vt, count, td_adv dec (length (map_bytes kt vt count)))
     else Some (THRIFT_TYPE_STOP, THRIFT_TYPE_STOP, 0,
            td_set_error (td_adv dec (length (map_bytes kt vt count) - 1)) CARQUET_ERROR_THRIFT_DECODE
              ''Map count exceeds remaining data''))"
proof -
  let ?v = "carquet_encode_varint64 (of_nat count)"
  define t where "t = push_bit 4 (type_code kt AND 0x0F) OR (type_code vt AND 0x0F)"
  have t: "drop_bit 4 t AND 0x0F = type_code kt AND 0x0F" "t AND 0x0F = type_code vt AND 0x0F"
    unfolding t_def by (rule nibbles)+
  have bs: "map_bytes kt vt count = ?v @ [t]" using pos by (simp add: map_bytes_def t_def)
  have v: "thrift_read_varint dec = Some (of_nat count, td_adv dec (length ?v))"
    by (rule varint_on) (use on in \<open>auto simp: bs intro: td_on_prefix\<close>)
  have wf: "td_wf dec" and len: "length ?v \<le> length (td_left dec)" "length (map_bytes kt vt count) \<le> length (td_left dec)"
    using on by (auto simp: td_on_def bs)
  have "td_on (td_adv dec (length ?v)) [t]" using on td_on_adv unfolding bs by blast
  then have rb: "read_byte_raw (td_adv dec (length ?v)) = Some (t, td_adv dec (length ?v + 1))"
    by (simp add: td_on_byte)
  have rem: "carquet_buffer_reader_remaining (td_reader (td_adv dec (length ?v))) = length (td_left dec) - length ?v"
    using td_adv_left [OF wf len(1)] by (simp add: reader_remaining_unread td_wf_def)
  have n: "(of_nat count :: u32) \<noteq> 0" using int32_len(3) [OF assms(1)] pos by auto
  have eq: "length (td_left dec) - length (map_bytes kt vt count) + 1 = length (td_left dec) - length ?v"
    using len(2) by (simp add: bs)
  have "length (map_bytes kt vt count) = length ?v + 1" by (simp add: bs)
  then show ?thesis
    unfolding thrift_read_map_begin_def v Option.bind.simps prod.case Let_def rem eq
    using assms(1,3,4) n by (simp add: int32_len rb t nibble_type_def)
qed

lemma map_on:
  "count < 2 ^ 31 \<Longrightarrow> td_on dec (map_bytes kt vt count) \<Longrightarrow> nibble_type kt \<Longrightarrow> nibble_type vt \<Longrightarrow>
     count \<le> length (td_left dec) - length (map_bytes kt vt count) + 1 \<Longrightarrow> 0 < count \<Longrightarrow>
     thrift_read_map_begin dec = Some (kt, vt, count, td_adv dec (length (map_bytes kt vt count)))"
  by (simp add: map_header_on)

lemma empty_map_on:
  assumes "td_on dec (map_bytes kt vt 0)"
  shows "thrift_read_map_begin dec = Some (THRIFT_TYPE_STOP, THRIFT_TYPE_STOP, 0, td_adv dec 1)"
proof -
  have "carquet_encode_varint64 0 = [0]" by (simp add: encode_varint64_nat) (simp add: varint_nat.simps)
  then show ?thesis
    using assms varint_on [of dec 0] by (simp add: map_bytes_def thrift_read_map_begin_def)
qed

section \<open>Whole values\<close>

text \<open>
  The values the protocol can hold, written by composing the operations of the encoder as the
  writers of the metadata structures do. A boolean field is its header; a boolean element is a byte.
\<close>

datatype tval =
    TBool bool
  | TByte u8
  | TI16 u16
  | TI32 u32
  | TI64 u64
  | TDouble u64
  | TBinary "u8 list"
  | TUuid "u8 list"
  | TList thrift_type "tval list"
  | TMap thrift_type thrift_type "(tval \<times> tval) list"
  | TStruct "(u16 \<times> tval) list"

fun tval_type :: "tval \<Rightarrow> thrift_type" where
  "tval_type (TBool b) = (if b then THRIFT_TYPE_TRUE else THRIFT_TYPE_FALSE)"
| "tval_type (TByte _) = THRIFT_TYPE_BYTE"
| "tval_type (TI16 _) = THRIFT_TYPE_I16"
| "tval_type (TI32 _) = THRIFT_TYPE_I32"
| "tval_type (TI64 _) = THRIFT_TYPE_I64"
| "tval_type (TDouble _) = THRIFT_TYPE_DOUBLE"
| "tval_type (TBinary _) = THRIFT_TYPE_BINARY"
| "tval_type (TUuid _) = THRIFT_TYPE_UUID"
| "tval_type (TList _ _) = THRIFT_TYPE_LIST"
| "tval_type (TMap _ _ _) = THRIFT_TYPE_MAP"
| "tval_type (TStruct _) = THRIFT_TYPE_STRUCT"

definition is_bool :: "tval \<Rightarrow> bool" where
  "is_bool v \<longleftrightarrow> tval_type v = THRIFT_TYPE_TRUE \<or> tval_type v = THRIFT_TYPE_FALSE"

function val_bytes :: "tval \<Rightarrow> u8 list"
  and vals_bytes :: "tval list \<Rightarrow> u8 list"
  and entries_bytes :: "(tval \<times> tval) list \<Rightarrow> u8 list"
  and fields_bytes :: "u16 \<Rightarrow> (u16 \<times> tval) list \<Rightarrow> u8 list"
where
  "val_bytes (TBool b) = [if b then 1 else 0]"
| "val_bytes (TByte x) = [x]"
| "val_bytes (TI16 x) = carquet_encode_varint64 (carquet_zigzag_encode64 (scast x))"
| "val_bytes (TI32 y) = carquet_encode_varint64 (carquet_zigzag_encode64 (scast y))"
| "val_bytes (TI64 z) = carquet_encode_varint64 (carquet_zigzag_encode64 z)"
| "val_bytes (TDouble z) = carquet_write_u64_le z"
| "val_bytes (TBinary bs) = binary_bytes bs"
| "val_bytes (TUuid bs) = bs"
| "val_bytes (TList type vs) = list_bytes type (length vs) @ vals_bytes vs"
| "val_bytes (TMap kt vt es) = map_bytes kt vt (length es) @ entries_bytes es"
| "val_bytes (TStruct fs) = fields_bytes 0 fs"
| "vals_bytes [] = []"
| "vals_bytes (v # vs) = val_bytes v @ vals_bytes vs"
| "entries_bytes [] = []"
| "entries_bytes ((k, v) # es) = val_bytes k @ val_bytes v @ entries_bytes es"
| "fields_bytes prev [] = [0]"
| "fields_bytes prev ((field_id, v) # fs) =
     header_bytes prev field_id (tval_type v) @ (if is_bool v then [] else val_bytes v) @ fields_bytes field_id fs"
  by pat_completeness auto
termination
  by (relation "measure (\<lambda>x. case x of Inl (Inl v) \<Rightarrow> size v | Inl (Inr vs) \<Rightarrow> size_list size vs
      | Inr (Inl es) \<Rightarrow> size_list (size_prod size size) es
      | Inr (Inr (_, fs)) \<Rightarrow> size_list (size_prod (\<lambda>_. 0) size) fs)") auto

function put_val :: "allocator \<Rightarrow> thrift_encoder \<Rightarrow> tval \<Rightarrow> thrift_encoder option"
  and put_vals :: "allocator \<Rightarrow> thrift_encoder \<Rightarrow> tval list \<Rightarrow> thrift_encoder option"
  and put_entries :: "allocator \<Rightarrow> thrift_encoder \<Rightarrow> (tval \<times> tval) list \<Rightarrow> thrift_encoder option"
  and put_fields :: "allocator \<Rightarrow> thrift_encoder \<Rightarrow> (u16 \<times> tval) list \<Rightarrow> thrift_encoder option"
where
  "put_val A enc (TBool b) = Some (thrift_write_bool A enc b)"
| "put_val A enc (TByte x) = Some (thrift_write_byte A enc x)"
| "put_val A enc (TI16 x) = Some (thrift_write_i16 A enc x)"
| "put_val A enc (TI32 y) = Some (thrift_write_i32 A enc y)"
| "put_val A enc (TI64 z) = Some (thrift_write_i64 A enc z)"
| "put_val A enc (TDouble z) = Some (thrift_write_double A enc z)"
| "put_val A enc (TBinary bs) = thrift_write_binary A enc (Some bs) (of_nat (length bs))"
| "put_val A enc (TUuid bs) = thrift_write_uuid A enc bs"
| "put_val A enc (TList type vs) = put_vals A (thrift_write_list_begin A enc type (of_nat (length vs))) vs"
| "put_val A enc (TMap kt vt es) = put_entries A (thrift_write_map_begin A enc kt vt (of_nat (length es))) es"
| "put_val A enc (TStruct fs) = do {
     enc1 \<leftarrow> thrift_write_struct_begin enc;
     enc2 \<leftarrow> put_fields A enc1 fs;
     Some (thrift_write_struct_end A enc2)
   }"
| "put_vals A enc [] = Some enc"
| "put_vals A enc (v # vs) = do { enc1 \<leftarrow> put_val A enc v; put_vals A enc1 vs }"
| "put_entries A enc [] = Some enc"
| "put_entries A enc ((k, v) # es) = do {
     enc1 \<leftarrow> put_val A enc k;
     enc2 \<leftarrow> put_val A enc1 v;
     put_entries A enc2 es
   }"
| "put_fields A enc [] = Some enc"
| "put_fields A enc ((field_id, v) # fs) = do {
     enc1 \<leftarrow> thrift_write_field_header A enc (tval_type v) field_id;
     enc2 \<leftarrow> (if is_bool v then Some enc1 else put_val A enc1 v);
     put_fields A enc2 fs
   }"
  by pat_completeness auto
termination
  by (relation "measure (\<lambda>x. case x of Inl (Inl (_, _, v)) \<Rightarrow> size v | Inl (Inr (_, _, vs)) \<Rightarrow> size_list size vs
      | Inr (Inl (_, _, es)) \<Rightarrow> size_list (size_prod size size) es
      | Inr (Inr (_, _, fs)) \<Rightarrow> size_list (size_prod (\<lambda>_. 0) size) fs)") auto

text \<open>
  A value that fits at nesting level \<open>lv\<close>: counts and lengths fit an \<open>int32_t\<close>, containers
  are of one type, which is not boolean, and structs do not nest too deep.
\<close>

fun skippable :: "nat \<Rightarrow> tval \<Rightarrow> bool" where
  "skippable lv (TBinary bs) \<longleftrightarrow> length bs < 2 ^ 31"
| "skippable lv (TUuid bs) \<longleftrightarrow> length bs = 16"
| "skippable lv (TList type vs) \<longleftrightarrow> length vs < 2 ^ 31 \<and> nibble_type type \<and>
     (\<forall>v \<in> set vs. \<not> is_bool v \<and> tval_type v = type \<and> skippable lv v)"
| "skippable lv (TMap kt vt es) \<longleftrightarrow> length es < 2 ^ 31 \<and> nibble_type kt \<and> nibble_type vt \<and>
     (\<forall>(k, v) \<in> set es. \<not> is_bool k \<and> \<not> is_bool v \<and> tval_type k = kt \<and> tval_type v = vt \<and>
        skippable lv k \<and> skippable lv v)"
| "skippable lv (TStruct fs) \<longleftrightarrow> lv < THRIFT_MAX_NESTING \<and> (\<forall>(field_id, v) \<in> set fs. skippable (Suc lv) v)"
| "skippable lv _ \<longleftrightarrow> True"

text \<open>The bytes were written; the fields of the enclosing structs are as before.\<close>

definition put_ok :: "allocator \<Rightarrow> thrift_encoder \<Rightarrow> thrift_encoder \<Rightarrow> u8 list \<Rightarrow> nat \<Rightarrow> bool" where
  "put_ok A enc enc' bs n \<longleftrightarrow> te_ok A enc' n \<and> te_out enc' = te_out enc @ bs \<and>
     te_nesting_level enc' = te_nesting_level enc \<and>
     take (te_nesting_level enc) (te_last_field_id enc') = take (te_nesting_level enc) (te_last_field_id enc)"

lemma put_ok_writes: "writes A enc enc' bs n \<Longrightarrow> put_ok A enc enc' bs n"
  by (simp add: writes_def put_ok_def)

lemma put_ok_trans: "put_ok A a b bs m \<Longrightarrow> put_ok A b c cs n \<Longrightarrow> put_ok A a c (bs @ cs) n"
  by (simp add: put_ok_def)

lemma fields_bytes_stop: "\<exists>body. fields_bytes prev fs = body @ [0]"
proof (induction fs arbitrary: prev)
  case (Cons f fs)
  obtain i v where f: "f = (i, v)" by (cases f)
  obtain body where "fields_bytes i fs = body @ [0]" using Cons by blast
  then show ?case by (simp add: f)
qed simp

lemma length_fields_bytes: "length (butlast (fields_bytes prev fs)) + Suc n = length (fields_bytes prev fs) + n"
  using fields_bytes_stop [of prev fs] by auto

lemma butlast_fields_Cons:
  "butlast (fields_bytes prev ((field_id, v) # fs)) =
     header_bytes prev field_id (tval_type v) @ (if is_bool v then [] else val_bytes v) @ butlast (fields_bytes field_id fs)"
  using fields_bytes_stop [of field_id fs] by (auto simp: butlast_append)

lemma struct_written:
  assumes "te_nesting_level enc < THRIFT_MAX_NESTING" and "te_ok A enc n"
  obtains enc1 where "thrift_write_struct_begin enc = Some enc1" "te_ok A enc1 n" "te_out enc1 = te_out enc"
    "te_nesting_level enc1 = Suc (te_nesting_level enc)" "te_last_field_id enc1 ! te_nesting_level enc = 0"
    "take (te_nesting_level enc) (te_last_field_id enc1) = take (te_nesting_level enc) (te_last_field_id enc)"
  using assms that [of "enc\<lparr>te_last_field_id := (te_last_field_id enc)[te_nesting_level enc := 0],
      te_nesting_level := te_nesting_level enc + 1\<rparr>"]
  by (simp add: thrift_write_struct_begin_def te_ok_def THRIFT_MAX_NESTING_def THRIFT_ENCODER_MAX_NESTING_def)

lemma codec_put:
  "\<exists>enc'. m = Some enc' \<and> writes A enc enc' bs n \<Longrightarrow> \<exists>enc'. m = Some enc' \<and> put_ok A enc enc' bs n"
  by (auto intro: put_ok_writes)

lemma put_ok_bind:
  assumes "put_ok A enc e1 bs (length cs + n)" and "te_ok A e1 (length cs + n) \<Longrightarrow> \<exists>e2. m = Some e2 \<and> put_ok A e1 e2 cs n"
  shows "\<exists>e2. m = Some e2 \<and> put_ok A enc e2 (bs @ cs) n"
  using assms by (auto simp: put_ok_def)

lemma put_written:
  "skippable (te_nesting_level enc) v \<Longrightarrow> te_ok A enc (length (val_bytes v) + n) \<Longrightarrow>
     \<exists>enc'. put_val A enc v = Some enc' \<and> put_ok A enc enc' (val_bytes v) n"
  "\<forall>v \<in> set vs. skippable (te_nesting_level enc) v \<Longrightarrow> te_ok A enc (length (vals_bytes vs) + n) \<Longrightarrow>
     \<exists>enc'. put_vals A enc vs = Some enc' \<and> put_ok A enc enc' (vals_bytes vs) n"
  "\<forall>(k, v) \<in> set es. skippable (te_nesting_level enc) k \<and> skippable (te_nesting_level enc) v \<Longrightarrow>
     te_ok A enc (length (entries_bytes es) + n) \<Longrightarrow>
     \<exists>enc'. put_entries A enc es = Some enc' \<and> put_ok A enc enc' (entries_bytes es) n"
  "\<forall>(i, v) \<in> set fs. skippable (te_nesting_level enc) v \<Longrightarrow> 0 < te_nesting_level enc \<Longrightarrow>
     prev = te_last_field_id enc ! (te_nesting_level enc - 1) \<Longrightarrow>
     te_ok A enc (length (butlast (fields_bytes prev fs)) + n) \<Longrightarrow>
     \<exists>enc'. put_fields A enc fs = Some enc' \<and> te_ok A enc' n \<and> te_out enc' = te_out enc @ butlast (fields_bytes prev fs) \<and>
       te_nesting_level enc' = te_nesting_level enc \<and>
       take (te_nesting_level enc - 1) (te_last_field_id enc') = take (te_nesting_level enc - 1) (te_last_field_id enc)"
proof (induction A enc v and A enc vs and A enc es and A enc fs arbitrary: n and n and n and n prev
    rule: put_val_put_vals_put_entries_put_fields.induct)
  case (1 A enc b)
  then show ?case unfolding put_val.simps val_bytes.simps by (intro codec_put w_bool.put_bytes) simp_all
next
  case (2 A enc x)
  then show ?case unfolding put_val.simps val_bytes.simps by (intro codec_put w_byte.put_bytes) simp_all
next
  case (3 A enc x)
  then show ?case unfolding put_val.simps val_bytes.simps by (intro codec_put w_i16.put_bytes) simp_all
next
  case (4 A enc x)
  then show ?case unfolding put_val.simps val_bytes.simps by (intro codec_put w_i32.put_bytes) simp_all
next
  case (5 A enc x)
  then show ?case unfolding put_val.simps val_bytes.simps by (intro codec_put w_i64.put_bytes) simp_all
next
  case (6 A enc x)
  then show ?case unfolding put_val.simps val_bytes.simps by (intro codec_put w_double.put_bytes) simp_all
next
  case (7 A enc bs)
  then show ?case unfolding put_val.simps val_bytes.simps by (intro codec_put w_binary.put_bytes) simp_all
next
  case (8 A enc bs)
  then show ?case unfolding put_val.simps val_bytes.simps by (intro codec_put w_uuid.put_bytes) simp_all
next
  case (9 A enc type vs)
  let ?e1 = "thrift_write_list_begin A enc type (of_nat (length vs))"
  have 1: "put_ok A enc ?e1 (list_bytes type (length vs)) (length (vals_bytes vs) + n)"
    using 9(2,3) by (intro put_ok_writes list_written) (simp_all add: add.assoc)
  then have "te_nesting_level ?e1 = te_nesting_level enc" by (simp add: put_ok_def)
  then show ?case using 9(2) unfolding put_val.simps val_bytes.simps
    by (intro put_ok_bind [OF 1] 9(1)) auto
next
  case (10 A enc kt vt es)
  let ?e1 = "thrift_write_map_begin A enc kt vt (of_nat (length es))"
  have 1: "put_ok A enc ?e1 (map_bytes kt vt (length es)) (length (entries_bytes es) + n)"
    using 10(2,3) by (intro put_ok_writes map_written) (simp_all add: add.assoc)
  then have "te_nesting_level ?e1 = te_nesting_level enc" by (simp add: put_ok_def)
  then show ?case using 10(2) unfolding put_val.simps val_bytes.simps
    by (intro put_ok_bind [OF 1] 10(1)) auto
next
  case (11 A enc fs)
  obtain enc1 where 1: "thrift_write_struct_begin enc = Some enc1" "te_ok A enc1 (length (val_bytes (TStruct fs)) + n)"
    "te_out enc1 = te_out enc" "te_nesting_level enc1 = Suc (te_nesting_level enc)" "te_last_field_id enc1 ! te_nesting_level enc = 0"
    "take (te_nesting_level enc) (te_last_field_id enc1) = take (te_nesting_level enc) (te_last_field_id enc)"
    using struct_written [of enc A] 11(2,3) by auto
  obtain enc2 where 2: "put_fields A enc1 fs = Some enc2" "te_ok A enc2 (Suc n)"
    "te_out enc2 = te_out enc1 @ butlast (fields_bytes 0 fs)" "te_nesting_level enc2 = te_nesting_level enc1"
    "take (te_nesting_level enc1 - 1) (te_last_field_id enc2) = take (te_nesting_level enc1 - 1) (te_last_field_id enc1)"
  proof -
    have "\<forall>(i, v) \<in> set fs. skippable (te_nesting_level enc1) v" using 11(2) 1(4) by simp
    moreover have "te_ok A enc1 (length (butlast (fields_bytes 0 fs)) + Suc n)" using 1(2) by (simp only: length_fields_bytes val_bytes.simps)
    moreover have "0 < te_nesting_level enc1" "0 = te_last_field_id enc1 ! (te_nesting_level enc1 - 1)" using 1(4,5) by simp_all
    ultimately have "\<exists>enc'. put_fields A enc1 fs = Some enc' \<and> te_ok A enc' (Suc n) \<and>
       te_out enc' = te_out enc1 @ butlast (fields_bytes 0 fs) \<and> te_nesting_level enc' = te_nesting_level enc1 \<and>
       take (te_nesting_level enc1 - 1) (te_last_field_id enc') = take (te_nesting_level enc1 - 1) (te_last_field_id enc1)"
      using 11(1) [OF 1(1)] by presburger
    then show thesis by (elim exE conjE) (rule that)
  qed
  have "writes A enc2 (thrift_write_field_stop A enc2) [0] n"
    using 2(2) by (simp add: thrift_write_field_stop_def thrift_write_byte_def writes_append)
  then have "put_ok A enc (thrift_write_struct_end A enc2) (butlast (fields_bytes 0 fs) @ [0]) n"
    using 1(3,4,6) 2(3-5) unfolding thrift_write_struct_end_def Let_def
    by (auto simp: put_ok_def writes_def te_ok_def)
  moreover have "butlast (fields_bytes 0 fs) @ [0] = fields_bytes 0 fs" using fields_bytes_stop [of 0 fs] by auto
  ultimately show ?case using 1(1) 2(1) by simp
next
  case (13 A enc v vs)
  obtain e1 where 1: "put_val A enc v = Some e1" "put_ok A enc e1 (val_bytes v) (length (vals_bytes vs) + n)"
    using 13(1) [of "length (vals_bytes vs) + n"] 13(3,4) by (auto simp: add.assoc)
  then have "te_nesting_level e1 = te_nesting_level enc" by (simp add: put_ok_def)
  then show ?case using 1(1) 13(3) 13(2) [OF 1(1)] put_ok_bind [OF 1(2)] by simp
next
  case (15 A enc k v es)
  obtain e1 where 1: "put_val A enc k = Some e1" "put_ok A enc e1 (val_bytes k) (length (val_bytes v @ entries_bytes es) + n)"
    using 15(1) [of "length (val_bytes v @ entries_bytes es) + n"] 15(4,5) by (auto simp: add.assoc)
  obtain e2 where 2: "put_val A e1 v = Some e2" "put_ok A e1 e2 (val_bytes v) (length (entries_bytes es) + n)"
    using 15(2) [OF 1(1), of "length (entries_bytes es) + n"] 15(4) 1(2) by (auto simp: add.assoc put_ok_def)
  have lv: "te_nesting_level e2 = te_nesting_level enc" using 1(2) 2(2) by (simp add: put_ok_def)
  have "\<exists>e3. put_entries A e2 es = Some e3 \<and> put_ok A e1 e3 (val_bytes v @ entries_bytes es) n"
    using lv 15(4) 15(3) [OF 1(1) 2(1)] by (intro put_ok_bind [OF 2(2)]) auto
  then have "\<exists>e3. put_entries A e2 es = Some e3 \<and> put_ok A enc e3 (val_bytes k @ val_bytes v @ entries_bytes es) n"
    by (intro put_ok_bind [OF 1(2)])
  then show ?case using 1(1) 2(1) by simp
next
  case (17 A enc field_id v fs)
  let ?lv = "te_nesting_level enc"
  let ?body = "butlast (fields_bytes field_id fs)"
  let ?vb = "if is_bool v then [] else val_bytes v"
  let ?h = "header_bytes prev field_id (tval_type v)"
  have sk: "skippable ?lv v" "\<forall>(i, v) \<in> set fs. skippable ?lv v" using 17(3) by auto
  have ok: "te_ok A enc (length ?h + (length ?vb + (length ?body + n)))"
    using 17(6) unfolding butlast_fields_Cons length_append by (simp add: add.assoc)
  obtain e1 where 1: "thrift_write_field_header A enc (tval_type v) field_id = Some e1"
    "te_ok A e1 (length ?vb + (length ?body + n))" "te_out e1 = te_out enc @ ?h"
    "te_last_field_id e1 = (te_last_field_id enc)[?lv - 1 := field_id]" "te_nesting_level e1 = ?lv"
    using header_written [OF ok [unfolded 17(5)] 17(4)] unfolding 17(5) by blast
  obtain e2 where 2: "(if is_bool v then Some e1 else put_val A e1 v) = Some e2" "put_ok A e1 e2 ?vb (length ?body + n)"
  proof (cases "is_bool v")
    case True
    then show thesis using that 1(2) by (simp add: put_ok_def)
  next
    case False
    then show thesis using that 17(1) [OF 1(1) False, of "length ?body + n"] 1(2,5) sk(1) by auto
  qed
  have lv: "?lv \<le> length (te_last_field_id enc)" using 17(6) by (simp add: te_ok_def)
  have id: "te_last_field_id e2 ! (?lv - 1) = field_id"
  proof -
    have "take ?lv (te_last_field_id e2) ! (?lv - 1) = take ?lv (te_last_field_id e1) ! (?lv - 1)"
      using 2(2) 1(5) by (simp add: put_ok_def)
    then show ?thesis using 17(4) lv by (simp add: 1(4))
  qed
  have pre: "take (?lv - 1) (te_last_field_id e2) = take (?lv - 1) (te_last_field_id enc)"
  proof -
    have "take (?lv - 1) (take ?lv (te_last_field_id e2)) = take (?lv - 1) (take ?lv (te_last_field_id e1))"
      using 2(2) 1(5) by (simp add: put_ok_def)
    then show ?thesis by (simp add: 1(4) min_def)
  qed
  have e2: "te_nesting_level e2 = ?lv" "te_ok A e2 (length ?body + n)" "te_out e2 = te_out enc @ ?h @ ?vb"
    using 2(2) 1(3,5) by (simp_all add: put_ok_def)
  have "\<exists>e3. put_fields A e2 fs = Some e3 \<and> te_ok A e3 n \<and> te_out e3 = te_out e2 @ ?body \<and>
       te_nesting_level e3 = te_nesting_level e2 \<and>
       take (te_nesting_level e2 - 1) (te_last_field_id e3) = take (te_nesting_level e2 - 1) (te_last_field_id e2)"
    by (rule 17(2) [OF 1(1) 2(1)]) (use sk e2 17(4) id in simp_all)
  then show ?case using 1(1) 2(1) e2 pre unfolding butlast_fields_Cons by auto
next
  case 12 then show ?case by (simp add: put_ok_def)
next
  case 14 then show ?case by (simp add: put_ok_def)
next
  case 16 then show ?case by simp
qed

section \<open>Skipping what was written\<close>

text \<open>The decoder after skipping \<open>n\<close> bytes of a value.\<close>

definition skipped :: "thrift_decoder \<Rightarrow> thrift_decoder \<Rightarrow> nat \<Rightarrow> bool" where
  "skipped dec dec' n \<longleftrightarrow> td_wf dec' \<and> td_status dec' = CARQUET_OK \<and> \<not> td_bool_pending dec' \<and>
     td_left dec' = drop n (td_left dec) \<and> td_nesting_level dec' = td_nesting_level dec \<and>
     take (td_nesting_level dec) (td_last_field_id dec') = take (td_nesting_level dec) (td_last_field_id dec)"

lemma skipped_adv: "td_on dec bs \<Longrightarrow> skipped dec (td_adv dec (length bs)) (length bs)"
  using td_adv_left [of dec "length bs"] by (auto simp: skipped_def td_on_def)

lemma skipped_trans: "skipped a b m \<Longrightarrow> skipped b c n \<Longrightarrow> skipped a c (m + n)"
  by (simp add: skipped_def add.commute)

lemma skipped_on: "td_on dec (bs @ cs) \<Longrightarrow> skipped dec dec' (length bs) \<Longrightarrow> td_on dec' cs"
  by (auto simp: skipped_def td_on_def)

lemma val_bytes_nonempty: "skippable lv v \<Longrightarrow> 0 < length (val_bytes v)"
proof (cases v)
  case (TStruct fs)
  then show ?thesis using fields_bytes_stop [of 0 fs] by auto
qed (auto simp: encode_varint64_nat binary_bytes_def list_bytes_def map_bytes_def write_le_bytes)

lemma val_bytes_Cons:
  assumes "skippable lv v"
  obtains b bs where "val_bytes v = b # bs"
  using val_bytes_nonempty [OF assms] by (cases "val_bytes v") auto

lemma length_vals_bytes: "\<forall>v \<in> set vs. skippable lv v \<Longrightarrow> length vs \<le> length (vals_bytes vs)"
proof (induction vs)
  case (Cons v vs)
  obtain b bs where "val_bytes v = b # bs" by (rule val_bytes_Cons [of lv v]) (use Cons.prems in auto)
  then show ?case using Cons by simp
qed simp

lemma length_entries_bytes: "\<forall>(k, v) \<in> set es. skippable lv k \<and> skippable lv v \<Longrightarrow> length es \<le> length (entries_bytes es)"
proof (induction es)
  case (Cons e es)
  obtain k v where e: "e = (k, v)" by (cases e)
  obtain b bs where "val_bytes k = b # bs" by (rule val_bytes_Cons [of lv k]) (use Cons.prems e in auto)
  then show ?case using Cons by (simp add: e)
qed simp

lemma header_bytes_Cons: obtains b bs where "header_bytes prev i type = b # bs"
  by (cases "0 < sint (i - prev) \<and> sint (i - prev) \<le> 15") (auto simp: header_bytes_def Let_def)

lemma length_fields: "length fs < length (fields_bytes prev fs)"
proof (induction fs arbitrary: prev)
  case (Cons f fs)
  obtain i v where f: "f = (i, v)" by (cases f)
  obtain b bs where "header_bytes prev i (tval_type v) = b # bs" by (rule header_bytes_Cons)
  then show ?case using Cons [of i] by (simp add: f)
qed simp

lemma tval_type_nibble: "nibble_type (tval_type v)" "tval_type v \<noteq> THRIFT_TYPE_STOP"
  by (cases v; simp)+

text \<open>A varint-coded integer, whatever its width, is skipped as a varint.\<close>

lemma skip_varint:
  assumes "td_on dec (carquet_encode_varint64 v)" and "type \<in> {THRIFT_TYPE_I16, THRIFT_TYPE_I32, THRIFT_TYPE_I64}"
  shows "\<exists>dec'. thrift_skip (Suc d) dec type = Some dec' \<and> skipped dec dec' (length (carquet_encode_varint64 v))"
  using assms skipped_adv [OF assms(1)] varint_on [OF assms(1)] by (auto simp: td_on_def)

lemma skip_fixed:
  assumes "td_on dec bs" and "td_skip dec (length bs) = td_adv dec (length bs)"
    and "type = THRIFT_TYPE_BYTE \<and> length bs = 1 \<or> type = THRIFT_TYPE_DOUBLE \<and> length bs = 8 \<or>
      type = THRIFT_TYPE_UUID \<and> length bs = 16"
  shows "\<exists>dec'. thrift_skip (Suc d) dec type = Some dec' \<and> skipped dec dec' (length bs)"
  using assms skipped_adv [OF assms(1)] by (auto simp: td_on_def)

lemma td_skip_on: "td_on dec bs \<Longrightarrow> length bs < 2 ^ 63 \<Longrightarrow> td_skip dec (length bs) = td_adv dec (length bs)"
  by (auto simp: td_on_def td_skip_eq)

lemma room_pred:
  assumes "0 < (a :: nat)" and "a + b \<le> d"
  obtains d' where "d = Suc d'" "b \<le> d'"
  using assms that [of "d - 1"] by simp

lemma struct_read:
  assumes "td_wf dec" and "td_nesting_level dec < THRIFT_MAX_NESTING"
  obtains d1 where "thrift_read_struct_begin dec = Some d1" "td_wf d1" "td_reader d1 = td_reader dec" "td_status d1 = td_status dec"
    "td_bool_pending d1 = td_bool_pending dec" "td_nesting_level d1 = Suc (td_nesting_level dec)"
    "td_last_field_id d1 ! td_nesting_level dec = 0"
    "take (td_nesting_level dec) (td_last_field_id d1) = take (td_nesting_level dec) (td_last_field_id dec)"
  using assms that [of "dec\<lparr>td_last_field_id := (td_last_field_id dec)[td_nesting_level dec := 0],
      td_nesting_level := td_nesting_level dec + 1\<rparr>"]
  by (simp add: thrift_read_struct_begin_def td_wf_def)

lemma skip_written:
  "skippable (td_nesting_level dec) v \<Longrightarrow> \<not> is_bool v \<Longrightarrow> td_on dec (val_bytes v) \<Longrightarrow> length (val_bytes v) \<le> d \<Longrightarrow>
     \<exists>dec'. thrift_skip d dec (tval_type v) = Some dec' \<and> skipped dec dec' (length (val_bytes v))"
  "\<forall>v \<in> set vs. \<not> is_bool v \<and> tval_type v = type \<and> skippable (td_nesting_level dec) v \<Longrightarrow> td_on dec (vals_bytes vs) \<Longrightarrow>
     length (vals_bytes vs) \<le> d \<Longrightarrow>
     \<exists>dec'. skip_elems d (length vs) dec type = Some dec' \<and> skipped dec dec' (length (vals_bytes vs))"
  "\<forall>(k, v) \<in> set es. \<not> is_bool k \<and> \<not> is_bool v \<and> tval_type k = kt \<and> tval_type v = vt \<and>
       skippable (td_nesting_level dec) k \<and> skippable (td_nesting_level dec) v \<Longrightarrow> td_on dec (entries_bytes es) \<Longrightarrow>
     length (entries_bytes es) \<le> d \<Longrightarrow>
     \<exists>dec'. skip_entries d (length es) dec kt vt = Some dec' \<and> skipped dec dec' (length (entries_bytes es))"
  "\<forall>(i, v) \<in> set fs. skippable (td_nesting_level dec) v \<Longrightarrow> 0 < td_nesting_level dec \<Longrightarrow>
     prev = td_last_field_id dec ! (td_nesting_level dec - 1) \<Longrightarrow> td_on dec (fields_bytes prev fs) \<Longrightarrow>
     length (fields_bytes prev fs) \<le> Suc d \<Longrightarrow> length fs < n \<Longrightarrow>
     \<exists>dec'. skip_fields d n dec = Some dec' \<and> td_wf dec' \<and> td_status dec' = CARQUET_OK \<and> \<not> td_bool_pending dec' \<and>
       td_left dec' = drop (length (fields_bytes prev fs)) (td_left dec) \<and> td_nesting_level dec' = td_nesting_level dec \<and>
       take (td_nesting_level dec - 1) (td_last_field_id dec') = take (td_nesting_level dec - 1) (td_last_field_id dec)"
proof (induction v and vs and es and prev fs arbitrary: dec d and dec d type and dec d kt vt and dec d n
    rule: val_bytes_vals_bytes_entries_bytes_fields_bytes.induct)
  case (1 b)
  then show ?case by (simp add: is_bool_def split: if_splits)
next
  case (2 x)
  then show ?case using skip_fixed [OF 2(3) td_skip_on [OF 2(3)], of _ "d - 1"] by (cases d) auto
next
  case (3 x)
  then show ?case using skip_varint [of dec _ _ "d - 1"] val_bytes_nonempty [OF 3(1)] by (cases d) auto
next
  case (4 x)
  then show ?case using skip_varint [of dec _ _ "d - 1"] val_bytes_nonempty [OF 4(1)] by (cases d) auto
next
  case (5 x)
  then show ?case using skip_varint [of dec _ _ "d - 1"] val_bytes_nonempty [OF 5(1)] by (cases d) auto
next
  case (6 z)
  then show ?case using skip_fixed [OF 6(3) td_skip_on [OF 6(3)], of _ "d - 1"] by (cases d) auto
next
  case (7 bs)
  then show ?case using binary_on [of bs dec] skipped_adv [of dec "binary_bytes bs"] val_bytes_nonempty [OF 7(1)]
    by (cases d) (auto simp: td_on_def)
next
  case (8 bs)
  then show ?case using skip_fixed [OF 8(3) td_skip_on [OF 8(3)], of _ "d - 1"] by (cases d) auto
next
  case (9 type vs)
  let ?h = "list_bytes type (length vs)"
  have sk: "length vs < 2 ^ 31" "nibble_type type"
    "\<forall>v \<in> set vs. \<not> is_bool v \<and> tval_type v = type \<and> skippable (td_nesting_level dec) v" using 9(2) by auto
  have on: "td_on dec (?h @ vals_bytes vs)" using 9(4) by simp
  have "length vs \<le> length (vals_bytes vs)" using length_vals_bytes sk(3) by blast
  then have "length vs \<le> length (td_left dec) - length ?h" using on by (auto simp: td_on_def)
  then have l: "thrift_read_list_begin dec = Some (type, length vs, td_adv dec (length ?h))"
    using list_on [OF sk(1) td_on_prefix [OF on] sk(2)] by simp
  have "0 < length ?h" by (simp add: list_bytes_def)
  moreover have "length ?h + length (vals_bytes vs) \<le> d" using 9(5) by simp
  ultimately obtain d' where d: "d = Suc d'" "length (vals_bytes vs) \<le> d'" by (rule room_pred)
  obtain dec' where "skip_elems d' (length vs) (td_adv dec (length ?h)) type = Some dec'"
    "skipped (td_adv dec (length ?h)) dec' (length (vals_bytes vs))"
    using 9(1) [of type "td_adv dec (length ?h)" d'] sk(3) d(2) td_on_adv [OF on] by auto
  then show ?case using l d(1) on skipped_trans [OF skipped_adv [OF td_on_prefix [OF on]]] by (auto simp: td_on_def)
next
  case (10 kt vt es)
  let ?h = "map_bytes kt vt (length es)"
  have sk: "length es < 2 ^ 31" "nibble_type kt" "nibble_type vt"
    "\<forall>(k, v) \<in> set es. \<not> is_bool k \<and> \<not> is_bool v \<and> tval_type k = kt \<and> tval_type v = vt \<and>
       skippable (td_nesting_level dec) k \<and> skippable (td_nesting_level dec) v" using 10(2) by auto
  have on: "td_on dec (?h @ entries_bytes es)" using 10(4) by simp
  have "length es \<le> length (entries_bytes es)"
    by (rule length_entries_bytes [of _ "td_nesting_level dec"]) (use sk(4) in auto)
  then have le: "length es \<le> length (td_left dec) - length ?h + 1" using on by (auto simp: td_on_def)
  obtain kt' vt' where l: "thrift_read_map_begin dec = Some (kt', vt', length es, td_adv dec (length ?h))"
    and tt: "es = [] \<or> kt' = kt \<and> vt' = vt"
  proof (cases "es = []")
    case True
    then have "td_on dec (carquet_encode_varint64 0)" using on by (simp add: map_bytes_def encode_varint64_nat varint_nat.simps)
    then have "thrift_read_varint dec = Some (0, td_adv dec 1)"
      using varint_on [of dec 0] by (simp add: encode_varint64_nat varint_nat.simps)
    then show thesis using True that [of THRIFT_TYPE_STOP THRIFT_TYPE_STOP] by (simp add: thrift_read_map_begin_def map_bytes_def)
  next
    case False
    then show thesis using that [of kt vt] map_on [OF sk(1) td_on_prefix [OF on] sk(2,3) le] by simp
  qed
  have "0 < length ?h" by (simp add: map_bytes_def)
  moreover have "length ?h + length (entries_bytes es) \<le> d" using 10(5) by simp
  ultimately obtain d' where d: "d = Suc d'" "length (entries_bytes es) \<le> d'" by (rule room_pred)
  obtain dec' where e: "skip_entries d' (length es) (td_adv dec (length ?h)) kt vt = Some dec'" and
    s: "skipped (td_adv dec (length ?h)) dec' (length (entries_bytes es))"
    using 10(1) [of kt vt "td_adv dec (length ?h)" d'] sk(4) d(2) td_on_adv [OF on] by auto
  have "skipped dec dec' (length ?h + length (entries_bytes es))"
    by (rule skipped_trans [OF skipped_adv [OF td_on_prefix [OF on]] s])
  moreover have "skip_entries d' (length es) (td_adv dec (length ?h)) kt' vt' = Some dec'" using e tt by auto
  ultimately show ?case using l d(1) on by (simp add: td_on_def)
next
  case (11 fs)
  let ?bs = "fields_bytes 0 fs"
  have on: "td_on dec ?bs" and wf: "td_wf dec" using 11(4) by (auto simp: td_on_def)
  obtain d1 where 1: "thrift_read_struct_begin dec = Some d1" "td_wf d1" "td_reader d1 = td_reader dec" "td_status d1 = td_status dec"
    "td_bool_pending d1 = td_bool_pending dec" "td_nesting_level d1 = Suc (td_nesting_level dec)"
    "td_last_field_id d1 ! td_nesting_level dec = 0"
    "take (td_nesting_level dec) (td_last_field_id d1) = take (td_nesting_level dec) (td_last_field_id dec)"
    by (rule struct_read [OF wf]) (use 11(2) in auto)
  have on1: "td_on d1 ?bs" using on 1 by (simp add: td_on_def)
  have rem: "carquet_buffer_reader_remaining (td_reader d1) = length (td_left dec)"
    using 1(3) wf by (simp add: reader_remaining_unread td_wf_def)
  have n: "length fs < Suc (carquet_buffer_reader_remaining (td_reader d1))"
    using length_fields [of fs 0] on by (auto simp: rem td_on_def)
  have "0 < length ?bs" using length_fields [of fs 0] by linarith
  moreover have "length ?bs + 0 \<le> d" using 11(5) by simp
  ultimately obtain d' where d: "d = Suc d'" by (rule room_pred)
  have "\<exists>d2. skip_fields d' (Suc (carquet_buffer_reader_remaining (td_reader d1))) d1 = Some d2 \<and> td_wf d2 \<and>
      td_status d2 = CARQUET_OK \<and> \<not> td_bool_pending d2 \<and> td_left d2 = drop (length ?bs) (td_left d1) \<and>
      td_nesting_level d2 = td_nesting_level d1 \<and>
      take (td_nesting_level d1 - 1) (td_last_field_id d2) = take (td_nesting_level d1 - 1) (td_last_field_id d1)"
    by (rule 11(1)) (use 11(2,5) 1 on1 n d in auto)
  then obtain d2 where 2: "skip_fields d' (Suc (carquet_buffer_reader_remaining (td_reader d1))) d1 = Some d2" "td_wf d2"
      "td_status d2 = CARQUET_OK" "\<not> td_bool_pending d2" "td_left d2 = drop (length ?bs) (td_left d1)"
      "td_nesting_level d2 = td_nesting_level d1"
      "take (td_nesting_level d1 - 1) (td_last_field_id d2) = take (td_nesting_level d1 - 1) (td_last_field_id d1)" by blast
  have "skipped dec (thrift_read_struct_end d2) (length ?bs)"
    using 2 1 by (auto simp: skipped_def thrift_read_struct_end_def td_wf_def)
  moreover have "thrift_skip d dec (tval_type (TStruct fs)) = Some (thrift_read_struct_end d2)"
    using 2(1) 1(1) on by (simp add: d td_on_def del: skip_fields.simps)
  ultimately show ?case by simp
next
  case 12
  then show ?case using skipped_adv [of dec "[]"] by simp
next
  case (13 v vs)
  have on: "td_on dec (val_bytes v @ vals_bytes vs)" using 13(4) by simp
  obtain d1 where 1: "thrift_skip d dec (tval_type v) = Some d1" "skipped dec d1 (length (val_bytes v))"
    using 13(1) [of dec d] 13(3,5) td_on_prefix [OF on] by auto
  obtain d2 where 2: "skip_elems d (length vs) d1 type = Some d2" "skipped d1 d2 (length (vals_bytes vs))"
    using 13(2) [of type d1 d] 13(3,5) skipped_on [OF on 1(2)] 1(2) by (auto simp: skipped_def)
  show ?case using 1 2 13(3) on skipped_trans [OF 1(2) 2(2)] by (auto simp: td_on_def)
next
  case 14
  then show ?case using skipped_adv [of dec "[]"] by simp
next
  case (15 k v es)
  have on: "td_on dec (val_bytes k @ val_bytes v @ entries_bytes es)" using 15(5) by simp
  have sk: "\<not> is_bool k" "\<not> is_bool v" "tval_type k = kt" "tval_type v = vt" "skippable (td_nesting_level dec) k"
    "skippable (td_nesting_level dec) v" using 15(4) by auto
  obtain d1 where 1: "thrift_skip d dec kt = Some d1" "skipped dec d1 (length (val_bytes k))"
    using 15(1) [of dec d] sk 15(6) td_on_prefix [OF on] by auto
  have on1: "td_on d1 (val_bytes v @ entries_bytes es)" by (rule skipped_on [OF on 1(2)])
  have lv1: "td_nesting_level d1 = td_nesting_level dec" using 1(2) by (simp add: skipped_def)
  obtain d2 where 2: "thrift_skip d d1 vt = Some d2" "skipped d1 d2 (length (val_bytes v))"
    using 15(2) [of d1 d] sk 15(6) td_on_prefix [OF on1] by (auto simp: lv1)
  have lv2: "td_nesting_level d2 = td_nesting_level dec" using 2(2) lv1 by (simp add: skipped_def)
  obtain d3 where 3: "skip_entries d (length es) d2 kt vt = Some d3" "skipped d2 d3 (length (entries_bytes es))"
    using 15(3) [of kt vt d2 d] 15(4,6) skipped_on [OF on1 2(2)] by (auto simp: lv2)
  have "skipped dec d3 (length (val_bytes k) + length (val_bytes v) + length (entries_bytes es))"
    using skipped_trans [OF skipped_trans [OF 1(2) 2(2)] 3(2)] .
  then show ?case using 1(1) 2(1) 3(1) on by (auto simp: td_on_def add.assoc)
next
  case (16 prev)
  have on: "td_on dec [0]" using 16(4) by simp
  have "thrift_read_field_begin dec = Some (None, td_adv dec 1)"
    using td_on_byte [OF on] on by (simp add: thrift_read_field_begin_def td_on_def)
  moreover obtain n' where "n = Suc n'" using 16(6) by (cases n) auto
  ultimately show ?case using skipped_adv [OF on] by (auto simp: skipped_def)
next
  case (17 prev i v fs)
  let ?lv = "td_nesting_level dec"
  let ?h = "header_bytes prev i (tval_type v)"
  let ?vb = "if is_bool v then [] else val_bytes v"
  let ?fb = "fields_bytes i fs"
  have sk: "skippable ?lv v" "\<forall>(i, v) \<in> set fs. skippable ?lv v" using 17(3) by auto
  have on: "td_on dec (?h @ ?vb @ ?fb)" using 17(6) by simp
  have on1: "td_on (td_adv dec (length ?h)) (?vb @ ?fb)" by (rule td_on_adv [OF on])
  let ?d1 = "\<lambda>p b. (td_adv dec (length ?h))\<lparr>td_last_field_id := (td_last_field_id dec)[?lv - 1 := i],
      td_bool_pending := p, td_bool_value := b\<rparr>"
  obtain b where f: "thrift_read_field_begin dec = Some (Some (tval_type v, i), ?d1 (is_bool v) b)"
    using header_on [OF td_on_prefix [OF on, unfolded 17(5)] 17(4) tval_type_nibble]
    unfolding is_bool_def 17(5) by blast
  have "0 < length ?h" by (rule header_bytes_Cons [of prev i "tval_type v"]) simp
  moreover have "length ?h + length (?vb @ ?fb) \<le> Suc d" using 17(7) by simp
  ultimately obtain d' where "Suc d = Suc d'" and "length (?vb @ ?fb) \<le> d'" by (rule room_pred)
  then have d: "length ?vb + length ?fb \<le> d" "0 < d" using length_fields [of fs i] by auto
  have ids: "length ((td_last_field_id dec)[?lv - 1 := i]) = THRIFT_MAX_NESTING" "?lv \<le> THRIFT_MAX_NESTING"
    using on by (simp_all add: td_on_def td_wf_def)
  obtain d2 where 2: "thrift_skip d (?d1 (is_bool v) b) (tval_type v) = Some d2" "skipped (?d1 False b) d2 (length ?vb)"
  proof (cases "is_bool v")
    case True
    then have "skipped (?d1 False b) (?d1 False b) 0" using on1 ids by (auto simp: skipped_def td_on_def td_wf_def)
    moreover have "thrift_skip d (?d1 True b) (tval_type v) = Some (?d1 False b)"
      using True d(2) on by (cases d) (auto simp: is_bool_def td_on_def)
    ultimately show thesis using that True by simp
  next
    case False
    have "td_on (?d1 False b) (val_bytes v)" using False on1 ids by (auto simp: td_on_def td_wf_def)
    then show thesis using 17(1) [of "?d1 False b" d] False sk(1) d(1) that by auto
  qed
  have "td_on (?d1 False b) (?vb @ ?fb)" using on1 ids by (auto simp: td_on_def td_wf_def)
  then have on2: "td_on d2 ?fb" using 2(2) by (rule skipped_on)
  have lv2: "td_nesting_level d2 = ?lv" using 2(2) by (simp add: skipped_def)
  have tk: "take ?lv (td_last_field_id d2) = take ?lv ((td_last_field_id dec)[?lv - 1 := i])"
    using 2(2) by (simp add: skipped_def)
  have "?lv - 1 < ?lv" using 17(4) by simp
  then have id: "td_last_field_id d2 ! (?lv - 1) = i"
    using arg_cong [OF tk, of "\<lambda>xs. xs ! (?lv - 1)"] ids by simp
  have pre: "take (?lv - 1) (td_last_field_id d2) = take (?lv - 1) (td_last_field_id dec)"
    using arg_cong [OF tk, of "take (?lv - 1)"] by (simp add: min_def)
  obtain n' where n: "n = Suc n'" "length fs < n'" using 17(8) by (cases n) auto
  have "\<exists>d3. skip_fields d n' d2 = Some d3 \<and> td_wf d3 \<and> td_status d3 = CARQUET_OK \<and> \<not> td_bool_pending d3 \<and>
       td_left d3 = drop (length ?fb) (td_left d2) \<and> td_nesting_level d3 = td_nesting_level d2 \<and>
       take (td_nesting_level d2 - 1) (td_last_field_id d3) = take (td_nesting_level d2 - 1) (td_last_field_id d2)"
    by (rule 17(2)) (use sk lv2 17(4) id on2 d n in auto)
  moreover have "td_left d2 = drop (length ?h + length ?vb) (td_left dec)"
    using 2(2) td_adv_left [of dec "length ?h"] on by (auto simp: skipped_def td_on_def td_adv_def)
  ultimately show ?case using f 2(1) n pre lv2 by (auto simp: add.commute add.left_commute)
qed

section \<open>Properties\<close>

lemma encoder_init_ok: "n \<le> SIZE_MAX \<Longrightarrow> te_ok good_allocator (thrift_encoder_init carquet_buffer_init) n"
  using init_wf by (simp add: te_ok_def thrift_encoder_init_def buf_room_def buf_growable_def good_allocator_def
      carquet_buffer_init_def contents_def)

lemma length_varint64: "length (carquet_encode_varint64 v) \<le> 10"
proof -
  have "unat v < 2 ^ 64" using unsigned_less [where 'a = nat, of v] by simp
  also have "(2 :: nat) ^ 64 \<le> 128 ^ 10" by simp
  finally show ?thesis by (simp add: encode_varint64_nat length_varint_nat)
qed

text \<open>C4: Whatever the writer composes from numbers, UUIDs, binary data, lists and maps of elements of one
  type that is not boolean, and structs nested no deeper than \<open>THRIFT_MAX_NESTING\<close> (boolean fields
  included), with every length and count below 2^31: from any decoder standing on the bytes written,
  whatever follows them, \<open>thrift_skip_field\<close> ends exactly behind them, with no error or pending
  boolean, and the nesting and the field ids of the open structs as they were. Boolean elements of lists and
  maps are left out: skipping them does desynchronise the reader.\<close>

theorem skip_consumes_written:
  assumes "skippable (te_nesting_level enc) v" and "\<not> is_bool v" and "te_ok A enc (length (val_bytes v))"
  shows "\<exists>enc' bs. put_val A enc v = Some enc' \<and> te_out enc' = te_out enc @ bs \<and> te_status enc' = CARQUET_OK \<and>
    (\<forall>dec. td_on dec bs \<longrightarrow> skippable (td_nesting_level dec) v \<longrightarrow>
      (\<exists>dec'. thrift_skip_field dec (tval_type v) = Some dec' \<and> skipped dec dec' (length bs)))"
proof -
  obtain enc' where p: "put_val A enc v = Some enc'" "put_ok A enc enc' (val_bytes v) 0"
    using put_written(1) [of enc v A 0] assms(1,3) by auto
  have "\<exists>dec'. thrift_skip_field dec (tval_type v) = Some dec' \<and> skipped dec dec' (length (val_bytes v))"
    if on: "td_on dec (val_bytes v)" and "skippable (td_nesting_level dec) v" for dec
  proof -
    have "length (val_bytes v) \<le> carquet_buffer_reader_remaining (td_reader dec)"
      using on by (auto simp: td_on_def td_wf_def reader_remaining_unread)
    then show ?thesis unfolding thrift_skip_field_def by (intro skip_written(1) that assms(2)) simp
  qed
  with p show ?thesis by (intro exI [of _ enc'] exI [of _ "val_bytes v"]) (auto simp: put_ok_def te_ok_def)
qed

lemma skip_consumes_written_witness:
  "\<exists>enc' bs dec'. put_val good_allocator (thrift_encoder_init carquet_buffer_init)
      (TStruct [(1, TBool True), (20, TList THRIFT_TYPE_BYTE [TByte 7, TByte 8])]) = Some enc' \<and> te_out enc' = bs \<and>
    thrift_skip_field (thrift_decoder_init (bs @ [9]) (length (bs @ [9]))) THRIFT_TYPE_STRUCT = Some dec' \<and> td_left dec' = [9]"
proof -
  let ?v = "TStruct [(1, TBool True), (20, TList THRIFT_TYPE_BYTE [TByte 7, TByte 8])]"
  let ?enc = "thrift_encoder_init carquet_buffer_init"
  have len: "length (val_bytes ?v) \<le> 30"
    using length_varint64 [of "carquet_zigzag_encode64 (scast (20 :: u16))"]
    by (simp add: is_bool_def header_bytes_def list_bytes_def Let_def)
  have v: "skippable 0 ?v" "\<not> is_bool ?v" by (simp_all add: is_bool_def THRIFT_MAX_NESTING_def)
  have ok: "te_ok good_allocator ?enc (length (val_bytes ?v))"
    using len by (intro encoder_init_ok) (simp add: SIZE_MAX_def)
  have out: "te_nesting_level ?enc = 0" "te_out ?enc = []"
    by (simp_all add: thrift_encoder_init_def carquet_buffer_init_def contents_def)
  from skip_consumes_written [OF _ v(2) ok] v(1) out obtain enc' bs where
    p: "put_val good_allocator ?enc ?v = Some enc'" "te_out enc' = bs" and
    r: "\<And>dec. td_on dec bs \<Longrightarrow> skippable (td_nesting_level dec) ?v \<Longrightarrow>
      \<exists>dec'. thrift_skip_field dec (tval_type ?v) = Some dec' \<and> skipped dec dec' (length bs)"
    by (simp only: append_Nil) blast
  have bs: "bs = val_bytes ?v"
    using put_written(1) [of ?enc ?v good_allocator 0] v(1) ok p out by (auto simp del: val_bytes.simps put_val.simps simp: put_ok_def)
  let ?dec = "thrift_decoder_init (bs @ [9]) (length (bs @ [9]))"
  have "length (bs @ [9]) < 2 ^ 63" using len by (simp add: bs del: val_bytes.simps)
  note d = thrift_init_at [OF refl this]
  have "td_on ?dec bs" using d by (simp add: td_on_def)
  moreover have "skippable (td_nesting_level ?dec) ?v" using v(1) by (simp add: thrift_decoder_init_def)
  ultimately obtain dec' where "thrift_skip_field ?dec (tval_type ?v) = Some dec'" "skipped ?dec dec' (length bs)"
    using r by blast
  then show ?thesis using p d(2) by (auto simp: skipped_def)
qed

text \<open>C32: Every primitive value the Thrift writer appends reads back unchanged through the matching reader,
  which consumes exactly the bytes written: bytes, booleans, signed integers of 16, 32 and 64 bits,
  doubles (as bit patterns) and binary data of any length an int32 holds.\<close>

theorem primitives_roundtrip:
  assumes "te_ok A enc (10 + length data)" and "length data < 2 ^ 31"
  shows "(\<exists>bs. writes A enc (thrift_write_byte A enc u) bs 0 \<and>
      (\<forall>dec. td_on dec bs \<longrightarrow> thrift_read_byte dec = Some (u, td_adv dec (length bs)))) \<and>
    (\<exists>bs. writes A enc (thrift_write_bool A enc b) bs 0 \<and>
      (\<forall>dec. td_on dec bs \<longrightarrow> thrift_read_bool dec = Some (b, td_adv dec (length bs)))) \<and>
    (\<exists>bs. writes A enc (thrift_write_i16 A enc x) bs 0 \<and>
      (\<forall>dec. td_on dec bs \<longrightarrow> thrift_read_i16 dec = Some (x, td_adv dec (length bs)))) \<and>
    (\<exists>bs. writes A enc (thrift_write_i32 A enc y) bs 0 \<and>
      (\<forall>dec. td_on dec bs \<longrightarrow> thrift_read_i32 dec = Some (y, td_adv dec (length bs)))) \<and>
    (\<exists>bs. writes A enc (thrift_write_i64 A enc z) bs 0 \<and>
      (\<forall>dec. td_on dec bs \<longrightarrow> thrift_read_i64 dec = Some (z, td_adv dec (length bs)))) \<and>
    (\<exists>bs. writes A enc (thrift_write_double A enc f) bs 0 \<and>
      (\<forall>dec. td_on dec bs \<longrightarrow> thrift_read_double dec = Some (f, td_adv dec (length bs)))) \<and>
    (\<exists>enc' bs. thrift_write_binary A enc (Some data) (of_nat (length data)) = Some enc' \<and> writes A enc enc' bs 0 \<and>
      (\<forall>dec. td_on dec bs \<longrightarrow> thrift_read_binary dec = Some (Some data, td_adv dec (length bs))))"
proof -
  have ok: "te_ok A enc (length bs + 0)" if "length bs \<le> 10 + length data" for bs :: "u8 list"
    using assms(1) that by (auto intro: te_ok_mono)
  have v: "te_ok A enc (length (carquet_encode_varint64 w) + 0)" for w
    using length_varint64 [of w] by (intro ok) simp
  have "length (binary_bytes data) \<le> 10 + length data"
    using length_varint64 [of "of_nat (length data)"] by (simp add: binary_bytes_def)
  from binary_written [OF assms(2) ok [OF this]] binary_on [OF assms(2)]
  have bin: "\<exists>enc' bs. thrift_write_binary A enc (Some data) (of_nat (length data)) = Some enc' \<and> writes A enc enc' bs 0 \<and>
      (\<forall>dec. td_on dec bs \<longrightarrow> thrift_read_binary dec = Some (Some data, td_adv dec (length bs)))" by blast
  show ?thesis
    using w_byte.value_roundtrip [OF TrueI ok, of u] w_bool.value_roundtrip [OF TrueI ok, of b]
      w_i16.value_roundtrip [OF TrueI v, of x] w_i32.value_roundtrip [OF TrueI v, of y]
      w_i64.value_roundtrip [OF TrueI v, of z] w_double.value_roundtrip [OF TrueI ok, of f]
    by (intro conjI bin) auto
qed

lemma primitives_roundtrip_witness:
  "\<exists>bs. writes good_allocator (thrift_encoder_init carquet_buffer_init)
      (thrift_write_i32 good_allocator (thrift_encoder_init carquet_buffer_init) (-5)) bs 0 \<and>
    (\<forall>dec. td_on dec bs \<longrightarrow> thrift_read_i32 dec = Some (-5, td_adv dec (length bs)))"
  using primitives_roundtrip [OF encoder_init_ok, of "[]"] by (simp add: SIZE_MAX_def)

text \<open>C31: Field, list and map headers read back what was written: the type and the field id, whether
  the id is a small step from the last one or not (negative and wrapped steps included), and element
  types and counts, of which the reader accepts exactly those that are at most the number of bytes
  left (for a map, whose count is checked before its byte of types, that byte included) and refuses
  a greater one with THRIFT_DECODE and a count of 0. An empty map is one byte and reads back without types.\<close>

theorem headers_roundtrip:
  assumes "te_ok A enc 12" and "0 < te_nesting_level enc" and "nibble_type type" and "type \<noteq> THRIFT_TYPE_STOP"
    and "nibble_type vt" and "count < 2 ^ 31"
  shows "(\<exists>enc' bs. thrift_write_field_header A enc type field_id = Some enc' \<and> te_out enc' = te_out enc @ bs \<and>
      te_status enc' = CARQUET_OK \<and>
      (\<forall>dec. td_on dec bs \<longrightarrow> 0 < td_nesting_level dec \<longrightarrow>
         td_last_field_id dec ! (td_nesting_level dec - 1) = te_last_field_id enc ! (te_nesting_level enc - 1) \<longrightarrow>
         (\<exists>dec'. thrift_read_field_begin dec = Some (Some (type, field_id), dec') \<and>
            td_left dec' = drop (length bs) (td_left dec) \<and>
            td_last_field_id dec' ! (td_nesting_level dec - 1) = te_last_field_id enc' ! (te_nesting_level enc - 1)))) \<and>
    (\<exists>bs. writes A enc (thrift_write_list_begin A enc type (of_nat count)) bs 0 \<and>
      (\<forall>dec. td_on dec bs \<longrightarrow>
         (if count \<le> length (td_left dec) - length bs
          then thrift_read_list_begin dec = Some (type, count, td_adv dec (length bs))
          else \<exists>dec'. thrift_read_list_begin dec = Some (type, 0, dec') \<and> td_status dec' = CARQUET_ERROR_THRIFT_DECODE))) \<and>
    (\<exists>bs. writes A enc (thrift_write_map_begin A enc type vt (of_nat count)) bs 0 \<and>
      (\<forall>dec. td_on dec bs \<longrightarrow>
         (if count = 0 then thrift_read_map_begin dec = Some (THRIFT_TYPE_STOP, THRIFT_TYPE_STOP, 0, td_adv dec (length bs))
          else if count \<le> length (td_left dec) - length bs + 1
          then thrift_read_map_begin dec = Some (type, vt, count, td_adv dec (length bs))
          else \<exists>dec'. thrift_read_map_begin dec = Some (THRIFT_TYPE_STOP, THRIFT_TYPE_STOP, 0, dec') \<and>
            td_status dec' = CARQUET_ERROR_THRIFT_DECODE)))"
proof (intro conjI)
  let ?prev = "te_last_field_id enc ! (te_nesting_level enc - 1)"
  let ?bs = "header_bytes ?prev field_id type"
  have lv: "te_nesting_level enc - 1 < length (te_last_field_id enc)" using assms(1,2) unfolding te_ok_def by linarith
  have "length ?bs \<le> 11" using length_varint64 [of "carquet_zigzag_encode64 (scast field_id)"] by (simp add: header_bytes_def Let_def)
  then have "te_ok A enc (length ?bs + 0)" using assms(1) by (auto intro: te_ok_mono)
  from header_written [OF this assms(2)] obtain enc' where w: "thrift_write_field_header A enc type field_id = Some enc'"
    "te_ok A enc' 0" "te_out enc' = te_out enc @ ?bs" "te_last_field_id enc' = (te_last_field_id enc)[te_nesting_level enc - 1 := field_id]"
    by blast
  have "\<exists>dec'. thrift_read_field_begin dec = Some (Some (type, field_id), dec') \<and>
      td_left dec' = drop (length ?bs) (td_left dec) \<and>
      td_last_field_id dec' ! (td_nesting_level dec - 1) = te_last_field_id enc' ! (te_nesting_level enc - 1)"
    if on: "td_on dec ?bs" and lvd: "0 < td_nesting_level dec" and eq: "td_last_field_id dec ! (td_nesting_level dec - 1) = ?prev" for dec
  proof -
    have len: "length ?bs \<le> length (td_left dec)" "td_wf dec" using on by (auto simp: td_on_def)
    then have "td_nesting_level dec - 1 < length (td_last_field_id dec)" using lvd unfolding td_wf_def by linarith
    with header_on [OF on [folded eq] lvd assms(3,4)] w(4) lv td_adv_left(2) [OF len(2,1)]
    show ?thesis unfolding eq by (auto simp: td_adv_def)
  qed
  with w show "\<exists>enc' bs. thrift_write_field_header A enc type field_id = Some enc' \<and> te_out enc' = te_out enc @ bs \<and>
      te_status enc' = CARQUET_OK \<and>
      (\<forall>dec. td_on dec bs \<longrightarrow> 0 < td_nesting_level dec \<longrightarrow> td_last_field_id dec ! (td_nesting_level dec - 1) = ?prev \<longrightarrow>
         (\<exists>dec'. thrift_read_field_begin dec = Some (Some (type, field_id), dec') \<and>
            td_left dec' = drop (length bs) (td_left dec) \<and>
            td_last_field_id dec' ! (td_nesting_level dec - 1) = te_last_field_id enc' ! (te_nesting_level enc - 1)))"
    by (intro exI [of _ enc'] exI [of _ ?bs]) (auto simp: te_ok_def)
next
  have "length (list_bytes type count) \<le> 12" using length_varint64 [of "of_nat count"] by (simp add: list_bytes_def)
  then have "te_ok A enc (length (list_bytes type count) + 0)" using assms(1) by (auto intro: te_ok_mono)
  then show "\<exists>bs. writes A enc (thrift_write_list_begin A enc type (of_nat count)) bs 0 \<and>
      (\<forall>dec. td_on dec bs \<longrightarrow>
         (if count \<le> length (td_left dec) - length bs
          then thrift_read_list_begin dec = Some (type, count, td_adv dec (length bs))
          else \<exists>dec'. thrift_read_list_begin dec = Some (type, 0, dec') \<and> td_status dec' = CARQUET_ERROR_THRIFT_DECODE))"
    using list_written [OF assms(6)] list_header_on [OF assms(6) _ assms(3)]
    by (intro exI [of _ "list_bytes type count"]) (simp add: td_set_error_def td_on_def)
next
  have "length (map_bytes type vt count) \<le> 12" using length_varint64 [of "of_nat count"] by (simp add: map_bytes_def)
  then have "te_ok A enc (length (map_bytes type vt count) + 0)" using assms(1) by (auto intro: te_ok_mono)
  then show "\<exists>bs. writes A enc (thrift_write_map_begin A enc type vt (of_nat count)) bs 0 \<and>
      (\<forall>dec. td_on dec bs \<longrightarrow>
         (if count = 0 then thrift_read_map_begin dec = Some (THRIFT_TYPE_STOP, THRIFT_TYPE_STOP, 0, td_adv dec (length bs))
          else if count \<le> length (td_left dec) - length bs + 1
          then thrift_read_map_begin dec = Some (type, vt, count, td_adv dec (length bs))
          else \<exists>dec'. thrift_read_map_begin dec = Some (THRIFT_TYPE_STOP, THRIFT_TYPE_STOP, 0, dec') \<and>
            td_status dec' = CARQUET_ERROR_THRIFT_DECODE))"
    using map_written [OF assms(6)] map_header_on [OF assms(6) _ assms(3,5)] empty_map_on
    by (intro exI [of _ "map_bytes type vt count"]) (cases "count = 0"; simp add: td_set_error_def td_on_def map_bytes_def)
qed

lemma headers_roundtrip_witness:
  "\<exists>enc enc' bs. thrift_write_struct_begin (thrift_encoder_init carquet_buffer_init) = Some enc \<and>
    thrift_write_field_header good_allocator enc THRIFT_TYPE_I32 3 = Some enc' \<and> te_out enc' = te_out enc @ bs"
proof -
  have "te_ok good_allocator (thrift_encoder_init carquet_buffer_init) 12" by (rule encoder_init_ok) (simp add: SIZE_MAX_def)
  then obtain enc where e: "thrift_write_struct_begin (thrift_encoder_init carquet_buffer_init) = Some enc"
    "te_ok good_allocator enc 12" "te_nesting_level enc = Suc 0"
    using struct_written [of "thrift_encoder_init carquet_buffer_init" good_allocator 12]
    by (auto simp: thrift_encoder_init_def THRIFT_MAX_NESTING_def)
  show ?thesis
    using headers_roundtrip [OF e(2), of THRIFT_TYPE_I32 THRIFT_TYPE_I32 0 3] e by auto
qed

text \<open>A failed append is never silent in the Thrift writer: it leaves the output as it was and sets
  the status to OUT_OF_MEMORY, and no later operation clears an error.\<close>

theorem write_errors_stick:
  assumes "buf_wf (te_buffer enc)"
  shows "(te_append A enc bs = enc\<lparr>te_buffer := te_buffer (te_append A enc bs)\<rparr> \<and>
      te_out (te_append A enc bs) = te_out enc @ bs \<or>
      te_status (te_append A enc bs) = (if te_status enc = CARQUET_OK then CARQUET_ERROR_OUT_OF_MEMORY else te_status enc) \<and>
      te_buffer (te_append A enc bs) = te_buffer enc) \<and>
    (te_status enc \<noteq> CARQUET_OK \<longrightarrow>
      te_status (thrift_write_varint A enc v) = te_status enc \<and> te_status (thrift_write_byte A enc b) = te_status enc \<and>
      te_status (thrift_write_list_begin A enc type n) = te_status enc \<and>
      te_status (thrift_write_map_begin A enc type vt n) = te_status enc \<and>
      te_status (thrift_write_struct_end A enc) = te_status enc \<and>
      (\<forall>enc'. thrift_write_struct_begin enc = Some enc' \<longrightarrow> te_status enc' = te_status enc) \<and>
      (\<forall>enc'. thrift_write_field_header A enc type i = Some enc' \<longrightarrow> te_status enc' = te_status enc) \<and>
      (\<forall>enc'. thrift_write_binary A enc data n = Some enc' \<longrightarrow> te_status enc' = te_status enc))"
proof -
  have ap: "te_status (te_append A e cs) = te_status e" if "te_status e \<noteq> CARQUET_OK" for e cs
    using that by (auto simp: te_append_def te_set_error_def Let_def split: prod.splits)
  obtain st buf where c: "carquet_buffer_append A (te_buffer enc) bs = (st, buf)" by (cases "carquet_buffer_append A (te_buffer enc) bs")
  have "st = CARQUET_OK \<and> contents buf = te_out enc @ bs \<or> st \<noteq> CARQUET_OK \<and> buf = te_buffer enc"
    using bsink.put_OK [OF assms, of A bs] bsink.put_error [OF assms c] c by (cases "st = CARQUET_OK") auto
  then have 1: "te_append A enc bs = enc\<lparr>te_buffer := te_buffer (te_append A enc bs)\<rparr> \<and>
      te_out (te_append A enc bs) = te_out enc @ bs \<or>
      te_status (te_append A enc bs) = (if te_status enc = CARQUET_OK then CARQUET_ERROR_OUT_OF_MEMORY else te_status enc) \<and>
      te_buffer (te_append A enc bs) = te_buffer enc"
    using c by (auto simp: te_append_def te_set_error_def)
  note defs = thrift_write_varint_def thrift_write_byte_def thrift_write_list_begin_def thrift_write_map_begin_def
    thrift_write_struct_end_def thrift_write_field_stop_def thrift_write_struct_begin_def thrift_write_i16_def
    thrift_write_zigzag_def te_set_error_def Let_def
  have i16: "te_status (thrift_write_i16 A e w) = te_status e" if "te_status e \<noteq> CARQUET_OK" for e w
    using that by (simp add: defs ap)
  have 2: "te_status enc' = te_status enc"
    if "te_status enc \<noteq> CARQUET_OK" "thrift_write_field_header A enc type i = Some enc'" for enc'
    using that by (auto simp: thrift_write_field_header_def run_simps Let_def thrift_write_byte_def ap i16 split: if_splits)
  have 3: "te_status enc' = te_status enc"
    if "te_status enc \<noteq> CARQUET_OK" "thrift_write_binary A enc data n = Some enc'" for enc'
    using that by (auto simp: thrift_write_binary_def run_simps Let_def thrift_write_varint_def ap split: if_splits)
  have 4: "te_status enc' = te_status enc"
    if "te_status enc \<noteq> CARQUET_OK" "thrift_write_struct_begin enc = Some enc'" for enc'
    using that by (auto simp: thrift_write_struct_begin_def run_simps te_set_error_def split: if_splits)
  have 5: "te_status (thrift_write_varint A enc v) = te_status enc" "te_status (thrift_write_byte A enc b) = te_status enc"
    "te_status (thrift_write_list_begin A enc type n) = te_status enc"
    "te_status (thrift_write_map_begin A enc type vt n) = te_status enc"
    "te_status (thrift_write_struct_end A enc) = te_status enc" if "te_status enc \<noteq> CARQUET_OK"
    using that by (simp_all add: defs ap)
  show ?thesis by (intro conjI impI allI 1) (erule (1) 2 | erule (1) 3 | erule (1) 4 | erule 5)+
qed

lemma write_errors_stick_witness:
  "te_status (te_append failing_allocator (thrift_encoder_init carquet_buffer_init) [1]) = CARQUET_ERROR_OUT_OF_MEMORY \<or>
   te_out (te_append failing_allocator (thrift_encoder_init carquet_buffer_init) [1]) = [1]"
  using write_errors_stick [of "thrift_encoder_init carquet_buffer_init" failing_allocator "[1]"] init_wf
  by (auto simp: thrift_encoder_init_def contents_def carquet_buffer_init_def)

end
