(* ===== verification/Delta.thy ===== *)
theory Delta
  imports Bitpack Endian
begin

text \<open>
  Component src/encoding/delta.c: DELTA_BINARY_PACKED, the encoding of integers as blocks of
  bit-packed differences.

  Decoder and encoder are the C structs. The 64-bit values are words, read as signed where the code
  compares them; the prefix sum is the scalar one of simd/dispatch.c. A result is None on an access
  outside an array, Inl of the status on an error the code reports.
\<close>

section \<open>Decoding\<close>

definition DELTA_BLOCK_SIZE :: nat where "DELTA_BLOCK_SIZE = 128"
definition DELTA_MINI_BLOCKS :: nat where "DELTA_MINI_BLOCKS = 4"
definition DELTA_MINI_BLOCK_SIZE :: nat where "DELTA_MINI_BLOCK_SIZE = DELTA_BLOCK_SIZE div DELTA_MINI_BLOCKS"

record delta_decoder =
  dd_data :: "u8 list"
  dd_size :: nat
  dd_pos :: nat
  dd_block_size :: nat
  dd_mini_blocks_per_block :: nat
  dd_total_values :: u32
  dd_values_decoded :: nat
  dd_first_value :: u64
  dd_last_value :: u64
  dd_min_delta :: u64
  dd_bit_widths :: "u8 list"
  dd_current_mini_block :: nat
  dd_values_in_mini_block :: nat
  dd_mini_block_values :: "u64 list"
  dd_mini_block_pos :: nat

text \<open>
  The loop is the one of \<open>carquet_decode_varint64\<close>: ten bytes at most. The value and the
  number of bytes, which is 0 for a number that does not end.
\<close>

definition read_uleb128 :: "u8 list \<Rightarrow> nat \<Rightarrow> nat \<Rightarrow> (u64 \<times> nat) option" where
  "read_uleb128 d base n = do {
     r \<leftarrow> decode_varint_loop 10 d (base + n) base 0 0;
     Some (case r of None \<Rightarrow> (0, 0) | Some (v, j) \<Rightarrow> (v, j - base))
   }"

definition zigzag_decode64 :: "u64 \<Rightarrow> u64" where
  "zigzag_decode64 n = drop_bit 1 n XOR (NOT (n AND 1) + 1)"

text \<open>One number of the header, the check and the step over it.\<close>

definition read_header_number :: "u8 list \<Rightarrow> nat \<Rightarrow> nat \<Rightarrow> (carquet_status + u64 \<times> nat) option" where
  "read_header_number d n pos = do {
     (val, bytes) \<leftarrow> read_uleb128 d pos (n - pos);
     if bytes = 0 then Some (Inl CARQUET_ERROR_DECODE) else Some (Inr (val, pos + bytes))
   }"

definition delta_decoder_init :: "u8 list \<Rightarrow> nat \<Rightarrow> (carquet_status + delta_decoder) option" where
  "delta_decoder_init d n = do {
     r1 \<leftarrow> read_header_number d n 0;
     (case r1 of Inl st \<Rightarrow> Some (Inl st) | Inr (v1, pos1) \<Rightarrow> do {
       let block_size = sint (ucast v1 :: u32);
       r2 \<leftarrow> read_header_number d n pos1;
       (case r2 of Inl st \<Rightarrow> Some (Inl st) | Inr (v2, pos2) \<Rightarrow> do {
         let mini_blocks = sint (ucast v2 :: u32);
         if mini_blocks \<le> 0 \<or> mini_blocks > int DELTA_MINI_BLOCKS then Some (Inl CARQUET_ERROR_DECODE)
         else if block_size \<le> 0 \<or> block_size > int DELTA_BLOCK_SIZE then Some (Inl CARQUET_ERROR_DECODE)
         else if block_size div mini_blocks > int DELTA_MINI_BLOCK_SIZE then Some (Inl CARQUET_ERROR_DECODE)
         else do {
           r3 \<leftarrow> read_header_number d n pos2;
           (case r3 of Inl st \<Rightarrow> Some (Inl st) | Inr (v3, pos3) \<Rightarrow> do {
             r4 \<leftarrow> read_header_number d n pos3;
             (case r4 of Inl st \<Rightarrow> Some (Inl st) | Inr (v4, pos4) \<Rightarrow>
               Some (Inr \<lparr>dd_data = d, dd_size = n, dd_pos = pos4, dd_block_size = nat block_size,
                 dd_mini_blocks_per_block = nat mini_blocks, dd_total_values = ucast v3, dd_values_decoded = 0,
                 dd_first_value = zigzag_decode64 v4, dd_last_value = zigzag_decode64 v4, dd_min_delta = 0,
                 dd_bit_widths = replicate DELTA_MINI_BLOCKS 0, dd_current_mini_block = nat mini_blocks,
                 dd_values_in_mini_block = 0, dd_mini_block_values = replicate DELTA_MINI_BLOCK_SIZE 0,
                 dd_mini_block_pos = DELTA_MINI_BLOCK_SIZE\<rparr>))
           })
         }
       })
     })
   }"

definition delta_decoder_read_block :: "delta_decoder \<Rightarrow> (carquet_status + delta_decoder) option" where
  "delta_decoder_read_block dec =
     (if dd_pos dec \<ge> dd_size dec then Some (Inl CARQUET_ERROR_END_OF_DATA)
      else do {
        r \<leftarrow> read_header_number (dd_data dec) (dd_size dec) (dd_pos dec);
        (case r of Inl st \<Rightarrow> Some (Inl st) | Inr (val, pos1) \<Rightarrow>
          if pos1 + dd_mini_blocks_per_block dec > dd_size dec then Some (Inl CARQUET_ERROR_DECODE)
          else do {
            ws \<leftarrow> rd_bytes (dd_data dec) pos1 (dd_mini_blocks_per_block dec);
            widths \<leftarrow> wr_bytes (dd_bit_widths dec) 0 ws;
            Some (Inr (dec\<lparr>dd_min_delta := zigzag_decode64 val, dd_bit_widths := widths,
              dd_pos := pos1 + dd_mini_blocks_per_block dec, dd_current_mini_block := 0\<rparr>))
          })
      })"

text \<open>The loops over the bytes of a value and over the values, for widths above 32.\<close>

fun read_wide_value :: "nat \<Rightarrow> u8 list \<Rightarrow> nat \<Rightarrow> nat \<Rightarrow> u64 \<Rightarrow> u64 option" where
  "read_wide_value 0 d pos b val = Some val"
| "read_wide_value (Suc n) d pos b val = do {
     x \<leftarrow> rd d pos;
     read_wide_value n d (pos + 1) (b + 1) (val OR push_bit (b * 8) (ucast x))
   }"

fun read_wide_values :: "nat \<Rightarrow> u8 list \<Rightarrow> nat \<Rightarrow> nat \<Rightarrow> u64 \<Rightarrow> u64 list option" where
  "read_wide_values 0 d pos bytes_per_value min_delta = Some []"
| "read_wide_values (Suc n) d pos bytes_per_value min_delta = do {
     val \<leftarrow> read_wide_value bytes_per_value d pos 0 0;
     vs \<leftarrow> read_wide_values n d (pos + bytes_per_value) bytes_per_value min_delta;
     Some ((min_delta + val) # vs)
   }"

definition delta_decoder_read_mini_block :: "delta_decoder \<Rightarrow> (carquet_status + delta_decoder) option" where
  "delta_decoder_read_mini_block dec = do {
     r \<leftarrow> (if dd_current_mini_block dec \<ge> dd_mini_blocks_per_block dec then delta_decoder_read_block dec
          else Some (Inr dec));
     (case r of Inl st \<Rightarrow> Some (Inl st) | Inr dec1 \<Rightarrow> do {
       w \<leftarrow> rd (dd_bit_widths dec1) (dd_current_mini_block dec1);
       let bit_width = unat w;
       let mini_block_size = dd_block_size dec1 div dd_mini_blocks_per_block dec1;
       r2 \<leftarrow> (if bit_width = 0 then Some (Inr (replicate mini_block_size (dd_min_delta dec1), dd_pos dec1))
             else if bit_width \<le> 32 then
               (let packed_size = (mini_block_size * bit_width + 7) div 8 in
                if dd_pos dec1 + packed_size > dd_size dec1 then Some (Inl CARQUET_ERROR_DECODE)
                else do {
                  (unpacked, _) \<leftarrow> carquet_bitunpack_32 scalar_dispatch (dd_data dec1) (dd_pos dec1) mini_block_size bit_width;
                  Some (Inr (map (\<lambda>u. dd_min_delta dec1 + ucast u) unpacked, dd_pos dec1 + packed_size))
                })
             else if bit_width \<le> 64 then
               (let bytes_per_value = (bit_width + 7) div 8; packed_size = mini_block_size * bytes_per_value in
                if dd_pos dec1 + packed_size > dd_size dec1 then Some (Inl CARQUET_ERROR_DECODE)
                else do {
                  vs \<leftarrow> read_wide_values mini_block_size (dd_data dec1) (dd_pos dec1) bytes_per_value (dd_min_delta dec1);
                  Some (Inr (vs, dd_pos dec1 + packed_size))
                })
             else Some (Inl CARQUET_ERROR_DECODE));
       (case r2 of Inl st \<Rightarrow> Some (Inl st) | Inr (vs, pos) \<Rightarrow> do {
         buffer \<leftarrow> wr_bytes (dd_mini_block_values dec1) 0 vs;
         Some (Inr (dec1\<lparr>dd_mini_block_values := buffer, dd_pos := pos,
           dd_current_mini_block := dd_current_mini_block dec1 + 1, dd_mini_block_pos := 0,
           dd_values_in_mini_block := mini_block_size\<rparr>))
       })
     })
   }"

text \<open>The loop that stores \<open>n\<close> raw differences.\<close>

fun delta_values :: "nat \<Rightarrow> delta_decoder \<Rightarrow> (carquet_status + u64 list \<times> delta_decoder) option" where
  "delta_values 0 dec = Some (Inr ([], dec))"
| "delta_values (Suc n) dec = do {
     r \<leftarrow> (if dd_mini_block_pos dec \<ge> dd_values_in_mini_block dec then delta_decoder_read_mini_block dec
          else Some (Inr dec));
     (case r of Inl st \<Rightarrow> Some (Inl st) | Inr dec1 \<Rightarrow> do {
       v \<leftarrow> rd (dd_mini_block_values dec1) (dd_mini_block_pos dec1);
       r2 \<leftarrow> delta_values n (dec1\<lparr>dd_mini_block_pos := dd_mini_block_pos dec1 + 1,
              dd_values_decoded := dd_values_decoded dec1 + 1\<rparr>);
       (case r2 of Inl st \<Rightarrow> Some (Inl st) | Inr (vs, dec2) \<Rightarrow> Some (Inr (v # vs, dec2)))
     })
   }"

fun scalar_prefix_sum_i32 :: "u32 list \<Rightarrow> u32 \<Rightarrow> u32 list" where
  "scalar_prefix_sum_i32 [] acc = []"
| "scalar_prefix_sum_i32 (v # vs) acc = (acc + v) # scalar_prefix_sum_i32 vs (acc + v)"

fun scalar_prefix_sum_i64 :: "u64 list \<Rightarrow> u64 \<Rightarrow> u64 list" where
  "scalar_prefix_sum_i64 [] acc = []"
| "scalar_prefix_sum_i64 (v # vs) acc = (acc + v) # scalar_prefix_sum_i64 vs (acc + v)"

text \<open>The values and \<open>*bytes_consumed\<close>.\<close>

definition carquet_delta_decode_int32 :: "u8 list \<Rightarrow> nat \<Rightarrow> nat \<Rightarrow> (carquet_status + u32 list \<times> nat) option" where
  "carquet_delta_decode_int32 d n num_values = do {
     r \<leftarrow> delta_decoder_init d n;
     (case r of Inl st \<Rightarrow> Some (Inl st) | Inr dec \<Rightarrow>
       if num_values = 0 then Some (Inr ([], dd_pos dec))
       else do {
         let v0 = (ucast (dd_first_value dec) :: u32);
         r2 \<leftarrow> delta_values (num_values - 1) (dec\<lparr>dd_values_decoded := 1\<rparr>);
         (case r2 of Inl st \<Rightarrow> Some (Inl st) | Inr (ds, dec2) \<Rightarrow>
           Some (Inr (v0 # scalar_prefix_sum_i32 (map ucast ds) v0, dd_pos dec2)))
       })
   }"

definition carquet_delta_decode_int64 :: "u8 list \<Rightarrow> nat \<Rightarrow> nat \<Rightarrow> (carquet_status + u64 list \<times> nat) option" where
  "carquet_delta_decode_int64 d n num_values = do {
     r \<leftarrow> delta_decoder_init d n;
     (case r of Inl st \<Rightarrow> Some (Inl st) | Inr dec \<Rightarrow>
       if num_values = 0 then Some (Inr ([], dd_pos dec))
       else do {
         let v0 = dd_first_value dec;
         r2 \<leftarrow> delta_values (num_values - 1) (dec\<lparr>dd_values_decoded := 1\<rparr>);
         (case r2 of Inl st \<Rightarrow> Some (Inl st) | Inr (ds, dec2) \<Rightarrow>
           Some (Inr (v0 # scalar_prefix_sum_i64 ds v0, dd_pos dec2)))
       })
   }"

section \<open>Encoding\<close>

record delta_encoder =
  de_data :: "u8 list"
  de_capacity :: nat
  de_pos :: nat
  de_block_size :: nat
  de_mini_blocks_per_block :: nat
  de_values_written :: nat
  de_first_value :: u64
  de_last_value :: u64
  de_deltas :: "u64 list"
  de_delta_count :: nat

function uleb_bytes :: "u64 \<Rightarrow> u8 list" where
  "uleb_bytes value =
     (if value < 0x80 then [ucast value] else ucast (value OR 0x80) # uleb_bytes (drop_bit 7 value))"
  by pat_completeness auto
termination
  by (relation "measure unat") (use drop_bit_7_less64 in auto)

declare uleb_bytes.simps [simp del]

text \<open>The bytes are stored at \<open>pos\<close>; the position after them.\<close>

definition write_uleb128 :: "u8 list \<Rightarrow> nat \<Rightarrow> u64 \<Rightarrow> (u8 list \<times> nat) option" where
  "write_uleb128 d pos value = do {
     d' \<leftarrow> wr_bytes d pos (uleb_bytes value);
     Some (d', pos + length (uleb_bytes value))
   }"

definition zigzag_encode64 :: "u64 \<Rightarrow> u64" where
  "zigzag_encode64 n = push_bit 1 n XOR signed_drop_bit 63 n"

function width_loop :: "u64 \<Rightarrow> nat \<Rightarrow> nat" where
  "width_loop value width = (if value > 0 then width_loop (drop_bit 1 value) (width + 1) else width)"
  by pat_completeness auto
termination
proof (relation "measure (\<lambda>(v, width). unat v)")
  fix v :: u64 and width :: nat
  assume "v > 0"
  then have "0 < unat v" by (simp add: unat_gt_0)
  then show "((drop_bit 1 v, width + 1), (v, width)) \<in> measure (\<lambda>(v, width). unat v)"
    by (simp add: drop_bit_eq_div unat_div)
qed simp

declare width_loop.simps [simp del]

definition bit_width_required :: "u64 \<Rightarrow> nat" where
  "bit_width_required value = (if value = 0 then 0 else width_loop value 0)"

definition delta_encoder_init :: "u8 list \<Rightarrow> nat \<Rightarrow> delta_encoder" where
  "delta_encoder_init d capacity =
     \<lparr>de_data = d, de_capacity = capacity, de_pos = 0, de_block_size = DELTA_BLOCK_SIZE,
      de_mini_blocks_per_block = DELTA_MINI_BLOCKS, de_values_written = 0, de_first_value = 0, de_last_value = 0,
      de_deltas = replicate DELTA_BLOCK_SIZE 0, de_delta_count = 0\<rparr>"

text \<open>The differences of mini-block \<open>mb\<close>, from \<open>start\<close> to the capped \<open>end\<close>.\<close>

definition mini_block_deltas :: "delta_encoder \<Rightarrow> nat \<Rightarrow> u64 list option" where
  "mini_block_deltas enc mb =
     (let mini_block_size = de_block_size enc div de_mini_blocks_per_block enc;
          start = mb * mini_block_size;
          stop = min (start + mini_block_size) (de_delta_count enc)
      in if start < stop then rd_bytes (de_deltas enc) start (stop - start) else Some [])"

text \<open>The smallest difference, as a signed number, and the largest distance from it.\<close>

fun min_delta_loop :: "u64 list \<Rightarrow> u64 \<Rightarrow> u64" where
  "min_delta_loop [] m = m"
| "min_delta_loop (d # ds) m = min_delta_loop ds (if sint d < sint m then d else m)"

fun max_adjusted_loop :: "u64 list \<Rightarrow> u64 \<Rightarrow> u64 \<Rightarrow> u64" where
  "max_adjusted_loop [] min_delta max_val = max_val"
| "max_adjusted_loop (d # ds) min_delta max_val =
     max_adjusted_loop ds min_delta (if d - min_delta > max_val then d - min_delta else max_val)"

text \<open>The widths of the mini-blocks and the bytes they call for.\<close>

fun mini_block_widths :: "nat \<Rightarrow> delta_encoder \<Rightarrow> nat \<Rightarrow> u64 \<Rightarrow> (nat list \<times> nat) option" where
  "mini_block_widths 0 enc mb min_delta = Some ([], 0)"
| "mini_block_widths (Suc n) enc mb min_delta = do {
     ds \<leftarrow> mini_block_deltas enc mb;
     let w = bit_width_required (max_adjusted_loop ds min_delta 0);
     let mini_block_size = de_block_size enc div de_mini_blocks_per_block enc;
     let need = (if w > 0 then if w \<le> 32 then mini_block_size * w div 8 else mini_block_size * ((w + 7) div 8) else 0);
     (ws, rest) \<leftarrow> mini_block_widths n enc (mb + 1) min_delta;
     Some (w # ws, need + rest)
   }"

definition wide_bytes :: "nat \<Rightarrow> u64 \<Rightarrow> u8 list" where
  "wide_bytes bytes_per_value adjusted = map (\<lambda>b. ucast (drop_bit (b * 8) adjusted)) [0..<bytes_per_value]"

definition write_mini_block :: "delta_encoder \<Rightarrow> nat \<Rightarrow> u64 \<Rightarrow> nat \<Rightarrow> delta_encoder option" where
  "write_mini_block enc mb min_delta w = do {
     ds \<leftarrow> mini_block_deltas enc mb;
     let mini_block_size = de_block_size enc div de_mini_blocks_per_block enc;
     if w = 0 then Some enc
     else if w \<le> 32 then do {
       let to_pack = map (\<lambda>d. ucast (d - min_delta)) ds @ replicate (mini_block_size - length ds) 0;
       (used, d') \<leftarrow> carquet_bitpack_32 to_pack mini_block_size w (de_data enc) (de_pos enc);
       Some (enc\<lparr>de_data := d', de_pos := de_pos enc + used\<rparr>)
     }
     else do {
       let bytes_per_value = (w + 7) div 8;
       let bs = concat (map (\<lambda>d. wide_bytes bytes_per_value (d - min_delta)) ds) @
                replicate ((mini_block_size - length ds) * bytes_per_value) 0;
       d' \<leftarrow> wr_bytes (de_data enc) (de_pos enc) bs;
       Some (enc\<lparr>de_data := d', de_pos := de_pos enc + length bs\<rparr>)
     }
   }"

fun write_mini_blocks :: "nat list \<Rightarrow> delta_encoder \<Rightarrow> nat \<Rightarrow> u64 \<Rightarrow> delta_encoder option" where
  "write_mini_blocks [] enc mb min_delta = Some enc"
| "write_mini_blocks (w # ws) enc mb min_delta = do {
     enc1 \<leftarrow> write_mini_block enc mb min_delta w;
     write_mini_blocks ws enc1 (mb + 1) min_delta
   }"

definition delta_encoder_flush_block :: "delta_encoder \<Rightarrow> (carquet_status \<times> delta_encoder) option" where
  "delta_encoder_flush_block enc =
     (if de_delta_count enc = 0 then Some (CARQUET_OK, enc)
      else do {
        d0 \<leftarrow> rd (de_deltas enc) 0;
        ds \<leftarrow> rd_bytes (de_deltas enc) 1 (de_delta_count enc - 1);
        let min_delta = min_delta_loop ds d0;
        (widths, packed_bytes_needed) \<leftarrow> mini_block_widths (de_mini_blocks_per_block enc) enc 0 min_delta;
        let bytes_needed = 10 + de_mini_blocks_per_block enc + packed_bytes_needed;
        if de_pos enc + bytes_needed > de_capacity enc then Some (CARQUET_ERROR_ENCODE, enc)
        else do {
          (d1, pos1) \<leftarrow> write_uleb128 (de_data enc) (de_pos enc) (zigzag_encode64 min_delta);
          d2 \<leftarrow> wr_bytes d1 pos1 (map of_nat widths);
          let enc1 = enc\<lparr>de_data := d2, de_pos := pos1 + de_mini_blocks_per_block enc\<rparr>;
          enc2 \<leftarrow> write_mini_blocks widths enc1 0 min_delta;
          Some (CARQUET_OK, enc2\<lparr>de_delta_count := 0\<rparr>)
        }
      })"

text \<open>The loop over the values after the first; a value of an int32 array is sign-extended.\<close>

fun encode_deltas :: "u64 list \<Rightarrow> delta_encoder \<Rightarrow> (carquet_status \<times> delta_encoder) option" where
  "encode_deltas [] enc = Some (CARQUET_OK, enc)"
| "encode_deltas (v # vs) enc = do {
     ds \<leftarrow> wr (de_deltas enc) (de_delta_count enc) (v - de_last_value enc);
     let enc1 = enc\<lparr>de_deltas := ds, de_delta_count := de_delta_count enc + 1, de_last_value := v\<rparr>;
     (status, enc2) \<leftarrow> (if de_delta_count enc1 = de_block_size enc1 then delta_encoder_flush_block enc1
                        else Some (CARQUET_OK, enc1));
     if status \<noteq> CARQUET_OK then Some (status, enc2) else encode_deltas vs enc2
   }"

definition write_delta_header :: "u8 list \<Rightarrow> u64 \<Rightarrow> u64 \<Rightarrow> (u8 list \<times> nat) option" where
  "write_delta_header d num_values first = do {
     (d1, pos1) \<leftarrow> write_uleb128 d 0 (of_nat DELTA_BLOCK_SIZE);
     (d2, pos2) \<leftarrow> write_uleb128 d1 pos1 (of_nat DELTA_MINI_BLOCKS);
     (d3, pos3) \<leftarrow> write_uleb128 d2 pos2 num_values;
     write_uleb128 d3 pos3 (zigzag_encode64 first)
   }"

text \<open>The status, the array and, on success, \<open>*bytes_written\<close>.\<close>

definition carquet_delta_encode_int64 ::
  "u64 list \<Rightarrow> u8 list \<Rightarrow> nat \<Rightarrow> (carquet_status + u8 list \<times> nat) option" where
  "carquet_delta_encode_int64 values d data_capacity =
     (let enc = delta_encoder_init d data_capacity in
      if data_capacity < 40 then Some (Inl CARQUET_ERROR_ENCODE)
      else (case values of
        [] \<Rightarrow> do { (d1, pos) \<leftarrow> write_delta_header d 0 0; Some (Inr (d1, pos)) }
      | v0 # vs \<Rightarrow> do {
          (d1, pos) \<leftarrow> write_delta_header d (of_nat (length values)) v0;
          (status, enc1) \<leftarrow> encode_deltas vs (enc\<lparr>de_data := d1, de_pos := pos, de_first_value := v0,
                              de_last_value := v0, de_values_written := 1\<rparr>);
          if status \<noteq> CARQUET_OK then Some (Inl status)
          else do {
            (status', enc2) \<leftarrow> delta_encoder_flush_block enc1;
            if status' \<noteq> CARQUET_OK then Some (Inl status') else Some (Inr (de_data enc2, de_pos enc2))
          }
        }))"

definition carquet_delta_encode_int32 ::
  "u32 list \<Rightarrow> u8 list \<Rightarrow> nat \<Rightarrow> (carquet_status + u8 list \<times> nat) option" where
  "carquet_delta_encode_int32 values d data_capacity =
     (let enc = delta_encoder_init d data_capacity in
      if data_capacity < 40 then Some (Inl CARQUET_ERROR_ENCODE)
      else (case values of
        [] \<Rightarrow> do { (d1, pos) \<leftarrow> write_delta_header d 0 0; Some (Inr (d1, pos)) }
      | v0 # vs \<Rightarrow> do {
          (d1, pos) \<leftarrow> write_delta_header d (of_nat (length values)) (scast v0);
          (status, enc1) \<leftarrow> encode_deltas (map scast vs) (enc\<lparr>de_data := d1, de_pos := pos, de_first_value := scast v0,
                              de_last_value := scast v0, de_values_written := 1\<rparr>);
          if status \<noteq> CARQUET_OK then Some (Inl status)
          else do {
            (status', enc2) \<leftarrow> delta_encoder_flush_block enc1;
            if status' \<noteq> CARQUET_OK then Some (Inl status') else Some (Inr (de_data enc2, de_pos enc2))
          }
        }))"

section \<open>Numbers\<close>

lemma uleb_nat: "uleb_bytes v = varint_nat (unat v)"
proof (induction v rule: uleb_bytes.induct)
  case (1 v)
  have "ucast (v OR 0x80) = (of_nat (unat v) OR 0x80 :: u8)"
    by (rule byte_eqI) (simp_all add: bit_simps)
  then show ?case using 1 by (subst uleb_bytes.simps, subst varint_nat.simps)
    (simp add: word_less_nat_alt unat_div drop_bit_eq_div flip: ucast_eq)
qed

lemma zigzag64_decode_encode [simp]: "zigzag_decode64 (zigzag_encode64 v) = v"
proof -
  have "zigzag_decode64 w = carquet_zigzag_decode64 w" for w
    unfolding zigzag_decode64_def carquet_zigzag_decode64_def by (simp only: minus_eq_not_plus_1)
  moreover have "zigzag_encode64 v = carquet_zigzag_encode64 v"
    by (simp add: zigzag_encode64_def carquet_zigzag_encode64_def)
  ultimately show ?thesis by simp
qed

lemma length_uleb: "length (uleb_bytes v) \<le> 10" "0 < length (uleb_bytes v)"
proof -
  have "unat v < 2 ^ 64" using unsigned_less [where 'a = nat, of v] by simp
  also have "(2 :: nat) ^ 64 \<le> 128 ^ 10" by simp
  finally show "length (uleb_bytes v) \<le> 10" by (simp add: uleb_nat length_varint_nat)
  show "0 < length (uleb_bytes v)" by (simp add: uleb_nat)
qed

lemma read_header_at:
  assumes "d = pre @ uleb_bytes v @ post" and "length pre + length (uleb_bytes v) \<le> n" and "n \<le> length d"
  shows "read_header_number d n (length pre) = Some (Inr (v, length pre + length (uleb_bytes v)))"
proof -
  have "decode_varint_loop 10 d n (length pre) 0 (take_bit 0 v) =
      Some (Some (v, length pre + length (varint_nat (unat v))))"
    using assms by (intro decode_varint_loop_varint_nat) (simp_all add: uleb_nat)
  moreover have "length pre + (n - length pre) = n" using assms(2) by simp
  ultimately show ?thesis using length_uleb(2) [of v]
    by (simp add: read_header_number_def read_uleb128_def uleb_nat)
qed

lemma write_uleb_at:
  assumes "length (uleb_bytes v) \<le> length rest"
  shows "write_uleb128 (out @ rest) (length out) v =
    Some (out @ uleb_bytes v @ drop (length (uleb_bytes v)) rest, length out + length (uleb_bytes v))"
  using assms by (simp add: write_uleb128_def wr_bytes_in)

section \<open>Widths\<close>

lemma width_loop_bound: "unat v < 2 ^ (width_loop v w - w) \<and> w \<le> width_loop v w \<and> (\<forall>k. unat v < 2 ^ k \<longrightarrow> width_loop v w \<le> w + k)"
proof (induction v w rule: width_loop.induct)
  case (1 v w)
  show ?case
  proof (cases "v > 0")
    case True
    have IH: "unat (drop_bit 1 v) < 2 ^ (width_loop (drop_bit 1 v) (w + 1) - (w + 1))" "w + 1 \<le> width_loop (drop_bit 1 v) (w + 1)"
      "\<forall>k. unat (drop_bit 1 v) < 2 ^ k \<longrightarrow> width_loop (drop_bit 1 v) (w + 1) \<le> w + 1 + k"
      using 1 [OF True] by auto
    have eq: "width_loop v w = width_loop (drop_bit 1 v) (w + 1)" using True by (subst width_loop.simps) simp
    have half: "unat (drop_bit 1 v) = unat v div 2" by (simp add: drop_bit_eq_div unat_div)
    obtain m where m: "width_loop v w = w + 1 + m" using IH(2) eq by (metis le_iff_add)
    have "unat v div 2 < 2 ^ m" using IH(1) half m eq by simp
    then have "unat v < 2 * 2 ^ m" by linarith
    moreover have "width_loop v w \<le> w + k" if k: "unat v < 2 ^ k" for k
    proof (cases k)
      case 0
      then show ?thesis using k True by (simp add: word_less_nat_alt)
    next
      case (Suc k')
      then have "unat v div 2 < 2 ^ k'" using k by auto
      then show ?thesis using IH(3) half eq Suc by fastforce
    qed
    ultimately show ?thesis using m by auto
  next
    case False
    then have "v = 0" by (metis word_neq_0_conv)
    moreover from this have "width_loop v w = w" by (subst width_loop.simps) simp
    ultimately show ?thesis by simp
  qed
qed

lemma bit_width_bound: "unat v < 2 ^ bit_width_required v" "bit_width_required v \<le> 64"
proof -
  have "unat v < 2 ^ 64" using unsigned_less [where 'a = nat, of v] by simp
  then show "bit_width_required v \<le> 64" "unat v < 2 ^ bit_width_required v"
    using width_loop_bound [of v 0] by (auto simp: bit_width_required_def)
qed

lemma max_adjusted_ge:
  "m \<le> max_adjusted_loop ds min_delta m" "\<forall>d \<in> set ds. d - min_delta \<le> max_adjusted_loop ds min_delta m"
proof (induction ds arbitrary: m)
  case (Cons d ds)
  {
    case 1
    then show ?case using Cons(1) [of "if d - min_delta > m then d - min_delta else m"] by (auto split: if_splits)
  next
    case 2
    then show ?case using Cons [of "if d - min_delta > m then d - min_delta else m"] by (auto split: if_splits)
  }
qed simp_all

lemma adjusted_fits:
  assumes "d \<in> set ds"
  shows "unat (d - min_delta) < 2 ^ bit_width_required (max_adjusted_loop ds min_delta 0)"
proof -
  have "d - min_delta \<le> max_adjusted_loop ds min_delta 0" using max_adjusted_ge(2) assms by blast
  then show ?thesis using bit_width_bound(1) [of "max_adjusted_loop ds min_delta 0"] by (simp add: word_le_nat_alt)
qed

section \<open>Mini-blocks\<close>

text \<open>
  \<open>mini_coded w blk xs\<close>: the bytes hold the 32 distances from the smallest difference in
  width \<open>w\<close>: nothing for width 0, the packed digits up to 32, whole bytes above.
\<close>

definition mini_coded :: "nat \<Rightarrow> u8 list \<Rightarrow> u64 list \<Rightarrow> bool" where
  "mini_coded w blk xs \<longleftrightarrow> length xs = 32 \<and> w \<le> 64 \<and> (\<forall>x \<in> set xs. unat x < 2 ^ w) \<and>
     (if w = 0 then blk = []
      else if w \<le> 32 then length blk = 4 * w \<and> le_nat blk = packed_nat w (map ucast xs)
      else blk = concat (map (wide_bytes ((w + 7) div 8)) xs))"

lemma wide_bytes_le: "wide_bytes n x = le_bytes n x"
  by (simp add: wide_bytes_def le_bytes_def mult.commute)

lemma length_wide [simp]: "length (wide_bytes n x) = n"
  by (simp add: wide_bytes_le)

lemma length_wides: "length (concat (map (wide_bytes n) xs)) = length xs * n"
  by (induction xs) simp_all

lemma length_mini: "mini_coded w blk xs \<Longrightarrow> length blk = (if w = 0 then 0 else if w \<le> 32 then 4 * w else 32 * ((w + 7) div 8))"
  by (auto simp: mini_coded_def length_wides)

lemma push_le_word:
  "val OR push_bit (8 * b) (le_word (x # xs)) = (val OR push_bit (8 * b) (ucast x)) OR push_bit (8 * Suc b) (le_word xs :: u64)"
  by (simp add: push_bit_or or.assoc add.commute)

lemma read_wide_value_eq:
  "pos + n \<le> length d \<Longrightarrow>
     read_wide_value n d pos b val = Some (val OR push_bit (8 * b) (le_word (take n (drop pos d))))"
proof (induction n arbitrary: pos b val)
  case (Suc n)
  have "take (Suc n) (drop pos d) = d ! pos # take n (drop (Suc pos) d)" using Suc.prems by (simp add: drop_eq_Cons)
  moreover have "read_wide_value (Suc n) d pos b val =
      Some ((val OR push_bit (8 * b) (ucast (d ! pos))) OR push_bit (8 * Suc b) (le_word (take n (drop (Suc pos) d))))"
    using Suc.IH [of "pos + 1" "b + 1"] Suc.prems by (simp add: mult.commute)
  ultimately show ?case by (simp only: push_le_word)
qed simp

lemma read_wide_values_eq:
  assumes "\<forall>x \<in> set xs. unat x < 2 ^ (8 * k)"
  shows "d = pre @ concat (map (wide_bytes k) xs) @ post \<Longrightarrow>
    read_wide_values (length xs) d (length pre) k m = Some (map ((+) m) xs)"
  using assms
proof (induction xs arbitrary: pre)
  case (Cons x xs)
  have "take_bit (8 * k) x = x" using Cons.prems(2) by (simp add: fits_width)
  then have "read_wide_value k d (length pre) 0 0 = Some x"
    using Cons.prems(1) by (simp add: read_wide_value_eq wide_bytes_le le_word_le_bytes)
  moreover have "read_wide_values (length xs) d (length pre + k) k m = Some (map ((+) m) xs)"
    using Cons.IH [of "pre @ wide_bytes k x"] Cons.prems by simp
  ultimately show ?case by simp
qed simp


section \<open>Decoding a block\<close>

text \<open>The decoder of a page this library writes: 4 mini-blocks of 32 values.\<close>

definition dd_ok :: "delta_decoder \<Rightarrow> bool" where
  "dd_ok dec \<longleftrightarrow> dd_block_size dec = 128 \<and> dd_mini_blocks_per_block dec = 4 \<and> length (dd_bit_widths dec) = 4 \<and>
     length (dd_mini_block_values dec) = 32 \<and> dd_size dec \<le> length (dd_data dec) \<and> dd_current_mini_block dec \<le> 4"

definition exhausted :: "delta_decoder \<Rightarrow> bool" where
  "exhausted dec \<longleftrightarrow> dd_values_in_mini_block dec \<le> dd_mini_block_pos dec"

text \<open>What reading values does not change.\<close>

definition same_page :: "delta_decoder \<Rightarrow> delta_decoder \<Rightarrow> bool" where
  "same_page a b \<longleftrightarrow> dd_data b = dd_data a \<and> dd_size b = dd_size a"

lemma buffer_read:
  "dd_mini_block_pos dec + n \<le> dd_values_in_mini_block dec \<Longrightarrow> dd_values_in_mini_block dec \<le> length (dd_mini_block_values dec) \<Longrightarrow>
     delta_values n dec = Some (Inr (take n (drop (dd_mini_block_pos dec) (dd_mini_block_values dec)),
       dec\<lparr>dd_mini_block_pos := dd_mini_block_pos dec + n, dd_values_decoded := dd_values_decoded dec + n\<rparr>))"
proof (induction n arbitrary: dec)
  case (Suc n)
  let ?d = "dec\<lparr>dd_mini_block_pos := dd_mini_block_pos dec + 1, dd_values_decoded := dd_values_decoded dec + 1\<rparr>"
  have "delta_values n ?d = Some (Inr (take n (drop (dd_mini_block_pos ?d) (dd_mini_block_values ?d)),
       ?d\<lparr>dd_mini_block_pos := dd_mini_block_pos ?d + n, dd_values_decoded := dd_values_decoded ?d + n\<rparr>))"
    using Suc.prems by (intro Suc.IH) simp_all
  then show ?case using Suc.prems by (simp add: drop_eq_Cons)
qed simp

lemma delta_values_add:
  "delta_values (m + n) dec = (case delta_values m dec of None \<Rightarrow> None | Some (Inl st) \<Rightarrow> Some (Inl st)
     | Some (Inr (vs, dec1)) \<Rightarrow> (case delta_values n dec1 of None \<Rightarrow> None | Some (Inl st) \<Rightarrow> Some (Inl st)
        | Some (Inr (ws, dec2)) \<Rightarrow> Some (Inr (vs @ ws, dec2))))"
proof (induction m arbitrary: dec)
  case 0
  then show ?case by (auto split: option.splits sum.splits)
next
  case (Suc m)
  let ?r = "if dd_mini_block_pos dec \<ge> dd_values_in_mini_block dec then delta_decoder_read_mini_block dec else Some (Inr dec)"
  show ?case
  proof (cases ?r)
    case None
    then show ?thesis by simp
  next
    case (Some x)
    show ?thesis
    proof (cases x)
      case (Inl st)
      then show ?thesis using Some by simp
    next
      case (Inr d1)
      show ?thesis
      proof (cases "rd (dd_mini_block_values d1) (dd_mini_block_pos d1)")
        case None
        then show ?thesis using Some Inr by simp
      next
        case (Some v)
        then show ?thesis using \<open>?r = Some x\<close> Inr Suc.IH by (auto split: option.splits sum.splits)
      qed
    qed
  qed
qed

lemma mini_block_read:
  assumes ok: "dd_ok dec" and cur: "dd_current_mini_block dec < 4" "unat (dd_bit_widths dec ! dd_current_mini_block dec) = w"
    and coded: "mini_coded w blk xs" and data: "dd_data dec = pre @ blk @ post" "dd_pos dec = length pre"
    and fits: "length pre + length blk \<le> dd_size dec"
  shows "delta_decoder_read_mini_block dec = Some (Inr (dec\<lparr>dd_mini_block_values := map ((+) (dd_min_delta dec)) xs,
      dd_pos := length pre + length blk, dd_current_mini_block := dd_current_mini_block dec + 1, dd_mini_block_pos := 0,
      dd_values_in_mini_block := 32\<rparr>))"
proof -
  have xs: "length xs = 32" "w \<le> 64" "\<forall>x \<in> set xs. unat x < 2 ^ w" using coded by (auto simp: mini_coded_def)
  let ?m = "dd_min_delta dec"
  have buf: "wr_bytes (dd_mini_block_values dec) 0 (map ((+) ?m) xs) = Some (map ((+) ?m) xs)"
    using ok xs(1) by (subst wr_bytes_in) (simp_all add: dd_ok_def)
  have r2: "(if w = 0 then Some (Inr (replicate 32 ?m, dd_pos dec))
      else if w \<le> 32 then
        (let packed_size = (32 * w + 7) div 8 in
         if dd_pos dec + packed_size > dd_size dec then Some (Inl CARQUET_ERROR_DECODE)
         else do {
           (unpacked, _) \<leftarrow> carquet_bitunpack_32 scalar_dispatch (dd_data dec) (dd_pos dec) 32 w;
           Some (Inr (map (\<lambda>u. ?m + ucast u) unpacked, dd_pos dec + packed_size))
         })
      else if w \<le> 64 then
        (let bytes_per_value = (w + 7) div 8; packed_size = 32 * bytes_per_value in
         if dd_pos dec + packed_size > dd_size dec then Some (Inl CARQUET_ERROR_DECODE)
         else do {
           vs \<leftarrow> read_wide_values 32 (dd_data dec) (dd_pos dec) bytes_per_value ?m;
           Some (Inr (vs, dd_pos dec + packed_size))
         })
      else Some (Inl CARQUET_ERROR_DECODE)) = Some (Inr (map ((+) ?m) xs, length pre + length blk))"
  proof -
    consider "w = 0" | "0 < w" "w \<le> 32" | "32 < w" by linarith
    then show ?thesis
    proof cases
      case 1
      then have "\<forall>x \<in> set xs. x = 0" using xs(3) by (auto simp: unat_eq_0)
      then have "map ((+) ?m) xs = replicate 32 ?m" using xs(1) by (intro nth_equalityI) simp_all
      then show ?thesis using 1 coded data(2) by (simp add: mini_coded_def)
    next
      case 2
      have blk: "length blk = 4 * w" "le_nat blk = packed_nat w (map ucast xs)" using 2 coded by (auto simp: mini_coded_def)
      have "carquet_bitunpack_32 scalar_dispatch (dd_data dec) (dd_pos dec) 32 w =
          Some (unpack_digits w (le_nat (drop (dd_pos dec) (dd_data dec))) 32, (32 * w + 7) div 8)"
        using 2 blk(1) data by (intro portable.bitunpack_digits) simp_all
      moreover have "unpack_digits w (le_nat (drop (dd_pos dec) (dd_data dec))) 32 = unpack_digits w (le_nat blk) 32"
        using unpack_digits_take [of 32 w "length blk" "blk @ post"] blk(1) data by simp
      moreover have "unpack_digits w (le_nat blk) 32 = map (take_bit w) (map ucast xs)"
        using unpack_packed [of w "map ucast xs"] 2 xs(1) blk(2) by simp
      moreover have "map (\<lambda>u. ?m + ucast u) (map (take_bit w) (map ucast xs :: u32 list)) = map ((+) ?m) xs"
      proof -
        have "ucast (take_bit w (ucast x :: u32)) = x" if "x \<in> set xs" for x
        proof -
          have "take_bit w x = x" using xs(3) that by (intro fits_width) blast
          then have b: "bit x n \<Longrightarrow> n < w" for n by (metis bit_take_bit_iff)
          show ?thesis by (rule bit_word_eqI) (use b 2 in \<open>force simp: bit_simps\<close>)
        qed
        then show ?thesis by simp
      qed
      moreover have "(32 * w + 7) div 8 = length blk" using blk(1) by simp
      ultimately show ?thesis using 2 fits data(2) by (simp add: Let_def)
    next
      case 3
      let ?k = "(w + 7) div 8"
      have blk: "blk = concat (map (wide_bytes ?k) xs)" using 3 coded by (auto simp: mini_coded_def)
      have "(2 :: nat) ^ w \<le> 2 ^ (8 * ?k)" by (intro power_increasing) simp_all
      then have "\<forall>x \<in> set xs. unat x < 2 ^ (8 * ?k)" using xs(3) less_le_trans by blast
      then have "read_wide_values 32 (dd_data dec) (dd_pos dec) ?k ?m = Some (map ((+) ?m) xs)"
        using read_wide_values_eq [of xs ?k "dd_data dec" pre post ?m] data blk xs(1) by simp
      moreover have "length blk = 32 * ?k" by (simp only: blk length_wides xs(1))
      ultimately show ?thesis using 3 xs(2) fits data(2) by (simp add: Let_def)
    qed
  qed
  have ms: "dd_block_size dec div dd_mini_blocks_per_block dec = 32" and nc: "(dd_mini_blocks_per_block dec \<le> dd_current_mini_block dec) = False"
    and rdw: "rd (dd_bit_widths dec) (dd_current_mini_block dec) = Some (dd_bit_widths dec ! dd_current_mini_block dec)"
    using ok cur(1) by (simp_all add: dd_ok_def)
  show ?thesis
    by (simp only: delta_decoder_read_mini_block_def nc if_False Option.bind.simps sum.case rdw Let_def cur(2) ms
        r2 [unfolded Let_def] prod.case buf)
qed

text \<open>Reading up to 32 values from an exhausted buffer with a mini-block ahead.\<close>

lemma mini_block_values:
  assumes ok: "dd_ok dec" "exhausted dec" and cur: "dd_current_mini_block dec < 4" "unat (dd_bit_widths dec ! dd_current_mini_block dec) = w"
    and coded: "mini_coded w blk xs" and data: "dd_data dec = pre @ blk @ post" "dd_pos dec = length pre"
    and fits: "length pre + length blk \<le> dd_size dec" and n: "0 < n" "n \<le> 32"
  obtains dec' where "delta_values n dec = Some (Inr (take n (map ((+) (dd_min_delta dec)) xs), dec'))" "dd_ok dec'" "same_page dec dec'"
    "dd_pos dec' = length pre + length blk" "dd_current_mini_block dec' = dd_current_mini_block dec + 1"
    "dd_bit_widths dec' = dd_bit_widths dec" "dd_min_delta dec' = dd_min_delta dec" "n = 32 \<longrightarrow> exhausted dec'"
proof -
  let ?d1 = "dec\<lparr>dd_mini_block_values := map ((+) (dd_min_delta dec)) xs,
      dd_pos := length pre + length blk, dd_current_mini_block := dd_current_mini_block dec + 1, dd_mini_block_pos := 0,
      dd_values_in_mini_block := 32\<rparr>"
  have xs: "length xs = 32" using coded by (simp add: mini_coded_def)
  have r: "delta_decoder_read_mini_block dec = Some (Inr ?d1)"
    by (rule mini_block_read [OF ok(1) cur coded data fits])
  have "delta_values n ?d1 = Some (Inr (take n (map ((+) (dd_min_delta dec)) xs),
      ?d1\<lparr>dd_mini_block_pos := n, dd_values_decoded := dd_values_decoded dec + n\<rparr>))"
    using buffer_read [of ?d1 n] xs n by simp
  moreover have "delta_values n dec = delta_values n ?d1"
  proof -
    obtain k where "n = Suc k" using n(1) by (cases n) auto
    then show ?thesis using r ok(2) by (simp add: exhausted_def)
  qed
  ultimately have "delta_values n dec = Some (Inr (take n (map ((+) (dd_min_delta dec)) xs),
      ?d1\<lparr>dd_mini_block_pos := n, dd_values_decoded := dd_values_decoded dec + n\<rparr>))" by simp
  from that [OF this] show thesis using ok(1) cur(1) xs by (simp add: dd_ok_def same_page_def exhausted_def)
qed

text \<open>The mini-blocks still ahead in the block, as widths, bytes and distances.\<close>

fun mini_blks :: "(nat \<times> u8 list \<times> u64 list) list \<Rightarrow> u8 list" where
  "mini_blks [] = []"
| "mini_blks ((w, blk, xs) # ms) = blk @ mini_blks ms"

fun mini_xs :: "(nat \<times> u8 list \<times> u64 list) list \<Rightarrow> u64 list" where
  "mini_xs [] = []"
| "mini_xs ((w, blk, xs) # ms) = xs @ mini_xs ms"

lemma minis_values:
  assumes "\<forall>(w, blk, xs) \<in> set ms. mini_coded w blk xs"
  shows "dd_ok dec \<Longrightarrow> exhausted dec \<Longrightarrow> dd_current_mini_block dec + length ms = 4 \<Longrightarrow>
    drop (dd_current_mini_block dec) (map unat (dd_bit_widths dec)) = map fst ms \<Longrightarrow>
    dd_data dec = pre @ mini_blks ms @ post \<Longrightarrow> dd_pos dec = length pre \<Longrightarrow>
    length pre + length (mini_blks ms) \<le> dd_size dec \<Longrightarrow> n \<le> 32 * length ms \<Longrightarrow>
    \<exists>dec'. delta_values n dec = Some (Inr (take n (map ((+) (dd_min_delta dec)) (mini_xs ms)), dec')) \<and>
      dd_ok dec' \<and> same_page dec dec' \<and>
      dd_pos dec' = length pre + length (mini_blks (take ((n + 31) div 32) ms)) \<and>
      (n = 32 * length ms \<longrightarrow> exhausted dec' \<and> dd_current_mini_block dec' = 4)"
  using assms
proof (induction ms arbitrary: dec pre n)
  case Nil
  then show ?case by (auto simp: same_page_def)
next
  case (Cons m ms)
  obtain w blk xs where m: "m = (w, blk, xs)" by (cases m)
  have coded: "mini_coded w blk xs" and xs: "length xs = 32" using Cons.prems(9) m by (auto simp: mini_coded_def)
  have cur: "dd_current_mini_block dec < 4" using Cons.prems(3) by simp
  have bw: "dd_current_mini_block dec < length (dd_bit_widths dec)" using cur Cons.prems(1) by (simp add: dd_ok_def)
  then have w: "unat (dd_bit_widths dec ! dd_current_mini_block dec) = w"
    and ws: "drop (Suc (dd_current_mini_block dec)) (map unat (dd_bit_widths dec)) = map fst ms"
    using Cons.prems(4) m by (simp_all add: drop_eq_Cons)
  have data: "dd_data dec = pre @ blk @ (mini_blks ms @ post)" using Cons.prems(5) m by simp
  have fits: "length pre + length blk \<le> dd_size dec" using Cons.prems(7) m by simp
  show ?case
  proof (cases "n = 0")
    case True
    then show ?thesis using Cons.prems(1,6) by (simp add: same_page_def)
  next
    case False
    define k where "k = min n 32"
    have k: "0 < k" "k \<le> 32" using False by (simp_all add: k_def)
    obtain d1 where d1: "delta_values k dec = Some (Inr (take k (map ((+) (dd_min_delta dec)) xs), d1))" "dd_ok d1" "same_page dec d1"
      "dd_pos d1 = length pre + length blk" "dd_current_mini_block d1 = dd_current_mini_block dec + 1"
      "dd_bit_widths d1 = dd_bit_widths dec" "dd_min_delta d1 = dd_min_delta dec" "k = 32 \<longrightarrow> exhausted d1"
      by (rule mini_block_values [OF Cons.prems(1,2) cur w coded data Cons.prems(6) fits k])
    show ?thesis
    proof (cases "n < 32")
      case True
      then have "k = n" "(n + 31) div 32 = 1" using False by (simp_all add: k_def)
      then show ?thesis using d1 True m xs by (simp add: take_map)
    next
      case ge: False
      then have k32: "k = 32" by (simp add: k_def)
      have "\<exists>d2. delta_values (n - 32) d1 = Some (Inr (take (n - 32) (map ((+) (dd_min_delta d1)) (mini_xs ms)), d2)) \<and>
        dd_ok d2 \<and> same_page d1 d2 \<and>
        dd_pos d2 = length (pre @ blk) + length (mini_blks (take ((n - 32 + 31) div 32) ms)) \<and>
        (n - 32 = 32 * length ms \<longrightarrow> exhausted d2 \<and> dd_current_mini_block d2 = 4)"
        using d1 k32 Cons.prems data m ws by (intro Cons.IH) (simp_all add: same_page_def)
      then obtain d2 where d2: "delta_values (n - 32) d1 = Some (Inr (take (n - 32) (map ((+) (dd_min_delta d1)) (mini_xs ms)), d2))"
        "dd_ok d2" "same_page d1 d2"
        "dd_pos d2 = length (pre @ blk) + length (mini_blks (take ((n - 32 + 31) div 32) ms))"
        "n - 32 = 32 * length ms \<longrightarrow> exhausted d2 \<and> dd_current_mini_block d2 = 4" by blast
      have "n = 32 + (n - 32)" "(n + 31) div 32 = Suc ((n - 32 + 31) div 32)" using ge by linarith+
      then show ?thesis
        using d1 d2 k32 m xs delta_values_add [of 32 "n - 32" dec] by (auto simp: same_page_def)
    qed
  qed
qed

text \<open>\<open>block_coded B ds\<close>: the bytes of a block that decodes to the differences.\<close>

definition block_coded :: "u8 list \<Rightarrow> u64 list \<Rightarrow> bool" where
  "block_coded B ds \<longleftrightarrow> 0 < length ds \<and> length ds \<le> 128 \<and>
     (\<exists>m ms. length ms = 4 \<and> (\<forall>(w, blk, xs) \<in> set ms. mini_coded w blk xs) \<and>
        B = uleb_bytes (zigzag_encode64 m) @ map (\<lambda>x. of_nat (fst x)) ms @ mini_blks ms \<and>
        ds = take (length ds) (map ((+) m) (mini_xs ms)) \<and>
        mini_blks (take ((length ds + 31) div 32) ms) = mini_blks ms)"

lemma length_mini_xs: "\<forall>(w, blk, xs) \<in> set ms. mini_coded w blk xs \<Longrightarrow> length (mini_xs ms) = 32 * length ms"
  by (induction ms rule: mini_xs.induct) (auto simp: mini_coded_def)

lemma block_values:
  assumes B: "block_coded B ds" and ok: "dd_ok dec" "exhausted dec" "dd_current_mini_block dec = 4"
    and data: "dd_data dec = pre @ B @ post" "dd_pos dec = length pre"
    and fits: "length pre + length B \<le> dd_size dec" and n: "n \<le> length ds" "0 < n"
  shows "\<exists>dec'. delta_values n dec = Some (Inr (take n ds, dec')) \<and> dd_ok dec' \<and> same_page dec dec' \<and>
    (n = length ds \<longrightarrow> dd_pos dec' = length pre + length B) \<and>
    (n = 128 \<longrightarrow> exhausted dec' \<and> dd_current_mini_block dec' = 4)"
proof -
  obtain m ms where ms: "length ms = 4" "\<forall>(w, blk, xs) \<in> set ms. mini_coded w blk xs"
    "B = uleb_bytes (zigzag_encode64 m) @ map (\<lambda>x. of_nat (fst x)) ms @ mini_blks ms"
    "ds = take (length ds) (map ((+) m) (mini_xs ms))" "mini_blks (take ((length ds + 31) div 32) ms) = mini_blks ms"
    and len: "length ds \<le> 128"
    using B by (auto simp: block_coded_def)
  let ?u = "uleb_bytes (zigzag_encode64 m)"
  let ?ws = "map (\<lambda>x. of_nat (fst x)) ms :: u8 list"
  let ?d = "dec\<lparr>dd_min_delta := m, dd_bit_widths := ?ws, dd_pos := length pre + length ?u + 4, dd_current_mini_block := 0\<rparr>"
  have size: "dd_size dec \<le> length (dd_data dec)" "dd_mini_blocks_per_block dec = 4" "length (dd_bit_widths dec) = 4"
    using ok(1) by (simp_all add: dd_ok_def)
  have h: "read_header_number (dd_data dec) (dd_size dec) (length pre) = Some (Inr (zigzag_encode64 m, length pre + length ?u))"
    using fits size ms(3) data(1) by (intro read_header_at [of _ _ _ "?ws @ mini_blks ms @ post"]) auto
  have "delta_decoder_read_block dec = Some (Inr ?d)"
  proof -
    have "\<not> dd_size dec \<le> length pre" using fits ms(1,3) by auto
    moreover have "rd_bytes (dd_data dec) (length pre + length ?u) 4 = Some ?ws"
      using data(1) ms(1,3) by (simp add: rd_bytes_in)
    moreover have "wr_bytes (dd_bit_widths dec) 0 ?ws = Some ?ws" using size(3) ms(1) by (simp add: wr_bytes_in)
    moreover have "length pre + length ?u + 4 \<le> dd_size dec" using fits ms(1,3) by simp
    ultimately show ?thesis using h size data(2) by (simp add: delta_decoder_read_block_def)
  qed
  then have "delta_decoder_read_mini_block dec = delta_decoder_read_mini_block ?d"
    using ok(3) size(2) by (simp add: delta_decoder_read_mini_block_def)
  moreover have ex: "exhausted ?d" using ok(2) by (simp add: exhausted_def)
  ultimately have eq: "delta_values n dec = delta_values n ?d"
    using n(2) ok(2) by (cases n) (simp_all add: exhausted_def)
  have widths: "map unat ?ws = map fst ms"
  proof (rule nth_equalityI)
    fix i assume i: "i < length (map unat ?ws)"
    have "mini_coded (fst (ms ! i)) (fst (snd (ms ! i))) (snd (snd (ms ! i)))"
      using ms(2) i nth_mem [of i ms] by (auto simp: case_prod_beta simp del: nth_mem)
    then have "fst (ms ! i) \<le> 64" by (simp add: mini_coded_def)
    then have "unat (of_nat (fst (ms ! i)) :: u8) = fst (ms ! i)" by (simp add: unat_of_nat)
    then show "map unat ?ws ! i = map fst ms ! i" using i by simp
  qed simp
  have tk: "take n (map ((+) m) (mini_xs ms)) = take n ds"
    using arg_cong [OF ms(4), of "take n"] n(1) by (simp add: min_absorb1)
  have "\<exists>dec'. delta_values n ?d = Some (Inr (take n (map ((+) (dd_min_delta ?d)) (mini_xs ms)), dec')) \<and>
      dd_ok dec' \<and> same_page ?d dec' \<and>
      dd_pos dec' = length (pre @ ?u @ ?ws) + length (mini_blks (take ((n + 31) div 32) ms)) \<and>
      (n = 32 * length ms \<longrightarrow> exhausted dec' \<and> dd_current_mini_block dec' = 4)"
    using ok size ms(1,3) ex widths data fits n len
    by (intro minis_values [OF ms(2)]) (simp_all add: dd_ok_def)
  then obtain dec' where d': "delta_values n ?d = Some (Inr (take n ds, dec'))" "dd_ok dec'" "same_page dec dec'"
      "dd_pos dec' = length (pre @ ?u @ ?ws) + length (mini_blks (take ((n + 31) div 32) ms))"
      "n = 128 \<longrightarrow> exhausted dec' \<and> dd_current_mini_block dec' = 4"
    using tk ms(1) by (auto simp: same_page_def)
  have "dd_pos dec' = length pre + length B" if "n = length ds"
  proof -
    have "mini_blks (take ((n + 31) div 32) ms) = mini_blks ms" using that ms(5) by simp
    then show ?thesis using d'(4) by (simp add: ms(3))
  qed
  then show ?thesis using eq d' by (intro exI [of _ dec']) simp
qed

text \<open>\<open>page_coded bytes ds\<close>: wherever the bytes stand, the decoder reads the differences from them.\<close>

definition page_coded :: "u8 list \<Rightarrow> u64 list \<Rightarrow> bool" where
  "page_coded bytes ds \<longleftrightarrow>
     (\<forall>pre post dec n. dd_ok dec \<longrightarrow> exhausted dec \<longrightarrow> dd_current_mini_block dec = 4 \<longrightarrow>
        dd_data dec = pre @ bytes @ post \<longrightarrow> dd_pos dec = length pre \<longrightarrow> length pre + length bytes \<le> dd_size dec \<longrightarrow>
        n \<le> length ds \<longrightarrow>
        (\<exists>dec'. delta_values n dec = Some (Inr (take n ds, dec')) \<and> dd_ok dec' \<and> same_page dec dec' \<and>
           (n = length ds \<longrightarrow> dd_pos dec' = length pre + length bytes \<and>
              (128 dvd length ds \<longrightarrow> exhausted dec' \<and> dd_current_mini_block dec' = 4))))"

lemma page_coded_Nil: "page_coded [] []"
  by (auto simp: page_coded_def same_page_def)

lemma page_coded_block:
  assumes P: "page_coded bytes ds" "128 dvd length ds" and B: "block_coded B es"
  shows "page_coded (bytes @ B) (ds @ es)"
  unfolding page_coded_def
proof (intro allI impI)
  fix pre post dec n
  assume ok: "dd_ok dec" "exhausted dec" "dd_current_mini_block dec = 4" and data: "dd_data dec = pre @ (bytes @ B) @ post"
    and pos: "dd_pos dec = length pre" and fits: "length pre + length (bytes @ B) \<le> dd_size dec" and n: "n \<le> length (ds @ es)"
  have es: "0 < length es" "length es \<le> 128" using B by (auto simp: block_coded_def)
  have P': "\<exists>d1. delta_values k dec = Some (Inr (take k ds, d1)) \<and> dd_ok d1 \<and> same_page dec d1 \<and>
      (k = length ds \<longrightarrow> dd_pos d1 = length pre + length bytes \<and>
        (128 dvd length ds \<longrightarrow> exhausted d1 \<and> dd_current_mini_block d1 = 4))" if "k \<le> length ds" for k
    using P(1) [unfolded page_coded_def, rule_format, of dec pre "B @ post" k] ok data pos fits that by simp
  show "\<exists>dec'. delta_values n dec = Some (Inr (take n (ds @ es), dec')) \<and> dd_ok dec' \<and> same_page dec dec' \<and>
      (n = length (ds @ es) \<longrightarrow> dd_pos dec' = length pre + length (bytes @ B) \<and>
        (128 dvd length (ds @ es) \<longrightarrow> exhausted dec' \<and> dd_current_mini_block dec' = 4))"
  proof (cases "n \<le> length ds")
    case True
    then show ?thesis using P' [OF True] es by auto
  next
    case False
    obtain d1 where d1: "delta_values (length ds) dec = Some (Inr (ds, d1))" "dd_ok d1" "same_page dec d1"
      "dd_pos d1 = length pre + length bytes" "exhausted d1" "dd_current_mini_block d1 = 4"
      using P' [OF order_refl] P(2) by auto
    define k where "k = n - length ds"
    have k: "k \<le> length es" "0 < k" "n = length ds + k" using False n by (simp_all add: k_def)
    have "\<exists>d2. delta_values k d1 = Some (Inr (take k es, d2)) \<and> dd_ok d2 \<and> same_page d1 d2 \<and>
      (k = length es \<longrightarrow> dd_pos d2 = length (pre @ bytes) + length B) \<and>
      (k = 128 \<longrightarrow> exhausted d2 \<and> dd_current_mini_block d2 = 4)"
      using d1 data fits k by (intro block_values [OF B, of _ _ post]) (simp_all add: same_page_def)
    then obtain d2 where d2: "delta_values k d1 = Some (Inr (take k es, d2))" "dd_ok d2" "same_page d1 d2"
      "k = length es \<longrightarrow> dd_pos d2 = length (pre @ bytes) + length B" "k = 128 \<longrightarrow> exhausted d2 \<and> dd_current_mini_block d2 = 4"
      by blast
    have "128 dvd length (ds @ es) \<longrightarrow> length es = 128"
      using P(2) es by (auto simp: dvd_add_right_iff dest: dvd_imp_le)
    then show ?thesis using d1 d2 k delta_values_add [of "length ds" k dec] by (auto simp: same_page_def)
  qed
qed

section \<open>Encoding a block\<close>

text \<open>The encoder of a page, with \<open>out\<close> written and \<open>rest\<close> still free in the array.\<close>

definition de_ok :: "delta_encoder \<Rightarrow> u8 list \<Rightarrow> u8 list \<Rightarrow> bool" where
  "de_ok enc out rest \<longleftrightarrow> de_block_size enc = 128 \<and> de_mini_blocks_per_block enc = 4 \<and> length (de_deltas enc) = 128 \<and>
     de_delta_count enc \<le> 128 \<and> de_data enc = out @ rest \<and> de_pos enc = length out \<and> de_capacity enc = length (out @ rest)"

abbreviation pending :: "delta_encoder \<Rightarrow> u64 list" where
  "pending enc \<equiv> take (de_delta_count enc) (de_deltas enc)"

definition chunk :: "u64 list \<Rightarrow> nat \<Rightarrow> u64 list" where
  "chunk ds mb = take 32 (drop (32 * mb) ds)"

definition chunk_width :: "u64 list \<Rightarrow> u64 \<Rightarrow> nat \<Rightarrow> nat" where
  "chunk_width ds m mb = bit_width_required (max_adjusted_loop (chunk ds mb) m 0)"

definition chunk_need :: "nat \<Rightarrow> nat" where
  "chunk_need w = (if w > 0 then if w \<le> 32 then 32 * w div 8 else 32 * ((w + 7) div 8) else 0)"

definition padded :: "u64 list \<Rightarrow> u64 \<Rightarrow> nat \<Rightarrow> u64 list" where
  "padded ds m mb = map (\<lambda>d. d - m) (chunk ds mb) @ replicate (32 - length (chunk ds mb)) 0"

lemma chunk_need_le: "w \<le> 64 \<Longrightarrow> chunk_need w \<le> 256"
  by (auto simp: chunk_need_def)

lemma mini_block_deltas_eq:
  assumes "de_ok enc out rest" and "mb < 4"
  shows "mini_block_deltas enc mb = Some (chunk (pending enc) mb)"
proof -
  let ?c = "de_delta_count enc"
  have c: "?c \<le> length (de_deltas enc)" and s: "de_block_size enc div de_mini_blocks_per_block enc = 32"
    using assms(1) by (simp_all add: de_ok_def)
  show ?thesis
  proof (cases "mb * 32 < min (mb * 32 + 32) ?c")
    case True
    then have "rd_bytes (de_deltas enc) (mb * 32) (min (mb * 32 + 32) ?c - mb * 32) =
        Some (take (min (mb * 32 + 32) ?c - mb * 32) (drop (mb * 32) (de_deltas enc)))"
      using c by (intro rd_bytes_in) simp
    moreover have "chunk (pending enc) mb = take (min (mb * 32 + 32) ?c - mb * 32) (drop (mb * 32) (de_deltas enc))"
      by (simp add: chunk_def drop_take mult.commute min_def)
    ultimately show ?thesis using True unfolding mini_block_deltas_def Let_def s by simp
  next
    case False
    then have "?c \<le> mb * 32" by auto
    then have "chunk (pending enc) mb = []" by (simp add: chunk_def)
    then show ?thesis using False unfolding mini_block_deltas_def Let_def s by simp
  qed
qed

lemma length_chunk: "length (chunk ds mb) \<le> 32"
  by (simp add: chunk_def)

lemma mini_block_widths_eq:
  "de_ok enc out rest \<Longrightarrow> mb + n \<le> 4 \<Longrightarrow>
     mini_block_widths n enc mb m = Some (map (chunk_width (pending enc) m) [mb..<mb + n],
       sum_list (map (\<lambda>i. chunk_need (chunk_width (pending enc) m i)) [mb..<mb + n]))"
proof (induction n arbitrary: mb)
  case (Suc n)
  have "de_block_size enc div de_mini_blocks_per_block enc = 32" using Suc.prems(1) by (simp add: de_ok_def)
  then show ?case using Suc mini_block_deltas_eq [OF Suc.prems(1), of mb]
    by (simp add: Let_def upt_conv_Cons chunk_width_def chunk_need_def del: upt_Suc)
qed simp

lemma padded_fits: "x \<in> set (padded ds m mb) \<Longrightarrow> unat x < 2 ^ chunk_width ds m mb"
  using adjusted_fits [of _ "chunk ds mb" m] by (auto simp: padded_def chunk_width_def)

lemma length_padded: "length (padded ds m mb) = 32"
  using length_chunk [of ds mb] by (simp add: padded_def)

lemma write_mini_block_ok:
  assumes ok: "de_ok enc out rest" and "mb < 4" and room: "chunk_need (chunk_width (pending enc) m mb) \<le> length rest"
  obtains blk where "write_mini_block enc mb m (chunk_width (pending enc) m mb) =
      Some (enc\<lparr>de_data := out @ blk @ drop (length blk) rest, de_pos := length out + length blk\<rparr>)"
    "mini_coded (chunk_width (pending enc) m mb) blk (padded (pending enc) m mb)"
    "length blk = chunk_need (chunk_width (pending enc) m mb)"
proof -
  let ?ds = "pending enc" let ?w = "chunk_width ?ds m mb" let ?xs = "padded ?ds m mb"
  have del: "mini_block_deltas enc mb = Some (chunk ?ds mb)" by (rule mini_block_deltas_eq [OF ok assms(2)])
  have s: "de_block_size enc div de_mini_blocks_per_block enc = 32" "de_data enc = out @ rest" "de_pos enc = length out"
    using ok by (simp_all add: de_ok_def)
  have w64: "?w \<le> 64" by (simp add: chunk_width_def bit_width_bound)
  have xs: "length ?xs = 32" "\<forall>x \<in> set ?xs. unat x < 2 ^ ?w" using length_padded padded_fits by auto
  consider "?w = 0" | "0 < ?w" "?w \<le> 32" | "32 < ?w" by linarith
  then show thesis
  proof cases
    case 1
    then have "write_mini_block enc mb m ?w = Some enc" by (simp add: write_mini_block_def del)
    then show thesis using that [of "[]"] 1 xs s by (simp add: mini_coded_def chunk_need_def)
  next
    case 2
    let ?tp = "map (\<lambda>d. ucast (d - m)) (chunk ?ds mb) @ replicate (32 - length (chunk ?ds mb)) 0 :: u32 list"
    have tp: "?tp = map ucast ?xs" by (simp add: padded_def)
    have n: "4 * ?w \<le> length rest" using 2 room by (simp add: chunk_need_def)
    obtain blk where blk: "carquet_bitpack_32 ?tp 32 ?w (out @ take (4 * ?w) rest @ drop (4 * ?w) rest) (length out) =
        Some ((32 * ?w + 7) div 8, out @ blk @ drop (4 * ?w) rest)" "length blk = 4 * ?w" "le_nat blk = packed_nat ?w ?tp"
      using bitpack_correct [of ?w 32 ?tp "take (4 * ?w) rest" out "drop (4 * ?w) rest"] 2 n xs(1) by (auto simp: tp)
    have "(32 * ?w + 7) div 8 = 4 * ?w" by simp
    then have "write_mini_block enc mb m ?w =
        Some (enc\<lparr>de_data := out @ blk @ drop (length blk) rest, de_pos := length out + length blk\<rparr>)"
      using 2 blk(1,2) s by (simp add: write_mini_block_def del Let_def)
    moreover have "mini_coded ?w blk ?xs" using 2 w64 xs blk(2,3) by (simp add: mini_coded_def tp)
    ultimately show thesis using that blk(2) 2 by (simp add: chunk_need_def)
  next
    case 3
    let ?k = "(?w + 7) div 8"
    let ?blk = "concat (map (\<lambda>d. wide_bytes ?k (d - m)) (chunk ?ds mb)) @ replicate ((32 - length (chunk ?ds mb)) * ?k) 0"
    have zero: "wide_bytes ?k 0 = replicate ?k 0" by (simp add: wide_bytes_def map_replicate_const)
    have "concat (map (wide_bytes ?k) (replicate n 0)) = replicate (n * ?k) 0" for n
      by (induction n) (simp_all add: zero replicate_add)
    then have blk: "?blk = concat (map (wide_bytes ?k) ?xs)" by (simp add: padded_def comp_def)
    then have len: "length ?blk = 32 * ?k" by (simp only: length_wides xs(1))
    then have "length ?blk \<le> length rest" using 3 room by (simp add: chunk_need_def)
    then have "wr_bytes (out @ rest) (length out) ?blk = Some (out @ ?blk @ drop (length ?blk) rest)"
      by (subst wr_bytes_in) simp_all
    then have "write_mini_block enc mb m ?w =
        Some (enc\<lparr>de_data := out @ ?blk @ drop (length ?blk) rest, de_pos := length out + length ?blk\<rparr>)"
      using 3 s unfolding write_mini_block_def del Option.bind.simps Let_def by (simp del: append_assoc length_append)
    then show thesis using 3 w64 xs blk len by (intro that [of ?blk]) (simp_all add: mini_coded_def chunk_need_def)
  qed
qed

lemma write_mini_blocks_ok:
  "de_ok enc out rest \<Longrightarrow> mb + n \<le> 4 \<Longrightarrow>
   sum_list (map (\<lambda>i. chunk_need (chunk_width (pending enc) m i)) [mb..<mb + n]) \<le> length rest \<Longrightarrow>
   \<exists>ms. write_mini_blocks (map (chunk_width (pending enc) m) [mb..<mb + n]) enc mb m =
       Some (enc\<lparr>de_data := out @ mini_blks ms @ drop (length (mini_blks ms)) rest, de_pos := length out + length (mini_blks ms)\<rparr>) \<and>
     map fst ms = map (chunk_width (pending enc) m) [mb..<mb + n] \<and> (\<forall>(w, blk, xs) \<in> set ms. mini_coded w blk xs) \<and>
     mini_xs ms = concat (map (padded (pending enc) m) [mb..<mb + n])"
proof (induction n arbitrary: enc out rest mb)
  case 0
  then show ?case by (intro exI [of _ "[]"]) (simp add: de_ok_def)
next
  case (Suc n)
  let ?w = "chunk_width (pending enc) m mb"
  have up: "[mb..<mb + Suc n] = mb # [Suc mb..<Suc mb + n]" by (simp add: upt_conv_Cons)
  have "chunk_need ?w + sum_list (map (\<lambda>i. chunk_need (chunk_width (pending enc) m i)) [Suc mb..<Suc mb + n]) \<le> length rest"
    using Suc.prems(3) unfolding up by simp
  then have room: "chunk_need ?w \<le> length rest" "mb < 4"
    "sum_list (map (\<lambda>i. chunk_need (chunk_width (pending enc) m i)) [Suc mb..<Suc mb + n]) \<le> length rest - chunk_need ?w"
    using Suc.prems(2) by linarith+
  obtain blk where blk: "write_mini_block enc mb m ?w =
      Some (enc\<lparr>de_data := out @ blk @ drop (length blk) rest, de_pos := length out + length blk\<rparr>)"
    "mini_coded ?w blk (padded (pending enc) m mb)" "length blk = chunk_need ?w"
    by (rule write_mini_block_ok [OF Suc.prems(1) room(2,1)])
  let ?e = "enc\<lparr>de_data := out @ blk @ drop (length blk) rest, de_pos := length out + length blk\<rparr>"
  have "de_ok ?e (out @ blk) (drop (length blk) rest)" using Suc.prems(1) room(1) blk(3) by (simp add: de_ok_def)
  moreover have "sum_list (map (\<lambda>i. chunk_need (chunk_width (pending ?e) m i)) [Suc mb..<Suc mb + n]) \<le> length (drop (length blk) rest)"
    using room(3) blk(3) by simp
  ultimately obtain ms where ms: "write_mini_blocks (map (chunk_width (pending ?e) m) [Suc mb..<Suc mb + n]) ?e (Suc mb) m =
       Some (?e\<lparr>de_data := (out @ blk) @ mini_blks ms @ drop (length (mini_blks ms)) (drop (length blk) rest),
         de_pos := length (out @ blk) + length (mini_blks ms)\<rparr>)"
     "map fst ms = map (chunk_width (pending ?e) m) [Suc mb..<Suc mb + n]" "\<forall>(w, blk, xs) \<in> set ms. mini_coded w blk xs"
     "mini_xs ms = concat (map (padded (pending ?e) m) [Suc mb..<Suc mb + n])"
    using Suc.IH [of ?e "out @ blk" "drop (length blk) rest" "Suc mb"] Suc.prems(2) by auto
  show ?case
    unfolding up
    by (rule exI [of _ "(?w, blk, padded (pending enc) m mb) # ms"])
      (use ms blk in \<open>simp add: add.commute add.assoc\<close>)
qed

lemma concat_chunks: "length ds \<le> 128 \<Longrightarrow> concat (map (chunk ds) [0..<4]) = ds"
proof -
  assume "length ds \<le> 128"
  have "concat (map (chunk ds) [0..<4]) = take 32 ds @ take 32 (drop 32 ds) @ take 32 (drop 64 ds) @ take 32 (drop 96 ds)"
    by (simp add: upt_expand chunk_def)
  also have "\<dots> = take (32 + (32 + (32 + 32))) ds" by (simp only: take_add drop_drop) (simp add: take_add drop_drop)
  finally show ?thesis using \<open>length ds \<le> 128\<close> by simp
qed

text \<open>The distances, padded, start with those of the differences.\<close>

lemma take_padded:
  assumes "length ds \<le> 128"
  shows "take (length ds) (concat (map (padded ds m) [0..<4])) = map (\<lambda>d. d - m) ds"
proof (rule nth_equalityI)
  let ?P = "concat (map (padded ds m) [0..<4])"
  have P: "?P = padded ds m 0 @ padded ds m 1 @ padded ds m 2 @ padded ds m 3" by (simp add: upt_expand)
  have len: "length ?P = 128" by (simp add: P length_padded)
  then show "length (take (length ds) ?P) = length (map (\<lambda>d. d - m) ds)" using assms by simp
  fix i assume "i < length (take (length ds) ?P)"
  then have i: "i < length ds" using len assms by simp
  have nth: "padded ds m mb ! j = ds ! (32 * mb + j) - m" if "32 * mb + j < length ds" "j < 32" for mb j
  proof -
    have "j < length ds - 32 * mb" using that by linarith
    then show ?thesis using that by (simp add: padded_def chunk_def nth_append)
  qed
  have "?P ! i = ds ! i - m"
  proof -
    consider "i < 32" | "32 \<le> i" "i < 64" | "64 \<le> i" "i < 96" | "96 \<le> i" "i < 128" using i assms by linarith
    then show ?thesis
    proof cases
      case 1
      then show ?thesis using nth [of 0 i] i by (simp add: P nth_append length_padded)
    next
      case 2
      then have "i - 32 < 32" "\<not> i < 32" by linarith+
      then show ?thesis using nth [of 1 "i - 32"] i 2 by (simp add: P nth_append length_padded)
    next
      case 3
      then have "i - 64 < 32" "\<not> i - 32 < 32" "\<not> i < 32" by linarith+
      then show ?thesis using nth [of 2 "i - 64"] i 3 by (simp add: P nth_append length_padded)
    next
      case 4
      then have "i - 96 < 32" "\<not> i - 64 < 32" "\<not> i - 32 < 32" "\<not> i < 32" by linarith+
      then show ?thesis using nth [of 3 "i - 96"] i 4 by (simp add: P nth_append length_padded)
    qed
  qed
  then show "take (length ds) ?P ! i = map (\<lambda>d. d - m) ds ! i" using i by simp
qed

lemma mini_blks_empty: "\<forall>x \<in> set ms. fst (snd x) = [] \<Longrightarrow> mini_blks ms = []"
  by (induction ms rule: mini_blks.induct) simp_all

lemma mini_blks_append: "mini_blks (xs @ ys) = mini_blks xs @ mini_blks ys"
  by (induction xs rule: mini_blks.induct) simp_all

lemma block_coded_chunks:
  assumes "length ms = 4" and "\<forall>(w, blk, xs) \<in> set ms. mini_coded w blk xs"
    and "map fst ms = map (chunk_width ds m) [0..<4]" and "mini_xs ms = concat (map (padded ds m) [0..<4])"
    and "0 < length ds" and "length ds \<le> 128"
  shows "block_coded (uleb_bytes (zigzag_encode64 m) @ map (\<lambda>x. of_nat (fst x)) ms @ mini_blks ms) ds"
proof -
  have "take (length ds) (map ((+) m) (mini_xs ms)) = map ((+) m) (map (\<lambda>d. d - m) ds)"
    using take_padded [OF assms(6)] by (simp add: assms(4) take_map)
  also have "\<dots> = ds" by (simp add: comp_def)
  finally have ds: "take (length ds) (map ((+) m) (mini_xs ms)) = ds" .
  let ?k = "(length ds + 31) div 32"
  have "mini_blks (drop ?k ms) = []"
  proof -
    have "fst x = 0 \<and> fst (snd x) = []" if mem: "x \<in> set (drop ?k ms)" for x
    proof -
      obtain i where "i < length (drop ?k ms)" "drop ?k ms ! i = x" using mem [unfolded in_set_conv_nth] by blast
      then have i: "i < length ms - ?k" "x = ms ! (?k + i)" by simp_all
      have "n \<le> 32 * ((n + 31) div 32 + i)" for n :: nat by presburger
      then have "length ds \<le> 32 * (?k + i)" .
      then have "chunk ds (?k + i) = []" by (simp add: chunk_def)
      moreover have "fst x = chunk_width ds m (?k + i)"
        using arg_cong [OF assms(3), of "\<lambda>l. l ! (?k + i)"] i assms(1) by simp
      ultimately have w: "fst x = 0" by (simp add: chunk_width_def bit_width_required_def)
      have "x \<in> set ms" using mem by (rule in_set_dropD)
      then have "mini_coded (fst x) (fst (snd x)) (snd (snd x))" using assms(2) by (auto simp: case_prod_beta)
      then show ?thesis using w by (simp add: mini_coded_def)
    qed
    then show ?thesis by (intro mini_blks_empty) blast
  qed
  then have "mini_blks (take ?k ms) = mini_blks ms"
    using mini_blks_append [of "take ?k ms" "drop ?k ms"] by simp
  then have b: "mini_blks (take ((length ds + 31) div 32) ms) = mini_blks ms" .
  show ?thesis
    unfolding block_coded_def
    by (rule conjI, rule assms(5), rule conjI, rule assms(6), rule exI [of _ m], rule exI [of _ ms])
      (rule conjI, rule assms(1), rule conjI, rule assms(2), rule conjI, rule refl, rule conjI, rule ds [symmetric], rule b)
qed

lemma chunk_width_64: "chunk_width ds m i \<le> 64"
  by (simp add: chunk_width_def bit_width_bound)

lemma length_mini_need: "mini_coded w blk xs \<Longrightarrow> length blk = chunk_need w"
  by (simp only: length_mini) (simp add: chunk_need_def)

lemma mini_blks_length:
  "\<forall>(w, blk, xs) \<in> set ms. mini_coded w blk xs \<Longrightarrow> length (mini_blks ms) = sum_list (map chunk_need (map fst ms))"
  by (induction ms rule: mini_blks.induct) (auto dest!: length_mini_need)

lemma flush_block_ok:
  assumes ok: "de_ok enc out rest" and pos: "0 < de_delta_count enc"
  obtains (full) "delta_encoder_flush_block enc = Some (CARQUET_ERROR_ENCODE, enc)" "length rest < 1038"
    | (flushed) B where "delta_encoder_flush_block enc = Some (CARQUET_OK,
          enc\<lparr>de_data := out @ B @ drop (length B) rest, de_pos := length out + length B, de_delta_count := 0\<rparr>)"
        "block_coded B (pending enc)" "length B \<le> 1038" "length B \<le> length rest"
proof -
  let ?ds = "pending enc"
  have s: "de_mini_blocks_per_block enc = 4" "de_data enc = out @ rest" "de_pos enc = length out"
    "de_capacity enc = length out + length rest" "length (de_deltas enc) = 128" "de_delta_count enc \<le> 128"
    using ok by (simp_all add: de_ok_def)
  obtain d0 where d0: "rd (de_deltas enc) 0 = Some d0" using s(5) by (simp add: rd_def)
  obtain ds where ds: "rd_bytes (de_deltas enc) 1 (de_delta_count enc - 1) = Some ds"
    using rd_bytes_in [of 1 "de_delta_count enc - 1" "de_deltas enc"] s(5,6) pos by simp
  define m where "m = min_delta_loop ds d0"
  define ws where "ws = map (chunk_width ?ds m) [0..<4]"
  define S where "S = sum_list (map (\<lambda>i. chunk_need (chunk_width ?ds m i)) [0..<4])"
  have S: "S \<le> 1024"
  proof -
    have n: "chunk_need (chunk_width ?ds m i) \<le> 256" for i by (rule chunk_need_le [OF chunk_width_64])
    show ?thesis using n [of 0] n [of 1] n [of 2] n [of 3] unfolding S_def by (simp add: upt_expand)
  qed
  have W: "mini_block_widths 4 enc 0 m = Some (ws, S)"
    using mini_block_widths_eq [OF ok, of 0 4 m] by (simp add: ws_def S_def)
  note start = delta_encoder_flush_block_def [of enc] d0 ds [simplified] W s(1,3,4) Let_def m_def [symmetric]
  show thesis
  proof (cases "14 + S > length rest")
    case True
    then have "delta_encoder_flush_block enc = Some (CARQUET_ERROR_ENCODE, enc)"
      using pos by (simp add: start)
    then show thesis using full True S by simp
  next
    case False
    define u where "u = uleb_bytes (zigzag_encode64 m)"
    have u: "length u \<le> 10" by (simp add: u_def length_uleb)
    define wb where "wb = (map of_nat ws :: u8 list)"
    have wb: "length wb = 4" by (simp add: wb_def ws_def)
    define out' where "out' = out @ u @ wb"
    define rest' where "rest' = drop (length u + 4) rest"
    have room: "length u + 4 + S \<le> length rest" using False u by linarith
    have len': "length out' = length out + length u + 4" by (simp add: out'_def wb)
    have w1: "write_uleb128 (de_data enc) (de_pos enc) (zigzag_encode64 m) =
        Some (out @ u @ drop (length u) rest, length out + length u)"
      using room by (simp add: s u_def write_uleb_at)
    have w2: "wr_bytes (out @ u @ drop (length u) rest) (length out + length u) wb = Some (out' @ rest')"
      using room wb by (subst wr_bytes_in) (simp_all add: out'_def rest'_def add.commute)
    define enc1 where "enc1 = enc\<lparr>de_data := out' @ rest', de_pos := length out'\<rparr>"
    have e1: "de_ok enc1 out' rest'" using ok room len' by (simp add: enc1_def de_ok_def rest'_def)
    have p1: "pending enc1 = ?ds" by (simp add: enc1_def)
    have "S \<le> length rest'" using room by (simp add: rest'_def)
    then obtain ms where ms: "write_mini_blocks ws enc1 0 m =
       Some (enc1\<lparr>de_data := out' @ mini_blks ms @ drop (length (mini_blks ms)) rest',
         de_pos := length out' + length (mini_blks ms)\<rparr>)"
     "map fst ms = ws" "\<forall>(w, blk, xs) \<in> set ms. mini_coded w blk xs"
     "mini_xs ms = concat (map (padded ?ds m) [0..<4])"
      using write_mini_blocks_ok [OF e1, of 0 4 m] unfolding p1 ws_def S_def by auto
    have lms: "length ms = 4" using arg_cong [OF ms(2), of length] by (simp add: ws_def)
    have wbm: "wb = map (\<lambda>x. of_nat (fst x)) ms" by (simp add: wb_def ms(2) [symmetric] comp_def)
    define B where "B = u @ wb @ mini_blks ms"
    have coded: "block_coded B ?ds"
      unfolding B_def wbm u_def using lms ms(2-4) pos s(5,6)
      by (intro block_coded_chunks) (simp_all add: ws_def)
    have lm: "length (mini_blks ms) = S"
      using mini_blks_length [OF ms(3)] by (simp add: ms(2) ws_def S_def comp_def)
    have "delta_encoder_flush_block enc = Some (CARQUET_OK,
          enc\<lparr>de_data := out @ B @ drop (length B) rest, de_pos := length out + length B, de_delta_count := 0\<rparr>)"
    proof -
      have "delta_encoder_flush_block enc = do {
          (d1, pos1) \<leftarrow> write_uleb128 (de_data enc) (de_pos enc) (zigzag_encode64 m);
          d2 \<leftarrow> wr_bytes d1 pos1 wb;
          enc2 \<leftarrow> write_mini_blocks ws (enc\<lparr>de_data := d2, de_pos := pos1 + 4\<rparr>) 0 m;
          Some (CARQUET_OK, enc2\<lparr>de_delta_count := 0\<rparr>) }"
        using pos False by (simp add: start wb_def)
      also have "\<dots> = do {
          enc2 \<leftarrow> write_mini_blocks ws enc1 0 m;
          Some (CARQUET_OK, enc2\<lparr>de_delta_count := 0\<rparr>) }"
        unfolding w1 Option.bind.simps prod.case w2 enc1_def by (simp add: len')
      also have "\<dots> = Some (CARQUET_OK,
          enc\<lparr>de_data := out @ B @ drop (length B) rest, de_pos := length out + length B, de_delta_count := 0\<rparr>)"
        unfolding ms(1) by (simp add: enc1_def B_def out'_def rest'_def wb add.commute add.left_commute)
      finally show ?thesis .
    qed
    moreover have "length B = length u + 4 + S" by (simp add: B_def wb lm)
    ultimately show thesis using u S room by (intro flushed [OF _ coded]) simp_all
  qed
qed


section \<open>Encoding a page\<close>

fun differences :: "u64 \<Rightarrow> u64 list \<Rightarrow> u64 list" where
  "differences l [] = []"
| "differences l (v # vs) = (v - l) # differences v vs"

text \<open>The blocks that \<open>n\<close> differences fill, and the bytes they take at most.\<close>

definition blocks_need :: "nat \<Rightarrow> nat" where
  "blocks_need n = 1038 * ((n + 127) div 128)"

text \<open>
  The page so far: a header, the blocks of whole multiples of 128 differences, and the pending
  differences of the encoder.
\<close>

definition page_inv :: "delta_encoder \<Rightarrow> u8 list \<Rightarrow> u64 list \<Rightarrow> nat \<Rightarrow> bool" where
  "page_inv enc hdr ds cap \<longleftrightarrow> (\<exists>body rest fl. de_ok enc (hdr @ body) rest \<and> cap = length hdr + length body + length rest \<and>
     page_coded body fl \<and> 128 dvd length fl \<and> ds = fl @ pending enc \<and> length body \<le> blocks_need (length fl))"

lemma flush_page:
  assumes "page_inv enc hdr ds cap"
  obtains (full) "delta_encoder_flush_block enc = Some (CARQUET_ERROR_ENCODE, enc)"
        "cap < length hdr + blocks_need (length ds)"
    | (flushed) enc' body rest where "delta_encoder_flush_block enc = Some (CARQUET_OK, enc')"
        "de_ok enc' (hdr @ body) rest" "cap = length hdr + length body + length rest" "page_coded body ds"
        "de_delta_count enc' = 0" "de_last_value enc' = de_last_value enc" "length body \<le> blocks_need (length ds)"
proof -
  obtain body rest fl where inv: "de_ok enc (hdr @ body) rest" "cap = length hdr + length body + length rest"
     "page_coded body fl" "128 dvd length fl" "ds = fl @ pending enc" "length body \<le> blocks_need (length fl)"
    using assms unfolding page_inv_def by blast
  have c: "de_delta_count enc \<le> 128" "length (de_deltas enc) = 128" using inv(1) by (simp_all add: de_ok_def)
  show thesis
  proof (cases "de_delta_count enc = 0")
    case True
    then have "delta_encoder_flush_block enc = Some (CARQUET_OK, enc)" by (simp add: delta_encoder_flush_block_def)
    then show thesis using flushed inv True by simp
  next
    case False
    obtain k where k: "length fl = 128 * k" using inv(4) by (rule dvdE)
    have nb: "blocks_need (length ds) = 1038 + blocks_need (length fl)"
    proof -
      have "(128 * k + de_delta_count enc + 127) div 128 = 1 + (128 * k + 127) div 128"
      proof -
        obtain c' where "de_delta_count enc = Suc c'" "c' < 128" using False c(1) by (cases "de_delta_count enc") auto
        then have "128 * k + de_delta_count enc + 127 = c' + 128 * (k + 1)" by simp
        then have "(128 * k + de_delta_count enc + 127) div 128 = k + 1" using \<open>c' < 128\<close> by simp
        moreover have "(127 + 128 * k) div 128 = k" by simp
        ultimately show ?thesis by (simp add: add.commute)
      qed
      then show ?thesis using k c by (simp add: inv(5) blocks_need_def min_absorb2)
    qed
    from inv(1) False show thesis
    proof (cases rule: flush_block_ok [OF inv(1), case_names pos full' flushed'])
      case full'
      then show thesis using full inv(2,6) nb by simp
    next
      case (flushed' B)
      let ?enc = "enc\<lparr>de_data := (hdr @ body) @ B @ drop (length B) rest, de_pos := length (hdr @ body) + length B, de_delta_count := 0\<rparr>"
      have "de_ok ?enc (hdr @ body @ B) (drop (length B) rest)" using inv(1) flushed'(4) by (simp add: de_ok_def)
      moreover have "page_coded (body @ B) ds"
        unfolding inv(5) by (rule page_coded_block [OF inv(3,4) flushed'(2)])
      ultimately show thesis
        using flushed'(1,3,4) inv(2,6) nb by (intro flushed [of ?enc "body @ B" "drop (length B) rest"]) simp_all
    qed simp
  qed
qed

lemma blocks_need_mono: "m \<le> n \<Longrightarrow> blocks_need m \<le> blocks_need n"
  unfolding blocks_need_def by (intro mult_le_mono2 div_le_mono) simp

lemma page_inv_push:
  assumes inv: "page_inv enc hdr ds cap" and c: "de_delta_count enc < 128"
  shows "page_inv (enc\<lparr>de_deltas := (de_deltas enc)[de_delta_count enc := x], de_delta_count := de_delta_count enc + 1,
    de_last_value := v\<rparr>) hdr (ds @ [x]) cap" (is "page_inv ?e _ _ _")
proof -
  obtain body rest fl where i: "de_ok enc (hdr @ body) rest" "cap = length hdr + length body + length rest"
     "page_coded body fl" "128 dvd length fl" "ds = fl @ pending enc" "length body \<le> blocks_need (length fl)"
    using inv unfolding page_inv_def by blast
  have "pending ?e = pending enc @ [x]" using i(1) c by (simp add: de_ok_def take_Suc_conv_app_nth)
  then have "ds @ [x] = fl @ pending ?e" using i(5) by simp
  moreover have "de_ok ?e (hdr @ body) rest" using i(1) c by (simp add: de_ok_def)
  ultimately show ?thesis unfolding page_inv_def using i(2-4,6) by blast
qed

lemma page_inv_lengths: "page_inv enc hdr ds cap \<Longrightarrow> length (de_deltas enc) = 128 \<and> de_block_size enc = 128"
  unfolding page_inv_def de_ok_def by blast

lemma page_inv_full:
  assumes "page_inv enc hdr ds cap" and "de_delta_count enc = 128"
  shows "128 dvd length ds"
proof -
  obtain fl where "128 dvd length fl" "ds = fl @ pending enc" using assms(1) unfolding page_inv_def by blast
  then show ?thesis using page_inv_lengths [OF assms(1)] assms(2) by simp
qed

lemma encode_deltas_page:
  "page_inv enc hdr ds cap \<Longrightarrow> de_delta_count enc < 128 \<Longrightarrow>
   \<exists>st enc'. encode_deltas vs enc = Some (st, enc') \<and>
     (st = CARQUET_ERROR_ENCODE \<and> cap < length hdr + blocks_need (length ds + length vs) \<or>
      st = CARQUET_OK \<and> page_inv enc' hdr (ds @ differences (de_last_value enc) vs) cap \<and> de_delta_count enc' < 128)"
proof (induction vs arbitrary: enc ds)
  case (Cons v vs)
  let ?x = "v - de_last_value enc"
  let ?e = "enc\<lparr>de_deltas := (de_deltas enc)[de_delta_count enc := ?x], de_delta_count := de_delta_count enc + 1, de_last_value := v\<rparr>"
  have push: "page_inv ?e hdr (ds @ [?x]) cap" by (rule page_inv_push [OF Cons.prems])
  have "length (de_deltas enc) = 128" "de_block_size enc = 128"
    using page_inv_lengths [OF Cons.prems(1)] by simp_all
  then have step: "encode_deltas (v # vs) enc = do {
     (status, enc2) \<leftarrow> (if de_delta_count enc + 1 = 128 then delta_encoder_flush_block ?e else Some (CARQUET_OK, ?e));
     if status \<noteq> CARQUET_OK then Some (status, enc2) else encode_deltas vs enc2 }"
    using Cons.prems(2) by simp
  have len: "length (ds @ [?x]) \<le> length ds + length (v # vs)" by simp
  show ?case
  proof (cases "de_delta_count enc + 1 = 128")
    case False
    have "de_delta_count ?e < 128" using False Cons.prems(2) by simp
    from Cons.IH [OF push this] show ?thesis using False unfolding step by simp
  next
    case True
    from push show ?thesis
    proof (cases rule: flush_page [OF push, case_names full flushed])
      case full
      have "cap < length hdr + blocks_need (length ds + length (v # vs))"
        using full(2) blocks_need_mono [OF len] by linarith
      then show ?thesis using full(1) True unfolding step by simp
    next
      case (flushed e2 body rest)
      have fl: "128 dvd length (ds @ [?x])"
        using page_inv_full [OF push] True by simp
      have "page_inv e2 hdr (ds @ [?x]) cap"
        unfolding page_inv_def using flushed fl by (intro exI [of _ body] exI [of _ rest] exI [of _ "ds @ [?x]"]) simp
      moreover have "de_delta_count e2 < 128" using flushed(5) by simp
      ultimately show ?thesis using Cons.IH [of e2 "ds @ [?x]"] flushed(1,6) True unfolding step by simp
    qed
  qed
qed simp

text \<open>The header: block size, mini-blocks, number of values and the first one.\<close>

definition delta_header :: "u64 \<Rightarrow> u64 \<Rightarrow> u8 list" where
  "delta_header n v0 = uleb_bytes 128 @ uleb_bytes 4 @ uleb_bytes n @ uleb_bytes (zigzag_encode64 v0)"

lemma length_header: "length (delta_header n v0) \<le> 40"
  using length_uleb(1) [of 128] length_uleb(1) [of 4] length_uleb(1) [of n] length_uleb(1) [of "zigzag_encode64 v0"]
  by (simp add: delta_header_def)

lemma write_header_ok:
  assumes "40 \<le> length d"
  shows "write_delta_header d n v0 =
    Some (delta_header n v0 @ drop (length (delta_header n v0)) d, length (delta_header n v0))"
proof -
  have L: "length (uleb_bytes 128) + length (uleb_bytes 4) + length (uleb_bytes n) + length (uleb_bytes (zigzag_encode64 v0)) \<le> length d"
    using length_header [of n v0] assms by (simp add: delta_header_def)
  show ?thesis
    using L write_uleb_at [of 128 d "[]"] write_uleb_at [of 4 _ "uleb_bytes 128"]
      write_uleb_at [of n _ "uleb_bytes 128 @ uleb_bytes 4"]
      write_uleb_at [of "zigzag_encode64 v0" _ "uleb_bytes 128 @ uleb_bytes 4 @ uleb_bytes n"]
    by (simp add: write_delta_header_def DELTA_BLOCK_SIZE_def DELTA_MINI_BLOCKS_def delta_header_def ac_simps)
qed

lemma decoder_init_ok:
  assumes "d = delta_header n v0 @ post" and "length (delta_header n v0) \<le> m" and "m \<le> length d"
  obtains dec where "delta_decoder_init d m = Some (Inr dec)" "dd_ok dec" "exhausted dec" "dd_current_mini_block dec = 4"
    "dd_data dec = d" "dd_size dec = m" "dd_pos dec = length (delta_header n v0)" "dd_first_value dec = v0"
proof -
  let ?a = "uleb_bytes 128" let ?b = "uleb_bytes 4" let ?c = "uleb_bytes n" let ?e = "uleb_bytes (zigzag_encode64 v0)"
  have d: "d = ?a @ ?b @ ?c @ ?e @ post" and L: "length ?a + length ?b + length ?c + length ?e \<le> m"
    using assms(1,2) by (simp_all add: delta_header_def)
  have "read_header_number d m 0 = Some (Inr (128, length ?a))"
    using read_header_at [of d "[]" 128 "?b @ ?c @ ?e @ post" m] d L assms(3) by simp
  moreover have "read_header_number d m (length ?a) = Some (Inr (4, length ?a + length ?b))"
    using read_header_at [of d "?a" 4 "?c @ ?e @ post" m] d L assms(3) by simp
  moreover have "read_header_number d m (length ?a + length ?b) = Some (Inr (n, length ?a + length ?b + length ?c))"
    using read_header_at [of d "?a @ ?b" n "?e @ post" m] d L assms(3) by simp
  moreover have "read_header_number d m (length ?a + length ?b + length ?c) = Some (Inr (zigzag_encode64 v0, length (delta_header n v0)))"
    using read_header_at [of d "?a @ ?b @ ?c" "zigzag_encode64 v0" post m] d L assms(3) by (simp add: delta_header_def add.assoc)
  ultimately have "delta_decoder_init d m = Some (Inr \<lparr>dd_data = d, dd_size = m, dd_pos = length (delta_header n v0),
      dd_block_size = 128, dd_mini_blocks_per_block = 4, dd_total_values = ucast n, dd_values_decoded = 0,
      dd_first_value = v0, dd_last_value = v0, dd_min_delta = 0, dd_bit_widths = replicate 4 0, dd_current_mini_block = 4,
      dd_values_in_mini_block = 0, dd_mini_block_values = replicate 32 0, dd_mini_block_pos = 32\<rparr>)"
    by (simp add: delta_decoder_init_def DELTA_BLOCK_SIZE_def DELTA_MINI_BLOCKS_def DELTA_MINI_BLOCK_SIZE_def)
  from that [OF this] show thesis by (simp add: dd_ok_def exhausted_def assms(3))
qed

text \<open>The whole page of int64 values.\<close>

lemma encode_int64_ok:
  assumes "40 \<le> cap" and "length d = cap"
  obtains (full) "carquet_delta_encode_int64 (v0 # vs) d cap = Some (Inl CARQUET_ERROR_ENCODE)"
        "cap < 40 + blocks_need (length vs)"
    | (coded) body rest where "carquet_delta_encode_int64 (v0 # vs) d cap =
          Some (Inr (delta_header (of_nat (length (v0 # vs))) v0 @ body @ rest,
            length (delta_header (of_nat (length (v0 # vs))) v0 @ body)))"
        "page_coded body (differences v0 vs)"
        "cap = length (delta_header (of_nat (length (v0 # vs))) v0 @ body @ rest)"
        "length body \<le> blocks_need (length vs)"
proof -
  let ?hdr = "delta_header (of_nat (length (v0 # vs))) v0"
  let ?e = "(delta_encoder_init d cap)\<lparr>de_data := ?hdr @ drop (length ?hdr) d, de_pos := length ?hdr, de_first_value := v0,
                              de_last_value := v0, de_values_written := 1\<rparr>"
  have hl: "length ?hdr \<le> 40" by (rule length_header)
  have e: "de_ok ?e (?hdr @ []) (drop (length ?hdr) d)"
    using hl assms by (simp add: de_ok_def delta_encoder_init_def DELTA_BLOCK_SIZE_def DELTA_MINI_BLOCKS_def)
  have "page_inv ?e ?hdr [] cap"
    unfolding page_inv_def
    by (intro exI [of _ "[]"] exI [of _ "drop (length ?hdr) d"])
      (use e hl assms page_coded_Nil in \<open>simp add: delta_encoder_init_def\<close>)
  moreover have "de_delta_count ?e < 128" by (simp add: delta_encoder_init_def)
  ultimately obtain st e1 where run: "encode_deltas vs ?e = Some (st, e1)" and
      st: "st = CARQUET_ERROR_ENCODE \<and> cap < length ?hdr + blocks_need (length vs) \<or>
       st = CARQUET_OK \<and> page_inv e1 ?hdr (differences v0 vs) cap \<and> de_delta_count e1 < 128"
    using encode_deltas_page [of ?e ?hdr "[]" cap vs] by auto
  have dl: "length (differences v0 vs) = length vs" by (induction vs arbitrary: v0) simp_all
  have code: "carquet_delta_encode_int64 (v0 # vs) d cap = (if st \<noteq> CARQUET_OK then Some (Inl st) else do {
      (status', enc2) \<leftarrow> delta_encoder_flush_block e1;
      if status' \<noteq> CARQUET_OK then Some (Inl status') else Some (Inr (de_data enc2, de_pos enc2)) })"
    using assms run write_header_ok [of d "of_nat (length (v0 # vs))" v0] by (simp add: carquet_delta_encode_int64_def)
  show thesis
  proof (cases "st = CARQUET_OK")
    case False
    then show thesis using st hl full by (simp add: code)
  next
    case True
    then have inv: "page_inv e1 ?hdr (differences v0 vs) cap" using st by simp
    from inv show thesis
    proof (cases rule: flush_page [OF inv, case_names full' flushed])
      case full'
      then show thesis using True hl dl full by (simp add: code)
    next
      case (flushed e2 body rest)
      have "de_data e2 = ?hdr @ body @ rest" "de_pos e2 = length (?hdr @ body)" using flushed(2) by (simp_all add: de_ok_def)
      then have "carquet_delta_encode_int64 (v0 # vs) d cap = Some (Inr (?hdr @ body @ rest, length (?hdr @ body)))"
        unfolding code using True flushed(1) by simp
      then show thesis using flushed(3,4,7) dl by (intro coded [of body rest]) simp_all
    qed
  qed
qed

text \<open>An int32 page is the int64 page of the sign-extended values.\<close>

lemma encode_int32_int64: "carquet_delta_encode_int32 vs d cap = carquet_delta_encode_int64 (map scast vs) d cap"
  unfolding carquet_delta_encode_int32_def carquet_delta_encode_int64_def by (cases vs) simp_all

lemma encode_deltas_lengths: "length (differences l vs) = length vs"
  by (induction vs arbitrary: l) simp_all

lemma prefix_sum_differences: "scalar_prefix_sum_i64 (differences l vs) l = vs"
  by (induction vs arbitrary: l) simp_all

lemma ucast_diff_scast: "ucast (scast (a :: u32) - scast b :: u64) = a - b"
proof -
  have "(scast a - scast b :: u64) = word_of_int (sint a - sint b)" by (simp only: scast_eq of_int_diff)
  then have "ucast (scast a - scast b :: u64) = (word_of_int (take_bit 64 (sint a - sint b)) :: u32)"
    by (simp only: unsigned_of_int) simp
  also have "\<dots> = word_of_int (sint a - sint b)" by (simp only: word_of_int_eq_iff) (simp add: take_bit_take_bit)
  finally show ?thesis by simp
qed

lemma prefix_sum_differences32: "scalar_prefix_sum_i32 (map ucast (differences (scast l) (map scast vs))) l = vs"
  by (induction vs arbitrary: l) (simp_all add: ucast_diff_scast)

lemma delta_values_page:
  assumes "page_coded body (differences v0 vs)"
    and "d = delta_header n v0 @ body @ post" and "length (delta_header n v0 @ body) \<le> m" and "m \<le> length d"
  obtains dec dec' where "delta_decoder_init d m = Some (Inr dec)" "dd_first_value dec = v0"
    "delta_values (length vs) (dec\<lparr>dd_values_decoded := 1\<rparr>) = Some (Inr (differences v0 vs, dec'))"
    "dd_pos dec' = length (delta_header n v0 @ body)"
proof -
  have "length (delta_header n v0) \<le> m" using assms(3) by simp
  from decoder_init_ok [OF assms(2) this assms(4)]
  obtain dec where dec: "delta_decoder_init d m = Some (Inr dec)" "dd_ok dec" "exhausted dec" "dd_current_mini_block dec = 4"
    "dd_data dec = d" "dd_size dec = m" "dd_pos dec = length (delta_header n v0)" "dd_first_value dec = v0" .
  let ?d = "dec\<lparr>dd_values_decoded := 1\<rparr>"
  have "dd_ok ?d" "exhausted ?d" using dec(2,3) by (simp_all add: dd_ok_def exhausted_def)
  then obtain dec' where "delta_values (length vs) ?d = Some (Inr (differences v0 vs, dec'))"
      "dd_pos dec' = length (delta_header n v0) + length body"
    using assms(1) [unfolded page_coded_def, rule_format, of ?d "delta_header n v0" post "length vs"]
      dec(4-7) assms(2,3) encode_deltas_lengths [of v0 vs] by auto
  then show thesis using that [OF dec(1,8)] by simp
qed

section \<open>Properties\<close>

lemma encode_int64_Nil:
  assumes "40 \<le> cap" and "length d = cap"
  shows "carquet_delta_encode_int64 [] d cap = Some (Inr (delta_header 0 0 @ drop (length (delta_header 0 0)) d, length (delta_header 0 0)))"
  using assms write_header_ok [of d 0 0] by (simp add: carquet_delta_encode_int64_def)

lemma encoded_page:
  assumes "length d = cap" and "carquet_delta_encode_int64 values d cap = Some (Inr (d', n))"
  obtains c v0 body rest where "d' = delta_header c v0 @ body @ rest" "n = length (delta_header c v0 @ body)"
    "values = [] \<and> body = [] \<or> (\<exists>vs. values = v0 # vs \<and> page_coded body (differences v0 vs))"
proof -
  have cap: "40 \<le> cap" using assms(2) by (auto simp: carquet_delta_encode_int64_def Let_def split: if_splits)
  show thesis
  proof (cases "values")
    case Nil
    then have "d' = delta_header 0 0 @ drop (length (delta_header 0 0)) d" "n = length (delta_header 0 0)"
      using encode_int64_Nil [OF cap assms(1)] assms(2) by auto
    then show thesis using Nil by (intro that [of 0 0 "[]" "drop (length (delta_header 0 0)) d"]) simp_all
  next
    case (Cons v0 vs)
    show thesis
    proof (cases rule: encode_int64_ok [OF cap assms(1), of v0 vs, case_names full coded])
      case full
      then show thesis using assms(2) Cons by simp
    next
      case (coded body rest)
      then show thesis using assms(2) Cons by (intro that [of "of_nat (length (v0 # vs))" v0 body rest]) simp_all
    qed
  qed
qed

lemma decode_page:
  assumes "length d = cap" and "carquet_delta_encode_int64 values d cap = Some (Inr (d', n))"
  obtains dec v0 dec' where "delta_decoder_init (take n d' @ junk) (n + length junk) = Some (Inr dec)"
    "dd_first_value dec = v0" "values = [] \<and> dd_pos dec = n \<or>
      (\<exists>vs. values = v0 # vs \<and> delta_values (length vs) (dec\<lparr>dd_values_decoded := 1\<rparr>) = Some (Inr (differences v0 vs, dec'))
        \<and> dd_pos dec' = n)"
proof -
  obtain c v0 body rest where p: "d' = delta_header c v0 @ body @ rest" "n = length (delta_header c v0 @ body)"
    "values = [] \<and> body = [] \<or> (\<exists>vs. values = v0 # vs \<and> page_coded body (differences v0 vs))"
    by (rule encoded_page [OF assms])
  have t: "take n d' @ junk = delta_header c v0 @ body @ junk" by (simp add: p(1,2))
  show thesis
  proof (cases "values")
    case Nil
    have "length (delta_header c v0) \<le> n + length junk" by (simp add: p(2))
    from decoder_init_ok [OF refl this, of "body @ junk"] obtain dec where
      "delta_decoder_init (take n d' @ junk) (n + length junk) = Some (Inr dec)" "dd_pos dec = length (delta_header c v0)"
      "dd_first_value dec = v0"
      unfolding t by (auto simp: p(2))
    then show thesis using that [of dec v0 dec] Nil p(2,3) by simp
  next
    case (Cons v1 vs)
    then have "page_coded body (differences v0 vs)" "v1 = v0" using p(3) by simp_all
    moreover have "length (delta_header c v0 @ body) \<le> n + length junk" by (simp add: p(2))
    moreover have "n + length junk \<le> length (take n d' @ junk)" by (simp add: p(1,2))
    ultimately obtain dec dec' where "delta_decoder_init (take n d' @ junk) (n + length junk) = Some (Inr dec)" "dd_first_value dec = v0"
      "delta_values (length vs) (dec\<lparr>dd_values_decoded := 1\<rparr>) = Some (Inr (differences v0 vs, dec'))" "dd_pos dec' = n"
      using delta_values_page [OF _ t, of vs "n + length junk"] p(2) by blast
    then show thesis using that Cons \<open>v1 = v0\<close> by blast
  qed
qed

text \<open>C5: What \<open>carquet_delta_encode_int64\<close> writes into a page, \<open>carquet_delta_decode_int64\<close>
  reads back: the same values, and as many bytes consumed as were written, whatever follows the page.\<close>

theorem delta_roundtrip_int64:
  assumes "length d = cap" and "carquet_delta_encode_int64 values d cap = Some (Inr (d', n))"
  shows "carquet_delta_decode_int64 (take n d' @ junk) (n + length junk) (length values) = Some (Inr (values, n))"
proof -
  obtain dec v0 dec' where "delta_decoder_init (take n d' @ junk) (n + length junk) = Some (Inr dec)"
    "dd_first_value dec = v0" "values = [] \<and> dd_pos dec = n \<or>
      (\<exists>vs. values = v0 # vs \<and> delta_values (length vs) (dec\<lparr>dd_values_decoded := 1\<rparr>) = Some (Inr (differences v0 vs, dec'))
        \<and> dd_pos dec' = n)"
    by (rule decode_page [OF assms, of junk])
  then show ?thesis by (auto simp: carquet_delta_decode_int64_def Let_def prefix_sum_differences)
qed

lemma encodes_three:
  obtains d' n where "carquet_delta_encode_int64 [a, b, c] (replicate 1078 0) 1078 = Some (Inr (d', n))"
  by (rule encode_int64_ok [of 1078 "replicate 1078 0" a "[b, c]"]) (simp_all add: blocks_need_def)

theorem delta_roundtrip_int64_witness:
  "\<exists>d' n. carquet_delta_encode_int64 [7, - 1, 2 ^ 63] (replicate 1078 0) 1078 = Some (Inr (d', n)) \<and>
     carquet_delta_decode_int64 (take n d' @ [9, 9]) (n + 2) 3 = Some (Inr ([7, - 1, 2 ^ 63], n))"
proof -
  obtain d' n where e: "carquet_delta_encode_int64 [7, - 1, 2 ^ 63] (replicate 1078 0) 1078 = Some (Inr (d', n))"
    by (rule encodes_three)
  show ?thesis
    using e delta_roundtrip_int64 [OF _ e, of "[9, 9]"] by (auto simp: numeral_3_eq_3)
qed

lemma int32_page:
  assumes "length d = cap" and "carquet_delta_encode_int32 values d cap = Some (Inr (d', n))"
  shows "carquet_delta_decode_int32 (take n d' @ junk) (n + length junk) (length values) = Some (Inr (values, n))"
proof -
  have enc: "carquet_delta_encode_int64 (map scast values) d cap = Some (Inr (d', n))"
    using assms(2) by (simp add: encode_int32_int64)
  obtain dec v0 dec' where dec: "delta_decoder_init (take n d' @ junk) (n + length junk) = Some (Inr dec)"
    "dd_first_value dec = v0" "(map scast values :: u64 list) = [] \<and> dd_pos dec = n \<or>
      (\<exists>vs. map scast values = v0 # vs \<and> delta_values (length vs) (dec\<lparr>dd_values_decoded := 1\<rparr>) = Some (Inr (differences v0 vs, dec'))
        \<and> dd_pos dec' = n)"
    by (rule decode_page [OF assms(1) enc, of junk])
  show ?thesis
  proof (cases "values")
    case Nil
    then show ?thesis using dec by (simp add: carquet_delta_decode_int32_def)
  next
    case (Cons v vs)
    then have v0: "v0 = scast v" and
      vs: "delta_values (length vs) (dec\<lparr>dd_values_decoded := 1\<rparr>) = Some (Inr (differences (scast v) (map scast vs), dec'))"
        "dd_pos dec' = n"
      using dec(3) by auto
    have "(ucast (scast v :: u64) :: u32) = v" using ucast_diff_scast [of v 0] by simp
    then show ?thesis
      using dec(1,2) vs Cons v0 prefix_sum_differences32 [of v vs]
      by (simp add: carquet_delta_decode_int32_def Let_def)
  qed
qed


text \<open>The same round trip for int32 values, which the encoder sign-extends to 64 bits and the
  decoder truncates again: no difference is lost on the way.\<close>

theorem delta_roundtrip_int32:
  assumes "length d = cap" and "carquet_delta_encode_int32 values d cap = Some (Inr (d', n))"
  shows "carquet_delta_decode_int32 (take n d' @ junk) (n + length junk) (length values) = Some (Inr (values, n))"
  by (rule int32_page [OF assms])

theorem delta_roundtrip_int32_witness:
  "\<exists>d' n. carquet_delta_encode_int32 [7, - 1, 2 ^ 31] (replicate 1078 0) 1078 = Some (Inr (d', n)) \<and>
     carquet_delta_decode_int32 (take n d' @ [9, 9]) (n + 2) 3 = Some (Inr ([7, - 1, 2 ^ 31], n))"
proof -
  obtain d' n where "carquet_delta_encode_int64 [scast (7 :: u32), scast (- 1 :: u32), scast (2 ^ 31 :: u32)] (replicate 1078 0) 1078 = Some (Inr (d', n))"
    by (rule encodes_three)
  then have e: "carquet_delta_encode_int32 [7, - 1, 2 ^ 31] (replicate 1078 0) 1078 = Some (Inr (d', n))"
    by (simp only: encode_int32_int64 list.map)
  show ?thesis using e delta_roundtrip_int32 [OF _ e, of "[9, 9]"] by (auto simp: numeral_3_eq_3)
qed

text \<open>C7: The encoder never writes outside the array. It reports an error on an array below 40 bytes,
  and with 40 bytes and 1038 for each block of 128 differences it always succeeds.\<close>

theorem delta_encode_total:
  assumes "length d = cap"
  shows "(cap < 40 \<longrightarrow> carquet_delta_encode_int64 values d cap = Some (Inl CARQUET_ERROR_ENCODE)) \<and>
    (carquet_delta_encode_int64 values d cap = Some (Inl CARQUET_ERROR_ENCODE) \<and>
       cap < 40 + 1038 * ((length values + 126) div 128) \<or>
     (\<exists>d' n. carquet_delta_encode_int64 values d cap = Some (Inr (d', n)) \<and> length d' = cap \<and> n \<le> cap \<and>
       n \<le> 40 + 1038 * ((length values + 126) div 128)))"
proof (cases "cap < 40")
  case True
  then show ?thesis by (simp add: carquet_delta_encode_int64_def)
next
  case False
  then have cap: "40 \<le> cap" by simp
  show ?thesis
  proof (cases "values")
    case Nil
    then show ?thesis using encode_int64_Nil [OF cap assms] length_header [of 0 0] False assms by auto
  next
    case (Cons v0 vs)
    have need: "blocks_need (length vs) = 1038 * ((length values + 126) div 128)"
      by (simp add: blocks_need_def Cons)
    show ?thesis
    proof (cases rule: encode_int64_ok [OF cap assms, of v0 vs, case_names full coded])
      case full
      then show ?thesis using False need Cons by simp
    next
      case (coded body rest)
      then show ?thesis using False need Cons length_header [of "of_nat (length (v0 # vs))" v0] by simp
    qed
  qed
qed

theorem delta_encode_total_witness:
  "\<exists>d' n. carquet_delta_encode_int64 [5] (replicate 50 0) 50 = Some (Inr (d', n)) \<and> length d' = 50 \<and> n \<le> 40"
  using delta_encode_total [of "replicate 50 0" 50 "[5]"] by fastforce

section \<open>Decoding any bytes\<close>

text \<open>What the decoder keeps on every input.\<close>

definition dd_safe :: "nat \<Rightarrow> delta_decoder \<Rightarrow> bool" where
  "dd_safe N dec \<longleftrightarrow> dd_size dec = N \<and> N \<le> length (dd_data dec) \<and> dd_pos dec \<le> dd_size dec \<and>
     0 < dd_mini_blocks_per_block dec \<and> dd_mini_blocks_per_block dec \<le> 4 \<and>
     dd_block_size dec div dd_mini_blocks_per_block dec \<le> 32 \<and> length (dd_bit_widths dec) = 4 \<and>
     length (dd_mini_block_values dec) = 32 \<and> dd_values_in_mini_block dec \<le> 32"

lemma header_number_safe:
  assumes "n \<le> length d" and "pos \<le> n"
  obtains (bad) "read_header_number d n pos = Some (Inl CARQUET_ERROR_DECODE)"
    | (good) v pos' where "read_header_number d n pos = Some (Inr (v, pos'))" "pos < pos'" "pos' \<le> n"
proof -
  have "decode_varint_loop 10 d n pos 0 (0 :: u64) \<noteq> None" by (rule decode_varint_loop_safe [OF assms(1)])
  then obtain r where r: "decode_varint_loop 10 d n pos 0 (0 :: u64) = Some r" by blast
  have n: "pos + (n - pos) = n" using assms(2) by simp
  show thesis
  proof (cases r)
    case None
    then show thesis using r n bad by (simp add: read_header_number_def read_uleb128_def del: decode_varint_loop.simps)
  next
    case (Some x)
    obtain v j where x: "x = (v, j)" by (cases x)
    have "pos < j \<and> j \<le> n \<and> j \<le> pos + 10" by (rule decode_varint_loop_bounds [of 10 d n pos 0 0 v j]) (use r Some x in simp)
    then show thesis using r n Some x by (intro good [of v j])
      (simp_all add: read_header_number_def read_uleb128_def del: decode_varint_loop.simps)
  qed
qed

lemma read_wide_value_safe: "pos + n \<le> length d \<Longrightarrow> read_wide_value n d pos b v \<noteq> None"
  by (induction n d pos b v rule: read_wide_value.induct) simp_all

lemma read_wide_values_safe:
  "pos + n * k \<le> length d \<Longrightarrow> \<exists>vs. read_wide_values n d pos k m = Some vs \<and> length vs = n"
proof (induction n arbitrary: pos)
  case (Suc n)
  obtain v where "read_wide_value k d pos 0 0 = Some v"
    using read_wide_value_safe [of pos k d 0 0] Suc.prems by auto
  moreover obtain vs where "read_wide_values n d (pos + k) k m = Some vs" "length vs = n"
    using Suc.IH [of "pos + k"] Suc.prems by (auto simp: algebra_simps)
  ultimately show ?case by simp
qed simp

lemma wr_bytes_safe: "i + length bs \<le> length m \<Longrightarrow> \<exists>m'. wr_bytes m i bs = Some m' \<and> length m' = length m"
  by (simp add: wr_bytes_in)

lemma read_block_safe:
  assumes "dd_safe N dec"
  obtains (bad) st where "delta_decoder_read_block dec = Some (Inl st)" "st \<noteq> CARQUET_OK"
    | (good) dec' where "delta_decoder_read_block dec = Some (Inr dec')" "dd_safe N dec'" "dd_current_mini_block dec' = 0"
proof -
  have s: "dd_size dec \<le> length (dd_data dec)" "dd_pos dec \<le> dd_size dec" "dd_mini_blocks_per_block dec \<le> 4" "length (dd_bit_widths dec) = 4"
    using assms by (simp_all add: dd_safe_def)
  show thesis
  proof (cases rule: header_number_safe [OF s(1,2), case_names no yes])
    case no
    then show thesis
      using bad [of CARQUET_ERROR_DECODE] bad [of CARQUET_ERROR_END_OF_DATA]
      by (cases "dd_size dec \<le> dd_pos dec") (simp_all add: delta_decoder_read_block_def)
  next
    case (yes v p)
    let ?k = "dd_mini_blocks_per_block dec"
    show thesis
    proof (cases "p + ?k > dd_size dec")
      case True
      then show thesis using yes bad by (simp add: delta_decoder_read_block_def)
    next
      case False
      then obtain ws where ws: "rd_bytes (dd_data dec) p ?k = Some ws" "length ws = ?k"
        using s(1) rd_bytes_in [of p ?k "dd_data dec"] by simp
      obtain widths where w: "wr_bytes (dd_bit_widths dec) 0 ws = Some widths" "length widths = 4"
        using wr_bytes_safe [of 0 ws "dd_bit_widths dec"] ws(2) s(3,4) by auto
      have "delta_decoder_read_block dec = Some (Inr (dec\<lparr>dd_min_delta := zigzag_decode64 v, dd_bit_widths := widths,
              dd_pos := p + ?k, dd_current_mini_block := 0\<rparr>))"
        using False yes ws(1) w(1) by (simp add: delta_decoder_read_block_def)
      then show thesis by (rule good) (use assms False w(2) in \<open>simp_all add: dd_safe_def\<close>)
    qed
  qed
qed


text \<open>The values of a mini-block, or the error, on every width.\<close>

definition mini_block_content :: "delta_decoder \<Rightarrow> nat \<Rightarrow> nat \<Rightarrow> (carquet_status + u64 list \<times> nat) option" where
  "mini_block_content dec1 bit_width mini_block_size =
     (if bit_width = 0 then Some (Inr (replicate mini_block_size (dd_min_delta dec1), dd_pos dec1))
      else if bit_width \<le> 32 then
        (let packed_size = (mini_block_size * bit_width + 7) div 8 in
         if dd_pos dec1 + packed_size > dd_size dec1 then Some (Inl CARQUET_ERROR_DECODE)
         else do {
           (unpacked, _) \<leftarrow> carquet_bitunpack_32 scalar_dispatch (dd_data dec1) (dd_pos dec1) mini_block_size bit_width;
           Some (Inr (map (\<lambda>u. dd_min_delta dec1 + ucast u) unpacked, dd_pos dec1 + packed_size))
         })
      else if bit_width \<le> 64 then
        (let bytes_per_value = (bit_width + 7) div 8; packed_size = mini_block_size * bytes_per_value in
         if dd_pos dec1 + packed_size > dd_size dec1 then Some (Inl CARQUET_ERROR_DECODE)
         else do {
           vs \<leftarrow> read_wide_values mini_block_size (dd_data dec1) (dd_pos dec1) bytes_per_value (dd_min_delta dec1);
           Some (Inr (vs, dd_pos dec1 + packed_size))
         })
      else Some (Inl CARQUET_ERROR_DECODE))"

lemma mini_block_content_safe:
  assumes "dd_size dec \<le> length (dd_data dec)" and "dd_pos dec \<le> dd_size dec" and "k \<le> 32"
  obtains (bad) "mini_block_content dec w k = Some (Inl CARQUET_ERROR_DECODE)"
    | (good) vs p where "mini_block_content dec w k = Some (Inr (vs, p))" "length vs = k" "p \<le> dd_size dec"
proof -
  consider "w = 0" | "0 < w" "w \<le> 32" "dd_pos dec + (k * w + 7) div 8 \<le> dd_size dec"
    | "0 < w" "w \<le> 32" "dd_pos dec + (k * w + 7) div 8 > dd_size dec"
    | "32 < w" "w \<le> 64" "dd_pos dec + k * ((w + 7) div 8) \<le> dd_size dec"
    | "32 < w" "w \<le> 64" "dd_pos dec + k * ((w + 7) div 8) > dd_size dec" | "64 < w" by linarith
  then show thesis
  proof cases
    case 1
    then show thesis using good assms(2) by (simp add: mini_block_content_def)
  next
    case 2
    have "k * w \<le> 32 * 32" using assms(3) 2(2) by (intro mult_le_mono)
    then have "k * w + 7 < 2 ^ 64" by simp
    moreover have "dd_pos dec + (k * w + 7) div 8 \<le> length (dd_data dec)" using 2(3) assms(1) by simp
    ultimately have "carquet_bitunpack_32 scalar_dispatch (dd_data dec) (dd_pos dec) k w =
      Some (unpack_digits w (le_nat (drop (dd_pos dec) (dd_data dec))) k, (k * w + 7) div 8)"
      using 2(2) by (intro portable.bitunpack_digits)
    then have "mini_block_content dec w k = Some (Inr (map (\<lambda>u. dd_min_delta dec + ucast u)
        (unpack_digits w (le_nat (drop (dd_pos dec) (dd_data dec))) k), dd_pos dec + (k * w + 7) div 8))"
      using 2 by (simp add: mini_block_content_def)
    then show thesis by (rule good) (use 2 in \<open>simp_all add: unpack_digits_def\<close>)
  next
    case 4
    have "dd_pos dec + k * ((w + 7) div 8) \<le> length (dd_data dec)" using 4(3) assms(1) by simp
    from read_wide_values_safe [OF this] obtain vs where
      "read_wide_values k (dd_data dec) (dd_pos dec) ((w + 7) div 8) (dd_min_delta dec) = Some vs" "length vs = k" by blast
    then show thesis using 4 by (intro good) (simp_all add: mini_block_content_def)
  qed (use bad in \<open>simp_all add: mini_block_content_def\<close>)
qed

lemma read_mini_block_safe:
  assumes "dd_safe N dec"
  obtains (bad) st where "delta_decoder_read_mini_block dec = Some (Inl st)" "st \<noteq> CARQUET_OK"
    | (good) dec' where "delta_decoder_read_mini_block dec = Some (Inr dec')" "dd_safe N dec'" "dd_mini_block_pos dec' = 0"
proof -
  let ?r = "if dd_current_mini_block dec \<ge> dd_mini_blocks_per_block dec then delta_decoder_read_block dec else Some (Inr dec)"
  have "(\<exists>st. ?r = Some (Inl st) \<and> st \<noteq> CARQUET_OK) \<or>
      (\<exists>d1. ?r = Some (Inr d1) \<and> dd_safe N d1 \<and> dd_current_mini_block d1 < dd_mini_blocks_per_block d1)"
  proof (cases "dd_current_mini_block dec \<ge> dd_mini_blocks_per_block dec")
    case True
    show ?thesis
      by (cases rule: read_block_safe [OF assms]) (use True in \<open>auto simp: dd_safe_def\<close>)
  qed (use assms in simp)
  then show thesis
  proof (elim disjE exE conjE)
    fix st assume "?r = Some (Inl st)" "st \<noteq> CARQUET_OK"
    then show thesis by (intro bad [of st]) (simp only: delta_decoder_read_mini_block_def Option.bind.simps sum.case)
  next
    fix d1 assume d1: "?r = Some (Inr d1)" "dd_safe N d1" "dd_current_mini_block d1 < dd_mini_blocks_per_block d1"
    let ?w = "unat (dd_bit_widths d1 ! dd_current_mini_block d1)" let ?k = "dd_block_size d1 div dd_mini_blocks_per_block d1"
    have s: "dd_size d1 \<le> length (dd_data d1)" "dd_pos d1 \<le> dd_size d1" "?k \<le> 32"
      and w: "rd (dd_bit_widths d1) (dd_current_mini_block d1) = Some (dd_bit_widths d1 ! dd_current_mini_block d1)"
      using d1(2,3) by (simp_all add: dd_safe_def)
    have code: "delta_decoder_read_mini_block dec = do {
        r2 \<leftarrow> mini_block_content d1 ?w ?k;
        (case r2 of Inl st \<Rightarrow> Some (Inl st) | Inr (vs, pos) \<Rightarrow> do {
          buffer \<leftarrow> wr_bytes (dd_mini_block_values d1) 0 vs;
          Some (Inr (d1\<lparr>dd_mini_block_values := buffer, dd_pos := pos,
            dd_current_mini_block := dd_current_mini_block d1 + 1, dd_mini_block_pos := 0,
            dd_values_in_mini_block := ?k\<rparr>)) }) }"
      unfolding delta_decoder_read_mini_block_def d1(1) Option.bind.simps sum.case w mini_block_content_def Let_def ..
    show thesis
    proof (cases rule: mini_block_content_safe [OF s, of ?w, case_names no yes])
      case no
      then show thesis by (intro bad [of CARQUET_ERROR_DECODE]) (simp_all add: code)
    next
      case (yes vs p)
      then obtain b where b: "wr_bytes (dd_mini_block_values d1) 0 vs = Some b" "length b = 32"
        using wr_bytes_safe [of 0 vs "dd_mini_block_values d1"] d1(2) by (auto simp: dd_safe_def)
      have "delta_decoder_read_mini_block dec = Some (Inr (d1\<lparr>dd_mini_block_values := b, dd_pos := p,
            dd_current_mini_block := dd_current_mini_block d1 + 1, dd_mini_block_pos := 0, dd_values_in_mini_block := ?k\<rparr>))"
        unfolding code yes(1) Option.bind.simps sum.case prod.case b(1) ..
      then show thesis by (rule good) (use d1(2) yes(3) b(2) s(3) in \<open>simp_all add: dd_safe_def\<close>)
    qed
  qed
qed


lemma delta_values_safe:
  "dd_safe N dec \<Longrightarrow> (\<exists>st. delta_values n dec = Some (Inl st) \<and> st \<noteq> CARQUET_OK) \<or>
     (\<exists>vs dec'. delta_values n dec = Some (Inr (vs, dec')) \<and> length vs = n \<and> dd_safe N dec')"
proof (induction n arbitrary: dec)
  case (Suc n)
  let ?r = "if dd_mini_block_pos dec \<ge> dd_values_in_mini_block dec then delta_decoder_read_mini_block dec else Some (Inr dec)"
  have "(\<exists>st. ?r = Some (Inl st) \<and> st \<noteq> CARQUET_OK) \<or>
      (\<exists>d1. ?r = Some (Inr d1) \<and> dd_safe N d1 \<and> dd_mini_block_pos d1 < 32)"
  proof (cases "dd_mini_block_pos dec \<ge> dd_values_in_mini_block dec")
    case True
    show ?thesis by (cases rule: read_mini_block_safe [OF Suc.prems]) (use True in auto)
  next
    case False
    then show ?thesis using Suc.prems by (simp add: dd_safe_def)
  qed
  then show ?case
  proof (elim disjE exE conjE)
    fix st assume "?r = Some (Inl st)" "st \<noteq> CARQUET_OK"
    then show ?thesis by (simp only: delta_values.simps Option.bind.simps sum.case) simp
  next
    fix d1 assume d1: "?r = Some (Inr d1)" "dd_safe N d1" "dd_mini_block_pos d1 < 32"
    let ?d = "d1\<lparr>dd_mini_block_pos := dd_mini_block_pos d1 + 1, dd_values_decoded := dd_values_decoded d1 + 1\<rparr>"
    have v: "rd (dd_mini_block_values d1) (dd_mini_block_pos d1) = Some (dd_mini_block_values d1 ! dd_mini_block_pos d1)"
      and d: "dd_safe N ?d" using d1(2,3) by (simp_all add: dd_safe_def)
    from Suc.IH [OF d] show ?thesis
      unfolding delta_values.simps d1(1) Option.bind.simps sum.case v by auto
  qed
qed simp

lemma decoder_init_safe:
  assumes "N \<le> length d"
  obtains (bad) st where "delta_decoder_init d N = Some (Inl st)" "st \<noteq> CARQUET_OK"
    | (good) dec where "delta_decoder_init d N = Some (Inr dec)" "dd_safe N dec"
proof -
  note code = delta_decoder_init_def [of d N]
  show thesis
  proof (cases rule: header_number_safe [OF assms le0, case_names n1 y1])
    case n1
    then show thesis by (intro bad [of CARQUET_ERROR_DECODE]) (simp_all add: code)
  next
    case (y1 v1 p1)
    show thesis
    proof (cases rule: header_number_safe [OF assms y1(3), case_names n2 y2])
      case n2
      then show thesis using y1 by (intro bad [of CARQUET_ERROR_DECODE]) (simp_all add: code)
    next
      case (y2 v2 p2)
      let ?b = "sint (ucast v1 :: u32)" let ?m = "sint (ucast v2 :: u32)"
      show thesis
      proof (cases "?m \<le> 0 \<or> ?m > 4 \<or> ?b \<le> 0 \<or> ?b > 128 \<or> ?b div ?m > 32")
        case True
        then show thesis using y1 y2
          by (intro bad [of CARQUET_ERROR_DECODE])
            (auto simp add: code Let_def DELTA_BLOCK_SIZE_def DELTA_MINI_BLOCKS_def DELTA_MINI_BLOCK_SIZE_def)
      next
        case False
        then have m: "0 < ?m" "?m \<le> 4" "0 < ?b" "?b \<le> 128" "?b div ?m \<le> 32" by auto
        show thesis
        proof (cases rule: header_number_safe [OF assms y2(3), case_names n3 y3])
          case n3
          then show thesis using y1 y2 m
            by (intro bad [of CARQUET_ERROR_DECODE]) (simp_all add: code DELTA_BLOCK_SIZE_def DELTA_MINI_BLOCKS_def DELTA_MINI_BLOCK_SIZE_def)
        next
          case (y3 v3 p3)
          show thesis
          proof (cases rule: header_number_safe [OF assms y3(3), case_names n4 y4])
            case n4
            then show thesis using y1 y2 y3 m
              by (intro bad [of CARQUET_ERROR_DECODE]) (simp_all add: code DELTA_BLOCK_SIZE_def DELTA_MINI_BLOCKS_def DELTA_MINI_BLOCK_SIZE_def)
          next
            case (y4 v4 p4)
            have "nat ?b div nat ?m \<le> 32" using m by (simp flip: nat_div_distrib)
            moreover have "nat ?m \<le> 4" "0 < nat ?m" using m by simp_all
            ultimately show thesis using y1 y2 y3 y4 m assms
              by (intro good [of "\<lparr>dd_data = d, dd_size = N, dd_pos = p4, dd_block_size = nat ?b,
                 dd_mini_blocks_per_block = nat ?m, dd_total_values = ucast v3, dd_values_decoded = 0,
                 dd_first_value = zigzag_decode64 v4, dd_last_value = zigzag_decode64 v4, dd_min_delta = 0,
                 dd_bit_widths = replicate 4 0, dd_current_mini_block = nat ?m,
                 dd_values_in_mini_block = 0, dd_mini_block_values = replicate 32 0,
                 dd_mini_block_pos = 32\<rparr>"]) (simp_all add: code dd_safe_def Let_def
                DELTA_BLOCK_SIZE_def DELTA_MINI_BLOCKS_def DELTA_MINI_BLOCK_SIZE_def)
          qed
        qed
      qed
    qed
  qed
qed

lemma prefix_sum_length [simp]: "length (scalar_prefix_sum_i64 vs a) = length vs"
  by (induction vs arbitrary: a) simp_all

lemma prefix_sum32_length [simp]: "length (scalar_prefix_sum_i32 vs a) = length vs"
  by (induction vs arbitrary: a) simp_all

lemma int32_decode_safe:
  assumes "n \<le> length d"
  shows "(\<exists>st. carquet_delta_decode_int32 d n num_values = Some (Inl st) \<and> st \<noteq> CARQUET_OK) \<or>
    (\<exists>vs k. carquet_delta_decode_int32 d n num_values = Some (Inr (vs, k)) \<and> length vs = num_values \<and> k \<le> n)"
proof (cases rule: decoder_init_safe [OF assms])
  case (1 st)
  then show ?thesis by (simp add: carquet_delta_decode_int32_def)
next
  case (2 dec)
  show ?thesis
  proof (cases num_values)
    case 0
    then show ?thesis using 2 by (simp add: carquet_delta_decode_int32_def dd_safe_def)
  next
    case (Suc k)
    have "dd_safe n (dec\<lparr>dd_values_decoded := 1\<rparr>)" using 2(2) by (simp add: dd_safe_def)
    from delta_values_safe [OF this, of k] show ?thesis
      using 2(1) Suc by (auto simp: carquet_delta_decode_int32_def Let_def dd_safe_def)
  qed
qed

text \<open>C6: On any bytes at all, \<open>carquet_delta_decode_int64\<close> reads only within the page: it
  ends with an error, or with as many values as were asked for and a count of bytes within the page.\<close>

theorem delta_decode_safe:
  assumes "n \<le> length d"
  shows "(\<exists>st. carquet_delta_decode_int64 d n num_values = Some (Inl st) \<and> st \<noteq> CARQUET_OK) \<or>
    (\<exists>vs k. carquet_delta_decode_int64 d n num_values = Some (Inr (vs, k)) \<and> length vs = num_values \<and> k \<le> n)"
proof (cases rule: decoder_init_safe [OF assms])
  case (1 st)
  then show ?thesis by (simp add: carquet_delta_decode_int64_def)
next
  case (2 dec)
  show ?thesis
  proof (cases num_values)
    case 0
    then show ?thesis using 2 by (simp add: carquet_delta_decode_int64_def dd_safe_def)
  next
    case (Suc k)
    have "dd_safe n (dec\<lparr>dd_values_decoded := 1\<rparr>)" using 2(2) by (simp add: dd_safe_def)
    from delta_values_safe [OF this, of k] show ?thesis
      using 2(1) Suc by (auto simp: carquet_delta_decode_int64_def Let_def dd_safe_def)
  qed
qed

theorem delta_decode_safe_witness:
  "(\<exists>st. carquet_delta_decode_int64 [128, 1, 4, 200, 7, 0] 5 3 = Some (Inl st) \<and> st \<noteq> CARQUET_OK) \<or>
    (\<exists>vs k. carquet_delta_decode_int64 [128, 1, 4, 200, 7, 0] 5 3 = Some (Inr (vs, k)) \<and> length vs = 3 \<and> k \<le> 5)"
  by (rule delta_decode_safe) simp

end
