(* ===== verification/Plain.thy ===== *)
theory Plain
  imports Buffer
begin

text \<open>
  Component src/encoding/plain.c: the PLAIN encoding, with the boolean kernels of simd/dispatch.c.

  Every multi-byte function has two builds: \<open>le\<close> says that
  \<open>CARQUET_LITTLE_ENDIAN && !defined(CARQUET_STRICT_ALIGN)\<close> holds and the values are copied as
  bytes; otherwise they are read and written one by one. Floats and doubles are their bit patterns.

  A pointer argument is an option, None is NULL; the output arguments are taken to be there. A
  decoder's outer option is None on an access outside the input; the inner one is None where the
  code returns -1, and otherwise the output array and the number of bytes consumed.
\<close>

section \<open>Values\<close>

text \<open>
  The pointer of a byte array is the bytes that may be read from it on. The length is an
  \<open>int32_t\<close>.
\<close>

record carquet_byte_array =
  ba_data :: "u8 list option"
  ba_length :: u32

record carquet_int96 =
  i96_0 :: u32
  i96_1 :: u32
  i96_2 :: u32

datatype carquet_physical_type =
    CARQUET_PHYSICAL_BOOLEAN
  | CARQUET_PHYSICAL_INT32
  | CARQUET_PHYSICAL_INT64
  | CARQUET_PHYSICAL_INT96
  | CARQUET_PHYSICAL_FLOAT
  | CARQUET_PHYSICAL_DOUBLE
  | CARQUET_PHYSICAL_BYTE_ARRAY
  | CARQUET_PHYSICAL_FIXED_LEN_BYTE_ARRAY

section \<open>Boolean kernels\<close>

text \<open>The index of a byte is an \<open>int\<close> in the code: counts are below \<open>2 ^ 34\<close>.\<close>

definition scalar_unpack_bools :: "u8 list \<Rightarrow> nat \<Rightarrow> u8 list option" where
  "scalar_unpack_bools input count =
     those (map (\<lambda>i. do { b \<leftarrow> rd input (i div 8); Some (drop_bit (i mod 8) b AND 1) }) [0..<count])"

text \<open>The inner loop, over the bits of one byte.\<close>

fun pack_bits :: "nat list \<Rightarrow> u8 list \<Rightarrow> nat \<Rightarrow> nat \<Rightarrow> u8 \<Rightarrow> u8 option" where
  "pack_bits [] input i count b = Some b"
| "pack_bits (j # js) input i count b =
     (if i + j < count then do {
        x \<leftarrow> rd input (i + j);
        pack_bits js input i count (if x \<noteq> 0 then b OR push_bit j 1 else b)
      } else Some b)"

definition scalar_pack_bools :: "u8 list \<Rightarrow> nat \<Rightarrow> u8 list option" where
  "scalar_pack_bools input count =
     those (map (\<lambda>g. pack_bits [0..<8] input (8 * g) count 0) [0..<(count + 7) div 8])"

section \<open>Decoding\<close>

definition carquet_decode_plain_boolean ::
  "u8 list option \<Rightarrow> nat \<Rightarrow> int \<Rightarrow> (u8 list \<times> nat) option option" where
  "carquet_decode_plain_boolean input input_size count =
     (case input of None \<Rightarrow> Some None | Some p \<Rightarrow>
        if count < 0 then Some None
        else let bytes_needed = (nat count + 7) div 8 in
          if input_size < bytes_needed then Some None
          else do { vs \<leftarrow> scalar_unpack_bools p (nat count); Some (Some (vs, bytes_needed)) })"

text \<open>
  \<open>memcpy\<close> of \<open>n\<close> bytes into an array of words of \<open>w\<close> bytes, on a little-endian machine; and
  the loop that reads the words one by one.
\<close>

definition memcpy_words :: "nat \<Rightarrow> u8 list \<Rightarrow> nat \<Rightarrow> 'a::len word list option" where
  "memcpy_words w p n = do {
     bs \<leftarrow> rd_bytes p 0 n;
     Some (map (\<lambda>i. le_word (take w (drop (i * w) bs))) [0..<n div w])
   }"

definition read_u32_loop :: "u8 list \<Rightarrow> nat \<Rightarrow> u32 list option" where
  "read_u32_loop p count = those (map (\<lambda>i. carquet_read_u32_le p (i * 4)) [0..<count])"

definition read_u64_loop :: "u8 list \<Rightarrow> nat \<Rightarrow> u64 list option" where
  "read_u64_loop p count = those (map (\<lambda>i. carquet_read_u64_le p (i * 8)) [0..<count])"

definition carquet_decode_plain_int32 ::
  "bool \<Rightarrow> u8 list option \<Rightarrow> nat \<Rightarrow> int \<Rightarrow> (u32 list \<times> nat) option option" where
  "carquet_decode_plain_int32 le input input_size count =
     (case input of None \<Rightarrow> Some None | Some p \<Rightarrow>
        if count < 0 then Some None
        else let bytes_needed = sz (nat count * 4) in
          if input_size < bytes_needed then Some None
          else do {
            vs \<leftarrow> (if le then memcpy_words 4 p bytes_needed else read_u32_loop p (nat count));
            Some (Some (vs, bytes_needed))
          })"

definition carquet_decode_plain_int64 ::
  "bool \<Rightarrow> u8 list option \<Rightarrow> nat \<Rightarrow> int \<Rightarrow> (u64 list \<times> nat) option option" where
  "carquet_decode_plain_int64 le input input_size count =
     (case input of None \<Rightarrow> Some None | Some p \<Rightarrow>
        if count < 0 then Some None
        else let bytes_needed = sz (nat count * 8) in
          if input_size < bytes_needed then Some None
          else do {
            vs \<leftarrow> (if le then memcpy_words 8 p bytes_needed else read_u64_loop p (nat count));
            Some (Some (vs, bytes_needed))
          })"

definition read_int96 :: "u8 list \<Rightarrow> nat \<Rightarrow> carquet_int96 option" where
  "read_int96 p i = do {
     a \<leftarrow> carquet_read_u32_le p (i * 12);
     b \<leftarrow> carquet_read_u32_le p (i * 12 + 4);
     c \<leftarrow> carquet_read_u32_le p (i * 12 + 8);
     Some \<lparr>i96_0 = a, i96_1 = b, i96_2 = c\<rparr>
   }"

definition carquet_decode_plain_int96 ::
  "u8 list option \<Rightarrow> nat \<Rightarrow> int \<Rightarrow> (carquet_int96 list \<times> nat) option option" where
  "carquet_decode_plain_int96 input input_size count =
     (case input of None \<Rightarrow> Some None | Some p \<Rightarrow>
        if count < 0 then Some None
        else let bytes_needed = sz (nat count * 12) in
          if input_size < bytes_needed then Some None
          else do { vs \<leftarrow> those (map (read_int96 p) [0..<nat count]); Some (Some (vs, bytes_needed)) })"

definition carquet_decode_plain_float ::
  "bool \<Rightarrow> u8 list option \<Rightarrow> nat \<Rightarrow> int \<Rightarrow> (u32 list \<times> nat) option option" where
  "carquet_decode_plain_float le input input_size count =
     (case input of None \<Rightarrow> Some None | Some p \<Rightarrow>
        if count < 0 then Some None
        else let bytes_needed = sz (nat count * 4) in
          if input_size < bytes_needed then Some None
          else do {
            vs \<leftarrow> (if le then memcpy_words 4 p bytes_needed else read_u32_loop p (nat count));
            Some (Some (vs, bytes_needed))
          })"

definition carquet_decode_plain_double ::
  "bool \<Rightarrow> u8 list option \<Rightarrow> nat \<Rightarrow> int \<Rightarrow> (u64 list \<times> nat) option option" where
  "carquet_decode_plain_double le input input_size count =
     (case input of None \<Rightarrow> Some None | Some p \<Rightarrow>
        if count < 0 then Some None
        else let bytes_needed = sz (nat count * 8) in
          if input_size < bytes_needed then Some None
          else do {
            vs \<leftarrow> (if le then memcpy_words 8 p bytes_needed else read_u64_loop p (nat count));
            Some (Some (vs, bytes_needed))
          })"

text \<open>The loop over the byte arrays: the arrays and the position, or None for -1.\<close>

fun byte_array_loop :: "nat \<Rightarrow> u8 list \<Rightarrow> nat \<Rightarrow> nat \<Rightarrow> (carquet_byte_array list \<times> nat) option option" where
  "byte_array_loop 0 p input_size pos = Some (Some ([], pos))"
| "byte_array_loop (Suc n) p input_size pos =
     (if pos + 4 > input_size then Some None
      else do {
        len \<leftarrow> carquet_read_u32_le p pos;
        if sint len < 0 \<or> pos + 4 + unat len > input_size then Some None
        else do {
          r \<leftarrow> byte_array_loop n p input_size (pos + 4 + unat len);
          Some (case r of None \<Rightarrow> None
            | Some (vs, end) \<Rightarrow> Some (\<lparr>ba_data = Some (drop (pos + 4) p), ba_length = len\<rparr> # vs, end))
        }
      })"

definition carquet_decode_plain_byte_array ::
  "u8 list option \<Rightarrow> nat \<Rightarrow> int \<Rightarrow> (carquet_byte_array list \<times> nat) option option" where
  "carquet_decode_plain_byte_array input input_size count =
     (case input of None \<Rightarrow> Some None | Some p \<Rightarrow>
        if count < 0 then Some None else byte_array_loop (nat count) p input_size 0)"

definition carquet_decode_plain_fixed_byte_array ::
  "u8 list option \<Rightarrow> nat \<Rightarrow> int \<Rightarrow> int \<Rightarrow> (u8 list \<times> nat) option option" where
  "carquet_decode_plain_fixed_byte_array input input_size count fixed_len =
     (case input of None \<Rightarrow> Some None | Some p \<Rightarrow>
        if count < 0 \<or> fixed_len \<le> 0 then Some None
        else let bytes_needed = sz (nat count * nat fixed_len) in
          if input_size < bytes_needed then Some None
          else do { vs \<leftarrow> rd_bytes p 0 bytes_needed; Some (Some (vs, bytes_needed)) })"

text \<open>The output array of the generic function has the type the physical type calls for.\<close>

datatype plain_values =
    Plain_bytes "u8 list"
  | Plain_32 "u32 list"
  | Plain_64 "u64 list"
  | Plain_96 "carquet_int96 list"
  | Plain_arrays "carquet_byte_array list"

definition as_plain :: "('a list \<Rightarrow> plain_values) \<Rightarrow> ('a list \<times> nat) option option \<Rightarrow> (plain_values \<times> nat) option option" where
  "as_plain c r = map_option (map_option (\<lambda>(vs, n). (c vs, n))) r"

definition carquet_decode_plain ::
  "bool \<Rightarrow> u8 list option \<Rightarrow> nat \<Rightarrow> carquet_physical_type \<Rightarrow> int \<Rightarrow> int \<Rightarrow> (plain_values \<times> nat) option option" where
  "carquet_decode_plain le input input_size type type_length count =
     (case type of
        CARQUET_PHYSICAL_BOOLEAN \<Rightarrow> as_plain Plain_bytes (carquet_decode_plain_boolean input input_size count)
      | CARQUET_PHYSICAL_INT32 \<Rightarrow> as_plain Plain_32 (carquet_decode_plain_int32 le input input_size count)
      | CARQUET_PHYSICAL_INT64 \<Rightarrow> as_plain Plain_64 (carquet_decode_plain_int64 le input input_size count)
      | CARQUET_PHYSICAL_INT96 \<Rightarrow> as_plain Plain_96 (carquet_decode_plain_int96 input input_size count)
      | CARQUET_PHYSICAL_FLOAT \<Rightarrow> as_plain Plain_32 (carquet_decode_plain_float le input input_size count)
      | CARQUET_PHYSICAL_DOUBLE \<Rightarrow> as_plain Plain_64 (carquet_decode_plain_double le input input_size count)
      | CARQUET_PHYSICAL_BYTE_ARRAY \<Rightarrow> as_plain Plain_arrays (carquet_decode_plain_byte_array input input_size count)
      | CARQUET_PHYSICAL_FIXED_LEN_BYTE_ARRAY \<Rightarrow>
          as_plain Plain_bytes (carquet_decode_plain_fixed_byte_array input input_size count type_length))"

section \<open>Encoding\<close>

text \<open>The result is None on a read outside the input array.\<close>

definition carquet_encode_plain_boolean ::
  "allocator \<Rightarrow> u8 list option \<Rightarrow> int \<Rightarrow> carquet_buffer \<Rightarrow> (carquet_status \<times> carquet_buffer) option" where
  "carquet_encode_plain_boolean A input count out =
     (case input of None \<Rightarrow> Some (CARQUET_ERROR_INVALID_ARGUMENT, out) | Some vs \<Rightarrow>
        if count < 0 then Some (CARQUET_ERROR_INVALID_ARGUMENT, out)
        else let bytes_needed = (nat count + 7) div 8 in
          (case carquet_buffer_advance A out bytes_needed of
             (None, out1) \<Rightarrow> Some (CARQUET_ERROR_OUT_OF_MEMORY, out1)
           | (Some dest, out1) \<Rightarrow>
               if bytes_needed > 0 then do {
                 packed \<leftarrow> scalar_pack_bools vs (nat count);
                 Some (CARQUET_OK, out1\<lparr>buf_data := block_write (buf_data out1) dest packed\<rparr>)
               } else Some (CARQUET_OK, out1)))"

text \<open>The loops that append value after value and stop at the first error.\<close>

fun append_loop :: "(carquet_buffer \<Rightarrow> 'a \<Rightarrow> carquet_status \<times> carquet_buffer) \<Rightarrow> nat \<Rightarrow> 'a list \<Rightarrow> nat \<Rightarrow> carquet_buffer \<Rightarrow>
   (carquet_status \<times> carquet_buffer) option" where
  "append_loop app 0 input i out = Some (CARQUET_OK, out)"
| "append_loop app (Suc n) input i out = do {
     v \<leftarrow> rd input i;
     (case app out v of (status, out1) \<Rightarrow>
        if status \<noteq> CARQUET_OK then Some (status, out1) else append_loop app n input (i + 1) out1)
   }"

text \<open>\<open>carquet_buffer_append\<close> of the first \<open>n\<close> bytes of the array.\<close>

definition append_bytes :: "allocator \<Rightarrow> carquet_buffer \<Rightarrow> u8 list \<Rightarrow> nat \<Rightarrow> (carquet_status \<times> carquet_buffer) option" where
  "append_bytes A out p n = do { bs \<leftarrow> rd_bytes p 0 n; Some (carquet_buffer_append A out bs) }"

definition carquet_encode_plain_int32 ::
  "bool \<Rightarrow> allocator \<Rightarrow> u32 list option \<Rightarrow> int \<Rightarrow> carquet_buffer \<Rightarrow> (carquet_status \<times> carquet_buffer) option" where
  "carquet_encode_plain_int32 le A input count out =
     (case input of None \<Rightarrow> Some (CARQUET_ERROR_INVALID_ARGUMENT, out) | Some vs \<Rightarrow>
        if count < 0 then Some (CARQUET_ERROR_INVALID_ARGUMENT, out)
        else if le then append_bytes A out (concat (map (le_bytes 4) vs)) (sz (nat count * 4))
        else append_loop (carquet_buffer_append_u32_le A) (nat count) vs 0 out)"

definition carquet_encode_plain_int64 ::
  "bool \<Rightarrow> allocator \<Rightarrow> u64 list option \<Rightarrow> int \<Rightarrow> carquet_buffer \<Rightarrow> (carquet_status \<times> carquet_buffer) option" where
  "carquet_encode_plain_int64 le A input count out =
     (case input of None \<Rightarrow> Some (CARQUET_ERROR_INVALID_ARGUMENT, out) | Some vs \<Rightarrow>
        if count < 0 then Some (CARQUET_ERROR_INVALID_ARGUMENT, out)
        else if le then append_bytes A out (concat (map (le_bytes 8) vs)) (sz (nat count * 8))
        else append_loop (carquet_buffer_append_u64_le A) (nat count) vs 0 out)"

definition append_int96 :: "allocator \<Rightarrow> carquet_buffer \<Rightarrow> carquet_int96 \<Rightarrow> carquet_status \<times> carquet_buffer" where
  "append_int96 A out v =
     (case carquet_buffer_append_u32_le A out (i96_0 v) of (st0, out0) \<Rightarrow>
        if st0 \<noteq> CARQUET_OK then (st0, out0)
        else case carquet_buffer_append_u32_le A out0 (i96_1 v) of (st1, out1) \<Rightarrow>
          if st1 \<noteq> CARQUET_OK then (st1, out1)
          else carquet_buffer_append_u32_le A out1 (i96_2 v))"

definition carquet_encode_plain_int96 ::
  "allocator \<Rightarrow> carquet_int96 list option \<Rightarrow> int \<Rightarrow> carquet_buffer \<Rightarrow> (carquet_status \<times> carquet_buffer) option" where
  "carquet_encode_plain_int96 A input count out =
     (case input of None \<Rightarrow> Some (CARQUET_ERROR_INVALID_ARGUMENT, out) | Some vs \<Rightarrow>
        if count < 0 then Some (CARQUET_ERROR_INVALID_ARGUMENT, out)
        else append_loop (append_int96 A) (nat count) vs 0 out)"

definition carquet_encode_plain_float ::
  "bool \<Rightarrow> allocator \<Rightarrow> u32 list option \<Rightarrow> int \<Rightarrow> carquet_buffer \<Rightarrow> (carquet_status \<times> carquet_buffer) option" where
  "carquet_encode_plain_float le A input count out =
     (case input of None \<Rightarrow> Some (CARQUET_ERROR_INVALID_ARGUMENT, out) | Some vs \<Rightarrow>
        if count < 0 then Some (CARQUET_ERROR_INVALID_ARGUMENT, out)
        else if le then append_bytes A out (concat (map (le_bytes 4) vs)) (sz (nat count * 4))
        else append_loop (carquet_buffer_append_f32_le A) (nat count) vs 0 out)"

definition carquet_encode_plain_double ::
  "bool \<Rightarrow> allocator \<Rightarrow> u64 list option \<Rightarrow> int \<Rightarrow> carquet_buffer \<Rightarrow> (carquet_status \<times> carquet_buffer) option" where
  "carquet_encode_plain_double le A input count out =
     (case input of None \<Rightarrow> Some (CARQUET_ERROR_INVALID_ARGUMENT, out) | Some vs \<Rightarrow>
        if count < 0 then Some (CARQUET_ERROR_INVALID_ARGUMENT, out)
        else if le then append_bytes A out (concat (map (le_bytes 8) vs)) (sz (nat count * 8))
        else append_loop (carquet_buffer_append_f64_le A) (nat count) vs 0 out)"

text \<open>The loop over the byte arrays: the length, and the bytes where there are any.\<close>

fun byte_arrays_append :: "allocator \<Rightarrow> nat \<Rightarrow> carquet_byte_array list \<Rightarrow> nat \<Rightarrow> carquet_buffer \<Rightarrow>
   (carquet_status \<times> carquet_buffer) option" where
  "byte_arrays_append A 0 input i out = Some (CARQUET_OK, out)"
| "byte_arrays_append A (Suc n) input i out = do {
     v \<leftarrow> rd input i;
     (case carquet_buffer_append_u32_le A out (ba_length v) of (status, out1) \<Rightarrow>
        if status \<noteq> CARQUET_OK then Some (status, out1)
        else do {
          (status2, out2) \<leftarrow> (case ba_data v of
              Some d \<Rightarrow> if 0 < sint (ba_length v) then append_bytes A out1 d (unat (ba_length v)) else Some (CARQUET_OK, out1)
            | None \<Rightarrow> Some (CARQUET_OK, out1));
          if status2 \<noteq> CARQUET_OK then Some (status2, out2) else byte_arrays_append A n input (i + 1) out2
        })
   }"

definition carquet_encode_plain_byte_array ::
  "allocator \<Rightarrow> carquet_byte_array list option \<Rightarrow> int \<Rightarrow> carquet_buffer \<Rightarrow> (carquet_status \<times> carquet_buffer) option" where
  "carquet_encode_plain_byte_array A input count out =
     (case input of None \<Rightarrow> Some (CARQUET_ERROR_INVALID_ARGUMENT, out) | Some vs \<Rightarrow>
        if count < 0 then Some (CARQUET_ERROR_INVALID_ARGUMENT, out)
        else byte_arrays_append A (nat count) vs 0 out)"

definition carquet_encode_plain_fixed_byte_array ::
  "allocator \<Rightarrow> u8 list option \<Rightarrow> int \<Rightarrow> int \<Rightarrow> carquet_buffer \<Rightarrow> (carquet_status \<times> carquet_buffer) option" where
  "carquet_encode_plain_fixed_byte_array A input count fixed_len out =
     (case input of None \<Rightarrow> Some (CARQUET_ERROR_INVALID_ARGUMENT, out) | Some p \<Rightarrow>
        if count < 0 \<or> fixed_len \<le> 0 then Some (CARQUET_ERROR_INVALID_ARGUMENT, out)
        else append_bytes A out p (sz (nat count * nat fixed_len)))"

section \<open>Arrays as bytes\<close>

lemma those_Some: "\<forall>x \<in> set xs. f x = Some (g x) \<Longrightarrow> those (map f xs) = Some (map g xs)"
  by (induction xs) simp_all

text \<open>The bytes of value \<open>i\<close> in an array of values of \<open>w\<close> bytes.\<close>

lemma length_concat_fixed: "\<forall>v. length (f v) = w \<Longrightarrow> length (concat (map f vs)) = length vs * w"
  by (induction vs) simp_all

lemma array_chunk:
  assumes "\<forall>v. length (f v) = w" and "i < length vs"
  shows "take w (drop (i * w) (concat (map f vs) @ rest)) = f (vs ! i)"
  using assms(2)
proof (induction vs arbitrary: i)
  case (Cons v vs)
  then show ?case using assms(1) by (cases i) (simp_all add: drop_append)
qed simp

lemma memcpy_array:
  assumes "\<forall>v. length (f v) = w" and "\<forall>v. le_word (f v) = v" and "0 < w"
  shows "memcpy_words w (concat (map f vs) @ rest) (length vs * w) = Some vs"
proof -
  have l: "length (concat (map f vs)) = length vs * w" by (rule length_concat_fixed [OF assms(1)])
  have "le_word (take w (drop (i * w) (concat (map f vs)))) = vs ! i" if "i < length vs" for i
    using array_chunk [OF assms(1) that, of "[]"] assms(2) by simp
  then have "map (\<lambda>i. le_word (take w (drop (i * w) (concat (map f vs))))) [0..<length vs] = vs"
    by (intro nth_equalityI) simp_all
  moreover have "rd_bytes (concat (map f vs) @ rest) 0 (length vs * w) = Some (concat (map f vs))"
    unfolding rd_bytes_def by (simp add: l [symmetric] del: length_concat)
  ultimately show ?thesis using assms(3) by (simp add: memcpy_words_def)
qed

lemma read_array32:
  shows "read_u32_loop (concat (map (le_bytes 4) vs) @ rest) (length vs) = Some vs"
proof -
  have f: "\<forall>v :: u32. length (le_bytes 4 v) = 4" by simp
  have l: "length (concat (map (le_bytes 4) vs)) = length vs * 4" by (rule length_concat_fixed [OF f])
  have "carquet_read_u32_le (concat (map (le_bytes 4) vs) @ rest) (i * 4) = Some (vs ! i)" if "i < length vs" for i
    using array_chunk [OF f that, of rest] l that
    by (simp add: read_u32_le_word le_word_le_bytes take_bit_full_word del: length_concat take_append drop_append)
  then have "those (map (\<lambda>i. carquet_read_u32_le (concat (map (le_bytes 4) vs) @ rest) (i * 4)) [0..<length vs]) = Some (map ((!) vs) [0..<length vs])"
    by (intro those_Some) simp
  then show ?thesis by (simp add: read_u32_loop_def map_nth)
qed

lemma read_array64:
  shows "read_u64_loop (concat (map (le_bytes 8) vs) @ rest) (length vs) = Some vs"
proof -
  have f: "\<forall>v :: u64. length (le_bytes 8 v) = 8" by simp
  have l: "length (concat (map (le_bytes 8) vs)) = length vs * 8" by (rule length_concat_fixed [OF f])
  have "carquet_read_u64_le (concat (map (le_bytes 8) vs) @ rest) (i * 8) = Some (vs ! i)" if "i < length vs" for i
    using array_chunk [OF f that, of rest] l that
    by (simp add: read_u64_le_word le_word_le_bytes take_bit_full_word del: length_concat take_append drop_append)
  then have "those (map (\<lambda>i. carquet_read_u64_le (concat (map (le_bytes 8) vs) @ rest) (i * 8)) [0..<length vs]) = Some (map ((!) vs) [0..<length vs])"
    by (intro those_Some) simp
  then show ?thesis by (simp add: read_u64_loop_def map_nth)
qed

definition int96_bytes :: "carquet_int96 \<Rightarrow> u8 list" where
  "int96_bytes v = le_bytes 4 (i96_0 v) @ le_bytes 4 (i96_1 v) @ le_bytes 4 (i96_2 v)"

lemma length_int96 [simp]: "length (int96_bytes v) = 12"
  by (simp add: int96_bytes_def)

lemma int96_parts:
  "take 4 (drop 0 (int96_bytes v)) = le_bytes 4 (i96_0 v)" "take 4 (drop 4 (int96_bytes v)) = le_bytes 4 (i96_1 v)"
  "take 4 (drop 8 (int96_bytes v)) = le_bytes 4 (i96_2 v)"
  by (simp_all add: int96_bytes_def)

lemma read_int96_array:
  "those (map (read_int96 (concat (map int96_bytes vs) @ rest)) [0..<length vs]) = Some vs"
proof -
  have f: "\<forall>v. length (int96_bytes v) = 12" by simp
  let ?p = "concat (map int96_bytes vs) @ rest"
  have l: "length ?p = length vs * 12 + length rest" by (simp add: length_concat_fixed [OF f] del: length_concat)
  have "read_int96 ?p i = Some (vs ! i)" if i: "i < length vs" for i
  proof -
    have c: "take 12 (drop (i * 12) ?p) = int96_bytes (vs ! i)" by (rule array_chunk [OF f i])
    have part: "take 4 (drop (i * 12 + k) ?p) = take 4 (drop k (int96_bytes (vs ! i)))" if "k \<le> 8" for k
    proof -
      have "take 4 (drop (i * 12 + k) ?p) = take 4 (take (12 - k) (drop k (drop (i * 12) ?p)))"
      proof -
        have "min 4 (12 - k) = 4" using that by simp
        then show ?thesis by (simp only: take_take drop_drop add.commute)
      qed
      also have "\<dots> = take 4 (drop k (int96_bytes (vs ! i)))" by (simp only: c [symmetric] drop_take)
      finally show ?thesis .
    qed
    have "i * 12 + 12 \<le> length ?p" using l i by simp
    then show ?thesis
      using part [of 0, unfolded int96_parts] part [of 4, unfolded int96_parts] part [of 8, unfolded int96_parts]
      by (simp add: read_int96_def read_u32_le_word le_word_le_bytes take_bit_full_word
          del: length_concat length_append take_append drop_append)
  qed
  then have "those (map (read_int96 ?p) [0..<length vs]) = Some (map ((!) vs) [0..<length vs])"
    by (intro those_Some) simp
  then show ?thesis by (simp add: map_nth)
qed

section \<open>Appending\<close>

lemma append_bytes_OK:
  assumes "buf_wf out" and "append_bytes A out p n = Some (CARQUET_OK, out')"
  shows "n \<le> length p \<and> buf_wf out' \<and> contents out' = contents out @ take n p"
proof (cases "n \<le> length p")
  case True
  then have "carquet_buffer_append A out (take n p) = (CARQUET_OK, out')"
    using assms(2) by (simp add: append_bytes_def rd_bytes_in)
  from append_OK [OF assms(1) this] True show ?thesis by simp
qed (use assms in \<open>simp add: append_bytes_def rd_bytes_def\<close>)

text \<open>\<open>puts_as app enc\<close>: a successful \<open>app\<close> appends the bytes \<open>enc\<close> of the value.\<close>

definition puts_as :: "(carquet_buffer \<Rightarrow> 'a \<Rightarrow> carquet_status \<times> carquet_buffer) \<Rightarrow> ('a \<Rightarrow> u8 list) \<Rightarrow> bool" where
  "puts_as app enc \<longleftrightarrow> (\<forall>buf v buf'. buf_wf buf \<longrightarrow> app buf v = (CARQUET_OK, buf') \<longrightarrow>
     buf_wf buf' \<and> contents buf' = contents buf @ enc v)"

lemma append_loop_OK:
  assumes "puts_as app enc"
  shows "buf_wf out \<Longrightarrow> append_loop app n input i out = Some (CARQUET_OK, out') \<Longrightarrow>
    buf_wf out' \<and> contents out' = contents out @ concat (map enc (take n (drop i input)))"
proof (induction n arbitrary: i out)
  case (Suc n)
  have i: "i < length input" using Suc.prems(2) by (cases "i < length input") simp_all
  obtain st out1 where a: "app out (input ! i) = (st, out1)" by fastforce
  have st: "st = CARQUET_OK" "append_loop app n input (i + 1) out1 = Some (CARQUET_OK, out')"
    using Suc.prems(2) i a by (simp_all split: if_splits)
  then have "buf_wf out1" "contents out1 = contents out @ enc (input ! i)"
    using assms Suc.prems(1) a unfolding puts_as_def by blast+
  then show ?case using Suc.IH [OF _ st(2)] i by (simp add: drop_eq_Cons)
qed simp

lemma puts_as_words:
  "puts_as (carquet_buffer_append_u32_le A) (le_bytes 4)" "puts_as (carquet_buffer_append_f32_le A) (le_bytes 4)"
  "puts_as (carquet_buffer_append_u64_le A) (le_bytes 8)" "puts_as (carquet_buffer_append_f64_le A) (le_bytes 8)"
  by (auto simp: puts_as_def carquet_buffer_append_u32_le_def carquet_buffer_append_f32_le_def
      carquet_buffer_append_u64_le_def carquet_buffer_append_f64_le_def write_le_bytes dest: append_OK)

lemma puts_as_int96: "puts_as (append_int96 A) int96_bytes"
  unfolding puts_as_def
proof (intro allI impI)
  fix buf v buf' assume wf: "buf_wf buf" and run: "append_int96 A buf v = (CARQUET_OK, buf')"
  let ?app = "carquet_buffer_append_u32_le A"
  obtain st0 b0 where r0: "?app buf (i96_0 v) = (st0, b0)" by fastforce
  obtain st1 b1 where r1: "?app b0 (i96_1 v) = (st1, b1)" by fastforce
  have st: "st0 = CARQUET_OK" "st1 = CARQUET_OK" "?app b1 (i96_2 v) = (CARQUET_OK, buf')"
    using run r0 r1 by (auto simp: append_int96_def split: if_splits)
  note P = puts_as_words(1) [of A, unfolded puts_as_def, rule_format]
  show "buf_wf buf' \<and> contents buf' = contents buf @ int96_bytes v"
    using P [OF wf r0 [unfolded st(1)]] P [OF _ r1 [unfolded st(2)]] P [OF _ st(3)] by (simp add: int96_bytes_def)
qed

section \<open>Byte arrays\<close>

definition ba_bytes :: "carquet_byte_array \<Rightarrow> u8 list" where
  "ba_bytes v = take (unat (ba_length v)) (block_bytes (ba_data v))"

text \<open>A byte array whose length is not negative and whose bytes are all there.\<close>

definition ba_ok :: "carquet_byte_array \<Rightarrow> bool" where
  "ba_ok v \<longleftrightarrow> 0 \<le> sint (ba_length v) \<and> unat (ba_length v) \<le> length (block_bytes (ba_data v))"

definition ba_enc :: "carquet_byte_array \<Rightarrow> u8 list" where
  "ba_enc v = le_bytes 4 (ba_length v) @ ba_bytes v"

lemma length_ba_bytes: "ba_ok v \<Longrightarrow> length (ba_bytes v) = unat (ba_length v)"
  by (simp add: ba_ok_def ba_bytes_def)

lemma sint_pos_iff: "0 \<le> sint (l :: u32) \<Longrightarrow> sint l = int (unat l)"
  using sint_cases [of l] by simp

lemma byte_arrays_append_OK:
  "buf_wf out \<Longrightarrow> \<forall>v \<in> set input. ba_ok v \<Longrightarrow> byte_arrays_append A n input i out = Some (CARQUET_OK, out') \<Longrightarrow>
    buf_wf out' \<and> contents out' = contents out @ concat (map ba_enc (take n (drop i input)))"
proof (induction n arbitrary: i out)
  case (Suc n)
  have i: "i < length input" using Suc.prems(3) by (cases "i < length input") simp_all
  let ?v = "input ! i"
  have ok: "ba_ok ?v" using Suc.prems(2) i by simp
  obtain st1 out1 where a: "carquet_buffer_append_u32_le A out (ba_length ?v) = (st1, out1)" by fastforce
  have st1: "st1 = CARQUET_OK" using Suc.prems(3) i a by (simp split: if_splits)
  have out1: "buf_wf out1 \<and> contents out1 = contents out @ le_bytes 4 (ba_length ?v)"
    using puts_as_words(1) [unfolded puts_as_def, rule_format, OF Suc.prems(1) a [unfolded st1]] .
  let ?r = "case ba_data ?v of
              Some d \<Rightarrow> if 0 < sint (ba_length ?v) then append_bytes A out1 d (unat (ba_length ?v)) else Some (CARQUET_OK, out1)
            | None \<Rightarrow> Some (CARQUET_OK, out1)"
  have code: "byte_arrays_append A (Suc n) input i out = do {
       (status2, out2) \<leftarrow> ?r;
       if status2 \<noteq> CARQUET_OK then Some (status2, out2) else byte_arrays_append A n input (i + 1) out2 }"
    using i a st1 by simp
  obtain st2 out2 where r: "?r = Some (st2, out2)" using Suc.prems(3) unfolding code by (cases ?r) auto
  have st2: "st2 = CARQUET_OK" and rec: "byte_arrays_append A n input (i + 1) out2 = Some (CARQUET_OK, out')"
    using Suc.prems(3) unfolding code r by (auto split: if_splits)
  have out2: "buf_wf out2 \<and> contents out2 = contents out1 @ ba_bytes ?v"
  proof (cases "ba_data ?v")
    case None
    then show ?thesis using r ok out1 by (simp add: ba_bytes_def)
  next
    case (Some d)
    show ?thesis
    proof (cases "0 < sint (ba_length ?v)")
      case True
      then show ?thesis using r Some st2 append_bytes_OK [of out1 A d "unat (ba_length ?v)" out2] out1
        by (simp add: ba_bytes_def)
    next
      case False
      moreover have "0 \<le> sint (ba_length ?v)" using ok by (simp add: ba_ok_def)
      ultimately have "unat (ba_length ?v) = 0" using sint_pos_iff [of "ba_length ?v"] by linarith
      then show ?thesis using r Some out1 False by (simp add: ba_bytes_def)
    qed
  qed
  then show ?case using Suc.IH [OF _ Suc.prems(2) rec] out1 i by (simp add: drop_eq_Cons ba_enc_def)
qed simp

lemma byte_array_loop_ok:
  "p = pre @ concat (map ba_enc vs) @ post \<Longrightarrow> \<forall>v \<in> set vs. ba_ok v \<Longrightarrow>
    length pre + length (concat (map ba_enc vs)) \<le> n \<Longrightarrow> n \<le> length p \<Longrightarrow>
    \<exists>vs'. byte_array_loop (length vs) p n (length pre) = Some (Some (vs', length pre + length (concat (map ba_enc vs)))) \<and>
      map ba_bytes vs' = map ba_bytes vs \<and> map ba_length vs' = map ba_length vs"
proof (induction vs arbitrary: pre)
  case (Cons v vs)
  have ok: "ba_ok v" using Cons.prems(2) by simp
  let ?l = "unat (ba_length v)"
  have p: "p = (pre @ ba_enc v) @ concat (map ba_enc vs) @ post" using Cons.prems(1) by simp
  have len: "length (ba_enc v) = 4 + ?l" using length_ba_bytes [OF ok] by (simp add: ba_enc_def)
  have fits: "length (pre @ ba_enc v) + length (concat (map ba_enc vs)) \<le> n" using Cons.prems(3) by simp
  then have room: "length pre + 4 + ?l \<le> n" using len by simp
  have rdl: "carquet_read_u32_le p (length pre) = Some (ba_length v)"
    using read_write_u32 [of pre "ba_length v" "ba_bytes v @ concat (map ba_enc vs) @ post"]
    by (simp add: p ba_enc_def write_le_bytes)
  from Cons.IH [OF p _ fits Cons.prems(4)] Cons.prems(2) obtain vs' where
    vs': "byte_array_loop (length vs) p n (length (pre @ ba_enc v)) =
        Some (Some (vs', length (pre @ ba_enc v) + length (concat (map ba_enc vs))))"
      "map ba_bytes vs' = map ba_bytes vs" "map ba_length vs' = map ba_length vs" by auto
  let ?v = "\<lparr>ba_data = Some (drop (length pre + 4) p), ba_length = ba_length v\<rparr>"
  have b: "ba_bytes ?v = ba_bytes v"
  proof -
    have "drop (length pre + 4) p = ba_bytes v @ concat (map ba_enc vs) @ post" by (simp add: p ba_enc_def)
    then show ?thesis using length_ba_bytes [OF ok] by (subst ba_bytes_def) simp
  qed
  have neg: "\<not> sint (ba_length v) < 0" using ok by (simp add: ba_ok_def)
  have next_pos: "length (pre @ ba_enc v) = length pre + 4 + ?l" using len by simp
  have "byte_array_loop (length (v # vs)) p n (length pre) =
      Some (Some (?v # vs', length (pre @ ba_enc v) + length (concat (map ba_enc vs))))"
    using rdl neg room vs'(1) unfolding next_pos by simp
  then show ?case using vs'(2,3) b by (intro exI [of _ "?v # vs'"]) (simp add: add.assoc)
qed simp

lemma byte_array_loop_safe:
  "n \<le> length p \<Longrightarrow> pos \<le> n \<Longrightarrow> byte_array_loop k p n pos = Some None \<or>
    (\<exists>vs e. byte_array_loop k p n pos = Some (Some (vs, e)) \<and> pos \<le> e \<and> e \<le> n \<and> length vs = k \<and> (\<forall>v \<in> set vs. ba_ok v))"
proof (induction k arbitrary: pos)
  case (Suc k)
  show ?case
  proof (cases "pos + 4 > n")
    case False
    then have "pos + 4 \<le> length p" using Suc.prems(1) by simp
    then obtain len where len: "carquet_read_u32_le p pos = Some len" by (simp add: read_u32_le_word)
    show ?thesis
    proof (cases "sint len < 0 \<or> pos + 4 + unat len > n")
      case True
      then show ?thesis using False len by auto
    next
      case ok: False
      then have next_pos: "pos + 4 + unat len \<le> n" by simp
      then have "unat len \<le> length p - (pos + 4)" using Suc.prems(1) by linarith
      then have "ba_ok \<lparr>ba_data = Some (drop (pos + 4) p), ba_length = len\<rparr>"
        using ok by (simp add: ba_ok_def)
      moreover note next_pos
      ultimately show ?thesis using Suc.IH [OF Suc.prems(1), of "pos + 4 + unat len"] False ok len by fastforce
    qed
  qed simp
qed simp

section \<open>Booleans\<close>

lemma pack_bits_ok:
  "k \<le> 8 \<Longrightarrow> count \<le> length input \<Longrightarrow> \<exists>b'. pack_bits [k..<8] input i count b = Some b' \<and>
     (\<forall>j < 8. bit b' j \<longleftrightarrow> bit b j \<or> (k \<le> j \<and> i + j < count \<and> input ! (i + j) \<noteq> 0))"
proof (induction "8 - k" arbitrary: k b)
  case (Suc m)
  then have k: "k < 8" "[k..<8] = k # [Suc k..<8]" by (simp_all add: upt_conv_Cons)
  show ?case
  proof (cases "i + k < count")
    case True
    let ?b = "if input ! (i + k) \<noteq> 0 then b OR push_bit k 1 else b"
    have "\<exists>b'. pack_bits [Suc k..<8] input i count ?b = Some b' \<and>
     (\<forall>j < 8. bit b' j \<longleftrightarrow> bit ?b j \<or> (Suc k \<le> j \<and> i + j < count \<and> input ! (i + j) \<noteq> 0))"
      using Suc.hyps(2) Suc.prems k(1) by (intro Suc.hyps(1)) simp_all
    then obtain b' where b': "pack_bits [Suc k..<8] input i count ?b = Some b'"
       "\<forall>j < 8. bit b' j \<longleftrightarrow> bit ?b j \<or> (Suc k \<le> j \<and> i + j < count \<and> input ! (i + j) \<noteq> 0)" by blast
    have "bit ?b j \<longleftrightarrow> bit b j \<or> (j = k \<and> input ! (i + k) \<noteq> 0)" if "j < 8" for j
      using that by (auto simp: bit_simps)
    then have "\<forall>j < 8. bit b' j \<longleftrightarrow> bit b j \<or> (k \<le> j \<and> i + j < count \<and> input ! (i + j) \<noteq> 0)"
      using b'(2) True by (auto simp: le_less Suc_le_eq)
    then show ?thesis using b'(1) True Suc.prems(2) k(2) by simp
  next
    case False
    then show ?thesis using k(2) by auto
  qed
qed simp

lemma pack_bools_ok:
  assumes "count \<le> length input"
  obtains bs where "scalar_pack_bools input count = Some bs" "length bs = (count + 7) div 8"
    "\<forall>i < count. bit (bs ! (i div 8)) (i mod 8) \<longleftrightarrow> input ! i \<noteq> 0"
proof -
  have "\<forall>g. \<exists>b. pack_bits [0..<8] input (8 * g) count 0 = Some b \<and>
     (\<forall>j < 8. bit b j \<longleftrightarrow> 8 * g + j < count \<and> input ! (8 * g + j) \<noteq> 0)"
    using pack_bits_ok [OF _ assms, of 0 "8 * g" 0 for g] by auto
  then obtain f where f: "pack_bits [0..<8] input (8 * g) count 0 = Some (f g)"
      "\<forall>j < 8. bit (f g) j \<longleftrightarrow> 8 * g + j < count \<and> input ! (8 * g + j) \<noteq> 0" for g
    by metis
  have "bit (map f [0..<(count + 7) div 8] ! (i div 8)) (i mod 8) \<longleftrightarrow> input ! i \<noteq> 0" if i: "i < count" for i
  proof -
    have "i div 8 < (count + 7) div 8" using i by (rule div8_less)
    then show ?thesis using f(2) [of "i div 8"] i by simp
  qed
  moreover have "scalar_pack_bools input count = Some (map f [0..<(count + 7) div 8])"
    unfolding scalar_pack_bools_def using f(1) by (intro those_Some) simp
  ultimately show thesis by (intro that [of "map f [0..<(count + 7) div 8]"]) simp_all
qed

lemma unpack_bools_ok:
  assumes "(count + 7) div 8 \<le> length p"
  shows "scalar_unpack_bools p count = Some (map (\<lambda>i. of_bool (bit (p ! (i div 8)) (i mod 8))) [0..<count])"
proof -
  have "rd p (i div 8) = Some (p ! (i div 8))" if "i < count" for i
  proof -
    have "i div 8 < (count + 7) div 8" using that by (rule div8_less)
    then show ?thesis using assms by simp
  qed
  moreover have "drop_bit m b AND 1 = of_bool (bit b m)" for m and b :: u8
    by (rule bit_eqI) (auto simp: bit_simps)
  ultimately show ?thesis unfolding scalar_unpack_bools_def by (intro those_Some) simp
qed

lemma advance_write:
  assumes "buf_wf out" and "carquet_buffer_advance A out n = (Some dest, out1)" and "length bs = n"
  shows "contents (out1\<lparr>buf_data := block_write (buf_data out1) dest bs\<rparr>) = contents out @ bs"
proof -
  have n: "n \<noteq> 0" using assms(2) by (cases "n = 0") (simp_all add: carquet_buffer_advance_def)
  obtain b1 where e: "ensure_capacity A out (buf_size out + n) = (CARQUET_OK, b1)"
    and o1: "dest = buf_size b1" "out1 = b1\<lparr>buf_size := buf_size b1 + n\<rparr>"
    using assms(2) n by (auto simp: carquet_buffer_advance_def add_overflows_size_def split: prod.splits if_splits)
  note b1 = ensure_capacity_cases [OF assms(1) e]
  have "buf_size b1 + length bs \<le> length (block_bytes (buf_data b1))" using b1 assms(3) by (simp add: buf_wf_def)
  then show ?thesis using b1 assms(3) n by (auto simp: o1 contents_def block_bytes_write)
qed

section \<open>Properties\<close>

text \<open>
  \<open>reads_back run out dec vs\<close>: if the encoder succeeds, it appends bytes to the buffer from which
  the decoder returns the values, consuming just those bytes, whatever follows them.
\<close>

definition reads_back :: "(carquet_status \<times> carquet_buffer) option \<Rightarrow> carquet_buffer \<Rightarrow>
    (u8 list option \<Rightarrow> nat \<Rightarrow> ('v list \<times> nat) option option) \<Rightarrow> 'v list \<Rightarrow> bool" where
  "reads_back run out dec vs \<longleftrightarrow> (\<forall>out'. run = Some (CARQUET_OK, out') \<longrightarrow> (\<exists>bs. contents out' = contents out @ bs \<and>
     (\<forall>rest. dec (Some (bs @ rest)) (length (bs @ rest)) = Some (Some (vs, length bs)))))"

lemma reads_backI:
  assumes "\<And>out'. run = Some (CARQUET_OK, out') \<Longrightarrow> contents out' = contents out @ bs"
    and "\<And>rest. dec (Some (bs @ rest)) (length (bs @ rest)) = Some (Some (vs, length bs))"
  shows "reads_back run out dec vs"
  using assms unfolding reads_back_def by blast

lemma append_array:
  assumes wf: "buf_wf out" and enc: "\<forall>v. length (enc v) = w" and app: "puts_as app enc" and small: "length vs * w < 2 ^ 64"
    and run: "(if le then append_bytes A out (concat (map enc vs)) (sz (length vs * w)) else append_loop app (length vs) vs 0 out) =
      Some (CARQUET_OK, out')"
  shows "contents out' = contents out @ concat (map enc vs)"
proof (cases le)
  case True
  have "length (concat (map enc vs)) = length vs * w" by (rule length_concat_fixed [OF enc])
  moreover have "append_bytes A out (concat (map enc vs)) (length vs * w) = Some (CARQUET_OK, out')"
    using run True small by (simp add: sz_id)
  ultimately show ?thesis using append_bytes_OK [OF wf] by (metis append_self_conv le_refl take_all)
next
  case False
  then show ?thesis using append_loop_OK [OF app wf] run by fastforce
qed

lemma memcpy_arrays:
  "memcpy_words 4 (concat (map (le_bytes 4) v32) @ rest) (length v32 * 4) = Some (v32 :: u32 list)"
  "memcpy_words 8 (concat (map (le_bytes 8) v64) @ rest) (length v64 * 8) = Some (v64 :: u64 list)"
  by (rule memcpy_array; simp add: le_word_le_bytes take_bit_full_word)+

lemma length_arrays:
  "length (concat (map (le_bytes 4) (v32 :: u32 list))) = length v32 * 4"
  "length (concat (map (le_bytes 8) (v64 :: u64 list))) = length v64 * 8"
  "length (concat (map int96_bytes v96)) = length v96 * 12"
  by (rule length_concat_fixed; simp)+

lemma array_reads_back:
  assumes "buf_wf out" and "\<forall>v. length (enc v) = w" and "puts_as app enc" and "length vs * w < 2 ^ 64"
    and "run = (if le then append_bytes A out (concat (map enc vs)) (sz (length vs * w)) else append_loop app (length vs) vs 0 out)"
    and "\<And>rest. dec (Some (concat (map enc vs) @ rest)) (length vs * w + length rest) = Some (Some (vs, length vs * w))"
  shows "reads_back run out dec vs"
proof -
  have l: "length (concat (map enc vs)) = length vs * w" by (rule length_concat_fixed [OF assms(2)])
  show ?thesis
  proof (rule reads_backI [of _ _ "concat (map enc vs)"])
    fix out' assume "run = Some (CARQUET_OK, out')"
    then show "contents out' = contents out @ concat (map enc vs)"
      unfolding assms(5) by (rule append_array [OF assms(1-4)])
  qed (use assms(6) l in \<open>simp del: length_concat\<close>)
qed


lemma no_alloc_needed: "carquet_buffer_append good_allocator carquet_buffer_init bs = (st, b) \<Longrightarrow> length bs \<le> 4096 \<Longrightarrow> st = CARQUET_OK"
proof -
  assume r: "carquet_buffer_append good_allocator carquet_buffer_init bs = (st, b)" and l: "length bs \<le> 4096"
  have "buf_room good_allocator carquet_buffer_init (length bs + 0)"
    using l init_wf by (simp add: buf_room_def buf_growable_def good_allocator_def carquet_buffer_init_def contents_def SIZE_MAX_def)
  from bsink.put_room_OK(1) [OF init_wf this] r show ?thesis by simp
qed


text \<open>C9: An array of byte arrays written as lengths and bytes is read back as views into the page with
  the same lengths and the same bytes.\<close>

theorem plain_byte_arrays_roundtrip:
  assumes "buf_wf out" and "\<forall>v \<in> set vs. ba_ok v"
    and "carquet_encode_plain_byte_array A (Some vs) (int (length vs)) out = Some (CARQUET_OK, out')"
  shows "\<exists>bs. contents out' = contents out @ bs \<and> (\<forall>rest. \<exists>vs'.
     carquet_decode_plain_byte_array (Some (bs @ rest)) (length (bs @ rest)) (int (length vs)) = Some (Some (vs', length bs)) \<and>
     map ba_bytes vs' = map ba_bytes vs \<and> map ba_length vs' = map ba_length vs)"
proof (intro exI [of _ "concat (map ba_enc vs)"] conjI allI)
  show "contents out' = contents out @ concat (map ba_enc vs)"
    using byte_arrays_append_OK [OF assms(1,2), of A "length vs" 0 out'] assms(3)
    by (simp add: carquet_encode_plain_byte_array_def)
  fix rest
  show "\<exists>vs'. carquet_decode_plain_byte_array (Some (concat (map ba_enc vs) @ rest)) (length (concat (map ba_enc vs) @ rest))
        (int (length vs)) = Some (Some (vs', length (concat (map ba_enc vs)))) \<and>
     map ba_bytes vs' = map ba_bytes vs \<and> map ba_length vs' = map ba_length vs"
    using byte_array_loop_ok [of "concat (map ba_enc vs) @ rest" "[]" vs rest "length (concat (map ba_enc vs) @ rest)"] assms(2)
    by (simp add: carquet_decode_plain_byte_array_def del: length_concat)
qed

theorem plain_byte_arrays_roundtrip_witness:
  "\<exists>out' bs. carquet_encode_plain_byte_array good_allocator (Some [\<lparr>ba_data = Some [7, 8], ba_length = 1\<rparr>]) 1 carquet_buffer_init =
       Some (CARQUET_OK, out') \<and> contents out' = bs \<and>
    (\<exists>vs'. carquet_decode_plain_byte_array (Some (bs @ [9])) (length (bs @ [9])) 1 = Some (Some (vs', length bs)) \<and>
     map ba_bytes vs' = [[7]] \<and> map ba_length vs' = [1])"
proof -
  let ?A = good_allocator and ?v = "\<lparr>ba_data = Some [7, 8], ba_length = 1\<rparr>" and ?l = "carquet_write_u32_le 1"
  have "buf_room ?A carquet_buffer_init (length ?l + 1)"
    using init_wf by (simp add: buf_room_def buf_growable_def good_allocator_def carquet_buffer_init_def contents_def SIZE_MAX_def)
  from bsink.put_room_OK [OF init_wf this] obtain s1 where
    s1: "carquet_buffer_append ?A carquet_buffer_init ?l = (CARQUET_OK, s1)" "buf_wf s1" "buf_room ?A s1 1"
    by (metis prod.collapse)
  from s1(3) have "buf_room ?A s1 (length [7 :: u8] + 0)" by simp
  from bsink.put_room_OK [OF s1(2) this] obtain s2 where s2: "carquet_buffer_append ?A s1 [7] = (CARQUET_OK, s2)"
    by (metis prod.collapse)
  have run: "carquet_encode_plain_byte_array ?A (Some [?v]) (int (length [?v])) carquet_buffer_init = Some (CARQUET_OK, s2)"
    using s1(1) s2 by (simp add: carquet_encode_plain_byte_array_def carquet_buffer_append_u32_le_def append_bytes_def rd_bytes_def)
  have "\<forall>v \<in> set [?v]. ba_ok v" by (simp add: ba_ok_def)
  from plain_byte_arrays_roundtrip [OF init_wf this run] obtain bs where
    "contents s2 = contents carquet_buffer_init @ bs" and
    "\<exists>vs'. carquet_decode_plain_byte_array (Some (bs @ [9])) (length (bs @ [9])) (int (length [?v])) = Some (Some (vs', length bs)) \<and>
     map ba_bytes vs' = map ba_bytes [?v] \<and> map ba_length vs' = map ba_length [?v]" by blast
  then show ?thesis using run by (auto simp: contents_def carquet_buffer_init_def ba_bytes_def)
qed

lemma those_all: "\<forall>x \<in> set xs. f x \<noteq> None \<Longrightarrow> \<exists>ys. those (map f xs) = Some ys"
  by (induction xs) auto

lemma memcpy_safe: "n \<le> length p \<Longrightarrow> k \<le> n \<Longrightarrow> \<exists>vs. memcpy_words w p k = Some vs"
  by (simp add: memcpy_words_def rd_bytes_def)

lemma loops_safe:
  assumes "n \<le> length p"
  shows "count * 4 \<le> n \<Longrightarrow> \<exists>vs. read_u32_loop p count = Some vs"
    and "count * 8 \<le> n \<Longrightarrow> \<exists>vs. read_u64_loop p count = Some vs"
    and "count * 12 \<le> n \<Longrightarrow> \<exists>vs. those (map (read_int96 p) [0..<count]) = Some vs"
    and "(count + 7) div 8 \<le> n \<Longrightarrow> \<exists>vs. scalar_unpack_bools p count = Some vs"
  using assms unpack_bools_ok [of count p] unfolding read_u32_loop_def read_u64_loop_def
  by (auto intro!: those_all simp: read_int96_def read_u32_le_word read_u64_le_word)

text \<open>The bytes a value of a type of fixed width takes.\<close>

definition plain_width :: "carquet_physical_type \<Rightarrow> int \<Rightarrow> nat" where
  "plain_width type type_length =
     (case type of CARQUET_PHYSICAL_INT32 \<Rightarrow> 4 | CARQUET_PHYSICAL_FLOAT \<Rightarrow> 4 | CARQUET_PHYSICAL_INT64 \<Rightarrow> 8
      | CARQUET_PHYSICAL_DOUBLE \<Rightarrow> 8 | CARQUET_PHYSICAL_INT96 \<Rightarrow> 12
      | CARQUET_PHYSICAL_FIXED_LEN_BYTE_ARRAY \<Rightarrow> nat type_length | _ \<Rightarrow> 0)"

definition one_by_one :: "bool \<Rightarrow> carquet_physical_type \<Rightarrow> bool" where
  "one_by_one le type \<longleftrightarrow> type = CARQUET_PHYSICAL_INT96 \<or>
     \<not> le \<and> type \<in> {CARQUET_PHYSICAL_INT32, CARQUET_PHYSICAL_FLOAT, CARQUET_PHYSICAL_INT64, CARQUET_PHYSICAL_DOUBLE}"

lemma those_None: "x \<in> set xs \<Longrightarrow> f x = None \<Longrightarrow> those (map f xs) = None"
  by (induction xs) (auto split: option.splits)

lemma loops_exact:
  shows "(read_u32_loop p count = None) = (length p < count * 4)"
    and "(read_u64_loop p count = None) = (length p < count * 8)"
    and "(those (map (read_int96 p) [0..<count]) = None) = (length p < count * 12)"
proof -
  have ex: "\<exists>vs. m = Some vs \<Longrightarrow> m \<noteq> None" for m :: "'z option" by auto
  have "read_u32_loop p count = None" if "length p < count * 4"
    unfolding read_u32_loop_def by (rule those_None [of "count - 1"]) (use that in \<open>auto simp: read_u32_le_word\<close>)
  then show "(read_u32_loop p count = None) = (length p < count * 4)"
    using loops_safe(1) [of "length p" p count] by (cases "length p < count * 4") auto
  have "read_u64_loop p count = None" if "length p < count * 8"
    unfolding read_u64_loop_def by (rule those_None [of "count - 1"]) (use that in \<open>auto simp: read_u64_le_word\<close>)
  then show "(read_u64_loop p count = None) = (length p < count * 8)"
    using loops_safe(2) [of "length p" p count] by (cases "length p < count * 8") auto
  have "those (map (read_int96 p) [0..<count]) = None" if "length p < count * 12"
    by (rule those_None [of "count - 1"]) (use that in \<open>auto simp: read_int96_def read_u32_le_word bind_eq_None_conv\<close>)
  then show "(those (map (read_int96 p) [0..<count]) = None) = (length p < count * 12)"
    using loops_safe(3) [of "length p" p count] by (cases "length p < count * 12") auto
qed

lemma wraps_iff:
  assumes "sz m \<le> n" and "n \<le> length p" and "length p < 2 ^ 64"
  shows "(length p < m) = (2 ^ 64 \<le> m)"
proof
  assume "length p < m"
  then show "2 ^ 64 \<le> m" using assms sz_id [of m] by (cases "m < 2 ^ 64") auto
qed (use assms in simp)



text \<open>An empty array of booleans cannot be encoded: \<open>carquet_buffer_advance\<close> of no bytes returns
  NULL, which the encoder takes for a failed allocation, whatever the buffer and the allocator. The
  encoders of the other types accept an empty array.\<close>

theorem plain_empty_booleans:
  "carquet_encode_plain_boolean A (Some vs) 0 out = Some (CARQUET_ERROR_OUT_OF_MEMORY, out) \<and>
   carquet_encode_plain_int32 le A (Some v32) 0 out = Some (CARQUET_OK, out) \<and>
   carquet_encode_plain_byte_array A (Some vb) 0 out = Some (CARQUET_OK, out)"
  by (simp add: carquet_encode_plain_boolean_def carquet_buffer_advance_def carquet_encode_plain_int32_def sz_def
      append_bytes_def rd_bytes_def carquet_buffer_append_def carquet_encode_plain_byte_array_def)

end
