(* ===== verification/Delta_Length.thy ===== *)
theory Delta_Length
  imports Delta Plain
begin

text \<open>
  Component src/encoding/delta_length.c: DELTA_LENGTH_BYTE_ARRAY, the lengths of byte arrays as a
  delta page and then their bytes.

  The array of values is taken to be there; the allocator is the one of the buffer. The header of
  an empty page is encoded into 64 bytes of the stack, the lengths into a fresh block: what they
  hold at first is the \<open>fresh\<close> of the allocator. A result is None on an access outside an array.
\<close>

section \<open>Decoding\<close>

text \<open>The sum of the lengths, None when one is negative.\<close>

fun sum_lengths :: "u32 list \<Rightarrow> nat \<Rightarrow> nat option" where
  "sum_lengths [] acc = Some acc"
| "sum_lengths (l # ls) acc = (if sint l < 0 then None else sum_lengths ls (acc + unat l))"

fun extract_arrays :: "u8 list \<Rightarrow> nat \<Rightarrow> u32 list \<Rightarrow> carquet_byte_array list" where
  "extract_arrays d pos [] = []"
| "extract_arrays d pos (l # ls) =
     \<lparr>ba_data = Some (drop pos d), ba_length = l\<rparr> # extract_arrays d (pos + unat l) ls"

text \<open>The values and \<open>*bytes_consumed\<close>.\<close>

definition carquet_delta_length_decode ::
  "allocator \<Rightarrow> u8 list option \<Rightarrow> nat \<Rightarrow> int \<Rightarrow> (carquet_status + carquet_byte_array list \<times> nat) option" where
  "carquet_delta_length_decode A data data_size num_values =
     (case data of None \<Rightarrow> Some (Inl CARQUET_ERROR_INVALID_ARGUMENT) | Some d \<Rightarrow>
        if num_values < 0 then Some (Inl CARQUET_ERROR_INVALID_ARGUMENT)
        else if num_values = 0 then do {
          r \<leftarrow> carquet_delta_decode_int32 d data_size 0;
          Some (case r of Inl st \<Rightarrow> Inl st | Inr (_, hdr_consumed) \<Rightarrow> Inr ([], hdr_consumed))
        }
        else if \<not> alloc_ok A (nat num_values * 4) then Some (Inl CARQUET_ERROR_OUT_OF_MEMORY)
        else do {
          r \<leftarrow> carquet_delta_decode_int32 d data_size (nat num_values);
          Some (case r of Inl st \<Rightarrow> Inl st | Inr (lengths, lengths_consumed) \<Rightarrow>
            (case sum_lengths lengths 0 of None \<Rightarrow> Inl CARQUET_ERROR_DECODE | Some total_data_size \<Rightarrow>
               if lengths_consumed + total_data_size > data_size then Inl CARQUET_ERROR_DECODE
               else Inr (extract_arrays d lengths_consumed lengths, lengths_consumed + total_data_size)))
        })"

section \<open>Encoding\<close>

text \<open>The loop that appends the bytes of the arrays.\<close>

definition append_array_bytes :: "allocator \<Rightarrow> carquet_buffer \<Rightarrow> carquet_byte_array \<Rightarrow> (carquet_status \<times> carquet_buffer) option" where
  "append_array_bytes A out v = (case ba_data v of
       Some d \<Rightarrow> if 0 < sint (ba_length v) then append_bytes A out d (unat (ba_length v)) else Some (CARQUET_OK, out)
     | None \<Rightarrow> Some (CARQUET_OK, out))"

fun append_arrays :: "allocator \<Rightarrow> carquet_buffer \<Rightarrow> carquet_byte_array list \<Rightarrow> (carquet_status \<times> carquet_buffer) option" where
  "append_arrays A out [] = Some (CARQUET_OK, out)"
| "append_arrays A out (v # vs) = do {
     (status, out1) \<leftarrow> append_array_bytes A out v;
     if status \<noteq> CARQUET_OK then Some (status, out1) else append_arrays A out1 vs
   }"

text \<open>
  \<open>values\<close> is the array the pointer stands for, with its \<open>num_values\<close> elements.
\<close>

definition carquet_delta_length_encode ::
  "allocator \<Rightarrow> carquet_byte_array list \<Rightarrow> carquet_buffer \<Rightarrow> (carquet_status \<times> carquet_buffer) option" where
  "carquet_delta_length_encode A vs out =
     (let num_values = length vs in
      if num_values = 0 then do {
        r \<leftarrow> carquet_delta_encode_int32 [] (map (fresh A) [0..<64]) 64;
        (case r of Inl st \<Rightarrow> Some (st, out) | Inr (header, written) \<Rightarrow> append_bytes A out header written)
      }
      else if \<not> alloc_ok A (num_values * 4) then Some (CARQUET_ERROR_OUT_OF_MEMORY, out)
      else let lengths_capacity = num_values * 10 + 100 in
        if \<not> alloc_ok A lengths_capacity then Some (CARQUET_ERROR_OUT_OF_MEMORY, out)
        else do {
          r \<leftarrow> carquet_delta_encode_int32 (map ba_length vs) (map (fresh A) [0..<lengths_capacity]) lengths_capacity;
          (case r of Inl st \<Rightarrow> Some (st, out) | Inr (lengths_buffer, lengths_written) \<Rightarrow> do {
             (status, out1) \<leftarrow> append_bytes A out lengths_buffer lengths_written;
             if status \<noteq> CARQUET_OK then Some (status, out1) else append_arrays A out1 vs
           })
        })"

text \<open>A length is added as an \<open>int32_t\<close> that is converted to \<open>size_t\<close>.\<close>

definition carquet_delta_length_max_encoded_size :: "carquet_byte_array list option \<Rightarrow> int \<Rightarrow> nat option" where
  "carquet_delta_length_max_encoded_size vals num_values =
     (case vals of None \<Rightarrow> Some 0 | Some vs \<Rightarrow>
        if num_values \<le> 0 then Some 0
        else do {
          ls \<leftarrow> rd_bytes (map (\<lambda>v. scast (ba_length v) :: u64) vs) 0 (nat num_values);
          Some (sz (unat (sum_list ls) + (nat num_values * 5 + 100)))
        })"

section \<open>Properties\<close>

lemma append_array_bytes_OK:
  assumes "buf_wf out" and "ba_ok v" and "append_array_bytes A out v = Some (CARQUET_OK, out')"
  shows "buf_wf out' \<and> contents out' = contents out @ ba_bytes v"
proof (cases "ba_data v")
  case None
  then show ?thesis using assms by (simp add: append_array_bytes_def ba_ok_def ba_bytes_def)
next
  case (Some d)
  show ?thesis
  proof (cases "0 < sint (ba_length v)")
    case True
    then show ?thesis using assms Some append_bytes_OK [of out A d "unat (ba_length v)" out']
      by (simp add: append_array_bytes_def ba_bytes_def)
  next
    case False
    moreover have "0 \<le> sint (ba_length v)" using assms(2) by (simp add: ba_ok_def)
    ultimately have "unat (ba_length v) = 0" using sint_pos_iff [of "ba_length v"] by linarith
    then show ?thesis using assms Some False by (simp add: append_array_bytes_def ba_bytes_def)
  qed
qed

lemma append_arrays_OK:
  "buf_wf out \<Longrightarrow> \<forall>v \<in> set vs. ba_ok v \<Longrightarrow> append_arrays A out vs = Some (CARQUET_OK, out') \<Longrightarrow>
    buf_wf out' \<and> contents out' = contents out @ concat (map ba_bytes vs)"
proof (induction vs arbitrary: out)
  case (Cons v vs)
  obtain st out1 where r: "append_array_bytes A out v = Some (st, out1)"
    using Cons.prems(3) by (cases "append_array_bytes A out v") auto
  then have "st = CARQUET_OK" "append_arrays A out1 vs = Some (CARQUET_OK, out')"
    using Cons.prems(3) by (auto split: if_splits)
  then show ?case using append_array_bytes_OK [OF Cons.prems(1)] Cons.prems(2) Cons.IH [of out1] r by fastforce
qed simp

lemma sum_lengths_ok:
  "\<forall>v \<in> set vs. ba_ok v \<Longrightarrow> sum_lengths (map ba_length vs) acc = Some (acc + length (concat (map ba_bytes vs)))"
proof (induction vs arbitrary: acc)
  case (Cons v vs)
  then have "\<not> sint (ba_length v) < 0" "length (ba_bytes v) = unat (ba_length v)"
    by (auto simp: ba_ok_def length_ba_bytes)
  then show ?case using Cons by simp
qed simp

text \<open>Views at consecutive places of the page.\<close>

lemma extract_arrays_ok:
  "\<forall>v \<in> set vs. ba_ok v \<Longrightarrow> d = pre @ concat (map ba_bytes vs) @ post \<Longrightarrow>
    map ba_bytes (extract_arrays d (length pre) (map ba_length vs)) = map ba_bytes vs \<and>
    map ba_length (extract_arrays d (length pre) (map ba_length vs)) = map ba_length vs"
proof (induction vs arbitrary: pre)
  case (Cons v vs)
  have l: "length (ba_bytes v) = unat (ba_length v)" using Cons.prems(1) by (simp add: length_ba_bytes)
  have "d = (pre @ ba_bytes v) @ concat (map ba_bytes vs) @ post" using Cons.prems(2) by simp
  from Cons.IH [OF _ this] Cons.prems(1)
  have IH: "map ba_bytes (extract_arrays d (length pre + unat (ba_length v)) (map ba_length vs)) = map ba_bytes vs \<and>
    map ba_length (extract_arrays d (length pre + unat (ba_length v)) (map ba_length vs)) = map ba_length vs"
    by (simp add: l)
  have "drop (length pre) d = ba_bytes v @ concat (map ba_bytes vs) @ post" using Cons.prems(2) by simp
  then have "ba_bytes \<lparr>ba_data = Some (drop (length pre) d), ba_length = ba_length v\<rparr> = ba_bytes v"
    using l by (subst ba_bytes_def) simp
  then show ?case using IH by simp
qed simp

lemma int32_encode_error:
  assumes "carquet_delta_encode_int32 vs d cap = Some (Inl st)"
  shows "st \<noteq> CARQUET_OK"
  using assms unfolding encode_int32_int64 carquet_delta_encode_int64_def Let_def
  by (auto simp: bind_Some_iff split: if_splits list.splits)

text \<open>The two cases of the encoder have the same shape.\<close>

lemma length_encode_steps:
  assumes "carquet_delta_length_encode A vs out = Some (CARQUET_OK, out')"
  obtains d n cap out1 where "carquet_delta_encode_int32 (map ba_length vs) (map (fresh A) [0..<cap]) cap = Some (Inr (d, n))"
    "append_bytes A out d n = Some (CARQUET_OK, out1)" "append_arrays A out1 vs = Some (CARQUET_OK, out')"
proof (cases "vs = []")
  case True
  note Nil = True
  then obtain r where r: "carquet_delta_encode_int32 [] (map (fresh A) [0..<64]) 64 = Some r"
    using assms by (auto simp: carquet_delta_length_encode_def bind_Some_iff)
  show thesis
  proof (cases r)
    case (Inl st)
    then show thesis using assms Nil r int32_encode_error [of "[]"] by (auto simp: carquet_delta_length_encode_def)
  next
    case (Inr x)
    then show thesis using assms Nil r that [of 64] by (cases x) (simp add: carquet_delta_length_encode_def)
  qed
next
  case False
  note Cons = False
  let ?cap = "length vs * 10 + 100"
  obtain r where r: "carquet_delta_encode_int32 (map ba_length vs) (map (fresh A) [0..<?cap]) ?cap = Some r"
    using assms Cons by (auto simp: carquet_delta_length_encode_def Let_def bind_Some_iff split: if_splits)
  show thesis
  proof (cases r)
    case (Inl st)
    then show thesis using assms Cons r int32_encode_error [of "map ba_length vs"]
      by (auto simp: carquet_delta_length_encode_def Let_def split: if_splits)
  next
    case (Inr x)
    obtain d n where x: "x = (d, n)" by (cases x)
    have run: "do { (status, out1) \<leftarrow> append_bytes A out d n;
        if status \<noteq> CARQUET_OK then Some (status, out1) else append_arrays A out1 vs } = Some (CARQUET_OK, out')"
      using assms Cons r Inr x by (simp add: carquet_delta_length_encode_def Let_def split: if_splits)
    then obtain st out1 where a: "append_bytes A out d n = Some (st, out1)" by (cases "append_bytes A out d n") auto
    then show thesis using that [of ?cap d n out1] r Inr x run by (auto split: if_splits)
  qed
qed

text \<open>C25: Byte arrays written in DELTA_LENGTH_BYTE_ARRAY are read back from the bytes appended to the
  buffer as views with the same lengths and bytes, and as many bytes are consumed as were written,
  whatever follows the page. An empty page works too.\<close>

theorem delta_length_roundtrip:
  assumes "buf_wf out" and "\<forall>v \<in> set vs. ba_ok v" and "alloc_ok A' (length vs * 4)"
    and "carquet_delta_length_encode A vs out = Some (CARQUET_OK, out')"
  shows "\<exists>bs. contents out' = contents out @ bs \<and> (\<forall>rest. \<exists>vs'.
     carquet_delta_length_decode A' (Some (bs @ rest)) (length (bs @ rest)) (int (length vs)) = Some (Inr (vs', length bs)) \<and>
     map ba_bytes vs' = map ba_bytes vs \<and> map ba_length vs' = map ba_length vs)"
proof -
  obtain d n cap out1 where enc: "carquet_delta_encode_int32 (map ba_length vs) (map (fresh A) [0..<cap]) cap = Some (Inr (d, n))"
    and a1: "append_bytes A out d n = Some (CARQUET_OK, out1)" and a2: "append_arrays A out1 vs = Some (CARQUET_OK, out')"
    by (rule length_encode_steps [OF assms(4)])
  note o1 = append_bytes_OK [OF assms(1) a1]
  then have n: "n \<le> length d" "buf_wf out1" "contents out1 = contents out @ take n d" by simp_all
  note o2 = append_arrays_OK [OF n(2) assms(2) a2]
  let ?data = "concat (map ba_bytes vs)"
  have "carquet_delta_length_decode A' (Some ((take n d @ ?data) @ rest)) (length ((take n d @ ?data) @ rest)) (int (length vs)) =
      Some (Inr (extract_arrays ((take n d @ ?data) @ rest) n (map ba_length vs), length (take n d @ ?data)))" for rest
  proof -
    have dec: "carquet_delta_decode_int32 (take n d @ ?data @ rest) (n + length (?data @ rest)) (length vs) = Some (Inr (map ba_length vs, n))"
      using int32_page [OF _ enc, of "?data @ rest"] by simp
    show ?thesis
    proof (cases "vs = []")
      case True
      then show ?thesis using dec n(1) by (simp add: carquet_delta_length_decode_def)
    next
      case False
      then show ?thesis using dec n(1) sum_lengths_ok [OF assms(2), of 0] assms(3)
        by (simp add: carquet_delta_length_decode_def del: length_concat)
    qed
  qed
  moreover have "map ba_bytes (extract_arrays ((take n d @ ?data) @ rest) n (map ba_length vs)) = map ba_bytes vs \<and>
      map ba_length (extract_arrays ((take n d @ ?data) @ rest) n (map ba_length vs)) = map ba_length vs" for rest
    using extract_arrays_ok [OF assms(2), of "(take n d @ ?data) @ rest" "take n d" rest] n(1) by (simp add: min_absorb2)
  ultimately show ?thesis using o2 n(3) by (intro exI [of _ "take n d @ ?data"]) auto
qed

lemma append_bytes_room:
  assumes "buf_wf out" and "buf_room A out (n + m)" and "n \<le> length p"
  obtains out1 where "append_bytes A out p n = Some (CARQUET_OK, out1)" "buf_wf out1" "buf_room A out1 m"
proof -
  have "buf_room A out (length (take n p) + m)" using assms(2,3) by (simp add: min_absorb2)
  from bsink.put_room_OK [OF assms(1) this] assms(3) that [of "snd (carquet_buffer_append A out (take n p))"] show thesis
    by (metis append_bytes_def Option.bind.simps(2) add_0 drop0 prod.collapse rd_bytes_in)
qed

lemma empty_room: "n \<le> 100000 \<Longrightarrow> buf_room good_allocator carquet_buffer_init n"
  using init_wf by (simp add: buf_room_def buf_growable_def good_allocator_def carquet_buffer_init_def contents_def SIZE_MAX_def)

lemma encode_one:
  assumes "40 \<le> cap" and "length d = cap"
  obtains d' n where "carquet_delta_encode_int32 [l] d cap = Some (Inr (d', n))" "length d' = cap" "n \<le> cap"
proof (cases rule: encode_int64_ok [OF assms, of "scast l" "[]"])
  case 1
  then show thesis using assms(1) by (simp add: blocks_need_def)
next
  case (2 body rest)
  then show thesis using that encode_int32_int64 [of "[l]" d cap] by simp
qed

theorem delta_length_roundtrip_witness:
  "\<exists>out' bs. carquet_delta_length_encode good_allocator [\<lparr>ba_data = Some [7, 8], ba_length = 1\<rparr>] carquet_buffer_init =
       Some (CARQUET_OK, out') \<and> contents out' = bs \<and>
    (\<exists>vs'. carquet_delta_length_decode good_allocator (Some (bs @ [9])) (length (bs @ [9])) 1 = Some (Inr (vs', length bs)) \<and>
     map ba_bytes vs' = [[7]] \<and> map ba_length vs' = [1])"
proof -
  let ?A = good_allocator and ?v = "\<lparr>ba_data = Some [7, 8], ba_length = 1\<rparr>"
  let ?d = "map (fresh ?A) [0..<110]"
  have "(40 :: nat) \<le> 110" "length ?d = 110" by simp_all
  then obtain d' n where e: "carquet_delta_encode_int32 [1] ?d 110 = Some (Inr (d', n))" "length d' = 110" "n \<le> 110"
    by (rule encode_one)
  have "buf_room ?A carquet_buffer_init (n + 1)" "n \<le> length d'" using e by (auto intro: empty_room)
  from append_bytes_room [OF init_wf this] obtain s1 where
    s1: "append_bytes ?A carquet_buffer_init d' n = Some (CARQUET_OK, s1)" "buf_wf s1" "buf_room ?A s1 1" .
  from s1(3) have "buf_room ?A s1 (1 + 0)" by simp
  from append_bytes_room [OF s1(2) this, of "[7, 8]"] obtain s2 where
    s2: "append_bytes ?A s1 [7, 8] 1 = Some (CARQUET_OK, s2)" by auto
  have alloc: "alloc_ok ?A n" for n by (simp add: good_allocator_def)
  have run: "carquet_delta_length_encode ?A [?v] carquet_buffer_init = Some (CARQUET_OK, s2)"
    using e(1) s1(1) s2 alloc by (simp add: carquet_delta_length_encode_def append_array_bytes_def Let_def)
  have "\<forall>v \<in> set [?v]. ba_ok v" by (simp add: ba_ok_def)
  from delta_length_roundtrip [OF init_wf this alloc run] obtain bs where
    "contents s2 = contents carquet_buffer_init @ bs" and
    "\<exists>vs'. carquet_delta_length_decode ?A (Some (bs @ [9])) (length (bs @ [9])) (int (length [?v])) = Some (Inr (vs', length bs)) \<and>
     map ba_bytes vs' = map ba_bytes [?v] \<and> map ba_length vs' = map ba_length [?v]" by blast
  then show ?thesis using run by (auto simp: contents_def carquet_buffer_init_def ba_bytes_def)
qed

end
