(* ===== verification/Delta_Strings.thy ===== *)
theory Delta_Strings
  imports Delta_Length
begin

text \<open>
  Component src/encoding/delta_strings.c: DELTA_BYTE_ARRAY, byte arrays as the length of the prefix
  shared with the previous one, the length of the rest, and the rests.

  The decoder rebuilds the strings in a work buffer the caller gives; the values are pointers into
  it, here the bytes from an offset on after the last write. The sum of two lengths is an
  \<open>int32_t\<close> addition, written as the one on words that compilers make of it.
\<close>

section \<open>Prefixes\<close>

text \<open>The loop over the first \<open>n\<close> bytes of both, from byte \<open>i\<close> on.\<close>

fun common_prefix_loop :: "nat \<Rightarrow> u8 list \<Rightarrow> u8 list \<Rightarrow> nat \<Rightarrow> nat \<Rightarrow> nat option" where
  "common_prefix_loop 0 a b i prefix_len = Some prefix_len"
| "common_prefix_loop (Suc n) a b i prefix_len = do {
     x \<leftarrow> rd a i;
     y \<leftarrow> rd b i;
     if x \<noteq> y then Some prefix_len else common_prefix_loop n a b (i + 1) (prefix_len + 1)
   }"

definition common_prefix_length :: "u8 list \<Rightarrow> u32 \<Rightarrow> u8 list \<Rightarrow> u32 \<Rightarrow> u32 option" where
  "common_prefix_length a a_len b b_len =
     map_option of_nat (common_prefix_loop (unat (if a_len < b_len then a_len else b_len)) a b 0 0)"

section \<open>Decoding\<close>

text \<open>The sum of the suffix lengths, None when a length is negative.\<close>

fun sum_suffixes :: "u32 list \<Rightarrow> u32 list \<Rightarrow> nat \<Rightarrow> nat option" where
  "sum_suffixes (p # ps) (s # ss) acc = (if sint s < 0 \<or> sint p < 0 then None else sum_suffixes ps ss (acc + unat s))"
| "sum_suffixes ps ss acc = Some acc"

text \<open>
  The loop that rebuilds the strings: the offsets and lengths of the values and the work buffer,
  or the error. \<open>prev\<close> is the offset of the previous string, None for NULL.
\<close>

fun rebuild_strings :: "u32 list \<Rightarrow> u32 list \<Rightarrow> u8 list \<Rightarrow> nat \<Rightarrow> nat \<Rightarrow> u8 list \<Rightarrow> nat \<Rightarrow> nat option \<Rightarrow> u32 \<Rightarrow>
   (carquet_status + (nat \<times> u32) list \<times> u8 list) option" where
  "rebuild_strings (prefix_len # ps) (suffix_len # ss) data suffix_pos work_buffer_size work work_offset prev prev_len =
     (let total_len = prefix_len + suffix_len in
      if work_offset + unat total_len > work_buffer_size then Some (Inl CARQUET_ERROR_OUT_OF_MEMORY)
      else if 0 < sint prefix_len \<and> (prev = None \<or> sint prefix_len > sint prev_len) then Some (Inl CARQUET_ERROR_DECODE)
      else do {
        work1 \<leftarrow> (case prev of
            Some q \<Rightarrow> if 0 < sint prefix_len then do {
                bs \<leftarrow> rd_bytes work q (unat prefix_len);
                wr_bytes work work_offset bs
              } else Some work
          | None \<Rightarrow> Some work);
        (work2, suffix_pos2) \<leftarrow> (if 0 < sint suffix_len then do {
              bs \<leftarrow> rd_bytes data suffix_pos (unat suffix_len);
              w \<leftarrow> wr_bytes work1 (work_offset + unat prefix_len) bs;
              Some (w, suffix_pos + unat suffix_len)
            } else Some (work1, suffix_pos));
        r \<leftarrow> rebuild_strings ps ss data suffix_pos2 work_buffer_size work2 (work_offset + unat total_len)
               (Some work_offset) total_len;
        Some (case r of Inl st \<Rightarrow> Inl st | Inr (vals, w) \<Rightarrow> Inr ((work_offset, total_len) # vals, w))
      })"
| "rebuild_strings ps ss data suffix_pos work_buffer_size work work_offset prev prev_len = Some (Inr ([], work))"

definition view_of :: "u8 list \<Rightarrow> nat \<times> u32 \<Rightarrow> carquet_byte_array" where
  "view_of work v = \<lparr>ba_data = Some (drop (fst v) work), ba_length = snd v\<rparr>"

text \<open>
  The two arrays of lengths and the position after them; the block for them is two allocations of
  the same size.
\<close>

definition decode_lengths ::
  "u8 list \<Rightarrow> nat \<Rightarrow> nat \<Rightarrow> (carquet_status + u32 list \<times> u32 list \<times> nat) option" where
  "decode_lengths d data_size num_values = do {
     r1 \<leftarrow> carquet_delta_decode_int32 d data_size num_values;
     (case r1 of Inl st \<Rightarrow> Some (Inl st) | Inr (prefix_lengths, c1) \<Rightarrow> do {
        r2 \<leftarrow> carquet_delta_decode_int32 (drop c1 d) (data_size - c1) num_values;
        Some (case r2 of Inl st \<Rightarrow> Inl st | Inr (suffix_lengths, c2) \<Rightarrow> Inr (prefix_lengths, suffix_lengths, c1 + c2))
      })
   }"

text \<open>The values, the work buffer and \<open>*bytes_consumed\<close>.\<close>

definition carquet_delta_strings_decode ::
  "allocator \<Rightarrow> u8 list option \<Rightarrow> nat \<Rightarrow> int \<Rightarrow> u8 list \<Rightarrow> nat \<Rightarrow>
   (carquet_status + carquet_byte_array list \<times> u8 list \<times> nat) option" where
  "carquet_delta_strings_decode A data data_size num_values work_buffer work_buffer_size =
     (case data of None \<Rightarrow> Some (Inl CARQUET_ERROR_INVALID_ARGUMENT) | Some d \<Rightarrow>
        if num_values < 0 then Some (Inl CARQUET_ERROR_INVALID_ARGUMENT)
        else if num_values = 0 then do {
          r \<leftarrow> decode_lengths d data_size 0;
          Some (case r of Inl st \<Rightarrow> Inl st | Inr (_, _, pos) \<Rightarrow> Inr ([], work_buffer, pos))
        }
        else if \<not> alloc_ok A (nat num_values * 4) then Some (Inl CARQUET_ERROR_OUT_OF_MEMORY)
        else do {
          r \<leftarrow> decode_lengths d data_size (nat num_values);
          (case r of Inl st \<Rightarrow> Some (Inl st) | Inr (prefix_lengths, suffix_lengths, pos) \<Rightarrow>
            (case sum_suffixes prefix_lengths suffix_lengths 0 of
               None \<Rightarrow> Some (Inl CARQUET_ERROR_DECODE)
             | Some total_suffix_size \<Rightarrow>
                 if pos + total_suffix_size > data_size then Some (Inl CARQUET_ERROR_DECODE)
                 else do {
                   r2 \<leftarrow> rebuild_strings prefix_lengths suffix_lengths d pos work_buffer_size work_buffer 0 None 0;
                   Some (case r2 of Inl st \<Rightarrow> Inl st
                     | Inr (vals, work) \<Rightarrow> Inr (map (view_of work) vals, work, pos + total_suffix_size))
                 }))
        })"

text \<open>The sum of all lengths, None when one is negative.\<close>

fun sum_both :: "u32 list \<Rightarrow> u32 list \<Rightarrow> nat \<Rightarrow> nat option" where
  "sum_both (p # ps) (s # ss) acc = (if sint p < 0 \<or> sint s < 0 then None else sum_both ps ss (acc + (unat p + unat s)))"
| "sum_both ps ss acc = Some acc"

definition carquet_delta_strings_decoded_size ::
  "allocator \<Rightarrow> u8 list option \<Rightarrow> nat \<Rightarrow> int \<Rightarrow> (carquet_status + nat) option" where
  "carquet_delta_strings_decoded_size A data data_size num_values =
     (case data of None \<Rightarrow> Some (Inl CARQUET_ERROR_INVALID_ARGUMENT) | Some d \<Rightarrow>
        if num_values \<le> 0 then Some (Inl CARQUET_ERROR_INVALID_ARGUMENT)
        else if \<not> alloc_ok A (nat num_values * 4) then Some (Inl CARQUET_ERROR_OUT_OF_MEMORY)
        else do {
          r \<leftarrow> decode_lengths d data_size (nat num_values);
          Some (case r of Inl st \<Rightarrow> Inl st | Inr (prefix_lengths, suffix_lengths, _) \<Rightarrow>
            (case sum_both prefix_lengths suffix_lengths 0 of None \<Rightarrow> Inl CARQUET_ERROR_DECODE | Some n \<Rightarrow> Inr n))
        })"

section \<open>Encoding\<close>

text \<open>The loop over the values: the prefix and suffix lengths.\<close>

fun string_lengths :: "carquet_byte_array option \<Rightarrow> carquet_byte_array list \<Rightarrow> (u32 list \<times> u32 list) option" where
  "string_lengths prev [] = Some ([], [])"
| "string_lengths prev (v # vs) = do {
     prefix_len \<leftarrow> (case prev of
         None \<Rightarrow> Some 0
       | Some u \<Rightarrow> common_prefix_length (block_bytes (ba_data u)) (ba_length u) (block_bytes (ba_data v)) (ba_length v));
     (ps, ss) \<leftarrow> string_lengths (Some v) vs;
     Some (prefix_len # ps, (ba_length v - prefix_len) # ss)
   }"

text \<open>The loop that appends the suffixes; it computes the prefixes again.\<close>

fun append_suffixes :: "allocator \<Rightarrow> carquet_byte_array option \<Rightarrow> carquet_byte_array list \<Rightarrow> u32 list \<Rightarrow> carquet_buffer \<Rightarrow>
   (carquet_status \<times> carquet_buffer) option" where
  "append_suffixes A prev (v # vs) (suffix_len # ss) out = do {
     prefix_len \<leftarrow> (case prev of
         None \<Rightarrow> Some 0
       | Some u \<Rightarrow> common_prefix_length (block_bytes (ba_data u)) (ba_length u) (block_bytes (ba_data v)) (ba_length v));
     (status, out1) \<leftarrow> (case ba_data v of
         Some d \<Rightarrow> if 0 < sint suffix_len then append_bytes A out (drop (unat prefix_len) d) (unat suffix_len)
                   else Some (CARQUET_OK, out)
       | None \<Rightarrow> Some (CARQUET_OK, out));
     if status \<noteq> CARQUET_OK then Some (status, out1) else append_suffixes A (Some v) vs ss out1
   }"
| "append_suffixes A prev vs ss out = Some (CARQUET_OK, out)"

text \<open>
  The second page is encoded into the array the first was encoded into; \<open>d\<close> is the array before.
\<close>

definition append_delta :: "allocator \<Rightarrow> u32 list \<Rightarrow> u8 list \<Rightarrow> nat \<Rightarrow> carquet_buffer \<Rightarrow>
   (carquet_status \<times> carquet_buffer \<times> u8 list) option" where
  "append_delta A lengths d capacity out = do {
     r \<leftarrow> carquet_delta_encode_int32 lengths d capacity;
     (case r of Inl st \<Rightarrow> Some (st, out, d) | Inr (d', bytes_written) \<Rightarrow> do {
        (status, out1) \<leftarrow> append_bytes A out d' bytes_written;
        Some (status, out1, d')
      })
   }"

definition carquet_delta_strings_encode ::
  "allocator \<Rightarrow> carquet_byte_array list \<Rightarrow> carquet_buffer \<Rightarrow> (carquet_status \<times> carquet_buffer) option" where
  "carquet_delta_strings_encode A vs out =
     (let num_values = length vs in
      if num_values = 0 then do {
        r \<leftarrow> carquet_delta_encode_int32 [] (map (fresh A) [0..<64]) 64;
        (case r of Inl st \<Rightarrow> Some (st, out) | Inr (header, written) \<Rightarrow> do {
           (s, out1) \<leftarrow> append_bytes A out header written;
           if s \<noteq> CARQUET_OK then Some (s, out1) else append_bytes A out1 header written
         })
      }
      else if \<not> alloc_ok A (num_values * 4) then Some (CARQUET_ERROR_OUT_OF_MEMORY, out)
      else do {
        (prefix_lengths, suffix_lengths) \<leftarrow> string_lengths None vs;
        let delta_capacity = num_values * 10 + 100;
        if \<not> alloc_ok A delta_capacity then Some (CARQUET_ERROR_OUT_OF_MEMORY, out)
        else do {
          (st1, out1, d1) \<leftarrow> append_delta A prefix_lengths (map (fresh A) [0..<delta_capacity]) delta_capacity out;
          if st1 \<noteq> CARQUET_OK then Some (st1, out1)
          else do {
            (st2, out2, d2) \<leftarrow> append_delta A suffix_lengths d1 delta_capacity out1;
            if st2 \<noteq> CARQUET_OK then Some (st2, out2) else append_suffixes A None vs suffix_lengths out2
          }
        }
      })"

section \<open>Sizes\<close>

definition carquet_delta_strings_work_buffer_size :: "carquet_byte_array list option \<Rightarrow> int \<Rightarrow> nat option" where
  "carquet_delta_strings_work_buffer_size vals num_values =
     (case vals of None \<Rightarrow> Some 0 | Some vs \<Rightarrow>
        if num_values \<le> 0 then Some 0
        else do {
          ls \<leftarrow> rd_bytes (map (\<lambda>v. scast (ba_length v) :: u64) vs) 0 (nat num_values);
          Some (unat (sum_list ls))
        })"

definition carquet_delta_strings_max_encoded_size :: "carquet_byte_array list option \<Rightarrow> int \<Rightarrow> nat option" where
  "carquet_delta_strings_max_encoded_size vals num_values =
     (case vals of None \<Rightarrow> Some 0 | Some vs \<Rightarrow>
        if num_values \<le> 0 then Some 0
        else do {
          ls \<leftarrow> rd_bytes (map (\<lambda>v. scast (ba_length v) :: u64) vs) 0 (nat num_values);
          Some (sz (unat (sum_list ls) + (nat num_values * 10 + 200)))
        })"

section \<open>Shared prefixes\<close>

lemma common_prefix_loop_ok:
  "i + n \<le> length a \<Longrightarrow> i + n \<le> length b \<Longrightarrow>
    \<exists>k. common_prefix_loop n a b i p = Some (p + k) \<and> k \<le> n \<and> take k (drop i a) = take k (drop i b)"
proof (induction n arbitrary: i p)
  case (Suc n)
  show ?case
  proof (cases "a ! i = b ! i")
    case True
    obtain k where k: "common_prefix_loop n a b (i + 1) (p + 1) = Some (p + 1 + k)" "k \<le> n"
      "take k (drop (i + 1) a) = take k (drop (i + 1) b)"
      using Suc.IH [of "i + 1" "p + 1"] Suc.prems by auto
    have "take (Suc k) (drop i a) = take (Suc k) (drop i b)"
      using True k(3) Suc.prems by (simp add: drop_eq_Cons)
    then show ?thesis using True k(1,2) Suc.prems by (intro exI [of _ "Suc k"]) simp
  next
    case False
    then show ?thesis using Suc.prems by (intro exI [of _ 0]) simp
  qed
qed simp

abbreviation ba_len :: "carquet_byte_array \<Rightarrow> nat" where
  "ba_len v \<equiv> unat (ba_length v)"

text \<open>The prefix of \<open>v\<close> after \<open>prev\<close>, as both loops of the encoder compute it.\<close>

definition prefix_of :: "carquet_byte_array option \<Rightarrow> carquet_byte_array \<Rightarrow> u32 option" where
  "prefix_of prev v = (case prev of None \<Rightarrow> Some 0
     | Some u \<Rightarrow> common_prefix_length (block_bytes (ba_data u)) (ba_length u) (block_bytes (ba_data v)) (ba_length v))"

lemma prefix_of_ok:
  assumes "ba_ok v" and "\<forall>u. prev = Some u \<longrightarrow> ba_ok u"
  obtains p where "prefix_of prev v = Some p" "unat p \<le> ba_len v" "prev = None \<longrightarrow> p = 0"
    "\<forall>u. prev = Some u \<longrightarrow> unat p \<le> ba_len u \<and> take (unat p) (ba_bytes u) = take (unat p) (ba_bytes v)"
proof (cases prev)
  case None
  then show thesis using that [of 0] by (simp add: prefix_of_def)
next
  case (Some u)
  let ?a = "block_bytes (ba_data u)" and ?b = "block_bytes (ba_data v)"
  let ?n = "unat (if ba_length u < ba_length v then ba_length u else ba_length v)"
  have n: "?n \<le> ba_len u" "?n \<le> ba_len v" by (auto simp: word_less_nat_alt)
  moreover have "ba_len u \<le> length ?a" "ba_len v \<le> length ?b" using assms Some by (simp_all add: ba_ok_def)
  ultimately have "0 + ?n \<le> length ?a" "0 + ?n \<le> length ?b" by linarith+
  from common_prefix_loop_ok [OF this, of 0] obtain k where k: "common_prefix_loop ?n ?a ?b 0 0 = Some k" "k \<le> ?n"
    "take k ?a = take k ?b" by auto
  have "unat (of_nat k :: u32) = k"
    using k(2) unsigned_less [where 'a = nat, of "if ba_length u < ba_length v then ba_length u else ba_length v"]
    by (simp add: unat_of_nat)
  moreover have "take k (ba_bytes u) = take k (ba_bytes v)"
    using k(2,3) n by (simp add: ba_bytes_def min_def)
  ultimately show thesis
    using Some k n by (intro that [of "of_nat k"]) (auto simp: prefix_of_def common_prefix_length_def)
qed

text \<open>
  \<open>pieces prev vs ps ss S\<close>: the prefix and suffix lengths of the strings that follow \<open>prev\<close>,
  and the concatenation of the suffixes.
\<close>

fun pieces :: "carquet_byte_array option \<Rightarrow> carquet_byte_array list \<Rightarrow> u32 list \<Rightarrow> u32 list \<Rightarrow> u8 list \<Rightarrow> bool" where
  "pieces prev [] ps ss S \<longleftrightarrow> ps = [] \<and> ss = [] \<and> S = []"
| "pieces prev (v # vs) ps ss S \<longleftrightarrow> (\<exists>p ps' ss' S'. ps = p # ps' \<and> ss = (ba_length v - p) # ss' \<and>
     prefix_of prev v = Some p \<and> unat p \<le> ba_len v \<and> (prev = None \<longrightarrow> p = 0) \<and>
     (\<forall>u. prev = Some u \<longrightarrow> unat p \<le> ba_len u \<and> take (unat p) (ba_bytes u) = take (unat p) (ba_bytes v)) \<and>
     S = drop (unat p) (ba_bytes v) @ S' \<and> pieces (Some v) vs ps' ss' S')"

lemma string_lengths_pieces:
  "\<forall>v \<in> set vs. ba_ok v \<Longrightarrow> \<forall>u. prev = Some u \<longrightarrow> ba_ok u \<Longrightarrow>
    \<exists>ps ss S. string_lengths prev vs = Some (ps, ss) \<and> pieces prev vs ps ss S \<and> length ps = length vs \<and> length ss = length vs"
proof (induction vs arbitrary: prev)
  case (Cons v vs)
  have ok: "ba_ok v" using Cons.prems(1) by simp
  obtain p where p: "prefix_of prev v = Some p" "unat p \<le> ba_len v" "prev = None \<longrightarrow> p = 0"
    "\<forall>u. prev = Some u \<longrightarrow> unat p \<le> ba_len u \<and> take (unat p) (ba_bytes u) = take (unat p) (ba_bytes v)"
    by (rule prefix_of_ok [OF ok Cons.prems(2)])
  obtain ps ss S where "string_lengths (Some v) vs = Some (ps, ss)" "pieces (Some v) vs ps ss S"
    "length ps = length vs" "length ss = length vs"
    using Cons.IH [of "Some v"] Cons.prems(1) by auto
  then show ?case using p
    by (intro exI [of _ "p # ps"] exI [of _ "(ba_length v - p) # ss"] exI [of _ "drop (unat p) (ba_bytes v) @ S"])
      (simp add: prefix_of_def)
qed simp

text \<open>The numbers of one piece.\<close>

lemma piece_numbers:
  assumes "ba_ok v" and "unat p \<le> ba_len v"
  shows "unat (ba_length v - p) = ba_len v - unat p" and "0 \<le> sint p" and "0 \<le> sint (ba_length v - p)"
    and "sint p = int (unat p)" and "sint (ba_length v - p) = int (ba_len v - unat p)"
proof -
  have l: "ba_len v < 2 ^ 31"
  proof -
    have "sint (ba_length v) < 2 ^ 31" using sint_lt [of "ba_length v"] by simp
    moreover have "sint (ba_length v) = int (ba_len v)" using assms(1) by (simp only: ba_ok_def sint_pos_iff)
    ultimately have "int (ba_len v) < int (2 ^ 31)" by simp
    then show ?thesis by (simp only: of_nat_less_iff)
  qed
  show d: "unat (ba_length v - p) = ba_len v - unat p" using assms(2) by (simp add: unat_sub_if_size)
  have small: "sint (w :: u32) = int (unat w)" if "unat w < 2 ^ 31" for w
  proof (rule sint_pos_iff, rule ccontr)
    assume "\<not> 0 \<le> sint w"
    then have "sint w = int (unat w) - 2 ^ 32" using sint_cases [of w] by (simp split: if_splits)
    moreover have "int (unat w) < int (2 ^ 31)" using that by (simp only: of_nat_less_iff)
    moreover have "- (2 ^ 31) \<le> sint w" using sint_ge [of w] by simp
    ultimately show False by simp
  qed
  show "sint p = int (unat p)" "sint (ba_length v - p) = int (ba_len v - unat p)"
    using small [of p] small [of "ba_length v - p"] l assms(2) d by simp_all
  then show "0 \<le> sint p" "0 \<le> sint (ba_length v - p)" by simp_all
qed

lemma sum_suffixes_pieces:
  "pieces prev vs ps ss S \<Longrightarrow> \<forall>v \<in> set vs. ba_ok v \<Longrightarrow> sum_suffixes ps ss acc = Some (acc + length S)"
proof (induction vs arbitrary: prev ps ss S acc)
  case (Cons v vs)
  from Cons.prems(1) obtain p ps' ss' S' where p: "ps = p # ps'" "ss = (ba_length v - p) # ss'" "unat p \<le> ba_len v"
     "S = drop (unat p) (ba_bytes v) @ S'" "pieces (Some v) vs ps' ss' S'" by auto
  have ok: "ba_ok v" using Cons.prems(2) by simp
  show ?case using Cons.IH [OF p(5)] Cons.prems(2) piece_numbers [OF ok p(3)] length_ba_bytes [OF ok] p by simp
qed simp

lemma append_suffixes_pieces:
  "pieces prev vs ps ss S \<Longrightarrow> \<forall>v \<in> set vs. ba_ok v \<Longrightarrow> buf_wf out \<Longrightarrow> append_suffixes A prev vs ss out = Some (CARQUET_OK, out') \<Longrightarrow>
    contents out' = contents out @ S"
proof (induction vs arbitrary: prev ps ss S out)
  case (Cons v vs)
  from Cons.prems(1) obtain p ps' ss' S' where p: "ps = p # ps'" "ss = (ba_length v - p) # ss'" "unat p \<le> ba_len v"
     "S = drop (unat p) (ba_bytes v) @ S'" "pieces (Some v) vs ps' ss' S'" "prefix_of prev v = Some p" by auto
  have ok: "ba_ok v" using Cons.prems(2) by simp
  note num = piece_numbers [OF ok p(3)]
  let ?s = "ba_length v - p"
  let ?r = "case ba_data v of Some d \<Rightarrow> if 0 < sint ?s then append_bytes A out (drop (unat p) d) (unat ?s) else Some (CARQUET_OK, out)
       | None \<Rightarrow> Some (CARQUET_OK, out)"
  have code: "append_suffixes A prev (v # vs) ss out = do {
      (status, out1) \<leftarrow> ?r;
      if status \<noteq> CARQUET_OK then Some (status, out1) else append_suffixes A (Some v) vs ss' out1 }"
    using p(6) unfolding p(2) prefix_of_def by simp
  obtain st out1 where r: "?r = Some (st, out1)" using Cons.prems(4) unfolding code by (cases ?r) auto
  then have st: "st = CARQUET_OK" and rec: "append_suffixes A (Some v) vs ss' out1 = Some (CARQUET_OK, out')"
    using Cons.prems(4) unfolding code r by (auto split: if_splits)
  have "buf_wf out1 \<and> contents out1 = contents out @ drop (unat p) (ba_bytes v)"
  proof (cases "ba_data v")
    case None
    then show ?thesis using r Cons.prems(3) ok by (simp add: ba_bytes_def)
  next
    case (Some d)
    show ?thesis
    proof (cases "0 < sint ?s")
      case True
      then show ?thesis using r Some st append_bytes_OK [OF Cons.prems(3), of A "drop (unat p) d" "unat ?s" out1] num(1)
        by (simp add: ba_bytes_def drop_take)
    next
      case False
      then show ?thesis using r Some Cons.prems(3) num(5) length_ba_bytes [OF ok] by simp
    qed
  qed
  then show ?case using Cons.IH [OF p(5) _ _ rec] Cons.prems(2) p(4) by simp
qed simp


section \<open>Rebuilding\<close>

text \<open>Where the strings stand in the work buffer.\<close>

fun places :: "nat \<Rightarrow> carquet_byte_array list \<Rightarrow> (nat \<times> u32) list" where
  "places pos [] = []"
| "places pos (v # vs) = (pos, ba_length v) # places (pos + ba_len v) vs"

lemma views_places: "map (view_of w) (places pos vs) = extract_arrays w pos (map ba_length vs)"
  by (induction vs arbitrary: pos) (simp_all add: view_of_def)

lemma take_split: "take (a + b) xs = A @ B \<Longrightarrow> length A = a \<Longrightarrow> take a xs = A \<and> take b (drop a xs) = B"
proof
  assume e: "take (a + b) xs = A @ B" and l: "length A = a"
  have "take a (take (a + b) xs) = A" unfolding e using l by simp
  then show "take a xs = A" by simp
  have "drop a (take (a + b) xs) = B" unfolding e using l by simp
  then show "take b (drop a xs) = B" by (simp add: drop_take)
qed

text \<open>\<open>work = done @ free\<close>, and the previous string ends \<open>done\<close>.\<close>

lemma rebuild_pieces:
  "pieces prev vs ps ss S \<Longrightarrow> \<forall>v \<in> set vs. ba_ok v \<Longrightarrow> \<forall>u. prev = Some u \<longrightarrow> ba_ok u \<Longrightarrow>
    (prev = None \<longrightarrow> q = None) \<Longrightarrow> (\<forall>u. prev = Some u \<longrightarrow> l = ba_length u \<and> (\<exists>old. q = Some (length old) \<and> written = old @ ba_bytes u)) \<Longrightarrow>
    take (length S) (drop pos data) = S \<Longrightarrow> pos + length S \<le> length data \<Longrightarrow>
    length written + length (concat (map ba_bytes vs)) \<le> wsize \<Longrightarrow> wsize \<le> length (written @ free) \<Longrightarrow>
    rebuild_strings ps ss data pos wsize (written @ free) (length written) q l =
      Some (Inr (places (length written) vs,
        written @ concat (map ba_bytes vs) @ drop (length (concat (map ba_bytes vs))) free))"
proof (induction vs arbitrary: prev ps ss S q l written free pos)
  case (Cons v vs)
  from Cons.prems(1) obtain p ps' ss' S' where p: "ps = p # ps'" "ss = (ba_length v - p) # ss'" "unat p \<le> ba_len v"
     "S = drop (unat p) (ba_bytes v) @ S'" "pieces (Some v) vs ps' ss' S'" "prev = None \<longrightarrow> p = 0"
     "\<forall>u. prev = Some u \<longrightarrow> unat p \<le> ba_len u \<and> take (unat p) (ba_bytes u) = take (unat p) (ba_bytes v)" by auto
  have ok: "ba_ok v" using Cons.prems(2) by simp
  note num = piece_numbers [OF ok p(3)]
  let ?k = "unat p" and ?b = "ba_bytes v" and ?s = "ba_length v - p"
  have lb: "length ?b = ba_len v" by (rule length_ba_bytes [OF ok])
  have tot: "p + ?s = ba_length v" by simp
  have room: "length written + ba_len v \<le> wsize" "ba_len v \<le> length free" using Cons.prems(8,9) lb by simp_all
  let ?w1 = "written @ take ?k ?b @ drop ?k free" and ?w2 = "written @ ?b @ drop (ba_len v) free"
  let ?r1 = "case q of Some q' \<Rightarrow> if 0 < sint p then do { bs \<leftarrow> rd_bytes (written @ free) q' ?k; wr_bytes (written @ free) (length written) bs }
        else Some (written @ free) | None \<Rightarrow> Some (written @ free)"
  have r1: "?r1 = Some ?w1 \<and> \<not> (0 < sint p \<and> (q = None \<or> sint p > sint l))"
  proof (cases "?k = 0")
    case True
    then show ?thesis using num(4) by (auto split: option.splits)
  next
    case False
    then obtain u where u: "prev = Some u" using p(6) by (cases prev) auto
    then have ku: "?k \<le> ba_len u" "take ?k (ba_bytes u) = take ?k ?b" "ba_ok u" using p(7) Cons.prems(3) by auto
    obtain old where old: "q = Some (length old)" "written = old @ ba_bytes u" "l = ba_length u" using Cons.prems(5) u by auto
    have lu: "length (ba_bytes u) = ba_len u" by (rule length_ba_bytes [OF ku(3)])
    have "rd_bytes (written @ free) (length old) ?k = Some (take ?k ?b)"
      using ku(1,2) lu by (simp add: old(2) rd_bytes_in)
    moreover have "wr_bytes (written @ free) (length written) (take ?k ?b) = Some ?w1"
      using p(3) lb room(2) by (subst wr_bytes_in) simp_all
    moreover have "sint p \<le> sint l"
    proof -
      have "sint l = int (ba_len u)" using ku(3) old(3) by (simp only: ba_ok_def sint_pos_iff)
      then show ?thesis using num(4) ku(1) by (simp only: of_nat_le_iff)
    qed
    moreover have "0 < sint p" using num(4) False by linarith
    ultimately show ?thesis using old(1) by simp
  qed
  let ?r2 = "if 0 < sint ?s then do { bs \<leftarrow> rd_bytes data pos (unat ?s); w \<leftarrow> wr_bytes ?w1 (length written + ?k) bs; Some (w, pos + unat ?s) }
        else Some (?w1, pos)"
  have S: "take (ba_len v - ?k) (drop pos data) = drop ?k ?b" "take (length S') (drop (pos + (ba_len v - ?k)) data) = S'"
    "pos + (ba_len v - ?k) + length S' \<le> length data"
  proof -
    have "take (ba_len v - ?k + length S') (drop pos data) = drop ?k ?b @ S'" using Cons.prems(6) lb p(3,4) by simp
    moreover have "length (drop ?k ?b) = ba_len v - ?k" using lb by simp
    ultimately show "take (ba_len v - ?k) (drop pos data) = drop ?k ?b" "take (length S') (drop (pos + (ba_len v - ?k)) data) = S'"
      using take_split [of "ba_len v - ?k" "length S'" "drop pos data"] by (simp_all add: add.commute)
    show "pos + (ba_len v - ?k) + length S' \<le> length data" using Cons.prems(7) lb p(4) by simp
  qed
  have r2: "?r2 = Some (?w2, pos + (ba_len v - ?k))"
  proof (cases "ba_len v - ?k = 0")
    case True
    then have "?k = ba_len v" using p(3) by simp
    then show ?thesis using num(5) lb by simp
  next
    case False
    have "rd_bytes data pos (ba_len v - ?k) = Some (drop ?k ?b)" using S by (simp add: rd_bytes_in)
    moreover have "wr_bytes ?w1 (length written + ?k) (drop ?k ?b) = Some ?w2"
    proof -
      have "length (take ?k ?b) = ?k" using lb p(3) by simp
      then have "wr_bytes ((written @ take ?k ?b) @ drop ?k free) (length (written @ take ?k ?b)) (drop ?k ?b) =
          Some ((written @ take ?k ?b) @ drop ?k ?b @ drop (length (drop ?k ?b)) (drop ?k free))"
        using room(2) lb by (subst wr_bytes_in) simp_all
      moreover have "take ?k ?b @ drop ?k ?b @ r = ?b @ r" for r by (simp flip: append_assoc)
      ultimately show ?thesis using lb p(3) by simp
    qed
    moreover have "0 < sint ?s" using num(5) False by linarith
    ultimately show ?thesis using num(1) by simp
  qed
  have rec: "rebuild_strings ps' ss' data (pos + (ba_len v - ?k)) wsize ((written @ ?b) @ drop (ba_len v) free) (length (written @ ?b))
        (Some (length written)) (ba_length v) =
      Some (Inr (places (length (written @ ?b)) vs, (written @ ?b) @ concat (map ba_bytes vs) @
        drop (length (concat (map ba_bytes vs))) (drop (ba_len v) free)))"
    by (rule Cons.IH [OF p(5)]) (use Cons.prems(2,8,9) S(2,3) lb ok in \<open>auto simp del: length_concat\<close>)
  have fits: "\<not> length written + ba_len v > wsize" using room(1) by simp
  have code: "rebuild_strings ps ss data pos wsize (written @ free) (length written) q l = do {
      work1 \<leftarrow> ?r1; (work2, suffix_pos2) \<leftarrow> (if 0 < sint ?s then do { bs \<leftarrow> rd_bytes data pos (unat ?s); w \<leftarrow> wr_bytes work1 (length written + ?k) bs; Some (w, pos + unat ?s) }
        else Some (work1, pos));
      r \<leftarrow> rebuild_strings ps' ss' data suffix_pos2 wsize work2 (length written + ba_len v) (Some (length written)) (ba_length v);
      Some (case r of Inl st \<Rightarrow> Inl st | Inr (vals, w) \<Rightarrow> Inr ((length written, ba_length v) # vals, w)) }"
    unfolding p(1,2) rebuild_strings.simps(1) Let_def tot if_not_P [OF fits] if_not_P [OF r1 [THEN conjunct2]] ..
  have "rebuild_strings ps ss data pos wsize (written @ free) (length written) q l = do {
      r \<leftarrow> rebuild_strings ps' ss' data (pos + (ba_len v - ?k)) wsize ?w2 (length written + ba_len v) (Some (length written)) (ba_length v);
      Some (case r of Inl st \<Rightarrow> Inl st | Inr (vals, w) \<Rightarrow> Inr ((length written, ba_length v) # vals, w)) }"
    unfolding code r1 [THEN conjunct1] Option.bind.simps r2 prod.case ..
  then show ?case using rec lb by (simp add: add.commute del: length_concat)
qed simp


section \<open>Whole pages\<close>

lemma int32_encode_length:
  assumes "length d = cap" and "carquet_delta_encode_int32 values d cap = Some (Inr (d', n))"
  shows "length d' = cap \<and> n \<le> cap"
proof -
  have enc: "carquet_delta_encode_int64 (map scast values) d cap = Some (Inr (d', n))"
    using assms(2) by (simp add: encode_int32_int64)
  then have cap: "40 \<le> cap" by (auto simp: carquet_delta_encode_int64_def Let_def split: if_splits)
  show ?thesis
  proof (cases "map scast values :: u64 list")
    case Nil
    then have "d' = delta_header 0 0 @ drop (length (delta_header 0 0)) d" "n = length (delta_header 0 0)"
      using encode_int64_Nil [OF cap assms(1)] enc by auto
    then show ?thesis using length_header [of 0 0] cap assms(1) by simp
  next
    case (Cons v0 vs)
    show ?thesis
    proof (cases rule: encode_int64_ok [OF cap assms(1), of v0 vs, case_names full coded])
      case full
      then show ?thesis using enc unfolding Cons by simp
    next
      case (coded body rest)
      then show ?thesis using enc unfolding Cons by auto
    qed
  qed
qed

text \<open>One array of lengths, appended to the buffer and read back.\<close>

lemma append_delta_OK:
  assumes "buf_wf out" and "length d = cap" and "append_delta A ls d cap out = Some (CARQUET_OK, out1, d')"
  obtains bs where "buf_wf out1" "contents out1 = contents out @ bs" "length d' = cap"
    "\<forall>junk. carquet_delta_decode_int32 (bs @ junk) (length bs + length junk) (length ls) = Some (Inr (ls, length bs))"
proof -
  obtain r where r: "carquet_delta_encode_int32 ls d cap = Some r" using assms(3) by (auto simp: append_delta_def bind_Some_iff)
  show thesis
  proof (cases r)
    case (Inl st)
    then show thesis using assms(3) r int32_encode_error [of ls d cap st] by (simp add: append_delta_def)
  next
    case (Inr x)
    obtain e n where x: "x = (e, n)" by (cases x)
    have enc: "carquet_delta_encode_int32 ls d cap = Some (Inr (e, n))" using r Inr x by simp
    have a: "append_bytes A out e n = Some (CARQUET_OK, out1)" "d' = e"
      using assms(3) enc by (auto simp: append_delta_def bind_Some_iff)
    have n: "n \<le> length e" "length e = cap" using int32_encode_length [OF assms(2) enc] by simp_all
    have "carquet_delta_decode_int32 (take n e @ junk) (length (take n e) + length junk) (length ls) = Some (Inr (ls, length (take n e)))" for junk
      using int32_page [OF assms(2) enc, of junk] n(1) by (simp add: min_absorb2)
    then show thesis using append_bytes_OK [OF assms(1) a(1)] a(2) n(2) by (intro that [of "take n e"]) simp_all
  qed
qed

lemma decode_lengths_ok:
  assumes "\<forall>junk. carquet_delta_decode_int32 (b1 @ junk) (length b1 + length junk) k = Some (Inr (ps, length b1))"
    and "\<forall>junk. carquet_delta_decode_int32 (b2 @ junk) (length b2 + length junk) k = Some (Inr (ss, length b2))"
  shows "decode_lengths (b1 @ b2 @ junk) (length (b1 @ b2 @ junk)) k = Some (Inr (ps, ss, length (b1 @ b2)))"
  using assms(1) [rule_format, of "b2 @ junk"] assms(2) [rule_format, of junk] by (simp add: decode_lengths_def)

lemma strings_encode_steps:
  assumes "carquet_delta_strings_encode A vs out = Some (CARQUET_OK, out')" and "buf_wf out" and "\<forall>v \<in> set vs. ba_ok v"
  obtains b1 b2 ps ss S where "contents out' = contents out @ b1 @ b2 @ S" "pieces None vs ps ss S"
    "\<forall>junk. carquet_delta_decode_int32 (b1 @ junk) (length b1 + length junk) (length vs) = Some (Inr (ps, length b1))"
    "\<forall>junk. carquet_delta_decode_int32 (b2 @ junk) (length b2 + length junk) (length vs) = Some (Inr (ss, length b2))"
proof (cases "vs = []")
  case True
  obtain r where r: "carquet_delta_encode_int32 [] (map (fresh A) [0..<64]) 64 = Some r"
    using assms(1) True by (auto simp: carquet_delta_strings_encode_def bind_Some_iff)
  show thesis
  proof (cases r)
    case (Inl st)
    then show thesis using assms(1) True r int32_encode_error [of "[]"] by (auto simp: carquet_delta_strings_encode_def)
  next
    case (Inr x)
    obtain e n where x: "x = (e, n)" by (cases x)
    have enc: "carquet_delta_encode_int32 [] (map (fresh A) [0..<64]) 64 = Some (Inr (e, n))" using r Inr x by simp
    have "do { (s, out1) \<leftarrow> append_bytes A out e n; if s \<noteq> CARQUET_OK then Some (s, out1) else append_bytes A out1 e n } =
        Some (CARQUET_OK, out')"
      using assms(1) True enc by (simp add: carquet_delta_strings_encode_def)
    then obtain s out1 where a: "append_bytes A out e n = Some (s, out1)"
        "(if s \<noteq> CARQUET_OK then Some (s, out1) else append_bytes A out1 e n) = Some (CARQUET_OK, out')"
      by (cases "append_bytes A out e n") auto
    then have a1: "append_bytes A out e n = Some (CARQUET_OK, out1)" "append_bytes A out1 e n = Some (CARQUET_OK, out')"
      by (auto split: if_splits)
    have n: "n \<le> length e" using int32_encode_length [OF _ enc] by simp
    have "carquet_delta_decode_int32 (take n e @ junk) (length (take n e) + length junk) 0 = Some (Inr ([], length (take n e)))" for junk
      using int32_page [OF _ enc, of junk] n by (simp add: min_absorb2)
    moreover note append_bytes_OK [OF assms(2) a1(1)]
    moreover then have "buf_wf out1" by simp
    from append_bytes_OK [OF this a1(2)] have "contents out' = contents out1 @ take n e" by simp
    ultimately show thesis using True by (intro that [of "take n e" "take n e" "[]" "[]" "[]"]) simp_all
  qed
next
  case False
  let ?cap = "length vs * 10 + 100"
  obtain ps ss S where ls: "string_lengths None vs = Some (ps, ss)" "pieces None vs ps ss S" "length ps = length vs" "length ss = length vs"
    using string_lengths_pieces [OF assms(3), of None] by auto
  have run: "do { (st1, out1, d1) \<leftarrow> append_delta A ps (map (fresh A) [0..<?cap]) ?cap out;
      if st1 \<noteq> CARQUET_OK then Some (st1, out1)
      else do { (st2, out2, d2) \<leftarrow> append_delta A ss d1 ?cap out1;
        if st2 \<noteq> CARQUET_OK then Some (st2, out2) else append_suffixes A None vs ss out2 } } = Some (CARQUET_OK, out')"
    using assms(1) False ls(1) by (simp add: carquet_delta_strings_encode_def Let_def split: if_splits)
  obtain st1 out1 d1 where a1: "append_delta A ps (map (fresh A) [0..<?cap]) ?cap out = Some (st1, out1, d1)"
    using run by (cases "append_delta A ps (map (fresh A) [0..<?cap]) ?cap out") auto
  have st1: "st1 = CARQUET_OK" using run a1 by (auto split: if_splits)
  obtain st2 out2 d2 where a2: "append_delta A ss d1 ?cap out1 = Some (st2, out2, d2)"
    using run a1 st1 by (cases "append_delta A ss d1 ?cap out1") auto
  have st2: "st2 = CARQUET_OK" and a3: "append_suffixes A None vs ss out2 = Some (CARQUET_OK, out')"
    using run a1 st1 a2 by (auto split: if_splits)
  obtain b1 where b1: "buf_wf out1" "contents out1 = contents out @ b1" "length d1 = ?cap"
    "\<forall>junk. carquet_delta_decode_int32 (b1 @ junk) (length b1 + length junk) (length ps) = Some (Inr (ps, length b1))"
    by (rule append_delta_OK [OF assms(2) _ a1 [unfolded st1]]) simp
  obtain b2 where b2: "buf_wf out2" "contents out2 = contents out1 @ b2"
    "\<forall>junk. carquet_delta_decode_int32 (b2 @ junk) (length b2 + length junk) (length ss) = Some (Inr (ss, length b2))"
    by (rule append_delta_OK [OF b1(1,3) a2 [unfolded st2]])
  have "contents out' = contents out2 @ S" by (rule append_suffixes_pieces [OF ls(2) assms(3) b2(1) a3])
  then show thesis using that [of b1 b2 S ps ss] b1 b2 ls by simp
qed

section \<open>Properties\<close>

text \<open>C18: Strings written in DELTA_BYTE_ARRAY are rebuilt in the work buffer with the same lengths and
  bytes, as soon as the buffer has room for all of them, and as many bytes are consumed as were
  written, whatever follows the page: the shared prefixes are never taken from a wrong place.\<close>

theorem delta_strings_roundtrip:
  assumes "buf_wf out" and "\<forall>v \<in> set vs. ba_ok v" and "alloc_ok A' (length vs * 4)"
    and "carquet_delta_strings_encode A vs out = Some (CARQUET_OK, out')"
    and "length (concat (map ba_bytes vs)) \<le> wsize" and "wsize \<le> length work"
  shows "\<exists>bs. contents out' = contents out @ bs \<and> (\<forall>rest. \<exists>vs' work'.
     carquet_delta_strings_decode A' (Some (bs @ rest)) (length (bs @ rest)) (int (length vs)) work wsize =
       Some (Inr (vs', work', length bs)) \<and>
     map ba_bytes vs' = map ba_bytes vs \<and> map ba_length vs' = map ba_length vs)"
proof -
  obtain b1 b2 ps ss S where c: "contents out' = contents out @ b1 @ b2 @ S" "pieces None vs ps ss S"
    "\<forall>junk. carquet_delta_decode_int32 (b1 @ junk) (length b1 + length junk) (length vs) = Some (Inr (ps, length b1))"
    "\<forall>junk. carquet_delta_decode_int32 (b2 @ junk) (length b2 + length junk) (length vs) = Some (Inr (ss, length b2))"
    by (rule strings_encode_steps [OF assms(4,1,2)])
  let ?all = "concat (map ba_bytes vs)" let ?w = "?all @ drop (length ?all) work"
  have "\<exists>vs' work'. carquet_delta_strings_decode A' (Some ((b1 @ b2 @ S) @ rest)) (length ((b1 @ b2 @ S) @ rest)) (int (length vs)) work wsize =
       Some (Inr (vs', work', length (b1 @ b2 @ S))) \<and>
     map ba_bytes vs' = map ba_bytes vs \<and> map ba_length vs' = map ba_length vs" for rest
  proof -
    let ?d = "(b1 @ b2 @ S) @ rest"
    have dl: "decode_lengths ?d (length ?d) (length vs) = Some (Inr (ps, ss, length (b1 @ b2)))"
      using decode_lengths_ok [OF c(3,4), of "S @ rest"] by simp
    show ?thesis
    proof (cases "vs = []")
      case True
      then show ?thesis using dl c(2) by (simp add: carquet_delta_strings_decode_def)
    next
      case False
      have "rebuild_strings ps ss ?d (length (b1 @ b2)) wsize ([] @ work) (length ([] :: u8 list)) None 0 =
          Some (Inr (places (length ([] :: u8 list)) vs, [] @ ?all @ drop (length ?all) work))"
        by (rule rebuild_pieces [OF c(2) assms(2)]) (use assms(5,6) in \<open>simp_all del: length_concat\<close>)
      then have rb: "rebuild_strings ps ss ?d (length (b1 @ b2)) wsize work 0 None 0 = Some (Inr (places 0 vs, ?w))" by simp
      have "carquet_delta_strings_decode A' (Some ?d) (length ?d) (int (length vs)) work wsize =
          Some (Inr (map (view_of ?w) (places 0 vs), ?w, length (b1 @ b2) + length S))"
        using False dl rb sum_suffixes_pieces [OF c(2) assms(2), of 0] assms(3)
        by (simp add: carquet_delta_strings_decode_def del: length_concat)
      moreover have "map ba_bytes (map (view_of ?w) (places 0 vs)) = map ba_bytes vs \<and>
          map ba_length (map (view_of ?w) (places 0 vs)) = map ba_length vs"
        unfolding views_places using extract_arrays_ok [OF assms(2), of ?w "[]" "drop (length ?all) work"] by simp
      ultimately show ?thesis by (intro exI [of _ "map (view_of ?w) (places 0 vs)"] exI [of _ ?w]) simp
    qed
  qed
  then show ?thesis using c(1) by (intro exI [of _ "b1 @ b2 @ S"]) simp
qed

section \<open>Decoding any bytes\<close>

lemma nonneg_sum:
  assumes "0 \<le> sint (p :: u32)" and "0 \<le> sint (s :: u32)"
  shows "unat (p + s) = unat p + unat s"
proof -
  have "unat w < 2 ^ 31" if "0 \<le> sint w" for w :: u32
  proof -
    have "int (unat w) < int (2 ^ 31)" using sint_lt [of w] sint_pos_iff [OF that] by simp
    then show ?thesis by (simp only: of_nat_less_iff)
  qed
  from this [OF assms(1)] this [OF assms(2)] show ?thesis by (simp add: unat_word_ariths)
qed

lemma sum_both_acc: "sum_both ps ss a = map_option ((+) a) (sum_both ps ss 0)"
proof (induction ps arbitrary: ss a)
  case (Cons p ps)
  show ?case
  proof (cases ss)
    case ss: (Cons s ss')
    show ?thesis
      using Cons.IH [of ss' "a + (unat p + unat s)"] Cons.IH [of ss' "unat p + unat s"]
      by (cases "sum_both ps ss' 0") (auto simp: ss)
  qed simp
qed simp

lemma sum_suffixes_ge: "sum_suffixes ps ss acc = Some t \<Longrightarrow> acc \<le> t"
  by (induction ps ss acc rule: sum_suffixes.induct) (auto split: if_splits)

lemma rebuild_safe:
  "length ss = length ps \<Longrightarrow> sum_suffixes ps ss acc = Some t \<Longrightarrow> pos + t \<le> length data + acc \<Longrightarrow>
    \<forall>q. prev = Some q \<longrightarrow> q + unat prev_len = off \<Longrightarrow> off \<le> wsize \<Longrightarrow> wsize \<le> length work \<Longrightarrow>
    \<exists>r. rebuild_strings ps ss data pos wsize work off prev prev_len = Some r \<and> (case r of
        Inl st \<Rightarrow> st = CARQUET_ERROR_DECODE \<or> st = CARQUET_ERROR_OUT_OF_MEMORY \<and> (\<forall>s. sum_both ps ss 0 = Some s \<longrightarrow> wsize < off + s)
      | Inr (vals, w) \<Rightarrow> length w = length work \<and> length vals = length ps \<and> (\<forall>(q, l) \<in> set vals. q + unat l \<le> wsize))"
proof (induction ps arbitrary: ss acc pos prev prev_len off work)
  case (Cons p ps)
  obtain s ss' where ss: "ss = s # ss'" "length ss' = length ps" using Cons.prems(1) by (cases ss) auto
  have nn: "0 \<le> sint s" "0 \<le> sint p" and t: "sum_suffixes ps ss' (acc + unat s) = Some t"
    using Cons.prems(2) unfolding ss by (auto split: if_splits)
  have tot: "unat (p + s) = unat p + unat s" by (rule nonneg_sum [OF nn(2,1)])
  let ?oom = "off + unat (p + s) > wsize" and ?bad = "0 < sint p \<and> (prev = None \<or> sint p > sint prev_len)"
  show ?case
  proof (cases ?oom)
    case True
    have "wsize < off + x" if x: "sum_both (p # ps) ss 0 = Some x" for x
    proof -
      have "sum_both ps ss' (unat p + unat s) = Some x" using x nn unfolding ss by (simp split: if_splits)
      then have "unat p + unat s \<le> x" using sum_both_acc [of ps ss' "unat p + unat s"] by (auto simp: map_option_case split: option.splits)
      then show ?thesis using True tot by linarith
    qed
    then show ?thesis using True unfolding ss by simp
  next
    case fits: False
    show ?thesis
    proof (cases ?bad)
      case True
      then show ?thesis using fits unfolding ss by simp
    next
      case False
      let ?r1 = "case prev of Some q \<Rightarrow> if 0 < sint p then do { bs \<leftarrow> rd_bytes work q (unat p); wr_bytes work off bs } else Some work
          | None \<Rightarrow> Some work"
      have "\<exists>w1. ?r1 = Some w1 \<and> length w1 = length work"
      proof (cases "0 < sint p")
        case True
        then obtain q where q: "prev = Some q" "sint p \<le> sint prev_len" using False by auto
        have "sint prev_len = int (unat prev_len)" using q(2) nn(2) by (intro sint_pos_iff) simp
        then have "int (unat p) \<le> int (unat prev_len)" using q(2) sint_pos_iff [OF nn(2)] by linarith
        then have "unat p \<le> unat prev_len" by (simp only: of_nat_le_iff)
        moreover have "q + unat prev_len = off" using Cons.prems(4) q(1) by simp
        ultimately have "q + unat p \<le> length work" using Cons.prems(5,6) by linarith
        then have "rd_bytes work q (unat p) = Some (take (unat p) (drop q work))" "length (take (unat p) (drop q work)) = unat p"
          by (simp_all add: rd_bytes_in)
        moreover have "off + unat p \<le> length work" using fits tot Cons.prems(6) by linarith
        ultimately show ?thesis using wr_bytes_safe [of off "take (unat p) (drop q work)" work] q(1) True by auto
      qed (simp split: option.splits)
      then obtain w1 where w1: "?r1 = Some w1" "length w1 = length work" by blast
      let ?r2 = "if 0 < sint s then do { bs \<leftarrow> rd_bytes data pos (unat s); w \<leftarrow> wr_bytes w1 (off + unat p) bs; Some (w, pos + unat s) }
          else Some (w1, pos)"
      have tle: "acc + unat s \<le> t" by (rule sum_suffixes_ge [OF t])
      have "\<exists>w2. ?r2 = Some (w2, pos + unat s) \<and> length w2 = length work"
      proof (cases "0 < sint s")
        case True
        have "pos + unat s \<le> length data" using Cons.prems(3) tle by linarith
        then have "rd_bytes data pos (unat s) = Some (take (unat s) (drop pos data))" "length (take (unat s) (drop pos data)) = unat s"
          by (simp_all add: rd_bytes_in)
        moreover have "off + unat p + unat s \<le> length w1" using fits tot Cons.prems(6) w1(2) by linarith
        ultimately show ?thesis using wr_bytes_safe [of "off + unat p" "take (unat s) (drop pos data)" w1] w1(2) True by auto
      next
        case no: False
        then have "unat s = 0" using sint_pos_iff [OF nn(1)] by linarith
        then show ?thesis using w1(2) no by simp
      qed
      then obtain w2 where w2: "?r2 = Some (w2, pos + unat s)" "length w2 = length work" by blast
      have pos2: "pos + unat s + t \<le> length data + (acc + unat s)" using Cons.prems(3) by simp
      have prev2: "\<forall>q. Some off = Some q \<longrightarrow> q + unat (p + s) = off + unat (p + s)" by simp
      have off2: "off + unat (p + s) \<le> wsize" using fits by simp
      have ws2: "wsize \<le> length w2" using Cons.prems(6) w2(2) by simp
      from Cons.IH [OF ss(2) t pos2 prev2 off2 ws2] obtain r where r:
        "rebuild_strings ps ss' data (pos + unat s) wsize w2 (off + unat (p + s)) (Some off) (p + s) = Some r"
        "case r of Inl st \<Rightarrow> st = CARQUET_ERROR_DECODE \<or> st = CARQUET_ERROR_OUT_OF_MEMORY \<and>
            (\<forall>x. sum_both ps ss' 0 = Some x \<longrightarrow> wsize < off + unat (p + s) + x)
          | Inr (vals, w) \<Rightarrow> length w = length w2 \<and> length vals = length ps \<and> (\<forall>(q, l) \<in> set vals. q + unat l \<le> wsize)"
        by blast
      have code: "rebuild_strings (p # ps) ss data pos wsize work off prev prev_len =
          Some (case r of Inl st \<Rightarrow> Inl st | Inr (vals, w) \<Rightarrow> Inr ((off, p + s) # vals, w))"
        unfolding ss(1) rebuild_strings.simps(1) Let_def if_not_P [OF fits] if_not_P [OF False] w1(1) Option.bind.simps w2(1) prod.case r(1) ..
      show ?thesis
      proof (cases r)
        case (Inl st)
        have "sum_both (p # ps) ss 0 = map_option ((+) (unat p + unat s)) (sum_both ps ss' 0)"
          using nn sum_both_acc [of ps ss' "unat p + unat s"] unfolding ss by simp
        then show ?thesis using code r(2) Inl tot by (auto simp: add.assoc)
      next
        case (Inr x)
        then show ?thesis using code r(2) w2(2) off2 by (cases x) auto
      qed
    qed
  qed
qed simp


lemma decode_lengths_safe:
  assumes "n \<le> length d"
  shows "(\<exists>st. decode_lengths d n k = Some (Inl st) \<and> st \<noteq> CARQUET_OK) \<or>
    (\<exists>ps ss c. decode_lengths d n k = Some (Inr (ps, ss, c)) \<and> length ps = k \<and> length ss = k \<and> c \<le> n)"
proof (rule disjE [OF int32_decode_safe [OF assms, of k]])
  assume "\<exists>vs c. carquet_delta_decode_int32 d n k = Some (Inr (vs, c)) \<and> length vs = k \<and> c \<le> n"
  then obtain ps c where c: "carquet_delta_decode_int32 d n k = Some (Inr (ps, c))" "length ps = k" "c \<le> n" by blast
  have "n - c \<le> length (drop c d)" using assms by simp
  from int32_decode_safe [OF this, of k] show ?thesis using c by (auto simp: decode_lengths_def)
qed (auto simp: decode_lengths_def)

text \<open>C26: On any bytes, the decoder of DELTA_BYTE_ARRAY stays within the page and the work buffer: it ends
  with an error, or with strings that lie within the work buffer and a count of bytes within the page.
  And with a work buffer of the size that \<open>carquet_delta_strings_decoded_size\<close> computes it never runs
  out of space.\<close>

theorem delta_strings_decode_safe:
  assumes "n \<le> length d" and "wsize \<le> length work"
  shows "\<exists>r. carquet_delta_strings_decode A (Some d) n num_values work wsize = Some r \<and>
    (\<forall>vs w k. r = Inr (vs, w, k) \<longrightarrow> length w = length work \<and> k \<le> n \<and> length vs = nat num_values \<and>
       (\<forall>v \<in> set vs. \<exists>q. ba_data v = Some (drop q w) \<and> q + unat (ba_length v) \<le> wsize)) \<and>
    (\<forall>N. carquet_delta_strings_decoded_size A (Some d) n num_values = Some (Inr N) \<and> N \<le> wsize \<longrightarrow>
       r \<noteq> Inl CARQUET_ERROR_OUT_OF_MEMORY)"
proof (cases "num_values \<le> 0 \<or> \<not> alloc_ok A (nat num_values * 4)")
  case True
  then show ?thesis using decode_lengths_safe [OF assms(1), of 0]
    by (cases "num_values < 0"; cases "num_values = 0")
      (auto simp: carquet_delta_strings_decode_def carquet_delta_strings_decoded_size_def)
next
  case False
  note dec = carquet_delta_strings_decode_def [of A "Some d" n num_values work wsize]
  note size = carquet_delta_strings_decoded_size_def [of A "Some d" n num_values]
  show ?thesis
  proof (rule disjE [OF decode_lengths_safe [OF assms(1), of "nat num_values"]])
    assume "\<exists>st. decode_lengths d n (nat num_values) = Some (Inl st) \<and> st \<noteq> CARQUET_OK"
    then show ?thesis using False by (auto simp: dec size)
  next
    assume "\<exists>ps ss c. decode_lengths d n (nat num_values) = Some (Inr (ps, ss, c)) \<and>
      length ps = nat num_values \<and> length ss = nat num_values \<and> c \<le> n"
    then obtain ps ss c where l: "decode_lengths d n (nat num_values) = Some (Inr (ps, ss, c))"
      "length ps = nat num_values" "length ss = length ps" "c \<le> n" by auto
    show ?thesis
    proof (cases "sum_suffixes ps ss 0")
      case None
      then show ?thesis using False l(1) by (auto simp: dec)
    next
      case (Some t)
      show ?thesis
      proof (cases "c + t > n")
        case True
        then show ?thesis using False l(1) Some by (auto simp: dec)
      next
        case fits: False
        have "c + t \<le> length d + 0" using fits assms(1) by simp
        from rebuild_safe [OF l(3) Some this _ le0 assms(2), of None 0] obtain r where
          r: "rebuild_strings ps ss d c wsize work 0 None 0 = Some r" "case r of
              Inl st \<Rightarrow> st = CARQUET_ERROR_DECODE \<or> st = CARQUET_ERROR_OUT_OF_MEMORY \<and> (\<forall>s. sum_both ps ss 0 = Some s \<longrightarrow> wsize < 0 + s)
            | Inr (vals, w) \<Rightarrow> length w = length work \<and> length vals = length ps \<and> (\<forall>(q, l) \<in> set vals. q + unat l \<le> wsize)"
          by auto
        have run: "carquet_delta_strings_decode A (Some d) n num_values work wsize =
            Some (case r of Inl st \<Rightarrow> Inl st | Inr (vals, w) \<Rightarrow> Inr (map (view_of w) vals, w, c + t))"
          using False l(1) Some fits r(1) by (simp add: dec)
        show ?thesis
        proof (cases r)
          case (Inl st)
          then show ?thesis using run r(2) False l(1) by (auto simp: size split: option.splits)
        next
          case (Inr x)
          obtain vals w where x: "x = (vals, w)" by (cases x)
          have "\<exists>q. ba_data (view_of w v) = Some (drop q w) \<and> q + unat (ba_length (view_of w v)) \<le> wsize" if "v \<in> set vals" for v
            using r(2) Inr x that by (intro exI [of _ "fst v"]) (auto simp: view_of_def)
          then show ?thesis using run r(2) fits l(2) Inr x by simp
        qed
      qed
    qed
  qed
qed

theorem delta_strings_decode_safe_witness:
  "\<exists>r. carquet_delta_strings_decode good_allocator (Some [128, 1, 4, 1, 0]) 5 1 [0, 0] 2 = Some r"
  using delta_strings_decode_safe [of 5 "[128, 1, 4, 1, 0]" 2 "[0, 0]" good_allocator 1] by auto

theorem delta_strings_roundtrip_witness:
  "\<exists>out' bs. carquet_delta_strings_encode good_allocator [\<lparr>ba_data = Some [7, 8], ba_length = 1\<rparr>] carquet_buffer_init =
       Some (CARQUET_OK, out') \<and> contents out' = bs \<and>
    (\<exists>vs' work'. carquet_delta_strings_decode good_allocator (Some (bs @ [9])) (length (bs @ [9])) 1 [0, 0] 2 = Some (Inr (vs', work', length bs)) \<and>
     map ba_bytes vs' = [[7]] \<and> map ba_length vs' = [1])"
proof -
  let ?A = good_allocator and ?v = "\<lparr>ba_data = Some [7, 8], ba_length = 1\<rparr>"
  let ?d = "map (fresh ?A) [0..<110]"
  have cap: "(40 :: nat) \<le> 110" "length ?d = 110" by simp_all
  then obtain d1 n1 where e1: "carquet_delta_encode_int32 [0] ?d 110 = Some (Inr (d1, n1))" "length d1 = 110" "n1 \<le> 110"
    by (rule encode_one)
  from cap(1) e1(2) obtain d2 n2 where e2: "carquet_delta_encode_int32 [1] d1 110 = Some (Inr (d2, n2))" "length d2 = 110" "n2 \<le> 110"
    by (rule encode_one)
  have "buf_room ?A carquet_buffer_init (n1 + (n2 + 1))" "n1 \<le> length d1" using e1 e2 by (auto intro: empty_room)
  from append_bytes_room [OF init_wf this] obtain s1 where
    s1: "append_bytes ?A carquet_buffer_init d1 n1 = Some (CARQUET_OK, s1)" "buf_wf s1" "buf_room ?A s1 (n2 + 1)" .
  have "n2 \<le> length d2" using e2 by simp
  from append_bytes_room [OF s1(2,3) this] obtain s2 where
    s2: "append_bytes ?A s1 d2 n2 = Some (CARQUET_OK, s2)" "buf_wf s2" "buf_room ?A s2 1" .
  from s2(3) have "buf_room ?A s2 (1 + 0)" by simp
  from append_bytes_room [OF s2(2) this, of "[7, 8]"] obtain s3 where
    s3: "append_bytes ?A s2 [7, 8] 1 = Some (CARQUET_OK, s3)" by auto
  have alloc: "alloc_ok ?A n" for n by (simp add: good_allocator_def)
  have run: "carquet_delta_strings_encode ?A [?v] carquet_buffer_init = Some (CARQUET_OK, s3)"
    using e1(1) e2(1) s1(1) s2(1) s3 alloc by (simp add: carquet_delta_strings_encode_def append_delta_def Let_def)
  have ok: "\<forall>v \<in> set [?v]. ba_ok v" by (simp add: ba_ok_def)
  have "length (concat (map ba_bytes [?v])) \<le> 2" "2 \<le> length [0, 0 :: u8]" by (simp_all add: ba_bytes_def)
  from delta_strings_roundtrip [OF init_wf ok alloc run this] obtain bs where
    "contents s3 = contents carquet_buffer_init @ bs" and
    "\<exists>vs' work'. carquet_delta_strings_decode ?A (Some (bs @ [9])) (length (bs @ [9])) (int (length [?v])) [0, 0] 2 =
       Some (Inr (vs', work', length bs)) \<and>
     map ba_bytes vs' = map ba_bytes [?v] \<and> map ba_length vs' = map ba_length [?v]" by blast
  then show ?thesis using run by (auto simp: contents_def carquet_buffer_init_def ba_bytes_def)
qed

end
