(* ===== verification/Byte_Stream_Split.thy ===== *)
theory Byte_Stream_Split
  imports Carquet_Prelude
begin

text \<open>
  Component src/encoding/byte_stream_split.c: BYTE_STREAM_SPLIT, the transposition of an array of
  values of a fixed length into one stream for each byte, with the scalar kernels of
  simd/dispatch.c and the cache-tiled decoder.

  Floats and doubles are the bytes of their storage, which is how the code treats them. A pointer
  argument is an option, None is NULL; the pointer for \<open>*bytes_written\<close>, which is the
  result, is taken to be there. An output array is the list of its bytes before and after.
  Counts are not negative.
\<close>

section \<open>Kernels\<close>

text \<open>
  The body of the loops is \<open>dst[d] = src[s]\<close>; the list holds the index pairs in the order
  of the loops.
\<close>

fun copy_all :: "(nat \<times> nat) list \<Rightarrow> u8 list \<Rightarrow> u8 list \<Rightarrow> u8 list option" where
  "copy_all [] src dst = Some dst"
| "copy_all ((d, s) # ps) src dst = do {
     x \<leftarrow> rd src s;
     dst' \<leftarrow> wr dst d x;
     copy_all ps src dst'
   }"

definition scalar_byte_split_encode_float :: "u8 list \<Rightarrow> nat \<Rightarrow> u8 list \<Rightarrow> u8 list option" where
  "scalar_byte_split_encode_float src count out =
     copy_all [(b * count + i, i * 4 + b). i \<leftarrow> [0..<count], b \<leftarrow> [0..<4]] src out"

definition scalar_byte_split_encode_double :: "u8 list \<Rightarrow> nat \<Rightarrow> u8 list \<Rightarrow> u8 list option" where
  "scalar_byte_split_encode_double src count out =
     copy_all [(b * count + i, i * 8 + b). i \<leftarrow> [0..<count], b \<leftarrow> [0..<8]] src out"

text \<open>The decoders store from the byte \<open>base\<close> of the array on.\<close>

definition scalar_byte_split_decode_float :: "u8 list \<Rightarrow> nat \<Rightarrow> u8 list \<Rightarrow> nat \<Rightarrow> u8 list option" where
  "scalar_byte_split_decode_float data count dst base =
     copy_all [(base + (i * 4 + b), b * count + i). i \<leftarrow> [0..<count], b \<leftarrow> [0..<4]] data dst"

definition scalar_byte_split_decode_double :: "u8 list \<Rightarrow> nat \<Rightarrow> u8 list \<Rightarrow> nat \<Rightarrow> u8 list option" where
  "scalar_byte_split_decode_double data count dst base =
     copy_all [(base + (i * 8 + b), b * count + i). i \<leftarrow> [0..<count], b \<leftarrow> [0..<8]] data dst"

section \<open>The cache-tiled decoder\<close>

definition BSS_TILE_FLOAT :: nat where "BSS_TILE_FLOAT = 65536"
definition BSS_TILE_DOUBLE :: nat where "BSS_TILE_DOUBLE = 32768"

text \<open>The loop that copies \<open>n\<close> bytes of each stream into the tile.\<close>

fun gather_streams :: "nat list \<Rightarrow> u8 list \<Rightarrow> nat \<Rightarrow> nat \<Rightarrow> nat \<Rightarrow> u8 list \<Rightarrow> u8 list option" where
  "gather_streams [] data count off n tile = Some tile"
| "gather_streams (s # ss) data count off n tile = do {
     bs \<leftarrow> rd_bytes data (s * count + off) n;
     tile' \<leftarrow> wr_bytes tile (s * n) bs;
     gather_streams ss data count off n tile'
   }"

text \<open>
  The two loops are the same but for the number of streams, the tile and the kernel. The guard
  \<open>0 < T\<close> only serves the definition: the two tile sizes are constants.
\<close>

function tile_loop ::
  "(u8 list \<Rightarrow> nat \<Rightarrow> u8 list \<Rightarrow> nat \<Rightarrow> u8 list option) \<Rightarrow> nat \<Rightarrow> nat \<Rightarrow> u8 list \<Rightarrow> nat \<Rightarrow> u8 list \<Rightarrow> nat \<Rightarrow>
   u8 list \<Rightarrow> u8 list option" where
  "tile_loop kern S T data count tile off dst =
     (if off < count \<and> 0 < T then do {
        let n = (if count - off > T then T else count - off);
        tile' \<leftarrow> gather_streams [0..<S] data count off n tile;
        dst' \<leftarrow> kern tile' n dst (off * S);
        tile_loop kern S T data count tile' (off + n) dst'
      } else Some dst)"
  by pat_completeness auto
termination by (relation "measure (\<lambda>(kern, S, T, data, count, tile, off, dst). count - off)") auto

declare tile_loop.simps [simp del]

text \<open>The tile on the stack is not initialised: \<open>junk\<close> is what it holds.\<close>

definition carquet_bss_decode_float_tiled :: "(nat \<Rightarrow> u8) \<Rightarrow> u8 list \<Rightarrow> nat \<Rightarrow> u8 list \<Rightarrow> u8 list option" where
  "carquet_bss_decode_float_tiled junk data count dst =
     (if count \<le> BSS_TILE_FLOAT then scalar_byte_split_decode_float data count dst 0
      else tile_loop scalar_byte_split_decode_float 4 BSS_TILE_FLOAT data count (map junk [0..<4 * BSS_TILE_FLOAT]) 0 dst)"

definition carquet_bss_decode_double_tiled :: "(nat \<Rightarrow> u8) \<Rightarrow> u8 list \<Rightarrow> nat \<Rightarrow> u8 list \<Rightarrow> u8 list option" where
  "carquet_bss_decode_double_tiled junk data count dst =
     (if count \<le> BSS_TILE_DOUBLE then scalar_byte_split_decode_double data count dst 0
      else tile_loop scalar_byte_split_decode_double 8 BSS_TILE_DOUBLE data count (map junk [0..<8 * BSS_TILE_DOUBLE]) 0 dst)"

section \<open>Encoding and decoding\<close>

text \<open>The array and \<open>*bytes_written\<close>. The product of the count and the length may wrap.\<close>

definition carquet_byte_stream_split_encode_float ::
  "u8 list option \<Rightarrow> nat \<Rightarrow> u8 list option \<Rightarrow> nat \<Rightarrow> (carquet_status + u8 list \<times> nat) option" where
  "carquet_byte_stream_split_encode_float vals count out capacity =
     (case (vals, out) of
        (Some v, Some buf) \<Rightarrow>
          (let required_size = sz (count * 4) in
           if capacity < required_size then Some (Inl CARQUET_ERROR_ENCODE)
           else do { out' \<leftarrow> scalar_byte_split_encode_float v count buf; Some (Inr (out', required_size)) })
      | _ \<Rightarrow> Some (Inl CARQUET_ERROR_INVALID_ARGUMENT))"

definition carquet_byte_stream_split_decode_float ::
  "(nat \<Rightarrow> u8) \<Rightarrow> u8 list option \<Rightarrow> nat \<Rightarrow> u8 list option \<Rightarrow> nat \<Rightarrow> (carquet_status + u8 list) option" where
  "carquet_byte_stream_split_decode_float junk data data_size vals count =
     (case (data, vals) of
        (Some d, Some v) \<Rightarrow>
          (let required_size = sz (count * 4) in
           if data_size < required_size then Some (Inl CARQUET_ERROR_DECODE)
           else do { v' \<leftarrow> carquet_bss_decode_float_tiled junk d count v; Some (Inr v') })
      | _ \<Rightarrow> Some (Inl CARQUET_ERROR_INVALID_ARGUMENT))"

definition carquet_byte_stream_split_encode_double ::
  "u8 list option \<Rightarrow> nat \<Rightarrow> u8 list option \<Rightarrow> nat \<Rightarrow> (carquet_status + u8 list \<times> nat) option" where
  "carquet_byte_stream_split_encode_double vals count out capacity =
     (case (vals, out) of
        (Some v, Some buf) \<Rightarrow>
          (let required_size = sz (count * 8) in
           if capacity < required_size then Some (Inl CARQUET_ERROR_ENCODE)
           else do { out' \<leftarrow> scalar_byte_split_encode_double v count buf; Some (Inr (out', required_size)) })
      | _ \<Rightarrow> Some (Inl CARQUET_ERROR_INVALID_ARGUMENT))"

definition carquet_byte_stream_split_decode_double ::
  "(nat \<Rightarrow> u8) \<Rightarrow> u8 list option \<Rightarrow> nat \<Rightarrow> u8 list option \<Rightarrow> nat \<Rightarrow> (carquet_status + u8 list) option" where
  "carquet_byte_stream_split_decode_double junk data data_size vals count =
     (case (data, vals) of
        (Some d, Some v) \<Rightarrow>
          (let required_size = sz (count * 8) in
           if data_size < required_size then Some (Inl CARQUET_ERROR_DECODE)
           else do { v' \<leftarrow> carquet_bss_decode_double_tiled junk d count v; Some (Inr v') })
      | _ \<Rightarrow> Some (Inl CARQUET_ERROR_INVALID_ARGUMENT))"

definition carquet_byte_stream_split_encode ::
  "u8 list option \<Rightarrow> nat \<Rightarrow> int \<Rightarrow> u8 list option \<Rightarrow> nat \<Rightarrow> (carquet_status + u8 list \<times> nat) option" where
  "carquet_byte_stream_split_encode vals count type_length out capacity =
     (case (vals, out) of
        (Some v, Some buf) \<Rightarrow>
          (if type_length \<le> 0 then Some (Inl CARQUET_ERROR_INVALID_ARGUMENT)
           else let len = nat type_length; required_size = sz (count * len) in
             if capacity < required_size then Some (Inl CARQUET_ERROR_ENCODE)
             else do {
               out' \<leftarrow> (if len = 4 then scalar_byte_split_encode_float v count buf
                     else if len = 8 then scalar_byte_split_encode_double v count buf
                     else copy_all [(b * count + i, i * len + b). b \<leftarrow> [0..<len], i \<leftarrow> [0..<count]] v buf);
               Some (Inr (out', required_size))
             })
      | _ \<Rightarrow> Some (Inl CARQUET_ERROR_INVALID_ARGUMENT))"

definition carquet_byte_stream_split_decode ::
  "(nat \<Rightarrow> u8) \<Rightarrow> u8 list option \<Rightarrow> nat \<Rightarrow> int \<Rightarrow> u8 list option \<Rightarrow> nat \<Rightarrow> (carquet_status + u8 list) option" where
  "carquet_byte_stream_split_decode junk data data_size type_length vals count =
     (case (data, vals) of
        (Some d, Some v) \<Rightarrow>
          (if type_length \<le> 0 then Some (Inl CARQUET_ERROR_INVALID_ARGUMENT)
           else let len = nat type_length; required_size = sz (count * len) in
             if data_size < required_size then Some (Inl CARQUET_ERROR_DECODE)
             else do {
               v' \<leftarrow> (if len = 4 then carquet_bss_decode_float_tiled junk d count v
                     else if len = 8 then carquet_bss_decode_double_tiled junk d count v
                     else copy_all [(i * len + b, b * count + i). i \<leftarrow> [0..<count], b \<leftarrow> [0..<len]] d v);
               Some (Inr v')
             })
      | _ \<Rightarrow> Some (Inl CARQUET_ERROR_INVALID_ARGUMENT))"

section \<open>The transposition\<close>

lemma copy_all_ok:
  "\<forall>(d, s) \<in> set ps. d < length dst \<and> s < length src \<and> s = f d \<Longrightarrow>
   copy_all ps src dst = Some (map (\<lambda>d. if d \<in> fst ` set ps then src ! f d else dst ! d) [0..<length dst])"
proof (induction ps arbitrary: dst)
  case Nil
  then show ?case by (simp add: map_nth)
next
  case (Cons p ps)
  obtain d s where p: "p = (d, s)" by (cases p)
  have "\<forall>(d', s) \<in> set ps. d' < length (dst[d := src ! s]) \<and> s < length src \<and> s = f d'"
    using Cons.prems by (auto simp: p)
  then have "\<forall>(d', s) \<in> set ps. d' < length (dst[d := src ! f d]) \<and> s < length src \<and> s = f d'"
    by auto
  from Cons.IH [OF this] show ?case
    using Cons.prems by (auto simp: p nth_list_update)
qed

text \<open>The streams of \<open>count\<close> values of \<open>S\<close> bytes, and back.\<close>

definition split_bytes :: "nat \<Rightarrow> nat \<Rightarrow> u8 list \<Rightarrow> u8 list" where
  "split_bytes S count src = map (\<lambda>k. src ! ((k mod count) * S + k div count)) [0..<count * S]"

definition merge_bytes :: "nat \<Rightarrow> nat \<Rightarrow> u8 list \<Rightarrow> u8 list" where
  "merge_bytes S count data = map (\<lambda>k. data ! ((k mod S) * count + k div S)) [0..<count * S]"

lemma length_split [simp]: "length (split_bytes S count src) = count * S"
  and length_merge [simp]: "length (merge_bytes S count src) = count * S"
  by (simp_all add: split_bytes_def merge_bytes_def)

lemma index_less: "i < m \<Longrightarrow> j < n \<Longrightarrow> i * n + j < m * (n :: nat)"
proof -
  assume "i < m" "j < n"
  then have "i * n + j < Suc i * n" by simp
  also have "\<dots> \<le> m * n" using \<open>i < m\<close> by (intro mult_le_mono) simp_all
  finally show ?thesis .
qed

lemma index_div_less: "k < m * n \<Longrightarrow> k div n < (m :: nat)"
  by (simp add: less_mult_imp_div_less)

lemma merge_split:
  assumes "length src = count * S"
  shows "merge_bytes S count (split_bytes S count src) = src"
proof (rule nth_equalityI)
  fix k assume "k < length (merge_bytes S count (split_bytes S count src))"
  then have k: "k < count * S" by simp
  then have S: "0 < S" by (cases S) simp_all
  have q: "k div S < count" "k mod S < S" using index_div_less [OF k] S by simp_all
  let ?j = "(k mod S) * count + k div S"
  have "?j < S * count" using q by (intro index_less)
  then have "split_bytes S count src ! ?j = src ! ((?j mod count) * S + ?j div count)"
    by (simp add: split_bytes_def mult.commute)
  also have "(?j mod count) * S + ?j div count = k" using q by (simp add: mult.commute)
  finally show "merge_bytes S count (split_bytes S count src) ! k = src ! k" using k by (simp add: merge_bytes_def)
qed (simp add: assms)

text \<open>What the loops over all pairs of a value and a byte do, in either order of nesting.\<close>

lemma replace_prefix:
  assumes "base + n \<le> length dst"
  shows "map (\<lambda>d. if d \<in> {base..<base + n} then g (d - base) else dst ! d) [0..<length dst] =
    take base dst @ map g [0..<n] @ drop (base + n) dst"
  by (rule nth_equalityI) (use assms in \<open>auto simp: nth_append\<close>)

lemma split_pairs:
  assumes "set ps = (\<lambda>(i, b). (b * count + i, i * S + b)) ` ({0..<count} \<times> {0..<S})"
    and "count * S \<le> length src" and "count * S \<le> length dst"
  shows "copy_all ps src dst = Some (split_bytes S count src @ drop (count * S) dst)"
proof -
  let ?f = "\<lambda>d. (d mod count) * S + d div count"
  have "d < count * S \<and> s < count * S \<and> s = ?f d" if m: "(d, s) \<in> set ps" for d s
  proof -
    obtain i b where ib: "i < count" "b < S" "d = b * count + i" "s = i * S + b" using m assms(1) by auto
    then show ?thesis using index_less [of b S i count] index_less [of i count b S] by (simp add: mult.commute)
  qed
  then have "\<forall>(d, s) \<in> set ps. d < length dst \<and> s < length src \<and> s = ?f d" using assms(2,3) by fastforce
  from copy_all_ok [OF this]
  have "copy_all ps src dst = Some (map (\<lambda>d. if d \<in> fst ` set ps then src ! ?f d else dst ! d) [0..<length dst])" .
  moreover have "fst ` set ps = {0..<0 + count * S}"
  proof -
    have "d \<in> fst ` set ps" if d: "d < count * S" for d
    proof -
      have "0 < count" using d by (cases count) simp_all
      then have "d mod count < count" "d div count < S"
        using d index_div_less [of d S count] by (simp_all add: mult.commute)
      then have "(d div count * count + d mod count, d mod count * S + d div count) \<in> set ps"
        unfolding assms(1) by force
      then show ?thesis by force
    qed
    moreover have "d < count * S" if "d \<in> fst ` set ps" for d
      using that \<open>\<And>s d. (d, s) \<in> set ps \<Longrightarrow> d < count * S \<and> s < count * S \<and> s = ?f d\<close> by force
    ultimately have "d \<in> fst ` set ps \<longleftrightarrow> d \<in> {0..<0 + count * S}" for d unfolding atLeastLessThan_iff by (metis add_0 le0)
    then show ?thesis by (rule set_eqI)
  qed
  ultimately show ?thesis
    using replace_prefix [of 0 "count * S" dst "\<lambda>d. src ! ?f d", unfolded diff_zero] assms(3) by (simp add: split_bytes_def)
qed

lemma merge_pairs:
  assumes "set ps = (\<lambda>(i, b). (base + (i * S + b), b * count + i)) ` ({0..<count} \<times> {0..<S})"
    and "count * S \<le> length data" and "base + count * S \<le> length dst"
  shows "copy_all ps data dst = Some (take base dst @ merge_bytes S count data @ drop (base + count * S) dst)"
proof -
  let ?f = "\<lambda>d. ((d - base) mod S) * count + (d - base) div S"
  have sound: "base \<le> d \<and> d < base + count * S \<and> s < count * S \<and> s = ?f d" if m: "(d, s) \<in> set ps" for d s
  proof -
    obtain i b where ib: "i < count" "b < S" "d = base + (i * S + b)" "s = b * count + i" using m assms(1) by auto
    then show ?thesis using index_less [of b S i count] index_less [of i count b S] by (simp add: mult.commute)
  qed
  then have "\<forall>(d, s) \<in> set ps. d < length dst \<and> s < length data \<and> s = ?f d" using assms(2,3) by fastforce
  from copy_all_ok [OF this]
  have "copy_all ps data dst = Some (map (\<lambda>d. if d \<in> fst ` set ps then data ! ?f d else dst ! d) [0..<length dst])" .
  moreover have "fst ` set ps = {base..<base + count * S}"
  proof -
    have "d \<in> fst ` set ps" if d: "base \<le> d" "d < base + count * S" for d
    proof -
      have k: "d - base < count * S" using d by linarith
      then have "0 < S" by (cases S) simp_all
      then have "(d - base) mod S < S" "(d - base) div S < count"
        using index_div_less [OF k] by simp_all
      then have "(base + ((d - base) div S * S + (d - base) mod S), (d - base) mod S * count + (d - base) div S) \<in> set ps"
        unfolding assms(1) by force
      moreover have "base + ((d - base) div S * S + (d - base) mod S) = d" using d by simp
      ultimately show ?thesis by force
    qed
    moreover have "base \<le> d \<and> d < base + count * S" if "d \<in> fst ` set ps" for d using that sound by force
    ultimately have "d \<in> fst ` set ps \<longleftrightarrow> d \<in> {base..<base + count * S}" for d unfolding atLeastLessThan_iff by metis
    then show ?thesis by (rule set_eqI)
  qed
  ultimately show ?thesis
    using replace_prefix [of base "count * S" dst "\<lambda>k. data ! ((k mod S) * count + k div S)"] assms(3)
    by (simp add: merge_bytes_def)
qed


lemma split_float:
  assumes "count * 4 \<le> length src" and "count * 4 \<le> length dst"
  shows "scalar_byte_split_encode_float src count dst = Some (split_bytes 4 count src @ drop (count * 4) dst)"
  unfolding scalar_byte_split_encode_float_def by (intro split_pairs assms) auto

lemma split_double:
  assumes "count * 8 \<le> length src" and "count * 8 \<le> length dst"
  shows "scalar_byte_split_encode_double src count dst = Some (split_bytes 8 count src @ drop (count * 8) dst)"
  unfolding scalar_byte_split_encode_double_def by (intro split_pairs assms) auto

lemma merge_float:
  assumes "count * 4 \<le> length data" and "base + count * 4 \<le> length dst"
  shows "scalar_byte_split_decode_float data count dst base =
    Some (take base dst @ merge_bytes 4 count data @ drop (base + count * 4) dst)"
  unfolding scalar_byte_split_decode_float_def by (intro merge_pairs assms) auto

lemma merge_double:
  assumes "count * 8 \<le> length data" and "base + count * 8 \<le> length dst"
  shows "scalar_byte_split_decode_double data count dst base =
    Some (take base dst @ merge_bytes 8 count data @ drop (base + count * 8) dst)"
  unfolding scalar_byte_split_decode_double_def by (intro merge_pairs assms) auto

section \<open>Tiles\<close>

text \<open>What a kernel of \<open>S\<close> streams promises the tiled loop.\<close>

locale merge_kernel =
  fixes kern :: "u8 list \<Rightarrow> nat \<Rightarrow> u8 list \<Rightarrow> nat \<Rightarrow> u8 list option" and S :: nat
  assumes kern_merges: "n * S \<le> length data \<Longrightarrow> base + n * S \<le> length dst \<Longrightarrow>
    kern data n dst base = Some (take base dst @ merge_bytes S n data @ drop (base + n * S) dst)"
begin

lemma gather_ok:
  assumes "set ss \<subseteq> {0..<S}" and "off + n \<le> count" and "count * S \<le> length data" and "n * S \<le> length tile"
  shows "\<exists>tile'. gather_streams ss data count off n tile = Some tile' \<and> length tile' = length tile \<and>
    (\<forall>s < S. \<forall>j < n. tile' ! (s * n + j) = (if s \<in> set ss then data ! (s * count + off + j) else tile ! (s * n + j)))"
  using assms(1,4)
proof (induction ss arbitrary: tile)
  case (Cons s ss)
  have s: "s < S" using Cons.prems(1) by simp
  have "s * count + count \<le> S * count" using s by (metis Suc_leI mult_Suc mult_le_mono1 add.commute)
  then have r: "s * count + off + n \<le> length data" using assms(2,3) by (simp add: mult.commute)
  have "s * n + n \<le> S * n" using s by (metis Suc_leI mult_Suc mult_le_mono1 add.commute)
  then have w: "s * n + n \<le> length tile" using Cons.prems(2) by (simp add: mult.commute)
  let ?bs = "take n (drop (s * count + off) data)" let ?t = "take (s * n) tile @ ?bs @ drop (s * n + n) tile"
  have lb: "length ?bs = n" using r by simp
  have step: "gather_streams (s # ss) data count off n tile = gather_streams ss data count off n ?t"
    using r w lb by (simp add: rd_bytes_in wr_bytes_in)
  have lt: "length ?t = length tile" using w lb by simp
  have t: "?t ! (s' * n + j) = (if s' = s then data ! (s * count + off + j) else tile ! (s' * n + j))"
    if "s' < S" "j < n" for s' j
  proof -
    consider "s' = s" | "s' < s" | "s < s'" by linarith
    then show ?thesis
    proof cases
      case 1
      have "?t ! (s * n + j) = ?bs ! j" using w lb that(2) by (simp add: nth_append)
      then show ?thesis using 1 that(2) r by simp
    next
      case 2
      then have "s' * n + n \<le> s * n" by (metis Suc_leI mult_Suc mult_le_mono1 add.commute)
      then have "s' * n + j < s * n" using that(2) by linarith
      then show ?thesis using 2 w by (simp add: nth_append)
    next
      case 3
      then have "s * n + n \<le> s' * n" by (metis Suc_leI mult_Suc mult_le_mono1 add.commute)
      moreover have "\<not> s' * n + j - s * n < n" using calculation by linarith
      moreover have "s' * n + j < length tile" using index_less [of s' S j n] that Cons.prems(2) by (simp add: mult.commute)
      ultimately show ?thesis using 3 w lb by (simp add: nth_append)
    qed
  qed
  have "set ss \<subseteq> {0..<S}" "n * S \<le> length ?t" using Cons.prems lt by simp_all
  from Cons.IH [OF this] obtain tile' where "gather_streams ss data count off n ?t = Some tile'" "length tile' = length ?t"
    "\<forall>s < S. \<forall>j < n. tile' ! (s * n + j) = (if s \<in> set ss then data ! (s * count + off + j) else ?t ! (s * n + j))"
    by blast
  then show ?case unfolding step using lt t by (intro exI [of _ tile']) auto
qed simp

text \<open>A tile of the streams merges to a stretch of the whole.\<close>

lemma merge_tile:
  assumes "\<forall>s < S. \<forall>j < n. tile ! (s * n + j) = data ! (s * count + off + j)" and "off + n \<le> count"
  shows "merge_bytes S n tile = take (n * S) (drop (off * S) (merge_bytes S count data))"
proof (rule nth_equalityI)
  have bound: "off * S + n * S \<le> count * S" using assms(2) by (simp flip: add_mult_distrib)
  have le: "off * S \<le> count * S" using bound by linarith
  show "length (merge_bytes S n tile) = length (take (n * S) (drop (off * S) (merge_bytes S count data)))" using bound by simp
  fix k assume "k < length (merge_bytes S n tile)"
  then have k: "k < n * S" by simp
  then have "0 < S" by (cases S) simp_all
  then have q: "k mod S < S" "k div S < n" using index_div_less [OF k] by simp_all
  have "merge_bytes S n tile ! k = data ! ((k mod S) * count + (off + k div S))"
    using k q assms(1) by (simp add: merge_bytes_def add.assoc)
  also have "\<dots> = merge_bytes S count data ! (off * S + k)"
    using k bound \<open>0 < S\<close> by (simp add: merge_bytes_def)
  finally show "merge_bytes S n tile ! k = take (n * S) (drop (off * S) (merge_bytes S count data)) ! k"
    using k le by (simp add: nth_drop)
qed

lemma tile_loop_ok:
  assumes "0 < T" and "count * S \<le> length data"
  shows "off \<le> count \<Longrightarrow> T * S \<le> length tile \<Longrightarrow> count * S \<le> length dst \<Longrightarrow>
    tile_loop kern S T data count tile off dst =
      Some (take (off * S) dst @ drop (off * S) (merge_bytes S count data) @ drop (count * S) dst)"
proof (induction "count - off" arbitrary: off tile dst rule: less_induct)
  case less
  show ?case
  proof (cases "off < count")
    case False
    then show ?thesis using less.prems by (subst tile_loop.simps) simp
  next
    case True
    define n where "n = (if count - off > T then T else count - off)"
    have n: "0 < n" "off + n \<le> count" "n \<le> T" using True assms(1) by (auto simp: n_def)
    have nS: "n * S \<le> length tile" using n(3) less.prems(2) by (meson le_trans mult_le_mono1)
    have oS: "off * S + n * S \<le> count * S" using n(2) by (simp flip: add_mult_distrib)
    obtain tile' where t: "gather_streams [0..<S] data count off n tile = Some tile'" "length tile' = length tile"
      "\<forall>s < S. \<forall>j < n. tile' ! (s * n + j) = data ! (s * count + off + j)"
      using gather_ok [of "[0..<S]" off n count data tile] n(2) assms(2) nS by auto
    let ?m = "merge_bytes S count data"
    let ?dst = "take (off * S) dst @ take (n * S) (drop (off * S) ?m) @ drop (off * S + n * S) dst"
    have "kern tile' n dst (off * S) = Some ?dst"
      using kern_merges [of n tile' "off * S" dst] merge_tile [OF t(3) n(2)] nS t(2) oS less.prems(3) by simp
    then have "tile_loop kern S T data count tile off dst = tile_loop kern S T data count tile' (off + n) ?dst"
      using True assms(1) t(1) by (subst tile_loop.simps) (simp add: n_def [symmetric] Let_def)
    also have "\<dots> = Some (take ((off + n) * S) ?dst @ drop ((off + n) * S) ?m @ drop (count * S) ?dst)"
      using n less.prems t(2) oS by (intro less.hyps) simp_all
    also have "take ((off + n) * S) ?dst = take (off * S) dst @ take (n * S) (drop (off * S) ?m)"
      using oS less.prems(3) n(2) by (simp add: add_mult_distrib)
    also have "drop (count * S) ?dst = drop (count * S) dst"
      using oS less.prems(1,3) by simp
    also have "take (n * S) (drop (off * S) ?m) @ drop ((off + n) * S) ?m = drop (off * S) ?m"
      by (metis add.commute add_mult_distrib append_take_drop_id drop_drop)
    then have "(take (off * S) dst @ take (n * S) (drop (off * S) ?m)) @ drop ((off + n) * S) ?m @ drop (count * S) dst =
        take (off * S) dst @ drop (off * S) ?m @ drop (count * S) dst" by simp
    finally show ?thesis .
  qed
qed

end

interpretation floats: merge_kernel scalar_byte_split_decode_float 4
  by unfold_locales (rule merge_float)

interpretation doubles: merge_kernel scalar_byte_split_decode_double 8
  by unfold_locales (rule merge_double)


section \<open>Properties\<close>

lemma tiled_float:
  assumes "count * 4 \<le> length data" and "count * 4 \<le> length dst"
  shows "carquet_bss_decode_float_tiled junk data count dst = Some (merge_bytes 4 count data @ drop (count * 4) dst)"
proof (cases "count \<le> BSS_TILE_FLOAT")
  case True
  then show ?thesis using merge_float [of count data 0 dst] assms by (simp add: carquet_bss_decode_float_tiled_def)
next
  case False
  have "tile_loop scalar_byte_split_decode_float 4 BSS_TILE_FLOAT data count (map junk [0..<4 * BSS_TILE_FLOAT]) 0 dst =
      Some (take (0 * 4) dst @ drop (0 * 4) (merge_bytes 4 count data) @ drop (count * 4) dst)"
    by (rule floats.tile_loop_ok) (simp_all add: BSS_TILE_FLOAT_def assms)
  then show ?thesis using False by (simp add: carquet_bss_decode_float_tiled_def)
qed

lemma tiled_double:
  assumes "count * 8 \<le> length data" and "count * 8 \<le> length dst"
  shows "carquet_bss_decode_double_tiled junk data count dst = Some (merge_bytes 8 count data @ drop (count * 8) dst)"
proof (cases "count \<le> BSS_TILE_DOUBLE")
  case True
  then show ?thesis using merge_double [of count data 0 dst] assms by (simp add: carquet_bss_decode_double_tiled_def)
next
  case False
  have "tile_loop scalar_byte_split_decode_double 8 BSS_TILE_DOUBLE data count (map junk [0..<8 * BSS_TILE_DOUBLE]) 0 dst =
      Some (take (0 * 8) dst @ drop (0 * 8) (merge_bytes 8 count data) @ drop (count * 8) dst)"
    by (rule doubles.tile_loop_ok) (simp_all add: BSS_TILE_DOUBLE_def assms)
  then show ?thesis using False by (simp add: carquet_bss_decode_double_tiled_def)
qed

text \<open>C34: The cache-tiled decoders do what one pass of the scalar kernel does, for every count whose
  values (4 bytes each for floats, 8 for doubles) the data and the output hold, and no byte more: both
  put byte \<open>b\<close> of value \<open>i\<close> from position \<open>i\<close> of stream \<open>b\<close> and leave the rest of the output alone. The tile,
  whatever it holds at first, never shows, also when the last tile is not full.\<close>

theorem tiled_is_direct:
  assumes "n * 4 \<le> length floats" and "n * 4 \<le> length fdst"
    and "m * 8 \<le> length doubles" and "m * 8 \<le> length ddst"
  shows "carquet_bss_decode_float_tiled junk floats n fdst = scalar_byte_split_decode_float floats n fdst 0 \<and>
    carquet_bss_decode_float_tiled junk floats n fdst = Some (merge_bytes 4 n floats @ drop (n * 4) fdst) \<and>
    carquet_bss_decode_double_tiled junk doubles m ddst = scalar_byte_split_decode_double doubles m ddst 0 \<and>
    carquet_bss_decode_double_tiled junk doubles m ddst = Some (merge_bytes 8 m doubles @ drop (m * 8) ddst)"
  using assms tiled_float [of n floats fdst] tiled_double [of m doubles ddst]
    merge_float [of n floats 0 fdst] merge_double [of m doubles 0 ddst] by simp

theorem tiled_is_direct_witness:
  "carquet_bss_decode_float_tiled (\<lambda>_. 7) (replicate 400000 1) 100000 (replicate 400000 0) =
     scalar_byte_split_decode_float (replicate 400000 1) 100000 (replicate 400000 0) 0"
  by (rule tiled_is_direct [where m = 0 and doubles = "[]" and ddst = "[]", THEN conjunct1])
    (simp_all only: length_replicate list.size)

lemma split_generic:
  assumes "count * len \<le> length src" and "count * len \<le> length dst"
  shows "copy_all [(b * count + i, i * len + b). b \<leftarrow> [0..<len], i \<leftarrow> [0..<count]] src dst =
    Some (split_bytes len count src @ drop (count * len) dst)"
  by (rule split_pairs) (use assms in auto)

lemma merge_generic:
  assumes "count * len \<le> length data" and "count * len \<le> length dst"
  shows "copy_all [(i * len + b, b * count + i). i \<leftarrow> [0..<count], b \<leftarrow> [0..<len]] data dst =
    Some (merge_bytes len count data @ drop (count * len) dst)"
proof -
  have "set [(i * len + b, b * count + i). i \<leftarrow> [0..<count], b \<leftarrow> [0..<len]] =
      (\<lambda>(i, b). (0 + (i * len + b), b * count + i)) ` ({0..<count} \<times> {0..<len})" by auto
  from merge_pairs [OF this] assms show ?thesis by simp
qed

text \<open>C27: Decoding the streams gives the values back, for every length of a value, through the
  kernels for floats and doubles and through the loops for the other lengths. The encoder writes
  as many bytes as the values have and no further.\<close>

theorem byte_stream_split_roundtrip:
  assumes "0 < len" and "length vals = count * len" and "count * len < 2 ^ 64"
    and "count * len \<le> length out" and "length dst = count * len"
  shows "\<exists>bytes. carquet_byte_stream_split_encode (Some vals) count (int len) (Some out) (length out) =
        Some (Inr (bytes @ drop (count * len) out, count * len)) \<and> length bytes = count * len \<and>
      carquet_byte_stream_split_decode junk (Some (bytes @ rest)) (length (bytes @ rest)) (int len) (Some dst) count =
        Some (Inr vals)"
proof -
  have enc: "carquet_byte_stream_split_encode (Some vals) count (int len) (Some out) (length out) =
      Some (Inr (split_bytes len count vals @ drop (count * len) out, count * len))"
  proof -
    consider "len = 4" | "len = 8" | "len \<noteq> 4" "len \<noteq> 8" by blast
    then show ?thesis
    proof cases
      case 1
      then show ?thesis using assms split_float [of count vals out]
        by (simp add: carquet_byte_stream_split_encode_def sz_id Let_def)
    next
      case 2
      then show ?thesis using assms split_double [of count vals out]
        by (simp add: carquet_byte_stream_split_encode_def sz_id Let_def)
    next
      case 3
      then show ?thesis using assms split_generic [of count len vals out]
        by (simp add: carquet_byte_stream_split_encode_def sz_id Let_def)
    qed
  qed
  let ?d = "split_bytes len count vals @ rest"
  have "merge_bytes len count ?d = merge_bytes len count (split_bytes len count vals)"
  proof -
    have "(k mod len) * count + k div len < count * len" if "k < count * len" for k
      using index_less [of "k mod len" len "k div len" count] index_div_less [OF that] assms(1) by (simp add: mult.commute)
    then show ?thesis by (simp add: merge_bytes_def nth_append)
  qed
  then have "merge_bytes len count ?d = vals" using merge_split [OF assms(2)] by simp
  then have "carquet_byte_stream_split_decode junk (Some ?d) (length ?d) (int len) (Some dst) count = Some (Inr vals)"
  proof -
    assume m: "merge_bytes len count ?d = vals"
    consider "len = 4" | "len = 8" | "len \<noteq> 4" "len \<noteq> 8" by blast
    then show ?thesis
    proof cases
      case 1
      then show ?thesis using m assms tiled_float [of count ?d dst junk]
        by (simp add: carquet_byte_stream_split_decode_def sz_id Let_def)
    next
      case 2
      then show ?thesis using m assms tiled_double [of count ?d dst junk]
        by (simp add: carquet_byte_stream_split_decode_def sz_id Let_def)
    next
      case 3
      then show ?thesis using m assms merge_generic [of count len ?d dst]
        by (simp add: carquet_byte_stream_split_decode_def sz_id Let_def)
    qed
  qed
  then show ?thesis using enc by (intro exI [of _ "split_bytes len count vals"]) simp
qed

theorem byte_stream_split_roundtrip_witness:
  "\<exists>bytes. carquet_byte_stream_split_encode (Some [1, 2, 3, 4, 5, 6]) 2 (int 3) (Some [9, 9, 9, 9, 9, 9, 9]) (length [9, 9, 9, 9, 9, 9, 9 :: u8]) =
       Some (Inr (bytes @ drop (2 * 3) [9, 9, 9, 9, 9, 9, 9], 2 * 3)) \<and> length bytes = 2 * 3 \<and>
     carquet_byte_stream_split_decode (\<lambda>_. 0) (Some (bytes @ [7])) (length (bytes @ [7])) (int 3) (Some [0, 0, 0, 0, 0, 0]) 2 =
       Some (Inr [1, 2, 3, 4, 5, 6])"
  by (rule byte_stream_split_roundtrip) simp_all

end
