(* ===== verification/Snappy_Decode.thy ===== *)
theory Snappy_Decode
  imports Endian
begin

text \<open>
  Component src/compression/snappy.c, decompression.

  The output array is a list that every store updates; \<open>ip\<close> and \<open>op\<close> are offsets into the
  input and the output. A comparison with a pointer minus a constant is written with the
  constant on the other side. The parameter \<open>vec\<close> is the build: true where a byte shuffle is
  there (SSSE3, NEON, WASM), false for the portable code. A byte shuffle with indices below 16
  picks the bytes the indices name. Loads of 4 and 8 bytes are those of a little-endian machine.
  The output array after an error is not part of a result.
\<close>

section \<open>Tables\<close>

definition kLengthMinusOffset :: "16 word list" where
  "kLengthMinusOffset = [
     -255, 4, 1, 255, -254, 5, 2, 255, -253, 6, 3, 255, -252, 7, 4, 255,
     -251, 8, 5, 255, -250, 9, 6, 255, -249, 10, 7, 255, -248, 11, 8, 255,
     -247, -252, 9, 255, -246, -251, 10, 255, -245, -250, 11, 255, -244, -249, 12, 255,
     -243, -248, 13, 255, -242, -247, 14, 255, -241, -246, 15, 255, -240, -245, 16, 255,
     -239, -508, 17, 255, -238, -507, 18, 255, -237, -506, 19, 255, -236, -505, 20, 255,
     -235, -504, 21, 255, -234, -503, 22, 255, -233, -502, 23, 255, -232, -501, 24, 255,
     -231, -764, 25, 255, -230, -763, 26, 255, -229, -762, 27, 255, -228, -761, 28, 255,
     -227, -760, 29, 255, -226, -759, 30, 255, -225, -758, 31, 255, -224, -757, 32, 255,
     -223, -1020, 33, 255, -222, -1019, 34, 255, -221, -1018, 35, 255, -220, -1017, 36, 255,
     -219, -1016, 37, 255, -218, -1015, 38, 255, -217, -1014, 39, 255, -216, -1013, 40, 255,
     -215, -1276, 41, 255, -214, -1275, 42, 255, -213, -1274, 43, 255, -212, -1273, 44, 255,
     -211, -1272, 45, 255, -210, -1271, 46, 255, -209, -1270, 47, 255, -208, -1269, 48, 255,
     -207, -1532, 49, 255, -206, -1531, 50, 255, -205, -1530, 51, 255, -204, -1529, 52, 255,
     -203, -1528, 53, 255, -202, -1527, 54, 255, -201, -1526, 55, 255, -200, -1525, 56, 255,
     -199, -1788, 57, 255, -198, -1787, 58, 255, -197, -1786, 59, 255, -196, -1785, 60, 255,
     255, -1784, 61, 255, 255, -1783, 62, 255, 255, -1782, 63, 255, 255, -1781, 64, 255]"

definition snappy_masks_offset0 :: "nat list list" where
  "snappy_masks_offset0 = [
     [0, 0, 0, 0, 0, 0, 0, 0, 0, 0, 0, 0, 0, 0, 0, 0],
     [0, 0, 0, 0, 0, 0, 0, 0, 0, 0, 0, 0, 0, 0, 0, 0],
     [0, 1, 0, 1, 0, 1, 0, 1, 0, 1, 0, 1, 0, 1, 0, 1],
     [0, 1, 2, 0, 1, 2, 0, 1, 2, 0, 1, 2, 0, 1, 2, 0],
     [0, 1, 2, 3, 0, 1, 2, 3, 0, 1, 2, 3, 0, 1, 2, 3],
     [0, 1, 2, 3, 4, 0, 1, 2, 3, 4, 0, 1, 2, 3, 4, 0],
     [0, 1, 2, 3, 4, 5, 0, 1, 2, 3, 4, 5, 0, 1, 2, 3],
     [0, 1, 2, 3, 4, 5, 6, 0, 1, 2, 3, 4, 5, 6, 0, 1],
     [0, 1, 2, 3, 4, 5, 6, 7, 0, 1, 2, 3, 4, 5, 6, 7],
     [0, 1, 2, 3, 4, 5, 6, 7, 8, 0, 1, 2, 3, 4, 5, 6],
     [0, 1, 2, 3, 4, 5, 6, 7, 8, 9, 0, 1, 2, 3, 4, 5],
     [0, 1, 2, 3, 4, 5, 6, 7, 8, 9, 10, 0, 1, 2, 3, 4],
     [0, 1, 2, 3, 4, 5, 6, 7, 8, 9, 10, 11, 0, 1, 2, 3],
     [0, 1, 2, 3, 4, 5, 6, 7, 8, 9, 10, 11, 12, 0, 1, 2],
     [0, 1, 2, 3, 4, 5, 6, 7, 8, 9, 10, 11, 12, 13, 0, 1],
     [0, 1, 2, 3, 4, 5, 6, 7, 8, 9, 10, 11, 12, 13, 14, 0]]"

definition snappy_masks_offset16 :: "nat list list" where
  "snappy_masks_offset16 = [
     [0, 0, 0, 0, 0, 0, 0, 0, 0, 0, 0, 0, 0, 0, 0, 0],
     [0, 0, 0, 0, 0, 0, 0, 0, 0, 0, 0, 0, 0, 0, 0, 0],
     [0, 1, 0, 1, 0, 1, 0, 1, 0, 1, 0, 1, 0, 1, 0, 1],
     [1, 2, 0, 1, 2, 0, 1, 2, 0, 1, 2, 0, 1, 2, 0, 1],
     [0, 1, 2, 3, 0, 1, 2, 3, 0, 1, 2, 3, 0, 1, 2, 3],
     [1, 2, 3, 4, 0, 1, 2, 3, 4, 0, 1, 2, 3, 4, 0, 1],
     [4, 5, 0, 1, 2, 3, 4, 5, 0, 1, 2, 3, 4, 5, 0, 1],
     [2, 3, 4, 5, 6, 0, 1, 2, 3, 4, 5, 6, 0, 1, 2, 3],
     [0, 1, 2, 3, 4, 5, 6, 7, 0, 1, 2, 3, 4, 5, 6, 7],
     [7, 8, 0, 1, 2, 3, 4, 5, 6, 7, 8, 0, 1, 2, 3, 4],
     [6, 7, 8, 9, 0, 1, 2, 3, 4, 5, 6, 7, 8, 9, 0, 1],
     [5, 6, 7, 8, 9, 10, 0, 1, 2, 3, 4, 5, 6, 7, 8, 9],
     [4, 5, 6, 7, 8, 9, 10, 11, 0, 1, 2, 3, 4, 5, 6, 7],
     [3, 4, 5, 6, 7, 8, 9, 10, 11, 12, 0, 1, 2, 3, 4, 5],
     [2, 3, 4, 5, 6, 7, 8, 9, 10, 11, 12, 13, 0, 1, 2, 3],
     [1, 2, 3, 4, 5, 6, 7, 8, 9, 10, 11, 12, 13, 14, 0, 1]]"

section \<open>Loads and copies\<close>

definition load32 :: "u8 list \<Rightarrow> nat \<Rightarrow> u32 option" where
  "load32 p i = map_option le_word (rd_bytes p i 4)"

definition load64 :: "u8 list \<Rightarrow> nat \<Rightarrow> u64 option" where
  "load64 p i = map_option le_word (rd_bytes p i 8)"

definition store32 :: "u8 list \<Rightarrow> nat \<Rightarrow> u32 \<Rightarrow> u8 list option" where
  "store32 m i v = wr_bytes m i (le_bytes 4 v)"

definition copy64 :: "u8 list \<Rightarrow> nat \<Rightarrow> u8 list \<Rightarrow> nat \<Rightarrow> u8 list option" where
  "copy64 s src m dst = do { v \<leftarrow> rd_bytes s src 8; wr_bytes m dst v }"

text \<open>Both halves are loaded before the first is stored.\<close>

definition copy128 :: "u8 list \<Rightarrow> nat \<Rightarrow> u8 list \<Rightarrow> nat \<Rightarrow> u8 list option" where
  "copy128 s src m dst = do {
     lo \<leftarrow> rd_bytes s src 8;
     hi \<leftarrow> rd_bytes s (src + 8) 8;
     m1 \<leftarrow> wr_bytes m dst lo;
     wr_bytes m1 (dst + 8) hi
   }"

section \<open>The length\<close>

text \<open>The value and the bytes it takes; None inside for the return value 0.\<close>

definition snappy_read_varint :: "u8 list \<Rightarrow> nat \<Rightarrow> nat \<Rightarrow> (u32 \<times> nat) option option" where
  "snappy_read_varint s p ending =
     (if p \<ge> ending then Some None else do {
        b0 \<leftarrow> rd s p;
        let r0 = ucast (b0 AND 0x7F);
        if b0 < 128 then Some (Some (r0, 1))
        else if p + 1 \<ge> ending then Some None else do {
        b1 \<leftarrow> rd s (p + 1);
        let r1 = r0 OR push_bit 7 (ucast (b1 AND 0x7F));
        if b1 < 128 then Some (Some (r1, 2))
        else if p + 2 \<ge> ending then Some None else do {
        b2 \<leftarrow> rd s (p + 2);
        let r2 = r1 OR push_bit 14 (ucast (b2 AND 0x7F));
        if b2 < 128 then Some (Some (r2, 3))
        else if p + 3 \<ge> ending then Some None else do {
        b3 \<leftarrow> rd s (p + 3);
        let r3 = r2 OR push_bit 21 (ucast (b3 AND 0x7F));
        if b3 < 128 then Some (Some (r3, 4))
        else if p + 4 \<ge> ending then Some None else do {
        b4 \<leftarrow> rd s (p + 4);
        let r4 = r3 OR push_bit 28 (ucast (b4 AND 0x7F));
        if b4 < 16 then Some (Some (r4, 5)) else Some None
        }}}}})"

section \<open>Copies that may overlap\<close>

function incremental_copy_slow :: "u8 list \<Rightarrow> nat \<Rightarrow> nat \<Rightarrow> nat \<Rightarrow> u8 list option" where
  "incremental_copy_slow m src op op_limit =
     (if op < op_limit then do {
        b \<leftarrow> rd m src;
        m1 \<leftarrow> wr m op b;
        incremental_copy_slow m1 (src + 1) (op + 1) op_limit
      } else Some m)"
  by pat_completeness auto

termination incremental_copy_slow
  by (relation "measure (\<lambda>(m, src, op, op_limit). op_limit - op)") auto

declare incremental_copy_slow.simps [simp del]

text \<open>The vector build, patterns below 16 bytes.\<close>

definition shuffle_bytes :: "u8 list \<Rightarrow> nat list \<Rightarrow> u8 list" where
  "shuffle_bytes v msk = map (\<lambda>i. v ! i) msk"

definition load_pattern :: "u8 list \<Rightarrow> nat \<Rightarrow> nat \<Rightarrow> u8 list option" where
  "load_pattern m src pattern_size = do {
     gen_mask \<leftarrow> rd snappy_masks_offset0 pattern_size;
     raw \<leftarrow> rd_bytes m src 16;
     Some (shuffle_bytes raw gen_mask)
   }"

definition extend_pattern ::
  "nat list \<Rightarrow> nat \<Rightarrow> nat \<Rightarrow> u8 list \<times> u8 list \<Rightarrow> (u8 list \<times> u8 list) option" where
  "extend_pattern reshuffle at op_limit = (\<lambda>(m, pattern).
     if at < op_limit then do {
       let pattern' = shuffle_bytes pattern reshuffle;
       m' \<leftarrow> wr_bytes m at pattern';
       Some (m', pattern')
     } else Some (m, pattern))"

definition vector_pattern_copy :: "u8 list \<Rightarrow> nat \<Rightarrow> nat \<Rightarrow> nat \<Rightarrow> nat \<Rightarrow> u8 list option" where
  "vector_pattern_copy m src op pattern_size op_limit = do {
     pattern \<leftarrow> load_pattern m src pattern_size;
     reshuffle \<leftarrow> rd snappy_masks_offset16 pattern_size;
     m0 \<leftarrow> wr_bytes m op pattern;
     s1 \<leftarrow> extend_pattern reshuffle (op + 16) op_limit (m0, pattern);
     s2 \<leftarrow> extend_pattern reshuffle (op + 32) op_limit s1;
     s3 \<leftarrow> extend_pattern reshuffle (op + 48) op_limit s2;
     Some (fst s3)
   }"

text \<open>The portable build, patterns below 8 bytes: the loop that doubles the pattern, and the rest.\<close>

partial_function (option) double_pattern :: "u8 list \<Rightarrow> nat \<Rightarrow> nat \<Rightarrow> nat \<Rightarrow> (u8 list \<times> nat \<times> nat) option" where
  "double_pattern m src op pattern_size =
     (if pattern_size < 8 then do {
        m1 \<leftarrow> copy64 m src m op;
        double_pattern m1 src (op + pattern_size) (pattern_size * 2)
      } else Some (m, op, pattern_size))"

function copy64_loop :: "u8 list \<Rightarrow> nat \<Rightarrow> nat \<Rightarrow> nat \<Rightarrow> nat \<Rightarrow> (u8 list \<times> nat \<times> nat) option" where
  "copy64_loop m src op op_limit buf_limit =
     (if op + 8 \<le> op_limit \<and> op + 8 \<le> buf_limit then do {
        m1 \<leftarrow> copy64 m src m op;
        copy64_loop m1 (src + 8) (op + 8) op_limit buf_limit
      } else Some (m, src, op))"
  by pat_completeness auto

termination copy64_loop
  by (relation "measure (\<lambda>(m, src, op, op_limit, buf_limit). op_limit - op)") auto

declare copy64_loop.simps [simp del]

definition portable_pattern_copy :: "u8 list \<Rightarrow> nat \<Rightarrow> nat \<Rightarrow> nat \<Rightarrow> nat \<Rightarrow> nat \<Rightarrow> u8 list option" where
  "portable_pattern_copy m src op pattern_size op_limit buf_limit = do {
     (m1, op1, size1) \<leftarrow> double_pattern m src op pattern_size;
     if op1 \<ge> op_limit then Some m1
     else do {
       (m2, src2, op2) \<leftarrow> copy64_loop m1 (op1 - size1) op1 op_limit buf_limit;
       if op2 \<ge> op_limit then Some m2 else incremental_copy_slow m2 src2 op2 op_limit
     }
   }"

text \<open>The blocks of 16 bytes near the end of the buffer.\<close>

function copy128_loop :: "u8 list \<Rightarrow> nat \<Rightarrow> nat \<Rightarrow> nat \<Rightarrow> (u8 list \<times> nat \<times> nat) option" where
  "copy128_loop m src op buf_limit =
     (if op + 16 < buf_limit then do {
        m1 \<leftarrow> copy128 m src m op;
        copy128_loop m1 (src + 16) (op + 16) buf_limit
      } else Some (m, src, op))"
  by pat_completeness auto

termination copy128_loop
  by (relation "measure (\<lambda>(m, src, op, buf_limit). buf_limit - op)") auto

declare copy128_loop.simps [simp del]

definition copy128_if :: "bool \<Rightarrow> u8 list \<Rightarrow> nat \<Rightarrow> nat \<Rightarrow> u8 list option" where
  "copy128_if c m src op = (if c then copy128 m src m op else Some m)"

definition incremental_copy :: "bool \<Rightarrow> u8 list \<Rightarrow> nat \<Rightarrow> nat \<Rightarrow> nat \<Rightarrow> nat \<Rightarrow> u8 list option" where
  "incremental_copy vec m src op op_limit buf_limit =
     (let pattern_size = op - src; big_pattern = (if vec then 16 else 8) in
      if pattern_size < big_pattern then
        (if vec then
           (if op_limit + 15 \<le> buf_limit then vector_pattern_copy m src op pattern_size op_limit
            else incremental_copy_slow m src op op_limit)
         else
           (if op + 11 \<le> buf_limit then portable_pattern_copy m src op pattern_size op_limit buf_limit
            else incremental_copy_slow m src op op_limit))
      else if op_limit + 15 \<le> buf_limit then do {
        m1 \<leftarrow> copy128 m src m op;
        m2 \<leftarrow> copy128_if (op + 16 < op_limit) m1 (src + 16) (op + 16);
        m3 \<leftarrow> copy128_if (op + 32 < op_limit) m2 (src + 32) (op + 32);
        copy128_if (op + 48 < op_limit) m3 (src + 48) (op + 48)
      }
      else do {
        (m1, src1, op1) \<leftarrow> copy128_loop m src op buf_limit;
        if op1 \<ge> op_limit then Some m1
        else if op1 + 8 \<le> buf_limit then do {
          m2 \<leftarrow> copy64 m1 src1 m1 op1;
          incremental_copy_slow m2 (src1 + 8) (op1 + 8) op_limit
        }
        else incremental_copy_slow m1 src1 op1 op_limit
      })"

section \<open>Decompression\<close>

definition SNAPPY_SLOP_BYTES :: nat where
  "SNAPPY_SLOP_BYTES = 64"

text \<open>
  One round of the loop: a status to return, or \<open>ip\<close>, the output and \<open>op\<close> after the element.
\<close>

type_synonym snappy_state = "nat \<times> u8 list \<times> nat"

definition long_literal_length :: "u8 list \<Rightarrow> nat \<Rightarrow> nat \<Rightarrow> nat \<Rightarrow> (carquet_status + nat \<times> nat) option" where
  "long_literal_length s ip ip_end literal_len =
     (if literal_len \<ge> 61 then
        let extra_bytes = literal_len - 60 in
        if ip + extra_bytes > ip_end then Some (Inl CARQUET_ERROR_INVALID_COMPRESSED_DATA)
        else do {
          bs \<leftarrow> rd_bytes s ip (if extra_bytes \<le> 4 then extra_bytes else 4);
          let raw = (le_word bs :: u32);
          let mask64 = (0xFFFFFFFF :: u64);
          let len = (raw AND ucast (NOT (push_bit (8 * extra_bytes) mask64))) + 1;
          Some (Inr (unat len, ip + extra_bytes))
        }
      else Some (Inr (literal_len, ip)))"

definition decode_literal :: "u8 list \<Rightarrow> nat \<Rightarrow> nat \<Rightarrow> u8 \<Rightarrow> u8 list \<Rightarrow> nat \<Rightarrow> nat \<Rightarrow> (carquet_status + snappy_state) option" where
  "decode_literal s ip ip_end tag m op op_end = do {
     r \<leftarrow> long_literal_length s ip ip_end (unat (drop_bit 2 tag) + 1);
     (case r of Inl st \<Rightarrow> Some (Inl st) | Inr (literal_len, ip1) \<Rightarrow>
        if literal_len \<le> 16 \<and> ip1 + 16 \<le> ip_end \<and> op + 16 \<le> op_end then do {
          m1 \<leftarrow> copy128 s ip1 m op;
          Some (Inr (ip1 + literal_len, m1, op + literal_len))
        }
        else if ip1 + literal_len > ip_end \<or> op + literal_len > op_end then
          Some (Inl CARQUET_ERROR_INVALID_COMPRESSED_DATA)
        else do {
          bs \<leftarrow> rd_bytes s ip1 literal_len;
          m1 \<leftarrow> wr_bytes m op bs;
          Some (Inr (ip1 + literal_len, m1, op + literal_len))
        })
   }"

text \<open>The operands of a copy with one or two bytes of offset: length, offset and the new \<open>ip\<close>.\<close>

definition copy_operands :: "u8 list \<Rightarrow> nat \<Rightarrow> nat \<Rightarrow> u8 \<Rightarrow> (carquet_status + nat \<times> nat \<times> nat) option" where
  "copy_operands s ip ip_end tag = do {
     entry \<leftarrow> rd kLengthMinusOffset (unat tag);
     if tag AND 3 = 1 then
       (if ip \<ge> ip_end then Some (Inl CARQUET_ERROR_INVALID_COMPRESSED_DATA)
        else do {
          b \<leftarrow> rd s ip;
          let trailer = (push_bit 3 (ucast (tag AND 0xE0)) OR ucast b :: u32);
          Some (Inr (unat (entry AND 0xFF), unat trailer, ip + 1))
        })
     else
       (if ip + 2 > ip_end then Some (Inl CARQUET_ERROR_INVALID_COMPRESSED_DATA)
        else do {
          b0 \<leftarrow> rd s ip;
          b1 \<leftarrow> rd s (ip + 1);
          let trailer = (ucast b0 OR push_bit 8 (ucast b1) :: u32);
          Some (Inr (unat (entry AND 0xFF), unat trailer, ip + 2))
        })
   }"

definition copy_match :: "bool \<Rightarrow> u8 list \<Rightarrow> nat \<Rightarrow> nat \<Rightarrow> nat \<Rightarrow> nat \<Rightarrow> nat \<Rightarrow> u8 list option" where
  "copy_match vec m op copy_offset len op_end op_limit_min_slop =
     (let match_src = op - copy_offset in
      if copy_offset \<ge> 16 \<and> op + len \<le> op_limit_min_slop then do {
        m1 \<leftarrow> copy128 m match_src m op;
        m2 \<leftarrow> copy128_if (len > 16) m1 (match_src + 16) (op + 16);
        m3 \<leftarrow> copy128_if (len > 32) m2 (match_src + 32) (op + 32);
        copy128_if (len > 48) m3 (match_src + 48) (op + 48)
      }
      else if len \<le> SNAPPY_SLOP_BYTES \<and> op + len \<le> op_limit_min_slop \<and> copy_offset \<ge> len then do {
        bs \<leftarrow> rd_bytes m match_src SNAPPY_SLOP_BYTES;
        wr_bytes m op bs
      }
      else incremental_copy vec m match_src op (op + len) op_end)"

definition decode_copy :: "bool \<Rightarrow> u8 list \<Rightarrow> nat \<Rightarrow> nat \<Rightarrow> u8 \<Rightarrow> u8 list \<Rightarrow> nat \<Rightarrow> nat \<Rightarrow> nat \<Rightarrow>
   (carquet_status + snappy_state) option" where
  "decode_copy vec s ip ip_end tag m op op_end op_limit_min_slop = do {
     r \<leftarrow> copy_operands s ip ip_end tag;
     (case r of Inl st \<Rightarrow> Some (Inl st) | Inr (len, copy_offset, ip1) \<Rightarrow>
        if copy_offset = 0 \<or> copy_offset > op then Some (Inl CARQUET_ERROR_INVALID_COMPRESSED_DATA)
        else if op + len > op_end then Some (Inl CARQUET_ERROR_INVALID_COMPRESSED_DATA)
        else do {
          m1 \<leftarrow> copy_match vec m op copy_offset len op_end op_limit_min_slop;
          Some (Inr (ip1, m1, op + len))
        })
   }"

definition decode_copy4 :: "bool \<Rightarrow> u8 list \<Rightarrow> nat \<Rightarrow> nat \<Rightarrow> u8 \<Rightarrow> u8 list \<Rightarrow> nat \<Rightarrow> nat \<Rightarrow>
   (carquet_status + snappy_state) option" where
  "decode_copy4 vec s ip ip_end tag m op op_end =
     (if ip + 4 > ip_end then Some (Inl CARQUET_ERROR_INVALID_COMPRESSED_DATA)
      else do {
        let len = unat (drop_bit 2 tag AND 0x3F) + 1;
        off \<leftarrow> load32 s ip;
        let copy_offset = unat off;
        if copy_offset = 0 \<or> copy_offset > op then Some (Inl CARQUET_ERROR_INVALID_COMPRESSED_DATA)
        else if op + len > op_end then Some (Inl CARQUET_ERROR_INVALID_COMPRESSED_DATA)
        else do {
          m1 \<leftarrow> incremental_copy vec m (op - copy_offset) op (op + len) op_end;
          Some (Inr (ip + 4, m1, op + len))
        }
      })"

definition decode_element :: "bool \<Rightarrow> u8 list \<Rightarrow> nat \<Rightarrow> nat \<Rightarrow> u8 list \<Rightarrow> nat \<Rightarrow> nat \<Rightarrow> nat \<Rightarrow>
   (carquet_status + snappy_state) option" where
  "decode_element vec s ip ip_end m op op_end op_limit_min_slop = do {
     tag \<leftarrow> rd s ip;
     if tag AND 3 = 0 then decode_literal s (ip + 1) ip_end tag m op op_end
     else if tag AND 3 \<noteq> 3 then decode_copy vec s (ip + 1) ip_end tag m op op_end op_limit_min_slop
     else decode_copy4 vec s (ip + 1) ip_end tag m op op_end
   }"

partial_function (option) decode_loop :: "bool \<Rightarrow> u8 list \<Rightarrow> nat \<Rightarrow> nat \<Rightarrow> u8 list \<Rightarrow> nat \<Rightarrow> nat \<Rightarrow> nat \<Rightarrow>
   (carquet_status + snappy_state) option" where
  "decode_loop vec s ip ip_end m op op_end op_limit_min_slop =
     (if ip < ip_end \<and> op < op_end then do {
        r \<leftarrow> decode_element vec s ip ip_end m op op_end op_limit_min_slop;
        (case r of Inl st \<Rightarrow> Some (Inl st)
         | Inr (ip1, m1, op1) \<Rightarrow> decode_loop vec s ip1 ip_end m1 op1 op_end op_limit_min_slop)
      } else Some (Inr (ip, m, op)))"

text \<open>The output array and \<open>*dst_size\<close>.\<close>

definition carquet_snappy_decompress ::
  "bool \<Rightarrow> u8 list option \<Rightarrow> nat \<Rightarrow> u8 list option \<Rightarrow> nat \<Rightarrow> (carquet_status + u8 list \<times> nat) option" where
  "carquet_snappy_decompress vec src src_size dst dst_capacity =
     (case (src, dst) of (Some s, Some m) \<Rightarrow>
        if src_size = 0 then Some (Inr (m, 0))
        else do {
          r \<leftarrow> snappy_read_varint s 0 src_size;
          (case r of None \<Rightarrow> Some (Inl CARQUET_ERROR_INVALID_COMPRESSED_DATA) | Some (len, varint_len) \<Rightarrow>
             let uncompressed_len = unat len in
             if uncompressed_len > dst_capacity then Some (Inl CARQUET_ERROR_INVALID_COMPRESSED_DATA)
             else do {
               let op_limit_min_slop = (if uncompressed_len \<ge> SNAPPY_SLOP_BYTES
                                        then uncompressed_len - SNAPPY_SLOP_BYTES + 1 else 0);
               r \<leftarrow> decode_loop vec s varint_len src_size m 0 uncompressed_len op_limit_min_slop;
               Some (case r of Inl st \<Rightarrow> Inl st | Inr (ip, m', op) \<Rightarrow>
                 if op \<noteq> uncompressed_len \<or> ip \<noteq> src_size then Inl CARQUET_ERROR_INVALID_COMPRESSED_DATA
                 else Inr (m', uncompressed_len))
             })
        }
      | _ \<Rightarrow> Some (Inl CARQUET_ERROR_INVALID_ARGUMENT))"

definition carquet_snappy_get_uncompressed_length ::
  "u8 list option \<Rightarrow> nat \<Rightarrow> (carquet_status + nat) option" where
  "carquet_snappy_get_uncompressed_length src src_size =
     (case src of None \<Rightarrow> Some (Inl CARQUET_ERROR_INVALID_ARGUMENT)
      | Some s \<Rightarrow> do {
          r \<leftarrow> snappy_read_varint s 0 src_size;
          Some (case r of None \<Rightarrow> Inl CARQUET_ERROR_INVALID_COMPRESSED_DATA | Some (len, _) \<Rightarrow> Inr (unat len))
        })"

section \<open>Blocks that repeat\<close>

lemma wr_bytes_append:
  assumes "dst + length (lo @ hi) \<le> length m"
  shows "Option.bind (wr_bytes m dst lo) (\<lambda>m1. wr_bytes m1 (dst + length lo) hi) = wr_bytes m dst (lo @ hi)"
proof -
  have "min (length m) dst = dst" using assms by simp
  then show ?thesis using assms by (simp add: wr_bytes_def ac_simps)
qed

lemma copy128_eq: "copy128 s src m dst = do { v \<leftarrow> rd_bytes s src 16; wr_bytes m dst v }"
proof (cases "src + 16 \<le> length s \<and> dst + 16 \<le> length m")
  case True
  let ?lo = "take 8 (drop src s)" and ?hi = "take 8 (drop (src + 8) s)"
  have split16: "take 16 (drop src s) = ?lo @ ?hi"
    using take_add [of 8 8 "drop src s"] by (simp add: add.commute)
  have len: "length ?lo = 8" "length ?hi = 8" using True by auto
  have "Option.bind (wr_bytes m dst ?lo) (\<lambda>m1. wr_bytes m1 (dst + length ?lo) ?hi) = wr_bytes m dst (?lo @ ?hi)"
    by (rule wr_bytes_append) (use True len in simp)
  then show ?thesis using True unfolding copy128_def len by (simp add: rd_bytes_in split16)
next
  case False
  then show ?thesis by (auto simp: copy128_def rd_bytes_def wr_bytes_def)
qed

text \<open>\<open>m'\<close> has the bytes of \<open>m\<close> below \<open>lo\<close> and from \<open>e\<close> on.\<close>

definition frame :: "nat \<Rightarrow> nat \<Rightarrow> u8 list \<Rightarrow> u8 list \<Rightarrow> bool" where
  "frame e lo m m' \<longleftrightarrow> length m' = length m \<and> take lo m' = take lo m \<and> drop e m' = drop e m"

lemma frame_refl [simp, intro]: "frame e lo m m"
  by (simp add: frame_def)

lemma frame_trans: "frame e lo m m1 \<Longrightarrow> frame e lo' m1 m2 \<Longrightarrow> lo \<le> lo' \<Longrightarrow> frame e lo m m2"
  unfolding frame_def by (metis min.absorb1 take_take)

lemma frame_length: "frame e lo m m' \<Longrightarrow> length m' = length m"
  by (simp add: frame_def)

lemma frame_nth: "frame e lo m m' \<Longrightarrow> i < lo \<Longrightarrow> i < length m \<Longrightarrow> m' ! i = m ! i"
  unfolding frame_def by (metis nth_take)

lemma wr_bytes_nth:
  assumes "q + length bs \<le> length m" and "wr_bytes m q bs = Some m'" and "i < length m"
  shows "m' ! i = (if q \<le> i \<and> i < q + length bs then bs ! (i - q) else m ! i)"
  using assms by (auto simp: wr_bytes_def nth_append split: if_splits)

lemma wr_bytes_frame:
  assumes "lo \<le> q" and "q + length bs \<le> e" and "e \<le> length m"
  obtains m' where "wr_bytes m q bs = Some m'" and "frame e lo m m'"
proof -
  have mq: "min (length m) q = q" using assms by simp
  have "take lo (take q m @ bs @ drop (q + length bs) m) = take lo m"
    using assms(1) by (simp add: mq min_absorb1)
  moreover have "drop e (take q m @ bs @ drop (q + length bs) m) = drop e m"
    using assms(2) by (simp add: mq)
  moreover have "length (take q m @ bs @ drop (q + length bs) m) = length m" using assms by simp
  moreover have "wr_bytes m q bs = Some (take q m @ bs @ drop (q + length bs) m)"
    by (rule wr_bytes_in) (use assms in simp)
  ultimately show thesis using that unfolding frame_def by blast
qed

text \<open>
  The bytes of \<open>m'\<close> from \<open>src\<close> on repeat the \<open>off\<close> bytes that \<open>m\<close> has there, \<open>n\<close> bytes long.
\<close>

definition periodic :: "nat \<Rightarrow> u8 list \<Rightarrow> u8 list \<Rightarrow> nat \<Rightarrow> nat \<Rightarrow> nat \<Rightarrow> bool" where
  "periodic e m m' src off n \<longleftrightarrow> frame e (src + off) m m' \<and> src + n \<le> e \<and> e \<le> length m \<and>
     (\<forall>j < n. m' ! (src + j) = m ! (src + j mod off))"

lemma periodic_refl: "0 < off \<Longrightarrow> src + off \<le> e \<Longrightarrow> e \<le> length m \<Longrightarrow> periodic e m m src off off"
  by (simp add: periodic_def)

lemma periodic_mono: "periodic e m m' src off n \<Longrightarrow> k \<le> n \<Longrightarrow> periodic e m m' src off k"
  by (auto simp: periodic_def)

lemma periodic_frame: "periodic e m m' src off n \<Longrightarrow> frame e (src + off) m m'"
  by (simp add: periodic_def)

lemma periodic_write:
  assumes p: "periodic e m m1 src off n" and "off \<le> n" and "src + n + length bs \<le> e" and "r \<le> length bs"
    and bs: "\<And>i. i < r \<Longrightarrow> bs ! i = m ! (src + (n + i) mod off)"
  obtains m2 where "wr_bytes m1 (src + n) bs = Some m2" and "periodic e m m2 src off (n + r)"
proof -
  from p have e: "e \<le> length m" "length m1 = length m" by (auto simp: periodic_def frame_def)
  obtain m2 where m2: "wr_bytes m1 (src + n) bs = Some m2" "frame e (src + off) m1 m2"
    by (rule wr_bytes_frame [of "src + off" "src + n" bs e m1]) (use assms e in auto)
  have "m2 ! (src + j) = m ! (src + j mod off)" if j: "j < n + r" for j
  proof -
    have "m2 ! (src + j) = (if src + n \<le> src + j \<and> src + j < src + n + length bs then bs ! (src + j - (src + n)) else m1 ! (src + j))"
      by (rule wr_bytes_nth [OF _ m2(1)]) (use assms e j in auto)
    moreover have "bs ! (j - n) = m ! (src + j mod off)" if "n \<le> j" using bs [of "j - n"] that j by simp
    ultimately show ?thesis using p j assms(4) by (auto simp: periodic_def)
  qed
  moreover have "frame e (src + off) m m2" using p m2(2) by (auto simp: periodic_def intro: frame_trans)
  ultimately show thesis using that m2(1) assms e by (auto simp: periodic_def)
qed

lemma periodic_read:
  assumes p: "periodic e m m1 src off n" and "off dvd g" and "g \<le> n" and "src + n - g + k \<le> e"
  obtains bs where "rd_bytes m1 (src + n - g) k = Some bs" and "length bs = k"
    and "\<And>i. i < min k g \<Longrightarrow> bs ! i = m ! (src + (n + i) mod off)"
proof -
  from p have e: "e \<le> length m1" by (auto simp: periodic_def frame_def)
  let ?bs = "take k (drop (src + n - g) m1)"
  have "?bs ! i = m ! (src + (n + i) mod off)" if "i < min k g" for i
  proof -
    have "src + n - g + i = src + (n - g + i)" using \<open>g \<le> n\<close> by linarith
    then have "?bs ! i = m1 ! (src + (n - g + i))" using that assms e by simp
    also have "\<dots> = m ! (src + (n - g + i) mod off)"
    proof -
      have "n - g + i < n" using that \<open>g \<le> n\<close> by linarith
      then show ?thesis using p unfolding periodic_def by blast
    qed
    also have "(n - g + i) mod off = (n - g + i + g) mod off" using \<open>off dvd g\<close> by (metis mod_add_right_eq add_0_right dvd_imp_mod_0)
    also have "n - g + i + g = n + i" using assms by simp
    finally show ?thesis .
  qed
  then show thesis using that [of ?bs] assms e by (simp add: rd_bytes_in)
qed

lemma periodic_copy:
  assumes p: "periodic e m m1 src off n" and g: "off dvd g" "g \<le> n" "0 < g" and "off \<le> n" and "src + n + k \<le> e"
  obtains m2 where "Option.bind (rd_bytes m1 (src + n - g) k) (wr_bytes m1 (src + n)) = Some m2"
    and "periodic e m m2 src off (n + min k g)"
proof -
  have "src + n - g + k \<le> e" using assms by simp
  from periodic_read [OF p g(1,2) this] obtain bs where bs: "rd_bytes m1 (src + n - g) k = Some bs" "length bs = k"
    "\<And>i. i < min k g \<Longrightarrow> bs ! i = m ! (src + (n + i) mod off)" by blast
  have "src + n + length bs \<le> e" "min k g \<le> length bs" using assms bs by auto
  from periodic_write [OF p \<open>off \<le> n\<close> this bs(3)] obtain m2 where
    "wr_bytes m1 (src + n) bs = Some m2" "periodic e m m2 src off (n + min k g)" by auto
  then show thesis using that bs by simp
qed

lemma frame_copy:
  assumes "frame e lo m m1" and "e \<le> length m" and "lo \<le> q" and "q + k \<le> e" and "p + k \<le> e"
  obtains m2 where "Option.bind (rd_bytes m1 p k) (wr_bytes m1 q) = Some m2" and "frame e lo m m2"
proof -
  have e: "e \<le> length m1" using assms by (simp add: frame_length)
  have "p + k \<le> length m1" using assms e by linarith
  then have bs: "rd_bytes m1 p k = Some (take k (drop p m1))" "length (take k (drop p m1)) = k" by (simp_all add: rd_bytes_in)
  obtain m2 where "wr_bytes m1 q (take k (drop p m1)) = Some m2" "frame e lo m1 m2"
    by (rule wr_bytes_frame [OF \<open>lo \<le> q\<close> _ e]) (use bs assms in auto)
  then show thesis using that bs assms by (auto intro: frame_trans)
qed

lemma wr_is_wr_bytes: "wr m i b = wr_bytes m i [b]"
  by (simp add: wr_def wr_bytes_def upd_conv_take_nth_drop)

lemma rd_is_rd_bytes: "Option.bind (rd m i) (\<lambda>b. f [b]) = Option.bind (rd_bytes m i 1) f"
proof (cases "i < length m")
  case True
  then have "take 1 (drop i m) = [m ! i]" by (simp add: drop_eq_Cons)
  then show ?thesis using True by (simp add: rd_bytes_def)
next
  case False
  then show ?thesis by (simp add: rd_bytes_def)
qed

lemma slow_unfold:
  "incremental_copy_slow m src op op_limit = (if op < op_limit
     then Option.bind (Option.bind (rd_bytes m src 1) (wr_bytes m op)) (\<lambda>m1. incremental_copy_slow m1 (src + 1) (op + 1) op_limit)
     else Some m)"
  using rd_is_rd_bytes [of m src "\<lambda>bs. Option.bind (wr_bytes m op bs) (\<lambda>m1. incremental_copy_slow m1 (src + 1) (op + 1) op_limit)"]
  by (subst incremental_copy_slow.simps) (simp add: wr_is_wr_bytes)

lemma slow_frame:
  assumes "frame e lo m m1" and "e \<le> length m" and "lo \<le> op" and "op_limit \<le> e" and "src < op"
  shows "\<exists>m2. incremental_copy_slow m1 src op op_limit = Some m2 \<and> frame e lo m m2"
  using assms
proof (induction "op_limit - op" arbitrary: m1 src op)
  case 0
  then show ?case by (subst slow_unfold) auto
next
  case (Suc x)
  then have lt: "op < op_limit" by simp
  obtain m2 where m2: "Option.bind (rd_bytes m1 src 1) (wr_bytes m1 op) = Some m2" "frame e lo m m2"
    by (rule frame_copy [OF Suc.prems(1,2), of op 1 src]) (use Suc.prems lt in auto)
  have "x = op_limit - (op + 1)" using Suc.hyps(2) by simp
  then have "\<exists>m3. incremental_copy_slow m2 (src + 1) (op + 1) op_limit = Some m3 \<and> frame e lo m m3"
    by (rule Suc.hyps(1)) (use m2 Suc.prems in auto)
  then show ?case using m2 lt by (subst slow_unfold) simp
qed

lemma slow_periodic:
  assumes "periodic e m m1 src off n" and "off dvd g" "g \<le> n" "0 < g" "off \<le> n" and "op_limit \<le> e"
  shows "\<exists>m2. incremental_copy_slow m1 (src + n - g) (src + n) op_limit = Some m2 \<and>
    periodic e m m2 src off (max n (op_limit - src))"
  using assms
proof (induction "op_limit - (src + n)" arbitrary: m1 n)
  case 0
  then have "max n (op_limit - src) = n" by simp
  then show ?case using 0 by (subst slow_unfold) auto
next
  case (Suc x)
  then have lt: "src + n < op_limit" by simp
  have "src + n + 1 \<le> e" using Suc.prems lt by simp
  from periodic_copy [OF Suc.prems(1-5) this] obtain m2 where
    m2: "Option.bind (rd_bytes m1 (src + n - g) 1) (wr_bytes m1 (src + n)) = Some m2" "periodic e m m2 src off (n + min 1 g)" .
  have g1: "n + min 1 g = Suc n" using Suc.prems by simp
  have s: "src + Suc n - g = src + n - g + 1" using Suc.prems by linarith
  have "\<exists>m3. incremental_copy_slow m2 (src + Suc n - g) (src + Suc n) op_limit = Some m3 \<and>
      periodic e m m3 src off (max (Suc n) (op_limit - src))"
    by (rule Suc.hyps(1)) (use Suc.hyps(2) m2 Suc.prems g1 in auto)
  moreover have "max (Suc n) (op_limit - src) = max n (op_limit - src)" using lt by simp
  ultimately show ?case using m2 lt unfolding s by (subst slow_unfold) simp
qed

lemma copy64_loop_periodic:
  assumes "periodic e m m1 src off n" and "off dvd g" "g \<le> n" "8 \<le> g" "off \<le> n"
  shows "\<exists>m2 n2. copy64_loop m1 (src + n - g) (src + n) op_limit e = Some (m2, src + n2 - g, src + n2) \<and>
    n \<le> n2 \<and> periodic e m m2 src off n2"
  using assms
proof (induction "op_limit - (src + n)" arbitrary: m1 n rule: less_induct)
  case less
  show ?case
  proof (cases "src + n + 8 \<le> op_limit \<and> src + n + 8 \<le> e")
    case True
    then have "0 < g" "src + n + 8 \<le> e" using less.prems by auto
    from periodic_copy [OF less.prems(1-3) this(1) less.prems(5) this(2)] obtain m2 where
      m2: "copy64 m1 (src + n - g) m1 (src + n) = Some m2" "periodic e m m2 src off (n + min 8 g)" by (auto simp: copy64_def)
    have g: "n + min 8 g = n + 8" using less.prems by simp
    have s: "src + (n + 8) - g = src + n - g + 8" using less.prems by linarith
    have "\<exists>m3 n2. copy64_loop m2 (src + (n + 8) - g) (src + (n + 8)) op_limit e = Some (m3, src + n2 - g, src + n2) \<and>
        n + 8 \<le> n2 \<and> periodic e m m3 src off n2"
      by (rule less.hyps) (use True m2 less.prems g in auto)
    then obtain m3 n2 where m3: "copy64_loop m2 (src + (n + 8) - g) (src + (n + 8)) op_limit e = Some (m3, src + n2 - g, src + n2)"
       "n + 8 \<le> n2" "periodic e m m3 src off n2" by blast
    have "copy64_loop m1 (src + n - g) (src + n) op_limit e = Some (m3, src + n2 - g, src + n2)"
      using m2(1) m3(1) True unfolding s by (subst copy64_loop.simps) (simp add: add.assoc)
    then show ?thesis using m3 by auto
  next
    case False
    then have "copy64_loop m1 (src + n - g) (src + n) op_limit e = Some (m1, src + n - g, src + n)"
      by (subst copy64_loop.simps) auto
    then show ?thesis using less.prems by blast
  qed
qed

lemma copy128_loop_periodic:
  assumes "periodic e m m1 src off n" and "off dvd g" "g \<le> n" "16 \<le> g" "off \<le> n"
  shows "\<exists>m2 n2. copy128_loop m1 (src + n - g) (src + n) e = Some (m2, src + n2 - g, src + n2) \<and>
    n \<le> n2 \<and> periodic e m m2 src off n2"
  using assms
proof (induction "e - (src + n)" arbitrary: m1 n rule: less_induct)
  case less
  show ?case
  proof (cases "src + n + 16 < e")
    case True
    then have "0 < g" "src + n + 16 \<le> e" using less.prems by auto
    from periodic_copy [OF less.prems(1-3) this(1) less.prems(5) this(2)] obtain m2 where
      m2: "copy128 m1 (src + n - g) m1 (src + n) = Some m2" "periodic e m m2 src off (n + min 16 g)" by (auto simp: copy128_eq)
    have g: "n + min 16 g = n + 16" using less.prems by simp
    have s: "src + (n + 16) - g = src + n - g + 16" using less.prems by linarith
    have "\<exists>m3 n2. copy128_loop m2 (src + (n + 16) - g) (src + (n + 16)) e = Some (m3, src + n2 - g, src + n2) \<and>
        n + 16 \<le> n2 \<and> periodic e m m3 src off n2"
      by (rule less.hyps) (use True m2 less.prems g in auto)
    then obtain m3 n2 where m3: "copy128_loop m2 (src + (n + 16) - g) (src + (n + 16)) e = Some (m3, src + n2 - g, src + n2)"
       "n + 16 \<le> n2" "periodic e m m3 src off n2" by blast
    have "copy128_loop m1 (src + n - g) (src + n) e = Some (m3, src + n2 - g, src + n2)"
      using m2(1) m3(1) True unfolding s by (subst copy128_loop.simps) (simp add: add.assoc)
    then show ?thesis using m3 by auto
  next
    case False
    then have "copy128_loop m1 (src + n - g) (src + n) e = Some (m1, src + n - g, src + n)"
      by (subst copy128_loop.simps) auto
    then show ?thesis using less.prems by blast
  qed
qed

lemma copy128_loop_frame:
  assumes "frame e lo m m1" and "e \<le> length m" and "lo \<le> op" and "src < op"
  shows "\<exists>m2 k. copy128_loop m1 src op e = Some (m2, src + k, op + k) \<and> frame e lo m m2"
  using assms
proof (induction "e - op" arbitrary: m1 src op rule: less_induct)
  case less
  show ?case
  proof (cases "op + 16 < e")
    case True
    obtain m2 where m2: "Option.bind (rd_bytes m1 src 16) (wr_bytes m1 op) = Some m2" "frame e lo m m2"
      by (rule frame_copy [OF less.prems(1,2), of op 16 src]) (use less.prems True in auto)
    have "\<exists>m3 k. copy128_loop m2 (src + 16) (op + 16) e = Some (m3, src + 16 + k, op + 16 + k) \<and> frame e lo m m3"
      by (rule less.hyps) (use True m2 less.prems in auto)
    then obtain m3 k where m3: "copy128_loop m2 (src + 16) (op + 16) e = Some (m3, src + 16 + k, op + 16 + k)" "frame e lo m m3" by blast
    have "copy128_loop m1 src op e = Some (m3, src + (16 + k), op + (16 + k))"
      using m2(1) m3(1) True by (subst copy128_loop.simps) (simp add: copy128_eq add.assoc)
    then show ?thesis using m3 by blast
  next
    case False
    then have "copy128_loop m1 src op e = Some (m1, src + 0, op + 0)" by (subst copy128_loop.simps) auto
    then show ?thesis using less.prems by blast
  qed
qed

lemma double_pattern_step:
  assumes p: "periodic e m m1 src off n" and "off dvd n" and "0 < n" and "off \<le> n" and "n < 8" and "src + n + 8 \<le> e"
  obtains m2 where "double_pattern m1 src (src + n) n = double_pattern m2 src (src + n * 2) (n * 2)"
    and "periodic e m m2 src off (n * 2)"
proof -
  from periodic_copy [OF p \<open>off dvd n\<close> order.refl \<open>0 < n\<close> \<open>off \<le> n\<close> \<open>src + n + 8 \<le> e\<close>] obtain m2 where
    m2: "copy64 m1 src m1 (src + n) = Some m2" "periodic e m m2 src off (n + min 8 n)" by (auto simp: copy64_def)
  have two: "n + min 8 n = n * 2" "src + n + n = src + n * 2" using \<open>n < 8\<close> by auto
  have "double_pattern m1 src (src + n) n = double_pattern m2 src (src + n * 2) (n * 2)"
    using m2(1) \<open>n < 8\<close> by (subst double_pattern.simps) (simp add: two(2))
  with m2(2) show thesis using that unfolding two(1) by blast
qed

lemma double_pattern_periodic:
  assumes "periodic e m m1 src off n" and "0 < off" and "n = off \<or> n = 2 * off \<or> n = 4 * off \<or> 8 \<le> n" and "off dvd n"
    and "off \<le> n" and "src + off + 11 \<le> e"
  shows "\<exists>m2 k. double_pattern m1 src (src + n) n = Some (m2, src + k, k) \<and> off dvd k \<and> off \<le> k \<and> 8 \<le> k \<and>
    periodic e m m2 src off k"
  using assms
proof (induction "8 - n" arbitrary: m1 n rule: less_induct)
  case less
  show ?case
  proof (cases "n < 8")
    case True
    have n: "0 < n" "src + n + 8 \<le> e" using less.prems True by auto
    obtain m2 where m2: "double_pattern m1 src (src + n) n = double_pattern m2 src (src + n * 2) (n * 2)"
      "periodic e m m2 src off (n * 2)"
      by (rule double_pattern_step [OF less.prems(1,4) n(1) less.prems(5) True n(2)])
    have "\<exists>m3 k. double_pattern m2 src (src + n * 2) (n * 2) = Some (m3, src + k, k) \<and> off dvd k \<and> off \<le> k \<and> 8 \<le> k \<and>
        periodic e m m3 src off k"
    proof (rule less.hyps)
      show "n * 2 = off \<or> n * 2 = 2 * off \<or> n * 2 = 4 * off \<or> 8 \<le> n * 2" using less.prems(2,3) True by auto
    qed (use n True m2 less.prems in auto)
    then show ?thesis using m2(1) by simp
  next
    case False
    then have "double_pattern m1 src (src + n) n = Some (m1, src + n, n)" by (simp add: double_pattern.simps)
    then show ?thesis using less.prems False by auto
  qed
qed

lemma portable_pattern_copy_ok:
  assumes "0 < off" and "off < 8" and "src + off + 11 \<le> e" and "src + off + len \<le> e" and "e \<le> length m"
  shows "\<exists>m'. portable_pattern_copy m src (src + off) off (src + off + len) e = Some m' \<and> periodic e m m' src off (off + len)"
proof -
  have "periodic e m m src off off" using assms by (auto intro: periodic_refl)
  from double_pattern_periodic [OF this assms(1) _ _ order.refl assms(3)] obtain m1 k where
    d: "double_pattern m src (src + off) off = Some (m1, src + k, k)" and k: "off dvd k" "off \<le> k" "8 \<le> k" "periodic e m m1 src off k"
    by auto
  show ?thesis
  proof (cases "src + off + len \<le> src + k")
    case True
    then have "periodic e m m1 src off (off + len)" using k by (auto intro: periodic_mono)
    then show ?thesis using d True by (simp add: portable_pattern_copy_def)
  next
    case False
    from copy64_loop_periodic [OF k(4,1) order.refl k(3,2), of "src + off + len"] obtain m2 n2 where
      m2: "copy64_loop m1 src (src + k) (src + off + len) e = Some (m2, src + n2 - k, src + n2)" "k \<le> n2" "periodic e m m2 src off n2"
      by auto
    have k0: "0 < k" and off: "off \<le> n2" and lim: "src + off + len \<le> e" using k m2(2) assms by auto
    from slow_periodic [OF m2(3) k(1) m2(2) k0 off lim] obtain m3 where
      m3: "incremental_copy_slow m2 (src + n2 - k) (src + n2) (src + off + len) = Some m3" "periodic e m m3 src off (max n2 (off + len))"
      by auto
    show ?thesis
    proof (cases "src + off + len \<le> src + n2")
      case True
      then have "periodic e m m2 src off (off + len)" using m2 by (auto intro: periodic_mono)
      then show ?thesis using d m2(1) False True by (simp add: portable_pattern_copy_def)
    next
      case False2: False
      have "periodic e m m3 src off (off + len)" using m3(2) by (auto intro: periodic_mono)
      then show ?thesis using d m2(1) m3(1) False False2 by (simp add: portable_pattern_copy_def)
    qed
  qed
qed

section \<open>Vector copies\<close>

lemma masks_mod:
  "\<forall>ps \<in> {1..<16}. snappy_masks_offset0 ! ps = map (\<lambda>i. i mod ps) [0..<16] \<and>
     snappy_masks_offset16 ! ps = map (\<lambda>i. (16 + i) mod ps) [0..<16]"
  by code_simp

lemma masks_rd:
  assumes "0 < off" and "off < 16"
  shows "rd snappy_masks_offset0 off = Some (map (\<lambda>i. i mod off) [0..<16])"
    and "rd snappy_masks_offset16 off = Some (map (\<lambda>i. (16 + i) mod off) [0..<16])"
proof -
  have "length snappy_masks_offset0 = 16" "length snappy_masks_offset16 = 16"
    by (simp_all add: snappy_masks_offset0_def snappy_masks_offset16_def)
  moreover have "off \<in> {1..<16}" using assms by simp
  ultimately show "rd snappy_masks_offset0 off = Some (map (\<lambda>i. i mod off) [0..<16])"
    "rd snappy_masks_offset16 off = Some (map (\<lambda>i. (16 + i) mod off) [0..<16])"
    using masks_mod by auto
qed

text \<open>The 16 bytes of the pattern that starts \<open>t\<close> bytes in.\<close>

definition pattern_at :: "u8 list \<Rightarrow> nat \<Rightarrow> nat \<Rightarrow> nat \<Rightarrow> u8 list" where
  "pattern_at m src off t = map (\<lambda>i. m ! (src + (t + i) mod off)) [0..<16]"

lemma pattern_at_simps [simp]:
  "length (pattern_at m src off t) = 16"
  "i < 16 \<Longrightarrow> pattern_at m src off t ! i = m ! (src + (t + i) mod off)"
  by (simp_all add: pattern_at_def)

lemma load_pattern_eq:
  assumes "0 < off" and "off < 16" and "src + 16 \<le> length m"
  shows "load_pattern m src off = Some (pattern_at m src off 0)"
proof -
  have "i mod off < 16" for i using assms mod_less_divisor [of off i] by linarith
  then have "shuffle_bytes (take 16 (drop src m)) (map (\<lambda>i. i mod off) [0..<16]) = pattern_at m src off 0"
    using assms by (auto simp: shuffle_bytes_def pattern_at_def)
  then show ?thesis using assms by (simp add: load_pattern_def masks_rd rd_bytes_in)
qed

lemma reshuffle_pattern:
  assumes "0 < off" and "off < 16"
  shows "shuffle_bytes (pattern_at m src off t) (map (\<lambda>i. (16 + i) mod off) [0..<16]) = pattern_at m src off (t + 16)"
proof (rule nth_equalityI)
  fix i assume "i < length (shuffle_bytes (pattern_at m src off t) (map (\<lambda>i. (16 + i) mod off) [0..<16]))"
  then have i: "i < 16" by (simp add: shuffle_bytes_def)
  have "(16 + i) mod off < 16" using assms mod_less_divisor [of off "16 + i"] by linarith
  then show "shuffle_bytes (pattern_at m src off t) (map (\<lambda>i. (16 + i) mod off) [0..<16]) ! i = pattern_at m src off (t + 16) ! i"
    using i by (simp add: shuffle_bytes_def mod_add_right_eq add.assoc)
qed (simp add: shuffle_bytes_def)

text \<open>What holds after \<open>t\<close> bytes of a match of \<open>len\<close> bytes.\<close>

definition pattern_state :: "nat \<Rightarrow> u8 list \<Rightarrow> nat \<Rightarrow> nat \<Rightarrow> nat \<Rightarrow> nat \<Rightarrow> u8 list \<times> u8 list \<Rightarrow> bool" where
  "pattern_state e m src off len t s \<longleftrightarrow> periodic e m (fst s) src off (off + min t len) \<and>
     (t < len \<longrightarrow> snd s = pattern_at m src off (t - 16))"

lemma extend_pattern_ok:
  assumes "0 < off" and "off < 16" and "pattern_state e m src off len t s" and "16 \<le> t" and "src + off + len + 15 \<le> e"
  shows "\<exists>s'. extend_pattern (map (\<lambda>i. (16 + i) mod off) [0..<16]) (src + off + t) (src + off + len) s = Some s' \<and>
    pattern_state e m src off len (t + 16) s'"
proof (cases "t < len")
  case True
  obtain m1 where s: "s = (m1, pattern_at m src off (t - 16))" and p: "periodic e m m1 src off (off + t)"
    using assms(3) True by (cases s) (auto simp: pattern_state_def)
  have "src + (off + t) + length (pattern_at m src off t) \<le> e" using assms True by simp
  from periodic_write [OF p _ this, of 16] obtain m2 where
    "wr_bytes m1 (src + (off + t)) (pattern_at m src off t) = Some m2" "periodic e m m2 src off (off + t + 16)"
    by (auto simp: add.assoc)
  then have "wr_bytes m1 (src + off + t) (pattern_at m src off t) = Some m2"
    "periodic e m m2 src off (off + min (t + 16) len)" by (auto simp: add.assoc intro: periodic_mono)
  then show ?thesis using True assms(1,2,4) reshuffle_pattern [OF assms(1,2), of m src "t - 16"]
    by (auto simp: extend_pattern_def s pattern_state_def)
next
  case False
  then show ?thesis using assms(3) by (auto simp: extend_pattern_def pattern_state_def split: prod.split)
qed

lemma vector_pattern_copy_ok:
  assumes off: "0 < off" "off < 16" and len: "len \<le> 64" and e: "src + off + len + 15 \<le> e" "e \<le> length m" and "0 < len"
  shows "\<exists>m'. vector_pattern_copy m src (src + off) off (src + off + len) = Some m' \<and> periodic e m m' src off (off + len)"
proof -
  let ?r = "map (\<lambda>i. (16 + i) mod off) [0..<16]" and ?x = "extend_pattern (map (\<lambda>i. (16 + i) mod off) [0..<16])"
  let ?l = "src + off + len"
  have "periodic e m m src off off" using off e by (auto intro: periodic_refl)
  from periodic_write [OF this order.refl, of "pattern_at m src off 0" 16] obtain m0 where
    m0: "wr_bytes m (src + off) (pattern_at m src off 0) = Some m0" "periodic e m m0 src off (off + 16)"
    using e \<open>0 < len\<close> by auto
  have "pattern_state e m src off len 16 (m0, pattern_at m src off 0)"
    using m0 by (auto simp: pattern_state_def intro: periodic_mono)
  from extend_pattern_ok [OF off this _ e(1)] obtain s1 where
    s1: "?x (src + off + 16) ?l (m0, pattern_at m src off 0) = Some s1" "pattern_state e m src off len 32 s1" by auto
  from extend_pattern_ok [OF off s1(2) _ e(1)] obtain s2 where
    s2: "?x (src + off + 32) ?l s1 = Some s2" "pattern_state e m src off len 48 s2" by auto
  from extend_pattern_ok [OF off s2(2) _ e(1)] obtain s3 where
    s3: "?x (src + off + 48) ?l s2 = Some s3" "pattern_state e m src off len 64 s3" by auto
  have "periodic e m (fst s3) src off (off + len)" using s3(2) len by (simp add: pattern_state_def min_def)
  moreover have "vector_pattern_copy m src (src + off) off ?l = Some (fst s3)"
    using s1(1) s2(1) s3(1) m0(1) off e
    by (simp add: vector_pattern_copy_def load_pattern_eq masks_rd(2))
  ultimately show ?thesis by blast
qed

section \<open>Copies of matches\<close>

lemma copy128_if_periodic:
  assumes p: "periodic e m m1 src off (off + min t len)" and "16 \<le> off" and "t < len \<Longrightarrow> src + off + t + 16 \<le> e"
  shows "\<exists>m2. copy128_if (t < len) m1 (src + t) (src + off + t) = Some m2 \<and> periodic e m m2 src off (off + min (t + 16) len)"
proof (cases "t < len")
  case True
  then have p': "periodic e m m1 src off (off + t)" using p by simp
  have "src + (off + t) + 16 \<le> e" using assms(3) True by simp
  from periodic_copy [OF p' dvd_refl _ _ _ this] obtain m2 where
    m2: "copy128 m1 (src + t) m1 (src + off + t) = Some m2" "periodic e m m2 src off (off + t + min 16 off)"
    using \<open>16 \<le> off\<close> by (auto simp: copy128_eq add.assoc)
  have "periodic e m m2 src off (off + min (t + 16) len)" using m2(2) \<open>16 \<le> off\<close> by (auto intro: periodic_mono)
  then show ?thesis using m2 True by (simp add: copy128_if_def)
next
  case False
  then have "min t len = min (t + 16) len" by simp
  then show ?thesis using p False by (simp add: copy128_if_def)
qed

lemma copy128_if_frame:
  assumes "frame e lo m m1" and "e \<le> length m" and "lo \<le> op" and "c \<Longrightarrow> op + 16 \<le> e" and "src \<le> op"
  shows "\<exists>m2. copy128_if c m1 src op = Some m2 \<and> frame e lo m m2"
proof (cases c)
  case True
  obtain m2 where "Option.bind (rd_bytes m1 src 16) (wr_bytes m1 op) = Some m2" "frame e lo m m2"
    by (rule frame_copy [OF assms(1,2,3), of 16 src]) (use assms True in auto)
  then show ?thesis using True by (simp add: copy128_if_def copy128_eq)
qed (use assms in \<open>simp add: copy128_if_def\<close>)

text \<open>The four blocks that both fast paths copy.\<close>

definition copy_blocks :: "u8 list \<Rightarrow> nat \<Rightarrow> nat \<Rightarrow> nat \<Rightarrow> u8 list option" where
  "copy_blocks m src op len = do {
     m1 \<leftarrow> copy128 m src m op;
     m2 \<leftarrow> copy128_if (16 < len) m1 (src + 16) (op + 16);
     m3 \<leftarrow> copy128_if (32 < len) m2 (src + 32) (op + 32);
     copy128_if (48 < len) m3 (src + 48) (op + 48)
   }"

lemma copy_blocks_periodic:
  assumes "16 \<le> off" and "0 < len" and "len \<le> 64" and "src + off + len + 15 \<le> e" and "e \<le> length m"
  shows "\<exists>m'. copy_blocks m src (src + off) len = Some m' \<and> periodic e m m' src off (off + len)"
proof -
  have e: "t < len \<Longrightarrow> src + off + t + 16 \<le> e" for t using assms by simp
  have "periodic e m m src off off" using assms by (auto intro: periodic_refl)
  then have "periodic e m m src off (off + min 0 len)" by simp
  from copy128_if_periodic [OF this assms(1) e] obtain m1 where
    m1: "copy128 m src m (src + off) = Some m1" "periodic e m m1 src off (off + min 16 len)"
    using \<open>0 < len\<close> by (auto simp: copy128_if_def)
  from copy128_if_periodic [OF m1(2) assms(1) e] obtain m2 where
    m2: "copy128_if (16 < len) m1 (src + 16) (src + off + 16) = Some m2" "periodic e m m2 src off (off + min 32 len)" by auto
  from copy128_if_periodic [OF m2(2) assms(1) e] obtain m3 where
    m3: "copy128_if (32 < len) m2 (src + 32) (src + off + 32) = Some m3" "periodic e m m3 src off (off + min 48 len)" by auto
  from copy128_if_periodic [OF m3(2) assms(1) e] obtain m4 where
    m4: "copy128_if (48 < len) m3 (src + 48) (src + off + 48) = Some m4" "periodic e m m4 src off (off + min 64 len)" by auto
  have "min 64 len = len" using assms by simp
  then show ?thesis using m1(1) m2(1) m3(1) m4 by (simp add: copy_blocks_def)
qed

lemma copy_blocks_frame:
  assumes "0 < len" and "op + len + 15 \<le> e" and "e \<le> length m" and "src \<le> op"
  shows "\<exists>m'. copy_blocks m src op len = Some m' \<and> frame e op m m'"
proof -
  have e: "t < len \<Longrightarrow> op + t + 16 \<le> e" for t using assms by simp
  from copy128_if_frame [of e op m m op True src] obtain m1 where
    m1: "copy128 m src m op = Some m1" "frame e op m m1" using assms e [of 0] by (auto simp: copy128_if_def)
  from copy128_if_frame [where c = "16 < len" and src = "src + 16" and op = "op + 16", OF m1(2) assms(3)] obtain m2 where
    m2: "copy128_if (16 < len) m1 (src + 16) (op + 16) = Some m2" "frame e op m m2" using assms e [of 16] by auto
  from copy128_if_frame [where c = "32 < len" and src = "src + 32" and op = "op + 32", OF m2(2) assms(3)] obtain m3 where
    m3: "copy128_if (32 < len) m2 (src + 32) (op + 32) = Some m3" "frame e op m m3" using assms e [of 32] by auto
  from copy128_if_frame [where c = "48 < len" and src = "src + 48" and op = "op + 48", OF m3(2) assms(3)] obtain m4 where
    m4: "copy128_if (48 < len) m3 (src + 48) (op + 48) = Some m4" "frame e op m m4" using assms e [of 48] by auto
  show ?thesis using m1(1) m2(1) m3(1) m4 by (simp add: copy_blocks_def)
qed

text \<open>The part of the copy near the end of the buffer.\<close>

definition copy_tail :: "u8 list \<Rightarrow> nat \<Rightarrow> nat \<Rightarrow> nat \<Rightarrow> nat \<Rightarrow> u8 list option" where
  "copy_tail m src op op_limit buf_limit = do {
     (m1, src1, op1) \<leftarrow> copy128_loop m src op buf_limit;
     if op1 \<ge> op_limit then Some m1
     else if op1 + 8 \<le> buf_limit then do {
       m2 \<leftarrow> copy64 m1 src1 m1 op1;
       incremental_copy_slow m2 (src1 + 8) (op1 + 8) op_limit
     }
     else incremental_copy_slow m1 src1 op1 op_limit
   }"

lemma incremental_copy_eq:
  "incremental_copy vec m src (src + off) (src + off + len) e =
     (if off < (if vec then 16 else 8) then
        (if vec then
           (if src + off + len + 15 \<le> e then vector_pattern_copy m src (src + off) off (src + off + len)
            else incremental_copy_slow m src (src + off) (src + off + len))
         else
           (if src + off + 11 \<le> e then portable_pattern_copy m src (src + off) off (src + off + len) e
            else incremental_copy_slow m src (src + off) (src + off + len)))
      else if src + off + len + 15 \<le> e then copy_blocks m src (src + off) len
      else copy_tail m src (src + off) (src + off + len) e)"
  by (simp add: incremental_copy_def copy_blocks_def copy_tail_def Let_def)

lemma copy_tail_periodic:
  assumes "16 \<le> off" and "src + off + len \<le> e" and "e \<le> length m"
  shows "\<exists>m'. copy_tail m src (src + off) (src + off + len) e = Some m' \<and> periodic e m m' src off (off + len)"
proof -
  have off: "off dvd off" "0 < off" using assms by auto
  have "periodic e m m src off off" using assms by (auto intro: periodic_refl)
  from copy128_loop_periodic [OF this dvd_refl order.refl assms(1) order.refl] obtain m1 n where
    m1: "copy128_loop m src (src + off) e = Some (m1, src + n - off, src + n)" "off \<le> n" "periodic e m m1 src off n" by auto
  consider (finished) "src + off + len \<le> src + n" | (wide) "src + n < src + off + len" "src + n + 8 \<le> e"
    | (narrow) "src + n < src + off + len" "\<not> src + n + 8 \<le> e" by linarith
  then show ?thesis
  proof cases
    case finished
    then have "periodic e m m1 src off (off + len)" using m1 by (auto intro: periodic_mono)
    then show ?thesis using m1(1) finished by (simp add: copy_tail_def)
  next
    case wide
    from periodic_copy [OF m1(3) dvd_refl m1(2) off(2) m1(2) wide(2)] obtain m2 where
      m2: "copy64 m1 (src + n - off) m1 (src + n) = Some m2" "periodic e m m2 src off (n + min 8 off)" by (auto simp: copy64_def)
    have eight: "n + min 8 off = n + 8" using assms(1) by simp
    have s: "src + (n + 8) = src + n + 8" "src + n + 8 - off = src + n - off + 8" using m1(2) by linarith+
    have "off \<le> n + 8" using m1(2) by simp
    from slow_periodic [OF m2(2) [unfolded eight] dvd_refl this off(2) this assms(2)] obtain m3 where
      m3: "incremental_copy_slow m2 (src + n - off + 8) (src + n + 8) (src + off + len) = Some m3"
        "periodic e m m3 src off (max (n + 8) (src + off + len - src))" unfolding s by blast
    have "periodic e m m3 src off (off + len)" using m3(2) by (auto intro: periodic_mono)
    then show ?thesis using m1(1) m2(1) m3(1) wide by (simp add: copy_tail_def)
  next
    case narrow
    from slow_periodic [OF m1(3) dvd_refl m1(2) off(2) m1(2) assms(2)] obtain m3 where
      m3: "incremental_copy_slow m1 (src + n - off) (src + n) (src + off + len) = Some m3"
        "periodic e m m3 src off (max n (src + off + len - src))" by auto
    have "periodic e m m3 src off (off + len)" using m3(2) by (auto intro: periodic_mono)
    then show ?thesis using m1(1) m3(1) narrow by (simp add: copy_tail_def)
  qed
qed

lemma copy_tail_frame:
  assumes "src < op" and "op_limit \<le> e" and "e \<le> length m"
  shows "\<exists>m'. copy_tail m src op op_limit e = Some m' \<and> frame e op m m'"
proof -
  from copy128_loop_frame [OF frame_refl assms(3) order.refl assms(1)] obtain m1 k where
    m1: "copy128_loop m src op e = Some (m1, src + k, op + k)" "frame e op m m1" by blast
  consider (finished) "op_limit \<le> op + k" | (wide) "op + k < op_limit" "op + k + 8 \<le> e" | (narrow) "op + k < op_limit" "\<not> op + k + 8 \<le> e"
    by linarith
  then show ?thesis
  proof cases
    case finished
    then show ?thesis using m1 by (simp add: copy_tail_def)
  next
    case wide
    have "op \<le> op + k" "src + k + 8 \<le> e" using wide assms by auto
    from frame_copy [OF m1(2) assms(3) this(1) wide(2) this(2)] obtain m2 where
      m2: "copy64 m1 (src + k) m1 (op + k) = Some m2" "frame e op m m2" by (auto simp: copy64_def)
    have "op \<le> op + k + 8" "src + k + 8 < op + k + 8" using assms by auto
    from slow_frame [OF m2(2) assms(3) this(1) assms(2) this(2)] show ?thesis
      using m1(1) m2(1) wide by (auto simp: copy_tail_def)
  next
    case narrow
    have "op \<le> op + k" "src + k < op + k" using assms by auto
    from slow_frame [OF m1(2) assms(3) this(1) assms(2) this(2)] show ?thesis
      using m1(1) narrow by (auto simp: copy_tail_def)
  qed
qed

text \<open>
  Every build copies within the buffer. The bytes are the ones of the match in the vector build,
  and in the portable build unless the offset is 8 to 15.
\<close>

lemma incremental_copy_ok:
  assumes "0 < off" and "0 < len" and "len \<le> 64" and "src + off + len \<le> e" and "e \<le> length m"
  shows "\<exists>m'. incremental_copy vec m src (src + off) (src + off + len) e = Some m' \<and> frame e (src + off) m m' \<and>
    (vec \<or> off < 8 \<or> 16 \<le> off \<longrightarrow> periodic e m m' src off (off + len))"
proof -
  have good: ?thesis if "\<exists>m'. incremental_copy vec m src (src + off) (src + off + len) e = Some m' \<and> periodic e m m' src off (off + len)"
    using that periodic_frame by blast
  have "periodic e m m src off off" using assms by (auto intro: periodic_refl)
  from slow_periodic [OF this dvd_refl order.refl assms(1) order.refl assms(4)]
  have slow: "\<exists>m'. incremental_copy_slow m src (src + off) (src + off + len) = Some m' \<and> periodic e m m' src off (off + len)" by simp
  show ?thesis
  proof (cases "vec \<and> off < 16 \<or> \<not> vec \<and> off < 8")
    case True
    then show ?thesis
      using slow vector_pattern_copy_ok [OF assms(1) _ assms(3) _ assms(5,2)] portable_pattern_copy_ok [OF assms(1) _ _ assms(4,5)]
      by (intro good) (auto simp: incremental_copy_eq)
  next
    case big: False
    have run: "incremental_copy vec m src (src + off) (src + off + len) e =
        (if src + off + len + 15 \<le> e then copy_blocks m src (src + off) len else copy_tail m src (src + off) (src + off + len) e)"
      using big by (auto simp: incremental_copy_eq)
    show ?thesis
    proof (cases "16 \<le> off")
      case True
      then show ?thesis
        using copy_blocks_periodic [OF True assms(2,3) _ assms(5)] copy_tail_periodic [OF True assms(4,5)]
        by (intro good) (auto simp: run)
    next
      case False
      have "\<exists>m'. incremental_copy vec m src (src + off) (src + off + len) e = Some m' \<and> frame e (src + off) m m'"
        using copy_blocks_frame [of len "src + off" e m src] copy_tail_frame [of src "src + off" "src + off + len" e m] assms
        by (auto simp: run)
      then show ?thesis using big False by auto
    qed
  qed
qed

text \<open>The copy of the format: \<open>len\<close> bytes from \<open>off\<close> bytes back, repeating them.\<close>

definition copy_from :: "u8 list \<Rightarrow> nat \<Rightarrow> nat \<Rightarrow> u8 list" where
  "copy_from out off len = out @ map (\<lambda>i. out ! (length out - off + i mod off)) [0..<len]"

lemma length_copy_from [simp]: "length (copy_from out off len) = length out + len"
  by (simp add: copy_from_def)

lemma periodic_copy_from:
  assumes p: "periodic e m m' src off (off + len)" and "0 < off"
  shows "take (src + off + len) m' = copy_from (take (src + off) m) off len"
proof (rule nth_equalityI)
  from p have e: "src + off + len \<le> length m" "length m' = length m" by (auto simp: periodic_def frame_def)
  then show "length (take (src + off + len) m') = length (copy_from (take (src + off) m) off len)" by simp
  fix i assume "i < length (take (src + off + len) m')"
  then have i: "i < src + off + len" by simp
  have o: "length (take (src + off) m) = src + off" using e by simp
  show "take (src + off + len) m' ! i = copy_from (take (src + off) m) off len ! i"
  proof (cases "i < src + off")
    case True
    then have "m' ! i = m ! i" using periodic_frame [OF p] e by (auto intro: frame_nth)
    then show ?thesis using True i e by (simp add: copy_from_def nth_append o)
  next
    case False
    then obtain k where k: "i = src + off + k" by (metis le_Suc_ex not_less)
    then have lt: "k < len" using i by simp
    have "m' ! (src + (off + k)) = m ! (src + (off + k) mod off)" using p lt unfolding periodic_def by auto
    moreover have "k mod off < off" using \<open>0 < off\<close> by simp
    moreover have "min (length m) (src + off) = src + off" using e by simp
    ultimately show ?thesis using k lt by (simp add: copy_from_def nth_append add.assoc)
  qed
qed

lemma memmove_match:
  assumes "0 < off" and "len \<le> off" and "src + off + 64 \<le> e" and "e \<le> length m" and "len \<le> 64"
  shows "\<exists>m'. (do { bs \<leftarrow> rd_bytes m src 64; wr_bytes m (src + off) bs }) = Some m' \<and> periodic e m m' src off (off + len)"
proof -
  have "periodic e m m src off off" using assms by (auto intro: periodic_refl)
  from periodic_copy [OF this dvd_refl order.refl assms(1) order.refl assms(3)] obtain m' where
    m': "Option.bind (rd_bytes m src 64) (wr_bytes m (src + off)) = Some m'" "periodic e m m' src off (off + min 64 off)" by auto
  moreover have "periodic e m m' src off (off + len)" using m'(2) assms by (auto intro: periodic_mono)
  ultimately show ?thesis by auto
qed

lemma copy_match_ok:
  assumes "0 < off" and "0 < len" and "len \<le> 64" and "src + off + len \<le> e" and "e \<le> length m"
    and lim: "lim = (if e \<ge> SNAPPY_SLOP_BYTES then e - SNAPPY_SLOP_BYTES + 1 else 0)"
  shows "\<exists>m'. copy_match vec m (src + off) off len e lim = Some m' \<and> frame e (src + off) m m' \<and>
    (vec \<or> off < 8 \<or> 16 \<le> off \<longrightarrow> take (src + off + len) m' = copy_from (take (src + off) m) off len)"
proof -
  have run: "copy_match vec m (src + off) off len e lim =
      (if 16 \<le> off \<and> src + off + len \<le> lim then copy_blocks m src (src + off) len
       else if src + off + len \<le> lim \<and> len \<le> off then (do { bs \<leftarrow> rd_bytes m src 64; wr_bytes m (src + off) bs })
       else incremental_copy vec m src (src + off) (src + off + len) e)"
    using assms(3) by (simp add: copy_match_def copy_blocks_def Let_def SNAPPY_SLOP_BYTES_def)
  have good: ?thesis if "\<exists>m'. copy_match vec m (src + off) off len e lim = Some m' \<and> periodic e m m' src off (off + len)"
    using that periodic_frame periodic_copy_from [OF _ assms(1)] by blast
  have room: "src + off + 64 \<le> e" "src + off + len + 15 \<le> e" if "src + off + len \<le> lim"
    using that lim assms(2) by (auto simp: SNAPPY_SLOP_BYTES_def split: if_splits)
  consider (blocks) "16 \<le> off" "src + off + len \<le> lim" | (move) "off < 16" "src + off + len \<le> lim" "len \<le> off"
    | (incr) "\<not> (src + off + len \<le> lim \<and> (16 \<le> off \<or> len \<le> off))" by linarith
  then show ?thesis
  proof cases
    case blocks
    then show ?thesis using copy_blocks_periodic [OF blocks(1) assms(2,3) room(2) assms(5)] by (intro good) (simp add: run)
  next
    case move
    then show ?thesis using memmove_match [OF assms(1) move(3) room(1) assms(5,3)] by (intro good) (simp add: run)
  next
    case incr
    then have "copy_match vec m (src + off) off len e lim = incremental_copy vec m src (src + off) (src + off + len) e"
      unfolding run by auto
    then show ?thesis using incremental_copy_ok [OF assms(1-5), of vec] periodic_copy_from [OF _ assms(1)] by fastforce
  qed
qed

section \<open>The elements the code reads\<close>

text \<open>
  A stream is a sequence of elements: bytes to append, or a number of bytes to copy from an offset
  back. These are the elements as the code reads them: a literal length of \<open>2 ^ 32\<close> wraps around to 0,
  and the length in front is what \<open>snappy_read_varint\<close> returns. The format itself, which differs in
  this literal only, and the proof of it are in Snappy_Format.
\<close>

datatype snappy_element = Literal "u8 list" | Copy nat nat

definition take_literal :: "nat \<Rightarrow> u8 list \<Rightarrow> (snappy_element \<times> u8 list) option" where
  "take_literal n bs = (if n \<le> length bs then Some (Literal (take n bs), drop n bs) else None)"

fun parse_element :: "u8 list \<Rightarrow> (snappy_element \<times> u8 list) option" where
  "parse_element [] = None"
| "parse_element (tag # bs) =
     (let n = unat tag div 4; t = unat tag mod 4 in
      if t = 0 then
        (if n < 60 then take_literal (n + 1) bs
         else if n - 59 \<le> length bs then take_literal (unat (le_word (take (n - 59) bs) + 1 :: u32)) (drop (n - 59) bs)
         else None)
      else if t = 1 then
        (case bs of [] \<Rightarrow> None | b # rest \<Rightarrow> Some (Copy (unat tag div 32 * 256 + unat b) (n mod 8 + 4), rest))
      else let k = (if t = 2 then 2 else 4) in
        (if k \<le> length bs then Some (Copy (unat (le_word (take k bs) :: u32)) (n + 1), drop k bs) else None))"

fun apply_element :: "u8 list \<Rightarrow> snappy_element \<Rightarrow> u8 list option" where
  "apply_element out (Literal bs) = Some (out @ bs)"
| "apply_element out (Copy off len) = (if off = 0 \<or> off > length out then None else Some (copy_from out off len))"

text \<open>One element within \<open>n\<close> bytes of output.\<close>

definition element_step :: "nat \<Rightarrow> u8 list \<Rightarrow> u8 list \<Rightarrow> (u8 list \<times> u8 list) option" where
  "element_step n out bs = do {
     (el, rest) \<leftarrow> parse_element bs;
     out' \<leftarrow> apply_element out el;
     if length out' \<le> n then Some (out', rest) else None
   }"

lemma nth_concat_blocks:
  assumes "n < length xs" and "t < w" and "\<And>x. length (f x) = w"
  shows "concat (map f xs) ! (n * w + t) = f (xs ! n) ! t"
  using assms(1)
proof (induction xs arbitrary: n)
  case (Cons x xs)
  then show ?case using assms(2,3) by (cases n) (auto simp: nth_append add.assoc)
qed simp

lemma length_table:
  "map (\<lambda>e. unat (e AND 0xFF)) kLengthMinusOffset =
     concat (map (\<lambda>n. [if n < 60 then n + 1 else 255, n mod 8 + 4, n + 1, 255]) [0..<64])"
  by (simp add: kLengthMinusOffset_def upt_rec)

lemma u8_less: "unat (b :: u8) < 256"
  using unsigned_less [of b] by simp

lemma length_entry:
  obtains entry where "rd kLengthMinusOffset (unat (tag :: u8)) = Some entry"
    and "unat tag mod 4 = 1 \<longrightarrow> unat (entry AND 0xFF) = unat tag div 4 mod 8 + 4"
    and "unat tag mod 4 = 2 \<longrightarrow> unat (entry AND 0xFF) = unat tag div 4 + 1"
proof -
  let ?t = "unat tag"
  have len: "length kLengthMinusOffset = 256" by (simp add: kLengthMinusOffset_def)
  have t: "?t < 256" using u8_less [of tag] by simp
  have "unat (kLengthMinusOffset ! ?t AND 0xFF) = map (\<lambda>e. unat (e AND 0xFF)) kLengthMinusOffset ! ?t" using t len by simp
  also have "\<dots> = concat (map (\<lambda>n. [if n < 60 then n + 1 else 255, n mod 8 + 4, n + 1, 255]) [0..<64]) ! (?t div 4 * 4 + ?t mod 4)"
    unfolding length_table by simp
  also have "\<dots> = [if ?t div 4 < 60 then ?t div 4 + 1 else 255, ?t div 4 mod 8 + 4, ?t div 4 + 1, 255] ! (?t mod 4)"
    by (subst nth_concat_blocks) (use t in auto)
  finally show thesis using that [of "kLengthMinusOffset ! ?t"] t len by simp
qed

lemma tag_type: "unat (tag AND 3 :: u8) = unat tag mod 4" and tag_rest: "unat (drop_bit 2 tag :: u8) = unat tag div 4"
proof -
  have "unat tag AND 3 = take_bit 2 (unat tag)" by (simp add: take_bit_eq_mask mask_eq_exp_minus_1)
  then show "unat (tag AND 3) = unat tag mod 4" by (simp add: unsigned_and_eq take_bit_eq_mod)
  show "unat (drop_bit 2 tag) = unat tag div 4" by (simp add: drop_bit_eq_div unat_div_distrib)
qed

lemma literal_mask:
  assumes "length bs = k" and "k \<le> 4"
  shows "(le_word bs :: u32) AND ucast (NOT (push_bit (8 * k) (0xFFFFFFFF :: u64))) = le_word bs"
proof (rule bit_word_eqI)
  fix n assume n: "n < LENGTH(32)"
  have "n < 8 * k" if "bit (le_word bs :: u32) n" using that assms(1) by (auto simp: bit_le_word)
  then show "bit ((le_word bs :: u32) AND ucast (NOT (push_bit (8 * k) (0xFFFFFFFF :: u64)))) n = bit (le_word bs :: u32) n"
    using n by (auto simp: bit_simps)
qed

lemma copy1_offset: "unat (push_bit 3 (ucast (tag AND 0xE0)) OR ucast b :: u32) = unat (tag :: u8) div 32 * 256 + unat (b :: u8)"
proof -
  have mask: "(0xE0 :: u8) = push_bit 5 (mask 3)" by (simp add: mask_eq_exp_minus_1)
  have top: "push_bit 3 (ucast (tag AND 0xE0)) = (push_bit 8 (ucast (drop_bit 5 tag)) :: u32)"
    unfolding mask by (rule bit_word_eqI) (auto simp: bit_simps dest: bit_imp_le_length)
  let ?h = "push_bit 8 (ucast (drop_bit 5 tag)) :: u32"
  have h: "unat ?h = unat tag div 32 * 256"
  proof -
    have "unat tag div 32 < 8" using u8_less [of tag] by simp
    moreover have "unat (ucast (drop_bit 5 tag) :: u32) = unat tag div 32"
      using calculation by (simp add: unsigned_ucast_eq drop_bit_eq_div unat_div_distrib take_bit_nat_eq_self)
    ultimately show ?thesis
      by (simp add: push_bit_eq_mult unat_word_ariths)
  qed
  have "bit ?h i \<Longrightarrow> \<not> bit (ucast b :: u32) i" for i by (auto simp: bit_simps dest: bit_imp_le_length)
  then have "?h AND ucast b = 0" by (intro bit_word_eqI) (auto simp: bit_and_iff)
  then have "?h OR ucast b = ?h + ucast b" by (simp add: disjunctive_add_eq_or)
  moreover have "unat (?h + ucast b) = unat ?h + unat b"
  proof -
    have "unat tag div 32 < 8" using u8_less [of tag] by simp
    then have "unat tag div 32 * 256 + unat b < 2 ^ LENGTH(32)" using u8_less [of b] by simp
    moreover have "unat (ucast b :: u32) = unat b" using u8_less [of b] by (simp add: unsigned_ucast_eq take_bit_nat_eq_self)
    ultimately show ?thesis by (simp add: unat_plus_if' h)
  qed
  ultimately show ?thesis by (simp add: top h)
qed

section \<open>One element\<close>

text \<open>A round from input position \<open>ip\<close> does what the format says; the bytes it leaves are those of the format
  in the vector build.\<close>

definition step_ok :: "bool \<Rightarrow> u8 list \<Rightarrow> nat \<Rightarrow> u8 list \<Rightarrow> nat \<Rightarrow> nat \<Rightarrow> (u8 list \<times> u8 list) option \<Rightarrow> (carquet_status + snappy_state) \<Rightarrow> bool" where
  "step_ok vec s ip m op e x r \<longleftrightarrow> (case x of None \<Rightarrow> r = Inl CARQUET_ERROR_INVALID_COMPRESSED_DATA
     | Some (out, rest) \<Rightarrow> (\<exists>ip' m'. r = Inr (ip', m', length out) \<and> ip \<le> ip' \<and> ip' \<le> length s \<and> rest = drop ip' s \<and>
         frame e op m m' \<and> op \<le> length out \<and> length out \<le> e \<and> (vec \<longrightarrow> take (length out) m' = out)))"

lemma step_ok_None [simp]: "step_ok vec s ip m op e None r \<longleftrightarrow> r = Inl CARQUET_ERROR_INVALID_COMPRESSED_DATA"
  by (simp add: step_ok_def)

lemma write_prefix:
  assumes "op + length bs \<le> e" and "e \<le> length m" and "k \<le> length bs"
  obtains m' where "wr_bytes m op bs = Some m'" and "frame e op m m'" and "take (op + k) m' = take op m @ take k bs"
proof -
  obtain m' where m': "wr_bytes m op bs = Some m'" "frame e op m m'"
    by (rule wr_bytes_frame [OF order.refl assms(1,2)])
  have "op + length bs \<le> length m" using assms by linarith
  moreover from this have "min (length m) op = op" by simp
  ultimately have "take (op + k) m' = take op m @ take k bs"
    using m'(1) assms(3) by (auto simp: wr_bytes_in)
  then show thesis using that m' by blast
qed

definition literal_body :: "u8 list \<Rightarrow> nat \<Rightarrow> nat \<Rightarrow> u8 list \<Rightarrow> nat \<Rightarrow> nat \<Rightarrow> (carquet_status + snappy_state) option" where
  "literal_body s ip1 literal_len m op op_end =
     (if literal_len \<le> 16 \<and> ip1 + 16 \<le> length s \<and> op + 16 \<le> op_end then do {
        m1 \<leftarrow> copy128 s ip1 m op;
        Some (Inr (ip1 + literal_len, m1, op + literal_len))
      }
      else if ip1 + literal_len > length s \<or> op + literal_len > op_end then
        Some (Inl CARQUET_ERROR_INVALID_COMPRESSED_DATA)
      else do {
        bs \<leftarrow> rd_bytes s ip1 literal_len;
        m1 \<leftarrow> wr_bytes m op bs;
        Some (Inr (ip1 + literal_len, m1, op + literal_len))
      })"

lemma literal_body_ok:
  assumes "op \<le> e" and "e \<le> length m" and "ip1 \<le> length s" and "ip \<le> ip1"
  shows "\<exists>r. literal_body s ip1 n m op e = Some r \<and> step_ok vec s ip m op e
     (if ip1 + n \<le> length s \<and> op + n \<le> e then Some (take op m @ take n (drop ip1 s), drop (ip1 + n) s) else None) r"
proof -
  have out: "length (take op m @ take n (drop ip1 s)) = op + n" if "ip1 + n \<le> length s" using that assms by simp
  consider (fast) "n \<le> 16" "ip1 + 16 \<le> length s" "op + 16 \<le> e"
    | (slow) "\<not> (n \<le> 16 \<and> ip1 + 16 \<le> length s \<and> op + 16 \<le> e)" "ip1 + n \<le> length s" "op + n \<le> e"
    | (bad) "ip1 + n > length s \<or> op + n > e" by linarith
  then show ?thesis
  proof cases
    case fast
    let ?bs = "take 16 (drop ip1 s)"
    have l: "op + length ?bs \<le> e" "n \<le> length ?bs" using fast by auto
    obtain m' where m': "wr_bytes m op ?bs = Some m'" "frame e op m m'" "take (op + n) m' = take op m @ take n ?bs"
      by (rule write_prefix [OF l(1) assms(2) l(2)])
    have "literal_body s ip1 n m op e = Some (Inr (ip1 + n, m', op + n))"
      using m'(1) fast by (simp add: literal_body_def copy128_eq rd_bytes_in)
    then show ?thesis using fast m' out assms by (auto simp: step_ok_def min_absorb1)
  next
    case slow
    let ?bs = "take n (drop ip1 s)"
    have l: "op + length ?bs \<le> e" "n \<le> length ?bs" using slow by auto
    obtain m' where m': "wr_bytes m op ?bs = Some m'" "frame e op m m'" "take (op + n) m' = take op m @ take n ?bs"
      by (rule write_prefix [OF l(1) assms(2) l(2)])
    have "literal_body s ip1 n m op e = Some (Inr (ip1 + n, m', op + n))"
      using m'(1) slow by (auto simp: literal_body_def rd_bytes_in)
    then show ?thesis using slow m' out assms by (auto simp: step_ok_def)
  next
    case bad
    then show ?thesis by (auto simp: literal_body_def)
  qed
qed

lemma take_literal_step:
  assumes "ip1 \<le> length s" and "op \<le> e" and "e \<le> length m"
  shows "(do { (el, rest) \<leftarrow> take_literal n (drop ip1 s); out' \<leftarrow> apply_element (take op m) el;
           if length out' \<le> e then Some (out', rest) else None }) =
    (if ip1 + n \<le> length s \<and> op + n \<le> e then Some (take op m @ take n (drop ip1 s), drop (ip1 + n) s) else None)"
  using assms by (auto simp: take_literal_def add.commute)

lemma decode_literal_ok:
  assumes "op \<le> e" and "e \<le> length m" and "ip \<le> length s" and t: "unat tag mod 4 = 0"
  shows "\<exists>r. decode_literal s ip (length s) tag m op e = Some r \<and>
    step_ok vec s ip m op e (element_step e (take op m) (tag # drop ip s)) r"
proof -
  let ?n = "unat tag div 4" and ?go = "\<lambda>n ip1. if ip1 + n \<le> length s \<and> op + n \<le> e then Some (take op m @ take n (drop ip1 s), drop (ip1 + n) s) else None"
  have n: "?n < 64" using u8_less [of tag] by simp
  have run: "decode_literal s ip (length s) tag m op e = Option.bind (long_literal_length s ip (length s) (?n + 1))
      (\<lambda>r. case r of Inl st \<Rightarrow> Some (Inl st) | Inr (literal_len, ip1) \<Rightarrow> literal_body s ip1 literal_len m op e)"
    unfolding decode_literal_def literal_body_def tag_rest by (rule refl)
  consider (short) "?n < 60" | (long) "60 \<le> ?n" "ip + (?n - 59) \<le> length s" | (cut) "60 \<le> ?n" "length s < ip + (?n - 59)" by linarith
  then show ?thesis
  proof cases
    case short
    have "element_step e (take op m) (tag # drop ip s) = ?go (?n + 1) ip"
      using take_literal_step [OF assms(3,1,2), of "?n + 1"] t short by (simp add: element_step_def)
    then show ?thesis using literal_body_ok [OF assms(1-3) order.refl, of "?n + 1" vec] short run by (simp add: long_literal_length_def)
  next
    case long
    let ?k = "?n - 59"
    let ?bs = "take ?k (drop ip s)"
    let ?l = "unat (le_word ?bs + 1 :: u32)"
    have k: "length ?bs = ?k" "?k \<le> 4" "?n + 1 - 60 = ?k" using long n by auto
    have ip1: "ip + ?k \<le> length s" "ip \<le> ip + ?k" using long by auto
    have "?k \<le> length s - ip" using long(2) by linarith
    then have "parse_element (tag # drop ip s) = take_literal ?l (drop (ip + ?k) s)"
      using t long by (simp add: Let_def add.commute)
    then have "element_step e (take op m) (tag # drop ip s) = ?go ?l (ip + ?k)"
      unfolding element_step_def using take_literal_step [OF ip1(1) assms(1,2), of ?l] by (simp only:)
    moreover have "long_literal_length s ip (length s) (?n + 1) = Some (Inr (?l, ip + ?k))"
      unfolding long_literal_length_def Let_def k(3) using long k(2) by (simp add: rd_bytes_in literal_mask [OF k(1,2)])
    ultimately show ?thesis using literal_body_ok [OF assms(1,2) ip1, of ?l vec] run by simp
  next
    case cut
    have "\<not> ?n - 59 \<le> length s - ip" using cut by linarith
    then have "parse_element (tag # drop ip s) = None" using cut t by (simp add: Let_def)
    then have "element_step e (take op m) (tag # drop ip s) = None" by (simp add: element_step_def)
    moreover have "long_literal_length s ip (length s) (?n + 1) = Some (Inl CARQUET_ERROR_INVALID_COMPRESSED_DATA)"
      using cut by (simp add: long_literal_length_def Let_def)
    ultimately show ?thesis using run by simp
  qed
qed

lemma copy_step_eq:
  assumes "parse_element bs = Some (Copy off len, drop ip' s)" and "op \<le> e" and "e \<le> length m"
  shows "element_step e (take op m) bs =
    (if off = 0 \<or> off > op \<or> op + len > e then None else Some (copy_from (take op m) off len, drop ip' s))"
  using assms by (auto simp: element_step_def)

lemma copied_ok:
  assumes "\<exists>m'. f = Some m' \<and> frame e op m m' \<and> (vec \<longrightarrow> take (op + len) m' = copy_from (take op m) off len)"
    and "op + len \<le> e" and "e \<le> length m" and "ip \<le> ip'" and "ip' \<le> length s"
  shows "\<exists>r. Option.bind f (\<lambda>m1. Some (Inr (ip', m1, op + len))) = Some r \<and>
    step_ok vec s ip m op e (Some (copy_from (take op m) off len, drop ip' s)) r"
  using assms by (auto simp: step_ok_def)

lemma decode_copy_ok:
  assumes op: "op \<le> e" and e: "e \<le> length m" and ip: "ip \<le> length s" and t: "unat tag mod 4 = 1 \<or> unat tag mod 4 = 2"
    and lim: "lim = (if e \<ge> SNAPPY_SLOP_BYTES then e - SNAPPY_SLOP_BYTES + 1 else 0)"
  shows "\<exists>r. decode_copy vec s ip (length s) tag m op e lim = Some r \<and>
    step_ok vec s ip m op e (element_step e (take op m) (tag # drop ip s)) r"
proof -
  obtain entry where entry: "rd kLengthMinusOffset (unat tag) = Some entry"
    and len1: "unat tag mod 4 = 1 \<longrightarrow> unat (entry AND 0xFF) = unat tag div 4 mod 8 + 4"
    and len2: "unat tag mod 4 = 2 \<longrightarrow> unat (entry AND 0xFF) = unat tag div 4 + 1" by (rule length_entry [of tag])
  have one: "tag AND 3 = 1 \<longleftrightarrow> unat tag mod 4 = 1"
    using tag_type [of tag] by (metis unsigned_1 word_unat_eq_iff)
  let ?L = "unat (entry AND 0xFF)"
  have L: "0 < ?L" "?L \<le> 64" using t len1 len2 u8_less [of tag] by auto
  have good: ?thesis if ops: "copy_operands s ip (length s) tag = Some (Inr (?L, off, ip'))"
    and pe: "parse_element (tag # drop ip s) = Some (Copy off ?L, drop ip' s)" and ip': "ip \<le> ip'" "ip' \<le> length s" for off ip'
  proof (cases "off = 0 \<or> off > op \<or> op + ?L > e")
    case True
    then show ?thesis unfolding copy_step_eq [OF pe op e] using ops by (auto simp: decode_copy_def)
  next
    case False
    define src where "src = op - off"
    have src: "op = src + off" "0 < off" "src + off + ?L \<le> e" using False by (auto simp: src_def)
    have "\<exists>m'. copy_match vec m op off ?L e lim = Some m' \<and> frame e op m m' \<and>
        (vec \<longrightarrow> take (op + ?L) m' = copy_from (take op m) off ?L)"
      using copy_match_ok [OF src(2) L src(3) e lim, of vec] unfolding src(1) by blast
    from copied_ok [OF this _ e ip'] show ?thesis
      unfolding copy_step_eq [OF pe op e] using ops False by (simp add: decode_copy_def)
  qed
  have bad: ?thesis if "copy_operands s ip (length s) tag = Some (Inl CARQUET_ERROR_INVALID_COMPRESSED_DATA)"
    and "parse_element (tag # drop ip s) = None"
    using that by (simp add: decode_copy_def element_step_def)
  show ?thesis
  proof (cases "unat tag mod 4 = 1")
    case True
    show ?thesis
    proof (cases "ip < length s")
      case False
      then show ?thesis by (intro bad) (use True one entry in \<open>simp_all add: copy_operands_def Let_def\<close>)
    next
      case lt: True
      show ?thesis
      proof (rule good [where ip' = "ip + 1"])
        show "copy_operands s ip (length s) tag = Some (Inr (?L, unat tag div 32 * 256 + unat (s ! ip), ip + 1))"
          using True one entry lt by (simp add: copy_operands_def Let_def copy1_offset)
        show "parse_element (tag # drop ip s) = Some (Copy (unat tag div 32 * 256 + unat (s ! ip)) ?L, drop (ip + 1) s)"
          using True lt len1 by (simp add: drop_eq_Cons Let_def)
      qed (use lt in auto)
    qed
  next
    case False
    then have two: "unat tag mod 4 = 2" using t by simp
    show ?thesis
    proof (cases "ip + 2 \<le> length s")
      case False
      then show ?thesis by (intro bad) (use two one entry in \<open>auto simp: copy_operands_def Let_def\<close>)
    next
      case le: True
      have tk: "take 2 (drop ip s) = [s ! ip, s ! (ip + 1)]"
        using le by (simp add: drop_eq_Cons numeral_2_eq_2)
      show ?thesis
      proof (rule good [where ip' = "ip + 2"])
        show "copy_operands s ip (length s) tag = Some (Inr (?L, unat (le_word (take 2 (drop ip s)) :: u32), ip + 2))"
          unfolding tk using two one entry le by (simp add: copy_operands_def Let_def)
        have "2 \<le> length s - ip" using le by linarith
        then show "parse_element (tag # drop ip s) = Some (Copy (unat (le_word (take 2 (drop ip s)) :: u32)) ?L, drop (ip + 2) s)"
          using two len2 by (simp add: Let_def)
      qed (use le in auto)
    qed
  qed
qed

lemma decode_copy4_ok:
  assumes op: "op \<le> e" and e: "e \<le> length m" and ip: "ip \<le> length s" and t: "unat tag mod 4 = 3"
  shows "\<exists>r. decode_copy4 vec s ip (length s) tag m op e = Some r \<and>
    step_ok vec s ip m op e (element_step e (take op m) (tag # drop ip s)) r"
proof (cases "ip + 4 \<le> length s")
  case False
  then have "\<not> 4 \<le> length s - ip" by linarith
  then have "parse_element (tag # drop ip s) = None" using t by (simp add: Let_def)
  then show ?thesis using False by (simp add: decode_copy4_def element_step_def)
next
  case True
  let ?off = "unat (le_word (take 4 (drop ip s)) :: u32)" and ?L = "unat tag div 4 + 1"
  have L: "0 < ?L" "?L \<le> 64" using u8_less [of tag] by auto
  have "4 \<le> length s - ip" using True by linarith
  then have pe: "parse_element (tag # drop ip s) = Some (Copy ?off ?L, drop (ip + 4) s)"
    using t by (simp add: Let_def add.commute)
  have len: "unat (drop_bit 2 tag AND 0x3F) = unat tag div 4"
  proof -
    have mask: "(0x3F :: u8) = mask 6" by (simp add: mask_eq_exp_minus_1)
    have "drop_bit 2 tag AND 0x3F = drop_bit 2 tag"
      unfolding mask by (rule bit_word_eqI) (auto simp: bit_simps dest: bit_imp_le_length)
    then show ?thesis by (simp add: tag_rest)
  qed
  have load: "load32 s ip = Some (le_word (take 4 (drop ip s)))" using True by (simp add: load32_def rd_bytes_in)
  show ?thesis
  proof (cases "?off = 0 \<or> ?off > op \<or> op + ?L > e")
    case bad: True
    then show ?thesis unfolding copy_step_eq [OF pe op e] using True by (auto simp: decode_copy4_def Let_def len load)
  next
    case False
    define src where "src = op - ?off"
    have src: "op = src + ?off" "op - ?off = src" "0 < ?off" "src + ?off + ?L \<le> e" using False by (auto simp: src_def)
    have "\<exists>m'. incremental_copy vec m (op - ?off) op (op + ?L) e = Some m' \<and> frame e op m m' \<and>
        (vec \<longrightarrow> take (op + ?L) m' = copy_from (take op m) ?off ?L)"
      using incremental_copy_ok [OF src(3) L src(4) e, of vec] periodic_copy_from [OF _ src(3)] unfolding src(2) src(1)
      by (metis add_diff_cancel_right')
    from copied_ok [OF this _ e, of ip "ip + 4"] show ?thesis
      unfolding copy_step_eq [OF pe op e] using False True by (simp add: decode_copy4_def Let_def len load)
  qed
qed

lemma decode_element_ok:
  assumes op: "op \<le> e" and e: "e \<le> length m" and ip: "ip < length s"
    and lim: "lim = (if e \<ge> SNAPPY_SLOP_BYTES then e - SNAPPY_SLOP_BYTES + 1 else 0)"
  shows "\<exists>r. decode_element vec s ip (length s) m op e lim = Some r \<and>
    step_ok vec s (ip + 1) m op e (element_step e (take op m) (drop ip s)) r"
proof -
  let ?tag = "s ! ip"
  have d: "drop ip s = ?tag # drop (ip + 1) s" using ip by (simp add: drop_eq_Cons)
  have ip1: "ip + 1 \<le> length s" using ip by simp
  have ty: "?tag AND 3 = 0 \<longleftrightarrow> unat ?tag mod 4 = 0" "?tag AND 3 = 3 \<longleftrightarrow> unat ?tag mod 4 = 3"
    unfolding tag_type [symmetric] by (auto simp: word_unat_eq_iff)
  have "unat ?tag mod 4 < 4" by simp
  then consider "unat ?tag mod 4 = 0" | "unat ?tag mod 4 = 1 \<or> unat ?tag mod 4 = 2" | "unat ?tag mod 4 = 3" by linarith
  then show ?thesis
  proof cases
    case 1
    then show ?thesis using decode_literal_ok [OF op e ip1 1, of vec] ip by (simp add: decode_element_def ty d)
  next
    case 2
    then show ?thesis using decode_copy_ok [OF op e ip1 2 lim, of vec] ip by (auto simp: decode_element_def ty d)
  next
    case 3
    then show ?thesis using decode_copy4_ok [OF op e ip1 3, of vec] ip by (simp add: decode_element_def ty d)
  qed
qed

section \<open>Streams\<close>

lemma parse_element_shorter: "parse_element bs = Some (el, rest) \<Longrightarrow> length rest < length bs"
  by (cases bs) (auto simp: Let_def take_literal_def split: if_splits list.splits)

lemma element_step_shorter: "element_step n out bs = Some (out', rest) \<Longrightarrow> length rest < length bs"
  by (auto simp: element_step_def run_simps split: if_splits dest: parse_element_shorter)

text \<open>The elements to the end of the input or of the output; both ends have to be reached together.\<close>

function read_elements :: "nat \<Rightarrow> u8 list \<Rightarrow> u8 list \<Rightarrow> u8 list option" where
  "read_elements n out bs =
     (if bs \<noteq> [] \<and> length out < n then
        (case element_step n out bs of None \<Rightarrow> None | Some (out', rest) \<Rightarrow> read_elements n out' rest)
      else if bs = [] \<and> length out = n then Some out else None)"
  by pat_completeness auto

termination read_elements
  by (relation "measure (\<lambda>(n, out, bs). length bs)") (auto dest: element_step_shorter)

declare read_elements.simps [simp del]

definition read_stream :: "nat \<Rightarrow> u8 list \<Rightarrow> u8 list option" where
  "read_stream cap bs =
     (case snappy_read_varint bs 0 (length bs) of
        Some (Some (len, k)) \<Rightarrow> if unat len > cap then None else read_elements (unat len) [] (drop k bs)
      | _ \<Rightarrow> None)"

text \<open>What the loop leaves.\<close>

definition loop_ok :: "bool \<Rightarrow> u8 list \<Rightarrow> u8 list \<Rightarrow> nat \<Rightarrow> nat \<Rightarrow> u8 list option \<Rightarrow> (carquet_status + snappy_state) \<Rightarrow> bool" where
  "loop_ok vec s m op e x r \<longleftrightarrow> (case r of Inl st \<Rightarrow> st = CARQUET_ERROR_INVALID_COMPRESSED_DATA \<and> (vec \<longrightarrow> x = None)
     | Inr (ip', m', op') \<Rightarrow> frame e op m m' \<and>
         (vec \<longrightarrow> (if ip' = length s \<and> op' = e then x = Some (take e m') else x = None)))"

lemma decode_loop_ok:
  assumes op: "op \<le> e" and e: "e \<le> length m" and ip: "ip \<le> length s"
    and lim: "lim = (if e \<ge> SNAPPY_SLOP_BYTES then e - SNAPPY_SLOP_BYTES + 1 else 0)"
  shows "\<exists>r. decode_loop vec s ip (length s) m op e lim = Some r \<and>
    loop_ok vec s m op e (read_elements e (take op m) (drop ip s)) r"
  using op e ip
proof (induction "length s - ip" arbitrary: ip m op rule: less_induct)
  case less
  have out: "length (take op m) = op" using less.prems by simp
  show ?case
  proof (cases "ip < length s \<and> op < e")
    case False
    then have run: "decode_loop vec s ip (length s) m op e lim = Some (Inr (ip, m, op))"
      by (subst decode_loop.simps) auto
    have "read_elements e (take op m) (drop ip s) = (if ip = length s \<and> op = e then Some (take op m) else None)"
      using False less.prems out by (subst read_elements.simps) auto
    then show ?thesis using run by (auto simp: loop_ok_def)
  next
    case True
    then have ip: "ip < length s" by simp
    from decode_element_ok [OF less.prems(1,2) ip lim, of vec] obtain r where
      r: "decode_element vec s ip (length s) m op e lim = Some r"
        "step_ok vec s (ip + 1) m op e (element_step e (take op m) (drop ip s)) r" by blast
    have fmt: "read_elements e (take op m) (drop ip s) = (case element_step e (take op m) (drop ip s) of
        None \<Rightarrow> None | Some (out', rest) \<Rightarrow> read_elements e out' rest)"
      using True out by (subst read_elements.simps) simp
    show ?thesis
    proof (cases "element_step e (take op m) (drop ip s)")
      case None
      then have "decode_loop vec s ip (length s) m op e lim = Some (Inl CARQUET_ERROR_INVALID_COMPRESSED_DATA)"
        using r True by (subst decode_loop.simps) simp
      then show ?thesis using fmt None by (simp add: loop_ok_def)
    next
      case (Some p)
      obtain out' rest where p: "p = (out', rest)" by (cases p)
      from r(2) Some p obtain ip' m' where r': "r = Inr (ip', m', length out')" "ip + 1 \<le> ip'" "ip' \<le> length s"
        "rest = drop ip' s" "frame e op m m'" "op \<le> length out'" "length out' \<le> e" "vec \<longrightarrow> take (length out') m' = out'"
        by (auto simp: step_ok_def)
      have "\<exists>q. decode_loop vec s ip' (length s) m' (length out') e lim = Some q \<and>
          loop_ok vec s m' (length out') e (read_elements e (take (length out') m') (drop ip' s)) q"
        by (rule less.hyps) (use r' ip less.prems in \<open>auto simp: frame_length\<close>)
      then obtain q where q: "decode_loop vec s ip' (length s) m' (length out') e lim = Some q"
        "loop_ok vec s m' (length out') e (read_elements e (take (length out') m') (drop ip' s)) q" by blast
      have "decode_loop vec s ip (length s) m op e lim = Some q"
        using r(1) r'(1) q(1) True by (subst decode_loop.simps) simp
      moreover have "loop_ok vec s m op e (read_elements e (take op m) (drop ip s)) q"
        using q(2) r' by (auto simp: fmt Some p loop_ok_def split: sum.splits prod.splits intro: frame_trans)
      ultimately show ?thesis by blast
    qed
  qed
qed

lemma read_varint_ok:
  assumes "p \<le> length s"
  shows "\<exists>r. snappy_read_varint s p (length s) = Some r \<and> (\<forall>v k. r = Some (v, k) \<longrightarrow> 0 < k \<and> p + k \<le> length s)"
  using assms by (simp add: snappy_read_varint_def Let_def)

section \<open>Properties\<close>

text \<open>The decompressor on a given input, when the length has been read.\<close>

lemma decompress_run:
  assumes "dst_capacity \<le> length dst" and "src \<noteq> []"
  shows "\<exists>r. carquet_snappy_decompress vec (Some src) (length src) (Some dst) dst_capacity = Some r \<and>
    (\<forall>dst' n. r = Inr (dst', n) \<longrightarrow> n \<le> dst_capacity \<and> frame n 0 dst dst') \<and>
    (vec \<longrightarrow> (case read_stream dst_capacity src of
        None \<Rightarrow> r = Inl CARQUET_ERROR_INVALID_COMPRESSED_DATA
      | Some out \<Rightarrow> (\<exists>dst'. r = Inr (dst', length out) \<and> take (length out) dst' = out \<and> frame (length out) 0 dst dst')))"
proof -
  obtain v where v: "snappy_read_varint src 0 (length src) = Some v" "\<forall>x k. v = Some (x, k) \<longrightarrow> 0 < k \<and> k \<le> length src"
    using read_varint_ok [of 0 src] by auto
  show ?thesis
  proof (cases v)
    case None
    then show ?thesis using v(1) assms by (simp add: carquet_snappy_decompress_def read_stream_def)
  next
    case (Some p)
    obtain len k where p: "p = (len, k)" by (cases p)
    show ?thesis
    proof (cases "unat len > dst_capacity")
      case True
      then show ?thesis using v(1) Some p assms by (simp add: carquet_snappy_decompress_def read_stream_def)
    next
      case False
      let ?e = "unat len" and ?lim = "if unat len \<ge> SNAPPY_SLOP_BYTES then unat len - SNAPPY_SLOP_BYTES + 1 else 0"
      have e: "?e \<le> length dst" "k \<le> length src" using False assms v(2) Some p by auto
      from decode_loop_ok [OF le0 e refl, of vec] obtain q where
        q: "decode_loop vec src k (length src) dst 0 ?e ?lim = Some q" "loop_ok vec src dst 0 ?e (read_elements ?e [] (drop k src)) q"
        by auto
      have fmt: "read_stream dst_capacity src = read_elements ?e [] (drop k src)"
        using v(1) Some p False by (simp add: read_stream_def)
      have run: "carquet_snappy_decompress vec (Some src) (length src) (Some dst) dst_capacity = Some (case q of Inl st \<Rightarrow> Inl st
          | Inr (ip, m', op) \<Rightarrow> if op \<noteq> ?e \<or> ip \<noteq> length src then Inl CARQUET_ERROR_INVALID_COMPRESSED_DATA else Inr (m', ?e))"
        using v(1) Some p False assms(2) q(1) by (simp add: carquet_snappy_decompress_def Let_def)
      show ?thesis
      proof (cases q)
        case (Inl st)
        then show ?thesis using q(2) run fmt by (auto simp: loop_ok_def)
      next
        case (Inr y)
        obtain ip m' op where y: "y = (ip, m', op)" by (cases y)
        have fr: "frame ?e 0 dst m'" using q(2) Inr y by (simp add: loop_ok_def)
        have "?e \<le> length m'" using fr e by (simp add: frame_length)
        then have "length (take ?e m') = ?e" by simp
        then show ?thesis using q(2) run fmt Inr y fr False by (auto simp: loop_ok_def split: if_splits)
      qed
    qed
  qed
qed

text \<open>C16: Decompression of any bytes, with either build, ends, stays within the input and the first
  \<open>dst_capacity\<close> bytes of the output, and a success leaves every byte after the \<open>*dst_size\<close> ones as it was.\<close>

theorem snappy_decompress_safe:
  assumes "dst_capacity \<le> length dst"
  shows "\<exists>r. carquet_snappy_decompress vec (Some src) (length src) (Some dst) dst_capacity = Some r \<and>
    (\<forall>dst' n. r = Inr (dst', n) \<longrightarrow> n \<le> dst_capacity \<and> length dst' = length dst \<and> drop n dst' = drop n dst)"
proof (cases "src = []")
  case True
  then show ?thesis by (simp add: carquet_snappy_decompress_def)
next
  case False
  then show ?thesis using decompress_run [OF assms False, of vec] unfolding frame_def by blast
qed

theorem snappy_decompress_safe_witness:
  "\<exists>r. carquet_snappy_decompress False (Some [5, 0xFF]) (length [5, 0xFF :: u8]) (Some [1, 2, 3, 4, 5, 6]) 5 = Some r \<and>
    (\<forall>dst' n. r = Inr (dst', n) \<longrightarrow> n \<le> 5 \<and> length dst' = length [1, 2, 3, 4, 5, 6 :: u8] \<and> drop n dst' = drop n [1, 2, 3, 4, 5, 6])"
  by (rule snappy_decompress_safe) simp

declare decode_loop.simps [code] double_pattern.simps [code] read_elements.simps [code]
  incremental_copy_slow.simps [code] copy64_loop.simps [code] copy128_loop.simps [code]

end
