(* ===== verification/Snappy_Encode.thy ===== *)
theory Snappy_Encode
  imports Snappy_Decode
begin

text \<open>
  Component src/compression/snappy.c, compression.

  A block is the list of its bytes, pointers into it are offsets, and the hash table is a list of
  its 16384 entries. The loops of the code that jump to one another are functions that return
  where the code jumps: \<open>find_match\<close> is the search (both copies of it in the code), \<open>match_loop\<close>
  the loop at \<open>emit_match\<close>, \<open>compress_matches\<close> the cycle of both.
\<close>

section \<open>Constants and helpers\<close>

definition SNAPPY_HASH_LOG :: nat where
  "SNAPPY_HASH_LOG = 14"

definition SNAPPY_HASH_SIZE :: nat where
  "SNAPPY_HASH_SIZE = 2 ^ SNAPPY_HASH_LOG"

definition SNAPPY_MAX_OFFSET :: nat where
  "SNAPPY_MAX_OFFSET = 65535"

definition SNAPPY_BLOCK_SIZE :: nat where
  "SNAPPY_BLOCK_SIZE = 2 ^ 16"

text \<open>The loops that count the zero bits at the low and at the high end.\<close>

partial_function (option) ctz64_loop :: "u64 \<Rightarrow> nat \<Rightarrow> nat option" where
  "ctz64_loop x n = (if x AND 1 = 0 then ctz64_loop (drop_bit 1 x) (n + 1) else Some n)"

partial_function (option) clz32_loop :: "u32 \<Rightarrow> nat \<Rightarrow> nat option" where
  "clz32_loop x n = (if x AND 0x80000000 = 0 then clz32_loop (push_bit 1 x) (n + 1) else Some n)"

definition snappy_ctz64_fallback :: "u64 \<Rightarrow> nat option" where
  "snappy_ctz64_fallback x = ctz64_loop x 0"

definition snappy_clz32_fallback :: "u32 \<Rightarrow> nat option" where
  "snappy_clz32_fallback x = clz32_loop x 0"

function snappy_write_varint :: "u8 list \<Rightarrow> nat \<Rightarrow> u32 \<Rightarrow> (u8 list \<times> nat) option" where
  "snappy_write_varint m p v =
     (if v \<ge> 0x80 then do {
        m1 \<leftarrow> wr m p (ucast (v OR 0x80));
        snappy_write_varint m1 (p + 1) (drop_bit 7 v)
      } else do {
        m1 \<leftarrow> wr m p (ucast v);
        Some (m1, p + 1)
      })"
  by pat_completeness auto

lemma drop7_less: "v \<ge> 0x80 \<Longrightarrow> unat (drop_bit 7 v :: u32) < unat v"
  by (simp add: drop_bit_eq_div unat_div_distrib word_le_nat_alt)

termination snappy_write_varint
  by (relation "measure (\<lambda>(m, p, v). unat v)") (auto simp: drop7_less simp del: drop_bit_of_1)

declare snappy_write_varint.simps [simp del]

definition snappy_hash :: "u32 \<Rightarrow> nat" where
  "snappy_hash v = unat (drop_bit (32 - SNAPPY_HASH_LOG) (v * 0x1e35a7bd))"

section \<open>Match lengths\<close>

text \<open>The loop over 8 bytes: the end of the match, or where the loop over bytes starts.\<close>

partial_function (option) word_match_loop :: "u8 list \<Rightarrow> nat \<Rightarrow> nat \<Rightarrow> nat \<Rightarrow> (nat + nat \<times> nat) option" where
  "word_match_loop s p mt limit =
     (if p + 8 \<le> limit then do {
        a \<leftarrow> load64 s p;
        b \<leftarrow> load64 s mt;
        let diff = a XOR b;
        if diff \<noteq> 0 then do {
          t \<leftarrow> snappy_ctz64_fallback diff;
          Some (Inl (p + drop_bit 3 t))
        } else word_match_loop s (p + 8) (mt + 8) limit
      } else Some (Inr (p, mt)))"

partial_function (option) byte_match_loop :: "u8 list \<Rightarrow> nat \<Rightarrow> nat \<Rightarrow> nat \<Rightarrow> nat option" where
  "byte_match_loop s p mt limit =
     (if p < limit then do {
        x \<leftarrow> rd s p;
        y \<leftarrow> rd s mt;
        if x = y then byte_match_loop s (p + 1) (mt + 1) limit else Some p
      } else Some p)"

definition fast_match_length :: "u8 list \<Rightarrow> nat \<Rightarrow> nat \<Rightarrow> nat \<Rightarrow> nat option" where
  "fast_match_length s p mt limit = do {
     r \<leftarrow> word_match_loop s p mt limit;
     (case r of Inl fin \<Rightarrow> Some (fin - p)
      | Inr (p1, mt1) \<Rightarrow> do { fin \<leftarrow> byte_match_loop s p1 mt1 limit; Some (fin - p) })
   }"

section \<open>Elements\<close>

text \<open>The output array and \<open>op\<close> after a literal of \<open>len\<close> bytes from \<open>lit\<close> on.\<close>

definition snappy_emit_literal :: "u8 list \<Rightarrow> nat \<Rightarrow> u8 list \<Rightarrow> nat \<Rightarrow> nat \<Rightarrow> (u8 list \<times> nat) option" where
  "snappy_emit_literal m op s lit len =
     (let n = len - 1 in do {
        (m1, op1) \<leftarrow> (if n < 60 then do {
            m1 \<leftarrow> wr m op (of_nat (n * 4));
            Some (m1, op + 1)
          } else do {
            z \<leftarrow> snappy_clz32_fallback (of_nat n);
            let count = (31 - z) div 8 + 1;
            m1 \<leftarrow> wr m op (of_nat ((59 + count) * 4));
            m2 \<leftarrow> store32 m1 (op + 1) (of_nat n);
            Some (m2, op + 1 + count)
          });
        bs \<leftarrow> rd_bytes s lit len;
        m3 \<leftarrow> wr_bytes m1 op1 bs;
        Some (m3, op1 + len)
      })"

text \<open>A copy with two bytes of offset.\<close>

definition emit_copy2 :: "u8 list \<Rightarrow> nat \<Rightarrow> u8 \<Rightarrow> nat \<Rightarrow> (u8 list \<times> nat) option" where
  "emit_copy2 m op tag offset = do {
     m1 \<leftarrow> wr m op tag;
     m2 \<leftarrow> wr m1 (op + 1) (of_nat offset AND 0xFF);
     m3 \<leftarrow> wr m2 (op + 2) (of_nat (offset div 256));
     Some (m3, op + 3)
   }"

function emit_chunks :: "u8 list \<Rightarrow> nat \<Rightarrow> nat \<Rightarrow> nat \<Rightarrow> (u8 list \<times> nat \<times> nat) option" where
  "emit_chunks m op offset len =
     (if len \<ge> 68 then do {
        (m1, op1) \<leftarrow> emit_copy2 m op (push_bit 2 63 OR 2) offset;
        emit_chunks m1 op1 offset (len - 64)
      } else Some (m, op, len))"
  by pat_completeness auto

termination emit_chunks
  by (relation "measure (\<lambda>(m, op, offset, len). len)") auto

declare emit_chunks.simps [simp del]

text \<open>The copy of at most 64 bytes that ends a match.\<close>

definition emit_last_copy :: "u8 list \<Rightarrow> nat \<Rightarrow> nat \<Rightarrow> nat \<Rightarrow> (u8 list \<times> nat) option" where
  "emit_last_copy m op offset len =
     (if len < 12 \<and> offset < 2048 then do {
        let u = (push_bit 2 (of_nat len) + push_bit 8 (of_nat offset) :: u32);
        let copy1 = 1 - push_bit 2 4 + (drop_bit 3 (of_nat offset) AND 0xe0);
        m1 \<leftarrow> store32 m op (u + copy1);
        Some (m1, op + 2)
      }
      else if len < 12 then do {
        let u = (2 + push_bit 2 (of_nat len - 1) + push_bit 8 (of_nat offset) :: u32);
        m1 \<leftarrow> store32 m op u;
        Some (m1, op + 3)
      }
      else emit_copy2 m op (push_bit 2 (of_nat len - 1) OR 2) offset)"

definition snappy_emit_copy :: "u8 list \<Rightarrow> nat \<Rightarrow> nat \<Rightarrow> nat \<Rightarrow> (u8 list \<times> nat) option" where
  "snappy_emit_copy m op offset len = do {
     (m1, op1, len1) \<leftarrow> emit_chunks m op offset len;
     if len1 > 64 then do {
       (m2, op2) \<leftarrow> emit_copy2 m1 op1 (push_bit 2 59 OR 2) offset;
       emit_last_copy m2 op2 offset (len1 - 60)
     } else emit_last_copy m1 op1 offset len1
   }"

section \<open>Blocks\<close>

text \<open>One row of four positions at the start of a block: the match found, its number and its candidate.\<close>

fun startup_row :: "nat list \<Rightarrow> u8 list \<Rightarrow> nat \<Rightarrow> nat \<Rightarrow> u64 \<Rightarrow> u16 list \<Rightarrow> (u16 list \<times> (nat \<times> nat) option) option" where
  "startup_row [] s ip j data table = Some (table, None)"
| "startup_row (k # ks) s ip j data table = do {
     let i = 4 * j + k;
     dword \<leftarrow> (if i = 0 then load32 s ip else Some (ucast data));
     let h = snappy_hash dword;
     c \<leftarrow> rd table h;
     table1 \<leftarrow> wr table h (of_nat (ip + i));
     w \<leftarrow> load32 s (unat c);
     if w = dword then Some (table1, Some (i, unat c))
     else startup_row ks s ip j (drop_bit 8 data) table1
   }"

fun startup_rows :: "nat list \<Rightarrow> u8 list \<Rightarrow> nat \<Rightarrow> u64 \<Rightarrow> u16 list \<Rightarrow> (u16 list \<times> (nat \<times> nat) option) option" where
  "startup_rows [] s ip data table = Some (table, None)"
| "startup_rows (j # js) s ip data table = do {
     (table1, r) \<leftarrow> startup_row [0, 1, 2, 3] s ip j data table;
     (case r of Some found \<Rightarrow> Some (table1, Some found)
      | None \<Rightarrow> do {
          data1 \<leftarrow> load64 s (ip + 4 * j + 4);
          startup_rows js s ip data1 table1
        })
   }"

partial_function (option) find_match :: "u8 list \<Rightarrow> nat \<Rightarrow> u16 list \<Rightarrow> nat \<Rightarrow> u32 \<Rightarrow> (u16 list \<times> (nat \<times> nat) option) option" where
  "find_match s ilimit table ip skip = do {
     v \<leftarrow> load32 s ip;
     let h = snappy_hash v;
     let bytes_between = drop_bit 5 skip;
     let next_ip = ip + unat bytes_between;
     if next_ip > ilimit then Some (table, None)
     else do {
       c \<leftarrow> rd table h;
       table1 \<leftarrow> wr table h (of_nat ip);
       w \<leftarrow> load32 s (unat c);
       if v = w then Some (table1, Some (ip, unat c))
       else find_match s ilimit table1 next_ip (skip + bytes_between)
     }
   }"

text \<open>
  The loop at \<open>emit_match\<close>: the output, \<open>op\<close>, the table and \<open>ip\<close>, and whether the input limit
  was reached.
\<close>

partial_function (option) match_loop :: "u8 list \<Rightarrow> nat \<Rightarrow> u8 list \<Rightarrow> nat \<Rightarrow> u16 list \<Rightarrow> nat \<Rightarrow> nat \<Rightarrow>
   (u8 list \<times> nat \<times> u16 list \<times> nat \<times> bool) option" where
  "match_loop s ilimit m op table ip candidate = do {
     l \<leftarrow> fast_match_length s (ip + 4) (candidate + 4) (length s);
     let match_len = 4 + l;
     (m1, op1) \<leftarrow> snappy_emit_copy m op (ip - candidate) match_len;
     let ip1 = ip + match_len;
     if ip1 \<ge> ilimit then Some (m1, op1, table, ip1, True)
     else do {
       p \<leftarrow> load32 s (ip1 - 1);
       table1 \<leftarrow> wr table (snappy_hash p) (of_nat (ip1 - 1));
       v \<leftarrow> load32 s ip1;
       c \<leftarrow> rd table1 (snappy_hash v);
       table2 \<leftarrow> wr table1 (snappy_hash v) (of_nat ip1);
       w \<leftarrow> load32 s (unat c);
       if v = w \<and> ip1 - unat c \<le> SNAPPY_MAX_OFFSET then match_loop s ilimit m1 op1 table2 ip1 (unat c)
       else Some (m1, op1, table2, ip1, False)
     }
   }"

text \<open>The output, \<open>op\<close> and the anchor at \<open>emit_remainder\<close>.\<close>

partial_function (option) compress_matches :: "u8 list \<Rightarrow> nat \<Rightarrow> u8 list \<Rightarrow> nat \<Rightarrow> u16 list \<Rightarrow> nat \<Rightarrow> nat \<Rightarrow>
   (u8 list \<times> nat \<times> nat) option" where
  "compress_matches s ilimit m op table ip candidate = do {
     (m1, op1, table1, anchor, at_end) \<leftarrow> match_loop s ilimit m op table ip candidate;
     if at_end then Some (m1, op1, anchor)
     else do {
       (table2, r) \<leftarrow> find_match s ilimit table1 (anchor + 1) 32;
       (case r of None \<Rightarrow> Some (m1, op1, anchor)
        | Some (ip2, candidate2) \<Rightarrow> do {
            (m2, op2) \<leftarrow> (if ip2 > anchor then snappy_emit_literal m1 op1 s anchor (ip2 - anchor) else Some (m1, op1));
            compress_matches s ilimit m2 op2 table2 ip2 candidate2
          })
     }
   }"

text \<open>The search at the start of a block, after the positions that are tried one by one.\<close>

definition compress_from :: "u8 list \<Rightarrow> nat \<Rightarrow> u8 list \<Rightarrow> nat \<Rightarrow> u16 list \<Rightarrow> nat \<Rightarrow> (u8 list \<times> nat \<times> nat) option" where
  "compress_from s ilimit m op table ip = do {
     (table1, r) \<leftarrow> find_match s ilimit table ip 32;
     (case r of None \<Rightarrow> Some (m, op, 0)
      | Some (ip1, candidate) \<Rightarrow> do {
          (m1, op1) \<leftarrow> (if ip1 > 0 then snappy_emit_literal m op s 0 ip1 else Some (m, op));
          compress_matches s ilimit m1 op1 table1 ip1 candidate
        })
   }"

definition snappy_compress_block :: "u8 list \<Rightarrow> u8 list \<Rightarrow> nat \<Rightarrow> (u8 list \<times> nat) option" where
  "snappy_compress_block s m op =
     (let src_size = length s in
      if src_size = 0 then Some (m, op)
      else if src_size < 15 then snappy_emit_literal m op s 0 src_size
      else do {
        let ilimit = src_size - 15;
        v \<leftarrow> load32 s 0;
        table \<leftarrow> wr (replicate SNAPPY_HASH_SIZE 0) (snappy_hash v) 0;
        (m1, op1, anchor) \<leftarrow>
          (if ilimit \<ge> 17 then do {
             data \<leftarrow> load64 s 1;
             (table1, r) \<leftarrow> startup_rows [0, 1, 2, 3] s 1 data table;
             (case r of None \<Rightarrow> compress_from s ilimit m op table1 17
              | Some (i, candidate) \<Rightarrow> do {
                  m1 \<leftarrow> wr m op (of_nat (i * 4));
                  m2 \<leftarrow> copy128 s 0 m1 (op + 1);
                  compress_matches s ilimit m2 (op + i + 2) table1 (1 + i) candidate
                })
           } else compress_from s ilimit m op table 1);
        if anchor < src_size then snappy_emit_literal m1 op1 s anchor (src_size - anchor)
        else Some (m1, op1)
      })"

function compress_blocks :: "u8 list \<Rightarrow> nat \<Rightarrow> u8 list \<Rightarrow> nat \<Rightarrow> (u8 list \<times> nat) option" where
  "compress_blocks s pos m op =
     (if pos < length s then do {
        let block_size = (if length s - pos > SNAPPY_BLOCK_SIZE then SNAPPY_BLOCK_SIZE else length s - pos);
        (m1, op1) \<leftarrow> snappy_compress_block (take block_size (drop pos s)) m op;
        compress_blocks s (pos + block_size) m1 op1
      } else Some (m, op))"
  by pat_completeness auto

termination compress_blocks
  by (relation "measure (\<lambda>(s, pos, m, op). length s - pos)") (auto simp: SNAPPY_BLOCK_SIZE_def)

declare compress_blocks.simps [simp del]

definition carquet_snappy_compress_bound :: "nat \<Rightarrow> nat" where
  "carquet_snappy_compress_bound src_size = sz (32 + src_size + src_size div 6)"

text \<open>The output array and \<open>*dst_size\<close>. The length is the low 32 bits of \<open>src_size\<close>.\<close>

definition carquet_snappy_compress ::
  "u8 list option \<Rightarrow> nat \<Rightarrow> u8 list option \<Rightarrow> nat \<Rightarrow> (carquet_status + u8 list \<times> nat) option" where
  "carquet_snappy_compress src src_size dst dst_capacity =
     (case dst of None \<Rightarrow> Some (Inl CARQUET_ERROR_INVALID_ARGUMENT)
      | Some m \<Rightarrow>
          if dst_capacity < carquet_snappy_compress_bound src_size then Some (Inl CARQUET_ERROR_COMPRESSION)
          else do {
            (m1, op) \<leftarrow> snappy_write_varint m 0 (of_nat src_size);
            if src_size = 0 then Some (Inr (m1, op))
            else (case src of None \<Rightarrow> Some (Inl CARQUET_ERROR_INVALID_ARGUMENT)
              | Some s \<Rightarrow> do {
                  (m2, op2) \<leftarrow> compress_blocks (take src_size s) 0 m1 op;
                  Some (Inr (m2, op2))
                })
          })"

section \<open>Counting zeros\<close>

lemma ctz64_loop_eq:
  assumes "bit x t" and "\<And>i. i < t \<Longrightarrow> \<not> bit x i"
  shows "ctz64_loop x n = Some (n + t)"
  using assms
proof (induction t arbitrary: x n)
  case 0
  then have "x AND 1 \<noteq> 0" by (simp add: and_one_eq bit_0 odd_iff_mod_2_eq_one)
  then show ?case by (subst ctz64_loop.simps) simp
next
  case (Suc t)
  have "\<not> bit x 0" using Suc.prems(2) by blast
  then have "x AND 1 = 0" by (simp add: and_one_eq bit_0 even_iff_mod_2_eq_zero)
  moreover have "ctz64_loop (drop_bit 1 x) (n + 1) = Some (n + 1 + t)"
    by (rule Suc.IH) (use Suc.prems in \<open>auto simp: bit_simps\<close>)
  ultimately show ?case by (subst ctz64_loop.simps) simp
qed

lemma bit_31: "bit (x :: u32) 31 \<longleftrightarrow> 2 ^ 31 \<le> unat x"
proof -
  have "unat x < 2 * 2 ^ 31" using unsigned_less [of x] by simp
  then have "unat x div 2 ^ 31 < 2" by (simp add: less_mult_imp_div_less)
  moreover have "bit x 31 \<longleftrightarrow> bit (unat x) 31" by (simp add: bit_unsigned_iff)
  then have "bit x 31 \<longleftrightarrow> odd (unat x div 2 ^ 31)" by (simp only: bit_iff_odd)
  moreover have "unat x div 2 ^ 31 = 0 \<longleftrightarrow> unat x < 2 ^ 31" by (simp add: div_eq_0_iff)
  ultimately show ?thesis by (cases "unat x div 2 ^ 31") auto
qed

lemma clz32_loop_eq:
  assumes "k \<le> 31" and "2 ^ (31 - k) \<le> unat x" and "unat x < 2 ^ (32 - k)"
  shows "clz32_loop x n = Some (n + k)"
  using assms
proof (induction k arbitrary: x n)
  case 0
  then have "x AND 2 ^ 31 \<noteq> 0" using and_exp_eq_0_iff_not_bit [of x 31] bit_31 [of x] by simp
  then show ?case by (subst clz32_loop.simps) simp
next
  case (Suc k)
  have "2 ^ (32 - Suc k) \<le> (2 ^ 31 :: nat)" by (rule power_increasing) auto
  then have lt: "unat x < 2 ^ 31" using Suc.prems(3) by linarith
  then have "x AND 2 ^ 31 = 0" using and_exp_eq_0_iff_not_bit [of x 31] bit_31 [of x] by simp
  moreover have dbl: "unat (push_bit 1 x) = 2 * unat x"
    using lt by (simp add: push_bit_eq_mult unat_word_ariths)
  have e: "2 ^ (31 - k) = 2 * (2 ^ (31 - Suc k) :: nat)" "2 ^ (32 - k) = 2 * (2 ^ (32 - Suc k) :: nat)"
    using Suc.prems(1) by (simp_all flip: power_Suc add: Suc_diff_le)
  have "clz32_loop (push_bit 1 x) (n + 1) = Some (n + 1 + k)"
    by (rule Suc.IH) (use Suc.prems dbl e in auto)
  ultimately show ?case by (subst clz32_loop.simps) simp
qed

text \<open>The number of bytes of a literal length.\<close>

lemma literal_count:
  assumes "60 \<le> n" and "n < 65536"
  obtains z where "snappy_clz32_fallback (of_nat n) = Some z" and "(31 - z) div 8 + 1 = (if n < 256 then 1 else 2)"
proof -
  obtain e where e: "2 ^ e \<le> n" "n < 2 ^ (e + 1)" using ex_power_ivl1 [of 2 n] assms by auto
  have "2 ^ e < (2 :: nat) ^ 16" using e(1) assms by simp
  then have e16: "e < 16" by (rule power_less_imp_less_exp [rotated]) simp
  have "(2 :: nat) ^ 5 < 2 ^ (e + 1)" using e(2) assms by simp
  then have e5: "5 < e + 1" by (rule power_less_imp_less_exp [rotated]) simp
  have n: "unat (of_nat n :: u32) = n" using assms by (simp add: unsigned_of_nat take_bit_nat_eq_self)
  have "snappy_clz32_fallback (of_nat n) = Some (31 - e)"
    unfolding snappy_clz32_fallback_def using clz32_loop_eq [of "31 - e" "of_nat n" 0] e e16 n by (simp add: Suc_diff_le)
  moreover have "e div 8 + 1 = (if n < 256 then 1 else 2)"
  proof (cases "n < 256")
    case True
    then have "(2 :: nat) ^ e < 2 ^ 8" using e(1) by simp
    then have "e < 8" by (rule power_less_imp_less_exp [rotated]) simp
    then show ?thesis using True by simp
  next
    case False
    then have "(2 :: nat) ^ 8 < 2 ^ (e + 1)" using e(2) by simp
    then have "8 < e + 1" by (rule power_less_imp_less_exp [rotated]) simp
    then have "e div 8 = 1" using e16 by simp
    then show ?thesis using False by simp
  qed
  ultimately show thesis using that e16 by simp
qed

section \<open>Match lengths are exact\<close>

text \<open>The bytes from \<open>p\<close> on and from \<open>q\<close> on agree for \<open>k\<close> bytes.\<close>

definition agree :: "u8 list \<Rightarrow> nat \<Rightarrow> nat \<Rightarrow> nat \<Rightarrow> bool" where
  "agree s p q k \<longleftrightarrow> (\<forall>i < k. s ! (p + i) = s ! (q + i))"

lemma agree_0 [simp]: "agree s p q 0"
  by (simp add: agree_def)

lemma agree_add: "agree s p q k \<Longrightarrow> agree s (p + k) (q + k) l \<Longrightarrow> agree s p q (k + l)"
  unfolding agree_def
proof (intro allI impI)
  fix i assume a: "\<forall>i<k. s ! (p + i) = s ! (q + i)" "\<forall>i<l. s ! (p + k + i) = s ! (q + k + i)" "i < k + l"
  show "s ! (p + i) = s ! (q + i)"
  proof (cases "i < k")
    case False
    then obtain j where "i = k + j" by (metis le_Suc_ex not_less)
    then show ?thesis using a by (simp add: add.assoc)
  qed (use a in simp)
qed

lemma byte_match_loop_ok:
  assumes "q \<le> p" and "p \<le> limit" and "limit \<le> length s"
  shows "\<exists>k. byte_match_loop s p q limit = Some (p + k) \<and> p + k \<le> limit \<and> agree s p q k \<and>
    (p + k = limit \<or> s ! (p + k) \<noteq> s ! (q + k))"
  using assms
proof (induction "limit - p" arbitrary: p q)
  case 0
  then show ?case by (subst byte_match_loop.simps) auto
next
  case (Suc x)
  show ?case
  proof (cases "s ! p = s ! q")
    case True
    have "\<exists>k. byte_match_loop s (p + 1) (q + 1) limit = Some (p + 1 + k) \<and> p + 1 + k \<le> limit \<and> agree s (p + 1) (q + 1) k \<and>
        (p + 1 + k = limit \<or> s ! (p + 1 + k) \<noteq> s ! (q + 1 + k))"
      by (rule Suc.hyps(1)) (use Suc in auto)
    then obtain k where k: "byte_match_loop s (p + 1) (q + 1) limit = Some (p + 1 + k)" "p + 1 + k \<le> limit"
      "agree s (p + 1) (q + 1) k" "p + 1 + k = limit \<or> s ! (p + 1 + k) \<noteq> s ! (q + 1 + k)" by blast
    have "agree s p q 1" using True by (simp add: agree_def)
    then have "agree s p q (1 + k)" using k(3) by (rule agree_add)
    moreover have "byte_match_loop s p q limit = Some (p + (1 + k))"
      using k(1) Suc True by (subst byte_match_loop.simps) auto
    ultimately show ?thesis using k(2,4) by (metis add.assoc)
  next
    case False
    then have "byte_match_loop s p q limit = Some (p + 0)" using Suc by (subst byte_match_loop.simps) auto
    then show ?thesis using False Suc.prems by (metis add_0_right agree_0)
  qed
qed

lemma load64_ok: "i + 8 \<le> length s \<Longrightarrow> load64 s i = Some (le_word (take 8 (drop i s)))"
  by (simp add: load64_def rd_bytes_in)

lemma load32_ok: "i + 4 \<le> length s \<Longrightarrow> load32 s i = Some (le_word (take 4 (drop i s)))"
  by (simp add: load32_def rd_bytes_in)

lemma bit_load64: "i + 8 \<le> length s \<Longrightarrow> n < 64 \<Longrightarrow> bit (le_word (take 8 (drop i s)) :: u64) n = bit (s ! (i + n div 8)) (n mod 8)"
  by (auto simp: bit_le_word)

lemma word_diff:
  assumes "p + 8 \<le> length s" and "q + 8 \<le> length s"
    and diff: "diff = (le_word (take 8 (drop p s)) XOR le_word (take 8 (drop q s)) :: u64)" and "diff \<noteq> 0"
  obtains t where "snappy_ctz64_fallback diff = Some t" and "drop_bit 3 t < 8" and "agree s p q (drop_bit 3 t)"
    and "s ! (p + drop_bit 3 t) \<noteq> s ! (q + drop_bit 3 t)"
proof -
  define t where "t = (LEAST t. bit diff t)"
  from \<open>diff \<noteq> 0\<close> obtain b where "bit diff b" by (auto simp: bit_eq_iff)
  then have t: "bit diff t" unfolding t_def by (rule LeastI)
  have low: "\<not> bit diff i" if "i < t" for i using that not_less_Least unfolding t_def by blast
  have t64: "t < 64" using bit_imp_le_length [OF t] by simp
  have b: "bit diff n \<longleftrightarrow> bit (s ! (p + n div 8)) (n mod 8) \<noteq> bit (s ! (q + n div 8)) (n mod 8)" if "n < 64" for n
    using that assms(1,2) by (simp add: diff bit_xor_iff bit_load64)
  have "snappy_ctz64_fallback diff = Some t"
    unfolding snappy_ctz64_fallback_def using ctz64_loop_eq [OF t low] by simp
  moreover have d3: "drop_bit 3 t = t div 8" by (simp add: drop_bit_eq_div)
  moreover have "agree s p q (t div 8)"
    unfolding agree_def
  proof (intro allI impI)
    fix i assume i: "i < t div 8"
    show "s ! (p + i) = s ! (q + i)"
    proof (rule bit_word_eqI)
      fix k assume "k < LENGTH(8)"
      then have k: "8 * i + k < t" "(8 * i + k) div 8 = i" "(8 * i + k) mod 8 = k" using i by auto
      then show "bit (s ! (p + i)) k = bit (s ! (q + i)) k" using low [OF k(1)] b [of "8 * i + k"] t64 by simp
    qed
  qed
  moreover have "s ! (p + t div 8) \<noteq> s ! (q + t div 8)" using t b [OF t64] by auto
  ultimately show thesis using that t64 by simp
qed

lemma word_match_loop_ok:
  assumes "q \<le> p" and "p \<le> limit" and "limit \<le> length s"
  shows "\<exists>r. word_match_loop s p q limit = Some r \<and> (case r of
      Inl fin \<Rightarrow> \<exists>k. fin = p + k \<and> p + k < limit \<and> agree s p q k \<and> s ! (p + k) \<noteq> s ! (q + k)
    | Inr (p1, q1) \<Rightarrow> \<exists>k. p1 = p + k \<and> q1 = q + k \<and> p + k \<le> limit \<and> agree s p q k)"
  using assms
proof (induction "limit - p" arbitrary: p q rule: less_induct)
  case less
  show ?case
  proof (cases "p + 8 \<le> limit")
    case False
    then have "word_match_loop s p q limit = Some (Inr (p, q))" by (subst word_match_loop.simps) simp
    then show ?thesis using less.prems by (auto intro: exI [of _ 0])
  next
    case True
    then have in8: "p + 8 \<le> length s" "q + 8 \<le> length s" using less.prems by auto
    let ?a = "le_word (take 8 (drop p s)) :: u64" and ?b = "le_word (take 8 (drop q s)) :: u64"
    show ?thesis
    proof (cases "?a XOR ?b = 0")
      case True2: False
      from word_diff [OF in8 refl this] obtain t where t: "snappy_ctz64_fallback (?a XOR ?b) = Some t" "drop_bit 3 t < 8"
        "agree s p q (drop_bit 3 t)" "s ! (p + drop_bit 3 t) \<noteq> s ! (q + drop_bit 3 t)" .
      have "word_match_loop s p q limit = Some (Inl (p + drop_bit 3 t))"
        using True2 t(1) True in8 by (subst word_match_loop.simps) (simp add: load64_ok)
      moreover have "p + drop_bit 3 t < limit" using t(2) True by linarith
      ultimately show ?thesis using t(3,4) by auto
    next
      case eq: True
      have agree8: "agree s p q 8"
        unfolding agree_def
      proof (intro allI impI)
        fix i :: nat assume i: "i < 8"
        have "bit ?a n = bit ?b n" for n using arg_cong [OF eq, of "\<lambda>w. bit w n"] by (simp add: bit_xor_iff)
        then have "?a = ?b" by (simp add: bit_eq_iff)
        have "take 8 (drop p s) = le_bytes 8 ?a" using in8 by (simp add: le_bytes_le_word)
        also have "\<dots> = take 8 (drop q s)" unfolding \<open>?a = ?b\<close> using in8 by (simp add: le_bytes_le_word)
        finally have "take 8 (drop p s) ! i = take 8 (drop q s) ! i" by simp
        then show "s ! (p + i) = s ! (q + i)" using i in8 by simp
      qed
      have run: "word_match_loop s p q limit = word_match_loop s (p + 8) (q + 8) limit"
        using eq True in8 by (subst word_match_loop.simps) (simp add: load64_ok)
      have "\<exists>r. word_match_loop s (p + 8) (q + 8) limit = Some r \<and> (case r of
            Inl fin \<Rightarrow> \<exists>k. fin = p + 8 + k \<and> p + 8 + k < limit \<and> agree s (p + 8) (q + 8) k \<and> s ! (p + 8 + k) \<noteq> s ! (q + 8 + k)
          | Inr (p1, q1) \<Rightarrow> \<exists>k. p1 = p + 8 + k \<and> q1 = q + 8 + k \<and> p + 8 + k \<le> limit \<and> agree s (p + 8) (q + 8) k)"
        by (rule less.hyps) (use less.prems True in auto)
      then obtain r where r: "word_match_loop s (p + 8) (q + 8) limit = Some r" "case r of
            Inl fin \<Rightarrow> \<exists>k. fin = p + 8 + k \<and> p + 8 + k < limit \<and> agree s (p + 8) (q + 8) k \<and> s ! (p + 8 + k) \<noteq> s ! (q + 8 + k)
          | Inr (p1, q1) \<Rightarrow> \<exists>k. p1 = p + 8 + k \<and> q1 = q + 8 + k \<and> p + 8 + k \<le> limit \<and> agree s (p + 8) (q + 8) k" by blast
      show ?thesis
      proof (cases r)
        case (Inl fin)
        with r(2) obtain k where k: "fin = p + (8 + k)" "p + (8 + k) < limit" "agree s (p + 8) (q + 8) k"
          "s ! (p + (8 + k)) \<noteq> s ! (q + (8 + k))" by (auto simp: add.assoc)
        have "agree s p q (8 + k)" using agree8 k(3) by (rule agree_add)
        with k have "\<exists>k. fin = p + k \<and> p + k < limit \<and> agree s p q k \<and> s ! (p + k) \<noteq> s ! (q + k)" by blast
        then show ?thesis using run r(1) Inl by simp
      next
        case (Inr y)
        obtain p1 q1 where y: "y = (p1, q1)" by (cases y)
        with r(2) Inr obtain k where k: "p1 = p + (8 + k)" "q1 = q + (8 + k)" "p + (8 + k) \<le> limit" "agree s (p + 8) (q + 8) k"
          by (auto simp: add.assoc)
        have "agree s p q (8 + k)" using agree8 k(4) by (rule agree_add)
        with k have "\<exists>k. p1 = p + k \<and> q1 = q + k \<and> p + k \<le> limit \<and> agree s p q k" by blast
        then show ?thesis using run r(1) Inr y by simp
      qed
    qed
  qed
qed

lemma match_length_ok:
  assumes "q \<le> p" and "p \<le> limit" and "limit \<le> length s"
  shows "\<exists>k. fast_match_length s p q limit = Some k \<and> p + k \<le> limit \<and> agree s p q k \<and>
    (p + k = limit \<or> s ! (p + k) \<noteq> s ! (q + k))"
proof -
  from word_match_loop_ok [OF assms] obtain r where r: "word_match_loop s p q limit = Some r" "case r of
      Inl fin \<Rightarrow> \<exists>k. fin = p + k \<and> p + k < limit \<and> agree s p q k \<and> s ! (p + k) \<noteq> s ! (q + k)
    | Inr (p1, q1) \<Rightarrow> \<exists>k. p1 = p + k \<and> q1 = q + k \<and> p + k \<le> limit \<and> agree s p q k" by blast
  show ?thesis
  proof (cases r)
    case (Inl fin)
    then show ?thesis using r by (auto simp: fast_match_length_def)
  next
    case (Inr y)
    obtain k where y: "y = (p + k, q + k)" "p + k \<le> limit" "agree s p q k" using r(2) Inr by (cases y) auto
    have "q + k \<le> p + k" using assms(1) by simp
    from byte_match_loop_ok [OF this y(2) assms(3)] obtain l where
      l: "byte_match_loop s (p + k) (q + k) limit = Some (p + (k + l))" "p + (k + l) \<le> limit" "agree s (p + k) (q + k) l"
        "p + (k + l) = limit \<or> s ! (p + (k + l)) \<noteq> s ! (q + (k + l))" by (auto simp: add.assoc)
    have "fast_match_length s p q limit = Some (k + l)" using r(1) Inr y(1) l(1) by (simp add: fast_match_length_def)
    then show ?thesis using l agree_add [OF y(3) l(3)] by blast
  qed
qed

section \<open>Streams of elements\<close>

text \<open>What a sequence of elements that each add bytes appends to \<open>out\<close>.\<close>

function snappy_elements :: "u8 list \<Rightarrow> u8 list \<Rightarrow> u8 list option" where
  "snappy_elements out bs =
     (if bs = [] then Some out
      else (case parse_element bs of None \<Rightarrow> None | Some (el, rest) \<Rightarrow>
        (case apply_element out el of None \<Rightarrow> None | Some out' \<Rightarrow>
           if length out < length out' then snappy_elements out' rest else None)))"
  by pat_completeness auto

termination snappy_elements
  by (relation "measure (\<lambda>(out, bs). length bs)") (auto dest: parse_element_shorter)

declare snappy_elements.simps [simp del]

lemma elements_Nil [simp]: "snappy_elements out [] = Some out"
  by (subst snappy_elements.simps) simp

lemma take_literal_append: "take_literal n bs = Some (el, rest) \<Longrightarrow> take_literal n (bs @ xs) = Some (el, rest @ xs)"
  by (auto simp: take_literal_def split: if_splits)

lemma parse_element_append:
  assumes "parse_element bs = Some (el, rest)"
  shows "parse_element (bs @ xs) = Some (el, rest @ xs)"
proof (cases bs)
  case (Cons tag r)
  let ?n = "unat tag div 4" and ?t = "unat tag mod 4"
  consider (short) "?t = 0" "?n < 60" | (long) "?t = 0" "\<not> ?n < 60" | (one) "?t = 1" | (off) "?t \<noteq> 0" "?t \<noteq> 1" by linarith
  then show ?thesis
  proof cases
    case short
    then show ?thesis using assms take_literal_append [of "?n + 1" r] Cons by (simp add: Let_def)
  next
    case long
    let ?k = "?n - 59"
    have le: "?k \<le> length r" using assms Cons long by (simp add: Let_def split: if_splits)
    then have "take_literal (unat (le_word (take ?k r) + 1 :: u32)) (drop ?k r) = Some (el, rest)"
      using assms Cons long by (simp add: Let_def)
    from take_literal_append [OF this, of xs] show ?thesis using Cons long le by (simp add: Let_def)
  next
    case one
    then show ?thesis using assms Cons by (simp add: Let_def split: list.splits)
  next
    case off
    let ?k = "if ?t = 2 then 2 else 4 :: nat"
    have le: "?k \<le> length r" using assms Cons off unfolding Cons parse_element.simps Let_def if_not_P [OF off(1)] if_not_P [OF off(2)]
      by (simp split: if_splits)
    then show ?thesis using assms unfolding Cons append_Cons parse_element.simps Let_def if_not_P [OF off(1)] if_not_P [OF off(2)]
      by auto
  qed
qed (use assms in simp)

lemma elements_step:
  assumes "parse_element bs = Some (el, rest)" and "apply_element out el = Some out'" and "length out < length out'"
  shows "snappy_elements out (bs @ xs) = snappy_elements out' (rest @ xs)"
proof -
  have "bs \<noteq> []" using assms(1) by auto
  then show ?thesis using assms parse_element_append [OF assms(1), of xs] by (subst snappy_elements.simps) simp
qed

lemma elements_first:
  assumes "snappy_elements out bs = Some out'" and "bs \<noteq> []"
  obtains el rest o1 where "parse_element bs = Some (el, rest)" and "apply_element out el = Some o1"
    and "length out < length o1" and "snappy_elements o1 rest = Some out'"
proof -
  have eq: "snappy_elements out bs = (case parse_element bs of None \<Rightarrow> None | Some (el, rest) \<Rightarrow>
        (case apply_element out el of None \<Rightarrow> None | Some out' \<Rightarrow>
           if length out < length out' then snappy_elements out' rest else None))"
    using assms(2) by (subst snappy_elements.simps) simp
  show thesis using assms(1) that unfolding eq by (auto split: option.splits if_splits prod.splits)
qed

lemma elements_append: "snappy_elements out bs = Some out' \<Longrightarrow> snappy_elements out (bs @ xs) = snappy_elements out' xs"
proof (induction out bs rule: snappy_elements.induct)
  case (1 out bs)
  show ?case
  proof (cases "bs = []")
    case True
    then show ?thesis using 1 by simp
  next
    case False
    obtain el rest o1 where e: "parse_element bs = Some (el, rest)" "apply_element out el = Some o1"
      "length out < length o1" "snappy_elements o1 rest = Some out'" by (rule elements_first [OF 1(2) False])
    have "snappy_elements o1 (rest @ xs) = snappy_elements out' xs" by (rule 1(1)) (use False e in auto)
    then show ?thesis using elements_step [OF e(1-3)] by simp
  qed
qed

lemma elements_longer: "snappy_elements out bs = Some out' \<Longrightarrow> length out \<le> length out'"
proof (induction out bs rule: snappy_elements.induct)
  case (1 out bs)
  show ?case
  proof (cases "bs = []")
    case True
    then show ?thesis using 1 by simp
  next
    case False
    obtain el rest o1 where e: "parse_element bs = Some (el, rest)" "apply_element out el = Some o1"
      "length out < length o1" "snappy_elements o1 rest = Some out'" by (rule elements_first [OF 1(2) False])
    then show ?thesis using 1(1) [OF False e(1) refl e(2,3)] e(4) by simp
  qed
qed

lemma elements_format: "snappy_elements out bs = Some out' \<Longrightarrow> read_elements (length out') out bs = Some out'"
proof (induction out bs rule: snappy_elements.induct)
  case (1 out bs)
  show ?case
  proof (cases "bs = []")
    case True
    then show ?thesis using 1 by (subst read_elements.simps) simp
  next
    case False
    obtain el rest o1 where e: "parse_element bs = Some (el, rest)" "apply_element out el = Some o1"
      "length out < length o1" "snappy_elements o1 rest = Some out'" by (rule elements_first [OF 1(2) False])
    have "length o1 \<le> length out'" using e(4) by (rule elements_longer)
    then have "element_step (length out') out bs = Some (o1, rest)" using e by (simp add: element_step_def)
    moreover have "read_elements (length out') o1 rest = Some out'" using 1(1) [OF False e(1) refl e(2,3)] e(4) by simp
    ultimately show ?thesis using False e(3) \<open>length o1 \<le> length out'\<close> by (subst read_elements.simps) simp
  qed
qed

section \<open>What the emitters store\<close>

text \<open>The bytes \<open>bs\<close> have been stored from \<open>op\<close> on, up to \<open>op'\<close>.\<close>

definition emitted :: "u8 list \<Rightarrow> nat \<Rightarrow> u8 list \<Rightarrow> nat \<Rightarrow> u8 list \<Rightarrow> bool" where
  "emitted m op m' op' bs \<longleftrightarrow> length m' = length m \<and> op' = op + length bs \<and> op' \<le> length m \<and> take op' m' = take op m @ bs"

lemma emitted_refl: "op \<le> length m \<Longrightarrow> emitted m op m op []"
  by (simp add: emitted_def)

lemma emitted_trans: "emitted m op m1 op1 b1 \<Longrightarrow> emitted m1 op1 m2 op2 b2 \<Longrightarrow> emitted m op m2 op2 (b1 @ b2)"
  unfolding emitted_def by (metis append.assoc length_append add.assoc)

lemma emitted_length: "emitted m op m' op' bs \<Longrightarrow> length m' = length m" "emitted m op m' op' bs \<Longrightarrow> op' = op + length bs"
  by (simp_all add: emitted_def)

lemma emitted_write:
  assumes "op + length bs \<le> length m" and "k \<le> length bs"
  obtains m' where "wr_bytes m op bs = Some m'" and "emitted m op m' (op + k) (take k bs)"
proof -
  obtain m' where "wr_bytes m op bs = Some m'" "frame (length m) op m m'" "take (op + k) m' = take op m @ take k bs"
    by (rule write_prefix [OF assms(1) order.refl assms(2)])
  then show thesis using that [of m'] assms by (simp add: emitted_def frame_length min_absorb1)
qed

lemma emitted_wr:
  assumes "op < length m"
  obtains m' where "wr m op b = Some m'" and "emitted m op m' (op + 1) [b]"
  using emitted_write [of op "[b]" m 1] assms by (auto simp: wr_is_wr_bytes)

lemma le_bytes_of_nat:
  assumes "k \<le> 4"
  shows "le_bytes k (of_nat v :: u32) = map (\<lambda>i. of_nat (v div 256 ^ i)) [0..<k]"
proof (rule nth_equalityI)
  fix i assume "i < length (le_bytes k (of_nat v :: u32))"
  then have i: "i < k" by simp
  have p: "(256 :: nat) ^ i = 2 ^ (8 * i)" by (simp add: power_mult)
  have "ucast (drop_bit (8 * i) (of_nat v :: u32)) = (of_nat (drop_bit (8 * i) v) :: u8)"
  proof (rule bit_word_eqI)
    fix n assume "n < LENGTH(8)"
    then have "8 * i + n < 32" using i assms by simp
    then show "bit (ucast (drop_bit (8 * i) (of_nat v :: u32)) :: u8) n = bit (of_nat (drop_bit (8 * i) v) :: u8) n"
      using \<open>n < LENGTH(8)\<close> by (simp add: bit_simps)
  qed
  then show "le_bytes k (of_nat v :: u32) ! i = map (\<lambda>i. of_nat (v div 256 ^ i)) [0..<k] ! i"
    using i by (simp add: p drop_bit_eq_div)
qed simp

lemma unat_small: "v < 256 \<Longrightarrow> unat (of_nat v :: u8) = v" "v < 2 ^ 32 \<Longrightarrow> unat (of_nat v :: u32) = v"
  by (simp_all add: unsigned_of_nat take_bit_nat_eq_self)

lemma le_word_of_digits:
  assumes "v < 256 ^ k" and "k \<le> 4"
  shows "(le_word (map (\<lambda>i. of_nat (v div 256 ^ i)) [0..<k]) :: u32) = of_nat v"
proof -
  have p: "(256 :: nat) ^ k = 2 ^ (8 * k)" by (simp add: power_mult)
  have "(2 :: nat) ^ (8 * k) \<le> 2 ^ 32" using assms(2) by (intro power_increasing) auto
  then have "unat (of_nat v :: u32) < 2 ^ (8 * k)" using assms(1) unfolding p by (simp add: unat_small)
  then show ?thesis unfolding le_bytes_of_nat [OF assms(2), symmetric] le_word_le_bytes by (rule fits_width)
qed

lemma elements_one_literal:
  assumes "parse_element (hdr @ lit) = Some (Literal lit, [])" and "lit \<noteq> []"
  shows "snappy_elements out (hdr @ lit) = Some (out @ lit)"
  using elements_step [OF assms(1), of out "out @ lit" "[]"] assms(2) by simp

text \<open>The bytes a literal takes besides its own.\<close>

definition literal_overhead :: "nat \<Rightarrow> nat" where
  "literal_overhead len = (if len \<le> 60 then 1 else if len \<le> 256 then 2 else 3)"

lemma emit_literal_ok:
  assumes len: "0 < len" "len \<le> 65536" and "lit + len \<le> length s" and room: "op + len + 5 \<le> length m"
  shows "\<exists>m' bs. snappy_emit_literal m op s lit len = Some (m', op + length bs) \<and> emitted m op m' (op + length bs) bs \<and>
    (\<forall>out. snappy_elements out bs = Some (out @ take len (drop lit s))) \<and> length bs = len + literal_overhead len"
proof -
  let ?l = "take len (drop lit s)"
  have l: "length ?l = len" "?l \<noteq> []" "rd_bytes s lit len = Some ?l" using assms by (auto simp: rd_bytes_in)
  show ?thesis
  proof (cases "len \<le> 60")
    case True
    define tg :: u8 where "tg = of_nat ((len - 1) * 4)"
    have tag: "unat tg = (len - 1) * 4" unfolding tg_def by (rule unat_small(1)) (use True in simp)
    obtain m1 where m1: "wr m op tg = Some m1" "emitted m op m1 (op + 1) [tg]"
      by (rule emitted_wr [of op m]) (use room in auto)
    obtain m2 where m2: "wr_bytes m1 (op + 1) ?l = Some m2" "emitted m1 (op + 1) m2 (op + 1 + len) (take len ?l)"
      by (rule emitted_write [of "op + 1" ?l m1 len]) (use room l m1 in \<open>auto simp: emitted_length\<close>)
    have "parse_element ([tg] @ ?l) = Some (Literal ?l, [])"
      using True len l by (simp add: Let_def tag take_literal_def)
    then have "\<forall>out. snappy_elements out ([tg] @ ?l) = Some (out @ ?l)" using elements_one_literal l(2) by blast
    moreover have "emitted m op m2 (op + length ([tg] @ ?l)) ([tg] @ ?l)"
      using emitted_trans [OF m1(2) m2(2)] l(1) by simp
    moreover have "len - 1 < 60" using True by simp
    then have "snappy_emit_literal m op s lit len = Some (m2, op + length ([tg] @ ?l))"
      using m1(1) m2(1) l unfolding snappy_emit_literal_def Let_def tg_def [symmetric] by simp
    moreover have "length ([tg] @ ?l) = len + literal_overhead len" using l(1) True by (simp add: literal_overhead_def)
    ultimately show ?thesis by blast
  next
    case False
    let ?n = "len - 1"
    have n: "60 \<le> ?n" "?n < 65536" using False len by auto
    obtain z where z: "snappy_clz32_fallback (of_nat ?n) = Some z" "(31 - z) div 8 + 1 = (if ?n < 256 then 1 else 2)"
      by (rule literal_count [OF n])
    define c where "c = (if ?n < 256 then 1 else 2 :: nat)"
    have c: "c \<le> 2" "0 < c" "?n < 256 ^ c" using n by (auto simp: c_def)
    define tg :: u8 where "tg = of_nat ((59 + c) * 4)"
    have tag: "unat tg = (59 + c) * 4" unfolding tg_def by (rule unat_small(1)) (use c in simp)
    let ?h = "map (\<lambda>i. of_nat (?n div 256 ^ i)) [0..<c] :: u8 list"
    obtain m1 where m1: "wr m op tg = Some m1" "emitted m op m1 (op + 1) [tg]"
      by (rule emitted_wr [of op m]) (use room in auto)
    obtain m2 where m2: "store32 m1 (op + 1) (of_nat ?n) = Some m2" "emitted m1 (op + 1) m2 (op + 1 + c) (take c (le_bytes 4 (of_nat ?n :: u32)))"
      unfolding store32_def
      by (rule emitted_write [of "op + 1" "le_bytes 4 (of_nat ?n :: u32)" m1 c]) (use room m1 c in \<open>auto simp: emitted_length\<close>)
    have h: "take c (le_bytes 4 (of_nat ?n :: u32)) = ?h" using c by (simp add: le_bytes_of_nat take_map)
    obtain m3 where m3: "wr_bytes m2 (op + 1 + c) ?l = Some m3" "emitted m2 (op + 1 + c) m3 (op + 1 + c + len) (take len ?l)"
      by (rule emitted_write [of "op + 1 + c" ?l m2 len]) (use room l m1 m2 c in \<open>auto simp: emitted_length\<close>)
    have "le_word ?h = (of_nat ?n :: u32)" by (rule le_word_of_digits) (use c in auto)
    moreover have "of_nat ?n + 1 = (of_nat len :: u32)" using len(1) by (simp add: of_nat_diff)
    moreover have "unat (of_nat len :: u32) = len" by (rule unat_small(2)) (use len(2) in simp)
    ultimately have v: "unat (le_word ?h + 1 :: u32) = len" by simp
    have nlt: "\<not> len - 1 < 60" and cnt: "(31 - z) div 8 + 1 = c" using n z(2) by (simp_all add: c_def)
    have "parse_element ((tg # ?h) @ ?l) = Some (Literal ?l, [])"
      using c l v by (simp add: Let_def tag take_literal_def)
    then have "\<forall>out. snappy_elements out ((tg # ?h) @ ?l) = Some (out @ ?l)" using elements_one_literal l(2) by blast
    moreover have "emitted m op m3 (op + length ((tg # ?h) @ ?l)) ((tg # ?h) @ ?l)"
      using emitted_trans [OF emitted_trans [OF m1(2) m2(2) [unfolded h]] m3(2)] l(1) by (simp add: add.assoc)
    moreover have "snappy_emit_literal m op s lit len = Some (m3, op + length ((tg # ?h) @ ?l))"
      unfolding snappy_emit_literal_def Let_def if_not_P [OF nlt] z(1) bind.bind_lunit cnt tg_def [symmetric] m1(1) m2(1)
        prod.case l(3) m3(1) using l(1) by simp
    moreover have "length ((tg # ?h) @ ?l) = len + literal_overhead len"
      using l(1) False by (auto simp: literal_overhead_def c_def)
    ultimately show ?thesis by blast
  qed
qed

section \<open>Copies\<close>

lemma copy_from_nth:
  assumes "0 < off" and "off \<le> length out" and "j < off + a"
  shows "copy_from out off a ! (length out - off + j) = out ! (length out - off + j mod off)"
proof (cases "j < off")
  case True
  then have "length out - off + j < length out" using assms by linarith
  then show ?thesis using True by (simp add: copy_from_def nth_append)
next
  case False
  then obtain k where k: "j = off + k" by (metis le_Suc_ex not_less)
  have "length out - off + j = length out + k" using k assms by simp
  then show ?thesis using assms k by (simp add: copy_from_def nth_append)
qed

lemma copy_from_0 [simp]: "copy_from out off 0 = out"
  by (simp add: copy_from_def)

lemma copy_from_add:
  assumes "0 < off" and "off \<le> length out"
  shows "copy_from (copy_from out off a) off b = copy_from out off (a + b)"
proof -
  have "copy_from out off a ! (length out + a - off + i mod off) = out ! (length out - off + (a + i) mod off)" for i
  proof -
    have "i mod off < off" using assms by simp
    then have "copy_from out off a ! (length out - off + (a + i mod off)) = out ! (length out - off + (a + i mod off) mod off)"
      by (intro copy_from_nth assms) simp
    moreover have "length out + a - off + i mod off = length out - off + (a + i mod off)" using assms by simp
    ultimately show ?thesis by (simp add: mod_add_right_eq add.assoc)
  qed
  then have "copy_from (copy_from out off a) off b = copy_from out off a @ map (\<lambda>i. out ! (length out - off + (a + i) mod off)) [0..<b]"
    by (simp add: copy_from_def [of "copy_from out off a"])
  also have "map (\<lambda>i. out ! (length out - off + (a + i) mod off)) [0..<b] = map (\<lambda>i. out ! (length out - off + i mod off)) [a..<a + b]"
    by (rule nth_equalityI) simp_all
  finally show ?thesis using upt_add_eq_append [of 0 a b] by (simp add: copy_from_def)
qed

lemma elements_copy:
  assumes "parse_element bs = Some (Copy off len, [])" and "0 < off" and "off \<le> length out" and "0 < len"
  shows "snappy_elements out bs = Some (copy_from out off len)"
  using elements_step [OF assms(1), of out "copy_from out off len" "[]"] assms(2-4) by simp

text \<open>The bytes \<open>bs\<close> are a copy of \<open>len\<close> bytes from \<open>off\<close> back.\<close>

definition is_copy :: "u8 list \<Rightarrow> nat \<Rightarrow> nat \<Rightarrow> bool" where
  "is_copy bs off len \<longleftrightarrow> (\<forall>out. 0 < off \<and> off \<le> length out \<longrightarrow> snappy_elements out bs = Some (copy_from out off len))"

lemma is_copy_append:
  assumes "is_copy b1 off l1" and "is_copy b2 off l2"
  shows "is_copy (b1 @ b2) off (l1 + l2)"
  unfolding is_copy_def
proof (intro allI impI)
  fix out :: "u8 list" assume o: "0 < off \<and> off \<le> length out"
  then have "snappy_elements out b1 = Some (copy_from out off l1)" using assms(1) by (simp add: is_copy_def)
  moreover have "snappy_elements (copy_from out off l1) b2 = Some (copy_from (copy_from out off l1) off l2)"
    using assms(2) o by (simp add: is_copy_def)
  ultimately show "snappy_elements out (b1 @ b2) = Some (copy_from out off (l1 + l2))"
    using o by (simp add: elements_append copy_from_add)
qed

lemma offset_bytes:
  assumes "off < 65536"
  shows "(le_word [of_nat off AND 0xFF, of_nat (off div 256)] :: u32) = of_nat off"
proof -
  have "(of_nat off :: u8) AND 0xFF = of_nat off"
  proof -
    have mask: "(0xFF :: u8) = mask 8" by (simp add: mask_eq_exp_minus_1)
    show ?thesis unfolding mask by (rule bit_word_eqI) (auto simp: bit_simps)
  qed
  moreover have "[0..<2] = [0, 1 :: nat]" by (simp add: upt_rec)
  ultimately show ?thesis using le_word_of_digits [of off 2] assms by simp
qed

lemma emit_copy2_ok:
  assumes "op + 3 \<le> length m" and "unat tag mod 4 = 2" and "off < 65536"
  shows "\<exists>m' bs. emit_copy2 m op tag off = Some (m', op + 3) \<and> emitted m op m' (op + 3) bs \<and> length bs = 3 \<and>
    is_copy bs off (unat tag div 4 + 1)"
proof -
  let ?b0 = "of_nat off AND 0xFF :: u8" and ?b1 = "of_nat (off div 256) :: u8"
  obtain m1 where m1: "wr m op tag = Some m1" "emitted m op m1 (op + 1) [tag]"
    by (rule emitted_wr [of op m]) (use assms in auto)
  obtain m2 where m2: "wr m1 (op + 1) ?b0 = Some m2" "emitted m1 (op + 1) m2 (op + 1 + 1) [?b0]"
    by (rule emitted_wr [of "op + 1" m1]) (use assms m1 in \<open>auto simp: emitted_length\<close>)
  obtain m3 where m3: "wr m2 (op + 1 + 1) ?b1 = Some m3" "emitted m2 (op + 1 + 1) m3 (op + 1 + 1 + 1) [?b1]"
    by (rule emitted_wr [of "op + 1 + 1" m2]) (use assms m1 m2 in \<open>auto simp: emitted_length\<close>)
  have e: "emitted m op m3 (op + 3) [tag, ?b0, ?b1]"
    using emitted_trans [OF emitted_trans [OF m1(2) m2(2)] m3(2)] by (simp add: numeral_3_eq_3)
  have "unat (of_nat off :: u32) = off" by (rule unat_small) (use assms in simp)
  then have pe: "parse_element [tag, ?b0, ?b1] = Some (Copy off (unat tag div 4 + 1), [])"
    using assms(2) offset_bytes [OF assms(3)] unfolding parse_element.simps Let_def
    by (simp del: le_word.simps)
  have "is_copy [tag, ?b0, ?b1] off (unat tag div 4 + 1)"
    unfolding is_copy_def using elements_copy [OF pe] by simp
  moreover have "emit_copy2 m op tag off = Some (m3, op + 3)"
    using m1(1) m2(1) m3(1) by (simp add: emit_copy2_def)
  moreover have "length [tag, ?b0, ?b1] = 3" by simp
  ultimately show ?thesis using e by blast
qed

lemma unat_mod256: "unat (of_nat v :: u8) = v mod 256"
  by (simp add: unsigned_of_nat take_bit_eq_mod)

lemma and_E0: "n < 256 \<Longrightarrow> (n :: nat) AND 0xE0 = 32 * (n div 32)"
proof -
  assume "n < 256"
  then have n: "take_bit 8 n = n" by (simp add: take_bit_nat_eq_self)
  have mask: "(0xE0 :: nat) = push_bit 5 (mask 3)" by (simp add: mask_eq_exp_minus_1)
  have lt: "k < 8" if "bit n k" for k using n that by (metis bit_take_bit_iff)
  then have "n AND 0xE0 = push_bit 5 (drop_bit 5 n)"
    unfolding mask by (intro bit_eqI) (auto simp: bit_simps dest: lt)
  then show ?thesis by (simp add: push_bit_eq_mult drop_bit_eq_div mult.commute)
qed

lemma copy1_word:
  assumes "4 \<le> len" and "off < 2048"
  shows "push_bit 2 (of_nat len) + push_bit 8 (of_nat off) + (1 - push_bit 2 4 + (drop_bit 3 (of_nat off) AND 0xe0)) =
    (of_nat (4 * (len - 4) + 1 + 32 * (off div 256) + 256 * off) :: u32)"
proof -
  have o: "unat (of_nat off :: u32) = off" by (rule unat_small) (use assms in simp)
  have "unat (drop_bit 3 (of_nat off) AND 0xe0 :: u32) = 32 * (off div 8 div 32)"
    unfolding unsigned_and_eq using and_E0 [of "off div 8"] assms(2) o by (simp add: drop_bit_eq_div unat_div_distrib)
  then have "unat (drop_bit 3 (of_nat off) AND 0xe0 :: u32) = 32 * (off div 256)" by (simp add: div_mult2_eq [symmetric])
  moreover have "unat (of_nat (32 * (off div 256)) :: u32) = 32 * (off div 256)" by (rule unat_small) (use assms in simp)
  ultimately have a: "drop_bit 3 (of_nat off) AND 0xe0 = (of_nat (32 * (off div 256)) :: u32)" by (simp only: word_unat_eq_iff)
  show ?thesis unfolding a using assms(1) by (simp add: push_bit_eq_mult of_nat_diff algebra_simps)
qed

lemma copy2_word:
  assumes "0 < len"
  shows "2 + push_bit 2 (of_nat len - 1) + push_bit 8 (of_nat off) = (of_nat (2 + 4 * (len - 1) + 256 * off) :: u32)"
  using assms by (simp add: push_bit_eq_mult of_nat_diff algebra_simps)

lemma copy_tag:
  assumes "0 < len" and "len \<le> 64"
  shows "unat (push_bit 2 (of_nat len - 1) OR 2 :: u8) = 4 * (len - 1) + 2"
proof -
  have "push_bit 2 (of_nat len - 1) = (push_bit 2 (of_nat (len - 1)) :: u8)" using assms by (simp add: of_nat_diff)
  moreover have "push_bit 2 x AND 2 = 0" for x :: u8
    by (rule bit_word_eqI) (auto simp: bit_simps bit_2_iff)
  ultimately have "push_bit 2 (of_nat len - 1) OR 2 = (push_bit 2 (of_nat (len - 1)) + 2 :: u8)"
    by (simp add: disjunctive_add_eq_or)
  also have "\<dots> = of_nat (4 * (len - 1) + 2)" by (simp only: push_bit_eq_mult of_nat_add of_nat_mult) simp
  finally have e: "push_bit 2 (of_nat len - 1) OR 2 = (of_nat (4 * (len - 1) + 2) :: u8)" .
  show ?thesis unfolding e by (rule unat_small(1)) (use assms in simp)
qed

lemma byte_fields:
  assumes "b < 256"
  shows "(b + 256 * v) mod 256 = (b :: nat)" and "(b + 256 * v) div 256 = v" and "(b + 256 * v) div 65536 = v div 256"
proof -
  show v: "(b + 256 * v) div 256 = v" and "(b + 256 * v) mod 256 = b" using assms by simp_all
  have "(b + 256 * v) div 65536 = (b + 256 * v) div 256 div 256" by (simp add: div_mult2_eq [symmetric])
  then show "(b + 256 * v) div 65536 = v div 256" unfolding v .
qed

lemma copy2_fields: "(4 * k + 2) mod 4 = (2 :: nat)" "(4 * k + 2) div 4 = (k :: nat)"
  by presburger simp

lemma copy1_fields:
  assumes "k < 8"
  shows "(4 * k + 1 + 32 * q) mod 4 = (1 :: nat)" and "(4 * k + 1 + 32 * q) div 4 mod 8 = k" and "(4 * k + 1 + 32 * q) div 32 = q"
proof -
  have "(4 * k + 1 + 32 * q) div 4 = k + 8 * q" by simp
  then show "(4 * k + 1 + 32 * q) div 4 mod 8 = k" using assms by simp
  have "(4 * k + 1) div 32 = 0" using assms by simp
  then show "(4 * k + 1 + 32 * q) div 32 = q" by simp
qed presburger

lemma emit_last_copy_ok:
  assumes len: "4 \<le> len" "len \<le> 64" and off: "off < 65536" and room: "op + 4 \<le> length m"
  shows "\<exists>m' bs. emit_last_copy m op off len = Some (m', op + length bs) \<and> emitted m op m' (op + length bs) bs \<and>
    is_copy bs off len \<and> length bs \<le> 3"
proof -
  have up: "[0..<2] = [0, 1 :: nat]" "[0..<3] = [0, 1, 2 :: nat]" by (simp_all add: upt_rec)
  consider (one) "len < 12" "off < 2048" | (two) "len < 12" "\<not> off < 2048" | (wide) "\<not> len < 12" by blast
  then show ?thesis
  proof cases
    case one
    let ?v = "4 * (len - 4) + 1 + 32 * (off div 256) + 256 * off"
    define t b where "t = (of_nat ?v :: u8)" and "b = (of_nat (?v div 256) :: u8)"
    have "off div 256 < 8" using one(2) by (simp add: less_mult_imp_div_less)
    then have small: "4 * (len - 4) + 1 + 32 * (off div 256) < 256" using one(1) by linarith
    have "?v mod 256 = 4 * (len - 4) + 1 + 32 * (off div 256)" "?v div 256 = off" using small by simp_all
    then have t: "unat t = 4 * (len - 4) + 1 + 32 * (off div 256)" and b: "unat b = off mod 256"
      by (simp_all only: t_def b_def unat_mod256)
    obtain m' where m': "store32 m op (of_nat ?v) = Some m'" "emitted m op m' (op + 2) (take 2 (le_bytes 4 (of_nat ?v :: u32)))"
      unfolding store32_def by (rule emitted_write [of op "le_bytes 4 (of_nat ?v :: u32)" m 2]) (use room in auto)
    have bs: "take 2 (le_bytes 4 (of_nat ?v :: u32)) = [t, b]"
      by (simp only: le_bytes_of_nat take_map take_upt up t_def b_def) (simp add: take_upt up)
    have "unat t mod 4 = 1" "unat t div 4 mod 8 + 4 = len" "unat t div 32 * 256 + unat b = off"
      unfolding t b using copy1_fields [of "len - 4" "off div 256"] one len by simp_all
    then have "parse_element [t, b] = Some (Copy off len, [])" by (simp add: Let_def)
    then have "is_copy [t, b] off len" unfolding is_copy_def using elements_copy len by simp
    moreover have "emit_last_copy m op off len = Some (m', op + length [t, b])"
      unfolding emit_last_copy_def Let_def copy1_word [OF len(1) one(2)] using one m'(1) by simp
    moreover have "emitted m op m' (op + length [t, b]) [t, b]" "length [t, b] \<le> 3" using m'(2) [unfolded bs] by (simp_all add: eval_nat_numeral)
    ultimately show ?thesis by blast
  next
    case two
    let ?v = "2 + 4 * (len - 1) + 256 * off"
    define t b c where "t = (of_nat ?v :: u8)" and "b = (of_nat (?v div 256) :: u8)" and "c = (of_nat (?v div 65536) :: u8)"
    have "2 + 4 * (len - 1) < 256" using len by simp
    then have "?v mod 256 = 2 + 4 * (len - 1)" "?v div 256 = off" "?v div 65536 = off div 256" by (rule byte_fields)+
    then have t: "unat t = 2 + 4 * (len - 1)" and b: "b = of_nat off" and c: "c = of_nat (off div 256)"
      by (simp_all only: t_def b_def c_def unat_mod256)
    obtain m' where m': "store32 m op (of_nat ?v) = Some m'" "emitted m op m' (op + 3) (take 3 (le_bytes 4 (of_nat ?v :: u32)))"
      unfolding store32_def by (rule emitted_write [of op "le_bytes 4 (of_nat ?v :: u32)" m 3]) (use room in auto)
    have bs: "take 3 (le_bytes 4 (of_nat ?v :: u32)) = [t, b, c]"
      by (simp only: le_bytes_of_nat take_map take_upt up t_def b_def c_def) (simp add: take_upt up)
    have len0: "0 < len" using len by simp
    have w: "(le_word [b, c] :: u32) = of_nat off" unfolding b c using le_word_of_digits [of off 2] off by (simp add: up)
    have "unat (of_nat off :: u32) = off" by (rule unat_small) (use off in simp)
    moreover have "unat t mod 4 = 2" "unat t div 4 + 1 = len" unfolding t using len by presburger+
    ultimately have "parse_element [t, b, c] = Some (Copy off len, [])"
      using w unfolding parse_element.simps Let_def by (simp del: le_word.simps)
    then have "is_copy [t, b, c] off len" unfolding is_copy_def using elements_copy len by simp
    moreover have "emit_last_copy m op off len = Some (m', op + length [t, b, c])"
      unfolding emit_last_copy_def Let_def copy2_word [OF len0] m'(1) bind.bind_lunit using two by simp
    moreover have "emitted m op m' (op + length [t, b, c]) [t, b, c]" "length [t, b, c] \<le> 3" using m'(2) [unfolded bs] by (simp_all add: eval_nat_numeral)
    ultimately show ?thesis by blast
  next
    case wide
    define t :: u8 where "t = push_bit 2 (of_nat len - 1) OR 2"
    have u: "unat t = 4 * (len - 1) + 2" unfolding t_def by (rule copy_tag) (use len in auto)
    have "unat t mod 4 = 2" "unat t div 4 + 1 = len" unfolding u copy2_fields using len by simp_all
    then have "\<exists>m' bs. emit_copy2 m op t off = Some (m', op + 3) \<and> emitted m op m' (op + 3) bs \<and> length bs = 3 \<and> is_copy bs off len"
      using emit_copy2_ok [of op m t off] room off by simp
    moreover have "emit_last_copy m op off len = emit_copy2 m op t off" using wide by (simp add: emit_last_copy_def t_def)
    ultimately show ?thesis by (metis order.refl)
  qed
qed

lemma is_copy_Nil: "is_copy [] off 0"
  by (simp add: is_copy_def)

lemma emit_chunks_ok:
  assumes "off < 65536" and "4 \<le> len" and "op + len \<le> length m"
  shows "\<exists>m' op' len' bs. emit_chunks m op off len = Some (m', op', len') \<and> emitted m op m' op' bs \<and> 4 \<le> len' \<and> len' < 68 \<and>
    len' \<le> len \<and> is_copy bs off (len - len') \<and> length bs + len' \<le> len"
  using assms(2,3)
proof (induction len arbitrary: m op rule: less_induct)
  case (less len)
  show ?case
  proof (cases "68 \<le> len")
    case False
    then have "emit_chunks m op off len = Some (m, op, len)" by (subst emit_chunks.simps) simp
    moreover have "emitted m op m op []" by (rule emitted_refl) (use less.prems in simp)
    moreover have "is_copy [] off (len - len)" by (simp add: is_copy_Nil)
    ultimately show ?thesis using False less.prems(1) by (metis le_refl list.size(3) add_0 not_le)
  next
    case True
    have tag: "unat (push_bit 2 63 OR 2 :: u8) = 254" by simp
    have "\<exists>m' bs. emit_copy2 m op (push_bit 2 63 OR 2) off = Some (m', op + 3) \<and> emitted m op m' (op + 3) bs \<and> length bs = 3 \<and>
        is_copy bs off 64"
      using emit_copy2_ok [of op m "push_bit 2 63 OR 2" off] assms(1) less.prems True by (simp add: tag)
    then obtain m1 b1 where c: "emit_copy2 m op (push_bit 2 63 OR 2) off = Some (m1, op + 3)" "emitted m op m1 (op + 3) b1"
      "length b1 = 3" "is_copy b1 off 64" by blast
    have "\<exists>m' op' len' bs. emit_chunks m1 (op + 3) off (len - 64) = Some (m', op', len') \<and> emitted m1 (op + 3) m' op' bs \<and>
        4 \<le> len' \<and> len' < 68 \<and> len' \<le> len - 64 \<and> is_copy bs off (len - 64 - len') \<and> length bs + len' \<le> len - 64"
      by (rule less.IH) (use True less.prems c in \<open>auto simp: emitted_length\<close>)
    then obtain m2 op2 len2 b2 where r: "emit_chunks m1 (op + 3) off (len - 64) = Some (m2, op2, len2)" "emitted m1 (op + 3) m2 op2 b2"
        "4 \<le> len2" "len2 < 68" "len2 \<le> len - 64" "is_copy b2 off (len - 64 - len2)" "length b2 + len2 \<le> len - 64" by blast
    have "64 + (len - 64 - len2) = len - len2" using True r by linarith
    then have "is_copy (b1 @ b2) off (len - len2)" using is_copy_append [OF c(4) r(6)] by simp
    moreover have "emit_chunks m op off len = Some (m2, op2, len2)"
      using True c(1) r(1) by (subst emit_chunks.simps) simp
    moreover have "length (b1 @ b2) + len2 \<le> len" "len2 \<le> len" using c r True by auto
    ultimately show ?thesis using emitted_trans [OF c(2) r(2)] r(3,4) by blast
  qed
qed

lemma emit_copy_ok:
  assumes "off < 65536" and "4 \<le> len" and "op + len + 4 \<le> length m"
  shows "\<exists>m' op' bs. snappy_emit_copy m op off len = Some (m', op') \<and> emitted m op m' op' bs \<and> is_copy bs off len \<and>
    length bs + 1 \<le> len"
proof -
  have "op + len \<le> length m" using assms by simp
  from emit_chunks_ok [OF assms(1,2) this] obtain m1 op1 l1 b1 where c: "emit_chunks m op off len = Some (m1, op1, l1)"
    "emitted m op m1 op1 b1" "4 \<le> l1" "l1 < 68" "l1 \<le> len" "is_copy b1 off (len - l1)" "length b1 + l1 \<le> len" by blast
  have op1: "op1 = op + length b1" "length m1 = length m" using c(2) by (simp_all add: emitted_length)
  show ?thesis
  proof (cases "l1 > 64")
    case False
    then obtain m2 b2 where l: "emit_last_copy m1 op1 off l1 = Some (m2, op1 + length b2)" "emitted m1 op1 m2 (op1 + length b2) b2"
      "is_copy b2 off l1" "length b2 \<le> 3" using emit_last_copy_ok [OF c(3) _ assms(1), of op1 m1] op1 c assms by auto
    have "is_copy (b1 @ b2) off len" using is_copy_append [OF c(6) l(3)] c(5) by simp
    moreover have "snappy_emit_copy m op off len = Some (m2, op1 + length b2)" using c(1) l(1) False by (simp add: snappy_emit_copy_def)
    moreover have "length (b1 @ b2) + 1 \<le> len" using c l by auto
    ultimately show ?thesis using emitted_trans [OF c(2) l(2)] by blast
  next
    case True
    have tag: "unat (push_bit 2 59 OR 2 :: u8) = 238" by simp
    have "\<exists>m' bs. emit_copy2 m1 op1 (push_bit 2 59 OR 2) off = Some (m', op1 + 3) \<and> emitted m1 op1 m' (op1 + 3) bs \<and> length bs = 3 \<and>
        is_copy bs off 60"
      using emit_copy2_ok [of op1 m1 "push_bit 2 59 OR 2" off] assms op1 c True by (simp add: tag)
    then obtain m2 b2 where d: "emit_copy2 m1 op1 (push_bit 2 59 OR 2) off = Some (m2, op1 + 3)" "emitted m1 op1 m2 (op1 + 3) b2"
      "length b2 = 3" "is_copy b2 off 60" by blast
    have len: "4 \<le> l1 - 60" "l1 - 60 \<le> 64" "op1 + 3 + 4 \<le> length m2" using True c d op1 assms by (auto simp: emitted_length)
    from emit_last_copy_ok [OF len(1,2) assms(1) len(3)] obtain m3 b3 where
      l: "emit_last_copy m2 (op1 + 3) off (l1 - 60) = Some (m3, op1 + 3 + length b3)" "emitted m2 (op1 + 3) m3 (op1 + 3 + length b3) b3"
      "is_copy b3 off (l1 - 60)" "length b3 \<le> 3" by blast
    have "len - l1 + 60 + (l1 - 60) = len" using c True by linarith
    then have "is_copy ((b1 @ b2) @ b3) off len" using is_copy_append [OF is_copy_append [OF c(6) d(4)] l(3)] by simp
    moreover have "snappy_emit_copy m op off len = Some (m3, op1 + 3 + length b3)"
      using c(1) d(1) l(1) True by (simp add: snappy_emit_copy_def)
    moreover have "length ((b1 @ b2) @ b3) + 1 \<le> len" using c d l True by auto
    ultimately show ?thesis using emitted_trans [OF emitted_trans [OF c(2) d(2)] l(2)] by blast
  qed
qed

section \<open>The hash table\<close>

lemma hash_less: "snappy_hash v < SNAPPY_HASH_SIZE"
proof -
  let ?w = "v * 0x1e35a7bd :: u32"
  have "unat ?w < 2 ^ 18 * 2 ^ 14" using unsigned_less [of ?w] by simp
  then have "unat ?w div 2 ^ 18 < 2 ^ 14" by (simp add: less_mult_imp_div_less)
  then show ?thesis by (simp add: snappy_hash_def SNAPPY_HASH_SIZE_def SNAPPY_HASH_LOG_def drop_bit_eq_div unat_div_distrib)
qed

text \<open>Every entry is a position before \<open>b\<close>.\<close>

definition table_ok :: "u16 list \<Rightarrow> nat \<Rightarrow> bool" where
  "table_ok table b \<longleftrightarrow> length table = SNAPPY_HASH_SIZE \<and> (\<forall>c \<in> set table. unat c < b)"

lemma table_read:
  assumes "table_ok table b"
  obtains c where "rd table (snappy_hash v) = Some c" and "unat c < b"
  using assms hash_less [of v] that [of "table ! snappy_hash v"] by (simp add: table_ok_def)

lemma table_write:
  assumes "table_ok table b" and "b \<le> b'" and "p < b'" and "p < 65536"
  obtains table' where "wr table (snappy_hash v) (of_nat p) = Some table'" and "table_ok table' b'"
proof -
  have "unat (of_nat p :: u16) = p" using assms(4) by (simp add: unsigned_of_nat take_bit_nat_eq_self)
  then have "table_ok (table[snappy_hash v := of_nat p]) b'"
    using assms by (auto simp: table_ok_def dest!: set_update_subset_insert [THEN subsetD] intro: less_le_trans)
  then show thesis using that assms(1) hash_less [of v] by (simp add: table_ok_def)
qed

lemma load32_agree:
  assumes "p + 4 \<le> length s" and "q + 4 \<le> length s" and "(le_word (take 4 (drop p s)) :: u32) = le_word (take 4 (drop q s))"
  shows "agree s p q 4"
  unfolding agree_def
proof (intro allI impI)
  fix i :: nat assume i: "i < 4"
  have "take 4 (drop p s) = le_bytes 4 (le_word (take 4 (drop p s)) :: u32)" using assms(1) by (simp add: le_bytes_le_word)
  also have "\<dots> = take 4 (drop q s)" unfolding assms(3) using assms(2) by (simp add: le_bytes_le_word)
  finally have "take 4 (drop p s) ! i = take 4 (drop q s) ! i" by simp
  then show "s ! (p + i) = s ! (q + i)" using i assms by simp
qed

text \<open>The search ends, and what it finds is a match.\<close>

lemma find_match_ok:
  assumes "table_ok table ip" and "0 < ip" and "ip \<le> ilimit" and n: "ilimit + 15 = length s" "length s \<le> 65536"
    and "32 \<le> unat skip" and "unat skip \<le> 32 + ip"
  shows "\<exists>table' r. find_match s ilimit table ip skip = Some (table', r) \<and> (case r of None \<Rightarrow> True
    | Some (ip', c) \<Rightarrow> ip \<le> ip' \<and> ip' < ilimit \<and> c < ip' \<and> agree s ip' c 4 \<and> table_ok table' (ip' + 1))"
  using assms(1-3,6,7)
proof (induction "ilimit - ip" arbitrary: table ip skip rule: less_induct)
  case less
  let ?bb = "drop_bit 5 skip" and ?v = "le_word (take 4 (drop ip s)) :: u32"
  have bb: "unat ?bb = unat skip div 32" by (simp add: drop_bit_eq_div unat_div_distrib)
  have bb1: "1 \<le> unat ?bb" "unat ?bb \<le> unat skip" unfolding bb using less.prems(4) by auto
  have v: "load32 s ip = Some ?v" by (rule load32_ok) (use less.prems n in simp)
  show ?case
  proof (cases "ip + unat ?bb > ilimit")
    case True
    then have "find_match s ilimit table ip skip = Some (table, None)"
      using v by (subst find_match.simps) (simp add: Let_def)
    then show ?thesis by simp
  next
    case False
    obtain c where c: "rd table (snappy_hash ?v) = Some c" "unat c < ip" by (rule table_read [OF less.prems(1)])
    obtain table1 where t1: "wr table (snappy_hash ?v) (of_nat ip) = Some table1" "table_ok table1 (ip + 1)"
      by (rule table_write [OF less.prems(1), of "ip + 1" ip]) (use less.prems n in auto)
    have c4: "unat c + 4 \<le> length s" "ip + 4 \<le> length s" using c less.prems n by auto
    let ?w = "le_word (take 4 (drop (unat c) s)) :: u32"
    have w: "load32 s (unat c) = Some ?w" by (rule load32_ok [OF c4(1)])
    show ?thesis
    proof (cases "?v = ?w")
      case True
      then have "find_match s ilimit table ip skip = Some (table1, Some (ip, unat c))"
        using v w c(1) t1(1) False by (subst find_match.simps) (simp add: Let_def)
      moreover have "agree s ip (unat c) 4" by (rule load32_agree [OF c4(2,1) True])
      moreover have "ip < ilimit" using False bb1 by linarith
      ultimately show ?thesis using c(2) t1(2) by auto
    next
      case ne: False
      have run: "find_match s ilimit table ip skip = find_match s ilimit table1 (ip + unat ?bb) (skip + ?bb)"
        using v w c(1) t1(1) False ne by (subst find_match.simps) (simp add: Let_def)
      have "unat skip + unat ?bb < 2 ^ 32" using bb1 less.prems n by simp
      then have sk: "unat (skip + ?bb) = unat skip + unat ?bb" by (simp add: unat_plus_if')
      have "table_ok table1 (ip + unat ?bb)" using t1(2) bb1 by (auto simp: table_ok_def)
      then have "\<exists>table' r. find_match s ilimit table1 (ip + unat ?bb) (skip + ?bb) = Some (table', r) \<and> (case r of None \<Rightarrow> True
          | Some (ip', c) \<Rightarrow> ip + unat ?bb \<le> ip' \<and> ip' < ilimit \<and> c < ip' \<and> agree s ip' c 4 \<and> table_ok table' (ip' + 1))"
        by (intro less.hyps) (use False bb1 less.prems sk in auto)
      then show ?thesis unfolding run by (fastforce split: option.splits)
    qed
  qed
qed

section \<open>Blocks are coded\<close>

lemma copy_from_prefix:
  assumes "c < ip" and "ip + len \<le> length s" and a: "agree s ip c len"
  shows "copy_from (out @ take ip s) (ip - c) len = out @ take (ip + len) s"
proof -
  let ?off = "ip - c"
  have "s ! (ip + i) = s ! (c + i mod ?off)" if "i < len" for i
    using that
  proof (induction i rule: less_induct)
    case (less i)
    have eq: "s ! (ip + i) = s ! (c + i)" using a less.prems by (simp add: agree_def)
    show ?case
    proof (cases "i < ?off")
      case True
      then show ?thesis using eq by simp
    next
      case False
      then have "s ! (ip + (i - ?off)) = s ! (c + (i - ?off) mod ?off)" using less.IH [of "i - ?off"] less.prems assms(1) by simp
      moreover have "ip + (i - ?off) = c + i" using False assms(1) by auto
      moreover have "(i - ?off) mod ?off = i mod ?off" using False by (simp add: le_mod_geq)
      ultimately show ?thesis using eq by (simp add: add.commute)
    qed
  qed
  then have "map (\<lambda>i. s ! (c + i mod ?off)) [0..<len] = take len (drop ip s)"
    using assms(2) by (intro nth_equalityI) simp_all
  moreover have "(out @ take ip s) ! (length (out @ take ip s) - ?off + i mod ?off) = s ! (c + i mod ?off)" for i
  proof -
    have "i mod ?off < ?off" using assms(1) by simp
    then have "c + i mod ?off < ip" by linarith
    moreover have "length (out @ take ip s) - ?off = length out + c" using assms by simp
    ultimately show ?thesis by (simp add: nth_append)
  qed
  ultimately show ?thesis by (simp add: copy_from_def take_add)
qed

text \<open>
  The first \<open>a\<close> bytes of the block have been coded, with at most one byte in 64 more than their
  own, and \<open>k\<close> 64ths.
\<close>

definition coded :: "u8 list \<Rightarrow> u8 list \<Rightarrow> nat \<Rightarrow> nat \<Rightarrow> nat \<Rightarrow> u8 list \<Rightarrow> nat \<Rightarrow> bool" where
  "coded s m0 op0 k a m op \<longleftrightarrow> (\<exists>bs. emitted m0 op0 m op bs \<and> a \<le> length s \<and>
     (\<forall>out. snappy_elements out bs = Some (out @ take a s)) \<and> 64 * length bs \<le> 65 * a + k)"

lemma coded_start: "op \<le> length m \<Longrightarrow> coded s m op 0 0 m op"
  unfolding coded_def using emitted_refl by fastforce

lemma coded_mono: "coded s m0 op0 k a m op \<Longrightarrow> k \<le> k' \<Longrightarrow> coded s m0 op0 k' a m op"
  unfolding coded_def by (meson add_left_mono le_trans)

definition block_room :: "u8 list \<Rightarrow> u8 list \<Rightarrow> nat \<Rightarrow> bool" where
  "block_room s m op \<longleftrightarrow> op + length s + length s div 64 + 24 \<le> length m"

lemma coded_room:
  assumes "coded s m0 op0 k a m op" and "k \<le> 67" and "block_room s m0 op0" and "a + l \<le> length s"
  shows "op + l + 20 \<le> length m"
proof -
  from assms(1) obtain bs :: "u8 list" where bs: "op = op0 + length bs" "length m = length m0" "64 * length bs \<le> 65 * a + k"
    unfolding coded_def emitted_def by blast
  have "64 * (length s div 64) + 63 \<ge> length s" by presburger
  then show ?thesis using bs assms(2-4) unfolding block_room_def by linarith
qed

lemma coded_literal:
  assumes c: "coded s m0 op0 0 a m op" and "0 < len" and "a + len \<le> length s" and "length s \<le> 65536" and room: "block_room s m0 op0"
  shows "\<exists>m' op'. snappy_emit_literal m op s a len = Some (m', op') \<and> coded s m0 op0 67 (a + len) m' op'"
proof -
  from c obtain b0 where b0: "emitted m0 op0 m op b0" "\<forall>out. snappy_elements out b0 = Some (out @ take a s)"
    "64 * length b0 \<le> 65 * a" by (auto simp: coded_def)
  have "op + len + 5 \<le> length m" using coded_room [OF c _ room assms(3)] by simp
  then obtain m' bs where l: "snappy_emit_literal m op s a len = Some (m', op + length bs)" "emitted m op m' (op + length bs) bs"
    "\<forall>out. snappy_elements out bs = Some (out @ take len (drop a s))" "length bs = len + literal_overhead len"
    using emit_literal_ok [of len a s op m] assms by auto
  have "snappy_elements out (b0 @ bs) = Some (out @ take (a + len) s)" for out
    using b0(2) l(3) by (simp add: elements_append take_add)
  moreover have "64 * length (b0 @ bs) \<le> 65 * (a + len) + 67"
    using b0(3) l(4) by (auto simp: literal_overhead_def split: if_splits)
  ultimately have "coded s m0 op0 67 (a + len) m' (op + length bs)"
    unfolding coded_def using emitted_trans [OF b0(1) l(2)] assms(3) by blast
  then show ?thesis using l(1) by blast
qed

lemma coded_copy:
  assumes c: "coded s m0 op0 67 ip m op" and "4 \<le> len" and le: "ip + len \<le> length s" and n: "length s \<le> 65536" and room: "block_room s m0 op0"
    and cand: "cand < ip" "agree s ip cand len"
  shows "\<exists>m' op'. snappy_emit_copy m op (ip - cand) len = Some (m', op') \<and> coded s m0 op0 0 (ip + len) m' op'"
proof -
  from c obtain b0 where b0: "emitted m0 op0 m op b0" "\<forall>out. snappy_elements out b0 = Some (out @ take ip s)"
    "64 * length b0 \<le> 65 * ip + 67" by (auto simp: coded_def)
  have off: "ip - cand < 65536" using le n assms(2) by linarith
  have "op + len + 4 \<le> length m" using coded_room [OF c _ room le] by simp
  from emit_copy_ok [OF off assms(2) this] obtain m' op' bs where l: "snappy_emit_copy m op (ip - cand) len = Some (m', op')" "emitted m op m' op' bs"
    "is_copy bs (ip - cand) len" "length bs + 1 \<le> len" by blast
  have "snappy_elements out (b0 @ bs) = Some (out @ take (ip + len) s)" for out
  proof -
    have "snappy_elements (out @ take ip s) bs = Some (copy_from (out @ take ip s) (ip - cand) len)"
      using l(3) cand(1) le unfolding is_copy_def by simp
    then show ?thesis using b0(2) copy_from_prefix [OF cand(1) le cand(2)] by (simp add: elements_append)
  qed
  moreover have "64 * length (b0 @ bs) \<le> 65 * (ip + len) + 0" using b0(3) l(4) assms(2) by simp
  ultimately have "coded s m0 op0 0 (ip + len) m' op'"
    unfolding coded_def using emitted_trans [OF b0(1) l(2)] le by blast
  then show ?thesis using l(1) by blast
qed

text \<open>A match at \<open>ip\<close> is about to be coded.\<close>

definition at_match :: "u8 list \<Rightarrow> u8 list \<Rightarrow> nat \<Rightarrow> u8 list \<Rightarrow> nat \<Rightarrow> u16 list \<Rightarrow> nat \<Rightarrow> nat \<Rightarrow> bool" where
  "at_match s m0 op0 m op table ip c \<longleftrightarrow> coded s m0 op0 67 ip m op \<and> table_ok table (ip + 1) \<and> c < ip \<and> agree s ip c 4 \<and>
     ip + 4 \<le> length s"

lemma match_loop_ok:
  assumes "at_match s m0 op0 m op table ip c"
    and n: "ilimit + 15 = length s" "length s \<le> 65536" and room: "block_room s m0 op0"
  shows "\<exists>m' op' table' ip' fin. match_loop s ilimit m op table ip c = Some (m', op', table', ip', fin) \<and>
    coded s m0 op0 0 ip' m' op' \<and> ip < ip' \<and> (\<not> fin \<longrightarrow> ip' < ilimit \<and> table_ok table' (ip' + 1))"
  using assms(1)
proof (induction "length s - ip" arbitrary: m op table ip c rule: less_induct)
  case less
  from less.prems have am: "coded s m0 op0 67 ip m op" "table_ok table (ip + 1)" "c < ip" "agree s ip c 4" "ip + 4 \<le> length s"
    by (auto simp: at_match_def)
  have "c + 4 \<le> ip + 4" using am(3) by simp
  from match_length_ok [OF this am(5) order.refl] obtain l where
    l: "fast_match_length s (ip + 4) (c + 4) (length s) = Some l" "ip + 4 + l \<le> length s" "agree s (ip + 4) (c + 4) l" by blast
  let ?ip = "ip + (4 + l)"
  have le: "?ip \<le> length s" using l(2) by simp
  from coded_copy [OF am(1) _ le n(2) room am(3) agree_add [OF am(4) l(3)]] obtain m1 op1 where
    c1: "snappy_emit_copy m op (ip - c) (4 + l) = Some (m1, op1)" "coded s m0 op0 0 ?ip m1 op1" by auto
  show ?case
  proof (cases "?ip \<ge> ilimit")
    case True
    then have "match_loop s ilimit m op table ip c = Some (m1, op1, table, ?ip, True)"
      using l(1) c1(1) by (subst match_loop.simps) (simp add: Let_def)
    then show ?thesis using c1(2) by auto
  next
    case False
    then have in4: "?ip - 1 + 4 \<le> length s" "?ip + 4 \<le> length s" "?ip < 65536" using n by auto
    let ?p = "le_word (take 4 (drop (?ip - 1) s)) :: u32" and ?v = "le_word (take 4 (drop ?ip s)) :: u32"
    obtain table1 where t1: "wr table (snappy_hash ?p) (of_nat (?ip - 1)) = Some table1" "table_ok table1 ?ip"
      by (rule table_write [OF am(2), of ?ip "?ip - 1"]) (use in4 in auto)
    obtain c' where c': "rd table1 (snappy_hash ?v) = Some c'" "unat c' < ?ip" by (rule table_read [OF t1(2)])
    obtain table2 where t2: "wr table1 (snappy_hash ?v) (of_nat ?ip) = Some table2" "table_ok table2 (?ip + 1)"
      by (rule table_write [OF t1(2), of "?ip + 1" ?ip]) (use in4 in auto)
    have c4: "unat c' + 4 \<le> length s" using c'(2) in4 by simp
    let ?w = "le_word (take 4 (drop (unat c') s)) :: u32"
    have run: "match_loop s ilimit m op table ip c =
        (if ?v = ?w \<and> ?ip - unat c' \<le> SNAPPY_MAX_OFFSET then match_loop s ilimit m1 op1 table2 ?ip (unat c')
         else Some (m1, op1, table2, ?ip, False))"
      using False
      by (subst match_loop.simps)
        (simp only: l(1) c1(1) bind.bind_lunit Let_def prod.case load32_ok [OF in4(1)] load32_ok [OF in4(2)] load32_ok [OF c4]
          t1(1) c'(1) t2(1) if_False)
    show ?thesis
    proof (cases "?v = ?w \<and> ?ip - unat c' \<le> SNAPPY_MAX_OFFSET")
      case no: False
      then show ?thesis unfolding run if_not_P [OF no] using c1(2) t2(2) False by auto
    next
      case yes: True
      have "at_match s m0 op0 m1 op1 table2 ?ip (unat c')"
        unfolding at_match_def using coded_mono [OF c1(2), of 67] t2(2) c'(2) in4 load32_agree [OF in4(2) c4] yes by simp
      from less.hyps [OF _ this] am(5) have "\<exists>m' op' table' ip' fin. match_loop s ilimit m1 op1 table2 ?ip (unat c') = Some (m', op', table', ip', fin) \<and>
          coded s m0 op0 0 ip' m' op' \<and> ?ip < ip' \<and> (\<not> fin \<longrightarrow> ip' < ilimit \<and> table_ok table' (ip' + 1))" by simp
      then show ?thesis unfolding run if_P [OF yes] by fastforce
    qed
  qed
qed

lemma compress_matches_ok:
  assumes "at_match s m0 op0 m op table ip c"
    and n: "ilimit + 15 = length s" "length s \<le> 65536" and room: "block_room s m0 op0"
  shows "\<exists>m' op' a. compress_matches s ilimit m op table ip c = Some (m', op', a) \<and> coded s m0 op0 0 a m' op'"
  using assms(1)
proof (induction "length s - ip" arbitrary: m op table ip c rule: less_induct)
  case less
  from match_loop_ok [OF less.prems n room] obtain m1 op1 table1 a fin where
    m1: "match_loop s ilimit m op table ip c = Some (m1, op1, table1, a, fin)" "coded s m0 op0 0 a m1 op1" "ip < a"
      "\<not> fin \<longrightarrow> a < ilimit \<and> table_ok table1 (a + 1)" by blast
  show ?case
  proof (cases fin)
    case True
    then show ?thesis using m1 by (subst compress_matches.simps) simp
  next
    case False
    then have a: "table_ok table1 (a + 1)" "0 < a + 1" "a + 1 \<le> ilimit" using m1(4) by auto
    have sk: "32 \<le> unat (32 :: u32)" "unat (32 :: u32) \<le> 32 + (a + 1)" by simp_all
    from find_match_ok [OF a n sk] obtain table2 r where
      f: "find_match s ilimit table1 (a + 1) 32 = Some (table2, r)" "case r of None \<Rightarrow> True
        | Some (ip', c) \<Rightarrow> a + 1 \<le> ip' \<and> ip' < ilimit \<and> c < ip' \<and> agree s ip' c 4 \<and> table_ok table2 (ip' + 1)" by blast
    show ?thesis
    proof (cases r)
      case None
      then show ?thesis using m1(1,2) f(1) False by (subst compress_matches.simps) simp
    next
      case (Some y)
      obtain ip2 c2 where y: "y = (ip2, c2)" by (cases y)
      then have f2: "a < ip2" "ip2 < ilimit" "c2 < ip2" "agree s ip2 c2 4" "table_ok table2 (ip2 + 1)" using f(2) Some by auto
      have lit: "0 < ip2 - a" "a + (ip2 - a) \<le> length s" "a + (ip2 - a) = ip2" using f2 n by auto
      from coded_literal [OF m1(2) lit(1,2) n(2) room] obtain m2 op2 where
        m2: "snappy_emit_literal m1 op1 s a (ip2 - a) = Some (m2, op2)" "coded s m0 op0 67 ip2 m2 op2" unfolding lit(3) by blast
      have "at_match s m0 op0 m2 op2 table2 ip2 c2" unfolding at_match_def using m2(2) f2 n by simp
      from less.hyps [OF _ this] have "\<exists>m' op' a. compress_matches s ilimit m2 op2 table2 ip2 c2 = Some (m', op', a) \<and> coded s m0 op0 0 a m' op'"
        using m1(3) f2 n by simp
      moreover have "compress_matches s ilimit m op table ip c = compress_matches s ilimit m2 op2 table2 ip2 c2"
        using m1(1) f(1) Some y m2(1) False f2 by (subst compress_matches.simps) simp
      ultimately show ?thesis by simp
    qed
  qed
qed

text \<open>The four bytes at each of the first positions, taken from words of eight.\<close>

lemma low_word:
  assumes "p + 8 \<le> length s" and "k \<le> 4"
  shows "ucast (drop_bit (8 * k) (le_word (take 8 (drop p s)) :: u64)) = (le_word (take 4 (drop (p + k) s)) :: u32)"
proof (rule bit_word_eqI)
  fix n assume "n < LENGTH(32)"
  then have n: "n < 32" by simp
  have d: "(8 * k + n) div 8 = k + n div 8" "(8 * k + n) mod 8 = n mod 8" by simp_all
  have l: "8 * k + n < 64" "n div 8 < 4" using n assms(2) by auto
  have "bit (ucast (drop_bit (8 * k) (le_word (take 8 (drop p s)) :: u64)) :: u32) n = bit (le_word (take 8 (drop p s)) :: u64) (8 * k + n)"
    using n by (simp add: bit_simps)
  also have "\<dots> = bit (s ! (p + (k + n div 8))) (n mod 8)" using bit_load64 [OF assms(1) l(1)] unfolding d .
  also have "\<dots> = bit (le_word (take 4 (drop (p + k) s)) :: u32) n"
    using assms n l(2) by (simp add: bit_le_word add.assoc)
  finally show "bit (ucast (drop_bit (8 * k) (le_word (take 8 (drop p s)) :: u64)) :: u32) n = bit (le_word (take 4 (drop (p + k) s)) :: u32) n" .
qed

definition startup_found :: "u8 list \<Rightarrow> nat \<Rightarrow> nat \<Rightarrow> u16 list \<times> (nat \<times> nat) option \<Rightarrow> bool" where
  "startup_found s ip b r \<longleftrightarrow> (case snd r of None \<Rightarrow> table_ok (fst r) (ip + b)
     | Some (i, c) \<Rightarrow> i < 16 \<and> c < ip + i \<and> agree s (ip + i) c 4 \<and> table_ok (fst r) (ip + i + 1))"

lemma startup_row_ok:
  assumes "table_ok table (ip + 4 * j + k)" and "k \<le> 4" and "j < 4" and n: "ip + 24 \<le> length s" "length s \<le> 65536" and "0 < ip"
    and "data = drop_bit (8 * k) (le_word (take 8 (drop (ip + 4 * j) s)))"
  shows "\<exists>r. startup_row [k..<4] s ip j data table = Some r \<and> startup_found s ip (4 * j + 4) r"
  using assms(1,2,7)
proof (induction "4 - k" arbitrary: k table data)
  case 0
  then show ?case by (simp add: startup_found_def add.assoc)
next
  case (Suc x)
  then have k: "k < 4" by simp
  let ?i = "4 * j + k" and ?p = "ip + 4 * j + k"
  have in4: "?p + 4 \<le> length s" "?p < 65536" using k assms by auto
  let ?v = "le_word (take 4 (drop ?p s)) :: u32"
  have v: "(if ?i = 0 then load32 s ip else Some (ucast data)) = Some ?v"
  proof (cases "?i = 0")
    case True
    then show ?thesis using load32_ok [OF in4(1)] by simp
  next
    case False
    have "ip + 4 * j + 8 \<le> length s" "k \<le> 4" using k assms by auto
    then have "ucast data = ?v" using low_word [of "ip + 4 * j" s k] Suc.prems(3) by simp
    then show ?thesis unfolding if_not_P [OF False] by simp
  qed
  obtain c where c: "rd table (snappy_hash ?v) = Some c" "unat c < ?p" by (rule table_read [OF Suc.prems(1)])
  obtain table1 where t1: "wr table (snappy_hash ?v) (of_nat ?p) = Some table1" "table_ok table1 (?p + 1)"
    by (rule table_write [OF Suc.prems(1), of "?p + 1" ?p]) (use in4 in auto)
  have c4: "unat c + 4 \<le> length s" using c(2) in4 by simp
  let ?w = "le_word (take 4 (drop (unat c) s)) :: u32"
  have up: "[k..<4] = k # [Suc k..<4]" using k by (simp add: upt_conv_Cons)
  have p: "ip + ?i = ?p" by simp
  have run: "startup_row [k..<4] s ip j data table =
      (if ?w = ?v then Some (table1, Some (?i, unat c)) else startup_row [Suc k..<4] s ip j (drop_bit 8 data) table1)"
    unfolding up startup_row.simps Let_def v bind.bind_lunit c(1) p t1(1) load32_ok [OF c4] by (rule refl)
  show ?case
  proof (cases "?w = ?v")
    case True
    have "agree s ?p (unat c) 4" by (rule load32_agree [OF in4(1) c4]) (use True in simp)
    moreover have "?i < 16" using k assms(3) by simp
    ultimately have "startup_found s ip (4 * j + 4) (table1, Some (?i, unat c))"
      using c(2) t1(2) by (simp add: startup_found_def add.assoc)
    then show ?thesis unfolding run if_P [OF True] by blast
  next
    case False
    have "drop_bit 8 data = drop_bit (8 * Suc k) (le_word (take 8 (drop (ip + 4 * j) s)) :: u64)"
      using Suc.prems(3) by simp
    from Suc.hyps(1) [OF _ _ _ this, of table1] show ?thesis
      unfolding run if_not_P [OF False] using Suc.hyps(2) k t1(2) by simp
  qed
qed

lemma startup_rows_ok:
  assumes "table_ok table (ip + 4 * j)" and "j \<le> 4" and n: "ip + 28 \<le> length s" "length s \<le> 65536" and "0 < ip"
    and "data = le_word (take 8 (drop (ip + 4 * j) s))"
  shows "\<exists>r. startup_rows [j..<4] s ip data table = Some r \<and> startup_found s ip 16 r"
  using assms(1,2,6)
proof (induction "4 - j" arbitrary: j table data)
  case 0
  then have "j = 4" by simp
  then show ?case using 0 by (simp add: startup_found_def)
next
  case (Suc x)
  then have j: "j < 4" by simp
  have up: "[j..<4] = j # [Suc j..<4]" "[0, 1, 2, 3] = [0..<4 :: nat]" using j by (simp_all add: upt_conv_Cons)
  have "table_ok table (ip + 4 * j + 0)" "data = drop_bit (8 * 0) (le_word (take 8 (drop (ip + 4 * j) s)))" "ip + 24 \<le> length s"
    using Suc.prems n by simp_all
  from startup_row_ok [OF this(1) _ j this(3) n(2) assms(5) this(2)] obtain table1 r where
    r: "startup_row [0..<4] s ip j data table = Some (table1, r)" "startup_found s ip (4 * j + 4) (table1, r)" by auto
  have in8: "ip + 4 * j + 4 + 8 \<le> length s" using j n by simp
  show ?case
  proof (cases r)
    case (Some y)
    then show ?thesis unfolding up startup_rows.simps using r by (simp add: startup_found_def split: prod.splits)
  next
    case None
    have e: "ip + 4 * j + 4 = ip + 4 * Suc j" by simp
    have run: "startup_rows [j..<4] s ip data table = startup_rows [Suc j..<4] s ip (le_word (take 8 (drop (ip + 4 * Suc j) s))) table1"
      unfolding up startup_rows.simps r(1) bind.bind_lunit prod.case None option.case load64_ok [OF in8] unfolding e by (rule refl)
    have t1: "table_ok table1 (ip + 4 * Suc j)" using r(2) None by (simp add: startup_found_def add.assoc add.commute)
    show ?thesis unfolding run by (rule Suc.hyps(1)) (use Suc.hyps(2) j t1 in auto)
  qed
qed

lemma compress_from_ok:
  assumes "table_ok table ip" and "0 < ip" and "ip \<le> ilimit" and n: "ilimit + 15 = length s" "length s \<le> 65536" and room: "block_room s m op"
  shows "\<exists>m' op' a. compress_from s ilimit m op table ip = Some (m', op', a) \<and> coded s m op 0 a m' op'"
proof -
  have sk: "32 \<le> unat (32 :: u32)" "unat (32 :: u32) \<le> 32 + ip" by simp_all
  from find_match_ok [OF assms(1-3) n sk] obtain table1 r where
    f: "find_match s ilimit table ip 32 = Some (table1, r)" "case r of None \<Rightarrow> True
      | Some (ip', c) \<Rightarrow> ip \<le> ip' \<and> ip' < ilimit \<and> c < ip' \<and> agree s ip' c 4 \<and> table_ok table1 (ip' + 1)" by blast
  have start: "coded s m op 0 0 m op" using room by (intro coded_start) (simp add: block_room_def)
  show ?thesis
  proof (cases r)
    case None
    then show ?thesis using f(1) start by (simp add: compress_from_def)
  next
    case (Some y)
    obtain ip1 c where y: "y = (ip1, c)" by (cases y)
    then have f1: "0 < ip1" "ip1 < ilimit" "c < ip1" "agree s ip1 c 4" "table_ok table1 (ip1 + 1)" using f(2) Some assms(2) by auto
    have "0 + ip1 \<le> length s" using f1 n by simp
    from coded_literal [OF start f1(1) this n(2) room] obtain m1 op1 where
      m1: "snappy_emit_literal m op s 0 ip1 = Some (m1, op1)" "coded s m op 67 ip1 m1 op1" by auto
    have "at_match s m op m1 op1 table1 ip1 c" unfolding at_match_def using m1(2) f1 n by simp
    from compress_matches_ok [OF this n room] show ?thesis using f(1) Some y m1(1) f1(1) by (simp add: compress_from_def)
  qed
qed

lemma first_literal:
  assumes "i < 16" and "32 \<le> length s" and room: "block_room s m op"
  shows "\<exists>m1 m2. wr m op (of_nat (i * 4)) = Some m1 \<and> copy128 s 0 m1 (op + 1) = Some m2 \<and> coded s m op 67 (1 + i) m2 (op + i + 2)"
proof -
  define tg :: u8 where "tg = of_nat (i * 4)"
  have tg: "unat tg = i * 4" unfolding tg_def by (rule unat_small(1)) (use assms(1) in simp)
  have room2: "op + length s + 24 \<le> length m" using room by (simp add: block_room_def)
  obtain m1 where m1: "wr m op tg = Some m1" "emitted m op m1 (op + 1) [tg]"
    by (rule emitted_wr [of op m]) (use room2 in auto)
  let ?b = "take 16 s"
  have "rd_bytes s 0 16 = Some ?b" using assms(2) by (simp add: rd_bytes_def)
  moreover obtain m2 where m2: "wr_bytes m1 (op + 1) ?b = Some m2" "emitted m1 (op + 1) m2 (op + 1 + (i + 1)) (take (i + 1) ?b)"
    by (rule emitted_write [of "op + 1" ?b m1 "i + 1"]) (use room2 assms m1 in \<open>auto simp: emitted_length\<close>)
  ultimately have run: "copy128 s 0 m1 (op + 1) = Some m2" by (simp add: copy128_eq)
  have tk: "take (i + 1) ?b = take (1 + i) s" using assms(1) by (simp add: min_def)
  have "length (take (1 + i) s) = i + 1" using assms by simp
  then have "parse_element ([tg] @ take (1 + i) s) = Some (Literal (take (1 + i) s), [])"
    using assms by (simp add: Let_def tg take_literal_def)
  moreover have "take (1 + i) s \<noteq> []" using assms(2) by auto
  ultimately have "\<forall>out. snappy_elements out ([tg] @ take (1 + i) s) = Some (out @ take (1 + i) s)"
    using elements_one_literal by blast
  moreover have "emitted m op m2 (op + i + 2) ([tg] @ take (1 + i) s)"
    using emitted_trans [OF m1(2) m2(2)] unfolding tk by simp
  moreover have "64 * length ([tg] @ take (1 + i) s) \<le> 65 * (1 + i) + 67" using assms by simp
  moreover have "1 + i \<le> length s" using assms by simp
  ultimately have "coded s m op 67 (1 + i) m2 (op + i + 2)" unfolding coded_def by blast
  then show ?thesis using m1(1) run by (auto simp: tg_def)
qed

lemma replicate_table_ok: "0 < b \<Longrightarrow> table_ok (replicate SNAPPY_HASH_SIZE 0) b"
  by (simp add: table_ok_def)

lemma compress_block_ok:
  assumes n: "length s \<le> 65536" and room: "block_room s m op"
  shows "\<exists>m' op'. snappy_compress_block s m op = Some (m', op') \<and> coded s m op 67 (length s) m' op'"
proof -
  have start: "coded s m op 0 0 m op" using room by (intro coded_start) (simp add: block_room_def)
  consider (empty) "length s = 0" | (short) "0 < length s" "length s < 15" | (long) "15 \<le> length s" by linarith
  then show ?thesis
  proof cases
    case empty
    then show ?thesis using coded_mono [OF start, of 67] by (simp add: snappy_compress_block_def)
  next
    case short
    then show ?thesis using coded_literal [OF start short(1) _ n room] by (simp add: snappy_compress_block_def)
  next
    case long
    let ?l = "length s - 15" and ?v = "le_word (take 4 (drop 0 s)) :: u32"
    have l: "?l + 15 = length s" using long by simp
    have v: "load32 s 0 = Some ?v" by (rule load32_ok) (use long in simp)
    have t0: "table_ok (replicate SNAPPY_HASH_SIZE 0) 1" by (rule replicate_table_ok) simp
    obtain table where t: "wr (replicate SNAPPY_HASH_SIZE 0) (snappy_hash ?v) 0 = Some table" "table_ok table 1"
      using table_write [OF t0 order.refl, of 0 ?v] by auto
    define mid where "mid = (if ?l \<ge> 17 then do {
             data \<leftarrow> load64 s 1;
             (table1, r) \<leftarrow> startup_rows [0, 1, 2, 3] s 1 data table;
             (case r of None \<Rightarrow> compress_from s ?l m op table1 17
              | Some (i, candidate) \<Rightarrow> do {
                  m1 \<leftarrow> wr m op (of_nat (i * 4));
                  m2 \<leftarrow> copy128 s 0 m1 (op + 1);
                  compress_matches s ?l m2 (op + i + 2) table1 (1 + i) candidate
                })
           } else compress_from s ?l m op table 1)"
    have "\<exists>m1 op1 a. mid = Some (m1, op1, a) \<and> coded s m op 0 a m1 op1"
    proof (cases "?l \<ge> 17")
      case False
      have "\<exists>m1 op1 a. compress_from s ?l m op table 1 = Some (m1, op1, a) \<and> coded s m op 0 a m1 op1"
      proof (cases "1 \<le> ?l")
        case True
        then show ?thesis by (intro compress_from_ok t l n room) auto
      next
        case False
        then have "?l = 0" by simp
        have v1: "load32 s 1 = Some (le_word (take 4 (drop 1 s)))" by (rule load32_ok) (use long in simp)
        have "unat (drop_bit 5 (32 :: u32)) = 1" by simp
        then have "find_match s ?l table 1 32 = Some (table, None)"
          using v1 \<open>?l = 0\<close> by (subst find_match.simps) (simp add: Let_def)
        then show ?thesis using start by (simp add: compress_from_def)
      qed
      then show ?thesis unfolding mid_def if_not_P [OF False] .
    next
      case True
      let ?d = "le_word (take 8 (drop 1 s)) :: u64"
      have d: "load64 s 1 = Some ?d" by (rule load64_ok) (use True in simp)
      have "1 + 28 \<le> length s" "?d = le_word (take 8 (drop (1 + 4 * 0) s))" "table_ok table (1 + 4 * 0)" using True t by simp_all
      from startup_rows_ok [OF this(3) _ this(1) n _ this(2)] obtain table1 r where
        r: "startup_rows [0..<4] s 1 ?d table = Some (table1, r)" "startup_found s 1 16 (table1, r)" by auto
      have up: "[0, 1, 2, 3] = [0..<4 :: nat]" by (simp add: upt_conv_Cons)
      have run: "mid = (case r of None \<Rightarrow> compress_from s ?l m op table1 17
              | Some (i, candidate) \<Rightarrow> do {
                  m1 \<leftarrow> wr m op (of_nat (i * 4));
                  m2 \<leftarrow> copy128 s 0 m1 (op + 1);
                  compress_matches s ?l m2 (op + i + 2) table1 (1 + i) candidate
                })"
        unfolding mid_def if_P [OF True] d bind.bind_lunit up r(1) prod.case by (rule refl)
      show ?thesis
      proof (cases r)
        case None
        then have "table_ok table1 17" using r(2) by (simp add: startup_found_def)
        then show ?thesis unfolding run None option.case by (intro compress_from_ok l n room) (use True in auto)
      next
        case (Some y)
        obtain i c where y: "y = (i, c)" by (cases y)
        then have f: "i < 16" "c < 1 + i" "agree s (1 + i) c 4" "table_ok table1 (1 + i + 1)"
          using r(2) Some by (auto simp: startup_found_def)
        have "32 \<le> length s" using True by simp
        from first_literal [OF f(1) this room] obtain m1 m2 where
          m: "wr m op (of_nat (i * 4)) = Some m1" "copy128 s 0 m1 (op + 1) = Some m2" "coded s m op 67 (1 + i) m2 (op + i + 2)" by blast
        have "at_match s m op m2 (op + i + 2) table1 (1 + i) c" unfolding at_match_def using m(3) f True by simp
        from compress_matches_ok [OF this l n room] show ?thesis
          unfolding run Some y option.case prod.case m(1,2) bind.bind_lunit .
      qed
    qed
    then obtain m1 op1 a where mid: "mid = Some (m1, op1, a)" "coded s m op 0 a m1 op1" by blast
    have run: "snappy_compress_block s m op = (if a < length s then snappy_emit_literal m1 op1 s a (length s - a) else Some (m1, op1))"
      unfolding snappy_compress_block_def Let_def v bind.bind_lunit t(1) mid_def [symmetric] mid(1) prod.case using long by auto
    show ?thesis
    proof (cases "a < length s")
      case True
      then have a: "0 < length s - a" "a + (length s - a) \<le> length s" "a + (length s - a) = length s" by auto
      from coded_literal [OF mid(2) a(1,2) n room] show ?thesis unfolding run if_P [OF True] a(3) .
    next
      case False
      moreover have "a \<le> length s" using mid(2) by (auto simp: coded_def)
      ultimately have "a = length s" by simp
      then show ?thesis unfolding run using coded_mono [OF mid(2), of 67] by simp
    qed
  qed
qed

section \<open>The length\<close>

fun varint_bytes :: "nat \<Rightarrow> u32 \<Rightarrow> u8 list" where
  "varint_bytes 0 v = [ucast v]"
| "varint_bytes (Suc k) v = (if v \<ge> 0x80 then ucast (v OR 0x80) # varint_bytes k (drop_bit 7 v) else [ucast v])"

lemma varint_bytes_length: "0 < length (varint_bytes k v)" "length (varint_bytes k v) \<le> k + 1"
  by (induction k arbitrary: v) auto

lemma write_varint_ok:
  assumes "unat v < 2 ^ (7 * (k + 1))" and "op + k < length m"
  shows "\<exists>m'. snappy_write_varint m op v = Some (m', op + length (varint_bytes k v)) \<and>
    emitted m op m' (op + length (varint_bytes k v)) (varint_bytes k v)"
  using assms
proof (induction k arbitrary: v op m)
  case 0
  obtain m' where m': "wr m op (ucast v) = Some m'" "emitted m op m' (op + 1) [ucast v]"
    by (rule emitted_wr [of op m]) (use 0 in auto)
  have "\<not> v \<ge> 0x80" using 0 by (simp add: word_le_nat_alt)
  then show ?case using m' by (subst snappy_write_varint.simps) simp
next
  case (Suc k)
  show ?case
  proof (cases "v \<ge> 0x80")
    case False
    obtain m' where m': "wr m op (ucast v) = Some m'" "emitted m op m' (op + 1) [ucast v]"
      by (rule emitted_wr [of op m]) (use Suc in auto)
    then show ?thesis using False by (subst snappy_write_varint.simps) simp
  next
    case True
    obtain m1 where m1: "wr m op (ucast (v OR 0x80)) = Some m1" "emitted m op m1 (op + 1) [ucast (v OR 0x80)]"
      by (rule emitted_wr [of op m]) (use Suc in auto)
    have "(2 :: nat) ^ (7 * (Suc k + 1)) = 2 ^ (7 * (k + 1)) * 2 ^ 7" by (simp only: power_add [symmetric]) simp
    then have "unat v < 2 ^ (7 * (k + 1)) * 2 ^ 7" using Suc.prems(1) by simp
    then have "unat (drop_bit 7 v) < 2 ^ (7 * (k + 1))"
      by (simp add: drop_bit_eq_div unat_div_distrib less_mult_imp_div_less)
    moreover have "op + 1 + k < length m1" using Suc.prems(2) m1(2) by (simp add: emitted_length)
    ultimately obtain m2 where m2: "snappy_write_varint m1 (op + 1) (drop_bit 7 v) = Some (m2, op + 1 + length (varint_bytes k (drop_bit 7 v)))"
      "emitted m1 (op + 1) m2 (op + 1 + length (varint_bytes k (drop_bit 7 v))) (varint_bytes k (drop_bit 7 v))"
      using Suc.IH by blast
    have "snappy_write_varint m op v = Some (m2, op + 1 + length (varint_bytes k (drop_bit 7 v)))"
      using True m1(1) m2(1) by (subst snappy_write_varint.simps) simp
    then show ?thesis using True emitted_trans [OF m1(2) m2(2)] by simp
  qed
qed

lemma last_word: "(ucast (ucast x AND 0x7F :: u8) :: u32) = take_bit 7 x"
proof -
  have m: "(0x7F :: u8) = mask 7" by (simp add: mask_eq_exp_minus_1)
  show ?thesis unfolding m by (rule bit_word_eqI) (auto simp: bit_simps)
qed

lemma group_word: "(ucast (ucast (x OR 0x80) AND 0x7F :: u8) :: u32) = take_bit 7 (x :: u32)"
proof -
  have "take_bit 7 (x OR 0x80) = take_bit 7 x OR take_bit 7 (0x80 :: u32)" by (rule take_bit_or)
  also have "\<dots> = take_bit 7 x" by simp
  finally show ?thesis unfolding last_word .
qed

lemma group_byte: "\<not> (ucast (x OR 0x80 :: u32) :: u8) < 128"
proof -
  have m: "(0x80 :: u32) = push_bit 7 1" by simp
  have "bit (ucast (x OR 0x80) :: u8) 7" unfolding m by (simp add: bit_simps)
  moreover have "bit (b :: u8) 7 \<Longrightarrow> 128 \<le> unat b" for b
  proof (rule ccontr)
    assume b: "bit b 7" "\<not> 128 \<le> unat b"
    then have "unat b div 2 ^ 7 = 0" by simp
    moreover have "bit (unat b) 7" using b(1) by (simp add: bit_unsigned_iff)
    ultimately show False by (simp only: bit_iff_odd) simp
  qed
  ultimately show ?thesis by (simp add: word_less_nat_alt not_less)
qed

lemma last_byte:
  assumes "x < (b :: u32)" and "unat b \<le> 128"
  shows "(ucast x :: u8) < ucast b" and "take_bit 7 x = x"
proof -
  have "unat x < unat b" using assms(1) by (simp add: word_less_nat_alt)
  then have x: "unat x < 128" using assms(2) by simp
  have "unat (ucast x :: u8) = unat x" "unat (ucast b :: u8) = unat b"
    using x assms(2) by (simp_all add: unsigned_ucast_eq take_bit_nat_eq_self)
  then show "(ucast x :: u8) < ucast b" using \<open>unat x < unat b\<close> by (simp add: word_less_nat_alt)
  show "take_bit 7 x = x" using x by (intro fits_width) simp
qed

lemma join_groups:
  "take_bit n v OR push_bit n (take_bit 7 (drop_bit n v)) = take_bit (n + 7) (v :: u32)"
  "take_bit n v OR push_bit n (drop_bit n v) = v"
proof -
  show "take_bit n v OR push_bit n (take_bit 7 (drop_bit n v)) = take_bit (n + 7) v"
    by (rule bit_word_eqI) (auto simp: bit_simps)
  show "take_bit n v OR push_bit n (drop_bit n v) = v"
  proof (rule bit_word_eqI)
    fix k assume "k < LENGTH(32)"
    then show "bit (take_bit n v OR push_bit n (drop_bit n v)) k = bit v k" by (cases "k < n") (auto simp: bit_simps)
  qed
qed

lemma last_small: "x < (0x80 :: u32) \<Longrightarrow> (ucast x :: u8) < 128 \<and> take_bit 7 x = x"
  using last_byte [of x "0x80"] by simp

lemma read_written:
  "snappy_read_varint (varint_bytes 4 v @ rest) 0 (length (varint_bytes 4 v @ rest)) = Some (Some (v, length (varint_bytes 4 v)))"
proof -
  have j: "take_bit 7 v OR push_bit 7 (take_bit 7 (drop_bit 7 v)) = take_bit 14 v"
    "take_bit 14 v OR push_bit 14 (take_bit 7 (drop_bit 14 v)) = take_bit 21 v"
    "take_bit 21 v OR push_bit 21 (take_bit 7 (drop_bit 21 v)) = take_bit 28 v"
    using join_groups(1) [of 7 v] join_groups(1) [of 14 v] join_groups(1) [of 21 v] by simp_all
  have top: "drop_bit 28 v < 16"
  proof -
    have "unat v < 2 ^ 4 * 2 ^ 28" using unsigned_less [of v] by simp
    then have "unat v div 2 ^ 28 < 2 ^ 4" by (simp add: less_mult_imp_div_less)
    then show ?thesis by (simp add: word_less_nat_alt drop_bit_eq_div unat_div_distrib)
  qed
  have top8: "(ucast (drop_bit 28 v) :: u8) < 16" "take_bit 7 (drop_bit 28 v) = drop_bit 28 v"
    using last_byte [OF top] by simp_all
  have four: "(4 :: nat) = Suc (Suc (Suc (Suc 0)))" by simp
  consider "v < 0x80" | "\<not> v < 0x80" "drop_bit 7 v < 0x80" | "\<not> v < 0x80" "\<not> drop_bit 7 v < 0x80" "drop_bit 14 v < 0x80"
    | "\<not> v < 0x80" "\<not> drop_bit 7 v < 0x80" "\<not> drop_bit 14 v < 0x80" "drop_bit 21 v < 0x80"
    | "\<not> v < 0x80" "\<not> drop_bit 7 v < 0x80" "\<not> drop_bit 14 v < 0x80" "\<not> drop_bit 21 v < 0x80" by blast
  then show ?thesis
  proof cases
    case 1
    then have "varint_bytes 4 v = [ucast v]" unfolding four by (simp add: not_le)
    then show ?thesis using last_small [OF 1] by (simp add: snappy_read_varint_def Let_def last_word)
  next
    case 2
    then have b: "varint_bytes 4 v = [ucast (v OR 0x80), ucast (drop_bit 7 v)]" unfolding four by (simp add: not_le not_less)
    show ?thesis using last_small [OF 2(2)] join_groups(2) [of 7 v] unfolding b
      by (simp add: snappy_read_varint_def Let_def last_word group_word group_byte)
  next
    case 3
    then have b: "varint_bytes 4 v = [ucast (v OR 0x80), ucast (drop_bit 7 v OR 0x80), ucast (drop_bit 14 v)]"
      unfolding four by (simp add: not_le not_less)
    show ?thesis using last_small [OF 3(3)] join_groups(2) [of 14 v] unfolding b
      by (simp add: snappy_read_varint_def Let_def last_word group_word group_byte j)
  next
    case 4
    then have b: "varint_bytes 4 v = [ucast (v OR 0x80), ucast (drop_bit 7 v OR 0x80), ucast (drop_bit 14 v OR 0x80), ucast (drop_bit 21 v)]"
      unfolding four by (simp add: not_le not_less)
    show ?thesis using last_small [OF 4(4)] join_groups(2) [of 21 v] unfolding b
      by (simp add: snappy_read_varint_def Let_def last_word group_word group_byte j)
  next
    case 5
    then have b: "varint_bytes 4 v = [ucast (v OR 0x80), ucast (drop_bit 7 v OR 0x80), ucast (drop_bit 14 v OR 0x80),
        ucast (drop_bit 21 v OR 0x80), ucast (drop_bit 28 v)]"
      unfolding four by (simp add: not_le not_less)
    show ?thesis using top8 join_groups(2) [of 28 v] unfolding b
      by (simp add: snappy_read_varint_def Let_def last_word group_word group_byte j)
  qed
qed

section \<open>The whole stream\<close>

lemma compress_blocks_ok:
  assumes "emitted m0 op0 m op bs" and "snappy_elements [] bs = Some (take pos s)" and "64 * length bs \<le> 66 * pos"
    and "pos \<le> length s" and room: "op0 + 27 + length s + length s div 6 \<le> length m0"
  shows "\<exists>m' op' bs'. compress_blocks s pos m op = Some (m', op') \<and> emitted m0 op0 m' op' bs' \<and>
    snappy_elements [] bs' = Some s \<and> 64 * length bs' \<le> 66 * length s + 67"
  using assms(1-4)
proof (induction "length s - pos" arbitrary: pos m op bs rule: less_induct)
  case less
  show ?case
  proof (cases "pos < length s")
    case False
    then have "compress_blocks s pos m op = Some (m, op)" by (subst compress_blocks.simps) simp
    moreover have "pos = length s" using False less.prems(4) by simp
    ultimately show ?thesis using less.prems by fastforce
  next
    case True
    define b where "b = (if length s - pos > SNAPPY_BLOCK_SIZE then SNAPPY_BLOCK_SIZE else length s - pos)"
    let ?s = "take b (drop pos s)"
    have b: "0 < b" "b \<le> 65536" "pos + b \<le> length s" "length ?s = b" "b = 65536 \<or> pos + b = length s"
      using True by (auto simp: b_def SNAPPY_BLOCK_SIZE_def)
    have op: "op = op0 + length bs" "length m = length m0" using less.prems(1) by (simp_all add: emitted_def)
    have div: "6 * (length s div 6) + 5 \<ge> length s" "64 * (b div 64) \<le> b" by presburger+
    have "block_room ?s m op"
      unfolding block_room_def b(4) op using less.prems(3) room b(3) div by linarith
    then obtain m1 op1 where c: "snappy_compress_block ?s m op = Some (m1, op1)" "coded ?s m op 67 b m1 op1"
      using compress_block_ok [of ?s m op] b(2,4) by auto
    then obtain b1 where b1: "emitted m op m1 op1 b1" "\<forall>out. snappy_elements out b1 = Some (out @ take b ?s)" "64 * length b1 \<le> 65 * b + 67"
      by (auto simp: coded_def)
    have e: "emitted m0 op0 m1 op1 (bs @ b1)" by (rule emitted_trans [OF less.prems(1) b1(1)])
    have el: "snappy_elements [] (bs @ b1) = Some (take (pos + b) s)"
      using less.prems(2) b1(2) by (simp add: elements_append take_add)
    have run: "compress_blocks s pos m op = compress_blocks s (pos + b) m1 op1"
      using True c(1) by (subst compress_blocks.simps) (simp add: b_def Let_def)
    show ?thesis
    proof (cases "pos + b = length s")
      case fin: True
      have "compress_blocks s (pos + b) m1 op1 = Some (m1, op1)" using fin by (subst compress_blocks.simps) simp
      moreover have "64 * length (bs @ b1) \<le> 66 * length s + 67" using less.prems(3) b1(3) fin by simp
      ultimately show ?thesis using run e el fin by auto
    next
      case False
      then have "64 * length (bs @ b1) \<le> 66 * (pos + b)" using less.prems(3) b1(3) b(5) by simp
      from less.hyps [OF _ e el this b(3)] show ?thesis using run b(1) True by simp
    qed
  qed
qed

lemma compress_run:
  assumes n: "length src < 2 ^ 32" and cap: "carquet_snappy_compress_bound (length src) \<le> cap" "cap \<le> length dst"
  shows "\<exists>dst' bs. carquet_snappy_compress (Some src) (length src) (Some dst) cap = Some (Inr (dst', length bs)) \<and>
    take (length bs) dst' = bs \<and> length dst' = length dst \<and> bs \<noteq> [] \<and> length bs \<le> length src + length src div 32 + 7 \<and>
    (\<forall>cap'. length src \<le> cap' \<longrightarrow> read_stream cap' bs = Some src)"
proof -
  let ?n = "length src"
  let ?v = "of_nat ?n :: u32" and ?h = "varint_bytes 4 (of_nat (length src))"
  have v: "unat ?v = ?n" by (rule unat_small) (use n in simp)
  have h: "0 < length ?h" "length ?h \<le> 5" using varint_bytes_length [of 4 ?v] by auto
  have bound: "carquet_snappy_compress_bound ?n = 32 + ?n + ?n div 6"
    using n by (simp add: carquet_snappy_compress_bound_def sz_id)
  have "unat ?v < 2 ^ (7 * (4 + 1))" using v n by simp
  moreover have "0 + 4 < length dst" using bound cap by simp
  ultimately obtain m1 where m1: "snappy_write_varint dst 0 ?v = Some (m1, length ?h)" "emitted dst 0 m1 (length ?h) ?h"
    using write_varint_ok [of ?v 4 0 dst] by auto
  have l1: "length m1 = length dst" "length ?h \<le> length m1" using m1(2) by (auto simp: emitted_def)
  have room: "length ?h + 27 + ?n + ?n div 6 \<le> length m1" using bound cap h l1 by simp
  obtain m2 op2 b where c: "compress_blocks src 0 m1 (length ?h) = Some (m2, op2)" "emitted m1 (length ?h) m2 op2 b"
    "snappy_elements [] b = Some src" "64 * length b \<le> 66 * ?n + 67"
    using compress_blocks_ok [OF emitted_refl [OF l1(2)], of 0 src] room by auto
  let ?bs = "?h @ b"
  have e: "emitted dst 0 m2 op2 ?bs" by (rule emitted_trans [OF m1(2) c(2)])
  then have op2: "op2 = length ?bs" "take (length ?bs) m2 = ?bs" "length m2 = length dst" unfolding emitted_def by auto
  have run: "carquet_snappy_compress (Some src) ?n (Some dst) cap = Some (Inr (m2, length ?bs))"
  proof (cases "?n = 0")
    case True
    then have "compress_blocks src 0 m1 (length ?h) = Some (m1, length ?h)" by (subst compress_blocks.simps) simp
    then have "m2 = m1" "op2 = length ?h" using c(1) by auto
    then show ?thesis using True m1(1) cap(1) op2(1) by (simp add: carquet_snappy_compress_def)
  next
    case False
    then show ?thesis using m1(1) c(1) cap(1) op2(1) by (auto simp: carquet_snappy_compress_def)
  qed
  have "read_stream cap' ?bs = Some src" if "?n \<le> cap'" for cap'
    unfolding read_stream_def read_written using that elements_format [OF c(3)] v by simp
  moreover have "length ?bs \<le> ?n + ?n div 32 + 7"
  proof -
    have "32 * (?n div 32) + 31 \<ge> ?n" by presburger
    then show ?thesis using c(4) h(2) by simp
  qed
  ultimately show ?thesis using run op2 h(1) by (intro exI [of _ m2] exI [of _ ?bs]) auto
qed

text \<open>C10: Whatever the bytes, fewer than 2^32, compression succeeds when the output has the bound's number of bytes, stays within it,
  adds at most one byte in 32 and seven, and the vector build decompresses the result to the same bytes.\<close>

theorem snappy_roundtrip:
  assumes "length src < 2 ^ 32" and "carquet_snappy_compress_bound (length src) \<le> cap" and "cap \<le> length dst"
    and "length src \<le> cap'" and "cap' \<le> length dst2"
  shows "\<exists>dst' n out. carquet_snappy_compress (Some src) (length src) (Some dst) cap = Some (Inr (dst', n)) \<and>
    length dst' = length dst \<and> n \<le> length src + length src div 32 + 7 \<and>
    carquet_snappy_decompress True (Some (take n dst')) n (Some dst2) cap' = Some (Inr (out, length src)) \<and>
    take (length src) out = src"
proof -
  from compress_run [OF assms(1-3)] obtain dst' bs where c:
    "carquet_snappy_compress (Some src) (length src) (Some dst) cap = Some (Inr (dst', length bs))" "take (length bs) dst' = bs"
    "length dst' = length dst" "bs \<noteq> []" "length bs \<le> length src + length src div 32 + 7" "read_stream cap' bs = Some src"
    using assms(4) by blast
  from decompress_run [OF assms(5) c(4), of True] c(6) obtain out where
    "carquet_snappy_decompress True (Some bs) (length bs) (Some dst2) cap' = Some (Inr (out, length src))" "take (length src) out = src"
    by auto
  then show ?thesis using c by metis
qed

theorem snappy_roundtrip_witness:
  "\<exists>dst' n out. carquet_snappy_compress (Some [1, 2, 3, 4]) (length [1, 2, 3, 4 :: u8]) (Some (replicate 40 0)) 40 = Some (Inr (dst', n)) \<and>
    length dst' = length (replicate 40 (0 :: u8)) \<and> n \<le> length [1, 2, 3, 4 :: u8] + length [1, 2, 3, 4 :: u8] div 32 + 7 \<and>
    carquet_snappy_decompress True (Some (take n dst')) n (Some [0, 0, 0, 0]) 4 = Some (Inr (out, length [1, 2, 3, 4 :: u8])) \<and>
    take (length [1, 2, 3, 4 :: u8]) out = [1, 2, 3, 4]"
  by (rule snappy_roundtrip) (simp_all add: carquet_snappy_compress_bound_def sz_def)

text \<open>C14: The match finder's comparison of eight bytes at a time returns the length of the longest common run of the
  two places up to the limit, as a comparison byte by byte would.\<close>

theorem fast_match_length_exact:
  assumes "q \<le> p" and "p \<le> limit" and "limit \<le> length s"
  shows "\<exists>k. fast_match_length s p q limit = Some k \<and> p + k \<le> limit \<and> take k (drop p s) = take k (drop q s) \<and>
    (p + k = limit \<or> s ! (p + k) \<noteq> s ! (q + k))"
proof -
  from match_length_ok [OF assms] obtain k where k: "fast_match_length s p q limit = Some k" "p + k \<le> limit" "agree s p q k"
    "p + k = limit \<or> s ! (p + k) \<noteq> s ! (q + k)" by blast
  have "take k (drop p s) = take k (drop q s)"
    using k(2,3) assms by (intro nth_equalityI) (auto simp: agree_def)
  then show ?thesis using k by blast
qed

theorem fast_match_length_exact_witness:
  "\<exists>k. fast_match_length [1, 2, 3, 1, 2, 4] 3 0 6 = Some k \<and> 3 + k \<le> 6 \<and>
    take k (drop 3 [1, 2, 3, 1, 2, 4 :: u8]) = take k (drop 0 [1, 2, 3, 1, 2, 4]) \<and>
    (3 + k = 6 \<or> [1, 2, 3, 1, 2, 4 :: u8] ! (3 + k) \<noteq> [1, 2, 3, 1, 2, 4] ! (0 + k))"
  by (rule fast_match_length_exact) simp_all

end
