(* ===== verification/Snappy_Format.thy ===== *)
theory Snappy_Format
  imports Snappy_Decode Bitpack
begin

text \<open>
  The Snappy format, written from its description and independently of src/compression/snappy.c, and the
  decompressor against it: what the build with byte shuffles makes of any input, and where the portable
  build departs from the format.
\<close>

section \<open>The format\<close>

text \<open>
  The stream as the format describes it: its length in groups of seven bits, low group first, in
  at most five bytes and below \<open>2 ^ 32\<close>; then elements, each a tag byte with its operands. A literal carries
  its length, less one, in the tag or in one to four bytes; a copy carries a length and an offset.
  Everything is a number, nothing wraps around: a literal of \<open>2 ^ 32\<close> bytes is longer than any output.
\<close>

fun base128 :: "u8 list \<Rightarrow> (nat \<times> u8 list) option" where
  "base128 [] = None"
| "base128 (b # bs) =
     (if unat b < 128 then Some (unat b, bs)
      else do { (v, rest) \<leftarrow> base128 bs; Some (unat b mod 128 + 128 * v, rest) })"

definition stream_length :: "u8 list \<Rightarrow> (nat \<times> u8 list) option" where
  "stream_length bs = do {
     (v, rest) \<leftarrow> base128 bs;
     if length bs \<le> length rest + 5 \<and> v < 2 ^ 32 then Some (v, rest) else None
   }"

definition stream_element :: "u8 list \<Rightarrow> (snappy_element \<times> u8 list) option" where
  "stream_element bs =
     (case bs of [] \<Rightarrow> None
      | tag # bs \<Rightarrow>
          let high = unat tag div 4; kind = unat tag mod 4 in
          if kind = 0 then
            (if high < 60 then take_literal (high + 1) bs
             else if length bs < high - 59 then None
             else take_literal (le_nat (take (high - 59) bs) + 1) (drop (high - 59) bs))
          else if kind = 1 then
            (case bs of [] \<Rightarrow> None
             | b # rest \<Rightarrow> Some (Copy (256 * (unat tag div 32) + unat b) (4 + high mod 8), rest))
          else if kind = 2 then
            (if length bs < 2 then None else Some (Copy (le_nat (take 2 bs)) (high + 1), drop 2 bs))
          else (if length bs < 4 then None else Some (Copy (le_nat (take 4 bs)) (high + 1), drop 4 bs)))"

text \<open>One element after another until the input or the \<open>n\<close> bytes of output are complete; both at once.\<close>

definition stream_step :: "nat \<Rightarrow> u8 list \<Rightarrow> u8 list \<Rightarrow> (u8 list \<times> u8 list) option" where
  "stream_step n out bs = do {
     (el, rest) \<leftarrow> stream_element bs;
     out' \<leftarrow> apply_element out el;
     if length out' \<le> n then Some (out', rest) else None
   }"

lemma stream_step_shorter: "stream_step n out bs = Some (out', rest) \<Longrightarrow> length rest < length bs"
  by (auto simp: stream_step_def stream_element_def run_simps take_literal_def Let_def split: if_splits list.splits)

function stream_elements :: "nat \<Rightarrow> u8 list \<Rightarrow> u8 list \<Rightarrow> u8 list option" where
  "stream_elements n out bs =
     (if bs \<noteq> [] \<and> length out < n then
        (case stream_step n out bs of None \<Rightarrow> None | Some (out', rest) \<Rightarrow> stream_elements n out' rest)
      else if bs = [] \<and> length out = n then Some out else None)"
  by pat_completeness auto

termination stream_elements
  by (relation "measure (\<lambda>(n, out, bs). length bs)") (auto dest: stream_step_shorter)

declare stream_elements.simps [simp del, code]

text \<open>What a decoder with room for \<open>cap\<close> bytes makes of a stream; None is a stream it refuses.\<close>

definition snappy_stream :: "nat \<Rightarrow> u8 list \<Rightarrow> u8 list option" where
  "snappy_stream cap bs = do {
     (n, rest) \<leftarrow> stream_length bs;
     if n \<le> cap then stream_elements n [] rest else None
   }"

text \<open>Whether decoding the stream comes to the tag of a literal of \<open>2 ^ 32\<close> bytes.\<close>

definition huge_literal :: "u8 list \<Rightarrow> bool" where
  "huge_literal bs \<longleftrightarrow> take 5 bs = [0xFC, 0xFF, 0xFF, 0xFF, 0xFF]"

function meets_huge :: "nat \<Rightarrow> u8 list \<Rightarrow> u8 list \<Rightarrow> bool" where
  "meets_huge n out bs \<longleftrightarrow> bs \<noteq> [] \<and> length out < n \<and>
     (huge_literal bs \<or> (case stream_step n out bs of None \<Rightarrow> False | Some (out', rest) \<Rightarrow> meets_huge n out' rest))"
  by pat_completeness auto

termination meets_huge
  by (relation "measure (\<lambda>(n, out, bs). length bs)") (auto dest: stream_step_shorter)

declare meets_huge.simps [simp del, code]

definition stream_meets_huge :: "u8 list \<Rightarrow> bool" where
  "stream_meets_huge bs \<longleftrightarrow> (case stream_length bs of None \<Rightarrow> False | Some (n, rest) \<Rightarrow> meets_huge n [] rest)"

section \<open>The length as the code reads it\<close>

lemma or_push_unat:
  assumes "unat r < 2 ^ k" and "unat x * 2 ^ k < 2 ^ 32"
  shows "unat (r OR push_bit k x :: u32) = unat r + 2 ^ k * unat x"
proof -
  have "unat (push_bit k x) = take_bit LENGTH(32) (push_bit k (unat x))" by (rule unsigned_push_bit_eq)
  also have "\<dots> = push_bit k (unat x)" using assms(2) by (intro take_bit_nat_eq_self) (simp add: push_bit_eq_mult)
  finally have p: "unat (push_bit k x) = push_bit k (unat x)" .
  have "take_bit k (unat r) = unat r" using assms(1) by (rule take_bit_nat_eq_self)
  then have small: "bit (unat r) n \<Longrightarrow> n < k" for n by (metis bit_take_bit_iff)
  have "unat r AND push_bit k (unat x) = 0"
    by (intro bit_eqI) (use small leD in \<open>auto simp only: bit_and_iff bit_push_bit_iff bit_0_eq bot_apply bot_bool_def\<close>)
  then have "unat r OR push_bit k (unat x) = unat r + push_bit k (unat x)" by (simp only: disjunctive_add_eq_or)
  then show ?thesis by (simp only: unsigned_or_eq p) (simp add: push_bit_eq_mult mult.commute)
qed

lemma seven_bits: "unat (ucast (b AND 0x7F) :: u32) = unat (b :: u8) mod 128"
proof -
  have m: "(0x7F :: u8) = mask 7" by (simp add: mask_eq_exp_minus_1)
  have "unat (b AND 0x7F) = take_bit 7 (unat b)"
    unfolding m take_bit_eq_mask [symmetric] by (rule unsigned_take_bit_eq)
  moreover have "unat (ucast (b AND 0x7F) :: u32) = unat (b AND 0x7F)"
    using u8_less [of "b AND 0x7F"] by (simp only: unsigned_ucast_eq) (simp add: take_bit_nat_eq_self)
  ultimately show ?thesis by (simp add: take_bit_eq_mod)
qed

lemma add_group:
  assumes "unat r < 2 ^ k" and "k + 7 \<le> 32"
  shows "unat (r OR push_bit k (ucast (b AND 0x7F)) :: u32) = unat r + 2 ^ k * (unat (b :: u8) mod 128)"
    and "unat r + 2 ^ k * (unat b mod 128) < 2 ^ (k + 7)"
proof -
  have "2 ^ k * Suc (unat b mod 128) \<le> (2 :: nat) ^ k * 2 ^ 7" by (intro mult_le_mono) (simp_all add: Suc_le_eq)
  then have le: "2 ^ k + 2 ^ k * (unat b mod 128) \<le> (2 :: nat) ^ (k + 7)" by (simp add: power_add)
  then show "unat r + 2 ^ k * (unat b mod 128) < 2 ^ (k + 7)" using assms(1) by linarith
  have "(2 :: nat) ^ (k + 7) \<le> 2 ^ 32" using assms(2) by (rule power_increasing) simp
  then have "unat b mod 128 * 2 ^ k < 2 ^ 32" using le assms(1) by (simp add: mult.commute)
  then show "unat (r OR push_bit k (ucast (b AND 0x7F)) :: u32) = unat r + 2 ^ k * (unat b mod 128)"
    using or_push_unat [OF assms(1), of "ucast (b AND 0x7F)"] by (simp only: seven_bits)
qed

lemma last_group:
  assumes "unat r < 2 ^ 28" and "unat b < 16"
  shows "unat (r OR push_bit 28 (ucast (b AND 0x7F)) :: u32) = unat r + 2 ^ 28 * unat (b :: u8)"
proof -
  have "unat (ucast (b AND 0x7F) :: u32) = unat b" using assms(2) by (simp only: seven_bits) simp
  moreover from this have "unat (ucast (b AND 0x7F) :: u32) * 2 ^ 28 < 2 ^ 32" using assms(2) by simp
  ultimately show ?thesis using or_push_unat [OF assms(1)] by metis
qed

lemma base128_shorter: "base128 bs = Some (v, rest) \<Longrightarrow> length rest < length bs"
  by (induction bs arbitrary: v rest) (auto simp: run_simps split: if_splits)

text \<open>The code's reading as a recursion over the groups, of which the fifth is the last.\<close>

fun varint_groups :: "nat \<Rightarrow> nat \<Rightarrow> u32 \<Rightarrow> u8 list \<Rightarrow> (u32 \<times> nat) option" where
  "varint_groups j i r [] = None"
| "varint_groups 0 i r (b # bs) =
     (if unat b < 16 then Some (r OR push_bit (7 * i) (ucast (b AND 0x7F)), Suc i) else None)"
| "varint_groups (Suc j) i r (b # bs) =
     (let r' = r OR push_bit (7 * i) (ucast (b AND 0x7F)) in
      if unat b < 128 then Some (r', Suc i) else varint_groups j (Suc i) r' bs)"

lemma read_varint_groups: "snappy_read_varint bs 0 (length bs) = Some (varint_groups 4 0 0 bs)"
proof -
  have n: "(4 :: nat) = Suc (Suc (Suc (Suc 0)))" by simp
  note st = snappy_read_varint_def word_less_nat_alt Let_def
  show ?thesis
  proof (cases bs)
    case b0: (Cons b0 c0)
    show ?thesis
    proof (cases c0)
      case Nil
      then show ?thesis unfolding n by (simp add: b0 st)
    next
      case b1: (Cons b1 c1)
      show ?thesis
      proof (cases c1)
        case Nil
        then show ?thesis unfolding n by (simp add: b0 b1 st)
      next
        case b2: (Cons b2 c2)
        show ?thesis
        proof (cases c2)
          case Nil
          then show ?thesis unfolding n by (simp add: b0 b1 b2 st)
        next
          case b3: (Cons b3 c3)
          show ?thesis unfolding n by (cases c3) (simp_all add: b0 b1 b2 b3 st rd_def)
        qed
      qed
    qed
  qed (simp add: snappy_read_varint_def)
qed

lemma varint_groups_base128:
  assumes "unat r < 2 ^ (7 * i)" and "i + j = 4"
  shows "map_option (\<lambda>(v, k). (unat v, k)) (varint_groups j i r bs) =
    (case base128 bs of None \<Rightarrow> None
     | Some (v, rest) \<Rightarrow>
         if length bs \<le> length rest + Suc j \<and> unat r + 2 ^ (7 * i) * v < 2 ^ 32
         then Some (unat r + 2 ^ (7 * i) * v, i + (length bs - length rest)) else None)"
  using assms
proof (induction j i r bs rule: varint_groups.induct)
  case (2 i r b bs)
  then have i: "i = 4" by simp
  show ?case
  proof (cases "unat b < 16")
    case True
    then show ?thesis using last_group [of r b] 2(1) unsigned_less [where 'a = nat, of "r OR push_bit 28 (ucast (b AND 0x7F))"]
      by (simp add: i)
  next
    case False
    then show ?thesis using base128_shorter [of bs] by (auto simp: i run_simps not_less split: option.splits prod.splits)
  qed
next
  case (3 j i r b bs)
  have "7 * i + 7 \<le> 32" using 3(3) by simp
  note g = add_group [OF 3(2) this, of b]
  show ?case
  proof (cases "unat b < 128")
    case True
    have "(2 :: nat) ^ (7 * i + 7) \<le> 2 ^ 32" using 3(3) by (intro power_increasing) auto
    then show ?thesis using True g by (auto simp: Let_def)
  next
    case False
    let ?r = "r OR push_bit (7 * i) (ucast (b AND 0x7F))"
    have IH: "map_option (\<lambda>(v, k). (unat v, k)) (varint_groups j (Suc i) ?r bs) =
        (case base128 bs of None \<Rightarrow> None
         | Some (v, rest) \<Rightarrow>
             if length bs \<le> length rest + Suc j \<and> unat ?r + 2 ^ (7 * Suc i) * v < 2 ^ 32
             then Some (unat ?r + 2 ^ (7 * Suc i) * v, Suc i + (length bs - length rest)) else None)"
      using 3(1) [OF refl False] 3(3) g by (simp add: add.commute)
    show ?thesis
    proof (cases "base128 bs")
      case None
      then show ?thesis using IH False by (simp add: Let_def)
    next
      case (Some p)
      obtain v rest where p: "p = (v, rest)" by (cases p)
      have "unat ?r + 2 ^ (7 * Suc i) * v = unat r + 2 ^ (7 * i) * (unat b mod 128 + 128 * v)"
        by (simp only: g(1)) (simp add: power_add algebra_simps)
      moreover have "Suc i + (length bs - length rest) = i + (length (b # bs) - length rest)"
        using base128_shorter [of bs v rest] Some p by simp
      moreover have "length rest < length bs" using base128_shorter [of bs v rest] Some p by simp
      ultimately show ?thesis using IH False Some p by (simp add: Let_def)
    qed
  qed
qed simp

lemma read_length:
  "\<exists>r. snappy_read_varint bs 0 (length bs) = Some r \<and> stream_length bs = map_option (\<lambda>(v, k). (unat v, drop k bs)) r"
proof -
  have d: "rest = drop (length bs - length rest) bs" if "base128 bs = Some (v, rest)" for v rest
  proof -
    have "\<exists>xs. bs = xs @ rest"
      using that by (induction bs arbitrary: v) (auto simp: run_simps split: if_splits)
    then show ?thesis by auto
  qed
  have "map_option (\<lambda>(v, k). (unat v, k)) (varint_groups 4 0 0 bs) =
      (case base128 bs of None \<Rightarrow> None
       | Some (v, rest) \<Rightarrow>
           if length bs \<le> length rest + 5 \<and> v < 2 ^ 32 then Some (v, length bs - length rest) else None)"
    using varint_groups_base128 [of 0 0 4 bs] by (cases "base128 bs") auto
  then have "stream_length bs = map_option (\<lambda>(v, k). (unat v, drop k bs)) (varint_groups 4 0 0 bs)"
    using d by (cases "varint_groups 4 0 0 bs") (fastforce simp: stream_length_def split: option.splits if_splits)+
  then show ?thesis by (simp add: read_varint_groups)
qed

section \<open>The elements as the code reads them\<close>

lemma le_word_unat: "length bs \<le> 4 \<Longrightarrow> unat (le_word bs :: u32) = le_nat bs"
proof -
  assume l: "length bs \<le> 4"
  have "le_nat bs < 2 ^ (8 * length bs)" by (rule le_nat_lt)
  also have "\<dots> \<le> 2 ^ 32" using l by (intro power_increasing) simp_all
  finally show ?thesis by (simp add: le_word_of_nat unat_of_nat)
qed

lemma le_word_Suc:
  assumes "length bs \<le> 4" and "bs \<noteq> [0xFF, 0xFF, 0xFF, 0xFF]"
  shows "unat (le_word bs + 1 :: u32) = le_nat bs + 1"
proof -
  have "le_nat bs + 1 < 2 ^ 32"
  proof (cases "length bs = 4")
    case False
    have "le_nat bs < 2 ^ (8 * length bs)" by (rule le_nat_lt)
    also have "\<dots> \<le> 2 ^ 24" using False assms(1) by (intro power_increasing) simp_all
    finally show ?thesis by simp
  next
    case True
    then obtain a b c d where bs: "bs = [a, b, c, d]" by (auto simp: length_Suc_conv numeral_eq_Suc)
    have "unat a \<noteq> 255 \<or> unat b \<noteq> 255 \<or> unat c \<noteq> 255 \<or> unat d \<noteq> 255"
      using assms(2) bs by (auto simp: word_unat_eq_iff)
    moreover have "unat a \<le> 255" "unat b \<le> 255" "unat c \<le> 255" "unat d \<le> 255"
      using u8_less [of a] u8_less [of b] u8_less [of c] u8_less [of d] by simp_all
    ultimately show ?thesis by (simp add: bs) linarith
  qed
  then show ?thesis using le_word_unat [OF assms(1)] by (simp add: unat_word_ariths)
qed

lemma stream_parse:
  assumes "\<not> huge_literal bs"
  shows "parse_element bs = stream_element bs"
proof (cases bs)
  case (Cons tag c)
  let ?n = "unat tag div 4"
  have w: "unat (le_word (take k c) :: u32) = le_nat (take k c)" if "k \<le> 4" for k
    using that by (intro le_word_unat) simp
  have lit: "unat (le_word (take (?n - 59) c) + 1 :: u32) = le_nat (take (?n - 59) c) + 1"
    if "unat tag mod 4 = 0" "60 \<le> ?n" "?n - 59 \<le> length c"
  proof (rule le_word_Suc)
    show "length (take (?n - 59) c) \<le> 4" using u8_less [of tag] by simp
    show "take (?n - 59) c \<noteq> [0xFF, 0xFF, 0xFF, 0xFF]"
    proof
      assume t: "take (?n - 59) c = [0xFF, 0xFF, 0xFF, 0xFF]"
      have "length (take (?n - 59) c) = 4" unfolding t by simp
      then have "?n - 59 = 4" using that(3) by simp
      then have "unat tag = 252" using that(1) by presburger
      then have "tag = 0xFC" by (simp add: word_unat_eq_iff)
      then show False using assms t \<open>?n - 59 = 4\<close> by (simp add: Cons huge_literal_def)
    qed
  qed
  consider "unat tag mod 4 = 0" | "unat tag mod 4 = 1" | "unat tag mod 4 = 2" | "unat tag mod 4 = 3" by linarith
  then show ?thesis
  proof cases
    case 1
    then show ?thesis using lit by (cases "?n < 60"; cases "?n - 59 \<le> length c") (simp_all add: Cons stream_element_def Let_def)
  next
    case 2
    then show ?thesis by (cases c) (simp_all add: Cons stream_element_def Let_def)
  next
    case 3
    then show ?thesis using w [of 2] by (simp add: Cons stream_element_def Let_def)
  next
    case 4
    then show ?thesis using w [of 4] by (simp add: Cons stream_element_def Let_def)
  qed
qed (simp add: stream_element_def)

lemma stream_huge:
  assumes "huge_literal bs" and "n < 2 ^ 32"
  shows "stream_step n out bs = None"
proof -
  obtain c where bs: "bs = [0xFC, 0xFF, 0xFF, 0xFF, 0xFF] @ c"
    using assms(1) unfolding huge_literal_def by (metis append_take_drop_id)
  have "stream_element bs = take_literal (2 ^ 32) c"
    by (simp add: bs stream_element_def)
  then show ?thesis using assms(2) by (auto simp: stream_step_def take_literal_def run_simps)
qed

text \<open>The code's elements are the format's, but for the literal of \<open>2 ^ 32\<close> bytes.\<close>

lemma stream_elements_eq:
  assumes "n < 2 ^ 32"
  shows "stream_elements n out bs = Some x \<Longrightarrow> read_elements n out bs = Some x"
    and "\<not> meets_huge n out bs \<Longrightarrow> read_elements n out bs = stream_elements n out bs"
proof -
  have step: "element_step n out bs = stream_step n out bs" if "\<not> huge_literal bs" for n out bs
    using stream_parse [OF that] by (simp add: element_step_def stream_step_def)
  show "stream_elements n out bs = Some x \<Longrightarrow> read_elements n out bs = Some x"
    using assms
  proof (induction n out bs rule: stream_elements.induct)
    case (1 n out bs)
    show ?case
    proof (cases "bs \<noteq> [] \<and> length out < n")
      case True
      obtain out' rest where s: "stream_step n out bs = Some (out', rest)" "stream_elements n out' rest = Some x"
        using 1(2) True by (subst (asm) stream_elements.simps) (auto split: option.splits)
      have "\<not> huge_literal bs" using s(1) stream_huge [OF _ 1(3)] by auto
      then show ?thesis using step s 1(1) [OF True s(1) refl s(2) 1(3)] True by (subst read_elements.simps) simp
    next
      case False
      then show ?thesis using 1(2) by (subst read_elements.simps, subst (asm) stream_elements.simps) (auto split: if_splits)
    qed
  qed
  show "\<not> meets_huge n out bs \<Longrightarrow> read_elements n out bs = stream_elements n out bs"
    using assms
  proof (induction n out bs rule: stream_elements.induct)
    case (1 n out bs)
    show ?case
    proof (cases "bs \<noteq> [] \<and> length out < n")
      case True
      then have h: "\<not> huge_literal bs"
        "\<And>out' rest. stream_step n out bs = Some (out', rest) \<Longrightarrow> \<not> meets_huge n out' rest"
        using 1(2) by (subst (asm) meets_huge.simps, force)+
      show ?thesis
        using step [OF h(1)] h(2) 1(1) [OF True _ refl _ 1(3)] True
        by (subst read_elements.simps, subst stream_elements.simps) (auto split: option.splits)
    next
      case False
      then show ?thesis by (subst read_elements.simps, subst stream_elements.simps) auto
    qed
  qed
qed

lemma decode_format_stream:
  shows "snappy_stream cap bs = Some x \<Longrightarrow> read_stream cap bs = Some x"
    and "\<not> stream_meets_huge bs \<Longrightarrow> read_stream cap bs = snappy_stream cap bs"
proof -
  obtain r where r: "snappy_read_varint bs 0 (length bs) = Some r"
    "stream_length bs = map_option (\<lambda>(v, k). (unat v, drop k bs)) r" using read_length by blast
  have "unat (v :: u32) < 2 ^ 32" for v using unsigned_less [where 'a = nat, of v] by simp
  note eq = stream_elements_eq [OF this]
  show "snappy_stream cap bs = Some x \<Longrightarrow> read_stream cap bs = Some x"
    using r eq(1) by (auto simp: snappy_stream_def read_stream_def run_simps split: if_splits)
  show "\<not> stream_meets_huge bs \<Longrightarrow> read_stream cap bs = snappy_stream cap bs"
    using r eq(2) by (auto simp: snappy_stream_def read_stream_def stream_meets_huge_def split: option.splits)
qed

section \<open>Properties\<close>

text \<open>C15: The decompressor of the vector build implements the format, whichever of its copy routines it takes.
  A stream of the format that fits the capacity is accepted, and what is stored is what its elements append
  and copy. Any other input is refused with INVALID_COMPRESSED_DATA, with two exceptions: the empty input,
  which is not a stream, is accepted as an empty output, and nothing is claimed of a stream whose
  decoding comes to a literal of \<open>2 ^ 32\<close> bytes, whose length wraps around to 0 in the code.\<close>

theorem snappy_decompress_format:
  assumes "dst_capacity \<le> length dst"
  shows "\<exists>r. carquet_snappy_decompress True (Some src) (length src) (Some dst) dst_capacity = Some r \<and>
    (case snappy_stream dst_capacity src of
       Some out \<Rightarrow> (\<exists>dst'. r = Inr (dst', length out) \<and> take (length out) dst' = out)
     | None \<Rightarrow> if src = [] then r = Inr (dst, 0)
         else \<not> stream_meets_huge src \<longrightarrow> r = Inl CARQUET_ERROR_INVALID_COMPRESSED_DATA)"
proof (cases "src = []")
  case True
  then show ?thesis by (simp add: carquet_snappy_decompress_def snappy_stream_def stream_length_def)
next
  case False
  show ?thesis
    using decompress_run [OF assms False, of True] decode_format_stream [where cap = dst_capacity and bs = src] False
    by (cases "snappy_stream dst_capacity src"; cases "stream_meets_huge src") (auto split: option.splits)
qed

theorem snappy_decompress_format_witness:
  "\<exists>dst'. carquet_snappy_decompress True (Some [7, 8, 1, 2, 3, 1, 3]) 7 (Some (replicate 8 0)) 8 = Some (Inr (dst', 7)) \<and>
    take 7 dst' = [1, 2, 3, 1, 2, 3, 1]"
proof -
  have "snappy_stream 8 [7, 8, 1, 2, 3, 1, 3] = Some [1, 2, 3, 1, 2, 3, 1]"
    by (simp add: snappy_stream_def stream_length_def stream_elements.simps stream_step_def stream_element_def
        take_literal_def copy_from_def upt_rec)
  then show ?thesis using snappy_decompress_format [of 8 "replicate 8 0" "[7, 8, 1, 2, 3, 1, 3]"] by (auto simp: numeral_eq_Suc)
qed

text \<open>A block of 16 bytes: the copy of what was there, and everything before it as it was.\<close>

lemma copy128_block:
  assumes "src + 16 \<le> length m" and "dst + 16 \<le> length m"
  obtains m' where "copy128 m src m dst = Some m'" "length m' = length m" "\<forall>i < dst. m' ! i = m ! i"
    "\<forall>j < 16. m' ! (dst + j) = m ! (src + j)"
proof -
  let ?m = "take dst m @ take 16 (drop src m) @ drop (dst + 16) m"
  have "copy128 m src m dst = Some ?m" using assms by (simp add: copy128_eq rd_bytes_in wr_bytes_in)
  then show thesis using assms by (intro that [of ?m]) (auto simp: nth_append)
qed

lemma copy128_if_later:
  assumes "c \<Longrightarrow> src + 16 \<le> length m" and "c \<Longrightarrow> dst + 16 \<le> length m"
  obtains m' where "copy128_if c m src dst = Some m'" "length m' = length m" "\<forall>i < dst. m' ! i = m ! i"
proof (cases c)
  case True
  show thesis
    by (rule copy128_block [of src m dst]) (use assms True that in \<open>auto simp: copy128_if_def\<close>)
qed (use that in \<open>simp add: copy128_if_def\<close>)

text \<open>C17: A copy of more than its offset, of 8 to 15 bytes, with room behind it, as the portable build does it: of the first
  16 bytes each is the one that stood \<open>off\<close> bytes before it when the copy began, also where that byte is
  itself to be written by the copy. So wherever such a stale byte differs from the byte of the pattern that
  the format repeats there, the result is not what the format says.\<close>

theorem portable_copy_stale:
  assumes "8 \<le> off" and "off < 16" and "off \<le> op" and "off < len" and "len \<le> 64"
    and "op + len + 15 \<le> op_end" and "op_end \<le> length m"
  shows "\<exists>m'. copy_match False m op off len op_end slop = Some m' \<and>
    (\<forall>j < 16. m' ! (op + j) = m ! (op + j - off)) \<and>
    (\<forall>j. off \<le> j \<and> j < len \<and> j < 16 \<and> m ! (op + j - off) \<noteq> m ! (op + j - 2 * off) \<longrightarrow>
       take (op + len) m' \<noteq> copy_from (take op m) off len)"
proof -
  let ?src = "op - off"
  have r: "?src + 16 \<le> length m" "op + 16 \<le> length m" using assms by simp_all
  obtain m1 where m1: "copy128 m ?src m op = Some m1" "length m1 = length m" "\<forall>i < op. m1 ! i = m ! i"
    "\<forall>j < 16. m1 ! (op + j) = m ! (?src + j)" by (rule copy128_block [OF r])
  obtain m2 where m2: "copy128_if (op + 16 < op + len) m1 (?src + 16) (op + 16) = Some m2" "length m2 = length m1"
    "\<forall>i < op + 16. m2 ! i = m1 ! i"
    by (rule copy128_if_later [of "op + 16 < op + len" "?src + 16" m1 "op + 16"]) (use assms m1(2) in simp_all)
  obtain m3 where m3: "copy128_if (op + 32 < op + len) m2 (?src + 32) (op + 32) = Some m3" "length m3 = length m2"
    "\<forall>i < op + 32. m3 ! i = m2 ! i"
    by (rule copy128_if_later [of "op + 32 < op + len" "?src + 32" m2 "op + 32"]) (use assms m1(2) m2(2) in simp_all)
  obtain m4 where m4: "copy128_if (op + 48 < op + len) m3 (?src + 48) (op + 48) = Some m4" "length m4 = length m3"
    "\<forall>i < op + 48. m4 ! i = m3 ! i"
    by (rule copy128_if_later [of "op + 48 < op + len" "?src + 48" m3 "op + 48"]) (use assms m1(2) m2(2) m3(2) in simp_all)
  have run: "copy_match False m op off len op_end slop = Some m4"
    using assms m1(1) m2(1) m3(1) m4(1) by (simp add: copy_match_def incremental_copy_def Let_def)
  have stale: "m4 ! (op + j) = m ! (op + j - off)" if "j < 16" for j
    using that m1(4) m2(3) m3(3) m4(3) assms(3) by simp
  have "take (op + len) m4 \<noteq> copy_from (take op m) off len"
    if "off \<le> j" "j < len" "j < 16" "m ! (op + j - off) \<noteq> m ! (op + j - 2 * off)" for j
  proof
    assume "take (op + len) m4 = copy_from (take op m) off len"
    then have "m4 ! (op + j) = copy_from (take op m) off len ! (op + j)" using that(2) by (metis add_less_cancel_left nth_take)
    also have "\<dots> = m ! (op - off + (j - off))"
    proof -
      have "j mod off = j - off" using that(1,3) assms(1) by (simp add: mod_if)
      moreover have "op - off + (j - off) < op" using that(1,3) assms(1,3) by linarith
      ultimately show ?thesis using that(2) assms r by (simp add: copy_from_def nth_append)
    qed
    finally show False using stale [OF that(3)] that(1,4) assms(3) by (simp add: mult_2)
  qed
  then show ?thesis using run stale by blast
qed

theorem portable_copy_stale_witness:
  "\<exists>m'. copy_match False (replicate 8 7 @ [62, 8, 0, 60, 9, 9, 9, 9] @ replicate 24 9) 8 8 16 40 0 = Some m' \<and>
     take 24 m' \<noteq> replicate 24 7"
proof -
  let ?m = "replicate 8 7 @ [62, 8, 0, 60, 9, 9, 9, 9] @ replicate 24 9 :: u8 list"
  have "copy_from (take 8 ?m) 8 16 = replicate 24 7" by code_simp
  moreover have "?m ! (8 + 8 - 8) \<noteq> ?m ! (8 + 8 - 2 * 8)" by code_simp
  moreover have "length ?m = 40" by simp
  ultimately show ?thesis using portable_copy_stale [of 8 8 16 40 ?m 0] by (auto simp: exI [of _ 8])
qed

text \<open>On a stream: 8 bytes, a copy of 16 from 8 back and 16 more bytes are decompressed with status OK, and
  8 bytes of the result are left-overs of the compressed stream.\<close>

lemma portable_stream_stale:
  "carquet_snappy_decompress False (Some ([40, 28] @ replicate 8 7 @ [62, 8, 0, 60] @ replicate 16 9)) 30
     (Some (replicate 40 0)) 40 = Some (Inr (replicate 16 7 @ [62, 8, 0, 60, 9, 9, 9, 9] @ replicate 16 9, 40))"
  by code_simp

end
