(* ===== verification/Hashes.thy ===== *)
theory Hashes
  imports Endian
begin

text \<open>
  Component src/util: the xxHash64 of xxhash.c, which the bloom filters hash their values with,
  and the CRC-32 of crc32.c, the checksum of pages (in the build without zlib, whose function
  the other build calls).

  The pointers \<open>p\<close>, \<open>end\<close> and \<open>limit\<close> are offsets into the data; every read is checked, so that
  a result is also the statement that the routine stays inside its input.
\<close>

section \<open>xxHash64\<close>

definition XXH_PRIME64_1 :: u64 where
  "XXH_PRIME64_1 = 0x9E3779B185EBCA87"

definition XXH_PRIME64_2 :: u64 where
  "XXH_PRIME64_2 = 0xC2B2AE3D27D4EB4F"

definition XXH_PRIME64_3 :: u64 where
  "XXH_PRIME64_3 = 0x165667B19E3779F9"

definition XXH_PRIME64_4 :: u64 where
  "XXH_PRIME64_4 = 0x85EBCA77C2B2AE63"

definition XXH_PRIME64_5 :: u64 where
  "XXH_PRIME64_5 = 0x27D4EB2F165667C5"

definition xxh64_rotl :: "u64 \<Rightarrow> nat \<Rightarrow> u64" where
  "xxh64_rotl x r = push_bit r x OR drop_bit (64 - r) x"

definition xxh64_round :: "u64 \<Rightarrow> u64 \<Rightarrow> u64" where
  "xxh64_round acc input = (let
     acc1 = acc + input * XXH_PRIME64_2;
     acc2 = xxh64_rotl acc1 31
   in acc2 * XXH_PRIME64_1)"

definition xxh64_merge_round :: "u64 \<Rightarrow> u64 \<Rightarrow> u64" where
  "xxh64_merge_round acc val =
     (acc XOR xxh64_round 0 val) * XXH_PRIME64_1 + XXH_PRIME64_4"

definition read64_le :: "u8 list \<Rightarrow> nat \<Rightarrow> u64 option" where
  "read64_le p i = do {
     b0 \<leftarrow> rd p i;
     b1 \<leftarrow> rd p (i + 1);
     b2 \<leftarrow> rd p (i + 2);
     b3 \<leftarrow> rd p (i + 3);
     b4 \<leftarrow> rd p (i + 4);
     b5 \<leftarrow> rd p (i + 5);
     b6 \<leftarrow> rd p (i + 6);
     b7 \<leftarrow> rd p (i + 7);
     Some (ucast b0 OR push_bit 8 (ucast b1) OR push_bit 16 (ucast b2) OR push_bit 24 (ucast b3)
        OR push_bit 32 (ucast b4) OR push_bit 40 (ucast b5) OR push_bit 48 (ucast b6)
        OR push_bit 56 (ucast b7))
   }"

definition read32_le :: "u8 list \<Rightarrow> nat \<Rightarrow> u32 option" where
  "read32_le p i = do {
     b0 \<leftarrow> rd p i;
     b1 \<leftarrow> rd p (i + 1);
     b2 \<leftarrow> rd p (i + 2);
     b3 \<leftarrow> rd p (i + 3);
     Some (ucast b0 OR push_bit 8 (ucast b1) OR push_bit 16 (ucast b2) OR push_bit 24 (ucast b3))
   }"

text \<open>The do-while loop over the stripes of 32 bytes: \<open>limit\<close> is \<open>end - 32\<close>.\<close>

type_synonym xxh_acc = "u64 \<times> u64 \<times> u64 \<times> u64"

function stripe_loop :: "u8 list \<Rightarrow> nat \<Rightarrow> nat \<Rightarrow> xxh_acc \<Rightarrow> (nat \<times> xxh_acc) option" where
  "stripe_loop d limit p (v1, v2, v3, v4) = do {
     k1 \<leftarrow> read64_le d p;
     k2 \<leftarrow> read64_le d (p + 8);
     k3 \<leftarrow> read64_le d (p + 16);
     k4 \<leftarrow> read64_le d (p + 24);
     let v = (xxh64_round v1 k1, xxh64_round v2 k2, xxh64_round v3 k3, xxh64_round v4 k4);
     if p + 32 \<le> limit then stripe_loop d limit (p + 32) v else Some (p + 32, v)
   }"
  by pat_completeness auto
termination by (relation "measure (\<lambda>(d, limit, p, v). limit - p)") auto

text \<open>The loop over the remaining chunks of eight bytes, and the one over single bytes.\<close>

function chunk_loop :: "u8 list \<Rightarrow> nat \<Rightarrow> u64 \<Rightarrow> (nat \<times> u64) option" where
  "chunk_loop d p h =
     (if p + 8 \<le> length d then do {
        k \<leftarrow> read64_le d p;
        let k1 = xxh64_round 0 k;
        let h1 = h XOR k1;
        chunk_loop d (p + 8) (xxh64_rotl h1 27 * XXH_PRIME64_1 + XXH_PRIME64_4)
      } else Some (p, h))"
  by pat_completeness auto
termination by (relation "measure (\<lambda>(d, p, h). length d - p)") auto

function byte_loop :: "u8 list \<Rightarrow> nat \<Rightarrow> u64 \<Rightarrow> u64 option" where
  "byte_loop d p h =
     (if p < length d then do {
        b \<leftarrow> rd d p;
        let h1 = h XOR (ucast b * XXH_PRIME64_5);
        byte_loop d (p + 1) (xxh64_rotl h1 11 * XXH_PRIME64_1)
      } else Some h)"
  by pat_completeness auto
termination by (relation "measure (\<lambda>(d, p, h). length d - p)") auto

declare stripe_loop.simps [simp del] chunk_loop.simps [simp del] byte_loop.simps [simp del]

definition final_mix :: "u64 \<Rightarrow> u64" where
  "final_mix h = (let
     h1 = h XOR drop_bit 33 h;
     h2 = h1 * XXH_PRIME64_2;
     h3 = h2 XOR drop_bit 29 h2;
     h4 = h3 * XXH_PRIME64_3
   in h4 XOR drop_bit 32 h4)"

definition carquet_xxhash64 :: "u8 list \<Rightarrow> u64 \<Rightarrow> u64 option" where
  "carquet_xxhash64 d seed = do {
     (p, h) \<leftarrow>
       (if length d \<ge> 32 then do {
          (p, v1, v2, v3, v4) \<leftarrow> stripe_loop d (length d - 32) 0
            (seed + XXH_PRIME64_1 + XXH_PRIME64_2, seed + XXH_PRIME64_2, seed + 0, seed - XXH_PRIME64_1);
          let h = xxh64_rotl v1 1 + xxh64_rotl v2 7 + xxh64_rotl v3 12 + xxh64_rotl v4 18;
          let h = xxh64_merge_round h v1;
          let h = xxh64_merge_round h v2;
          let h = xxh64_merge_round h v3;
          let h = xxh64_merge_round h v4;
          Some (p, h)
        } else Some (0, seed + XXH_PRIME64_5));
     let h = h + of_nat (length d);
     (p, h) \<leftarrow> chunk_loop d p h;
     (p, h) \<leftarrow>
       (if p + 4 \<le> length d then do {
          k \<leftarrow> read32_le d p;
          let h = h XOR (ucast k * XXH_PRIME64_1);
          Some (p + 4, xxh64_rotl h 23 * XXH_PRIME64_2 + XXH_PRIME64_3)
        } else Some (p, h));
     h \<leftarrow> byte_loop d p h;
     Some (final_mix h)
   }"

section \<open>CRC-32\<close>

text \<open>
  One bit of the inner loop, the eight bits of a byte, and the loop over the data. The mask
  \<open>(uint32_t)-(int32_t)(c & 1u)\<close> is the negation of the low bit at the width.
\<close>

definition crc_bit :: "u32 \<Rightarrow> u32" where
  "crc_bit c = drop_bit 1 c XOR (0xedb88320 AND (- (c AND 1)))"

fun crc_bits :: "nat \<Rightarrow> u32 \<Rightarrow> u32" where
  "crc_bits 0 c = c"
| "crc_bits (Suc n) c = crc_bits n (crc_bit c)"

fun crc_loop :: "u8 list \<Rightarrow> u32 \<Rightarrow> u32" where
  "crc_loop [] c = c"
| "crc_loop (b # bs) c = crc_loop bs (crc_bits 8 (c XOR ucast b))"

definition carquet_crc32_update :: "u32 \<Rightarrow> u8 list \<Rightarrow> u32" where
  "carquet_crc32_update crc d = crc_loop d (crc XOR 0xffffffff) XOR 0xffffffff"

definition carquet_crc32 :: "u8 list \<Rightarrow> u32" where
  "carquet_crc32 d = carquet_crc32_update 0 d"

section \<open>xxHash64 as the published description gives it\<close>

text \<open>
  The description, written apart from the code: its five primes, rotations of words, the round and
  its merging, and the avalanche. The stripes of 32 bytes feed four lanes, each a fold of the round
  over every fourth 64-bit word; what is left is folded in words of eight bytes, then at most
  one of four bytes, then single bytes.
\<close>

definition prime64_1 :: u64 where "prime64_1 = 11400714785074694791"
definition prime64_2 :: u64 where "prime64_2 = 14029467366897019727"
definition prime64_3 :: u64 where "prime64_3 = 1609587929392839161"
definition prime64_4 :: u64 where "prime64_4 = 9650029242287828579"
definition prime64_5 :: u64 where "prime64_5 = 2870177450012600261"

definition round64 :: "u64 \<Rightarrow> u64 \<Rightarrow> u64" where
  "round64 acc k = word_rotl 31 (acc + k * prime64_2) * prime64_1"

definition merge64 :: "u64 \<Rightarrow> u64 \<Rightarrow> u64" where
  "merge64 h v = (h XOR round64 0 v) * prime64_1 + prime64_4"

definition avalanche64 :: "u64 \<Rightarrow> u64" where
  "avalanche64 h = foldl (\<lambda>h (shift, prime). (h XOR drop_bit shift h) * prime) h
     [(33, prime64_2), (29, prime64_3), (32, 1)]"

definition word_at :: "u8 list \<Rightarrow> nat \<Rightarrow> u64" where
  "word_at d i = le_word (take 8 (drop i d))"

definition lane :: "u8 list \<Rightarrow> nat \<Rightarrow> nat \<Rightarrow> u64 list" where
  "lane d n j = map (\<lambda>k. word_at d (32 * k + 8 * j)) [0..<n]"

definition words8 :: "u8 list \<Rightarrow> nat \<Rightarrow> u64 list" where
  "words8 d n = map (\<lambda>k. word_at d (8 * k)) [0..<n]"

definition step8 :: "u64 \<Rightarrow> u64 \<Rightarrow> u64" where
  "step8 h k = word_rotl 27 (h XOR round64 0 k) * prime64_1 + prime64_4"

definition step4 :: "u64 \<Rightarrow> u32 \<Rightarrow> u64" where
  "step4 h k = word_rotl 23 (h XOR ucast k * prime64_1) * prime64_2 + prime64_3"

definition step1 :: "u64 \<Rightarrow> u8 \<Rightarrow> u64" where
  "step1 h b = word_rotl 11 (h XOR ucast b * prime64_5) * prime64_1"

definition xxh64_start :: "u8 list \<Rightarrow> u64 \<Rightarrow> u64" where
  "xxh64_start d seed = (let n = length d div 32 in
     if n = 0 then seed + prime64_5
     else let
       v1 = foldl round64 (seed + prime64_1 + prime64_2) (lane d n 0);
       v2 = foldl round64 (seed + prime64_2) (lane d n 1);
       v3 = foldl round64 seed (lane d n 2);
       v4 = foldl round64 (seed - prime64_1) (lane d n 3)
     in foldl merge64
          (word_rotl 1 v1 + word_rotl 7 v2 + word_rotl 12 v3 + word_rotl 18 v4)
          [v1, v2, v3, v4])"

definition xxh64_tail :: "u8 list \<Rightarrow> u64 \<Rightarrow> u64" where
  "xxh64_tail t h =
     (if 4 \<le> length t then foldl step1 (step4 h (le_word (take 4 t))) (drop 4 t) else foldl step1 h t)"

definition xxh64_spec :: "u8 list \<Rightarrow> u64 \<Rightarrow> u64" where
  "xxh64_spec d seed = (let
     r = drop (32 * (length d div 32)) d;
     m = length r div 8
   in avalanche64 (xxh64_tail (drop (8 * m) r)
        (foldl step8 (xxh64_start d seed + of_nat (length d)) (words8 r m))))"

text \<open>The code's constants and functions are the published ones.\<close>

named_theorems published

lemma primes_published [published]:
  "XXH_PRIME64_1 = prime64_1" "XXH_PRIME64_2 = prime64_2" "XXH_PRIME64_3 = prime64_3"
  "XXH_PRIME64_4 = prime64_4" "XXH_PRIME64_5 = prime64_5"
  by (simp_all add: XXH_PRIME64_1_def XXH_PRIME64_2_def XXH_PRIME64_3_def XXH_PRIME64_4_def XXH_PRIME64_5_def
      prime64_1_def prime64_2_def prime64_3_def prime64_4_def prime64_5_def)

lemma rotl_rotation:
  assumes "0 < r" and "r < 64"
  shows "xxh64_rotl x r = word_rotl r x"
proof (rule bit_word_eqI)
  fix n assume n: "n < LENGTH(64)"
  show "bit (xxh64_rotl x r) n = bit (word_rotl r x) n"
  proof (cases "n < r")
    case True
    then have "(n + (64 - r)) mod 64 = 64 - r + n" using assms by simp
    then show ?thesis using n assms True by (simp add: xxh64_rotl_def bit_or_iff bit_push_bit_iff bit_drop_bit_eq bit_word_rotl_iff)
  next
    case False
    then have "64 + n - r = (n - r) + 64" using assms by simp
    then have i: "(64 + n - r) mod 64 = n - r" using n by (simp only: mod_add_self2) simp
    have "\<not> bit x (64 - r + n)" using False assms by (auto dest: bit_imp_le_length)
    then show ?thesis using n assms False
      by (simp add: xxh64_rotl_def bit_or_iff bit_push_bit_iff bit_drop_bit_eq bit_word_rotl_iff i i [unfolded add.commute [of 64 n]])
  qed
qed

lemma rotl_published [published]:
  "xxh64_rotl x (Suc 0) = word_rotl (Suc 0) x" "xxh64_rotl x 7 = word_rotl 7 x" "xxh64_rotl x 11 = word_rotl 11 x"
  "xxh64_rotl x 12 = word_rotl 12 x" "xxh64_rotl x 18 = word_rotl 18 x" "xxh64_rotl x 23 = word_rotl 23 x"
  "xxh64_rotl x 27 = word_rotl 27 x" "xxh64_rotl x 31 = word_rotl 31 x"
  by (rule rotl_rotation; simp)+

lemma round_published [published]: "xxh64_round = round64"
  by (simp add: fun_eq_iff xxh64_round_def round64_def published Let_def)

lemma merge_published [published]: "xxh64_merge_round = merge64"
  by (simp add: fun_eq_iff xxh64_merge_round_def merge64_def published)

lemma avalanche_published [published]: "final_mix h = avalanche64 h"
  by (simp add: final_mix_def avalanche64_def published Let_def)

lemma read64_le_word: "i + 8 \<le> length d \<Longrightarrow> read64_le d i = Some (word_at d i)"
  using read_u64_le_word [of d i] unfolding read64_le_def carquet_read_u64_le_def word_at_def by presburger

lemma read32_le_word: "i + 4 \<le> length d \<Longrightarrow> read32_le d i = Some (le_word (take 4 (drop i d)))"
  using read_u32_le_word [of d i] by (simp add: read32_le_def carquet_read_u32_le_def)

lemma lane_Suc: "lane d (Suc n) j = word_at d (8 * j) # lane (drop 32 d) n j"
  unfolding lane_def map_upt_Suc by (simp add: word_at_def ac_simps)

lemma lane_0: "lane d 0 j = []"
  by (simp only: lane_def upt_conv_Nil [OF order_refl] list.map)

lemma words8_Suc: "words8 d (Suc n) = word_at d 0 # words8 (drop 8 d) n"
  unfolding words8_def map_upt_Suc by (simp add: word_at_def ac_simps)

lemma word_at_drop: "word_at (drop p d) i = word_at d (p + i)"
  by (simp add: word_at_def add.commute)

lemma stripe_loop_lanes:
  assumes "p + 32 * Suc n \<le> length d" and "length d < p + 32 * Suc (Suc n)"
  shows "stripe_loop d (length d - 32) p (v1, v2, v3, v4) = Some (p + 32 * Suc n,
     foldl round64 v1 (lane (drop p d) (Suc n) 0), foldl round64 v2 (lane (drop p d) (Suc n) 1),
     foldl round64 v3 (lane (drop p d) (Suc n) 2), foldl round64 v4 (lane (drop p d) (Suc n) 3))"
  using assms
proof (induction n arbitrary: p v1 v2 v3 v4)
  case 0
  then have "\<not> p + 32 \<le> length d - 32" by simp
  with 0 show ?case
    by (subst stripe_loop.simps) (simp add: read64_le_word lane_Suc lane_0 word_at_drop published Let_def)
next
  case (Suc n)
  then show ?case
    by (subst stripe_loop.simps)
      (simp add: read64_le_word lane_Suc [of _ "Suc n"] word_at_drop add.commute [of 32 p] published Let_def)
qed

lemma chunk_loop_words:
  assumes "p + 8 * n \<le> length d" and "length d < p + 8 * Suc n"
  shows "chunk_loop d p h = Some (p + 8 * n, foldl step8 h (words8 (drop p d) n))"
  using assms
proof (induction n arbitrary: p h)
  case 0
  then show ?case by (subst chunk_loop.simps) (simp add: words8_def)
next
  case (Suc n)
  then show ?case
    by (subst chunk_loop.simps)
      (simp add: read64_le_word words8_Suc word_at_drop published Let_def add.commute [of 8 p] flip: step8_def)
qed

lemma byte_loop_foldl: "byte_loop d p h = Some (foldl step1 h (drop p d))"
proof (induction d p h rule: byte_loop.induct)
  case (1 d p h)
  then show ?case
    by (subst byte_loop.simps) (simp add: published Let_def drop_eq_Cons flip: step1_def)
qed

lemma sub_div_bounds: "(0::nat) < k \<Longrightarrow> k * (n div k) \<le> n \<and> n < k * Suc (n div k)"
  using mod_less_divisor [of k n] mult_div_mod_eq [of k n] by (simp add: dividend_less_times_div)

lemma after_start:
  assumes "p + 8 * m \<le> length d" and "length d < p + 8 * Suc m"
  shows "do { (p, h) \<leftarrow> chunk_loop d p h;
     (p, h) \<leftarrow>
       (if p + 4 \<le> length d then do {
          k \<leftarrow> read32_le d p;
          let h = h XOR (ucast k * XXH_PRIME64_1);
          Some (p + 4, xxh64_rotl h 23 * XXH_PRIME64_2 + XXH_PRIME64_3)
        } else Some (p, h));
     h \<leftarrow> byte_loop d p h;
     Some (final_mix h) }
   = Some (avalanche64 (xxh64_tail (drop (8 * m) (drop p d)) (foldl step8 h (words8 (drop p d) m))))"
  using chunk_loop_words [OF assms] assms(1)
  by (simp add: byte_loop_foldl xxh64_tail_def published Let_def read32_le_word
      add.commute [of "8 * m" p] add.commute [of 4] le_diff_conv2 flip: step4_def)

lemma start_lanes:
  "(if length d \<ge> 32 then do {
          (p, v1, v2, v3, v4) \<leftarrow> stripe_loop d (length d - 32) 0
            (seed + XXH_PRIME64_1 + XXH_PRIME64_2, seed + XXH_PRIME64_2, seed + 0, seed - XXH_PRIME64_1);
          let h = xxh64_rotl v1 1 + xxh64_rotl v2 7 + xxh64_rotl v3 12 + xxh64_rotl v4 18;
          let h = xxh64_merge_round h v1;
          let h = xxh64_merge_round h v2;
          let h = xxh64_merge_round h v3;
          let h = xxh64_merge_round h v4;
          Some (p, h)
        } else Some (0, seed + XXH_PRIME64_5)) = Some (32 * (length d div 32), xxh64_start d seed)"
proof (cases "length d div 32")
  case 0
  then have "length d < 32" by (simp add: div_eq_0_iff)
  with 0 show ?thesis by (simp add: xxh64_start_def published)
next
  case (Suc k)
  then have k: "0 + 32 * Suc k \<le> length d" "length d < 0 + 32 * Suc (Suc k)"
    using sub_div_bounds [of 32 "length d"] by auto
  then have "32 \<le> length d" by simp
  with stripe_loop_lanes [OF k] Suc show ?thesis by (simp add: xxh64_start_def published Let_def)
qed

lemma xxhash64_total: "carquet_xxhash64 d seed = Some (xxh64_spec d seed)"
proof -
  define q where "q = 32 * (length d div 32)"
  define m where "m = length (drop q d) div 8"
  have q: "q \<le> length d" using sub_div_bounds [of 32 "length d"] by (simp add: q_def)
  have m: "q + 8 * m \<le> length d" "length d < q + 8 * Suc m"
    using sub_div_bounds [of 8 "length (drop q d)"] q by (auto simp: m_def)
  show ?thesis
    unfolding carquet_xxhash64_def start_lanes q_def [symmetric] bind.bind_lunit prod.case 
   apply (subst Let_def)
   unfolding after_start [OF m]
  by (simp add: xxh64_spec_def Let_def m_def q_def)
qed

text \<open>The test vectors of the reference implementation.\<close>

lemma xxh64_vectors:
  "xxh64_spec [] 0 = 0xEF46DB3751D8E999"
  "xxh64_spec [97] 0 = 0xD24EC4F1A98C6E5B"
  "xxh64_spec [97, 98, 99] 0 = 0x44BC2CF5AD770999"
  by (code_simp)+

text \<open>C22: \<open>carquet_xxhash64\<close> is total, reads no byte outside its input (the result is never None)
  and returns the XXH64 of the data and the seed as published, whatever the length: with the published
  primes, rotations, lanes, tails and avalanche, which \<open>xxh64_spec\<close> states apart from the code.\<close>

theorem xxhash64_spec: "carquet_xxhash64 d seed = Some (xxh64_spec d seed)"
  by (rule xxhash64_total)

section \<open>What the checksum detects\<close>

lemma crc_loop_append: "crc_loop (xs @ ys) c = crc_loop ys (crc_loop xs c)"
  by (induction xs arbitrary: c) simp_all

text \<open>Updating a CRC-32 piece by piece gives the CRC-32 of the pieces joined, whatever the split:
  \<open>carquet_crc32_update\<close> may be called on the parts of a page in order.\<close>

theorem crc32_streaming:
  "carquet_crc32_update (carquet_crc32_update c xs) ys = carquet_crc32_update c (xs @ ys)"
  by (simp add: carquet_crc32_update_def crc_loop_append xor.assoc)

lemma crc_bit_cases: "crc_bit c = drop_bit 1 c XOR (if bit c 0 then 0xedb88320 else 0)"
proof -
  have "c AND 1 = (if bit c 0 then 1 else 0)"
    by (simp add: and_one_eq mod_2_eq_odd bit_0)
  then show ?thesis by (simp add: crc_bit_def)
qed

lemma crc_bit_xor: "crc_bit (a XOR b) = crc_bit a XOR crc_bit b"
  by (rule bit_word_eqI) (auto simp: crc_bit_cases bit_simps)

lemma bit31_crc_bit: "bit (crc_bit c) 31 \<longleftrightarrow> bit c 0"
  using bit_imp_le_length [of c 32] by (auto simp: crc_bit_cases bit_simps)

lemma crc_bit_eq_0: "crc_bit c = 0 \<Longrightarrow> c = 0"
proof -
  assume 0: "crc_bit c = 0"
  then have b0: "\<not> bit c 0" using bit31_crc_bit [of c] by simp
  then have "drop_bit 1 c = 0" using 0 by (simp add: crc_bit_cases)
  then have "\<not> bit c (Suc n)" for n using bit_drop_bit_eq [of 1 c] by (simp add: fun_eq_iff)
  then show "c = 0" using b0 by (metis bit_eqI bit_0_eq bot_apply bot_bool_def not0_implies_Suc)
qed

lemma crc_bits_xor: "crc_bits n (a XOR b) = crc_bits n a XOR crc_bits n b"
  by (induction n arbitrary: a b) (simp_all add: crc_bit_xor)

lemma crc_bits_eq_0: "crc_bits n c = 0 \<Longrightarrow> c = 0"
  by (induction n arbitrary: c) (auto dest: crc_bit_eq_0)

lemma xor_zero_iff: "a XOR b = 0 \<longleftrightarrow> a = b" for a b :: "'a::len word"
  by (auto simp: bit_eq_iff bit_simps)

lemma crc_bits_inj: "crc_bits n a = crc_bits n b \<longleftrightarrow> a = b"
  using crc_bits_eq_0 [of n "a XOR b"] by (auto simp: crc_bits_xor xor_zero_iff)

lemma xor_cancel_right: "a XOR c = b XOR c \<longleftrightarrow> a = b" for a b c :: "'a::len word"
  by (auto simp: bit_eq_iff bit_simps)

lemma xor_cancel_left: "c XOR a = c XOR b \<longleftrightarrow> a = b" for a b c :: "'a::len word"
  by (auto simp: bit_eq_iff bit_simps)

lemma crc_bits_add: "crc_bits (m + n) c = crc_bits n (crc_bits m c)"
  by (induction m arbitrary: c) simp_all

lemma crc_bit_double: "\<not> bit v 31 \<Longrightarrow> crc_bit (push_bit 1 v) = v"
proof (rule bit_word_eqI)
  fix n assume v: "\<not> bit v 31" and "n < LENGTH(32)"
  then have "n \<le> 31" by simp
  with v show "bit (crc_bit (push_bit 1 v)) n = bit v n"
    by (cases "n = 31") (auto simp: crc_bit_cases bit_simps simp del: push_bit_Suc)
qed

lemma crc_bits_shift: "(\<And>i. 32 - n \<le> i \<Longrightarrow> \<not> bit v i) \<Longrightarrow> n \<le> 32 \<Longrightarrow> crc_bits n (push_bit n v) = v"
proof (induction n arbitrary: v)
  case 0
  then show ?case by simp
next
  case (Suc n)
  have "\<not> bit (push_bit n v) 31" using Suc.prems by (auto simp: bit_simps)
  then have "crc_bit (push_bit 1 (push_bit n v)) = push_bit n v" by (rule crc_bit_double)
  then have "crc_bit (push_bit (Suc n) v) = push_bit n v" by (simp add: push_bit_push_bit add.commute)
  then show ?case using Suc by simp
qed

text \<open>Up to four bytes enter the register as one word.\<close>

lemma crc_loop_word: "length bs \<le> 4 \<Longrightarrow> crc_loop bs c = crc_bits (8 * length bs) (c XOR le_word bs)"
proof (induction bs arbitrary: c)
  case Nil
  then show ?case by simp
next
  case (Cons b bs)
  have high: "\<not> bit (le_word bs :: u32) i" if "24 \<le> i" for i
    using that Cons.prems by (auto simp: bit_le_word)
  have "crc_bits 8 (c XOR (ucast b OR push_bit 8 (le_word bs)))
      = crc_bits 8 ((c XOR ucast b) XOR push_bit 8 (le_word bs))"
    by (rule arg_cong, rule bit_word_eqI) (auto simp: bit_simps dest: bit_imp_le_length)
  also have "\<dots> = crc_bits 8 (c XOR ucast b) XOR le_word bs"
    using crc_bits_shift [of 8 "le_word bs"] high by (simp add: crc_bits_xor)
  finally show ?case using Cons by (simp add: crc_bits_add)
qed

lemma le_word_inj:
  assumes "length xs = length ys" and "length xs \<le> 4" and "(le_word xs :: u32) = le_word ys"
  shows "xs = ys"
proof -
  have len: "8 * length xs \<le> LENGTH(32)" using assms(2) by simp
  have "xs = le_bytes (length xs) (le_word xs :: u32)"
    by (rule le_bytes_le_word [OF refl len, symmetric])
  also have "\<dots> = ys"
    unfolding assms(3) by (rule le_bytes_le_word [OF assms(1) [symmetric] len])
  finally show ?thesis .
qed

lemma crc_loop_inj: "crc_loop bs c = crc_loop bs c' \<longleftrightarrow> c = c'"
  by (induction bs arbitrary: c c') (simp_all only: crc_loop.simps crc_bits_inj xor_cancel_right)

text \<open>C23: the CRC-32 detects every corruption confined to four consecutive bytes, wherever they stand
  and whatever surrounds them: two inputs that differ only there have different checksums.\<close>

theorem crc32_detects_burst:
  assumes "length e = length e'" and "length e \<le> 4" and "e \<noteq> e'"
  shows "carquet_crc32_update c (pre @ e @ post) \<noteq> carquet_crc32_update c (pre @ e' @ post)"
proof -
  have "(le_word e :: u32) \<noteq> le_word e'" using le_word_inj assms by blast
  then show ?thesis using assms
    by (simp add: carquet_crc32_update_def crc_loop_append crc_loop_inj crc_loop_word crc_bits_inj
        xor_cancel_left xor_cancel_right)
qed

theorem crc32_detects_burst_witness:
  "carquet_crc32 [1, 2, 3] \<noteq> carquet_crc32 [1, 7, 3]"
  using crc32_detects_burst [of "[2]" "[7]" 0 "[1]" "[3]"] by (simp add: carquet_crc32_def)

end
