(* ===== verification/Bloom.thy ===== *)
theory Bloom
  imports Hashes Buffer
begin

text \<open>
  Component src/metadata/bloom_filter.c: the split block bloom filter of Parquet.

  A filter is an array of blocks of 32 bytes, each read as eight 32-bit words. A value sets one
  bit in each word of the block its hash selects, and may be present when all eight are set.
  The code casts the bytes to \<open>uint32_t*\<close>; the model is that of a little-endian machine, as the
  file format asks for. A filter pointer is None when it is NULL; the outer option of a result
  is None when the code would read or write outside the filter.
\<close>

section \<open>The filter and its operations\<close>

definition BLOOM_FILTER_BLOCK_SIZE :: nat where
  "BLOOM_FILTER_BLOCK_SIZE = 32"

definition SALT :: "u32 list" where
  "SALT = [0x47b6137b, 0x44974d91, 0x8824ad5b, 0xa2b7289d,
           0x705495c7, 0x2df1424b, 0x9efc4947, 0x5c6bfb31]"

record carquet_bloom_filter =
  bf_data :: "u8 list option"
  num_bytes :: nat
  num_blocks :: nat
  owns_data :: bool

definition bloom_filter_block_index :: "u64 \<Rightarrow> nat \<Rightarrow> nat" where
  "bloom_filter_block_index hash n = (let top_bits = drop_bit 32 hash in
     unat (drop_bit 32 (top_bits * of_nat n)))"

text \<open>The loops over the eight words of the block that starts at byte \<open>off\<close>.\<close>

function block_insert_loop :: "u8 list \<Rightarrow> nat \<Rightarrow> u32 \<Rightarrow> nat \<Rightarrow> u8 list option" where
  "block_insert_loop d off key i =
     (if i < 8 then do {
        let m = SALT ! i * key;
        let bit_pos = drop_bit 27 m;
        w \<leftarrow> carquet_read_u32_le d (off + 4 * i);
        d' \<leftarrow> wr_bytes d (off + 4 * i) (carquet_write_u32_le (w OR push_bit (unat bit_pos) 1));
        block_insert_loop d' off key (i + 1)
      } else Some d)"
  by pat_completeness auto
termination by (relation "measure (\<lambda>(d, off, key, i). 8 - i)") auto

definition bloom_filter_block_insert :: "u8 list \<Rightarrow> nat \<Rightarrow> u64 \<Rightarrow> u8 list option" where
  "bloom_filter_block_insert d off hash = block_insert_loop d off (ucast hash) 0"

function block_check_loop :: "u8 list \<Rightarrow> nat \<Rightarrow> u32 \<Rightarrow> nat \<Rightarrow> bool option" where
  "block_check_loop d off key i =
     (if i < 8 then do {
        let m = SALT ! i * key;
        let bit_pos = drop_bit 27 m;
        w \<leftarrow> carquet_read_u32_le d (off + 4 * i);
        if w AND push_bit (unat bit_pos) 1 = 0 then Some False
        else block_check_loop d off key (i + 1)
      } else Some True)"
  by pat_completeness auto
termination by (relation "measure (\<lambda>(d, off, key, i). 8 - i)") auto

declare block_insert_loop.simps [simp del] block_check_loop.simps [simp del]

definition bloom_filter_block_check :: "u8 list \<Rightarrow> nat \<Rightarrow> u64 \<Rightarrow> bool option" where
  "bloom_filter_block_check d off hash = block_check_loop d off (ucast hash) 0"

text \<open>Creation. The structure itself takes 32 bytes.\<close>

definition SIZEOF_FILTER :: nat where
  "SIZEOF_FILTER = 32"

definition carquet_bloom_filter_create :: "allocator \<Rightarrow> nat \<Rightarrow> carquet_bloom_filter option" where
  "carquet_bloom_filter_create A n0 = (let
     n1 = (if n0 < BLOOM_FILTER_BLOCK_SIZE then BLOOM_FILTER_BLOCK_SIZE else n0);
     n = sz (n1 + BLOOM_FILTER_BLOCK_SIZE - 1) div BLOOM_FILTER_BLOCK_SIZE * BLOOM_FILTER_BLOCK_SIZE
   in case carquet_mem_malloc A SIZEOF_FILTER of
        None \<Rightarrow> None
      | Some _ \<Rightarrow>
         (case carquet_mem_calloc A n 1 of
            None \<Rightarrow> None
          | Some d \<Rightarrow> Some \<lparr>bf_data = Some d, num_bytes = n,
                           num_blocks = n div BLOOM_FILTER_BLOCK_SIZE, owns_data = True\<rparr>))"

text \<open>
  The size for a number of distinct values is computed in floating point, with \<open>log\<close>; that
  computation is a parameter, as is the test that the probability lies strictly between 0 and 1.
\<close>

definition carquet_bloom_filter_create_with_ndv ::
  "allocator \<Rightarrow> ('fp \<Rightarrow> bool) \<Rightarrow> (int \<Rightarrow> 'fp \<Rightarrow> nat) \<Rightarrow> int \<Rightarrow> 'fp \<Rightarrow> carquet_bloom_filter option" where
  "carquet_bloom_filter_create_with_ndv A in_range bytes_of ndv fpp =
     (if ndv \<le> 0 \<or> \<not> in_range fpp then None
      else carquet_bloom_filter_create A (sz (bytes_of ndv fpp + 1)))"

definition carquet_bloom_filter_from_data ::
  "allocator \<Rightarrow> u8 list option \<Rightarrow> nat \<Rightarrow> carquet_bloom_filter option option" where
  "carquet_bloom_filter_from_data A src n =
     (case src of
        None \<Rightarrow> Some None
      | Some s \<Rightarrow>
         (if n < BLOOM_FILTER_BLOCK_SIZE then Some None
          else if n mod BLOOM_FILTER_BLOCK_SIZE \<noteq> 0 then Some None
          else case carquet_mem_malloc A SIZEOF_FILTER of
             None \<Rightarrow> Some None
           | Some _ \<Rightarrow>
              (case carquet_mem_malloc A n of
                 None \<Rightarrow> Some None
               | Some d0 \<Rightarrow> do {
                   bs \<leftarrow> rd_bytes s 0 n;
                   d \<leftarrow> wr_bytes d0 0 bs;
                   Some (Some \<lparr>bf_data = Some d, num_bytes = n,
                               num_blocks = n div BLOOM_FILTER_BLOCK_SIZE, owns_data = True\<rparr>)
                 })))"

text \<open>Insertion and lookup of a hash and of a value of each type.\<close>

definition carquet_bloom_filter_insert_hash ::
  "carquet_bloom_filter option \<Rightarrow> u64 \<Rightarrow> carquet_bloom_filter option option" where
  "carquet_bloom_filter_insert_hash f hash =
     (case f of
        None \<Rightarrow> Some None
      | Some b \<Rightarrow>
         (case bf_data b of
            None \<Rightarrow> Some f
          | Some d \<Rightarrow> do {
              let block_idx = bloom_filter_block_index hash (num_blocks b);
              d' \<leftarrow> bloom_filter_block_insert d (sz (block_idx * BLOOM_FILTER_BLOCK_SIZE)) hash;
              Some (Some (b\<lparr>bf_data := Some d'\<rparr>))
            }))"

definition carquet_bloom_filter_insert_i32 ::
  "carquet_bloom_filter option \<Rightarrow> u32 \<Rightarrow> carquet_bloom_filter option option" where
  "carquet_bloom_filter_insert_i32 f v = do {
     hash \<leftarrow> carquet_xxhash64 (le_bytes 4 v) 0;
     carquet_bloom_filter_insert_hash f hash
   }"

definition carquet_bloom_filter_insert_i64 ::
  "carquet_bloom_filter option \<Rightarrow> u64 \<Rightarrow> carquet_bloom_filter option option" where
  "carquet_bloom_filter_insert_i64 f v = do {
     hash \<leftarrow> carquet_xxhash64 (le_bytes 8 v) 0;
     carquet_bloom_filter_insert_hash f hash
   }"

definition carquet_bloom_filter_insert_float ::
  "carquet_bloom_filter option \<Rightarrow> u32 \<Rightarrow> carquet_bloom_filter option option" where
  "carquet_bloom_filter_insert_float f v = do {
     hash \<leftarrow> carquet_xxhash64 (le_bytes 4 v) 0;
     carquet_bloom_filter_insert_hash f hash
   }"

definition carquet_bloom_filter_insert_double ::
  "carquet_bloom_filter option \<Rightarrow> u64 \<Rightarrow> carquet_bloom_filter option option" where
  "carquet_bloom_filter_insert_double f v = do {
     hash \<leftarrow> carquet_xxhash64 (le_bytes 8 v) 0;
     carquet_bloom_filter_insert_hash f hash
   }"

definition carquet_bloom_filter_insert_bytes ::
  "carquet_bloom_filter option \<Rightarrow> u8 list \<Rightarrow> carquet_bloom_filter option option" where
  "carquet_bloom_filter_insert_bytes f bs = do {
     hash \<leftarrow> carquet_xxhash64 bs 0;
     carquet_bloom_filter_insert_hash f hash
   }"

definition carquet_bloom_filter_check_hash :: "carquet_bloom_filter option \<Rightarrow> u64 \<Rightarrow> bool option" where
  "carquet_bloom_filter_check_hash f hash =
     (case f of
        None \<Rightarrow> Some True
      | Some b \<Rightarrow>
         (case bf_data b of
            None \<Rightarrow> Some True
          | Some d \<Rightarrow>
              let block_idx = bloom_filter_block_index hash (num_blocks b)
              in bloom_filter_block_check d (sz (block_idx * BLOOM_FILTER_BLOCK_SIZE)) hash))"

definition carquet_bloom_filter_check_i32 :: "carquet_bloom_filter option \<Rightarrow> u32 \<Rightarrow> bool option" where
  "carquet_bloom_filter_check_i32 f v = do {
     hash \<leftarrow> carquet_xxhash64 (le_bytes 4 v) 0;
     carquet_bloom_filter_check_hash f hash
   }"

definition carquet_bloom_filter_check_i64 :: "carquet_bloom_filter option \<Rightarrow> u64 \<Rightarrow> bool option" where
  "carquet_bloom_filter_check_i64 f v = do {
     hash \<leftarrow> carquet_xxhash64 (le_bytes 8 v) 0;
     carquet_bloom_filter_check_hash f hash
   }"

definition carquet_bloom_filter_check_float :: "carquet_bloom_filter option \<Rightarrow> u32 \<Rightarrow> bool option" where
  "carquet_bloom_filter_check_float f v = do {
     hash \<leftarrow> carquet_xxhash64 (le_bytes 4 v) 0;
     carquet_bloom_filter_check_hash f hash
   }"

definition carquet_bloom_filter_check_double :: "carquet_bloom_filter option \<Rightarrow> u64 \<Rightarrow> bool option" where
  "carquet_bloom_filter_check_double f v = do {
     hash \<leftarrow> carquet_xxhash64 (le_bytes 8 v) 0;
     carquet_bloom_filter_check_hash f hash
   }"

definition carquet_bloom_filter_check_bytes :: "carquet_bloom_filter option \<Rightarrow> u8 list \<Rightarrow> bool option" where
  "carquet_bloom_filter_check_bytes f bs = do {
     hash \<leftarrow> carquet_xxhash64 bs 0;
     carquet_bloom_filter_check_hash f hash
   }"

definition carquet_bloom_filter_data :: "carquet_bloom_filter option \<Rightarrow> u8 list option" where
  "carquet_bloom_filter_data f = (case f of None \<Rightarrow> None | Some b \<Rightarrow> bf_data b)"

definition carquet_bloom_filter_size :: "carquet_bloom_filter \<Rightarrow> nat" where
  "carquet_bloom_filter_size f = num_bytes f"

definition carquet_bloom_filter_num_blocks :: "carquet_bloom_filter option \<Rightarrow> nat" where
  "carquet_bloom_filter_num_blocks f = (case f of None \<Rightarrow> 0 | Some b \<Rightarrow> num_blocks b)"

text \<open>
  Serialisation: the status, the output array and the number of bytes written (None when
  \<open>*bytes_written\<close> is not assigned). The two pointers are given.
\<close>

definition carquet_bloom_filter_write ::
  "carquet_bloom_filter option \<Rightarrow> u8 list option \<Rightarrow> nat \<Rightarrow>
   (carquet_status \<times> u8 list option \<times> nat option) option" where
  "carquet_bloom_filter_write f out cap =
     (case (f, out) of
        (Some b, Some m) \<Rightarrow>
          (if cap < num_bytes b then Some (CARQUET_ERROR_ENCODE, out, None)
           else do {
             bs \<leftarrow> rd_bytes (block_bytes (bf_data b)) 0 (num_bytes b);
             m' \<leftarrow> wr_bytes m 0 bs;
             Some (CARQUET_OK, Some m', Some (num_bytes b))
           })
      | _ \<Rightarrow> Some (CARQUET_ERROR_INVALID_ARGUMENT, out, None))"

definition carquet_bloom_filter_read ::
  "allocator \<Rightarrow> u8 list option \<Rightarrow> nat \<Rightarrow> (carquet_status \<times> carquet_bloom_filter option) option" where
  "carquet_bloom_filter_read A src n =
     (if src = None then Some (CARQUET_ERROR_INVALID_ARGUMENT, None)
      else do {
        f \<leftarrow> carquet_bloom_filter_from_data A src n;
        if f = None then Some (CARQUET_ERROR_OUT_OF_MEMORY, None) else Some (CARQUET_OK, f)
      })"

function merge_loop :: "u8 list \<Rightarrow> u8 list \<Rightarrow> nat \<Rightarrow> nat \<Rightarrow> u8 list option" where
  "merge_loop d s n i =
     (if i < n then do {
        a \<leftarrow> rd d i;
        b \<leftarrow> rd s i;
        d' \<leftarrow> wr d i (a OR b);
        merge_loop d' s n (i + 1)
      } else Some d)"
  by pat_completeness auto
termination by (relation "measure (\<lambda>(d, s, n, i). n - i)") auto

declare merge_loop.simps [simp del]

definition carquet_bloom_filter_merge ::
  "carquet_bloom_filter option \<Rightarrow> carquet_bloom_filter option \<Rightarrow>
   (carquet_status \<times> carquet_bloom_filter option) option" where
  "carquet_bloom_filter_merge dest src =
     (case (dest, src) of
        (Some b, Some s) \<Rightarrow>
          (if num_bytes b \<noteq> num_bytes s then Some (CARQUET_ERROR_INVALID_ARGUMENT, dest)
           else do {
             d \<leftarrow> merge_loop (block_bytes (bf_data b)) (block_bytes (bf_data s)) (num_bytes b) 0;
             Some (CARQUET_OK, Some (b\<lparr>bf_data := map_option (\<lambda>_. d) (bf_data b)\<rparr>))
           })
      | _ \<Rightarrow> Some (CARQUET_ERROR_INVALID_ARGUMENT, dest))"

text \<open>What \<open>carquet_bloom_filter_destroy\<close> frees, in order.\<close>

datatype freed = Freed_data | Freed_filter

definition carquet_bloom_filter_destroy :: "carquet_bloom_filter option \<Rightarrow> freed list" where
  "carquet_bloom_filter_destroy f =
     (case f of
        None \<Rightarrow> []
      | Some b \<Rightarrow> (if owns_data b \<and> bf_data b \<noteq> None then [Freed_data] else []) @ [Freed_filter])"

section \<open>The filter as a set of bits\<close>

text \<open>
  The specification: a filter is the set of its bits that are set, numbered through the bytes, and
  a hash is the set of the eight bits it selects. Insertion is a union and lookup an inclusion.
\<close>

definition bit_at :: "u8 list \<Rightarrow> nat \<Rightarrow> bool" where
  "bit_at d n \<longleftrightarrow> n div 8 < length d \<and> bit (d ! (n div 8)) (n mod 8)"

definition bit_pos :: "u32 \<Rightarrow> nat \<Rightarrow> nat" where
  "bit_pos key j = unat (drop_bit 27 (SALT ! j * key))"

definition filter_bits :: "carquet_bloom_filter \<Rightarrow> nat set" where
  "filter_bits f = {n. bit_at (block_bytes (bf_data f)) n}"

text \<open>
  The bits of a hash as the Parquet format describes them, over numbers: the high half of the hash, scaled
  to the number of blocks at 64 bits, selects the block; in the word \<open>j\<close> of it the top five bits of the low
  half times the \<open>j\<close>-th odd constant of the format, at 32 bits, select the bit.
\<close>

definition block_salts :: "nat list" where
  "block_salts = [1203114875, 1150766481, 2284105051, 2729912477,
     1884591559, 770785867, 2667333959, 1550580529]"

definition hash_bits :: "nat \<Rightarrow> u64 \<Rightarrow> nat set" where
  "hash_bits n hash =
     (\<lambda>j. 256 * ((unat hash div 2 ^ 32 * n) mod 2 ^ 64 div 2 ^ 32) + 32 * j
        + (block_salts ! j * (unat hash mod 2 ^ 32)) mod 2 ^ 32 div 2 ^ 27) ` {0..<8}"

definition bloom_wf :: "carquet_bloom_filter \<Rightarrow> bool" where
  "bloom_wf f \<longleftrightarrow> (\<exists>d. bf_data f = Some d \<and> length d = num_bytes f)
     \<and> num_bytes f = 32 * num_blocks f \<and> 0 < num_blocks f \<and> num_bytes f < 2 ^ 64"

lemma unat_drop_bit_div: "unat (drop_bit n w) = unat w div 2 ^ n" for w :: "'a::len word"
proof -
  have "unat (drop_bit n w) = drop_bit n (unat w)" by (rule unat_drop_bit_eq)
  then show ?thesis by (simp only: drop_bit_eq_div [of n "unat w"])
qed

lemma bit_pos_bound: "bit_pos key j < 32"
proof -
  have "unat (drop_bit 27 (SALT ! j * key)) = unat (SALT ! j * key) div 2 ^ 27"
    by (rule unat_drop_bit_div)
  also have "\<dots> < 32" using unsigned_less [of "SALT ! j * key", where 'a = nat] by simp
  finally show ?thesis by (simp add: bit_pos_def)
qed

lemma and_bit_eq_0: "k < 32 \<Longrightarrow> w AND push_bit k 1 = 0 \<longleftrightarrow> \<not> bit w k" for w :: u32
proof -
  assume k: "k < 32"
  have "w AND push_bit k 1 = 0 \<longleftrightarrow> (\<forall>i < 32. \<not> (bit w i \<and> bit (push_bit k 1 :: u32) i))"
    by (auto simp: bit_eq_iff [of "w AND push_bit k 1"] bit_and_iff simp del: push_bit_of_1)
  also have "\<dots> \<longleftrightarrow> \<not> bit w k" using k by (auto simp: bit_simps)
  finally show ?thesis .
qed

lemma bit_read_u32:
  assumes "p + 4 \<le> length d"
  shows "\<exists>w. carquet_read_u32_le d p = Some w \<and> (\<forall>k < 32. bit w k \<longleftrightarrow> bit_at d (8 * p + k))"
proof -
  have "bit (le_word (take 4 (drop p d)) :: u32) k \<longleftrightarrow> bit_at d (8 * p + k)" if "k < 32" for k
  proof -
    have "k div 8 < 4" using that by simp
    then show ?thesis using that assms by (simp add: bit_le_word bit_at_def)
  qed
  then show ?thesis using assms by (simp add: read_u32_le_word)
qed

lemma bit_at_write:
  assumes p: "p + 4 \<le> length d" and w: "\<forall>k < 32. bit w k \<longleftrightarrow> bit_at d (8 * p + k)" and k: "k < 32"
  shows "\<exists>d'. wr_bytes d p (carquet_write_u32_le (w OR push_bit k 1)) = Some d' \<and>
     length d' = length d \<and> (\<forall>n. bit_at d' n \<longleftrightarrow> bit_at d n \<or> n = 8 * p + k)"
proof -
  define d' where "d' = take p d @ le_bytes 4 (w OR push_bit k 1) @ drop (p + 4) d"
  have len: "length d' = length d" using p by (simp add: d'_def)
  have "bit_at d' n \<longleftrightarrow> bit_at d n \<or> n = 8 * p + k" for n
  proof (cases "8 * p \<le> n \<and> n < 8 * p + 32")
    case True
    define j where "j = n - 8 * p"
    have j: "n = 8 * p + j" "j < 32" using True by (auto simp: j_def)
    have jd: "j div 8 < 4" using j by simp
    have "d' ! (p + j div 8) = le_bytes 4 (w OR push_bit k 1) ! (j div 8)"
      using p jd by (simp add: d'_def nth_append)
    moreover have "8 * (j div 8) + j mod 8 = j" by simp
    ultimately have "bit_at d' n \<longleftrightarrow> bit (w OR push_bit k 1) j"
      using j jd p k by (simp add: bit_at_def len bit_simps)
    then show ?thesis using j w k by (auto simp: bit_simps)
  next
    case False
    then have "n div 8 < p \<or> p + 4 \<le> n div 8" by auto
    moreover have "n \<noteq> 8 * p + k" using False k by auto
    ultimately show ?thesis using p
      by (auto simp: bit_at_def d'_def nth_append)
  qed
  then show ?thesis using p len by (auto simp: wr_bytes_in write_le_bytes d'_def)
qed

lemma block_insert_loop_bits:
  assumes "off + 32 \<le> length d" and "i \<le> 8"
  shows "\<exists>d'. block_insert_loop d off key i = Some d' \<and> length d' = length d \<and>
     (\<forall>n. bit_at d' n \<longleftrightarrow> bit_at d n \<or> (\<exists>j. i \<le> j \<and> j < 8 \<and> n = 8 * off + 32 * j + bit_pos key j))"
  using assms
proof (induction "8 - i" arbitrary: i d)
  case 0
  then show ?case by (subst block_insert_loop.simps) auto
next
  case (Suc m)
  then have i: "i < 8" by simp
  then have p: "(off + 4 * i) + 4 \<le> length d" using Suc.prems by linarith
  obtain w where w: "carquet_read_u32_le d (off + 4 * i) = Some w"
    "\<forall>k < 32. bit w k \<longleftrightarrow> bit_at d (8 * (off + 4 * i) + k)" using bit_read_u32 [OF p] by blast
  obtain d1 where d1: "wr_bytes d (off + 4 * i) (carquet_write_u32_le (w OR push_bit (bit_pos key i) 1)) = Some d1"
    "length d1 = length d" "\<forall>n. bit_at d1 n \<longleftrightarrow> bit_at d n \<or> n = 8 * (off + 4 * i) + bit_pos key i"
    using bit_at_write [OF p w(2) bit_pos_bound] by blast
  have "m = 8 - Suc i" using Suc.hyps(2) by simp
  moreover have "off + 32 \<le> length d1" "Suc i \<le> 8" using Suc.prems d1(2) i by simp_all
  ultimately obtain d' where d': "block_insert_loop d1 off key (Suc i) = Some d'" "length d' = length d1"
    "\<forall>n. bit_at d' n \<longleftrightarrow> bit_at d1 n \<or> (\<exists>j. Suc i \<le> j \<and> j < 8 \<and> n = 8 * off + 32 * j + bit_pos key j)"
    using Suc.hyps(1) by blast
  have "block_insert_loop d off key i = Some d'"
    using i w(1) d1(1) d'(1) by (subst block_insert_loop.simps) (simp add: Let_def bit_pos_def)
  moreover have "bit_at d' n \<longleftrightarrow> bit_at d n \<or> (\<exists>j. i \<le> j \<and> j < 8 \<and> n = 8 * off + 32 * j + bit_pos key j)" for n
    unfolding d'(3)[rule_format] d1(3)[rule_format] using i
    by (auto simp: algebra_simps dest: Suc_leD le_neq_implies_less intro: exI [of _ i])
      (metis Suc_leI le_neq_implies_less)
  ultimately show ?case using d'(2) d1(2) by auto
qed

lemma block_check_loop_bits:
  assumes "off + 32 \<le> length d" and "i \<le> 8"
  shows "block_check_loop d off key i =
     Some (\<forall>j. i \<le> j \<and> j < 8 \<longrightarrow> bit_at d (8 * off + 32 * j + bit_pos key j))"
  using assms
proof (induction "8 - i" arbitrary: i)
  case 0
  then show ?case by (subst block_check_loop.simps) auto
next
  case (Suc m)
  then have i: "i < 8" by simp
  then have p: "(off + 4 * i) + 4 \<le> length d" using Suc.prems by linarith
  obtain w where w: "carquet_read_u32_le d (off + 4 * i) = Some w"
    "\<forall>k < 32. bit w k \<longleftrightarrow> bit_at d (8 * (off + 4 * i) + k)" using bit_read_u32 [OF p] by blast
  have "w AND push_bit (bit_pos key i) 1 = 0 \<longleftrightarrow> \<not> bit w (bit_pos key i)"
    by (rule and_bit_eq_0 [OF bit_pos_bound])
  moreover have "bit w (bit_pos key i) \<longleftrightarrow> bit_at d (8 * off + 32 * i + bit_pos key i)"
    using w(2) bit_pos_bound [of key i] by (simp add: algebra_simps)
  moreover have "block_check_loop d off key (Suc i) =
     Some (\<forall>j. Suc i \<le> j \<and> j < 8 \<longrightarrow> bit_at d (8 * off + 32 * j + bit_pos key j))"
    using Suc i by simp
  ultimately show ?case
    using i w(1) by (subst block_check_loop.simps)
      (auto simp: Let_def bit_pos_def [symmetric] Suc_le_eq, metis le_neq_implies_less)
qed

text \<open>The block a hash selects lies inside the filter, also where the 64-bit product wraps.\<close>

lemma block_index_nat: "bloom_filter_block_index hash n = (unat hash div 2 ^ 32 * n) mod 2 ^ 64 div 2 ^ 32"
proof -
  have "unat (drop_bit 32 hash * of_nat n :: u64) = (unat hash div 2 ^ 32 * n) mod 2 ^ 64"
    by (simp add: unat_word_ariths unat_drop_bit_div unat_of_nat mod_mult_right_eq)
  then show ?thesis by (simp only: bloom_filter_block_index_def Let_def unat_drop_bit_div)
qed

lemma block_index_bound:
  assumes "0 < n"
  shows "bloom_filter_block_index hash n < n"
proof -
  have t: "unat hash div 2 ^ 32 < 2 ^ 32" using unsigned_less [of hash, where 'a = nat] by simp
  have "(unat hash div 2 ^ 32 * n) mod 2 ^ 64 \<le> unat hash div 2 ^ 32 * n" by simp
  also have "\<dots> < 2 ^ 32 * n" using t assms by simp
  finally have "(unat hash div 2 ^ 32 * n) mod 2 ^ 64 < n * 2 ^ 32" by simp
  then show ?thesis unfolding block_index_nat by (rule less_mult_imp_div_less)
qed

lemma bit_pos_nat:
  assumes "j < 8"
  shows "bit_pos (ucast (hash :: u64)) j = (block_salts ! j * (unat hash mod 2 ^ 32)) mod 2 ^ 32 div 2 ^ 27"
proof -
  have "map unat SALT = block_salts" by (simp add: SALT_def block_salts_def)
  moreover have "length SALT = 8" by (simp add: SALT_def)
  ultimately have "unat (SALT ! j) = block_salts ! j" using assms by (metis nth_map)
  moreover have "unat (ucast hash :: u32) = unat hash mod 2 ^ 32" by (simp add: unsigned_ucast_eq take_bit_eq_mod)
  ultimately have "unat (SALT ! j * ucast hash) = (block_salts ! j * (unat hash mod 2 ^ 32)) mod 2 ^ 32"
    by (simp add: unat_word_ariths)
  then show ?thesis by (simp only: bit_pos_def unat_drop_bit_div)
qed

lemma block_offset:
  assumes "bloom_wf f"
  shows "sz (bloom_filter_block_index hash (num_blocks f) * BLOOM_FILTER_BLOCK_SIZE)
           = 32 * bloom_filter_block_index hash (num_blocks f)"
    and "32 * bloom_filter_block_index hash (num_blocks f) + 32 \<le> num_bytes f"
  using block_index_bound [of "num_blocks f" hash] assms
  by (auto simp: bloom_wf_def BLOOM_FILTER_BLOCK_SIZE_def sz_id mult.commute)

text \<open>The eight bits of a hash as the loops number them.\<close>

lemma hash_bits_alt:
  "n \<in> hash_bits k hash \<longleftrightarrow> (\<exists>j. 0 \<le> j \<and> j < 8 \<and>
     n = 8 * (32 * bloom_filter_block_index hash k) + 32 * j + bit_pos (ucast hash) j)"
  by (auto simp: hash_bits_def image_iff block_index_nat bit_pos_nat)

lemma insert_hash_bits:
  assumes "bloom_wf f"
  shows "\<exists>f'. carquet_bloom_filter_insert_hash (Some f) hash = Some (Some f') \<and> bloom_wf f' \<and>
     num_blocks f' = num_blocks f \<and> filter_bits f' = filter_bits f \<union> hash_bits (num_blocks f) hash"
proof -
  obtain d where d: "bf_data f = Some d" "length d = num_bytes f" using assms by (auto simp: bloom_wf_def)
  let ?off = "32 * bloom_filter_block_index hash (num_blocks f)"
  have "?off + 32 \<le> length d" using block_offset(2) [OF assms] d by simp
  then obtain d' where d': "block_insert_loop d ?off (ucast hash) 0 = Some d'" "length d' = length d"
    "\<forall>n. bit_at d' n \<longleftrightarrow> bit_at d n \<or> (\<exists>j. 0 \<le> j \<and> j < 8 \<and> n = 8 * ?off + 32 * j + bit_pos (ucast hash) j)"
    using block_insert_loop_bits [of ?off d 0 "ucast hash"] by blast
  have "carquet_bloom_filter_insert_hash (Some f) hash = Some (Some (f\<lparr>bf_data := Some d'\<rparr>))"
    using d d' block_offset(1) [OF assms]
    by (simp add: carquet_bloom_filter_insert_hash_def bloom_filter_block_insert_def Let_def)
  moreover have "bloom_wf (f\<lparr>bf_data := Some d'\<rparr>)" using assms d d'(2) by (simp add: bloom_wf_def)
  moreover have "filter_bits (f\<lparr>bf_data := Some d'\<rparr>) = filter_bits f \<union> hash_bits (num_blocks f) hash"
    using d d'(3) by (auto simp: filter_bits_def block_bytes_def hash_bits_alt)
  ultimately show ?thesis by auto
qed

lemma check_hash_bits:
  assumes "bloom_wf f"
  shows "carquet_bloom_filter_check_hash (Some f) hash = Some (hash_bits (num_blocks f) hash \<subseteq> filter_bits f)"
proof -
  obtain d where d: "bf_data f = Some d" "length d = num_bytes f" using assms by (auto simp: bloom_wf_def)
  let ?off = "32 * bloom_filter_block_index hash (num_blocks f)"
  have "?off + 32 \<le> length d" using block_offset(2) [OF assms] d by simp
  then have "block_check_loop d ?off (ucast hash) 0 =
     Some (\<forall>j. 0 \<le> j \<and> j < 8 \<longrightarrow> bit_at d (8 * ?off + 32 * j + bit_pos (ucast hash) j))"
    by (rule block_check_loop_bits) simp
  moreover have "hash_bits (num_blocks f) hash \<subseteq> filter_bits f \<longleftrightarrow>
     (\<forall>j. 0 \<le> j \<and> j < 8 \<longrightarrow> bit_at d (8 * ?off + 32 * j + bit_pos (ucast hash) j))"
    using d by (auto simp: subset_iff hash_bits_alt filter_bits_def block_bytes_def)
  ultimately show ?thesis using d block_offset(1) [OF assms]
    by (simp add: carquet_bloom_filter_check_hash_def bloom_filter_block_check_def Let_def)
qed

lemma merge_loop_or:
  assumes "length d = n" and "length s = n" and "i \<le> n"
  shows "merge_loop d s n i = Some (take i d @ map2 (OR) (drop i d) (drop i s))"
  using assms
proof (induction "n - i" arbitrary: i d)
  case 0
  then show ?case by (subst merge_loop.simps) simp
next
  case (Suc m)
  then have i: "i < n" by simp
  have "merge_loop (d[i := d ! i OR s ! i]) s n (Suc i) = Some (take (Suc i) (d[i := d ! i OR s ! i]) @
     map2 (OR) (drop (Suc i) d) (drop (Suc i) s))"
    using Suc i by simp
  also have "\<dots> = Some (take i d @ map2 (OR) (drop i d) (drop i s))"
    using i Suc.prems by (simp add: take_Suc_conv_app_nth drop_eq_Cons [of i])
  finally show ?case using i Suc.prems by (subst merge_loop.simps) simp
qed

lemma merge_bits:
  assumes "bloom_wf f" and "bloom_wf g" and "num_blocks g = num_blocks f"
  shows "\<exists>f'. carquet_bloom_filter_merge (Some f) (Some g) = Some (CARQUET_OK, Some f') \<and> bloom_wf f' \<and>
     num_blocks f' = num_blocks f \<and> filter_bits f' = filter_bits f \<union> filter_bits g"
proof -
  obtain d s where d: "bf_data f = Some d" "length d = num_bytes f"
    and s: "bf_data g = Some s" "length s = num_bytes f" and n: "num_bytes g = num_bytes f"
    using assms by (auto simp: bloom_wf_def)
  let ?d = "map2 (OR) d s"
  have "carquet_bloom_filter_merge (Some f) (Some g) = Some (CARQUET_OK, Some (f\<lparr>bf_data := Some ?d\<rparr>))"
    using d s n merge_loop_or [OF d(2) s(2), of 0] by (simp add: carquet_bloom_filter_merge_def block_bytes_def)
  moreover have "bloom_wf (f\<lparr>bf_data := Some ?d\<rparr>)" using assms(1) d s by (simp add: bloom_wf_def)
  moreover have "filter_bits (f\<lparr>bf_data := Some ?d\<rparr>) = filter_bits f \<union> filter_bits g"
    using d s by (auto simp: filter_bits_def block_bytes_def bit_at_def bit_simps)
  ultimately show ?thesis by auto
qed

section \<open>What a filter promises\<close>

text \<open>C21: the bit-level code refines the set specification: on a well-formed filter an insertion
  stays inside the filter and is the union with the eight bits of the hash, a lookup is the inclusion
  of those bits, and a merge of filters of one size is the union of the two sets.\<close>

theorem bloom_refines_set:
  assumes "bloom_wf f" and "bloom_wf g" and "num_blocks g = num_blocks f"
  shows "(\<exists>f'. carquet_bloom_filter_insert_hash (Some f) hash = Some (Some f') \<and> bloom_wf f' \<and>
       filter_bits f' = filter_bits f \<union> hash_bits (num_blocks f) hash)
   \<and> carquet_bloom_filter_check_hash (Some f) hash = Some (hash_bits (num_blocks f) hash \<subseteq> filter_bits f)
   \<and> (\<exists>f'. carquet_bloom_filter_merge (Some f) (Some g) = Some (CARQUET_OK, Some f') \<and> bloom_wf f' \<and>
       filter_bits f' = filter_bits f \<union> filter_bits g)"
  using insert_hash_bits [OF assms(1)] check_hash_bits [OF assms(1)] merge_bits [OF assms] by blast

definition sample_filter :: carquet_bloom_filter where
  "sample_filter = \<lparr>bf_data = Some (replicate 64 0), num_bytes = 64, num_blocks = 2, owns_data = True\<rparr>"

lemma sample_filter_wf: "bloom_wf sample_filter"
  by (simp add: bloom_wf_def sample_filter_def)

theorem bloom_refines_set_witness:
  "carquet_bloom_filter_check_hash (Some sample_filter) 7 = Some (hash_bits 2 7 \<subseteq> filter_bits sample_filter)"
  using bloom_refines_set [OF sample_filter_wf sample_filter_wf refl, of 7] by (simp add: sample_filter_def)

text \<open>Values by type, and the steps a filter can take after it was filled.\<close>

datatype bloom_value = Int32 u32 | Int64 u64 | Float u32 | Double u64 | Byte_array "u8 list"

fun insert_value :: "carquet_bloom_filter option \<Rightarrow> bloom_value \<Rightarrow> carquet_bloom_filter option option" where
  "insert_value f (Int32 v) = carquet_bloom_filter_insert_i32 f v"
| "insert_value f (Int64 v) = carquet_bloom_filter_insert_i64 f v"
| "insert_value f (Float v) = carquet_bloom_filter_insert_float f v"
| "insert_value f (Double v) = carquet_bloom_filter_insert_double f v"
| "insert_value f (Byte_array v) = carquet_bloom_filter_insert_bytes f v"

fun check_value :: "carquet_bloom_filter option \<Rightarrow> bloom_value \<Rightarrow> bool option" where
  "check_value f (Int32 v) = carquet_bloom_filter_check_i32 f v"
| "check_value f (Int64 v) = carquet_bloom_filter_check_i64 f v"
| "check_value f (Float v) = carquet_bloom_filter_check_float f v"
| "check_value f (Double v) = carquet_bloom_filter_check_double f v"
| "check_value f (Byte_array v) = carquet_bloom_filter_check_bytes f v"

fun value_hash :: "bloom_value \<Rightarrow> u64" where
  "value_hash (Int32 v) = xxh64_spec (le_bytes 4 v) 0"
| "value_hash (Int64 v) = xxh64_spec (le_bytes 8 v) 0"
| "value_hash (Float v) = xxh64_spec (le_bytes 4 v) 0"
| "value_hash (Double v) = xxh64_spec (le_bytes 8 v) 0"
| "value_hash (Byte_array v) = xxh64_spec v 0"

inductive bloom_step :: "carquet_bloom_filter \<Rightarrow> carquet_bloom_filter \<Rightarrow> bool" where
  step_insert: "insert_value (Some f) v = Some (Some g) \<Longrightarrow> bloom_step f g"
| step_merge: "bloom_wf s \<Longrightarrow> carquet_bloom_filter_merge (Some f) (Some s) = Some (st, Some g) \<Longrightarrow> bloom_step f g"
| step_reload: "carquet_bloom_filter_write (Some f) (Some m) cap = Some (CARQUET_OK, m', Some n) \<Longrightarrow>
    carquet_bloom_filter_read A m' n = Some (CARQUET_OK, Some g) \<Longrightarrow> bloom_step f g"

inductive_cases bloom_stepE: "bloom_step f g"

lemma insert_value_hash: "insert_value f v = carquet_bloom_filter_insert_hash f (value_hash v)"
  by (cases v) (simp_all add: xxhash64_total carquet_bloom_filter_insert_i32_def
      carquet_bloom_filter_insert_i64_def carquet_bloom_filter_insert_float_def
      carquet_bloom_filter_insert_double_def carquet_bloom_filter_insert_bytes_def)

lemma check_value_hash: "check_value f v = carquet_bloom_filter_check_hash f (value_hash v)"
  by (cases v) (simp_all add: xxhash64_total carquet_bloom_filter_check_i32_def
      carquet_bloom_filter_check_i64_def carquet_bloom_filter_check_float_def
      carquet_bloom_filter_check_double_def carquet_bloom_filter_check_bytes_def)

lemma write_read_same:
  assumes wf: "bloom_wf f"
    and w: "carquet_bloom_filter_write (Some f) (Some m) cap = Some (CARQUET_OK, m', Some n)"
    and r: "carquet_bloom_filter_read A m' n = Some (CARQUET_OK, Some g)"
  shows "g = f\<lparr>owns_data := True\<rparr>"
proof -
  obtain d where d: "bf_data f = Some d" "length d = num_bytes f" using wf by (auto simp: bloom_wf_def)
  have n: "n = num_bytes f" and m': "\<exists>r. m' = Some (d @ r)" and "d \<noteq> []"
    using w d wf by (auto simp: carquet_bloom_filter_write_def run_simps rd_bytes_def wr_bytes_def block_bytes_def
        bloom_wf_def split: if_splits)
  then show ?thesis using r d wf
    by (auto simp: carquet_bloom_filter_read_def carquet_bloom_filter_from_data_def run_simps rd_bytes_def
        wr_bytes_def BLOOM_FILTER_BLOCK_SIZE_def carquet_mem_malloc_def bloom_wf_def split: if_splits option.splits)
qed

lemma step_grows:
  assumes "bloom_step f g" and wf: "bloom_wf f"
  shows "bloom_wf g \<and> num_blocks g = num_blocks f \<and> filter_bits f \<subseteq> filter_bits g"
  using assms(1)
proof (rule bloom_stepE)
  fix v assume "insert_value (Some f) v = Some (Some g)"
  then show ?thesis using insert_hash_bits [OF wf, of "value_hash v"] by (auto simp: insert_value_hash)
next
  fix s st assume s: "bloom_wf s" "carquet_bloom_filter_merge (Some f) (Some s) = Some (st, Some g)"
  show ?thesis
  proof (cases "num_blocks s = num_blocks f")
    case True
    then show ?thesis using merge_bits [OF wf s(1)] s(2) by auto
  next
    case False
    then have "g = f" using s wf by (auto simp: carquet_bloom_filter_merge_def bloom_wf_def)
    then show ?thesis using wf by simp
  qed
next
  fix m cap m' n A
  assume "carquet_bloom_filter_write (Some f) (Some m) cap = Some (CARQUET_OK, m', Some n)"
    "carquet_bloom_filter_read A m' n = Some (CARQUET_OK, Some g)"
  then have "g = f\<lparr>owns_data := True\<rparr>" by (rule write_read_same [OF wf])
  then show ?thesis using wf by (auto simp: bloom_wf_def filter_bits_def)
qed

lemma steps_grow:
  "bloom_step\<^sup>*\<^sup>* f g \<Longrightarrow> bloom_wf f \<Longrightarrow> bloom_wf g \<and> num_blocks g = num_blocks f \<and> filter_bits f \<subseteq> filter_bits g"
proof (induction rule: rtranclp_induct)
  case base
  then show ?case by simp
next
  case (step g h)
  then show ?case using step_grows [of g h] by auto
qed

text \<open>C19: no false negatives. Once a value of any type was inserted, every later lookup of it answers
  true (and stays in bounds), whatever other values are inserted, filters merged in (also ones whose size does
  not fit, which are refused) and however often the filter is written out and read back.\<close>

theorem no_false_negatives:
  assumes "bloom_wf f" and "insert_value (Some f) v = Some (Some g)" and "bloom_step\<^sup>*\<^sup>* g h"
  shows "check_value (Some h) v = Some True"
proof -
  have g: "bloom_wf g" "num_blocks g = num_blocks f" "hash_bits (num_blocks f) (value_hash v) \<subseteq> filter_bits g"
    using insert_hash_bits [OF assms(1), of "value_hash v"] assms(2) by (auto simp: insert_value_hash)
  have h: "bloom_wf h" "num_blocks h = num_blocks g" "filter_bits g \<subseteq> filter_bits h"
    using steps_grow [OF assms(3) g(1)] by auto
  show ?thesis using check_hash_bits [OF h(1)] g h by (auto simp: check_value_hash)
qed

lemma sample_insert: "\<exists>g. insert_value (Some sample_filter) (Int32 42) = Some (Some g)"
  unfolding insert_value_hash using insert_hash_bits [OF sample_filter_wf] by blast

theorem no_false_negatives_witness:
  "\<exists>g. insert_value (Some sample_filter) (Int32 42) = Some (Some g) \<and> check_value (Some g) (Int32 42) = Some True"
  using no_false_negatives [OF sample_filter_wf _ rtranclp.rtrancl_refl] sample_insert by blast


lemma create_size:
  assumes "n0 \<le> SIZE_MAX - 31"
  shows "sz ((if n0 < 32 then 32 else n0) + 32 - 1) div 32 * 32 = ((if n0 < 32 then 32 else n0) + 31) div 32 * 32"
  using assms by (simp add: sz_id SIZE_MAX_def)

text \<open>A filter created for any size that a round-up to 32 bytes does not overflow is well formed, holds
  at least the bytes asked for, less than a block more, and answers false to every lookup.\<close>

theorem bloom_create_empty:
  assumes "n0 \<le> SIZE_MAX - 31" and "carquet_bloom_filter_create A n0 = Some f"
  shows "bloom_wf f \<and> n0 \<le> num_bytes f \<and> num_bytes f < max 1 n0 + 32 \<and> check_value (Some f) v = Some False"
proof -
  define n where "n = ((if n0 < 32 then 32 else n0) + 31) div 32 * 32"
  have n: "n0 \<le> n" "0 < n" "n < max 1 n0 + 32" "n < 2 ^ 64" "n = 32 * (n div 32)"
    using assms(1) unfolding n_def SIZE_MAX_def by auto
  have f: "f = \<lparr>bf_data = Some (replicate n 0), num_bytes = n, num_blocks = n div 32, owns_data = True\<rparr>"
    using assms(2) create_size [OF assms(1)]
    by (simp add: carquet_bloom_filter_create_def BLOOM_FILTER_BLOCK_SIZE_def Let_def carquet_mem_calloc_def
        carquet_mem_malloc_def n_def split: option.splits if_splits)
  then have wf: "bloom_wf f" using n by (auto simp: bloom_wf_def)
  have "filter_bits f = {}" by (auto simp: f filter_bits_def block_bytes_def bit_at_def)
  moreover have "hash_bits (num_blocks f) (value_hash v) \<noteq> {}" by (simp add: hash_bits_def)
  ultimately show ?thesis using wf n f check_hash_bits [OF wf] by (simp add: check_value_hash)
qed

definition all_ok :: allocator where
  "all_ok = \<lparr>alloc_ok = (\<lambda>_. True), fresh = (\<lambda>_. 0)\<rparr>"

lemma sample_create: "\<exists>f. carquet_bloom_filter_create all_ok 40 = Some f"
  by (simp add: carquet_bloom_filter_create_def Let_def carquet_mem_calloc_def carquet_mem_malloc_def
      all_ok_def SIZE_MAX_def SIZEOF_FILTER_def sz_def BLOOM_FILTER_BLOCK_SIZE_def)

theorem bloom_create_empty_witness:
  "\<exists>f. carquet_bloom_filter_create all_ok 40 = Some f \<and> check_value (Some f) (Int64 9) = Some False"
  using bloom_create_empty [of 40 all_ok _ "Int64 9"] sample_create by (auto simp: SIZE_MAX_def)

text \<open>C40: the rounding of the size wraps. For a size within 31 bytes of SIZE_MAX the allocation asks
  for zero bytes; where the allocator grants that, the filter has no block and every insertion
  writes outside it.\<close>

theorem bloom_create_wraps:
  assumes "SIZE_MAX - 31 < n0" and "n0 \<le> SIZE_MAX" and "alloc_ok A 0" and "alloc_ok A SIZEOF_FILTER"
  shows "\<exists>f. carquet_bloom_filter_create A n0 = Some f \<and> num_blocks f = 0 \<and> insert_value (Some f) v = None"
proof -
  have "sz (31 + n0) = n0 + 31 - 2 ^ 64"
    using assms(1,2) by (simp add: sz_def SIZE_MAX_def mod_if le_mod_geq)
  then have "sz (31 + n0) div 32 = 0" using assms(1,2) by (simp add: SIZE_MAX_def)
  moreover have "\<not> n0 < 32" using assms(1) by (simp add: SIZE_MAX_def)
  ultimately have "carquet_bloom_filter_create A n0 =
      Some \<lparr>bf_data = Some [], num_bytes = 0, num_blocks = 0, owns_data = True\<rparr>"
    using assms(3,4) by (simp add: carquet_bloom_filter_create_def Let_def carquet_mem_calloc_def
      carquet_mem_malloc_def BLOOM_FILTER_BLOCK_SIZE_def SIZEOF_FILTER_def SIZE_MAX_def)
  moreover have "block_insert_loop [] i k 0 = None" for i k
    by (subst block_insert_loop.simps) (simp add: read_u32_le_word)
  ultimately show ?thesis
    by (simp add: insert_value_hash carquet_bloom_filter_insert_hash_def bloom_filter_block_insert_def Let_def)
qed

theorem bloom_create_wraps_witness:
  "\<exists>f. carquet_bloom_filter_create all_ok SIZE_MAX = Some f \<and> insert_value (Some f) (Int32 1) = None"
  using bloom_create_wraps [of SIZE_MAX all_ok "Int32 1"] by (auto simp: SIZE_MAX_def all_ok_def)

end
