(* ===== verification/Arena.thy ===== *)
theory Arena
  imports Buffer
begin

text \<open>
  Component src/core/arena.c and arena.h: the bump allocator the metadata parser takes its
  structures from.

  Here addresses matter, so a pointer is a natural number below \<open>2 ^ 64\<close>. The linked list of blocks
  is a list, a pointer to a block is its index, and a block holds the address of its data. The heap
  allocator is a parameter: given the blocks that are live and a number of bytes, the address of a
  new region or None. The contents of memory are a function from addresses to bytes.
\<close>

section \<open>Blocks\<close>

definition CARQUET_ARENA_DEFAULT_BLOCK_SIZE :: nat where
  "CARQUET_ARENA_DEFAULT_BLOCK_SIZE = 64 * 1024"

definition CARQUET_ARENA_ALIGNMENT :: nat where
  "CARQUET_ARENA_ALIGNMENT = 16"

record carquet_arena_block =
  blk_data :: nat
  blk_size :: nat
  blk_used :: nat

record carquet_arena =
  arena_blocks :: "carquet_arena_block list"
  arena_current :: "nat option"
  default_block_size :: nat
  total_allocated :: nat
  total_capacity :: nat

type_synonym heap_malloc = "carquet_arena_block list \<Rightarrow> nat \<Rightarrow> nat option"

text \<open>\<open>offsetof(carquet_arena_block_t, u)\<close>: three words of eight bytes.\<close>

definition HEADER_SIZE :: nat where
  "HEADER_SIZE = 24"

definition align_up :: "nat \<Rightarrow> nat \<Rightarrow> nat" where
  "align_up v alignment =
     (if alignment = 0 \<or> v > SIZE_MAX - (alignment - 1) then SIZE_MAX
      else unat ((of_nat (v + alignment - 1) :: u64) AND NOT (of_nat (alignment - 1))))"

definition arena_new_block :: "heap_malloc \<Rightarrow> carquet_arena_block list \<Rightarrow> nat \<Rightarrow> carquet_arena_block option" where
  "arena_new_block M bs min_size = (let
     block_size = (if min_size < CARQUET_ARENA_DEFAULT_BLOCK_SIZE then CARQUET_ARENA_DEFAULT_BLOCK_SIZE
                   else align_up min_size CARQUET_ARENA_DEFAULT_BLOCK_SIZE)
   in if block_size = SIZE_MAX then None
      else case add_overflows_size HEADER_SIZE block_size of
        None \<Rightarrow> None
      | Some alloc_size \<Rightarrow>
         (case M bs alloc_size of
            None \<Rightarrow> None
          | Some p \<Rightarrow> Some \<lparr>blk_data = p + HEADER_SIZE, blk_size = block_size, blk_used = 0\<rparr>))"

section \<open>The arena\<close>

definition carquet_arena_init_size :: "heap_malloc \<Rightarrow> nat \<Rightarrow> carquet_status \<times> carquet_arena" where
  "carquet_arena_init_size M block_size = (let
     a = \<lparr>arena_blocks = [], arena_current = None, default_block_size = block_size,
          total_allocated = 0, total_capacity = 0\<rparr>
   in case arena_new_block M [] block_size of
        None \<Rightarrow> (CARQUET_ERROR_OUT_OF_MEMORY, a)
      | Some b \<Rightarrow> (CARQUET_OK, a\<lparr>arena_blocks := [b], arena_current := Some 0, total_capacity := blk_size b\<rparr>))"

definition carquet_arena_init :: "heap_malloc \<Rightarrow> carquet_status \<times> carquet_arena" where
  "carquet_arena_init M = carquet_arena_init_size M CARQUET_ARENA_DEFAULT_BLOCK_SIZE"

definition carquet_arena_destroy :: "carquet_arena \<Rightarrow> carquet_arena" where
  "carquet_arena_destroy a =
     a\<lparr>arena_blocks := [], arena_current := None, total_allocated := 0, total_capacity := 0\<rparr>"

definition carquet_arena_reset :: "carquet_arena \<Rightarrow> carquet_arena" where
  "carquet_arena_reset a =
     a\<lparr>arena_blocks := map (\<lambda>b. b\<lparr>blk_used := 0\<rparr>) (arena_blocks a),
       arena_current := (if arena_blocks a = [] then None else Some 0), total_allocated := 0\<rparr>"

definition arena_aligned_offset :: "carquet_arena_block \<Rightarrow> nat \<Rightarrow> nat \<Rightarrow> nat" where
  "arena_aligned_offset b current_used alignment = (let
     base = (of_nat (blk_data b) :: u64);
     current_addr = base + of_nat current_used;
     aligned_addr = (current_addr + of_nat alignment - 1) AND NOT (of_nat alignment - 1)
   in unat (aligned_addr - base))"

text \<open>The search through the blocks after the current one: the loop \<open>while (block->next)\<close>.\<close>

datatype block_search = Search_overflow | Search_fits nat nat nat | Search_exhausted

function try_next_blocks :: "carquet_arena \<Rightarrow> nat \<Rightarrow> nat \<Rightarrow> nat \<Rightarrow> block_search" where
  "try_next_blocks a i n alignment =
     (if i + 1 < length (arena_blocks a) then let
        b = arena_blocks a ! (i + 1);
        aligned_offset = arena_aligned_offset b (blk_used b) alignment
      in case add_overflows_size aligned_offset n of
           None \<Rightarrow> Search_overflow
         | Some new_used \<Rightarrow>
             if new_used \<le> blk_size b then Search_fits (i + 1) aligned_offset new_used
             else try_next_blocks a (i + 1) n alignment
      else Search_exhausted)"
  by pat_completeness auto
termination by (relation "measure (\<lambda>(a, i, n, al). length (arena_blocks a) - i)") auto

declare try_next_blocks.simps [simp del]

text \<open>\<open>block->used = new_used; arena->total_allocated += size\<close> for the block at an index.\<close>

definition use_block :: "carquet_arena \<Rightarrow> nat \<Rightarrow> nat \<Rightarrow> nat \<Rightarrow> carquet_arena" where
  "use_block a i new_used n =
     a\<lparr>arena_blocks := (arena_blocks a)[i := (arena_blocks a ! i)\<lparr>blk_used := new_used\<rparr>],
       total_allocated := sz (total_allocated a + n)\<rparr>"

text \<open>
  The three parts of an allocation: in the current block, in a later one, in a new one. The result
  is None where the assertion that the arena has a current block fails; otherwise the pointer
  (None is NULL) and the new state.
\<close>

definition alloc_in_new_block ::
  "heap_malloc \<Rightarrow> carquet_arena \<Rightarrow> nat \<Rightarrow> nat \<Rightarrow> nat option \<times> carquet_arena" where
  "alloc_in_new_block M a n alignment =
     (case add_overflows_size n alignment of
        None \<Rightarrow> (None, a)
      | Some needed \<Rightarrow>
         (case arena_new_block M (arena_blocks a)
             (if needed > default_block_size a then needed else default_block_size a) of
            None \<Rightarrow> (None, a)
          | Some nb \<Rightarrow> (let
              i = length (arena_blocks a);
              a1 = a\<lparr>arena_blocks := arena_blocks a @ [nb], arena_current := Some i,
                     total_capacity := sz (total_capacity a + blk_size nb)\<rparr>;
              off = arena_aligned_offset nb (blk_used nb) alignment
            in case add_overflows_size off n of
                 None \<Rightarrow> (None, a1)
               | Some new_used \<Rightarrow> (Some (blk_data nb + off), use_block a1 i new_used n))))"

definition alloc_in_next_blocks ::
  "heap_malloc \<Rightarrow> carquet_arena \<Rightarrow> nat \<Rightarrow> nat \<Rightarrow> nat \<Rightarrow> nat option \<times> carquet_arena" where
  "alloc_in_next_blocks M a c n alignment =
     (case try_next_blocks a c n alignment of
        Search_overflow \<Rightarrow> (None, a)
      | Search_fits i off new_used \<Rightarrow>
          (Some (blk_data (arena_blocks a ! i) + off), use_block (a\<lparr>arena_current := Some i\<rparr>) i new_used n)
      | Search_exhausted \<Rightarrow> alloc_in_new_block M a n alignment)"

definition carquet_arena_alloc_aligned ::
  "heap_malloc \<Rightarrow> carquet_arena \<Rightarrow> nat \<Rightarrow> nat \<Rightarrow> (nat option \<times> carquet_arena) option" where
  "carquet_arena_alloc_aligned M a n alignment0 =
     (if n = 0 then Some (None, a)
      else do {
        let alignment = (if alignment0 = 0 then 1 else alignment0);
        c \<leftarrow> arena_current a;
        b \<leftarrow> rd (arena_blocks a) c;
        let aligned_offset = arena_aligned_offset b (blk_used b) alignment;
        Some (case add_overflows_size aligned_offset n of
            None \<Rightarrow> (None, a)
          | Some new_used \<Rightarrow>
              if new_used \<le> blk_size b then (Some (blk_data b + aligned_offset), use_block a c new_used n)
              else alloc_in_next_blocks M a c n alignment)
      })"

definition carquet_arena_alloc ::
  "heap_malloc \<Rightarrow> carquet_arena \<Rightarrow> nat \<Rightarrow> (nat option \<times> carquet_arena) option" where
  "carquet_arena_alloc M a n = carquet_arena_alloc_aligned M a n CARQUET_ARENA_ALIGNMENT"

section \<open>Allocations with contents\<close>

type_synonym arena_memory = "nat \<Rightarrow> u8"

text \<open>\<open>memcpy\<close> or \<open>memset\<close> to an address.\<close>

definition mem_store :: "arena_memory \<Rightarrow> nat \<Rightarrow> u8 list \<Rightarrow> arena_memory" where
  "mem_store m p bs = (\<lambda>x. if p \<le> x \<and> x < p + length bs then bs ! (x - p) else m x)"

definition carquet_arena_calloc ::
  "heap_malloc \<Rightarrow> carquet_arena \<Rightarrow> arena_memory \<Rightarrow> nat \<Rightarrow> nat \<Rightarrow>
   (nat option \<times> carquet_arena \<times> arena_memory) option" where
  "carquet_arena_calloc M a m count n = (let all = sz (count * n) in
     if count \<noteq> 0 \<and> all div count \<noteq> n then Some (None, a, m)
     else do {
       (p, a') \<leftarrow> carquet_arena_alloc M a all;
       Some (p, a', case p of None \<Rightarrow> m | Some q \<Rightarrow> mem_store m q (replicate all 0))
     })"

text \<open>The length of a C string up to \<open>max_len\<close>; None when the string runs off its array.\<close>

function strnlen_loop :: "u8 list \<Rightarrow> nat \<Rightarrow> nat \<Rightarrow> nat option" where
  "strnlen_loop str max_len len =
     (if len < max_len then do {
        ch \<leftarrow> rd str len;
        if ch \<noteq> 0 then strnlen_loop str max_len (len + 1) else Some len
      } else Some len)"
  by pat_completeness auto
termination by (relation "measure (\<lambda>(s, n, l). n - l)") auto

declare strnlen_loop.simps [simp del]

definition carquet_arena_strndup ::
  "heap_malloc \<Rightarrow> carquet_arena \<Rightarrow> arena_memory \<Rightarrow> u8 list option \<Rightarrow> nat \<Rightarrow>
   (nat option \<times> carquet_arena \<times> arena_memory) option" where
  "carquet_arena_strndup M a m str max_len =
     (case str of
        None \<Rightarrow> Some (None, a, m)
      | Some s \<Rightarrow> do {
          len \<leftarrow> strnlen_loop s max_len 0;
          (p, a') \<leftarrow> carquet_arena_alloc_aligned M a (sz (len + 1)) 1;
          Some (p, a', case p of None \<Rightarrow> m | Some q \<Rightarrow> mem_store m q (take len s @ [0]))
        })"

text \<open>\<open>strlen\<close>: the index of the first zero byte.\<close>

definition c_strlen :: "u8 list \<Rightarrow> nat option" where
  "c_strlen s = (if 0 \<in> set s then Some (length (takeWhile (\<lambda>b. b \<noteq> 0) s)) else None)"

definition carquet_arena_strdup ::
  "heap_malloc \<Rightarrow> carquet_arena \<Rightarrow> arena_memory \<Rightarrow> u8 list option \<Rightarrow>
   (nat option \<times> carquet_arena \<times> arena_memory) option" where
  "carquet_arena_strdup M a m str =
     (case str of
        None \<Rightarrow> Some (None, a, m)
      | Some s \<Rightarrow> do {
          n \<leftarrow> c_strlen s;
          carquet_arena_strndup M a m str n
        })"

definition carquet_arena_memdup ::
  "heap_malloc \<Rightarrow> carquet_arena \<Rightarrow> arena_memory \<Rightarrow> u8 list option \<Rightarrow> nat \<Rightarrow>
   (nat option \<times> carquet_arena \<times> arena_memory) option" where
  "carquet_arena_memdup M a m src n =
     (case src of
        None \<Rightarrow> Some (None, a, m)
      | Some s \<Rightarrow>
         (if n = 0 then Some (None, a, m)
          else do {
            (p, a') \<leftarrow> carquet_arena_alloc M a n;
            (case p of
               None \<Rightarrow> Some (None, a', m)
             | Some q \<Rightarrow> do { bs \<leftarrow> rd_bytes s 0 n; Some (p, a', mem_store m q bs) })
          }))"

section \<open>Save and restore\<close>

record carquet_arena_mark =
  mark_block :: nat
  mark_used :: nat
  mark_total_allocated :: nat

definition carquet_arena_save :: "carquet_arena \<Rightarrow> carquet_arena_mark option" where
  "carquet_arena_save a = do {
     c \<leftarrow> arena_current a;
     b \<leftarrow> rd (arena_blocks a) c;
     Some \<lparr>mark_block = c, mark_used = blk_used b, mark_total_allocated = total_allocated a\<rparr>
   }"

definition carquet_arena_restore :: "carquet_arena \<Rightarrow> carquet_arena_mark \<Rightarrow> carquet_arena" where
  "carquet_arena_restore a mk = (let
     i = mark_block mk;
     bs = take (i + 1) (arena_blocks a) @ map (\<lambda>b. b\<lparr>blk_used := 0\<rparr>) (drop (i + 1) (arena_blocks a))
   in a\<lparr>arena_blocks := bs[i := (bs ! i)\<lparr>blk_used := mark_used mk\<rparr>], arena_current := Some i,
        total_allocated := mark_total_allocated mk\<rparr>)"

definition carquet_arena_allocated :: "carquet_arena \<Rightarrow> nat" where
  "carquet_arena_allocated a = total_allocated a"

definition carquet_arena_capacity :: "carquet_arena \<Rightarrow> nat" where
  "carquet_arena_capacity a = total_capacity a"

section \<open>Alignment\<close>

lemma and_not_low: "unat (x AND NOT (2 ^ k - 1)) = unat x - unat x mod 2 ^ k" for x :: "'a::len word"
proof -
  have m: "2 ^ k - 1 = (mask k :: 'a word)" by (simp add: mask_eq_exp_minus_1)
  have "x AND NOT (mask k) = x - take_bit k x"
  proof -
    have "(x AND mask k) AND (x AND NOT (mask k)) = 0" by (rule bit_word_eqI) (auto simp: bit_simps)
    then have "(x AND mask k) + (x AND NOT (mask k)) = (x AND mask k) OR (x AND NOT (mask k))"
      by (rule disjunctive_add_eq_or)
    also have "\<dots> = x" by (rule bit_word_eqI) (auto simp: bit_simps)
    finally show ?thesis by (simp add: take_bit_eq_mask algebra_simps)
  qed
  moreover have "take_bit k x \<le> x" by (simp add: word_le_nat_alt unsigned_take_bit_eq take_bit_nat_less_eq_self)
  moreover have "unat (take_bit k x) = unat x mod 2 ^ k"
    by (simp only: unsigned_take_bit_eq) (simp only: take_bit_eq_mod)
  ultimately show ?thesis unfolding m by (simp only: unat_sub)
qed

lemma align_up_bounds:
  assumes "align_up v (2 ^ k) \<noteq> SIZE_MAX" and "k < 64"
  shows "v \<le> align_up v (2 ^ k)"
proof -
  have p: "0 < (2::nat) ^ k" by simp
  have v: "v + 2 ^ k - 1 < 2 ^ 64"
  proof -
    have "v \<le> SIZE_MAX - (2 ^ k - 1)" using assms(1) by (auto simp: align_up_def split: if_splits)
    moreover have "(2::nat) ^ k < 2 ^ 64" using assms(2) by (rule power_strict_increasing) simp
    ultimately show ?thesis using p unfolding SIZE_MAX_def by linarith
  qed
  have "of_nat (2 ^ k - 1) = (2 ^ k - 1 :: u64)" by (simp add: of_nat_diff)
  then have "align_up v (2 ^ k) = unat ((of_nat (v + 2 ^ k - 1) :: u64) AND NOT (2 ^ k - 1))"
    using assms(1) by (auto simp: align_up_def split: if_splits)
  also have "\<dots> = (v + 2 ^ k - 1) - (v + 2 ^ k - 1) mod 2 ^ k"
    using v by (simp add: and_not_low unat_of_nat)
  also have "\<dots> \<ge> v" using mod_less_divisor [OF p, of "v + 2 ^ k - 1"] by linarith
  finally show ?thesis .
qed

lemma aligned_offset:
  assumes "blk_data b + u + 2 ^ k \<le> 2 ^ 64"
  shows "u \<le> arena_aligned_offset b u (2 ^ k)" 
    and "arena_aligned_offset b u (2 ^ k) < u + 2 ^ k"
    and "(blk_data b + arena_aligned_offset b u (2 ^ k)) mod 2 ^ k = 0"
proof -
  let ?off = "arena_aligned_offset b u (2 ^ k)"
  define x where "x = blk_data b + u + 2 ^ k - 1"
  have p: "0 < (2::nat) ^ k" by simp
  have x: "x < 2 ^ 64" using assms p unfolding x_def by linarith
  have d: "blk_data b < 2 ^ 64" using assms p by linarith
  have "Suc x = blk_data b + u + 2 ^ k" using p unfolding x_def by linarith
  then have "(of_nat (Suc x) :: u64) = of_nat (blk_data b) + of_nat u + of_nat (2 ^ k)"
    by (simp only: of_nat_add)
  then have wx: "of_nat (blk_data b) + of_nat u + of_nat (2 ^ k) - 1 = (of_nat x :: u64)"
    by (simp add: algebra_simps)
  define y where "y = x - x mod 2 ^ k"
  have y: "blk_data b + u \<le> y" "y \<le> x" "y mod 2 ^ k = 0"
    using mod_less_divisor [OF p, of x] p unfolding y_def x_def
    by (linarith, simp, simp add: minus_mod_eq_mult_div)
  have k2: "(of_nat (2 ^ k) :: u64) - 1 = 2 ^ k - 1" by simp
  define z where "z = (of_nat x :: u64) AND NOT (2 ^ k - 1)"
  have z: "unat z = y" unfolding z_def and_not_low using x by (simp add: unat_of_nat y_def)
  have le: "(of_nat (blk_data b) :: u64) \<le> z"
    unfolding word_le_nat_alt z using d y by (simp add: unat_of_nat)
  have off: "?off = y - blk_data b"
    unfolding arena_aligned_offset_def Let_def wx k2 z_def [symmetric]
    using le z d by (simp add: unat_sub unat_of_nat)
  show "u \<le> ?off" unfolding off using y by linarith
  show "?off < u + 2 ^ k" unfolding off using y p unfolding x_def by linarith
  have "blk_data b + ?off = y" unfolding off using y by linarith
  then show "(blk_data b + ?off) mod 2 ^ k = 0" using y by simp
qed

section \<open>The invariant of the arena\<close>

text \<open>
  What the code relies on of the heap: a region it hands out lies in the lower half of the address
  space, as user addresses do, and overlaps no live block.
\<close>

definition apart :: "carquet_arena_block \<Rightarrow> carquet_arena_block \<Rightarrow> bool" where
  "apart b c \<longleftrightarrow> blk_data b + blk_size b \<le> blk_data c \<or> blk_data c + blk_size c \<le> blk_data b"

definition malloc_ok :: "heap_malloc \<Rightarrow> bool" where
  "malloc_ok M \<longleftrightarrow> (\<forall>bs n p. M bs n = Some p \<longrightarrow> p + n \<le> 2 ^ 63 \<and>
     (\<forall>b \<in> set bs. p + n \<le> blk_data b \<or> blk_data b + blk_size b \<le> p))"

definition block_ok :: "carquet_arena_block \<Rightarrow> bool" where
  "block_ok b \<longleftrightarrow> blk_used b \<le> blk_size b \<and> blk_data b + blk_size b \<le> 2 ^ 63"

text \<open>Every block is in bounds, no two overlap, and the blocks after the current one are empty.\<close>

definition arena_wf :: "carquet_arena \<Rightarrow> bool" where
  "arena_wf a \<longleftrightarrow> (\<exists>c. arena_current a = Some c \<and> c < length (arena_blocks a) \<and>
       (\<forall>b \<in> set (drop (c + 1) (arena_blocks a)). blk_used b = 0)) \<and>
     (\<forall>b \<in> set (arena_blocks a). block_ok b) \<and> sorted_wrt apart (arena_blocks a)"

lemma new_block_fresh:
  assumes "malloc_ok M" and "arena_new_block M bs n = Some nb"
  shows "n \<le> blk_size nb" and "blk_used nb = 0" and "block_ok nb" and "\<forall>b \<in> set bs. apart b nb"
proof -
  define s where "s = (if n < CARQUET_ARENA_DEFAULT_BLOCK_SIZE then CARQUET_ARENA_DEFAULT_BLOCK_SIZE
                   else align_up n CARQUET_ARENA_DEFAULT_BLOCK_SIZE)"
  obtain p where p: "s \<noteq> SIZE_MAX" "M bs (HEADER_SIZE + s) = Some p"
    and nb: "nb = \<lparr>blk_data = p + HEADER_SIZE, blk_size = s, blk_used = 0\<rparr>"
    using assms(2) by (auto simp: arena_new_block_def Let_def s_def [symmetric] add_overflows_size_def
        split: if_splits option.splits)
  have "n \<le> s"
    using align_up_bounds [of n 16] p(1) by (auto simp: s_def CARQUET_ARENA_DEFAULT_BLOCK_SIZE_def)
  then show "n \<le> blk_size nb" "blk_used nb = 0" by (simp_all add: nb)
  have m: "p + (HEADER_SIZE + s) \<le> 2 ^ 63"
    "b \<in> set bs \<Longrightarrow> p + (HEADER_SIZE + s) \<le> blk_data b \<or> blk_data b + blk_size b \<le> p" for b
    using assms(1) p(2) unfolding malloc_ok_def by blast+
  show "block_ok nb" using m(1) by (simp add: block_ok_def nb)
  show "\<forall>b \<in> set bs. apart b nb" using m(2) by (fastforce simp: apart_def nb)
qed

lemma add_overflows_Some: "add_overflows_size x y = Some s \<Longrightarrow> s = x + y"
  by (auto simp: add_overflows_size_def split: if_splits)

lemma search_fits:
  "try_next_blocks a c n al = Search_fits i off nu \<Longrightarrow> c < i \<and> i < length (arena_blocks a) \<and>
     off = arena_aligned_offset (arena_blocks a ! i) (blk_used (arena_blocks a ! i)) al \<and>
     nu = off + n \<and> nu \<le> blk_size (arena_blocks a ! i)"
proof (induction a c n al rule: try_next_blocks.induct)
  case (1 a c n al)
  show ?case
  proof (cases "c + 1 < length (arena_blocks a)")
    case False
    then show ?thesis using 1 by (simp add: try_next_blocks.simps)
  next
    case True
    define b where "b = arena_blocks a ! (c + 1)"
    define off1 where "off1 = arena_aligned_offset b (blk_used b) al"
    have step: "try_next_blocks a c n al = (case add_overflows_size off1 n of
           None \<Rightarrow> Search_overflow
         | Some new_used \<Rightarrow>
             if new_used \<le> blk_size b then Search_fits (c + 1) off1 new_used
             else try_next_blocks a (c + 1) n al)"
      unfolding b_def off1_def by (subst try_next_blocks.simps) (simp only: True if_True Let_def)
    show ?thesis
    proof (cases "add_overflows_size off1 n")
      case None
      then show ?thesis using 1(2) by (simp add: step)
    next
      case (Some s)
      then have s: "s = off1 + n" by (rule add_overflows_Some)
      show ?thesis
      proof (cases "s \<le> blk_size b")
        case True': True
        then have "i = c + 1 \<and> off = off1 \<and> nu = s" using 1(2) Some by (simp add: step)
        then show ?thesis using True True' s unfolding b_def off1_def by simp
      next
        case False
        then have "try_next_blocks a (c + 1) n al = Search_fits i off nu" using 1(2) Some by (simp add: step)
        then show ?thesis using 1(1) [OF True b_def off1_def Some False] by simp
      qed
    qed
  qed
qed

text \<open>What a successful allocation does: it bumps one block at or after the current one, possibly a new last one.\<close>

definition allocated :: "carquet_arena \<Rightarrow> nat \<Rightarrow> nat \<Rightarrow> nat \<Rightarrow> carquet_arena \<Rightarrow> bool" where
  "allocated a q n al a' \<longleftrightarrow> (\<exists>bs c i off.
     (bs = arena_blocks a \<or> (\<exists>nb. bs = arena_blocks a @ [nb] \<and> blk_used nb = 0 \<and> block_ok nb \<and>
        (\<forall>b \<in> set (arena_blocks a). apart b nb))) \<and>
     arena_current a = Some c \<and> c \<le> i \<and> i < length bs \<and>
     blk_used (bs ! i) \<le> off \<and> off + n \<le> blk_size (bs ! i) \<and> q = blk_data (bs ! i) + off \<and> q mod al = 0 \<and>
     arena_blocks a' = bs[i := (bs ! i)\<lparr>blk_used := off + n\<rparr>] \<and> arena_current a' = Some i)"

lemma offset_ok:
  assumes "block_ok b" and "k \<le> 62"
  shows "blk_used b \<le> arena_aligned_offset b (blk_used b) (2 ^ k)"
    and "arena_aligned_offset b (blk_used b) (2 ^ k) < blk_used b + 2 ^ k"
    and "(blk_data b + arena_aligned_offset b (blk_used b) (2 ^ k)) mod 2 ^ k = 0"
proof -
  have "(2::nat) ^ k \<le> 2 ^ 62" using assms(2) by (rule power_increasing) simp
  then have "blk_data b + blk_used b + 2 ^ k \<le> 2 ^ 63 + 2 ^ 62" using assms(1) unfolding block_ok_def by linarith
  then have "blk_data b + blk_used b + 2 ^ k \<le> 2 ^ 64" by simp
  then show "blk_used b \<le> arena_aligned_offset b (blk_used b) (2 ^ k)"
    and "arena_aligned_offset b (blk_used b) (2 ^ k) < blk_used b + 2 ^ k"
    and "(blk_data b + arena_aligned_offset b (blk_used b) (2 ^ k)) mod 2 ^ k = 0"
    by (rule aligned_offset)+
qed

lemma alloc_new_block:
  assumes "malloc_ok M" and "k \<le> 62" and "add_overflows_size n (2 ^ k) = Some needed"
    and "arena_new_block M bs (if needed > d then needed else d) = Some nb"
  shows "add_overflows_size (arena_aligned_offset nb (blk_used nb) (2 ^ k)) n =
    Some (arena_aligned_offset nb (blk_used nb) (2 ^ k) + n)"
    and "arena_aligned_offset nb (blk_used nb) (2 ^ k) + n \<le> blk_size nb"
proof -
  note f = new_block_fresh [OF assms(1,4)]
  have n: "needed = n + 2 ^ k" using assms(3) by (rule add_overflows_Some)
  have off: "arena_aligned_offset nb (blk_used nb) (2 ^ k) < 2 ^ k"
    using offset_ok(2) [OF f(3) assms(2)] f(2) by simp
  then show le: "arena_aligned_offset nb (blk_used nb) (2 ^ k) + n \<le> blk_size nb"
    using f(1) n by (auto split: if_splits)
  have "blk_size nb \<le> 2 ^ 63" using f(3) by (simp add: block_ok_def)
  then show "add_overflows_size (arena_aligned_offset nb (blk_used nb) (2 ^ k)) n =
    Some (arena_aligned_offset nb (blk_used nb) (2 ^ k) + n)"
    using le by (simp add: add_overflows_size_def SIZE_MAX_def)
qed

definition alloc_outcome :: "carquet_arena \<Rightarrow> nat \<Rightarrow> nat \<Rightarrow> nat option \<times> carquet_arena \<Rightarrow> bool" where
  "alloc_outcome a n al r \<longleftrightarrow> (case r of (None, a') \<Rightarrow> a' = a | (Some q, a') \<Rightarrow> allocated a q n al a')"

lemma outcome_new_block:
  assumes "malloc_ok M" and "arena_current a = Some c" and "c < length (arena_blocks a)" and "k \<le> 62"
  shows "alloc_outcome a n (2 ^ k) (alloc_in_new_block M a n (2 ^ k))"
proof (cases "add_overflows_size n (2 ^ k)")
  case None
  then show ?thesis by (simp add: alloc_in_new_block_def alloc_outcome_def)
next
  case needed: (Some needed)
  show ?thesis
  proof (cases "arena_new_block M (arena_blocks a)
      (if needed > default_block_size a then needed else default_block_size a)")
    case None
    then show ?thesis using needed by (simp add: alloc_in_new_block_def alloc_outcome_def)
  next
    case (Some nb)
    note nf = new_block_fresh [OF assms(1) Some] and an = alloc_new_block [OF assms(1,4) needed Some]
    let ?i = "length (arena_blocks a)"
    let ?o = "arena_aligned_offset nb (blk_used nb) (2 ^ k)"
    let ?a1 = "a\<lparr>arena_blocks := arena_blocks a @ [nb], arena_current := Some ?i,
                  total_capacity := sz (total_capacity a + blk_size nb)\<rparr>"
    have "allocated a (blk_data nb + ?o) n (2 ^ k) (use_block ?a1 ?i (?o + n) n)"
      unfolding allocated_def
      by (rule exI [of _ "arena_blocks a @ [nb]"], rule exI [of _ c], rule exI [of _ ?i], rule exI [of _ ?o])
        (use assms(2,3) nf an offset_ok [OF nf(3) assms(4)] in \<open>simp add: use_block_def\<close>)
    then show ?thesis using Some needed an by (simp add: alloc_in_new_block_def alloc_outcome_def Let_def)
  qed
qed

lemma allocated_old:
  assumes "arena_current a = Some c" and "c \<le> i" and "i < length (arena_blocks a)"
    and "block_ok (arena_blocks a ! i)" and "k \<le> 62"
    and "off = arena_aligned_offset (arena_blocks a ! i) (blk_used (arena_blocks a ! i)) (2 ^ k)"
    and "off + n \<le> blk_size (arena_blocks a ! i)" and "arena_blocks a1 = arena_blocks a" and "arena_current a1 = Some i"
  shows "allocated a (blk_data (arena_blocks a ! i) + off) n (2 ^ k) (use_block a1 i (off + n) n)"
  unfolding allocated_def
  by (rule exI [of _ "arena_blocks a"], rule exI [of _ c], rule exI [of _ i], rule exI [of _ off])
    (use assms offset_ok [OF assms(4,5)] in \<open>simp add: use_block_def\<close>)

lemma outcome_next_blocks:
  assumes "malloc_ok M" and "arena_wf a" and "arena_current a = Some c" and "c < length (arena_blocks a)" and "k \<le> 62"
  shows "alloc_outcome a n (2 ^ k) (alloc_in_next_blocks M a c n (2 ^ k))"
proof (cases "try_next_blocks a c n (2 ^ k)")
  case Search_overflow
  then show ?thesis by (simp add: alloc_in_next_blocks_def alloc_outcome_def)
next
  case (Search_fits i off nu)
  note f = search_fits [OF Search_fits]
  then have "block_ok (arena_blocks a ! i)" using assms(2) by (simp add: arena_wf_def)
  then show ?thesis using Search_fits f assms(3,5)
    by (simp add: alloc_in_next_blocks_def alloc_outcome_def allocated_old)
next
  case Search_exhausted
  then show ?thesis using outcome_new_block [OF assms(1,3,4,5)] by (simp add: alloc_in_next_blocks_def)
qed

lemma alloc_cases:
  assumes "malloc_ok M" and "arena_wf a" and "k \<le> 62" and "0 < n"
  shows "\<exists>r. carquet_arena_alloc_aligned M a n (2 ^ k) = Some r \<and> alloc_outcome a n (2 ^ k) r"
proof -
  obtain c where c: "arena_current a = Some c" "c < length (arena_blocks a)"
    using assms(2) by (auto simp: arena_wf_def)
  have ok: "block_ok (arena_blocks a ! c)" using assms(2) c by (simp add: arena_wf_def)
  let ?off = "arena_aligned_offset (arena_blocks a ! c) (blk_used (arena_blocks a ! c)) (2 ^ k)"
  show ?thesis
  proof (cases "add_overflows_size ?off n")
    case None
    then show ?thesis using c assms(4) by (simp add: carquet_arena_alloc_aligned_def alloc_outcome_def)
  next
    case (Some nu)
    then have "nu = ?off + n" by (rule add_overflows_Some)
    then show ?thesis
      using Some c assms(4) allocated_old [OF c(1) order_refl c(2) ok assms(3) refl _ refl c(1), of n]
        outcome_next_blocks [OF assms(1,2) c assms(3), of n]
      by (simp add: carquet_arena_alloc_aligned_def Let_def alloc_outcome_def)
  qed
qed

section \<open>Runs of the arena\<close>

text \<open>
  The state of a run: the arena, the regions handed out and still live, and the marks saved, newest
  first, each with the regions that were live when it was taken. Restoring a mark ends the life of what
  was allocated since and drops the newer marks; a reset ends everything.
\<close>

type_synonym region = "nat \<times> nat"
type_synonym run_state = "carquet_arena \<times> region list \<times> (carquet_arena_mark \<times> region list) list"

inductive arena_step :: "heap_malloc \<Rightarrow> run_state \<Rightarrow> run_state \<Rightarrow> bool" for M where
  step_alloc: "carquet_arena_alloc_aligned M a n (2 ^ k) = Some (Some q, a') \<Longrightarrow> k \<le> 62 \<Longrightarrow>
    arena_step M (a, L, ms) (a', (q, n) # L, ms)"
| step_fail: "carquet_arena_alloc_aligned M a n (2 ^ k) = Some (None, a') \<Longrightarrow> k \<le> 62 \<Longrightarrow>
    arena_step M (a, L, ms) (a', L, ms)"
| step_save: "carquet_arena_save a = Some mk \<Longrightarrow> arena_step M (a, L, ms) (a, L, (mk, L) # ms)"
| step_restore: "arena_step M (a, L, newer @ (mk, L0) # ms) (carquet_arena_restore a mk, L0, (mk, L0) # ms)"
| step_reset: "arena_step M (a, L, ms) (carquet_arena_reset a, [], [])"

inductive_cases arena_stepE: "arena_step M s t"

definition separate :: "region \<Rightarrow> region \<Rightarrow> bool" where
  "separate r s \<longleftrightarrow> fst r + snd r \<le> fst s \<or> fst s + snd s \<le> fst r"

definition in_used :: "carquet_arena_block \<Rightarrow> region \<Rightarrow> bool" where
  "in_used b r \<longleftrightarrow> blk_data b \<le> fst r \<and> fst r + snd r \<le> blk_data b + blk_used b"

definition regions_ok :: "carquet_arena_block list \<Rightarrow> region list \<Rightarrow> bool" where
  "regions_ok bs L \<longleftrightarrow> (\<forall>r \<in> set L. \<exists>b \<in> set bs. in_used b r) \<and> sorted_wrt separate L"

text \<open>The blocks as a mark would restore them.\<close>

definition restored :: "carquet_arena_block list \<Rightarrow> nat \<Rightarrow> nat \<Rightarrow> carquet_arena_block list" where
  "restored bs i u = map (\<lambda>j. if j < i then bs ! j else (bs ! j)\<lparr>blk_used := if j = i then u else 0\<rparr>) [0..<length bs]"

lemma length_restored [simp]: "length (restored bs i u) = length bs"
  by (simp add: restored_def)

lemma nth_restored: "j < length bs \<Longrightarrow> restored bs i u ! j =
    (if j < i then bs ! j else (bs ! j)\<lparr>blk_used := if j = i then u else 0\<rparr>)"
  by (simp add: restored_def)

definition mark_ok :: "carquet_arena \<Rightarrow> carquet_arena_mark \<Rightarrow> region list \<Rightarrow> bool" where
  "mark_ok a mk L \<longleftrightarrow> (\<exists>c. arena_current a = Some c \<and> mark_block mk \<le> c) \<and>
     mark_used mk \<le> blk_used (arena_blocks a ! mark_block mk) \<and>
     regions_ok (restored (arena_blocks a) (mark_block mk) (mark_used mk)) L"

definition older :: "carquet_arena_mark \<Rightarrow> carquet_arena_mark \<Rightarrow> bool" where
  "older mk old \<longleftrightarrow> mark_block old < mark_block mk \<or> mark_block old = mark_block mk \<and> mark_used old \<le> mark_used mk"

fun run_ok :: "run_state \<Rightarrow> bool" where
  "run_ok (a, L, ms) \<longleftrightarrow> arena_wf a \<and> regions_ok (arena_blocks a) L \<and>
     (\<forall>(mk, L0) \<in> set ms. mark_ok a mk L0) \<and> sorted_wrt older (map fst ms)"

text \<open>Whether blocks are apart depends on where they are, not on how much is used.\<close>

definition extents :: "carquet_arena_block list \<Rightarrow> (nat \<times> nat) list" where
  "extents bs = map (\<lambda>b. (blk_data b, blk_size b)) bs"

lemma apart_extents: "sorted_wrt apart bs \<longleftrightarrow> sorted_wrt separate (extents bs)"
proof -
  have "apart = (\<lambda>x y. separate (blk_data x, blk_size x) (blk_data y, blk_size y))"
    by (simp add: fun_eq_iff apart_def separate_def)
  then show ?thesis by (simp only: extents_def sorted_wrt_map)
qed

lemma extents_update: "i < length bs \<Longrightarrow> extents (bs[i := (bs ! i)\<lparr>blk_used := u\<rparr>]) = extents bs"
  by (simp add: extents_def map_update list_update_same_conv)

lemma extents_restored: "extents (restored bs i u) = extents bs"
  by (rule nth_equalityI) (simp_all add: extents_def nth_restored)

lemma restore_blocks:
  "mark_block mk < length (arena_blocks a) \<Longrightarrow>
     arena_blocks (carquet_arena_restore a mk) = restored (arena_blocks a) (mark_block mk) (mark_used mk)"
  by (rule nth_equalityI) (auto simp: carquet_arena_restore_def nth_restored Let_def nth_append nth_list_update)

lemma restored_append: "i < length bs \<Longrightarrow> restored (bs @ [b]) i u = restored bs i u @ [b\<lparr>blk_used := 0\<rparr>]"
  by (rule nth_equalityI) (auto simp: nth_restored nth_append less_Suc_eq)

lemma restored_update:
  "i \<le> j \<Longrightarrow> j < length bs \<Longrightarrow> restored (bs[j := (bs ! j)\<lparr>blk_used := v\<rparr>]) i u = restored bs i u"
  by (rule nth_equalityI) (auto simp: nth_restored nth_list_update)

lemma restored_restored: "i \<le> j \<Longrightarrow> restored (restored bs j v) i u = restored bs i u"
  by (rule nth_equalityI) (auto simp: nth_restored)

lemma restored_same:
  assumes "i < length bs" and "\<forall>b \<in> set (drop (i + 1) bs). blk_used b = 0"
  shows "restored bs i (blk_used (bs ! i)) = bs"
proof (rule nth_equalityI)
  fix j assume "j < length (restored bs i (blk_used (bs ! i)))"
  then have j: "j < length bs" by simp
  have "blk_used (bs ! j) = 0" if "i < j"
  proof -
    have "drop (i + 1) bs ! (j - (i + 1)) = bs ! j" "j - (i + 1) < length (drop (i + 1) bs)"
      using that j by auto
    then show ?thesis using assms(2) by (metis nth_mem)
  qed
  then show "restored bs i (blk_used (bs ! i)) ! j = bs ! j"
    using j by (cases i j rule: linorder_cases) (simp_all add: nth_restored)
qed simp

lemma regions_mono:
  assumes "regions_ok bs L" and "\<And>b. b \<in> set bs \<Longrightarrow> \<exists>b' \<in> set bs'. blk_data b' = blk_data b \<and> blk_used b \<le> blk_used b'"
  shows "regions_ok bs' L"
  unfolding regions_ok_def
proof (intro conjI ballI)
  fix r assume "r \<in> set L"
  then obtain b where "b \<in> set bs" "in_used b r" using assms(1) by (auto simp: regions_ok_def)
  moreover from this obtain b' where "b' \<in> set bs'" "blk_data b' = blk_data b" "blk_used b \<le> blk_used b'"
    using assms(2) by blast
  ultimately show "\<exists>b \<in> set bs'. in_used b r" by (intro bexI [of _ b']) (simp_all add: in_used_def)
qed (use assms(1) in \<open>simp add: regions_ok_def\<close>)


text \<open>Each step keeps the invariant. First an allocation: the blocks before it, with a new one or not.\<close>

lemma allocatedE:
  assumes "allocated a q n al a'" and "arena_wf a"
  obtains bs c i off where "arena_current a = Some c" "c < length (arena_blocks a)" "c \<le> i" "i < length bs"
    "bs = arena_blocks a \<or> (\<exists>nb. bs = arena_blocks a @ [nb] \<and> blk_used nb = 0)"
    "\<forall>b \<in> set bs. block_ok b" "sorted_wrt apart bs" "\<forall>b \<in> set (drop (i + 1) bs). blk_used b = 0"
    "blk_used (bs ! i) \<le> off" "off + n \<le> blk_size (bs ! i)" "q = blk_data (bs ! i) + off" "q mod al = 0"
    "arena_blocks a' = bs[i := (bs ! i)\<lparr>blk_used := off + n\<rparr>]" "arena_current a' = Some i"
proof -
  obtain bs c i off where *: "bs = arena_blocks a \<or> (\<exists>nb. bs = arena_blocks a @ [nb] \<and> blk_used nb = 0 \<and> block_ok nb \<and>
        (\<forall>b \<in> set (arena_blocks a). apart b nb))"
     "arena_current a = Some c" "c \<le> i" "i < length bs"
     "blk_used (bs ! i) \<le> off" "off + n \<le> blk_size (bs ! i)" "q = blk_data (bs ! i) + off" "q mod al = 0"
     "arena_blocks a' = bs[i := (bs ! i)\<lparr>blk_used := off + n\<rparr>]" "arena_current a' = Some i"
    using assms(1) unfolding allocated_def by (elim exE conjE) (rule that; assumption)
  have wf: "c < length (arena_blocks a)" "\<forall>b \<in> set (arena_blocks a). block_ok b"
    "sorted_wrt apart (arena_blocks a)" "\<forall>b \<in> set (drop (c + 1) (arena_blocks a)). blk_used b = 0"
    using assms(2) *(2) by (auto simp: arena_wf_def)
  have "\<forall>b \<in> set bs. block_ok b" "sorted_wrt apart bs" using *(1) wf by (auto simp: sorted_wrt_append)
  moreover have "\<forall>b \<in> set (drop (i + 1) bs). blk_used b = 0"
  proof
    fix b assume b: "b \<in> set (drop (i + 1) bs)"
    then have "b \<in> set (drop (c + 1) bs)" using set_drop_subset_set_drop [of "c + 1" "i + 1" bs] *(3) by auto
    then show "blk_used b = 0" using *(1) wf by auto
  qed
  moreover have "bs = arena_blocks a \<or> (\<exists>nb. bs = arena_blocks a @ [nb] \<and> blk_used nb = 0)" using *(1) by auto
  ultimately show ?thesis using * wf(1) by (intro that [of c i bs off])
qed

lemma alloc_wf: "allocated a q n al a' \<Longrightarrow> arena_wf a \<Longrightarrow> arena_wf a'"
proof (erule (1) allocatedE)
  fix bs c i off
  assume *: "i < length bs" "\<forall>b \<in> set bs. block_ok b" "sorted_wrt apart bs"
    "\<forall>b \<in> set (drop (i + 1) bs). blk_used b = 0" "off + n \<le> blk_size (bs ! i)"
    "arena_blocks a' = bs[i := (bs ! i)\<lparr>blk_used := off + n\<rparr>]" "arena_current a' = Some i"
  have "block_ok ((bs ! i)\<lparr>blk_used := off + n\<rparr>)" using * by (simp add: block_ok_def)
  then have "\<forall>b \<in> set (arena_blocks a'). block_ok b"
    using * set_update_subset_insert [of bs i] by auto
  moreover have "sorted_wrt apart (arena_blocks a')"
    using * extents_update [of i bs] by (simp add: apart_extents)
  ultimately show "arena_wf a'" using * by (auto simp: arena_wf_def drop_update_cancel)
qed

lemma alloc_regions:
  assumes "allocated a q n al a'" and "arena_wf a" and "regions_ok (arena_blocks a) L"
  shows "regions_ok (arena_blocks a') ((q, n) # L)"
  using assms(1,2)
proof (rule allocatedE)
  fix bs c i off
  assume *: "i < length bs" "bs = arena_blocks a \<or> (\<exists>nb. bs = arena_blocks a @ [nb] \<and> blk_used nb = 0)"
    "\<forall>b \<in> set bs. block_ok b" "sorted_wrt apart bs" "blk_used (bs ! i) \<le> off" "off + n \<le> blk_size (bs ! i)"
    "q = blk_data (bs ! i) + off" "arena_blocks a' = bs[i := (bs ! i)\<lparr>blk_used := off + n\<rparr>]"
  have L: "regions_ok bs L" using assms(3) by (rule regions_mono) (use *(2) in auto)
  have "in_used ((bs ! i)\<lparr>blk_used := off + n\<rparr>) (q, n)" using * by (simp add: in_used_def)
  then have new: "\<exists>b \<in> set (arena_blocks a'). in_used b (q, n)" using *(1,8) by (metis set_update_memI)
  have old: "regions_ok (arena_blocks a') L" using L
  proof (rule regions_mono)
    fix b assume "b \<in> set bs"
    then obtain j where j: "j < length bs" "b = bs ! j" by (auto simp: in_set_conv_nth)
    have "arena_blocks a' ! j \<in> set (arena_blocks a')" using j *(8) by (auto intro!: nth_mem)
    moreover have "blk_data (arena_blocks a' ! j) = blk_data b" "blk_used b \<le> blk_used (arena_blocks a' ! j)"
      using j * by (auto simp: nth_list_update)
    ultimately show "\<exists>b' \<in> set (arena_blocks a'). blk_data b' = blk_data b \<and> blk_used b \<le> blk_used b'" by blast
  qed
  have "separate (q, n) r" if "r \<in> set L" for r
  proof -
    obtain b where "b \<in> set bs" "in_used b r" using \<open>r \<in> set L\<close> L by (auto simp: regions_ok_def)
    then obtain j where j: "j < length bs" "in_used (bs ! j) r" by (auto simp: in_set_conv_nth)
    then have r: "blk_data (bs ! j) \<le> fst r" "fst r + snd r \<le> blk_data (bs ! j) + blk_used (bs ! j)"
      by (auto simp: in_used_def)
    have "blk_used (bs ! j) \<le> blk_size (bs ! j)" using *(3) j by (simp add: block_ok_def)
    moreover have "j \<noteq> i \<longrightarrow> apart (bs ! j) (bs ! i) \<or> apart (bs ! i) (bs ! j)"
      using *(1,4) j by (auto simp: sorted_wrt_iff_nth_less linorder_neq_iff)
    ultimately show ?thesis using r * by (cases "j = i") (auto simp: separate_def apart_def)
  qed
  then show ?thesis using old new by (simp add: regions_ok_def)
qed

lemma alloc_mark:
  assumes "allocated a q n al a'" and "arena_wf a" and "mark_ok a mk L"
  shows "mark_ok a' mk L"
  using assms(1,2)
proof (rule allocatedE)
  fix bs c i off
  assume *: "arena_current a = Some c" "c < length (arena_blocks a)" "c \<le> i" "i < length bs"
    "bs = arena_blocks a \<or> (\<exists>nb. bs = arena_blocks a @ [nb] \<and> blk_used nb = 0)"
    "blk_used (bs ! i) \<le> off"
    "arena_blocks a' = bs[i := (bs ! i)\<lparr>blk_used := off + n\<rparr>]" "arena_current a' = Some i"
  let ?j = "mark_block mk" and ?u = "mark_used mk"
  have m: "?j \<le> c" "?u \<le> blk_used (arena_blocks a ! ?j)" "regions_ok (restored (arena_blocks a) ?j ?u) L"
    using assms(3) *(1) by (auto simp: mark_ok_def)
  then have j: "?j < length (arena_blocks a)" "?j \<le> i" using * by auto
  have "restored (arena_blocks a') ?j ?u = restored bs ?j ?u" using * j by (simp add: restored_update)
  moreover have "restored bs ?j ?u = restored (arena_blocks a) ?j ?u \<or>
      (\<exists>nb. restored bs ?j ?u = restored (arena_blocks a) ?j ?u @ [nb])"
    using *(5) j restored_append by blast
  ultimately have "regions_ok (restored (arena_blocks a') ?j ?u) L"
    using m(3) by (elim regions_mono) auto
  moreover have "bs ! ?j = arena_blocks a ! ?j" using *(5) j by (auto simp: nth_append)
  then have "?u \<le> blk_used (arena_blocks a' ! ?j)" using m(2) * j by (auto simp: nth_list_update)
  ultimately show ?thesis using * j by (simp add: mark_ok_def)
qed

lemma restore_run:
  assumes "arena_wf a" and m: "mark_ok a mk L0"
  shows "arena_wf (carquet_arena_restore a mk)" and "regions_ok (arena_blocks (carquet_arena_restore a mk)) L0"
    and "mark_ok (carquet_arena_restore a mk) mk L0"
    and "mark_ok a old L1 \<Longrightarrow> older mk old \<Longrightarrow> mark_ok (carquet_arena_restore a mk) old L1"
proof -
  let ?i = "mark_block mk" and ?u = "mark_used mk" and ?a = "carquet_arena_restore a mk"
  obtain c where c: "arena_current a = Some c" "c < length (arena_blocks a)" using assms(1) by (auto simp: arena_wf_def)
  have i: "?i \<le> c" "?u \<le> blk_used (arena_blocks a ! ?i)" "regions_ok (restored (arena_blocks a) ?i ?u) L0"
    using m c by (auto simp: mark_ok_def)
  then have il: "?i < length (arena_blocks a)" using c by simp
  note bs = restore_blocks [OF il]
  have cur: "arena_current ?a = Some ?i" by (simp add: carquet_arena_restore_def Let_def)
  have ok: "\<forall>j < length (arena_blocks a). block_ok (arena_blocks a ! j)" using assms(1) by (simp add: arena_wf_def)
  have "block_ok (restored (arena_blocks a) ?i ?u ! j)" if "j < length (arena_blocks a)" for j
    using that ok i(2) il by (fastforce simp: nth_restored block_ok_def)
  then have "\<forall>b \<in> set (restored (arena_blocks a) ?i ?u). block_ok b" by (auto simp: in_set_conv_nth)
  moreover have "sorted_wrt apart (restored (arena_blocks a) ?i ?u)"
    using assms(1) by (simp add: arena_wf_def apart_extents extents_restored)
  moreover have "\<forall>b \<in> set (drop (?i + 1) (restored (arena_blocks a) ?i ?u)). blk_used b = 0"
    by (auto simp: in_set_conv_nth nth_restored)
  ultimately show "arena_wf ?a" using cur il by (simp add: arena_wf_def bs)
  show "regions_ok (arena_blocks ?a) L0" using i(3) by (simp add: bs)
  show "mark_ok ?a mk L0" using i il cur by (simp add: mark_ok_def bs nth_restored restored_restored)
  show "mark_ok ?a old L1" if "mark_ok a old L1" "older mk old"
  proof -
    have o: "mark_block old \<le> ?i" "regions_ok (restored (arena_blocks a) (mark_block old) (mark_used old)) L1"
      "mark_used old \<le> blk_used (arena_blocks a ! mark_block old)"
      using that by (auto simp: mark_ok_def older_def)
    then have "mark_block old < length (arena_blocks a)" using il by simp
    then show ?thesis using o cur that(2) by (auto simp: mark_ok_def bs restored_restored nth_restored older_def)
  qed
qed

lemma save_run:
  assumes "arena_wf a" and "carquet_arena_save a = Some mk" and "regions_ok (arena_blocks a) L"
  shows "mark_ok a mk L" and "mark_ok a old L1 \<Longrightarrow> older mk old"
proof -
  obtain c where c: "arena_current a = Some c" "c < length (arena_blocks a)"
    "\<forall>b \<in> set (drop (c + 1) (arena_blocks a)). blk_used b = 0" using assms(1) by (auto simp: arena_wf_def)
  then have mk: "mark_block mk = c" "mark_used mk = blk_used (arena_blocks a ! c)"
    using assms(2) by (auto simp: carquet_arena_save_def)
  show "mark_ok a mk L" using c mk assms(3) restored_same [OF c(2,3)] by (simp add: mark_ok_def)
  show "mark_ok a old L1 \<Longrightarrow> older mk old" using c mk by (auto simp: mark_ok_def older_def)
qed

lemma reset_wf: "arena_wf a \<Longrightarrow> arena_wf (carquet_arena_reset a)"
proof -
  assume wf: "arena_wf a"
  then have "sorted_wrt apart (map (\<lambda>b. b\<lparr>blk_used := 0\<rparr>) (arena_blocks a))"
    by (simp add: arena_wf_def apart_extents extents_def comp_def)
  moreover have "arena_blocks a \<noteq> []" using wf by (auto simp: arena_wf_def)
  ultimately show "arena_wf (carquet_arena_reset a)" using wf
    by (auto simp: arena_wf_def carquet_arena_reset_def block_ok_def drop_map)
qed

lemma alloc_zero: "carquet_arena_alloc_aligned M a 0 al = Some (None, a)"
  by (simp add: carquet_arena_alloc_aligned_def)

lemma alloc_Some:
  assumes "malloc_ok M" and "arena_wf a" and "k \<le> 62" and "carquet_arena_alloc_aligned M a n (2 ^ k) = Some (p, a')"
  shows "case p of None \<Rightarrow> a' = a | Some q \<Rightarrow> allocated a q n (2 ^ k) a'"
proof (cases "n = 0")
  case True
  then show ?thesis using assms(4) by (auto simp: alloc_zero)
next
  case False
  then show ?thesis using alloc_cases [OF assms(1-3), of n] assms(4)
    by (auto simp: alloc_outcome_def split: option.splits)
qed

lemma step_run_ok:
  assumes "arena_step M s t" and M: "malloc_ok M" and "run_ok s"
  shows "run_ok t"
  using assms(1)
proof (cases rule: arena_step.cases)
  case (step_alloc a n k q a' L ms)
  then have al: "allocated a q n (2 ^ k) a'" and s: "run_ok (a, L, ms)"
    using alloc_Some [OF M, of a k n "Some q" a'] assms(3) by auto
  then show ?thesis using step_alloc(2) alloc_wf [OF al] alloc_regions [OF al] alloc_mark [OF al] by auto
next
  case (step_fail a n k a' L ms)
  then show ?thesis using alloc_Some [OF M, of a k n None a'] assms(3) by auto
next
  case (step_save a mk L ms)
  then have s: "arena_wf a" "regions_ok (arena_blocks a) L" "\<forall>(mk, L0) \<in> set ms. mark_ok a mk L0"
    "sorted_wrt older (map fst ms)" using assms(3) by auto
  then show ?thesis using step_save save_run [OF s(1) step_save(3) s(2)] by auto
next
  case (step_restore a L newer mk L0 ms)
  then have s: "arena_wf a" "mark_ok a mk L0" "\<forall>(mk, L0) \<in> set ms. mark_ok a mk L0"
    "sorted_wrt older (map fst ms)" "\<forall>(old, L1) \<in> set ms. older mk old"
    using assms(3) by (auto simp: sorted_wrt_append)
  then show ?thesis using step_restore(2) restore_run [OF s(1,2)] by fastforce
next
  case (step_reset a L ms)
  then show ?thesis using assms(3) reset_wf [of a] by (simp add: regions_ok_def)
qed

lemma steps_run_ok: "(arena_step M)\<^sup>*\<^sup>* s t \<Longrightarrow> malloc_ok M \<Longrightarrow> run_ok s \<Longrightarrow> run_ok t"
  by (induction rule: rtranclp_induct) (auto dest: step_run_ok)

lemma init_run_ok:
  assumes "malloc_ok M" and "carquet_arena_init_size M d = (CARQUET_OK, a)"
  shows "run_ok (a, [], [])"
proof -
  obtain b where b: "arena_new_block M [] d = Some b" "arena_blocks a = [b]" "arena_current a = Some 0"
    using assms(2) by (auto simp: carquet_arena_init_size_def Let_def split: option.splits)
  then show ?thesis using new_block_fresh(3) [OF assms(1) b(1)] by (simp add: arena_wf_def regions_ok_def)
qed

text \<open>C20: whatever sequence of allocations, saves, restores and resets an arena went through, an allocation
  with a power-of-two alignment returns: NULL, or a correctly aligned region that lies inside one of the blocks
  and overlaps no region that is still live; and the live regions overlap no one another.\<close>

theorem arena_alloc_safe:
  assumes "malloc_ok M" and "carquet_arena_init_size M d = (CARQUET_OK, a0)"
    and "(arena_step M)\<^sup>*\<^sup>* (a0, [], []) (a, L, ms)" and "k \<le> 62"
  shows "sorted_wrt separate L \<and>
    (\<exists>p a'. carquet_arena_alloc_aligned M a n (2 ^ k) = Some (p, a') \<and>
      (case p of None \<Rightarrow> a' = a
       | Some q \<Rightarrow> q mod 2 ^ k = 0 \<and> (\<forall>r \<in> set L. separate (q, n) r) \<and>
           (\<exists>b \<in> set (arena_blocks a'). blk_data b \<le> q \<and> q + n \<le> blk_data b + blk_size b)))"
proof -
  have ok: "run_ok (a, L, ms)" using steps_run_ok [OF assms(3,1)] init_run_ok [OF assms(1,2)] by blast
  then have wf: "arena_wf a" by simp
  obtain p a' where r: "carquet_arena_alloc_aligned M a n (2 ^ k) = Some (p, a')"
    using alloc_cases [OF assms(1) wf assms(4), of n] by (cases "n = 0") (auto simp: alloc_zero)
  have "case p of None \<Rightarrow> a' = a | Some q \<Rightarrow> q mod 2 ^ k = 0 \<and> (\<forall>r \<in> set L. separate (q, n) r) \<and>
           (\<exists>b \<in> set (arena_blocks a'). blk_data b \<le> q \<and> q + n \<le> blk_data b + blk_size b)"
  proof (cases p)
    case None
    then show ?thesis using alloc_Some [OF assms(1) wf assms(4) r] by simp
  next
    case (Some q)
    then have al: "allocated a q n (2 ^ k) a'" using alloc_Some [OF assms(1) wf assms(4) r] by simp
    have "regions_ok (arena_blocks a') ((q, n) # L)" using alloc_regions [OF al wf] ok by simp
    moreover have "\<forall>b \<in> set (arena_blocks a'). blk_used b \<le> blk_size b"
      using alloc_wf [OF al wf] by (simp add: arena_wf_def block_ok_def)
    moreover have "q mod 2 ^ k = 0" using al by (auto simp: allocated_def)
    ultimately show ?thesis using Some by (fastforce simp: regions_ok_def in_used_def)
  qed
  then show ?thesis using r ok by (auto simp: regions_ok_def)
qed

text \<open>A heap that satisfies what the code relies on: regions in order of address.\<close>

definition heap_end :: "carquet_arena_block list \<Rightarrow> nat" where
  "heap_end bs = foldr (\<lambda>b m. max m (blk_data b + blk_size b)) bs 4096"

definition bump_heap :: heap_malloc where
  "bump_heap bs n = (if heap_end bs + n \<le> 2 ^ 63 then Some (heap_end bs) else None)"

lemma heap_end_above: "b \<in> set bs \<Longrightarrow> blk_data b + blk_size b \<le> heap_end bs"
  by (induction bs) (auto simp: heap_end_def)

lemma bump_heap_ok: "malloc_ok bump_heap"
  using heap_end_above by (auto simp: malloc_ok_def bump_heap_def)

definition sample_arena :: carquet_arena where
  "sample_arena = snd (carquet_arena_init_size bump_heap 0)"

lemma sample_init: "carquet_arena_init_size bump_heap 0 = (CARQUET_OK, sample_arena)"
  by (simp add: sample_arena_def carquet_arena_init_size_def arena_new_block_def bump_heap_def heap_end_def
      CARQUET_ARENA_DEFAULT_BLOCK_SIZE_def SIZE_MAX_def HEADER_SIZE_def add_overflows_size_def)

lemma sample_alloc: "\<exists>a'. carquet_arena_alloc_aligned bump_heap sample_arena 100 (2 ^ 4) = Some (Some 4128, a')"
  by (simp add: sample_arena_def carquet_arena_init_size_def arena_new_block_def bump_heap_def heap_end_def
      CARQUET_ARENA_DEFAULT_BLOCK_SIZE_def SIZE_MAX_def HEADER_SIZE_def add_overflows_size_def
      carquet_arena_alloc_aligned_def arena_aligned_offset_def Let_def)

theorem arena_alloc_safe_witness:
  "\<exists>a1. (arena_step bump_heap)\<^sup>*\<^sup>* (sample_arena, [], []) (a1, [(4128, 100)], []) \<and>
     (\<exists>p a2. carquet_arena_alloc_aligned bump_heap a1 40 (2 ^ 5) = Some (p, a2) \<and>
       (case p of None \<Rightarrow> True | Some q \<Rightarrow> q mod 32 = 0 \<and> separate (q, 40) (4128, 100)))"
proof -
  obtain a1 where a1: "carquet_arena_alloc_aligned bump_heap sample_arena 100 (2 ^ 4) = Some (Some 4128, a1)"
    using sample_alloc by blast
  have run: "(arena_step bump_heap)\<^sup>*\<^sup>* (sample_arena, [], []) (a1, [(4128, 100)], [])"
    by (rule r_into_rtranclp, rule step_alloc [OF a1]) simp
  have k: "(5::nat) \<le> 62" by simp
  obtain p a2 where "carquet_arena_alloc_aligned bump_heap a1 40 (2 ^ 5) = Some (p, a2)"
    "case p of None \<Rightarrow> True | Some q \<Rightarrow> q mod 32 = 0 \<and> separate (q, 40) (4128, 100)"
    using arena_alloc_safe [OF bump_heap_ok sample_init run k, of 40] by (auto split: option.splits)
  then show ?thesis using run by blast
qed

section \<open>What copies hold\<close>

definition mem_bytes :: "arena_memory \<Rightarrow> nat \<Rightarrow> nat \<Rightarrow> u8 list" where
  "mem_bytes m p n = map m [p..<p + n]"

lemma mem_bytes_store: "mem_bytes (mem_store m p bs) p (length bs) = bs"
  by (rule nth_equalityI) (simp_all add: mem_bytes_def mem_store_def)

lemma mem_bytes_separate: "separate (p, length bs) (q, n) \<Longrightarrow> mem_bytes (mem_store m p bs) q n = mem_bytes m q n"
  by (auto simp: mem_bytes_def mem_store_def separate_def)

lemma strnlen_loop_zero:
  "s ! k = 0 \<Longrightarrow> k < length s \<Longrightarrow> i \<le> k \<Longrightarrow> (\<forall>j. i \<le> j \<and> j < k \<longrightarrow> s ! j \<noteq> 0) \<Longrightarrow> strnlen_loop s k i = Some k"
proof (induction "k - i" arbitrary: i)
  case 0
  then show ?case by (subst strnlen_loop.simps) simp
next
  case (Suc d)
  then have "strnlen_loop s k (i + 1) = Some k" by simp
  then show ?case using Suc.prems Suc.hyps(2) by (subst strnlen_loop.simps) simp
qed

lemma arena_store:
  assumes "malloc_ok M" and "run_ok (a, L, ms)" and "k \<le> 62"
    and "carquet_arena_alloc_aligned M a (length bs) (2 ^ k) = Some (Some q, a')"
  shows "mem_bytes (mem_store m q bs) q (length bs) = bs \<and>
     (\<forall>(p, n) \<in> set L. mem_bytes (mem_store m q bs) p n = mem_bytes m p n)"
proof -
  have wf: "arena_wf a" using assms(2) by simp
  have "allocated a q (length bs) (2 ^ k) a'" using alloc_Some [OF assms(1) wf assms(3,4)] by simp
  then have "regions_ok (arena_blocks a') ((q, length bs) # L)" using alloc_regions wf assms(2) by simp
  then have "\<forall>r \<in> set L. separate (q, length bs) r" by (simp add: regions_ok_def)
  then show ?thesis by (auto simp: mem_bytes_store intro!: mem_bytes_separate)
qed

text \<open>C24: a copy taken into the arena holds the bytes copied (\<open>memdup\<close>), the string and its terminating zero
  (\<open>strdup\<close>, with the zero at the end of the source's text), zeroes (\<open>calloc\<close>, of a product that does not wrap), and leaves every live allocation as it was.\<close>

theorem arena_copies:
  assumes "malloc_ok M" and "run_ok (a, L, ms)" and "length src < 2 ^ 63" and "0 \<notin> set src"
  shows "(carquet_arena_memdup M a m (Some (src @ rest)) (length src) = Some (Some q, a', m') \<longrightarrow>
       mem_bytes m' q (length src) = src \<and> (\<forall>(p, n) \<in> set L. mem_bytes m' p n = mem_bytes m p n))
   \<and> (carquet_arena_strdup M a m (Some (src @ 0 # rest)) = Some (Some q, a', m') \<longrightarrow>
       mem_bytes m' q (length src + 1) = src @ [0] \<and> (\<forall>(p, n) \<in> set L. mem_bytes m' p n = mem_bytes m p n))
   \<and> (carquet_arena_calloc M a m count n = Some (Some q, a', m') \<and> count * n < 2 ^ 64 \<longrightarrow>
       mem_bytes m' q (count * n) = replicate (count * n) 0 \<and> (\<forall>(p, n) \<in> set L. mem_bytes m' p n = mem_bytes m p n))"
proof (intro conjI impI)
  assume "carquet_arena_memdup M a m (Some (src @ rest)) (length src) = Some (Some q, a', m')"
  then have "carquet_arena_alloc_aligned M a (length src) (2 ^ 4) = Some (Some q, a')" "m' = mem_store m q src"
    by (auto simp: carquet_arena_memdup_def carquet_arena_alloc_def CARQUET_ARENA_ALIGNMENT_def run_simps
        rd_bytes_def split: if_splits option.splits)
  then show "mem_bytes m' q (length src) = src" "\<forall>(p, n) \<in> set L. mem_bytes m' p n = mem_bytes m p n"
    using arena_store [OF assms(1,2), of 4 src q a' m] by simp_all
next
  assume r: "carquet_arena_strdup M a m (Some (src @ 0 # rest)) = Some (Some q, a', m')"
  have "takeWhile (\<lambda>b. b \<noteq> 0) (src @ 0 # rest) = src" using assms(4) by (simp add: takeWhile_append takeWhile_eq_all_conv [THEN iffD2])
  then have "c_strlen (src @ 0 # rest) = Some (length src)" by (simp add: c_strlen_def)
  moreover have "strnlen_loop (src @ 0 # rest) (length src) 0 = Some (length src)"
    using assms(4) by (intro strnlen_loop_zero) (auto simp: nth_append in_set_conv_nth)
  ultimately have "carquet_arena_alloc_aligned M a (length (src @ [0])) (2 ^ 0) = Some (Some q, a')"
    "m' = mem_store m q (src @ [0])"
    using r assms(3) by (auto simp: carquet_arena_strdup_def carquet_arena_strndup_def run_simps sz_id split: option.splits)
  then show "mem_bytes m' q (length src + 1) = src @ [0]" "\<forall>(p, n) \<in> set L. mem_bytes m' p n = mem_bytes m p n"
    using arena_store [OF assms(1,2), of 0 "src @ [0]" q a' m] by simp_all
next
  assume "carquet_arena_calloc M a m count n = Some (Some q, a', m') \<and> count * n < 2 ^ 64"
  then have "carquet_arena_alloc_aligned M a (length (replicate (count * n) (0::u8))) (2 ^ 4) = Some (Some q, a')"
    "m' = mem_store m q (replicate (count * n) 0)"
    by (auto simp: carquet_arena_calloc_def carquet_arena_alloc_def CARQUET_ARENA_ALIGNMENT_def run_simps
        Let_def sz_id split: if_splits option.splits)
  then show "mem_bytes m' q (count * n) = replicate (count * n) 0" "\<forall>(p, n) \<in> set L. mem_bytes m' p n = mem_bytes m p n"
    using arena_store [OF assms(1,2), of 4 "replicate (count * n) 0" q a' m] by simp_all
qed

lemma sample_strdup:
  "\<exists>a' m'. carquet_arena_strdup bump_heap sample_arena (\<lambda>_. 7) (Some ([65, 66] @ 0 # [])) = Some (Some 4120, a', m')"
  by (simp add: sample_arena_def carquet_arena_init_size_def arena_new_block_def bump_heap_def heap_end_def
      CARQUET_ARENA_DEFAULT_BLOCK_SIZE_def SIZE_MAX_def HEADER_SIZE_def add_overflows_size_def
      carquet_arena_alloc_aligned_def arena_aligned_offset_def Let_def carquet_arena_strdup_def
      carquet_arena_strndup_def c_strlen_def strnlen_loop.simps sz_def)

theorem arena_copies_witness:
  "\<exists>a' m'. carquet_arena_strdup bump_heap sample_arena (\<lambda>_. 7) (Some ([65, 66] @ 0 # [])) = Some (Some 4120, a', m')
     \<and> mem_bytes m' 4120 (length [65, 66 :: u8] + 1) = [65, 66] @ [0]"
proof -
  obtain a' m' where *: "carquet_arena_strdup bump_heap sample_arena (\<lambda>_. 7) (Some ([65, 66] @ 0 # [])) = Some (Some 4120, a', m')"
    using sample_strdup by blast
  have src: "length [65, 66 :: u8] < 2 ^ 63" "0 \<notin> set [65, 66 :: u8]" by simp_all
  show ?thesis
    using arena_copies [OF bump_heap_ok init_run_ok [OF bump_heap_ok sample_init] src, of "\<lambda>_. 7" "[]" 4120 a' m' 0 0] *
    by blast
qed

end
