(* ===== verification/Dictionary.thy ===== *)
theory Dictionary
  imports Rle_Encoder Plain
begin

text \<open>
  Component src/encoding/dictionary.c: dictionary encoding. The distinct values go to the
  dictionary page, in the order they first appear, and the data page holds the number of each value,
  run-length coded.

  A chain of the hash table is the list of its entries from the head on. The block of the indices is
  a list of words of the allocated size. The status of the appends is ignored where the code
  ignores it. On a little-endian machine, hashes load the bytes of a value as they stand.
\<close>

section \<open>The builder\<close>

record dict_entry =
  de_data :: "u8 list"
  de_size :: nat
  de_hash :: u32
  de_index :: u32

record dict_builder =
  db_buckets :: "dict_entry list list"
  db_num_buckets :: nat
  db_count :: nat
  db_dict_buffer :: carquet_buffer
  db_indices :: "u32 list"
  db_indices_capacity :: nat
  db_indices_count :: nat
  db_value_size :: nat
  db_is_variable_length :: bool
  db_max_dict_bytes :: nat
  db_abandoned :: bool

definition DICT_BUILDER_INITIAL_BUCKETS :: nat where
  "DICT_BUILDER_INITIAL_BUCKETS = 1024"

definition DICT_BUILDER_MAX_LOAD_NUM :: nat where
  "DICT_BUILDER_MAX_LOAD_NUM = 3"

definition DICT_BUILDER_MAX_LOAD_DEN :: nat where
  "DICT_BUILDER_MAX_LOAD_DEN = 4"

text \<open>The bucket of a hash: \<open>hash & (num_buckets - 1)\<close>, and an entry pushed in front of its chain.\<close>

definition bucket_of :: "u32 \<Rightarrow> nat \<Rightarrow> nat" where
  "bucket_of hash n = unat hash AND (if n = 0 then SIZE_MAX else n - 1)"

definition push_entry :: "dict_entry list list \<Rightarrow> nat \<Rightarrow> dict_entry \<Rightarrow> dict_entry list list option" where
  "push_entry bs n e = do {
     chain \<leftarrow> rd bs (bucket_of (de_hash e) n);
     wr bs (bucket_of (de_hash e) n) (e # chain)
   }"

fun rehash_chain :: "dict_entry list list \<Rightarrow> nat \<Rightarrow> dict_entry list \<Rightarrow> dict_entry list list option" where
  "rehash_chain bs n [] = Some bs"
| "rehash_chain bs n (e # es) = do { bs' \<leftarrow> push_entry bs n e; rehash_chain bs' n es }"

fun rehash_chains :: "dict_entry list list \<Rightarrow> nat \<Rightarrow> dict_entry list list \<Rightarrow> dict_entry list list option" where
  "rehash_chains bs n [] = Some bs"
| "rehash_chains bs n (c # cs) = do { bs' \<leftarrow> rehash_chain bs n c; rehash_chains bs' n cs }"

definition dict_builder_rehash ::
  "allocator \<Rightarrow> dict_builder \<Rightarrow> nat \<Rightarrow> (carquet_status \<times> dict_builder) option" where
  "dict_builder_rehash A b new_bucket_count =
     (case carquet_mem_calloc A new_bucket_count 8 of
        None \<Rightarrow> Some (CARQUET_ERROR_OUT_OF_MEMORY, b)
      | Some _ \<Rightarrow> do {
          old \<leftarrow> rd_bytes (db_buckets b) 0 (db_num_buckets b);
          bs \<leftarrow> rehash_chains (replicate new_bucket_count []) new_bucket_count old;
          Some (CARQUET_OK, b\<lparr>db_buckets := bs, db_num_buckets := new_bucket_count\<rparr>)
        })"

definition dict_hash_fixed32 :: "u8 list \<Rightarrow> u32 option" where
  "dict_hash_fixed32 d = do {
     h \<leftarrow> carquet_read_u32_le d 0;
     let h1 = h XOR drop_bit 16 h;
     let h2 = h1 * 0x85ebca6b;
     let h3 = h2 XOR drop_bit 13 h2;
     let h4 = h3 * 0xc2b2ae35;
     Some (h4 XOR drop_bit 16 h4)
   }"

definition dict_hash_fixed64 :: "u8 list \<Rightarrow> u32 option" where
  "dict_hash_fixed64 d = do {
     k \<leftarrow> carquet_read_u64_le d 0;
     let k1 = k XOR drop_bit 33 k;
     let k2 = k1 * 0xff51afd7ed558ccd;
     let k3 = k2 XOR drop_bit 33 k2;
     let k4 = k3 * 0xc4ceb9fe1a85ec53;
     let k5 = k4 XOR drop_bit 33 k4;
     Some (ucast k5)
   }"

text \<open>The FNV-1a loop.\<close>

fun fnv_loop :: "u8 list \<Rightarrow> u32 \<Rightarrow> u32" where
  "fnv_loop [] h = h"
| "fnv_loop (b # bs) h = fnv_loop bs ((h XOR ucast b) * 0x01000193)"

definition dict_hash :: "u8 list \<Rightarrow> nat \<Rightarrow> u32 option" where
  "dict_hash d n =
     (if n = 4 then dict_hash_fixed32 d
      else if n = 8 then dict_hash_fixed64 d
      else do { bs \<leftarrow> rd_bytes d 0 n; Some (fnv_loop bs 0x811c9dc5) })"

text \<open>A block of indeterminate words, and its growth.\<close>

definition realloc_words :: "allocator \<Rightarrow> u32 list \<Rightarrow> nat \<Rightarrow> u32 list option" where
  "realloc_words A ws n =
     (case carquet_mem_realloc A None n of
        None \<Rightarrow> None
      | Some d \<Rightarrow> Some (take (n div 4) ws @
          map (\<lambda>i. le_word (take 4 (drop (4 * i) d))) [length ws..<n div 4]))"

definition dict_builder_init ::
  "allocator \<Rightarrow> nat \<Rightarrow> nat \<Rightarrow> bool \<Rightarrow> carquet_status + dict_builder" where
  "dict_builder_init A expected_count value_size is_variable_length =
     (case carquet_mem_calloc A DICT_BUILDER_INITIAL_BUCKETS 8 of
        None \<Rightarrow> Inl CARQUET_ERROR_OUT_OF_MEMORY
      | Some _ \<Rightarrow>
         (case carquet_buffer_init_capacity A 4096 of (status, buf) \<Rightarrow>
            if status \<noteq> CARQUET_OK then Inl status
            else let cap = (if expected_count > 0 then expected_count else 1024)
              in case realloc_words A [] (sz (cap * 4)) of
                   None \<Rightarrow> Inl CARQUET_ERROR_OUT_OF_MEMORY
                 | Some ws \<Rightarrow> Inr \<lparr>db_buckets = replicate DICT_BUILDER_INITIAL_BUCKETS [],
                     db_num_buckets = DICT_BUILDER_INITIAL_BUCKETS, db_count = 0, db_dict_buffer = buf,
                     db_indices = ws, db_indices_capacity = cap, db_indices_count = 0,
                     db_value_size = value_size, db_is_variable_length = is_variable_length,
                     db_max_dict_bytes = 0, db_abandoned = False\<rparr>))"

text \<open>The walk along a chain; the comparison is \<open>memcmp\<close> with the value's bytes.\<close>

fun find_entry :: "dict_entry list \<Rightarrow> u32 \<Rightarrow> u8 list \<Rightarrow> dict_entry option" where
  "find_entry [] hash bs = None"
| "find_entry (e # es) hash bs =
     (if de_hash e = hash \<and> de_size e = length bs \<and> de_data e = bs then Some e
      else find_entry es hash bs)"

text \<open>Room for one more index, and its store.\<close>

definition grow_indices :: "allocator \<Rightarrow> dict_builder \<Rightarrow> dict_builder option" where
  "grow_indices A b =
     (if db_indices_count b \<ge> db_indices_capacity b then let new_cap = sz (db_indices_capacity b * 2)
      in case realloc_words A (db_indices b) (sz (new_cap * 4)) of
           None \<Rightarrow> None
         | Some ws \<Rightarrow> Some (b\<lparr>db_indices := ws, db_indices_capacity := new_cap\<rparr>)
      else Some b)"

definition put_index :: "dict_builder \<Rightarrow> u32 \<Rightarrow> dict_builder option" where
  "put_index b i = do {
     ws \<leftarrow> wr (db_indices b) (db_indices_count b) i;
     Some (b\<lparr>db_indices := ws, db_indices_count := db_indices_count b + 1\<rparr>)
   }"

text \<open>A value appended to the dictionary page, after its length when the length varies.\<close>

definition append_dict_value :: "allocator \<Rightarrow> bool \<Rightarrow> carquet_buffer \<Rightarrow> u8 list \<Rightarrow> carquet_buffer" where
  "append_dict_value A is_variable_length buf bs = (let
     buf1 = (if is_variable_length then snd (carquet_buffer_append_u32_le A buf (of_nat (length bs))) else buf)
   in snd (carquet_buffer_append A buf1 bs))"

text \<open>The second half of \<open>dict_builder_add\<close>: a value that is not in the table. An entry takes 32 bytes.\<close>

definition SIZEOF_DICT_ENTRY :: nat where
  "SIZEOF_DICT_ENTRY = 32"

definition add_new_entry ::
  "allocator \<Rightarrow> dict_builder \<Rightarrow> u8 list \<Rightarrow> u32 \<Rightarrow> (carquet_status \<times> dict_builder) option" where
  "add_new_entry A b bs hash = do {
     (status, b1) \<leftarrow>
       (if sz ((db_count b + 1) * DICT_BUILDER_MAX_LOAD_DEN) > sz (db_num_buckets b * DICT_BUILDER_MAX_LOAD_NUM)
        then dict_builder_rehash A b (sz (db_num_buckets b * 2)) else Some (CARQUET_OK, b));
     if status \<noteq> CARQUET_OK then Some (status, b1)
     else case carquet_mem_malloc A (sz (SIZEOF_DICT_ENTRY + length bs)) of
        None \<Rightarrow> Some (CARQUET_ERROR_OUT_OF_MEMORY, b1)
      | Some _ \<Rightarrow> do {
          let e = \<lparr>de_data = bs, de_size = length bs, de_hash = hash, de_index = of_nat (db_count b1)\<rparr>;
          buckets \<leftarrow> push_entry (db_buckets b1) (db_num_buckets b1) e;
          let buf = append_dict_value A (db_is_variable_length b1) (db_dict_buffer b1) bs;
          b2 \<leftarrow> put_index (b1\<lparr>db_buckets := buckets, db_dict_buffer := buf\<rparr>) (de_index e);
          let b3 = b2\<lparr>db_count := db_count b2 + 1\<rparr>;
          Some (CARQUET_OK, if db_max_dict_bytes b3 \<noteq> 0 \<and> buf_size (db_dict_buffer b3) > db_max_dict_bytes b3
             then b3\<lparr>db_abandoned := True\<rparr> else b3)
        }
   }"

definition dict_builder_add ::
  "allocator \<Rightarrow> dict_builder \<Rightarrow> u8 list \<Rightarrow> nat \<Rightarrow> (carquet_status \<times> dict_builder) option" where
  "dict_builder_add A b0 v n =
     (case grow_indices A b0 of
        None \<Rightarrow> Some (CARQUET_ERROR_OUT_OF_MEMORY, b0)
      | Some b \<Rightarrow> do {
          hash \<leftarrow> dict_hash v n;
          chain \<leftarrow> rd (db_buckets b) (bucket_of hash (db_num_buckets b));
          bs \<leftarrow> rd_bytes v 0 n;
          case find_entry chain hash bs of
            Some e \<Rightarrow> do { b' \<leftarrow> put_index b (de_index e); Some (CARQUET_OK, b') }
          | None \<Rightarrow> add_new_entry A b bs hash
        })"

section \<open>Encoding\<close>

text \<open>The loop of \<open>bit_width_for_count\<close>; a count has 32 bits.\<close>

fun width_loop :: "nat \<Rightarrow> u32 \<Rightarrow> nat \<Rightarrow> nat" where
  "width_loop 0 count width = width"
| "width_loop (Suc fuel) count width =
     (if count > 0 then width_loop fuel (drop_bit 1 count) (width + 1) else width)"

definition bit_width_for_count :: "u32 \<Rightarrow> nat" where
  "bit_width_for_count count =
     (if count = 0 then 0
      else let width = width_loop 33 (count - 1) 0 in if width > 0 then width else 1)"

text \<open>The loop over the values, each given as its bytes and size; the first failure ends it.\<close>

fun add_values :: "allocator \<Rightarrow> dict_builder \<Rightarrow> (u8 list \<times> nat) list \<Rightarrow> (carquet_status \<times> dict_builder) option" where
  "add_values A b [] = Some (CARQUET_OK, b)"
| "add_values A b ((v, n) # vs) = do {
     (status, b') \<leftarrow> dict_builder_add A b v n;
     if status \<noteq> CARQUET_OK then Some (status, b') else add_values A b' vs
   }"

text \<open>What every encoder does with the finished builder.\<close>

definition write_dictionary ::
  "allocator \<Rightarrow> dict_builder \<Rightarrow> nat \<Rightarrow> carquet_buffer \<Rightarrow> carquet_buffer \<Rightarrow>
   (carquet_status \<times> carquet_buffer \<times> carquet_buffer) option" where
  "write_dictionary A b count dict_output indices_output = do {
     dict \<leftarrow> rd_bytes (block_bytes (buf_data (db_dict_buffer b))) 0 (buf_size (db_dict_buffer b));
     let dict_output' = snd (carquet_buffer_append A dict_output dict);
     let bit_width = bit_width_for_count (of_nat (db_count b));
     let indices_output1 = snd (carquet_buffer_append_byte A indices_output (of_nat bit_width));
     ws \<leftarrow> rd_bytes (db_indices b) 0 count;
     (status, indices_output2) \<leftarrow> carquet_rle_encode_all A ws bit_width indices_output1;
     Some (status, dict_output', indices_output2)
   }"

definition dictionary_encode ::
  "allocator \<Rightarrow> nat \<Rightarrow> bool \<Rightarrow> (u8 list \<times> nat) list \<Rightarrow> carquet_buffer \<Rightarrow> carquet_buffer \<Rightarrow>
   (carquet_status \<times> carquet_buffer \<times> carquet_buffer) option" where
  "dictionary_encode A value_size var_len vs dict_output indices_output =
     (case dict_builder_init A (length vs) value_size var_len of
        Inl status \<Rightarrow> Some (status, dict_output, indices_output)
      | Inr builder \<Rightarrow> do {
          (status, b) \<leftarrow> add_values A builder vs;
          if status \<noteq> CARQUET_OK then Some (status, dict_output, indices_output)
          else write_dictionary A b (length vs) dict_output indices_output
        })"

definition carquet_dictionary_encode_int32 ::
  "allocator \<Rightarrow> u32 list \<Rightarrow> carquet_buffer \<Rightarrow> carquet_buffer \<Rightarrow> (carquet_status \<times> carquet_buffer \<times> carquet_buffer) option" where
  "carquet_dictionary_encode_int32 A vs = dictionary_encode A 4 False (map (\<lambda>v. (carquet_write_u32_le v, 4)) vs)"

definition carquet_dictionary_encode_int64 ::
  "allocator \<Rightarrow> u64 list \<Rightarrow> carquet_buffer \<Rightarrow> carquet_buffer \<Rightarrow> (carquet_status \<times> carquet_buffer \<times> carquet_buffer) option" where
  "carquet_dictionary_encode_int64 A vs = dictionary_encode A 8 False (map (\<lambda>v. (carquet_write_u64_le v, 8)) vs)"

definition carquet_dictionary_encode_float ::
  "allocator \<Rightarrow> u32 list \<Rightarrow> carquet_buffer \<Rightarrow> carquet_buffer \<Rightarrow> (carquet_status \<times> carquet_buffer \<times> carquet_buffer) option" where
  "carquet_dictionary_encode_float A vs = dictionary_encode A 4 False (map (\<lambda>v. (carquet_write_u32_le v, 4)) vs)"

definition carquet_dictionary_encode_double ::
  "allocator \<Rightarrow> u64 list \<Rightarrow> carquet_buffer \<Rightarrow> carquet_buffer \<Rightarrow> (carquet_status \<times> carquet_buffer \<times> carquet_buffer) option" where
  "carquet_dictionary_encode_double A vs = dictionary_encode A 8 False (map (\<lambda>v. (carquet_write_u64_le v, 8)) vs)"

text \<open>The length of a byte array is signed and is converted to \<open>size_t\<close>.\<close>

definition array_value :: "carquet_byte_array \<Rightarrow> u8 list \<times> nat" where
  "array_value v = (block_bytes (ba_data v), unat (scast (ba_length v) :: u64))"

definition carquet_dictionary_encode_byte_array ::
  "allocator \<Rightarrow> carquet_byte_array list \<Rightarrow> carquet_buffer \<Rightarrow> carquet_buffer \<Rightarrow> (carquet_status \<times> carquet_buffer \<times> carquet_buffer) option" where
  "carquet_dictionary_encode_byte_array A vs = dictionary_encode A 0 True (map array_value vs)"

text \<open>
  The encoder with a budget. The values are given with the array type the physical type reads; the
  result also says whether the dictionary was abandoned.
\<close>

definition capped_values :: "carquet_physical_type \<Rightarrow> plain_values \<Rightarrow> (u8 list \<times> nat) list option" where
  "capped_values type vals =
     (case (type, vals) of
        (CARQUET_PHYSICAL_INT32, Plain_32 vs) \<Rightarrow> Some (map (\<lambda>v. (carquet_write_u32_le v, 4)) vs)
      | (CARQUET_PHYSICAL_FLOAT, Plain_32 vs) \<Rightarrow> Some (map (\<lambda>v. (carquet_write_u32_le v, 4)) vs)
      | (CARQUET_PHYSICAL_INT64, Plain_64 vs) \<Rightarrow> Some (map (\<lambda>v. (carquet_write_u64_le v, 8)) vs)
      | (CARQUET_PHYSICAL_DOUBLE, Plain_64 vs) \<Rightarrow> Some (map (\<lambda>v. (carquet_write_u64_le v, 8)) vs)
      | (CARQUET_PHYSICAL_BYTE_ARRAY, Plain_arrays vs) \<Rightarrow> Some (map array_value vs)
      | _ \<Rightarrow> None)"

fun add_until_abandoned ::
  "allocator \<Rightarrow> dict_builder \<Rightarrow> (u8 list \<times> nat) list \<Rightarrow> (carquet_status \<times> dict_builder) option" where
  "add_until_abandoned A b [] = Some (CARQUET_OK, b)"
| "add_until_abandoned A b ((v, n) # vs) =
     (if db_abandoned b then Some (CARQUET_OK, b)
      else do {
        (status, b') \<leftarrow> dict_builder_add A b v n;
        if status \<noteq> CARQUET_OK then Some (status, b') else add_until_abandoned A b' vs
      })"

definition capped_value_size :: "carquet_physical_type \<Rightarrow> (nat \<times> bool) option" where
  "capped_value_size type =
     (case type of
        CARQUET_PHYSICAL_INT32 \<Rightarrow> Some (4, False)
      | CARQUET_PHYSICAL_FLOAT \<Rightarrow> Some (4, False)
      | CARQUET_PHYSICAL_INT64 \<Rightarrow> Some (8, False)
      | CARQUET_PHYSICAL_DOUBLE \<Rightarrow> Some (8, False)
      | CARQUET_PHYSICAL_BYTE_ARRAY \<Rightarrow> Some (0, True)
      | _ \<Rightarrow> None)"

definition carquet_dictionary_encode_capped ::
  "allocator \<Rightarrow> carquet_physical_type \<Rightarrow> plain_values \<Rightarrow> int \<Rightarrow> nat \<Rightarrow> carquet_buffer \<Rightarrow> carquet_buffer \<Rightarrow>
   (carquet_status \<times> bool \<times> carquet_buffer \<times> carquet_buffer) option" where
  "carquet_dictionary_encode_capped A type vals count max_dict_bytes dict_output indices_output =
     (if count \<le> 0 then Some (CARQUET_ERROR_INVALID_ARGUMENT, False, dict_output, indices_output)
      else case capped_value_size type of
        None \<Rightarrow> Some (CARQUET_ERROR_NOT_IMPLEMENTED, False, dict_output, indices_output)
      | Some (value_size, var_len) \<Rightarrow>
         (case dict_builder_init A (nat count) value_size var_len of
            Inl status \<Rightarrow> Some (status, False, dict_output, indices_output)
          | Inr builder \<Rightarrow> do {
              all_values \<leftarrow> capped_values type vals;
              vs \<leftarrow> rd_bytes all_values 0 (nat count);
              (status, b) \<leftarrow> add_until_abandoned A (builder\<lparr>db_max_dict_bytes := max_dict_bytes\<rparr>) vs;
              if status \<noteq> CARQUET_OK then Some (status, False, dict_output, indices_output)
              else if db_abandoned b then Some (CARQUET_OK, True, dict_output, indices_output)
              else do {
                (status', dict_output', indices_output') \<leftarrow>
                  write_dictionary A b (nat count) dict_output indices_output;
                Some (status', False, dict_output', indices_output')
              }
            }))"

section \<open>Decoding\<close>

text \<open>
  The checks before the lookup and the indices they lead to, for values of \<open>w\<close> bytes. The
  block for the indices has \<open>output_count * 4\<close> bytes, at the width of \<open>size_t\<close>; a store past it
  is an access out of bounds.
\<close>

definition dict_indices ::
  "allocator \<Rightarrow> nat \<Rightarrow> u8 list option \<Rightarrow> nat \<Rightarrow> int \<Rightarrow> u8 list \<Rightarrow> nat \<Rightarrow> int \<Rightarrow> (carquet_status + u32 list) option" where
  "dict_indices A w dict_data dict_size dict_count indices_data indices_size output_count =
     (if dict_count \<le> 0 \<or> dict_data = None then Some (Inl CARQUET_ERROR_DECODE)
      else if dict_size < sz (nat dict_count * w) then Some (Inl CARQUET_ERROR_DECODE)
      else if indices_size < 1 then Some (Inl CARQUET_ERROR_DECODE)
      else do {
        bit_width \<leftarrow> rd indices_data 0;
        case carquet_mem_malloc A (sz (nat output_count * 4)) of
          None \<Rightarrow> Some (Inl CARQUET_ERROR_OUT_OF_MEMORY)
        | Some block \<Rightarrow> do {
            indices \<leftarrow> carquet_rle_decode_all (drop 1 indices_data) (indices_size - 1)
              (int (unat bit_width)) output_count;
            if length block < 4 * length indices then None
            else if int (length indices) < output_count then Some (Inl CARQUET_ERROR_DECODE)
            else Some (Inr indices)
          }
      })"

text \<open>The macro ENSURE_DICT_ALIGNED: the dictionary itself when it is aligned, or a copy.\<close>

definition ENSURE_DICT_ALIGNED :: "allocator \<Rightarrow> bool \<Rightarrow> u8 list \<Rightarrow> nat \<Rightarrow> u8 list option option" where
  "ENSURE_DICT_ALIGNED A aligned d n =
     (if aligned then Some (Some d)
      else case carquet_mem_malloc A n of
        None \<Rightarrow> Some None
      | Some _ \<Rightarrow> do { bs \<leftarrow> rd_bytes d 0 n; Some (Some bs) })"

text \<open>The gathers with bounds checks; Some None is the result \<open>false\<close>.\<close>

fun scalar_checked_gather_i32 :: "u8 list \<Rightarrow> int \<Rightarrow> u32 list \<Rightarrow> u32 list option option" where
  "scalar_checked_gather_i32 d dict_count [] = Some (Some [])"
| "scalar_checked_gather_i32 d dict_count (i # is) =
     (if i \<ge> word_of_int dict_count then Some None
      else do {
        v \<leftarrow> carquet_read_u32_le d (4 * unat i);
        r \<leftarrow> scalar_checked_gather_i32 d dict_count is;
        Some (map_option ((#) v) r)
      })"

fun scalar_checked_gather_i64 :: "u8 list \<Rightarrow> int \<Rightarrow> u32 list \<Rightarrow> u64 list option option" where
  "scalar_checked_gather_i64 d dict_count [] = Some (Some [])"
| "scalar_checked_gather_i64 d dict_count (i # is) =
     (if i \<ge> word_of_int dict_count then Some None
      else do {
        v \<leftarrow> carquet_read_u64_le d (8 * unat i);
        r \<leftarrow> scalar_checked_gather_i64 d dict_count is;
        Some (map_option ((#) v) r)
      })"

definition scalar_checked_gather_float :: "u8 list \<Rightarrow> int \<Rightarrow> u32 list \<Rightarrow> u32 list option option" where
  "scalar_checked_gather_float d dict_count is = scalar_checked_gather_i32 d dict_count is"

definition scalar_checked_gather_double :: "u8 list \<Rightarrow> int \<Rightarrow> u32 list \<Rightarrow> u64 list option option" where
  "scalar_checked_gather_double d dict_count is = scalar_checked_gather_i64 d dict_count is"

text \<open>The lookup in the little-endian build: the aligned dictionary, and a gather over it.\<close>

definition gather_lookup ::
  "allocator \<Rightarrow> bool \<Rightarrow> nat \<Rightarrow> (u8 list \<Rightarrow> int \<Rightarrow> u32 list \<Rightarrow> 'v list option option) \<Rightarrow>
   u8 list \<Rightarrow> int \<Rightarrow> u32 list \<Rightarrow> (carquet_status + 'v list) option" where
  "gather_lookup A aligned w gather d dict_count indices = do {
     a \<leftarrow> ENSURE_DICT_ALIGNED A aligned d (sz (nat dict_count * w));
     case a of
       None \<Rightarrow> Some (Inl CARQUET_ERROR_OUT_OF_MEMORY)
     | Some aligned_dict \<Rightarrow> do {
         r \<leftarrow> gather aligned_dict dict_count indices;
         case r of None \<Rightarrow> Some (Inl CARQUET_ERROR_DECODE) | Some out \<Rightarrow> Some (Inr out)
       }
   }"

definition carquet_dictionary_decode_int32 ::
  "bool \<Rightarrow> allocator \<Rightarrow> bool \<Rightarrow> u8 list option \<Rightarrow> nat \<Rightarrow> int \<Rightarrow> u8 list \<Rightarrow> nat \<Rightarrow> int \<Rightarrow>
   (carquet_status + u32 list) option" where
  "carquet_dictionary_decode_int32 big_endian A aligned dict_data dict_size dict_count
     indices_data indices_size output_count =
     (if output_count \<le> 0 then Some (Inr [])
      else do {
        r \<leftarrow> dict_indices A 4 dict_data dict_size dict_count indices_data indices_size output_count;
        case r of
          Inl status \<Rightarrow> Some (Inl status)
        | Inr indices \<Rightarrow> let d = block_bytes dict_data in
            if big_endian
            then map_option Inr (those (map (\<lambda>i. carquet_read_u32_le d (unat i * 4)) indices))
            else gather_lookup A aligned 4 scalar_checked_gather_i32 d dict_count indices
      })"

definition carquet_dictionary_decode_int64 ::
  "bool \<Rightarrow> allocator \<Rightarrow> bool \<Rightarrow> u8 list option \<Rightarrow> nat \<Rightarrow> int \<Rightarrow> u8 list \<Rightarrow> nat \<Rightarrow> int \<Rightarrow>
   (carquet_status + u64 list) option" where
  "carquet_dictionary_decode_int64 big_endian A aligned dict_data dict_size dict_count
     indices_data indices_size output_count =
     (if output_count \<le> 0 then Some (Inr [])
      else do {
        r \<leftarrow> dict_indices A 8 dict_data dict_size dict_count indices_data indices_size output_count;
        case r of
          Inl status \<Rightarrow> Some (Inl status)
        | Inr indices \<Rightarrow> let d = block_bytes dict_data in
            if big_endian
            then map_option Inr (those (map (\<lambda>i. carquet_read_u64_le d (unat i * 8)) indices))
            else gather_lookup A aligned 8 scalar_checked_gather_i64 d dict_count indices
      })"

definition carquet_dictionary_decode_float ::
  "bool \<Rightarrow> allocator \<Rightarrow> bool \<Rightarrow> u8 list option \<Rightarrow> nat \<Rightarrow> int \<Rightarrow> u8 list \<Rightarrow> nat \<Rightarrow> int \<Rightarrow>
   (carquet_status + u32 list) option" where
  "carquet_dictionary_decode_float big_endian A aligned dict_data dict_size dict_count
     indices_data indices_size output_count =
     (if output_count \<le> 0 then Some (Inr [])
      else do {
        r \<leftarrow> dict_indices A 4 dict_data dict_size dict_count indices_data indices_size output_count;
        case r of
          Inl status \<Rightarrow> Some (Inl status)
        | Inr indices \<Rightarrow> let d = block_bytes dict_data in
            if big_endian
            then map_option Inr (those (map (\<lambda>i. carquet_read_u32_le d (unat i * 4)) indices))
            else gather_lookup A aligned 4 scalar_checked_gather_float d dict_count indices
      })"

definition carquet_dictionary_decode_double ::
  "bool \<Rightarrow> allocator \<Rightarrow> bool \<Rightarrow> u8 list option \<Rightarrow> nat \<Rightarrow> int \<Rightarrow> u8 list \<Rightarrow> nat \<Rightarrow> int \<Rightarrow>
   (carquet_status + u64 list) option" where
  "carquet_dictionary_decode_double big_endian A aligned dict_data dict_size dict_count
     indices_data indices_size output_count =
     (if output_count \<le> 0 then Some (Inr [])
      else do {
        r \<leftarrow> dict_indices A 8 dict_data dict_size dict_count indices_data indices_size output_count;
        case r of
          Inl status \<Rightarrow> Some (Inl status)
        | Inr indices \<Rightarrow> let d = block_bytes dict_data in
            if big_endian
            then map_option Inr (those (map (\<lambda>i. carquet_read_u64_le d (unat i * 8)) indices))
            else gather_lookup A aligned 8 scalar_checked_gather_double d dict_count indices
      })"

section \<open>The hash table\<close>

text \<open>
  Where entries are: each in the chain of its hash. What the table holds, as a set: that moving
  entries to a larger table does not change.
\<close>

definition all_entries :: "dict_entry list list \<Rightarrow> dict_entry set" where
  "all_entries bs = {e. \<exists>c < length bs. e \<in> set (bs ! c)}"

definition placed :: "dict_entry list list \<Rightarrow> nat \<Rightarrow> bool" where
  "placed bs n \<longleftrightarrow> length bs = n \<and> (\<forall>c < n. \<forall>e \<in> set (bs ! c). bucket_of (de_hash e) n = c)"

lemma all_entries_simps [simp]: "all_entries [] = {}" "all_entries (c # cs) = set c \<union> all_entries cs"
  by (auto simp: all_entries_def less_Suc_eq_0_disj)

lemma bucket_of_pow2: "bucket_of h (2 ^ k) = unat h mod 2 ^ k"
proof -
  have "bucket_of h (2 ^ k) = unat h AND mask k"
    by (simp add: bucket_of_def mask_eq_exp_minus_1)
  also have "\<dots> = take_bit k (unat h)" by (simp only: take_bit_eq_mask)
  finally show ?thesis by (simp only: take_bit_eq_mod)
qed

lemma bucket_of_less: "bucket_of h (2 ^ k) < 2 ^ k"
  by (simp add: bucket_of_pow2)

lemma all_entries_update:
  "c < length bs \<Longrightarrow> all_entries (bs[c := e # bs ! c]) = insert e (all_entries bs)"
  by (fastforce simp: all_entries_def nth_list_update split: if_splits)

lemma push_entry_placed:
  assumes "placed bs (2 ^ k)"
  shows "\<exists>bs'. push_entry bs (2 ^ k) e = Some bs' \<and> placed bs' (2 ^ k) \<and> all_entries bs' = insert e (all_entries bs)"
proof -
  let ?c = "bucket_of (de_hash e) (2 ^ k)"
  have c: "?c < length bs" using bucket_of_less assms by (simp add: placed_def)
  then have "push_entry bs (2 ^ k) e = Some (bs[?c := e # bs ! ?c])" by (simp add: push_entry_def)
  moreover have "placed (bs[?c := e # bs ! ?c]) (2 ^ k)"
    unfolding placed_def
  proof (intro conjI allI impI ballI)
    fix c f assume "c < 2 ^ k" "f \<in> set (bs[?c := e # bs ! ?c] ! c)"
    then show "bucket_of (de_hash f) (2 ^ k) = c"
      using assms by (cases "c = ?c") (auto simp: placed_def)
  qed (use assms in \<open>simp add: placed_def\<close>)
  ultimately show ?thesis using all_entries_update [OF c] by blast
qed

lemma rehash_chain_placed:
  "placed bs (2 ^ k) \<Longrightarrow> \<exists>bs'. rehash_chain bs (2 ^ k) es = Some bs' \<and> placed bs' (2 ^ k) \<and>
     all_entries bs' = all_entries bs \<union> set es"
proof (induction es arbitrary: bs)
  case (Cons e es)
  obtain b1 where b1: "push_entry bs (2 ^ k) e = Some b1" "placed b1 (2 ^ k)" "all_entries b1 = insert e (all_entries bs)"
    using push_entry_placed [OF Cons.prems] by blast
  then show ?case using Cons.IH [OF b1(2)] by auto
qed simp

lemma rehash_chains_placed:
  "placed bs (2 ^ k) \<Longrightarrow> \<exists>bs'. rehash_chains bs (2 ^ k) cs = Some bs' \<and> placed bs' (2 ^ k) \<and>
     all_entries bs' = all_entries bs \<union> all_entries cs"
proof (induction cs arbitrary: bs)
  case Nil
  then show ?case by simp
next
  case (Cons c cs)
  obtain b1 where b1: "rehash_chain bs (2 ^ k) c = Some b1" "placed b1 (2 ^ k)" "all_entries b1 = all_entries bs \<union> set c"
    using rehash_chain_placed [OF Cons.prems] by blast
  then show ?case using Cons.IH [OF b1(2)] by auto
qed

lemma empty_placed: "placed (replicate n []) n" "all_entries (replicate n []) = {}"
  by (auto simp: placed_def all_entries_def)

text \<open>Looking a value up in the chain of its hash finds it if any entry of the table has it.\<close>

lemma find_entry_Some: "find_entry es h v = Some e \<Longrightarrow> e \<in> set es \<and> de_data e = v"
  by (induction es) (auto split: if_splits)

lemma find_entry_None: "find_entry es h v = None \<Longrightarrow> e \<in> set es \<Longrightarrow> de_hash e = h \<Longrightarrow> de_size e = length v \<Longrightarrow> de_data e \<noteq> v"
  by (induction es) (auto split: if_splits)

lemma placed_chain:
  assumes "placed bs (2 ^ k)" and "e \<in> all_entries bs"
  shows "e \<in> set (bs ! bucket_of (de_hash e) (2 ^ k))"
proof -
  obtain c where "c < length bs" "e \<in> set (bs ! c)" using assms(2) by (auto simp: all_entries_def)
  then show ?thesis using assms(1) by (auto simp: placed_def)
qed

lemma chain_entries: "c < length bs \<Longrightarrow> e \<in> set (bs ! c) \<Longrightarrow> e \<in> all_entries bs"
  by (auto simp: all_entries_def)

text \<open>The hash of a value depends on its bytes only.\<close>

definition value_dict_hash :: "u8 list \<Rightarrow> u32" where
  "value_dict_hash v = the (dict_hash v (length v))"

lemma dict_hash_value: "n \<le> length v \<Longrightarrow> dict_hash v n = Some (value_dict_hash (take n v))"
  by (auto simp: value_dict_hash_def dict_hash_def dict_hash_fixed32_def dict_hash_fixed64_def read_u32_le_word
      read_u64_le_word rd_bytes_def min_absorb2 Let_def)

text \<open>
  The table as a map: it holds exactly one entry for each value of the list, with the value's bytes,
  size, hash and number.
\<close>

definition entry_for :: "u8 list list \<Rightarrow> nat \<Rightarrow> dict_entry" where
  "entry_for ds i = \<lparr>de_data = ds ! i, de_size = length (ds ! i), de_hash = value_dict_hash (ds ! i), de_index = of_nat i\<rparr>"

definition table_ok :: "dict_entry list list \<Rightarrow> nat \<Rightarrow> u8 list list \<Rightarrow> bool" where
  "table_ok bs n ds \<longleftrightarrow> (\<exists>k. n = 2 ^ k) \<and> placed bs n \<and> all_entries bs = entry_for ds ` {0..<length ds} \<and> distinct ds"

lemma table_lookup:
  assumes "table_ok bs n ds"
  shows "\<exists>chain. rd bs (bucket_of (value_dict_hash v) n) = Some chain \<and>
    (case find_entry chain (value_dict_hash v) v of
       Some e \<Rightarrow> (\<exists>i < length ds. ds ! i = v \<and> de_index e = of_nat i)
     | None \<Rightarrow> v \<notin> set ds)"
proof -
  obtain k where k: "n = 2 ^ k" using assms by (auto simp: table_ok_def)
  let ?c = "bucket_of (value_dict_hash v) n"
  have c: "?c < length bs" using assms bucket_of_less by (auto simp: table_ok_def placed_def k)
  have "case find_entry (bs ! ?c) (value_dict_hash v) v of
       Some e \<Rightarrow> (\<exists>i < length ds. ds ! i = v \<and> de_index e = of_nat i)
     | None \<Rightarrow> v \<notin> set ds"
  proof (cases "find_entry (bs ! ?c) (value_dict_hash v) v")
    case None
    have "v \<notin> set ds"
    proof
      assume "v \<in> set ds"
      then obtain i where i: "i < length ds" "ds ! i = v" by (auto simp: in_set_conv_nth)
      then have "entry_for ds i \<in> all_entries bs" using assms by (simp add: table_ok_def)
      then have "entry_for ds i \<in> set (bs ! ?c)"
        using placed_chain [of bs k "entry_for ds i"] assms i by (auto simp: table_ok_def k entry_for_def)
      then show False using find_entry_None [OF None, of "entry_for ds i"] i by (simp add: entry_for_def)
    qed
    then show ?thesis using None by simp
  next
    case (Some e)
    then have "e \<in> all_entries bs" "de_data e = v" using find_entry_Some [OF Some] chain_entries [OF c] by auto
    then show ?thesis using assms Some by (auto simp: table_ok_def entry_for_def)
  qed
  then show ?thesis using c by simp
qed

lemma entry_for_append: "i < length ds \<Longrightarrow> entry_for (ds @ [v]) i = entry_for ds i"
  by (simp add: entry_for_def nth_append)

lemma table_push:
  assumes "table_ok bs n ds" and "v \<notin> set ds"
  shows "\<exists>bs'. push_entry bs n (entry_for (ds @ [v]) (length ds)) = Some bs' \<and> table_ok bs' n (ds @ [v])"
proof -
  obtain k where k: "n = 2 ^ k" using assms by (auto simp: table_ok_def)
  obtain bs' where bs': "push_entry bs n (entry_for (ds @ [v]) (length ds)) = Some bs'" "placed bs' n"
    "all_entries bs' = insert (entry_for (ds @ [v]) (length ds)) (all_entries bs)"
    using push_entry_placed [of bs k "entry_for (ds @ [v]) (length ds)"] assms unfolding table_ok_def k by blast
  have "entry_for (ds @ [v]) ` {0..<length ds} = entry_for ds ` {0..<length ds}"
    by (rule image_cong) (auto simp: entry_for_append)
  then have "all_entries bs' = entry_for (ds @ [v]) ` {0..<length (ds @ [v])}"
    using bs'(3) assms by (simp add: table_ok_def atLeast0_lessThan_Suc)
  then show ?thesis using bs' assms by (auto simp: table_ok_def)
qed

lemma table_rehash:
  assumes "table_ok bs n ds"
  shows "\<exists>bs'. rehash_chains (replicate (n * 2) []) (n * 2) bs = Some bs' \<and> table_ok bs' (n * 2) ds"
proof -
  obtain k where k: "n * 2 = 2 ^ Suc k" using assms by (auto simp: table_ok_def)
  show ?thesis using rehash_chains_placed [of "replicate (n * 2) []" "Suc k" bs] assms empty_placed [of "n * 2"]
    by (auto simp: table_ok_def k simp del: power_Suc intro: exI [of _ "Suc k"])
qed

section \<open>The builder as a list of distinct values\<close>

text \<open>
  The specification: the values in the order they first appear, and for each value put in, where it
  stands in that list.
\<close>

definition add_distinct :: "'a list \<Rightarrow> 'a \<Rightarrow> 'a list" where
  "add_distinct ds v = (if v \<in> set ds then ds else ds @ [v])"

definition distinct_values :: "'a list \<Rightarrow> 'a list" where
  "distinct_values vs = foldl add_distinct [] vs"

definition indexed :: "u32 list \<Rightarrow> 'a list \<Rightarrow> 'a list \<Rightarrow> bool" where
  "indexed is ds vs \<longleftrightarrow> length is = length vs \<and>
     (\<forall>k < length vs. unat (is ! k) < length ds \<and> ds ! unat (is ! k) = vs ! k)"

definition entry_bytes :: "bool \<Rightarrow> u8 list \<Rightarrow> u8 list" where
  "entry_bytes var v = (if var then carquet_write_u32_le (of_nat (length v)) else []) @ v"

definition dict_page :: "bool \<Rightarrow> u8 list list \<Rightarrow> u8 list" where
  "dict_page var ds = concat (map (entry_bytes var) ds)"

definition builder_ok :: "allocator \<Rightarrow> dict_builder \<Rightarrow> u8 list list \<Rightarrow> u8 list list \<Rightarrow> nat \<Rightarrow> nat \<Rightarrow> bool" where
  "builder_ok A b ds vs N room \<longleftrightarrow>
     table_ok (db_buckets b) (db_num_buckets b) ds \<and> db_num_buckets b \<le> 2 ^ 33 \<and>
     db_count b = length ds \<and> length ds \<le> length vs \<and>
     db_indices_count b = length vs \<and> length (db_indices b) = N \<and> db_indices_capacity b = N \<and>
     length vs \<le> N \<and> N < 2 ^ 31 \<and> indexed (take (length vs) (db_indices b)) ds vs \<and>
     buf_room A (db_dict_buffer b) room \<and>
     contents (db_dict_buffer b) = dict_page (db_is_variable_length b) ds \<and>
     (db_abandoned b \<longleftrightarrow> db_max_dict_bytes b \<noteq> 0 \<and>
        db_max_dict_bytes b < length (dict_page (db_is_variable_length b) ds))"

text \<open>The settings an addition does not touch.\<close>

definition same_settings :: "dict_builder \<Rightarrow> dict_builder \<Rightarrow> bool" where
  "same_settings b b' \<longleftrightarrow> db_is_variable_length b' = db_is_variable_length b \<and>
     db_max_dict_bytes b' = db_max_dict_bytes b"

lemma same_settings_trans: "same_settings b c \<Longrightarrow> same_settings c d \<Longrightarrow> same_settings b d"
  by (simp add: same_settings_def)

lemma indexed_snoc:
  assumes "indexed (take (length vs) ws) ds vs" and "length vs < length ws"
    and "unat i < length ds'" and "ds' ! unat i = v" and "\<And>j. j < length ds \<Longrightarrow> j < length ds' \<and> ds' ! j = ds ! j"
  shows "indexed (take (Suc (length vs)) (ws[length vs := i])) ds' (vs @ [v])"
  using assms by (auto simp: indexed_def nth_append less_Suc_eq nth_list_update)

lemma put_index_ok:
  assumes "length ws = N" "db_indices b = ws" "db_indices_count b = n" "n < N"
  shows "put_index b i = Some (b\<lparr>db_indices := ws[n := i], db_indices_count := Suc n\<rparr>)"
  using assms by (simp add: put_index_def)

lemma alloc_always:
  assumes "buf_room A buf n"
  shows "carquet_mem_malloc A (sz m) \<noteq> None" and "m * 8 \<le> SIZE_MAX \<Longrightarrow> carquet_mem_calloc A m 8 \<noteq> None"
proof -
  have ok: "\<forall>n. alloc_ok A n" using assms by (simp add: buf_room_def buf_growable_def)
  then show "carquet_mem_malloc A (sz m) \<noteq> None"
    using sz_bound [of m] by (simp add: carquet_mem_malloc_def SIZE_MAX_def)
  show "carquet_mem_calloc A m 8 \<noteq> None" if m: "m * 8 \<le> SIZE_MAX"
  proof -
    have "8 \<le> SIZE_MAX div m" if "m \<noteq> 0"
      using div_le_mono [OF m, of m] that by simp
    then have "\<not> (m \<noteq> 0 \<and> 8 > SIZE_MAX div m)" by auto
    then show ?thesis using ok m by (simp add: carquet_mem_calloc_def carquet_mem_malloc_def Let_def)
  qed
qed

lemma buffer_size: "buf_room A buf n \<Longrightarrow> buf_size buf = length (contents buf)"
  by (simp add: buf_room_def buf_growable_def buf_wf_def contents_def)

lemma append_entry:
  assumes "buf_room A buf (4 + length v + room)"
  shows "buf_room A (append_dict_value A var buf v) room"
    and "contents (append_dict_value A var buf v) = contents buf @ entry_bytes var v"
proof -
  let ?l = "if var then carquet_write_u32_le (of_nat (length v)) else []"
  let ?b1 = "if var then snd (carquet_buffer_append_u32_le A buf (of_nat (length v))) else buf"
  have wf: "buf_wf buf" using room_wf [OF assms] .
  have r: "buf_room A buf (length ?l + (length v + room))" by (rule bsink.room_mono [OF assms]) simp
  have b1: "?b1 = snd (carquet_buffer_append A buf ?l)"
    by (cases var) (simp_all add: carquet_buffer_append_u32_le_def, simp add: carquet_buffer_append_def)
  note p1 = bsink.put_room_OK [OF wf r]
  note p2 = bsink.put_room_OK [OF p1(2,4)]
  show "buf_room A (append_dict_value A var buf v) room"
    "contents (append_dict_value A var buf v) = contents buf @ entry_bytes var v"
    using p1 p2 unfolding append_dict_value_def Let_def b1 by (simp_all add: entry_bytes_def)
qed

lemma rehash_ok:
  assumes "table_ok (db_buckets b) (db_num_buckets b) ds" and "db_num_buckets b \<le> 2 ^ 33"
    and "length ds < 2 ^ 31" and "db_count b = length ds" and "buf_room A (db_dict_buffer b) room"
  shows "\<exists>bs n. (if sz ((db_count b + 1) * DICT_BUILDER_MAX_LOAD_DEN) > sz (db_num_buckets b * DICT_BUILDER_MAX_LOAD_NUM)
        then dict_builder_rehash A b (sz (db_num_buckets b * 2)) else Some (CARQUET_OK, b)) =
      Some (CARQUET_OK, b\<lparr>db_buckets := bs, db_num_buckets := n\<rparr>) \<and> table_ok bs n ds \<and> n \<le> 2 ^ 33"
proof (cases "sz ((db_count b + 1) * DICT_BUILDER_MAX_LOAD_DEN) > sz (db_num_buckets b * DICT_BUILDER_MAX_LOAD_NUM)")
  case False
  then show ?thesis using assms by (intro exI [of _ "db_buckets b"] exI [of _ "db_num_buckets b"]) simp
next
  case True
  have "sz ((db_count b + 1) * DICT_BUILDER_MAX_LOAD_DEN) = (length ds + 1) * 4"
    "sz (db_num_buckets b * DICT_BUILDER_MAX_LOAD_NUM) = db_num_buckets b * 3"
    using assms by (simp_all add: DICT_BUILDER_MAX_LOAD_DEN_def DICT_BUILDER_MAX_LOAD_NUM_def sz_id)
  then have n: "db_num_buckets b * 2 \<le> 2 ^ 33" using True assms(3) by simp
  then have s: "sz (db_num_buckets b * 2) = db_num_buckets b * 2" by (simp add: sz_id)
  obtain blk where blk: "carquet_mem_calloc A (db_num_buckets b * 2) 8 = Some blk"
    using alloc_always(2) [OF assms(5), of "db_num_buckets b * 2"] n by (auto simp: SIZE_MAX_def)
  have "length (db_buckets b) = db_num_buckets b" using assms(1) by (simp add: table_ok_def placed_def)
  then have "rd_bytes (db_buckets b) 0 (db_num_buckets b) = Some (db_buckets b)" by (auto simp: rd_bytes_def)
  moreover obtain bs where "rehash_chains (replicate (db_num_buckets b * 2) []) (db_num_buckets b * 2) (db_buckets b) = Some bs"
    "table_ok bs (db_num_buckets b * 2) ds" using table_rehash [OF assms(1)] by blast
  ultimately show ?thesis using True n blk s
    by (intro exI [of _ bs] exI [of _ "db_num_buckets b * 2"]) (simp add: dict_builder_rehash_def)
qed


text \<open>An addition is an addition to the list of distinct values.\<close>

lemma add_new_entry_ok:
  assumes "builder_ok A b ds vs N (4 + length v + room)" and "length vs < N" and "v \<notin> set ds"
  shows "\<exists>b'. add_new_entry A b v (value_dict_hash v) = Some (CARQUET_OK, b') \<and>
    builder_ok A b' (ds @ [v]) (vs @ [v]) N room \<and> same_settings b b'"
proof -
  have b: "table_ok (db_buckets b) (db_num_buckets b) ds" "db_num_buckets b \<le> 2 ^ 33" "db_count b = length ds"
    "length ds \<le> length vs" "db_indices_count b = length vs" "length (db_indices b) = N" "db_indices_capacity b = N"
    "N < 2 ^ 31" "indexed (take (length vs) (db_indices b)) ds vs"
    "buf_room A (db_dict_buffer b) (4 + length v + room)"
    "contents (db_dict_buffer b) = dict_page (db_is_variable_length b) ds"
    "db_abandoned b \<longleftrightarrow> db_max_dict_bytes b \<noteq> 0 \<and> db_max_dict_bytes b < length (dict_page (db_is_variable_length b) ds)"
    using assms(1) by (auto simp: builder_ok_def)
  have lds: "length ds < 2 ^ 31" using b(4,8) assms(2) by linarith
  obtain bs n where r: "(if sz ((db_count b + 1) * DICT_BUILDER_MAX_LOAD_DEN) > sz (db_num_buckets b * DICT_BUILDER_MAX_LOAD_NUM)
        then dict_builder_rehash A b (sz (db_num_buckets b * 2)) else Some (CARQUET_OK, b)) =
      Some (CARQUET_OK, b\<lparr>db_buckets := bs, db_num_buckets := n\<rparr>)" "table_ok bs n ds" "n \<le> 2 ^ 33"
    using rehash_ok [OF b(1,2) lds b(3,10)] by blast
  obtain blk where blk: "carquet_mem_malloc A (sz (SIZEOF_DICT_ENTRY + length v)) = Some blk"
    using alloc_always(1) [OF b(10)] by blast
  obtain bs' where bs': "push_entry bs n (entry_for (ds @ [v]) (length ds)) = Some bs'" "table_ok bs' n (ds @ [v])"
    using table_push [OF r(2) assms(3)] by blast
  have e: "entry_for (ds @ [v]) (length ds) =
     \<lparr>de_data = v, de_size = length v, de_hash = value_dict_hash v, de_index = of_nat (length ds)\<rparr>"
    by (simp add: entry_for_def)
  let ?var = "db_is_variable_length b"
  define buf where "buf = append_dict_value A ?var (db_dict_buffer b) v"
  have buf: "buf_room A buf room" "contents buf = dict_page ?var (ds @ [v])"
    using append_entry [OF b(10), of ?var] b(11) by (simp_all add: dict_page_def buf_def)
  let ?i = "of_nat (length ds) :: u32"
  let ?b2 = "b\<lparr>db_num_buckets := n, db_buckets := bs', db_dict_buffer := buf,
     db_indices := (db_indices b)[length vs := ?i], db_indices_count := Suc (length vs), db_count := Suc (length ds)\<rparr>"
  let ?b' = "if db_max_dict_bytes b \<noteq> 0 \<and> length (dict_page ?var (ds @ [v])) > db_max_dict_bytes b
     then ?b2\<lparr>db_abandoned := True\<rparr> else ?b2"
  have idx: "indexed (take (Suc (length vs)) ((db_indices b)[length vs := ?i])) (ds @ [v]) (vs @ [v])"
    by (rule indexed_snoc [OF b(9)]) (use b(6) assms(2) lds in \<open>auto simp: unat_of_nat nth_append\<close>)
  have "add_new_entry A b v (value_dict_hash v) = Some (CARQUET_OK, ?b')"
    unfolding add_new_entry_def r(1) bind.bind_lunit prod.case
    using blk bs'(1) b(3,5,6) assms(2) buffer_size [OF buf(1)] buf(2)
    by (simp add: e Let_def put_index_def buf_def [symmetric])
  moreover have "builder_ok A ?b' (ds @ [v]) (vs @ [v]) N room"
    using b r(3) bs'(2) buf idx assms(2) by (auto simp: builder_ok_def dict_page_def)
  moreover have "same_settings b ?b'" by (simp add: same_settings_def)
  ultimately show ?thesis by blast
qed

lemma dict_builder_add_ok:
  assumes "builder_ok A b ds vs N (4 + n + room)" and "length vs < N" and "n \<le> length v"
  shows "\<exists>b'. dict_builder_add A b v n = Some (CARQUET_OK, b') \<and>
    builder_ok A b' (add_distinct ds (take n v)) (vs @ [take n v]) N room \<and> same_settings b b'"
proof -
  let ?v = "take n v"
  have lv: "length ?v = n" using assms(3) by simp
  have g: "grow_indices A b = Some b" using assms(1,2) by (simp add: grow_indices_def builder_ok_def)
  obtain chain where chain: "rd (db_buckets b) (bucket_of (value_dict_hash ?v) (db_num_buckets b)) = Some chain"
    "case find_entry chain (value_dict_hash ?v) ?v of
       Some e \<Rightarrow> (\<exists>i < length ds. ds ! i = ?v \<and> de_index e = of_nat i)
     | None \<Rightarrow> ?v \<notin> set ds"
    using table_lookup [of "db_buckets b" "db_num_buckets b" ds ?v] assms(1) by (auto simp: builder_ok_def)
  have bytes: "rd_bytes v 0 n = Some ?v" using assms(3) by (simp add: rd_bytes_def)
  show ?thesis
  proof (cases "find_entry chain (value_dict_hash ?v) ?v")
    case None
    then have new: "?v \<notin> set ds" using chain(2) by simp
    have "builder_ok A b ds vs N (4 + length ?v + room)" using assms(1) lv by simp
    from add_new_entry_ok [OF this assms(2) new] show ?thesis
      using g dict_hash_value [OF assms(3)] chain(1) bytes None new
      by (simp add: dict_builder_add_def add_distinct_def)
  next
    case (Some e)
    then obtain i where i: "i < length ds" "ds ! i = ?v" "de_index e = of_nat i" using chain(2) by auto
    then have old: "?v \<in> set ds" by (metis nth_mem)
    have b: "length ds \<le> length vs" "N < 2 ^ 31" "length (db_indices b) = N" "db_indices_count b = length vs"
      "indexed (take (length vs) (db_indices b)) ds vs" "buf_room A (db_dict_buffer b) (4 + n + room)"
      using assms(1) by (auto simp: builder_ok_def)
    let ?b' = "b\<lparr>db_indices := (db_indices b)[length vs := of_nat i], db_indices_count := Suc (length vs)\<rparr>"
    have "indexed (take (Suc (length vs)) ((db_indices b)[length vs := of_nat i])) ds (vs @ [?v])"
      by (rule indexed_snoc [OF b(5)]) (use b i assms(2) in \<open>auto simp: unat_of_nat\<close>)
    moreover have "buf_room A (db_dict_buffer b) room" by (rule bsink.room_mono [OF b(6)]) simp
    ultimately have "builder_ok A ?b' ds (vs @ [?v]) N room" using assms(1,2) by (simp add: builder_ok_def)
    moreover have "dict_builder_add A b v n = Some (CARQUET_OK, ?b')"
      using g dict_hash_value [OF assms(3)] chain(1) bytes Some i b assms(2)
      by (simp add: dict_builder_add_def put_index_def)
    ultimately show ?thesis using old by (auto simp: add_distinct_def same_settings_def)
  qed
qed

text \<open>What the values of a call need of the buffer: four bytes and their own for each.\<close>

definition values_room :: "(u8 list \<times> nat) list \<Rightarrow> nat" where
  "values_room vs = sum_list (map (\<lambda>(v, n). 4 + n) vs)"

abbreviation value_bytes :: "(u8 list \<times> nat) list \<Rightarrow> u8 list list" where
  "value_bytes vs \<equiv> map (\<lambda>(v, n). take n v) vs"

lemma values_room_Cons: "values_room ((v, n) # vs) = 4 + n + values_room vs"
  by (simp add: values_room_def)

lemma add_values_ok:
  assumes "builder_ok A b ds ws N (values_room vs)" and "length ws + length vs \<le> N" and "\<forall>(v, n) \<in> set vs. n \<le> length v"
  shows "\<exists>b'. add_values A b vs = Some (CARQUET_OK, b') \<and>
    builder_ok A b' (foldl add_distinct ds (value_bytes vs)) (ws @ value_bytes vs) N 0 \<and> same_settings b b'"
  using assms
proof (induction vs arbitrary: b ds ws)
  case Nil
  then show ?case by (simp add: values_room_def same_settings_def)
next
  case (Cons p vs)
  obtain v n where p: "p = (v, n)" by (cases p)
  have "builder_ok A b ds ws N (4 + n + values_room vs)" using Cons.prems(1) by (simp only: p values_room_Cons)
  moreover have "length ws < N" "n \<le> length v" using Cons.prems p by auto
  ultimately obtain b1 where b1: "dict_builder_add A b v n = Some (CARQUET_OK, b1)"
    "builder_ok A b1 (add_distinct ds (take n v)) (ws @ [take n v]) N (values_room vs)" "same_settings b b1"
    using dict_builder_add_ok by blast
  have "length (ws @ [take n v]) + length vs \<le> N" "\<forall>(v, n) \<in> set vs. n \<le> length v" using Cons.prems by auto
  then obtain b' where "add_values A b1 vs = Some (CARQUET_OK, b')"
    "builder_ok A b' (foldl add_distinct (add_distinct ds (take n v)) (value_bytes vs)) ((ws @ [take n v]) @ value_bytes vs) N 0"
    "same_settings b1 b'" using Cons.IH [OF b1(2)] by blast
  then show ?case using b1 same_settings_trans by (auto simp: p)
qed

lemma init_ok:
  assumes "buf_room A buf0 n0" and "room \<le> SIZE_MAX" and "N < 2 ^ 31" and "0 < N"
  shows "\<exists>b. dict_builder_init A N w var = Inr b \<and> builder_ok A b [] [] N room \<and>
    db_is_variable_length b = var \<and> db_max_dict_bytes b = 0"
proof -
  have ok: "\<forall>n. alloc_ok A n" using assms(1) by (simp add: buf_room_def buf_growable_def)
  obtain blk where blk: "carquet_mem_calloc A DICT_BUILDER_INITIAL_BUCKETS 8 = Some blk"
    using alloc_always(2) [OF assms(1), of DICT_BUILDER_INITIAL_BUCKETS]
    by (auto simp: DICT_BUILDER_INITIAL_BUCKETS_def SIZE_MAX_def)
  obtain buf where buf: "carquet_buffer_init_capacity A 4096 = (CARQUET_OK, buf)" "buf_size buf = 0" "buf_owns buf"
    using ok by (simp add: carquet_buffer_init_capacity_def carquet_buffer_reserve_def ensure_capacity_def
        carquet_buffer_init_def carquet_mem_realloc_def CARQUET_BUFFER_DEFAULT_CAPACITY_def Let_def SIZE_MAX_def
        next_power_of_two_def)
  have wf: "buf_wf buf" using init_capacity_wf [of A 4096] buf(1) by simp
  have s: "sz (N * 4) = N * 4" using assms(3) by (simp add: sz_id)
  obtain ws where ws: "realloc_words A [] (sz (N * 4)) = Some ws" "length ws = N"
    using ok assms(3) by (simp add: realloc_words_def carquet_mem_realloc_def s SIZE_MAX_def)
  have "table_ok (replicate DICT_BUILDER_INITIAL_BUCKETS []) DICT_BUILDER_INITIAL_BUCKETS []"
    using empty_placed [of 1024] by (auto simp: table_ok_def DICT_BUILDER_INITIAL_BUCKETS_def intro: exI [of _ 10])
  moreover have "buf_room A buf room" using ok wf buf assms(2) by (simp add: buf_room_def buf_growable_def contents_def)
  ultimately show ?thesis using blk buf ws assms(3,4)
    by (simp add: dict_builder_init_def Let_def builder_ok_def contents_def dict_page_def indexed_def
        DICT_BUILDER_INITIAL_BUCKETS_def)
qed

text \<open>The width of the indices holds every one of them.\<close>

lemma width_loop_fits:
  "unat c < 2 ^ j \<Longrightarrow> j \<le> fuel \<Longrightarrow> \<exists>m \<le> j. width_loop fuel c w = w + m \<and> unat c < 2 ^ m"
proof (induction fuel arbitrary: c w j)
  case 0
  then show ?case by simp
next
  case (Suc fuel)
  show ?case
  proof (cases "c = 0")
    case True
    then show ?thesis by (auto intro: exI [of _ 0])
  next
    case False
    have half: "unat (drop_bit 1 c) = unat c div 2"
    proof -
      have "unat (drop_bit 1 c) = drop_bit 1 (unat c)" by (rule unat_drop_bit_eq)
      then show ?thesis by (simp only: drop_bit_eq_div [of 1 "unat c"]) simp
    qed
    have "j \<noteq> 0" using False Suc.prems(1) by (cases j) (auto simp: unat_eq_zero)
    then obtain i where i: "j = Suc i" by (cases j) auto
    then have "unat (drop_bit 1 c) < 2 ^ i" using Suc.prems(1) half by simp
    then obtain m where m: "m \<le> i" "width_loop fuel (drop_bit 1 c) (w + 1) = w + 1 + m" "unat (drop_bit 1 c) < 2 ^ m"
      using Suc.IH [of "drop_bit 1 c" i "w + 1"] Suc.prems(2) i by auto
    have "0 < c" using False by (simp add: word_gt_0)
    moreover have "unat c < 2 ^ Suc m" using m(3) half by simp
    ultimately show ?thesis using m i by (intro exI [of _ "Suc m"]) simp
  qed
qed

lemma bit_width_fits:
  assumes "0 < c" and "c \<le> 2 ^ 31"
  shows "bit_width_for_count (of_nat c) \<le> 32" and "i < c \<Longrightarrow> i < 2 ^ bit_width_for_count (of_nat c)"
proof -
  have c: "unat (of_nat c :: u32) = c" using assms by (simp add: unat_of_nat)
  then have c1: "unat (of_nat c - 1 :: u32) = c - 1" using assms by (simp add: unat_sub word_le_nat_alt)
  have "c - 1 < 2 ^ 32" using assms by simp
  then obtain m where m: "m \<le> 32" "width_loop 33 (of_nat c - 1) 0 = 0 + m" "c - 1 < 2 ^ m"
    using width_loop_fits [of "of_nat c - 1" 32 33 0] c1 by auto
  have nz: "(of_nat c :: u32) \<noteq> 0" using c assms(1) by (metis unat_0 less_irrefl)
  show "bit_width_for_count (of_nat c) \<le> 32" using nz m by (simp add: bit_width_for_count_def Let_def)
  have "2 ^ m \<le> (2::nat) ^ bit_width_for_count (of_nat c)"
    using nz m by (simp add: bit_width_for_count_def Let_def)
  then show "i < c \<Longrightarrow> i < 2 ^ bit_width_for_count (of_nat c)" using m(3) by linarith
qed


lemma dict_page_room:
  "length (dict_page var (foldl add_distinct ds ws)) \<le> length (dict_page var ds) + sum_list (map (\<lambda>v. 4 + length v) ws)"
proof (induction ws arbitrary: ds)
  case (Cons w ws)
  have "length (dict_page var (add_distinct ds w)) \<le> length (dict_page var ds) + (4 + length w)"
    by (simp add: add_distinct_def dict_page_def entry_bytes_def)
  then show ?case using Cons.IH [of "add_distinct ds w"] by simp
qed simp

lemma distinct_values_nonempty: "ws \<noteq> [] \<Longrightarrow> distinct_values ws \<noteq> []"
proof -
  have "ds \<noteq> [] \<Longrightarrow> foldl add_distinct ds ws \<noteq> []" for ds :: "'a list" and ws
    by (induction ws arbitrary: ds) (auto simp: add_distinct_def)
  then show "ws \<noteq> [] \<Longrightarrow> distinct_values ws \<noteq> []"
    by (cases ws) (auto simp: distinct_values_def add_distinct_def)
qed

lemma write_dictionary_ok:
  assumes b: "builder_ok A b ds ws (length ws) 0" and "ws \<noteq> []" and "ds \<noteq> []"
    and "buf_room A dout (length (dict_page (db_is_variable_length b) ds))" and "buf_room A iout (1 + 9 * length ws)"
  shows "\<exists>dout' iout' is bs. write_dictionary A b (length ws) dout iout = Some (CARQUET_OK, dout', iout') \<and>
    contents dout' = contents dout @ dict_page (db_is_variable_length b) ds \<and>
    contents iout' = contents iout @ of_nat (bit_width_for_count (of_nat (length ds))) # bs \<and>
    coded (bit_width_for_count (of_nat (length ds))) bs is \<and> indexed is ds ws"
proof -
  let ?page = "dict_page (db_is_variable_length b) ds" and ?bw = "bit_width_for_count (of_nat (length ds))"
  have buf: "buf_room A (db_dict_buffer b) 0" "contents (db_dict_buffer b) = ?page" "db_count b = length ds"
    "length ds \<le> length ws" "length ws < 2 ^ 31" "length (db_indices b) = length ws" "indexed (db_indices b) ds ws"
    using b by (auto simp: builder_ok_def)
  have "buf_wf (db_dict_buffer b)" using room_wf [OF buf(1)] .
  then have page: "rd_bytes (block_bytes (buf_data (db_dict_buffer b))) 0 (buf_size (db_dict_buffer b)) = Some ?page"
    using buf(2) by (auto simp: rd_bytes_def contents_def buf_wf_def)
  have "buf_room A dout (length ?page + 0)" using assms(4) by simp
  note d = bsink.put_room_OK [OF room_wf [OF assms(4)] this]
  have "buf_room A iout (length [of_nat ?bw :: u8] + 9 * length ws)" using assms(5) by simp
  note i = bsink.put_room_OK [OF room_wf [OF assms(5)] this]
  have bw: "?bw \<le> 32" "\<And>i. i < length ds \<Longrightarrow> i < 2 ^ ?bw"
    using bit_width_fits [of "length ds"] assms(3) buf(4,5) by auto
  have "\<forall>v \<in> set (db_indices b). take_bit ?bw v = v"
  proof
    fix v assume "v \<in> set (db_indices b)"
    then have "unat v < length ds" using buf(6,7) by (auto simp: indexed_def in_set_conv_nth)
    then show "take_bit ?bw v = v" using bw(2) by (intro fits_width) blast
  qed
  then obtain iout' bs where r: "carquet_rle_encode_all A (db_indices b) ?bw (snd (carquet_buffer_append A iout [of_nat ?bw])) = Some (CARQUET_OK, iout')"
    "contents iout' = contents (snd (carquet_buffer_append A iout [of_nat ?bw])) @ bs" "coded ?bw bs (db_indices b)"
    using encode_all_correct [OF bw(1), of A "snd (carquet_buffer_append A iout [of_nat ?bw])" "db_indices b"] i(4) buf(5,6)
    by auto
  have ws: "rd_bytes (db_indices b) 0 (length ws) = Some (db_indices b)" using buf(6) by (auto simp: rd_bytes_def)
  have "write_dictionary A b (length ws) dout iout = Some (CARQUET_OK, snd (carquet_buffer_append A dout ?page), iout')"
    unfolding write_dictionary_def page ws bind.bind_lunit Let_def carquet_buffer_append_byte_def buf(3) r(1) by simp
  then show ?thesis using d(3) i(3) r(2,3) buf(7) by auto
qed

lemma dictionary_encode_ok:
  assumes "vs \<noteq> []" and "length vs < 2 ^ 31" and "\<forall>(v, n) \<in> set vs. n \<le> length v"
    and "buf_room A dout (values_room vs)" and "buf_room A iout (1 + 9 * length vs)"
    and ds: "ds = distinct_values (value_bytes vs)" and bw: "bw = bit_width_for_count (of_nat (length ds))"
  shows "\<exists>dout' iout' is bs. dictionary_encode A w var vs dout iout = Some (CARQUET_OK, dout', iout') \<and>
    contents dout' = contents dout @ dict_page var ds \<and> contents iout' = contents iout @ of_nat bw # bs \<and>
    coded bw bs is \<and> indexed is ds (value_bytes vs) \<and> bw \<le> 32 \<and> 0 < length ds \<and> length ds \<le> length vs"
proof -
  have room: "values_room vs \<le> SIZE_MAX" using assms(4) by (simp add: buf_room_def)
  obtain b0 where b0: "dict_builder_init A (length vs) w var = Inr b0"
    "builder_ok A b0 [] [] (length vs) (values_room vs)" "db_is_variable_length b0 = var"
    using init_ok [OF assms(4) room assms(2), of w var] assms(1) by auto
  obtain b where b: "add_values A b0 vs = Some (CARQUET_OK, b)" "builder_ok A b ds (value_bytes vs) (length vs) 0"
    "db_is_variable_length b = var"
    using add_values_ok [OF b0(2) _ assms(3)] b0(3) by (auto simp: ds distinct_values_def same_settings_def)
  have ne: "ds \<noteq> []" unfolding ds using assms(1) by (intro distinct_values_nonempty) simp
  have l: "length ds \<le> length vs" using b(2) by (simp add: builder_ok_def)
  have "sum_list (map (\<lambda>v. 4 + length v) (value_bytes vs)) = values_room vs"
    using assms(3) by (induction vs) (auto simp: values_room_def)
  then have "length (dict_page var ds) \<le> values_room vs"
    using dict_page_room [of var "[]" "value_bytes vs"] by (simp add: ds distinct_values_def dict_page_def)
  then have "buf_room A dout (length (dict_page var ds))" by (rule bsink.room_mono [OF assms(4)])
  then obtain dout' iout' "is" bs where w: "write_dictionary A b (length vs) dout iout = Some (CARQUET_OK, dout', iout')"
    "contents dout' = contents dout @ dict_page var ds" "contents iout' = contents iout @ of_nat bw # bs"
    "coded bw bs is" "indexed is ds (value_bytes vs)"
    using write_dictionary_ok [of A b ds "value_bytes vs" dout iout] b(2,3) assms(1,5) ne by (auto simp: bw)
  have "bw \<le> 32" unfolding bw using bit_width_fits(1) [of "length ds"] ne l assms(2) by auto
  then show ?thesis using b0(1) b(1) w ne l by (auto simp: dictionary_encode_def)
qed

section \<open>Reading back\<close>

lemma concat_chunk: "\<forall>x \<in> set ds. length x = w \<Longrightarrow> i < length ds \<Longrightarrow> take w (drop (w * i) (concat ds)) = ds ! i"
proof (induction ds arbitrary: i)
  case (Cons d ds)
  then show ?case by (cases i) simp_all
qed simp

lemma length_concat_chunks: "\<forall>x \<in> set ds. length x = w \<Longrightarrow> length (concat ds) = w * length ds"
  by (induction ds) simp_all

lemma read_entry32:
  "\<forall>x \<in> set ds. length x = 4 \<Longrightarrow> i < length ds \<Longrightarrow> carquet_read_u32_le (concat ds) (4 * i) = Some (le_word (ds ! i))"
  using length_concat_chunks [of ds 4] by (simp add: read_u32_le_word concat_chunk)

lemma read_entry64:
  "\<forall>x \<in> set ds. length x = 8 \<Longrightarrow> i < length ds \<Longrightarrow> carquet_read_u64_le (concat ds) (8 * i) = Some (le_word (ds ! i))"
  using length_concat_chunks [of ds 8] by (simp add: read_u64_le_word concat_chunk)

lemma index_in_range: "unat (i :: u32) < n \<Longrightarrow> n < 2 ^ 31 \<Longrightarrow> \<not> i \<ge> of_nat n"
  by (simp add: word_le_nat_alt unat_of_nat)

lemma gather32:
  "\<forall>x \<in> set ds. length x = 4 \<Longrightarrow> length ds < 2 ^ 31 \<Longrightarrow> \<forall>i \<in> set is. unat i < length ds \<Longrightarrow>
    scalar_checked_gather_i32 (concat ds) (int (length ds)) is = Some (Some (map (\<lambda>i. le_word (ds ! unat i)) is))"
  by (induction "is") (simp_all add: index_in_range read_entry32)

lemma gather64:
  "\<forall>x \<in> set ds. length x = 8 \<Longrightarrow> length ds < 2 ^ 31 \<Longrightarrow> \<forall>i \<in> set is. unat i < length ds \<Longrightarrow>
    scalar_checked_gather_i64 (concat ds) (int (length ds)) is = Some (Some (map (\<lambda>i. le_word (ds ! unat i)) is))"
  by (induction "is") (simp_all add: index_in_range read_entry64)

lemma those_reads:
  "\<forall>i \<in> set is. f i = Some (g i) \<Longrightarrow> those (map f is) = Some (map g is)"
  by (induction "is") simp_all

lemma ensure_aligned:
  assumes "\<forall>n. alloc_ok A n" and "length d = n" and "n \<le> SIZE_MAX"
  shows "ENSURE_DICT_ALIGNED A aligned d n = Some (Some d)"
  using assms by (auto simp: ENSURE_DICT_ALIGNED_def carquet_mem_malloc_def rd_bytes_def)

lemma dict_indices_ok:
  assumes "\<forall>n. alloc_ok A n" and "coded bw bs is" and "bw \<le> 32" and "length is < 2 ^ 31"
    and "0 < n" and "length d = w * n" and "w * n < 2 ^ 64"
  shows "dict_indices A w (Some d) (length d) (int n) (of_nat bw # bs) (length bs + 1) (int (length is)) = Some (Inr is)"
proof -
  have "int (unat (of_nat bw :: u8)) = int bw" using assms(3) by (simp add: unat_of_nat)
  moreover have "carquet_mem_malloc A (sz (length is * 4)) = Some (map (fresh A) [0..<length is * 4])"
    using assms(1,4) by (simp add: carquet_mem_malloc_def sz_id SIZE_MAX_def)
  ultimately show ?thesis using coded_decodes(1) [OF assms(2,3)] assms(5,6,7)
    by (simp add: dict_indices_def sz_id mult.commute)
qed

lemma set_add_distinct: "set (foldl add_distinct ds vs) = set ds \<union> set vs"
  by (induction vs arbitrary: ds) (auto simp: add_distinct_def)

lemma set_distinct_values: "set (distinct_values vs) = set vs"
  by (simp add: distinct_values_def set_add_distinct)

lemma indexed_map:
  assumes "indexed is ds (map f vs)" and "\<forall>v. g (f v) = v"
  shows "map (\<lambda>i. g (ds ! unat i)) is = vs"
  using assms by (intro nth_equalityI) (auto simp: indexed_def)

lemma indexed_range: "indexed is ds vs \<Longrightarrow> \<forall>i \<in> set is. unat i < length ds"
  by (auto simp: indexed_def in_set_conv_nth)

text \<open>The dictionary and index pages of fixed-size values, as the decoders see them.\<close>

definition pages_of :: "nat \<Rightarrow> u8 list list \<Rightarrow> u8 list \<Rightarrow> u8 list \<Rightarrow> nat \<Rightarrow> bool" where
  "pages_of w vs dict idx n \<longleftrightarrow> (\<exists>ds is bs bw. dict = concat ds \<and> idx = of_nat bw # bs \<and> n = length ds \<and>
     (\<forall>x \<in> set ds. length x = w) \<and> coded bw bs is \<and> indexed is ds vs \<and> bw \<le> 32 \<and>
     0 < length ds \<and> length ds < 2 ^ 31 \<and> length vs < 2 ^ 31)"

lemma encode_fixed_pages:
  assumes "vs \<noteq> []" and "length vs < 2 ^ 31" and "\<forall>v. length (f v) = w"
    and "buf_room A dout ((4 + w) * length vs)" and "buf_room A iout (1 + 9 * length vs)"
  shows "\<exists>dout' iout' dict idx n. dictionary_encode A w False (map (\<lambda>v. (f v, w)) vs) dout iout = Some (CARQUET_OK, dout', iout') \<and>
    contents dout' = contents dout @ dict \<and> contents iout' = contents iout @ idx \<and> pages_of w (map f vs) dict idx n"
proof -
  have vb: "value_bytes (map (\<lambda>v. (f v, w)) vs) = map f vs" using assms(3) by (simp add: comp_def)
  have "values_room (map (\<lambda>v. (f v, w)) vs) = (4 + w) * length vs"
    by (induction vs) (simp_all add: values_room_def)
  then have room: "buf_room A dout (values_room (map (\<lambda>v. (f v, w)) vs))" using assms(4) by simp
  have "entry_bytes False = (\<lambda>v. v)" by (rule ext) (simp add: entry_bytes_def)
  then have page: "dict_page False = concat" by (intro ext) (simp only: dict_page_def list.map_ident)
  have set: "\<forall>x \<in> set (distinct_values (map f vs)). length x = w" using assms(3) by (auto simp: set_distinct_values)
  have pre: "map (\<lambda>v. (f v, w)) vs \<noteq> []" "length (map (\<lambda>v. (f v, w)) vs) < 2 ^ 31"
    "\<forall>(v, n) \<in> set (map (\<lambda>v. (f v, w)) vs). n \<le> length v" "buf_room A iout (1 + 9 * length (map (\<lambda>v. (f v, w)) vs))"
    using assms by auto
  obtain dout' iout' "is" bs where e: "dictionary_encode A w False (map (\<lambda>v. (f v, w)) vs) dout iout = Some (CARQUET_OK, dout', iout')"
    "contents dout' = contents dout @ concat (distinct_values (map f vs))"
    "contents iout' = contents iout @ of_nat (bit_width_for_count (of_nat (length (distinct_values (map f vs))))) # bs"
    "coded (bit_width_for_count (of_nat (length (distinct_values (map f vs))))) bs is"
    "indexed is (distinct_values (map f vs)) (map f vs)"
    "bit_width_for_count (of_nat (length (distinct_values (map f vs)))) \<le> 32"
    "0 < length (distinct_values (map f vs))" "length (distinct_values (map f vs)) \<le> length vs"
    using dictionary_encode_ok [OF pre(1-3) room pre(4) refl refl, of w False] unfolding vb page by auto
  have "pages_of w (map f vs) (concat (distinct_values (map f vs)))
     (of_nat (bit_width_for_count (of_nat (length (distinct_values (map f vs))))) # bs) (length (distinct_values (map f vs)))"
    unfolding pages_of_def using e(4-8) set assms(2)
    by (intro exI [of _ "distinct_values (map f vs)"] exI [of _ "is"] exI [of _ bs]
        exI [of _ "bit_width_for_count (of_nat (length (distinct_values (map f vs))))"]) simp
  then show ?thesis using e(1-3) by blast
qed

lemma le_word_write: "le_word (carquet_write_u32_le v) = v" "le_word (carquet_write_u64_le x) = x"
  by (simp_all add: write_le_bytes le_word_le_bytes take_bit_full_word)

lemma decode_pages32:
  assumes "pages_of 4 (map carquet_write_u32_le vs) dict idx n" and "\<forall>n. alloc_ok A n"
  shows "carquet_dictionary_decode_int32 be A aligned (Some dict) (length dict) (int n) idx (length idx) (int (length vs)) = Some (Inr vs)"
    and "carquet_dictionary_decode_float be A aligned (Some dict) (length dict) (int n) idx (length idx) (int (length vs)) = Some (Inr vs)"
proof -
  obtain ds "is" bs bw where p: "dict = concat ds" "idx = of_nat bw # bs" "n = length ds" "\<forall>x \<in> set ds. length x = 4"
    "coded bw bs is" "indexed is ds (map carquet_write_u32_le vs)" "bw \<le> 32" "0 < length ds" "length ds < 2 ^ 31" "length vs < 2 ^ 31"
    using assms(1) unfolding pages_of_def length_map by (elim exE conjE) (rule that; assumption)
  have l1: "length is = length vs" using p(6) unfolding indexed_def length_map by (rule conjunct1)
  have l2: "length dict = 4 * n" unfolding p(1,3) by (rule length_concat_chunks [OF p(4)])
  note len = l1 l2
  have ind: "dict_indices A 4 (Some dict) (length dict) (int n) idx (length idx) (int (length vs)) = Some (Inr is)"
    using dict_indices_ok [OF assms(2) p(5,7), of n dict 4] p len by simp
  have v: "map (\<lambda>i. le_word (ds ! unat i)) is = vs"
    by (rule indexed_map [OF p(6)]) (simp add: le_word_write)
  have g: "scalar_checked_gather_i32 dict (int n) is = Some (Some vs)"
    unfolding p(1,3) gather32 [OF p(4,9) indexed_range [OF p(6)]] v by (rule refl)
  have b: "those (map (\<lambda>i. carquet_read_u32_le dict (unat i * 4)) is) = Some vs"
    using those_reads [of "is" "\<lambda>i. carquet_read_u32_le dict (unat i * 4)" "\<lambda>i. le_word (ds ! unat i)"]
      indexed_range [OF p(6)] read_entry32 [OF p(4)] by (simp add: p(1) mult.commute v)
  have a: "ENSURE_DICT_ALIGNED A aligned dict (sz (n * 4)) = Some (Some dict)"
    using p(3,9) len by (intro ensure_aligned [OF assms(2)]) (simp_all add: sz_id SIZE_MAX_def)
  have "0 < length vs \<or> vs = []" by auto
  then show "carquet_dictionary_decode_int32 be A aligned (Some dict) (length dict) (int n) idx (length idx) (int (length vs)) = Some (Inr vs)"
    "carquet_dictionary_decode_float be A aligned (Some dict) (length dict) (int n) idx (length idx) (int (length vs)) = Some (Inr vs)"
    using ind g b a by (auto simp: carquet_dictionary_decode_int32_def carquet_dictionary_decode_float_def
        gather_lookup_def scalar_checked_gather_float_def block_bytes_def)
qed

lemma decode_pages64:
  assumes "pages_of 8 (map carquet_write_u64_le vs) dict idx n" and "\<forall>n. alloc_ok A n"
  shows "carquet_dictionary_decode_int64 be A aligned (Some dict) (length dict) (int n) idx (length idx) (int (length vs)) = Some (Inr vs)"
    and "carquet_dictionary_decode_double be A aligned (Some dict) (length dict) (int n) idx (length idx) (int (length vs)) = Some (Inr vs)"
proof -
  obtain ds "is" bs bw where p: "dict = concat ds" "idx = of_nat bw # bs" "n = length ds" "\<forall>x \<in> set ds. length x = 8"
    "coded bw bs is" "indexed is ds (map carquet_write_u64_le vs)" "bw \<le> 32" "0 < length ds" "length ds < 2 ^ 31" "length vs < 2 ^ 31"
    using assms(1) unfolding pages_of_def length_map by (elim exE conjE) (rule that; assumption)
  have l1: "length is = length vs" using p(6) unfolding indexed_def length_map by (rule conjunct1)
  have l2: "length dict = 8 * n" unfolding p(1,3) by (rule length_concat_chunks [OF p(4)])
  note len = l1 l2
  have ind: "dict_indices A 8 (Some dict) (length dict) (int n) idx (length idx) (int (length vs)) = Some (Inr is)"
    using dict_indices_ok [OF assms(2) p(5,7), of n dict 8] p len by simp
  have v: "map (\<lambda>i. le_word (ds ! unat i)) is = vs"
    by (rule indexed_map [OF p(6)]) (simp add: le_word_write)
  have g: "scalar_checked_gather_i64 dict (int n) is = Some (Some vs)"
    unfolding p(1,3) gather64 [OF p(4,9) indexed_range [OF p(6)]] v by (rule refl)
  have b: "those (map (\<lambda>i. carquet_read_u64_le dict (unat i * 8)) is) = Some vs"
    using those_reads [of "is" "\<lambda>i. carquet_read_u64_le dict (unat i * 8)" "\<lambda>i. le_word (ds ! unat i)"]
      indexed_range [OF p(6)] read_entry64 [OF p(4)] by (simp add: p(1) mult.commute v)
  have a: "ENSURE_DICT_ALIGNED A aligned dict (sz (n * 8)) = Some (Some dict)"
    using p(3,9) len by (intro ensure_aligned [OF assms(2)]) (simp_all add: sz_id SIZE_MAX_def)
  have "0 < length vs \<or> vs = []" by auto
  then show "carquet_dictionary_decode_int64 be A aligned (Some dict) (length dict) (int n) idx (length idx) (int (length vs)) = Some (Inr vs)"
    "carquet_dictionary_decode_double be A aligned (Some dict) (length dict) (int n) idx (length idx) (int (length vs)) = Some (Inr vs)"
    using ind g b a by (auto simp: carquet_dictionary_decode_int64_def carquet_dictionary_decode_double_def
        gather_lookup_def scalar_checked_gather_double_def block_bytes_def)
qed

text \<open>What one encoder promises its decoder.\<close>

definition reads_back ::
  "nat \<Rightarrow> ('v list \<Rightarrow> carquet_buffer \<Rightarrow> carquet_buffer \<Rightarrow> (carquet_status \<times> carquet_buffer \<times> carquet_buffer) option) \<Rightarrow>
   (u8 list option \<Rightarrow> nat \<Rightarrow> int \<Rightarrow> u8 list \<Rightarrow> nat \<Rightarrow> int \<Rightarrow> (carquet_status + 'v list) option) \<Rightarrow>
   carquet_buffer \<Rightarrow> carquet_buffer \<Rightarrow> 'v list \<Rightarrow> bool" where
  "reads_back w encode decode dout iout vs \<longleftrightarrow> (\<exists>dout' iout' dict idx n.
     encode vs dout iout = Some (CARQUET_OK, dout', iout') \<and>
     contents dout' = contents dout @ dict \<and> contents iout' = contents iout @ idx \<and> length dict = w * n \<and>
     decode (Some dict) (length dict) (int n) idx (length idx) (int (length vs)) = Some (Inr vs))"

lemma pages_length: "pages_of w vs dict idx n \<Longrightarrow> length dict = w * n"
  unfolding pages_of_def by (elim exE conjE) (simp only: length_concat_chunks)

lemma fixed_reads_back:
  assumes "vs \<noteq> []" and "length vs < 2 ^ 31" and "\<forall>v. length (f v) = w"
    and "buf_room A dout (12 * length vs)" and "w \<le> 8" and "buf_room A iout (1 + 9 * length vs)"
    and "\<And>dict idx n. pages_of w (map f vs) dict idx n \<Longrightarrow>
      decode (Some dict) (length dict) (int n) idx (length idx) (int (length vs)) = Some (Inr vs)"
  shows "reads_back w (\<lambda>vs. dictionary_encode A w False (map (\<lambda>v. (f v, w)) vs)) decode dout iout vs"
proof -
  have "buf_room A dout ((4 + w) * length vs)" by (rule bsink.room_mono [OF assms(4)]) (simp add: assms(5))
  from encode_fixed_pages [OF assms(1-3) this assms(6)] show ?thesis
    unfolding reads_back_def using assms(7) pages_length by blast
qed

text \<open>C11: dictionary encoding is lossless. For each fixed-size type, the dictionary and the indices an
  encoder appends for 1 to 2^31 - 1 values to buffers with room are read back by the decoder, in the little-endian and the
  big-endian build and whether or not the dictionary page is aligned, as exactly the values encoded.\<close>

theorem dictionary_roundtrip:
  assumes "ws \<noteq> []" and "length ws < 2 ^ 31" and "xs \<noteq> []" and "length xs < 2 ^ 31"
    and "buf_room A dout (12 * (length ws + length xs))" and "buf_room A iout (1 + 9 * (length ws + length xs))"
  shows "reads_back 4 (carquet_dictionary_encode_int32 A) (carquet_dictionary_decode_int32 be A aligned) dout iout ws
   \<and> reads_back 4 (carquet_dictionary_encode_float A) (carquet_dictionary_decode_float be A aligned) dout iout ws
   \<and> reads_back 8 (carquet_dictionary_encode_int64 A) (carquet_dictionary_decode_int64 be A aligned) dout iout xs
   \<and> reads_back 8 (carquet_dictionary_encode_double A) (carquet_dictionary_decode_double be A aligned) dout iout xs"
proof -
  have ok: "\<forall>n. alloc_ok A n" using assms(5) by (simp add: buf_room_def buf_growable_def)
  have r: "buf_room A dout (12 * length ws)" "buf_room A dout (12 * length xs)"
    "buf_room A iout (1 + 9 * length ws)" "buf_room A iout (1 + 9 * length xs)"
    by (rule bsink.room_mono [OF assms(5)], simp)+ (rule bsink.room_mono [OF assms(6)], simp)+
  show ?thesis
    unfolding carquet_dictionary_encode_int32_def [abs_def] carquet_dictionary_encode_float_def [abs_def]
      carquet_dictionary_encode_int64_def [abs_def] carquet_dictionary_encode_double_def [abs_def]
    by (intro conjI fixed_reads_back [OF assms(1,2) _ r(1) _ r(3)] fixed_reads_back [OF assms(3,4) _ r(2) _ r(4)]
        decode_pages32 [OF _ ok] decode_pages64 [OF _ ok]) simp_all
qed

theorem dictionary_roundtrip_witness:
  "reads_back 4 (carquet_dictionary_encode_int32 good_allocator) (carquet_dictionary_decode_int32 True good_allocator False)
     carquet_buffer_init carquet_buffer_init [7, 7, 9]"
proof -
  have "buf_room good_allocator carquet_buffer_init (12 * (length [7, 7, 9 :: u32] + length [1 :: u64]))"
    "buf_room good_allocator carquet_buffer_init (1 + 9 * (length [7, 7, 9 :: u32] + length [1 :: u64]))"
    by (rule good_room, simp add: SIZE_MAX_def)+
  from dictionary_roundtrip [OF _ _ _ _ this, of True False] show ?thesis by simp
qed

section \<open>Any bytes\<close>

text \<open>
  What the format says a pair of pages means: the index page is a bit width of at most 32 and a stream
  of runs with at least \<open>oc\<close> values, the dictionary page has \<open>dcount\<close> entries of \<open>w\<close> bytes, and
  each index names one of them. None is a pair of pages that is not well-formed.
\<close>

definition page_indices :: "u8 list \<Rightarrow> int \<Rightarrow> u32 list option" where
  "page_indices ib oc =
     (case ib of [] \<Rightarrow> None
      | bw # bs \<Rightarrow> let vs = rle_stream (unat bw) bs (length bs) 0 in
          if unat bw \<le> 32 \<and> nat oc \<le> length vs then Some (take (nat oc) vs) else None)"

definition looked_up :: "nat \<Rightarrow> u8 list option \<Rightarrow> int \<Rightarrow> u8 list \<Rightarrow> int \<Rightarrow> u8 list list option" where
  "looked_up w dict dcount ib oc =
     (if oc \<le> 0 then Some []
      else case dict of None \<Rightarrow> None
      | Some d \<Rightarrow>
          if dcount \<le> 0 \<or> length d < nat dcount * w then None
          else case page_indices ib oc of None \<Rightarrow> None
            | Some is \<Rightarrow>
                if \<forall>i \<in> set is. unat i < nat dcount
                then Some (map (\<lambda>i. take w (drop (w * unat i) d)) is) else None)"

text \<open>The decoder's result is what the pages mean, or an error where they mean nothing; or it ran out of
  memory, which needs an allocator that refuses.\<close>

definition decoded_as :: "allocator \<Rightarrow> u8 list list option \<Rightarrow> (carquet_status + 'a::len word list) option \<Rightarrow> bool" where
  "decoded_as A v r \<longleftrightarrow>
     r = Some (case v of None \<Rightarrow> Inl CARQUET_ERROR_DECODE | Some bs \<Rightarrow> Inr (map le_word bs)) \<or>
     r = Some (Inl CARQUET_ERROR_OUT_OF_MEMORY) \<and> (\<exists>n. \<not> alloc_ok A n)"

lemma decode_all_stream:
  "carquet_rle_decode_all bs (length bs) (int bw) oc =
     Some (if bw \<le> 32 then take (nat oc) (rle_stream bw bs (length bs) 0) else [])"
  using get_batch_correct [OF decoder_init_wf [of "length bs" bs "int bw"], of oc]
    decoder_init_stream [of "int bw" bs "length bs"] decoder_init_bad_width [of "int bw" bs "length bs"]
  by (auto simp: carquet_rle_decode_all_def)

lemma malloc_exact:
  assumes "n \<le> SIZE_MAX"
  shows "carquet_mem_malloc A n = (if alloc_ok A n then Some (map (fresh A) [0..<n]) else None)"
  using assms by (simp add: carquet_mem_malloc_def)

lemma dict_indices_spec:
  assumes "0 < oc" and "oc < 2 ^ 62" and "dcount < 2 ^ 31" and "w \<le> 8" and "dict = None \<or> dict = Some d \<and> length d = dsize"
  obtains "dict_indices A w dict dsize dcount ib (length ib) oc = Some (Inl CARQUET_ERROR_OUT_OF_MEMORY)" "\<exists>n. \<not> alloc_ok A n"
  | "dict_indices A w dict dsize dcount ib (length ib) oc = Some (Inl CARQUET_ERROR_DECODE)"
    "dict = None \<or> dcount \<le> 0 \<or> dsize < nat dcount * w \<or> page_indices ib oc = None"
  | "is" where "dict_indices A w dict dsize dcount ib (length ib) oc = Some (Inr is)" "dict = Some d" "length d = dsize"
    "0 < dcount" "nat dcount * w \<le> length d" "nat dcount * w < 2 ^ 64" "page_indices ib oc = Some is"
proof -
  have "nat dcount * w \<le> 2 ^ 31 * 8" using assms(3,4) by (intro mult_le_mono) auto
  then have s: "nat dcount * w < 2 ^ 64" "sz (nat dcount * w) = nat dcount * w" by (simp_all add: sz_id)
  have t: "sz (nat oc * 4) = nat oc * 4" "nat oc * 4 \<le> SIZE_MAX" using assms(1,2) by (simp_all add: sz_id SIZE_MAX_def)
  let ?I = "dict_indices A w dict dsize dcount ib (length ib) oc"
  consider (bad) "dcount \<le> 0 \<or> dict = None \<or> dsize < nat dcount * w \<or> ib = []"
    | (good) bw bs where "0 < dcount" "dict = Some d" "length d = dsize" "nat dcount * w \<le> length d" "ib = bw # bs"
    using assms(5) by (cases ib) fastforce+
  then show thesis
  proof cases
    case bad
    have "?I = Some (Inl CARQUET_ERROR_DECODE)" using bad s by (auto simp: dict_indices_def)
    moreover have "dict = None \<or> dcount \<le> 0 \<or> dsize < nat dcount * w \<or> page_indices ib oc = None"
      using bad by (auto simp: page_indices_def)
    ultimately show thesis by (rule that(2))
  next
    case good
    let ?vs = "rle_stream (unat bw) bs (length bs) 0"
    let ?is = "if unat bw \<le> 32 then take (nat oc) ?vs else []"
    have R: "carquet_rle_decode_all bs (length bs) (uint bw) oc = Some ?is"
      using decode_all_stream [of bs "unat bw" oc] by simp
    have I: "?I = (if \<not> alloc_ok A (nat oc * 4) then Some (Inl CARQUET_ERROR_OUT_OF_MEMORY)
        else if length ?is < nat oc then Some (Inl CARQUET_ERROR_DECODE) else Some (Inr ?is))"
      using good s(2) t assms(1) by (auto simp: dict_indices_def malloc_exact R zless_nat_eq_int_zless)
    show thesis
    proof (cases "alloc_ok A (nat oc * 4)")
      case False
      then show thesis using that(1) I by auto
    next
      case ok: True
      show thesis
      proof (cases "length ?is < nat oc")
        case True
        then have "page_indices ib oc = None"
          by (cases "unat bw \<le> 32") (simp_all add: page_indices_def good(5) Let_def)
        then show thesis using that(2) I ok True by simp
      next
        case False
        then have "page_indices ib oc = Some ?is" using assms(1) by (auto simp: page_indices_def good(5) Let_def split: if_splits)
        then show thesis using that(3) I ok False good s(1) by simp
      qed
    qed
  qed
qed

lemma checked_gather32_exact:
  "4 * n \<le> length d \<Longrightarrow> n < 2 ^ 31 \<Longrightarrow> scalar_checked_gather_i32 d (int n) is =
     Some (if \<forall>i \<in> set is. unat i < n then Some (map (\<lambda>i. le_word (take 4 (drop (4 * unat i) d))) is) else None)"
  by (induction "is") (auto simp: word_le_nat_alt unat_of_nat read_u32_le_word)

lemma checked_gather64_exact:
  "8 * n \<le> length d \<Longrightarrow> n < 2 ^ 31 \<Longrightarrow> scalar_checked_gather_i64 d (int n) is =
     Some (if \<forall>i \<in> set is. unat i < n then Some (map (\<lambda>i. le_word (take 8 (drop (8 * unat i) d))) is) else None)"
  by (induction "is") (auto simp: word_le_nat_alt unat_of_nat read_u64_le_word)

lemma ensure_aligned_exact:
  assumes "n \<le> length d" and "n < 2 ^ 64"
  obtains "ENSURE_DICT_ALIGNED A aligned d n = Some None" "\<exists>k. \<not> alloc_ok A k"
  | d' where "ENSURE_DICT_ALIGNED A aligned d n = Some (Some d')" "n \<le> length d'" "take n d' = take n d"
proof (cases "aligned \<or> alloc_ok A n")
  case True
  then show thesis using that(2) assms
    by (cases aligned; cases "n = 0") (auto simp: ENSURE_DICT_ALIGNED_def malloc_exact SIZE_MAX_def rd_bytes_def)
next
  case False
  then show thesis using that(1) assms by (auto simp: ENSURE_DICT_ALIGNED_def malloc_exact SIZE_MAX_def)
qed

lemma take_drop_prefix: "i + w \<le> n \<Longrightarrow> take n d' = take n d \<Longrightarrow> take w (drop i d') = take w (drop i d)"
  by (metis take_drop take_take min.absorb1 add.commute)

text \<open>The whole decoder, once for all four types.\<close>

lemma lookup_decoded_as:
  assumes "0 < oc" and "oc < 2 ^ 62" and "dcount < 2 ^ 31" and "w \<le> 8" and "dict = None \<or> dict = Some d \<and> length d = dsize"
    and gather: "\<And>d n is. w * n \<le> length d \<Longrightarrow> n < 2 ^ 31 \<Longrightarrow> gather d (int n) is =
      Some (if \<forall>i \<in> set is. unat i < n then Some (map (\<lambda>i. le_word (take w (drop (w * unat i) d))) is) else None)"
  shows "decoded_as A (looked_up w dict dcount ib oc) (do {
      r \<leftarrow> dict_indices A w dict dsize dcount ib (length ib) oc;
      case r of Inl status \<Rightarrow> Some (Inl status)
      | Inr indices \<Rightarrow> gather_lookup A aligned w gather (block_bytes dict) dcount indices })"
proof (rule dict_indices_spec [OF assms(1-5), of A ib])
  fix "is"
  assume i: "dict_indices A w dict dsize dcount ib (length ib) oc = Some (Inr is)" "dict = Some d" "length d = dsize"
    "0 < dcount" "nat dcount * w \<le> length d" "nat dcount * w < 2 ^ 64" "page_indices ib oc = Some is"
  let ?ok = "\<forall>i \<in> set is. unat i < nat dcount"
  have l: "looked_up w (Some d) dcount ib oc = (if ?ok then Some (map (\<lambda>i. take w (drop (w * unat i) d)) is) else None)"
    using i assms(1) by (simp add: looked_up_def)
  show ?thesis
  proof (rule ensure_aligned_exact [OF i(5,6), of A aligned])
    assume "ENSURE_DICT_ALIGNED A aligned d (nat dcount * w) = Some None" "\<exists>k. \<not> alloc_ok A k"
    then show ?thesis using i by (simp add: decoded_as_def gather_lookup_def block_bytes_def sz_id)
  next
    fix d'
    assume a: "ENSURE_DICT_ALIGNED A aligned d (nat dcount * w) = Some (Some d')" "nat dcount * w \<le> length d'"
      "take (nat dcount * w) d' = take (nat dcount * w) d"
    have same: "take w (drop (w * unat i) d') = take w (drop (w * unat i) d)" if "unat i < nat dcount" for i :: u32
    proof (rule take_drop_prefix [OF _ a(3)])
      have "(unat i + 1) * w \<le> nat dcount * w" using that by (intro mult_le_mono1) simp
      then show "w * unat i + w \<le> nat dcount * w" by (simp add: mult.commute)
    qed
    have "gather d' dcount is = Some (if ?ok then Some (map (\<lambda>i. le_word (take w (drop (w * unat i) d'))) is) else None)"
      using gather [of "nat dcount" d' "is"] a(2) assms(3) i(4) by (simp add: mult.commute)
    then show ?thesis
      using i(1,2,6) a(1) same by (auto simp: decoded_as_def l gather_lookup_def block_bytes_def sz_id)
  qed
qed (use assms(1,5) in \<open>auto simp: decoded_as_def looked_up_def\<close>)

lemma decoders_checked:
  assumes "dict = None \<or> dict = Some d \<and> length d = dsize" and "length ib = isize"
    and "dcount < 2 ^ 31" and "oc < 2 ^ 62"
  shows "decoded_as A (looked_up 4 dict dcount ib oc) (carquet_dictionary_decode_int32 False A aligned dict dsize dcount ib isize oc)
   \<and> decoded_as A (looked_up 4 dict dcount ib oc) (carquet_dictionary_decode_float False A aligned dict dsize dcount ib isize oc)
   \<and> decoded_as A (looked_up 8 dict dcount ib oc) (carquet_dictionary_decode_int64 False A aligned dict dsize dcount ib isize oc)
   \<and> decoded_as A (looked_up 8 dict dcount ib oc) (carquet_dictionary_decode_double False A aligned dict dsize dcount ib isize oc)"
proof (cases "oc \<le> 0")
  case True
  then show ?thesis
    by (simp add: decoded_as_def looked_up_def carquet_dictionary_decode_int32_def carquet_dictionary_decode_float_def
        carquet_dictionary_decode_int64_def carquet_dictionary_decode_double_def)
next
  case False
  then have pos: "0 < oc" by simp
  have f: "scalar_checked_gather_float = scalar_checked_gather_i32" "scalar_checked_gather_double = scalar_checked_gather_i64"
    by (simp_all add: fun_eq_iff scalar_checked_gather_float_def scalar_checked_gather_double_def)
  show ?thesis
    using lookup_decoded_as [OF pos assms(4,3) _ assms(1) checked_gather32_exact]
      lookup_decoded_as [OF pos assms(4,3) _ assms(1) checked_gather64_exact] False
    by (simp add: f assms(2) [symmetric] carquet_dictionary_decode_int32_def carquet_dictionary_decode_float_def
        carquet_dictionary_decode_int64_def carquet_dictionary_decode_double_def Let_def)
qed

text \<open>C13: On any dictionary page, any index page, any dictionary count of the header (an int32) and any output
  count below 2^62 (from there the size of the index block wraps), each decoder of the
  little-endian build, for an aligned dictionary or not, returns the entries the indices name when the
  pages are well-formed, and otherwise reports DECODE: a missing or short dictionary, a missing, wider than
  32 or truncated stream of indices, or an index past the dictionary. It never goes out of bounds, and
  OUT_OF_MEMORY needs an allocator that refuses.\<close>

theorem dictionary_decode_safe:
  assumes "dict = None \<or> dict = Some d \<and> length d = dsize" and "length ib = isize"
    and "dcount < 2 ^ 31" and "oc < 2 ^ 62"
  shows "decoded_as A (looked_up 4 dict dcount ib oc) (carquet_dictionary_decode_int32 False A aligned dict dsize dcount ib isize oc)
   \<and> decoded_as A (looked_up 4 dict dcount ib oc) (carquet_dictionary_decode_float False A aligned dict dsize dcount ib isize oc)
   \<and> decoded_as A (looked_up 8 dict dcount ib oc) (carquet_dictionary_decode_int64 False A aligned dict dsize dcount ib isize oc)
   \<and> decoded_as A (looked_up 8 dict dcount ib oc) (carquet_dictionary_decode_double False A aligned dict dsize dcount ib isize oc)"
  using assms by (rule decoders_checked)

theorem dictionary_decode_safe_witness:
  "carquet_dictionary_decode_int32 False good_allocator True (Some [1, 2, 3, 4]) 4 1 [2, 4, 3] 3 2 = Some (Inl CARQUET_ERROR_DECODE)"
proof -
  have "page_indices [2, 4, 3] 2 = Some [3, 3]" by code_simp
  then have "looked_up 4 (Some [1, 2, 3, 4]) 1 [2, 4, 3] 2 = None" by (simp add: looked_up_def)
  then show ?thesis
    using dictionary_decode_safe [of "Some [1, 2, 3, 4]" "[1, 2, 3, 4]" 4 "[2, 4, 3]" 3 1 2 good_allocator True]
    by (simp add: decoded_as_def good_allocator_def)
qed

text \<open>C39: The big-endian build does not check. On any pair of pages that is well-formed but for an index
  past the dictionary, which ends where its page does, the decoders of that build read outside the dictionary
  page, while those of the little-endian build report DECODE.\<close>

theorem big_endian_unchecked:
  assumes "0 < dcount" and "dcount < 2 ^ 31" and "0 < oc" and "oc < 2 ^ 62" and "\<forall>n. alloc_ok A n"
    and "page_indices ib oc = Some is" and "j \<in> set is" and "nat dcount \<le> unat j"
    and "length d32 = nat dcount * 4" and "length d64 = nat dcount * 8"
  shows "carquet_dictionary_decode_int32 True A aligned (Some d32) (length d32) dcount ib (length ib) oc = None
   \<and> carquet_dictionary_decode_float True A aligned (Some d32) (length d32) dcount ib (length ib) oc = None
   \<and> carquet_dictionary_decode_int64 True A aligned (Some d64) (length d64) dcount ib (length ib) oc = None
   \<and> carquet_dictionary_decode_double True A aligned (Some d64) (length d64) dcount ib (length ib) oc = None
   \<and> carquet_dictionary_decode_int32 False A aligned (Some d32) (length d32) dcount ib (length ib) oc = Some (Inl CARQUET_ERROR_DECODE)
   \<and> carquet_dictionary_decode_float False A aligned (Some d32) (length d32) dcount ib (length ib) oc = Some (Inl CARQUET_ERROR_DECODE)
   \<and> carquet_dictionary_decode_int64 False A aligned (Some d64) (length d64) dcount ib (length ib) oc = Some (Inl CARQUET_ERROR_DECODE)
   \<and> carquet_dictionary_decode_double False A aligned (Some d64) (length d64) dcount ib (length ib) oc = Some (Inl CARQUET_ERROR_DECODE)"
proof -
  have I: "dict_indices A w (Some d) (length d) dcount ib (length ib) oc = Some (Inr is)"
    if "w \<le> 8" "length d = nat dcount * w" for w d
  proof (rule dict_indices_spec [OF assms(3,4,2) that(1), of "Some d" d "length d" A ib])
    show "dict_indices A w (Some d) (length d) dcount ib (length ib) oc = Some (Inr is)"
      if "\<exists>n. \<not> alloc_ok A n" using that assms(5) by simp
    show "dict_indices A w (Some d) (length d) dcount ib (length ib) oc = Some (Inr is)"
      if "Some d = None \<or> dcount \<le> 0 \<or> length d < nat dcount * w \<or> page_indices ib oc = None"
      using that \<open>length d = nat dcount * w\<close> assms(1,6) by simp
  qed (use assms(6) in simp_all)
  note i4 = I [of 4 d32, OF _ assms(9)] and i8 = I [of 8 d64, OF _ assms(10)]
  have "those (map (\<lambda>i. carquet_read_u32_le d32 (unat i * 4)) is) = None"
    by (rule those_None [OF assms(7)]) (use assms(8,9) in \<open>simp add: read_u32_le_word\<close>)
  moreover have "those (map (\<lambda>i. carquet_read_u64_le d64 (unat i * 8)) is) = None"
    by (rule those_None [OF assms(7)]) (use assms(8,10) in \<open>simp add: read_u64_le_word\<close>)
  ultimately have be: "carquet_dictionary_decode_int32 True A aligned (Some d32) (length d32) dcount ib (length ib) oc = None"
    "carquet_dictionary_decode_float True A aligned (Some d32) (length d32) dcount ib (length ib) oc = None"
    "carquet_dictionary_decode_int64 True A aligned (Some d64) (length d64) dcount ib (length ib) oc = None"
    "carquet_dictionary_decode_double True A aligned (Some d64) (length d64) dcount ib (length ib) oc = None"
    using assms(3) i4 i8 by (simp_all add: block_bytes_def carquet_dictionary_decode_int32_def
      carquet_dictionary_decode_float_def carquet_dictionary_decode_int64_def carquet_dictionary_decode_double_def)
  have l: "looked_up 4 (Some d) dcount ib oc = None" "looked_up 8 (Some d) dcount ib oc = None" for d
    using assms(3,6-8) by (auto simp: looked_up_def not_less)
  have r: "r = Some (Inl CARQUET_ERROR_DECODE)" if "decoded_as A None r" for r :: "(carquet_status + 'a::len word list) option"
    using that assms(5) by (simp add: decoded_as_def)
  show ?thesis
    using decoders_checked [of "Some d32" d32 "length d32" ib "length ib" dcount oc A aligned]
      decoders_checked [of "Some d64" d64 "length d64" ib "length ib" dcount oc A aligned] assms(2,4)
    by (intro conjI be r) (simp_all add: l)
qed

theorem big_endian_unchecked_witness:
  "carquet_dictionary_decode_int32 True good_allocator True (Some [1, 2, 3, 4]) 4 1 [2, 4, 3] 3 2 = None \<and>
   carquet_dictionary_decode_int32 False good_allocator True (Some [1, 2, 3, 4]) 4 1 [2, 4, 3] 3 2 = Some (Inl CARQUET_ERROR_DECODE)"
proof -
  have "page_indices [2, 4, 3] 2 = Some [3, 3]" by code_simp
  from big_endian_unchecked [OF _ _ _ _ _ this, of 1 good_allocator 3 "[1, 2, 3, 4]" "[1, 2, 3, 4, 5, 6, 7, 8]" True]
  moreover have "length [1, 2, 3, 4 :: u8] = 4" "length [2, 4, 3 :: u8] = 3" "\<forall>n. alloc_ok good_allocator n"
    by (simp_all add: good_allocator_def)
  ultimately show ?thesis by (simp only:) simp
qed

text \<open>The budget: the page of the values so far only grows, so the final page decides.\<close>

lemma dict_page_mono: "length (dict_page var ds) \<le> length (dict_page var (foldl add_distinct ds vs))"
proof (induction vs arbitrary: ds)
  case (Cons v vs)
  have "length (dict_page var ds) \<le> length (dict_page var (add_distinct ds v))"
    by (simp add: add_distinct_def dict_page_def)
  then show ?case using Cons.IH [of "add_distinct ds v"] by simp
qed simp

definition exceeds :: "nat \<Rightarrow> u8 list \<Rightarrow> bool" where
  "exceeds budget page \<longleftrightarrow> budget \<noteq> 0 \<and> budget < length page"

lemma add_until_abandoned_ok:
  assumes "builder_ok A b ds ws N (values_room vs)" and "length ws + length vs \<le> N" and "\<forall>(v, n) \<in> set vs. n \<le> length v"
    and "page = dict_page (db_is_variable_length b) (foldl add_distinct ds (value_bytes vs))"
  shows "\<exists>b'. add_until_abandoned A b vs = Some (CARQUET_OK, b') \<and> (db_abandoned b' \<longleftrightarrow> exceeds (db_max_dict_bytes b) page) \<and>
    (\<not> db_abandoned b' \<longrightarrow>
      builder_ok A b' (foldl add_distinct ds (value_bytes vs)) (ws @ value_bytes vs) N 0 \<and> same_settings b b')"
  using assms
proof (induction vs arbitrary: b ds ws)
  case Nil
  then show ?case by (auto simp: values_room_def same_settings_def exceeds_def builder_ok_def)
next
  case (Cons p vs)
  obtain v n where p: "p = (v, n)" by (cases p)
  show ?case
  proof (cases "db_abandoned b")
    case True
    then have "exceeds (db_max_dict_bytes b) page"
      using Cons.prems(1,4) dict_page_mono [of "db_is_variable_length b" ds "value_bytes (p # vs)"]
      by (auto simp: builder_ok_def exceeds_def)
    then show ?thesis using True by (simp add: p)
  next
    case False
    have "builder_ok A b ds ws N (4 + n + values_room vs)" using Cons.prems(1) by (simp only: p values_room_Cons)
    moreover have "length ws < N" "n \<le> length v" using Cons.prems p by auto
    ultimately obtain b1 where b1: "dict_builder_add A b v n = Some (CARQUET_OK, b1)"
      "builder_ok A b1 (add_distinct ds (take n v)) (ws @ [take n v]) N (values_room vs)" "same_settings b b1"
      using dict_builder_add_ok by blast
    have "length (ws @ [take n v]) + length vs \<le> N" "\<forall>(v, n) \<in> set vs. n \<le> length v" using Cons.prems by auto
    moreover have "page = dict_page (db_is_variable_length b1) (foldl add_distinct (add_distinct ds (take n v)) (value_bytes vs))"
      using Cons.prems(4) b1(3) by (simp add: p same_settings_def)
    ultimately obtain b' where "add_until_abandoned A b1 vs = Some (CARQUET_OK, b')"
      "db_abandoned b' \<longleftrightarrow> exceeds (db_max_dict_bytes b1) page"
      "\<not> db_abandoned b' \<longrightarrow>
        builder_ok A b' (foldl add_distinct (add_distinct ds (take n v)) (value_bytes vs)) ((ws @ [take n v]) @ value_bytes vs) N 0 \<and>
        same_settings b1 b'" using Cons.IH [OF b1(2)] by blast
    then show ?thesis using b1 False same_settings_trans by (auto simp: p same_settings_def)
  qed
qed


text \<open>C12: dictionary encoding with a budget, of every type it supports, byte arrays included, for 1 to 2^31 - 1
  values and buffers with room for them. It reports the
  dictionary as abandoned, leaving both outputs alone, exactly when the PLAIN page of the distinct values is
  larger than a budget that is not 0; otherwise it appends that page, the distinct values in the order
  they first appear, and indices that decode to the place of each value in it.\<close>

theorem dictionary_capped:
  assumes "capped_value_size type = Some (w, var)" and "capped_values type vals = Some vs" and "vs \<noteq> []"
    and "length vs < 2 ^ 31" and "\<forall>(v, n) \<in> set vs. n \<le> length v"
    and "buf_room A dout (values_room vs)" and "buf_room A iout (1 + 9 * length vs)"
    and "ds = distinct_values (value_bytes vs)" and "budget_page = dict_page var ds"
  shows "if exceeds budget budget_page
    then carquet_dictionary_encode_capped A type vals (int (length vs)) budget dout iout = Some (CARQUET_OK, True, dout, iout)
    else \<exists>dout' iout' is bw bs.
      carquet_dictionary_encode_capped A type vals (int (length vs)) budget dout iout = Some (CARQUET_OK, False, dout', iout') \<and>
      contents dout' = contents dout @ budget_page \<and> contents iout' = contents iout @ of_nat bw # bs \<and>
      carquet_rle_decode_all bs (length bs) (int bw) (int (length vs)) = Some is \<and> indexed is ds (value_bytes vs)"
proof -
  have room: "values_room vs \<le> SIZE_MAX" using assms(6) by (simp add: buf_room_def)
  obtain b00 where b00: "dict_builder_init A (length vs) w var = Inr b00"
    "builder_ok A b00 [] [] (length vs) (values_room vs)" "db_is_variable_length b00 = var" "db_max_dict_bytes b00 = 0"
    using init_ok [OF assms(6) room assms(4), of w var] assms(3) by auto
  define b0 where "b0 = b00\<lparr>db_max_dict_bytes := budget\<rparr>"
  have b0: "builder_ok A b0 [] [] (length vs) (values_room vs)" "db_is_variable_length b0 = var" "db_max_dict_bytes b0 = budget"
    using b00(2-4) by (auto simp: b0_def builder_ok_def dict_page_def)
  obtain b where b: "add_until_abandoned A b0 vs = Some (CARQUET_OK, b)" "db_abandoned b \<longleftrightarrow> exceeds budget budget_page"
    "\<not> db_abandoned b \<longrightarrow> builder_ok A b ds (value_bytes vs) (length vs) 0 \<and> db_is_variable_length b = var"
    using add_until_abandoned_ok [OF b0(1) _ assms(5) refl] b0(2,3) assms(8,9)
    by (auto simp: distinct_values_def same_settings_def)
  have vs: "rd_bytes vs 0 (length vs) = Some vs" by (auto simp: rd_bytes_def)
  have run: "carquet_dictionary_encode_capped A type vals (int (length vs)) budget dout iout =
     (if db_abandoned b then Some (CARQUET_OK, True, dout, iout)
      else do { (st, d, i) \<leftarrow> write_dictionary A b (length vs) dout iout; Some (st, False, d, i) })"
    using assms(1-3) b00(1) b(1) vs by (simp add: carquet_dictionary_encode_capped_def b0_def)
  show ?thesis
  proof (cases "exceeds budget budget_page")
    case True
    then show ?thesis using run b(2) by simp
  next
    case False
    then have ok: "builder_ok A b ds (value_bytes vs) (length vs) 0" "db_is_variable_length b = var" using b by auto
    have ne: "ds \<noteq> []" unfolding assms(8) using assms(3) by (intro distinct_values_nonempty) simp
    have l: "0 < length ds" "length ds \<le> 2 ^ 31" using ok(1) ne assms(4) by (auto simp: builder_ok_def)
    have "sum_list (map (\<lambda>v. 4 + length v) (value_bytes vs)) = values_room vs"
      using assms(5) by (induction vs) (auto simp: values_room_def)
    then have "length budget_page \<le> values_room vs"
      using dict_page_room [of var "[]" "value_bytes vs"] by (simp add: assms(8,9) distinct_values_def dict_page_def)
    then have "buf_room A dout (length budget_page)" by (rule bsink.room_mono [OF assms(6)])
    then obtain dout' iout' "is" bs where w: "write_dictionary A b (length vs) dout iout = Some (CARQUET_OK, dout', iout')"
      "contents dout' = contents dout @ budget_page"
      "contents iout' = contents iout @ of_nat (bit_width_for_count (of_nat (length ds))) # bs"
      "coded (bit_width_for_count (of_nat (length ds))) bs is" "indexed is ds (value_bytes vs)"
      using write_dictionary_ok [of A b ds "value_bytes vs" dout iout] ok assms(3,7,9) ne by auto
    have "length is = length vs" using w(5) by (simp add: indexed_def)
    then have "carquet_rle_decode_all bs (length bs) (int (bit_width_for_count (of_nat (length ds)))) (int (length vs)) = Some is"
      using coded_decodes(1) [OF w(4) bit_width_fits(1) [OF l]] by simp
    then show ?thesis using run b(2) w False by auto
  qed
qed

lemma sample_room: "buf_room good_allocator carquet_buffer_init n" if "n \<le> 1000"
  using that by (intro good_room) (simp add: SIZE_MAX_def)

theorem dictionary_capped_witness:
  "carquet_dictionary_encode_capped good_allocator CARQUET_PHYSICAL_INT32 (Plain_32 [7, 8]) (int 2) 4
     carquet_buffer_init carquet_buffer_init = Some (CARQUET_OK, True, carquet_buffer_init, carquet_buffer_init)"
proof -
  define vs :: "(u8 list \<times> nat) list" where "vs = map (\<lambda>v. (carquet_write_u32_le v, 4)) [7, 8]"
  have c: "capped_value_size CARQUET_PHYSICAL_INT32 = Some (4, False)" by (simp add: capped_value_size_def)
  have v: "capped_values CARQUET_PHYSICAL_INT32 (Plain_32 [7, 8]) = Some vs" by (simp add: capped_values_def vs_def)
  have n: "vs \<noteq> []" "length vs < 2 ^ 31" "\<forall>(v, n) \<in> set vs. n \<le> length v" "length vs = 2" by (simp_all add: vs_def)
  have r: "buf_room good_allocator carquet_buffer_init (values_room vs)"
    "buf_room good_allocator carquet_buffer_init (1 + 9 * length vs)"
    by (simp_all add: vs_def values_room_def sample_room)
  have ex: "exceeds 4 (dict_page False (distinct_values (value_bytes vs)))"
    by (simp add: vs_def distinct_values_def add_distinct_def carquet_write_u32_le_def exceeds_def dict_page_def
        entry_bytes_def)
  from dictionary_capped [OF c v n(1-3) r refl refl, of 4] show ?thesis unfolding if_P [OF ex] n(4) .
qed

end
