(* ===== verification/Spec2Isabelle.thy ===== *)
theory Spec2Isabelle
  imports Rle_Encoder Thrift_Encode Delta_Strings Byte_Stream_Split Plain Snappy_Encode Snappy_Format Bloom Arena Dictionary
begin

text \<open>
  Carquet, a C library that reads and writes Apache Parquet files: its core coding layers.

  Parquet stores columns as pages of encoded values. The writer (src/writer) encodes values with
  the encodings of src/encoding into byte buffers (src/core/buffer.c), compresses the pages
  (src/compression) and describes them in metadata written in the Thrift compact protocol
  (src/thrift); the reader (src/reader) goes the other way. The model covers the layers where the
  bytes are made and read, from the bottom up:

    \<^item> \<open>Carquet_Prelude\<close>: machine words, status codes (include/carquet/error.h), the
      out-of-bounds convention, little-endian words.
    \<^item> \<open>Endian\<close> (core/endian.h): little-endian access, byte swaps, varints, zigzag.
    \<^item> \<open>Buffer\<close> (core/buffer.c): the growable output buffer over a parametric allocator, and
      the bounds-checked reader. The locale \<open>byte_sink\<close> is what the encoders rely on.
    \<^item> \<open>Bitpack\<close> (core/bitpack.c): the specialised unpackers, the general loops and their
      reference, the digits of a number in base 2 to the width. The locale \<open>bitunpack_kernels\<close>
      is what a table of unpackers promises.
    \<^item> \<open>Rle_Decoder\<close>, \<open>Rle_Levels\<close> (encoding/rle.c): the RLE / bit-packing hybrid,
      as a state machine and as the inlined level decoders, against a reference stream.
    \<^item> \<open>Rle_Encoder\<close> (encoding/rle.c): the run-detecting encoder over the buffer, and its
      round trips through the decoders.
    \<^item> \<open>Delta\<close> (encoding/delta.c): DELTA_BINARY_PACKED. The decoder is memory safe on any bytes;
      the encoder stays within the array and succeeds when it has 40 bytes and 1038 for each block
      of 128 differences; pages of int64 and int32 values are read back. The proof follows the
      page as mini-blocks (\<open>mini_coded\<close>), blocks (\<open>block_coded\<close>) and whole
      pages (\<open>page_coded\<close>).
    \<^item> \<open>Byte_Stream_Split\<close> (encoding/byte_stream_split.c): the transposition into byte streams.
      The locale \<open>merge_kernel\<close> is what the tiled decoder needs of a kernel; tiled and direct
      decoding agree, and every length of a value is read back.
    \<^item> \<open>Plain\<close> (encoding/plain.c): plain values in the little-endian and the portable build.
      Each build reads what either writes, and decoding stays within any input but where
      the values are read one by one and the product of count and width wraps.
    \<^item> \<open>Delta_Length\<close> (encoding/delta_length.c) and \<open>Delta_Strings\<close>
      (encoding/delta_strings.c): byte arrays as delta pages of their lengths, or of the prefixes they
      share and the rests, and their bytes. What is written is read back, and the rebuilding of
      strings is memory safe on any bytes.
    \<^item> \<open>Dictionary\<close> (encoding/dictionary.c): the hash table of distinct values, the encoders and the
      decoders. The builder refines the list of the values in the order they first appear
      (\<open>builder_ok\<close>); what is written is read back. On any pages the little-endian decoders return
      what the pages mean (\<open>looked_up\<close>) or an error; the big-endian ones do not check an index.
    \<^item> \<open>Snappy_Decode\<close> (compression/snappy.c): decompression, in the build with byte shuffles and
      in the portable one. The predicate \<open>periodic\<close> says how far a copy has repeated the bytes
      before it; each copy routine extends it. Both builds are memory safe on any bytes.
    \<^item> \<open>Snappy_Format\<close>: the Snappy format from its description (\<open>snappy_stream\<close>), over
      numbers that do not wrap. The build with byte shuffles implements it, but for empty input and
      literals of \<open>2 ^ 32\<close> bytes; the portable build leaves stale bytes in some copies.
    \<^item> \<open>Snappy_Encode\<close> (compression/snappy.c): compression. The jumps between the loops of a block
      are returns of functions; \<open>coded\<close> says that a prefix of the block has been coded and in how
      many bytes, and every loop keeps it. Every input is read back, within the bound on the size.
    \<^item> \<open>Hashes\<close> (util/xxhash.c, util/crc32.c): xxHash64 as pointer loops, equal to the published
      description on every input, and the CRC-32 of pages, which may be computed in pieces and
      detects every change confined to four bytes.
    \<^item> \<open>Bloom\<close> (metadata/bloom_filter.c): the split block bloom filter. It refines a set of
      bits, and as a state machine (inserting, merging, writing and reading back) it has no false
      negatives.
    \<^item> \<open>Arena\<close> (core/arena.c): the bump allocator with addresses. Along every run of
      allocations, saves, restores and resets the live regions are inside their blocks and apart, and
      copies hold what was copied.
    \<^item> \<open>Thrift_Decode\<close> (thrift/thrift_decode.c): the reader of the Thrift compact protocol:
      every reader is memory safe on any bytes, skipping ends and is as deep as the data at most.
    \<^item> \<open>Thrift_Encode\<close> (thrift/thrift_encode.c): its writer. The locale \<open>wire_codec\<close> is
      what a writer and reader of one kind of value promise; whole values are skipped to their end,
      but for boolean elements of lists and maps, which the code does not skip.

  Conventions. A C function that reads memory returns an option: None is an access outside the
  array it was given, so that a theorem saying a result is not None is memory safety. A status
  code is a value. An output array is the list of the elements stored. Integers that may wrap are
  words or go through \<open>sz\<close>, the reduction to \<open>size_t\<close>; the others are natural numbers
  or integers. Loops that are not structural are functions with a termination proof; the fuel of
  the varint loops is the number of rounds the shift bound allows (5 and 10), so it is exact.

  Not modelled: file and memory-map I/O, threads and the C glue of src/reader and src/writer, the
  SIMD kernels of src/simd (a parameter of the unpackers), the command line tool, and the wrappers
  around the compression libraries.
\<close>

end
